(* ===== verification/Prelude.thy ===== *)
theory Prelude
  imports Main "HOL-Library.Word" "HOL-Library.Monad_Syntax"
begin

text \<open>
  Shared vocabulary of the development.

  Undefined behaviour of C (an access outside an object, a signed overflow) is the value
  \<^term>\<open>None\<close> of \<open>'a c\<close>; a function of the code that touches memory or does signed
  arithmetic returns \<open>'a c\<close> and is written in the option monad, so that a theorem
  \<open>f x = Some y\<close> says that the code runs to its end without undefined behaviour and
  returns \<open>y\<close>. Memory blocks (buffers obtained from malloc or new, arrays of the
  caller) are lists of their cells whose length is the size of the block; \<open>blit\<close>,
  \<open>mem_store\<close> and \<open>mem_copy\<close> are assignment of a run of cells, a write by
  an external function and memcpy between different blocks.
\<close>

type_synonym 'a c = "'a option"
type_synonym byte = "8 word"
type_synonym u16 = "16 word"
type_synonym u32 = "32 word"
type_synonym u64 = "64 word"

named_theorems c_simps \<open>evaluation of checked C operations\<close>
named_theorems blk_simps \<open>lengths and contents of memory blocks\<close>

section \<open>Checked and wrapping integer arithmetic\<close>

definition int_max :: int where "int_max = 2147483647"
definition int_min :: int where "int_min = - 2147483648"

text \<open>The value of a signed \<open>int\<close> expression: overflow is undefined.\<close>

definition s32 :: "int \<Rightarrow> int c" where
  "s32 x = (if int_min \<le> x \<and> x \<le> int_max then Some x else None)"

text \<open>The value of an \<open>unsigned int\<close> expression, and the conversion of one to \<open>int\<close>.\<close>

definition u32_of :: "int \<Rightarrow> int" where
  "u32_of x = x mod 4294967296"

definition s32_of :: "int \<Rightarrow> int" where
  "s32_of x = (let m = x mod 4294967296 in if m \<le> int_max then m else m - 4294967296)"

lemma s32_in_range [c_simps]: "\<lbrakk>int_min \<le> x; x \<le> int_max\<rbrakk> \<Longrightarrow> s32 x = Some x"
  by (simp add: s32_def)

lemma s32_eq_Some: "s32 x = Some y \<longleftrightarrow> y = x \<and> int_min \<le> x \<and> x \<le> int_max"
  by (auto simp: s32_def)

lemma u32_of_id [c_simps]: "\<lbrakk>0 \<le> x; x < 4294967296\<rbrakk> \<Longrightarrow> u32_of x = x"
  by (simp add: u32_of_def)

lemma s32_of_id [c_simps]: "\<lbrakk>0 \<le> x; x \<le> int_max\<rbrakk> \<Longrightarrow> s32_of x = x"
  by (simp add: s32_of_def int_max_def Let_def)

lemma int_div_eq_one: "0 < f \<Longrightarrow> 0 \<le> x \<Longrightarrow> x < f \<Longrightarrow> (x + f) div f = (1 :: int)"
  by (subst div_add_self2) (simp_all add: div_pos_pos_trivial)

lemma div_le_self_int: "0 \<le> n \<Longrightarrow> 0 < f \<Longrightarrow> n div f \<le> (n :: int)"
  by (rule order_trans [OF zdiv_mono2 [of n 1 f]]) auto

section \<open>Memory blocks\<close>

definition blit :: "'a list \<Rightarrow> nat \<Rightarrow> 'a list \<Rightarrow> 'a list" where
  "blit xs off ys = take off xs @ ys @ drop (off + length ys) xs"

definition mem_store :: "'a list \<Rightarrow> int \<Rightarrow> 'a list \<Rightarrow> 'a list c" where
  "mem_store dst off ys =
     (if 0 \<le> off \<and> nat off + length ys \<le> length dst then Some (blit dst (nat off) ys) else None)"

definition mem_load :: "'a list \<Rightarrow> int \<Rightarrow> int \<Rightarrow> 'a list c" where
  "mem_load src off n =
     (if 0 \<le> off \<and> 0 \<le> n \<and> nat off + nat n \<le> length src
      then Some (take (nat n) (drop (nat off) src)) else None)"

definition mem_copy :: "'a list \<Rightarrow> int \<Rightarrow> 'a list \<Rightarrow> int \<Rightarrow> int \<Rightarrow> 'a list c" where
  "mem_copy dst doff src soff n = do { xs \<leftarrow> mem_load src soff n; mem_store dst doff xs }"

lemma length_blit [simp]: "off + length ys \<le> length xs \<Longrightarrow> length (blit xs off ys) = length xs"
  by (simp add: blit_def)

lemma blit_Nil [simp]: "blit xs off [] = xs"
  by (simp add: blit_def)

lemma take_blit [blk_simps]:
  "off + length ys \<le> length xs \<Longrightarrow> take (off + length ys) (blit xs off ys) = take off xs @ ys"
  by (simp add: blit_def)

lemma take_blit_front [blk_simps]:
  "n \<le> off \<Longrightarrow> off \<le> length xs \<Longrightarrow> take n (blit xs off ys) = take n xs"
  by (simp add: blit_def min_def)

lemma drop_blit [blk_simps]:
  "off + length ys \<le> n \<Longrightarrow> off \<le> length xs \<Longrightarrow> drop n (blit xs off ys) = drop n xs"
  by (simp add: blit_def)

lemma blit_zero_all: "length ys = length xs \<Longrightarrow> blit xs 0 ys = ys"
  by (simp add: blit_def)

lemma blit_zero_take [blk_simps]: "length ys \<le> length xs \<Longrightarrow> take (length ys) (blit xs 0 ys) = ys"
  by (simp add: blit_def)

lemma take_blit_shift: "n + i = length b \<Longrightarrow> take n (blit b 0 (take n (drop i b))) = drop i b"
  by (simp add: blit_def)

lemma blit_blit_adj:
  "off + length ys + length zs \<le> length xs \<Longrightarrow>
     blit (blit xs off ys) (off + length ys) zs = blit xs off (ys @ zs)"
  by (simp add: blit_def ac_simps)

lemma mem_store_ok [c_simps]:
  "\<lbrakk>0 \<le> off; nat off + length ys \<le> length dst\<rbrakk> \<Longrightarrow> mem_store dst off ys = Some (blit dst (nat off) ys)"
  by (simp add: mem_store_def)

lemma mem_load_ok [c_simps]:
  "\<lbrakk>0 \<le> off; 0 \<le> n; nat off + nat n \<le> length src\<rbrakk>
     \<Longrightarrow> mem_load src off n = Some (take (nat n) (drop (nat off) src))"
  by (simp add: mem_load_def)

lemma mem_store_Some_length: "mem_store dst off ys = Some d \<Longrightarrow> length d = length dst"
  by (auto simp: mem_store_def split: if_splits)

lemma mem_load_Some_length: "mem_load src off n = Some xs \<Longrightarrow> length xs = nat n"
  by (auto simp: mem_load_def split: if_splits)

lemma mem_copy_ok [c_simps]:
  "\<lbrakk>0 \<le> doff; 0 \<le> soff; 0 \<le> n; nat soff + nat n \<le> length src; nat doff + nat n \<le> length dst\<rbrakk>
     \<Longrightarrow> mem_copy dst doff src soff n = Some (blit dst (nat doff) (take (nat n) (drop (nat soff) src)))"
  by (simp add: mem_copy_def c_simps)

section \<open>Simulation of a contract\<close>

text \<open>
  The interface every component with a contract has: its step function on concrete states, the
  step of the contract on abstract states, the calls the contract allows, and the relation kept by
  every allowed step. \<open>run\<close> and \<open>run_spec\<close> perform a sequence of calls.
\<close>

fun run :: "('o \<Rightarrow> 's \<Rightarrow> ('r \<times> 's) c) \<Rightarrow> 'o list \<Rightarrow> 's \<Rightarrow> ('r list \<times> 's) c" where
  "run f [] s = Some ([], s)"
| "run f (x # xs) s = do { (r, s1) \<leftarrow> f x s; (rs, s2) \<leftarrow> run f xs s1; Some (r # rs, s2) }"

fun run_spec :: "('o \<Rightarrow> 'v \<Rightarrow> 'r \<times> 'v) \<Rightarrow> 'o list \<Rightarrow> 'v \<Rightarrow> 'r list \<times> 'v" where
  "run_spec g [] v = ([], v)"
| "run_spec g (x # xs) v = (case g x v of (r, v1) \<Rightarrow> case run_spec g xs v1 of (rs, v2) \<Rightarrow> (r # rs, v2))"

fun allowed_run :: "('o \<Rightarrow> 'v \<Rightarrow> bool) \<Rightarrow> ('o \<Rightarrow> 'v \<Rightarrow> 'r \<times> 'v) \<Rightarrow> 'o list \<Rightarrow> 'v \<Rightarrow> bool" where
  "allowed_run ok g [] v \<longleftrightarrow> True"
| "allowed_run ok g (x # xs) v \<longleftrightarrow> ok x v \<and> allowed_run ok g xs (snd (g x v))"

locale simulation =
  fixes related :: "'s \<Rightarrow> 'v \<Rightarrow> bool"
    and step :: "'o \<Rightarrow> 's \<Rightarrow> ('r \<times> 's) c"
    and spec :: "'o \<Rightarrow> 'v \<Rightarrow> 'r \<times> 'v"
    and allowed :: "'o \<Rightarrow> 'v \<Rightarrow> bool"
  assumes simulates_step: "related s v \<Longrightarrow> allowed x v \<Longrightarrow>
    \<exists>s'. step x s = Some (fst (spec x v), s') \<and> related s' (snd (spec x v))"
begin

lemma simulates_run:
  "related s v \<Longrightarrow> allowed_run allowed spec xs v \<Longrightarrow>
     \<exists>s'. run step xs s = Some (fst (run_spec spec xs v), s') \<and> related s' (snd (run_spec spec xs v))"
proof (induction xs arbitrary: s v)
  case (Cons x xs)
  obtain s1 where s1: "step x s = Some (fst (spec x v), s1)" "related s1 (snd (spec x v))"
    using simulates_step [OF Cons.prems(1)] Cons.prems(2) by auto
  then obtain s2 where "run step xs s1 = Some (fst (run_spec spec xs (snd (spec x v))), s2)"
    "related s2 (snd (run_spec spec xs (snd (spec x v))))"
    using Cons.IH [OF s1(2)] Cons.prems(2) by auto
  then show ?case using s1 by (auto simp: case_prod_beta)
qed auto

lemma run_result:
  "related s v \<Longrightarrow> allowed_run allowed spec xs v \<Longrightarrow> map_option fst (run step xs s) = Some (fst (run_spec spec xs v))"
  using simulates_run by fastforce

lemma run_defined: "related s v \<Longrightarrow> allowed_run allowed spec xs v \<Longrightarrow> run step xs s \<noteq> None"
  using simulates_run by fastforce

end

section \<open>Observed transition systems\<close>

text \<open>
  Runs of a labelled transition relation, and an observer that reads the labels of a run: when every
  step keeps the relation \<open>inv\<close> of observer and state, the observer accepts every run.
\<close>

inductive steps :: "('s \<Rightarrow> 'e \<Rightarrow> 's \<Rightarrow> bool) \<Rightarrow> 's \<Rightarrow> 'e list \<Rightarrow> 's \<Rightarrow> bool"
  for step :: "'s \<Rightarrow> 'e \<Rightarrow> 's \<Rightarrow> bool" where
  steps_none: "steps step s [] s"
| steps_more: "steps step s es s1 \<Longrightarrow> step s1 e s2 \<Longrightarrow> steps step s (es @ [e]) s2"

primrec observe :: "('v \<Rightarrow> 'e \<Rightarrow> 'v option) \<Rightarrow> 'v \<Rightarrow> 'e list \<Rightarrow> 'v option" where
  "observe obs v [] = Some v"
| "observe obs v (e # es) = (case obs v e of None \<Rightarrow> None | Some v' \<Rightarrow> observe obs v' es)"

lemma observe_append: "observe obs v (es @ fs) = Option.bind (observe obs v es) (\<lambda>v'. observe obs v' fs)"
  by (induction es arbitrary: v) (auto split: option.split)

lemma steps_Cons: "steps step s2 es s3 \<Longrightarrow> step s1 e s2 \<Longrightarrow> steps step s1 (e # es) s3"
proof (induction rule: steps.induct)
  case (steps_none s)
  then show ?case using steps.steps_more [OF steps.steps_none, of step s1 e s] by simp
next
  case (steps_more s es s3 f s4)
  then show ?case using steps.steps_more [of step s1 "e # es" s3 f s4] by simp
qed

text \<open>A run without the event \<open>f\<close>.\<close>

lemma steps_without: "steps step s es s' \<Longrightarrow> f \<notin> set es \<Longrightarrow> steps (\<lambda>s e s'. step s e s' \<and> e \<noteq> f) s es s'"
  by (induction rule: steps.induct) (auto intro: steps.intros)

locale observed =
  fixes step :: "'s \<Rightarrow> 'e \<Rightarrow> 's \<Rightarrow> bool"
    and obs :: "'v \<Rightarrow> 'e \<Rightarrow> 'v option"
    and inv :: "'v \<Rightarrow> 's \<Rightarrow> bool"
  assumes observe_step: "inv v s \<Longrightarrow> step s e s' \<Longrightarrow> \<exists>v'. obs v e = Some v' \<and> inv v' s'"
begin

lemma observe_steps: "steps step s es s' \<Longrightarrow> inv v s \<Longrightarrow> \<exists>v'. observe obs v es = Some v' \<and> inv v' s'"
proof (induction rule: steps.induct)
  case (steps_more s es s1 e s2)
  then obtain v1 v2 where "observe obs v es = Some v1" "obs v1 e = Some v2" "inv v2 s2"
    using observe_step by blast
  then show ?case by (simp add: observe_append)
qed simp

lemma reachable_inv: "steps step s es s' \<Longrightarrow> inv v s \<Longrightarrow> \<exists>v'. inv v' s'"
  using observe_steps by blast

text \<open>An invariant \<open>J\<close> of the runs with events in \<open>E\<close> that needs the relation \<open>inv\<close>.\<close>

lemma invariant_with:
  assumes "steps step s es s'" "inv v s" "J s"
    and "\<And>v s e s'. e \<in> set es \<Longrightarrow> inv v s \<Longrightarrow> J s \<Longrightarrow> step s e s' \<Longrightarrow> J s'"
  shows "J s'"
  using assms
proof (induction rule: steps.induct)
  case (steps_more s es s1 e s2)
  have "J s1" by (rule steps_more.IH [OF steps_more.prems(1,2)]) (use steps_more.prems(3) in auto)
  moreover obtain w where "inv w s1" using reachable_inv [OF steps_more.hyps(1) steps_more.prems(1)] by blast
  ultimately show ?case using steps_more.hyps(2) steps_more.prems(3) by (metis in_set_conv_decomp)
qed simp

end

end
