(* ===== verification/MicArray.thy ===== *)
theory MicArray
  imports Prelude
begin

text \<open>
  The microphone array HAL, \<open>mic_array.c\<close>: opening and starting the capture stream, the
  search for the sound card, the mixer set-up of the platform build, and the reassembly of the
  byte stream that \<open>read_stream\<close> performs with a one-frame cache.

  tinyalsa is not part of the repository: \<open>pcm_read\<close> is a parameter \<open>rd\<close> that maps
  the state of the PCM device and a byte count to a return code, the bytes it wrote and the next
  state. \<open>memcpy\<close> between overlapping regions has no meaning in C, so what it does
  there is the parameter \<open>mv\<close>, with None for no meaning; \<open>no_overlap\<close> is the C standard's.
\<close>

section \<open>Data\<close>

text \<open>
  \<open>struct mic_array_device_ex\<close>: the embedded \<open>mic_array_device_t\<close> contributes
  \<open>frame_cnt\<close> (unsigned, the size of a frame in bytes) and the PCM handle.
\<close>

record 's mic_dev =
  frame_cnt :: int
  pcm :: "'s option"
  pts :: int
  buffer :: "byte list"

type_synonym 's pcm_reader = "'s \<Rightarrow> nat \<Rightarrow> int \<times> byte list \<times> 's"
type_synonym overlap = "byte list \<Rightarrow> nat \<Rightarrow> nat \<Rightarrow> byte list c"

definition pcm_read_ok :: "'s pcm_reader \<Rightarrow> bool" where
  "pcm_read_ok rd \<longleftrightarrow>
     (\<forall>s n. length (fst (snd (rd s n))) \<le> n \<and> (fst (rd s n) = 0 \<longrightarrow> length (fst (snd (rd s n))) = n))"

definition memmove_like :: "overlap \<Rightarrow> bool" where
  "memmove_like mv \<longleftrightarrow> (\<forall>b s n. s + n \<le> length b \<longrightarrow> mv b s n = Some (blit b 0 (take n (drop s b))))"

definition keeps_length :: "overlap \<Rightarrow> bool" where
  "keeps_length mv \<longleftrightarrow> (\<forall>b s n. \<exists>r. mv b s n = Some r \<and> length r = length b)"

definition no_overlap :: overlap where
  "no_overlap b s n = None"

text \<open>\<open>memcpy(buf, buf + soff, n)\<close> inside one block.\<close>

definition copy_down :: "overlap \<Rightarrow> byte list \<Rightarrow> int \<Rightarrow> int \<Rightarrow> byte list c" where
  "copy_down mv b soff n =
     (if 0 \<le> soff \<and> 0 \<le> n \<and> nat soff + nat n \<le> length b
      then (if n \<le> soff then Some (blit b 0 (take (nat n) (drop (nat soff) b))) else mv b (nat soff) (nat n))
      else None)"

text \<open>A platform whose \<open>memcpy\<close> is \<open>memmove\<close>.\<close>

definition move_overlap :: overlap where
  "move_overlap b s n = Some (if s + n \<le> length b then blit b 0 (take n (drop s b)) else b)"

lemma move_overlap_ok: "memmove_like move_overlap" "keeps_length move_overlap"
  by (simp_all add: memmove_like_def keeps_length_def move_overlap_def)

section \<open>Reading the stream\<close>

definition reset_buffer :: "'s mic_dev \<Rightarrow> 's mic_dev" where
  "reset_buffer dev = dev\<lparr>pts := 0\<rparr>"

text \<open>\<open>read_frame(dev, dst + off)\<close>: the frame goes into the block \<open>dst\<close>.\<close>

definition read_frame ::
  "'s pcm_reader \<Rightarrow> 's mic_dev \<Rightarrow> byte list \<Rightarrow> int \<Rightarrow> (int \<times> byte list \<times> 's mic_dev) c" where
  "read_frame rd dev dst off =
     (case pcm dev of
        None \<Rightarrow> None
      | Some s \<Rightarrow>
          (case rd s (nat (frame_cnt dev)) of (ret, bs, s') \<Rightarrow> do {
             dst' \<leftarrow> mem_store dst off bs;
             Some (ret, dst', dev\<lparr>pcm := Some s'\<rparr>)
           }))"

definition read_left_frame ::
  "'s pcm_reader \<Rightarrow> overlap \<Rightarrow> 's mic_dev \<Rightarrow> byte list \<Rightarrow> int \<Rightarrow> int
     \<Rightarrow> (int \<times> 's mic_dev \<times> byte list) c" where
  "read_left_frame rd mv dev buff off left =
     (if pts dev = 0 then do {
        (ret, b, dev1) \<leftarrow> read_frame rd dev (buffer dev) 0;
        (if ret \<noteq> 0 then Some (ret, reset_buffer (dev1\<lparr>buffer := b\<rparr>), buff)
         else do {
           buff1 \<leftarrow> mem_copy buff off b 0 left;
           b1 \<leftarrow> copy_down mv b left (u32_of (frame_cnt dev1 - left));
           Some (0, dev1\<lparr>buffer := b1, pts := s32_of (frame_cnt dev1 - left)\<rparr>, buff1)
         })
      }
      else if left \<le> pts dev then do {
        buff1 \<leftarrow> mem_copy buff off (buffer dev) 0 left;
        p \<leftarrow> s32 (pts dev - left);
        b1 \<leftarrow> (if p \<noteq> 0 then copy_down mv (buffer dev) left p else Some (buffer dev));
        Some (0, dev\<lparr>buffer := b1, pts := p\<rparr>, buff1)
      }
      else do {
        buff1 \<leftarrow> mem_copy buff off (buffer dev) 0 (pts dev);
        left1 \<leftarrow> s32 (left - pts dev);
        (ret, b, dev1) \<leftarrow> read_frame rd dev (buffer dev) 0;
        (if ret \<noteq> 0 then Some (ret, reset_buffer (dev1\<lparr>buffer := b\<rparr>), buff1)
         else do {
           buff2 \<leftarrow> mem_copy buff1 (off + pts dev1) b 0 left1;
           b1 \<leftarrow> copy_down mv b left1 (u32_of (frame_cnt dev1 - left1));
           Some (0, dev1\<lparr>buffer := b1, pts := s32_of (frame_cnt dev1 - left1)\<rparr>, buff2)
         })
      })"

text \<open>The loop of \<open>read_stream\<close> over whole frames; \<open>k\<close> iterations remain.\<close>

fun read_frames ::
  "'s pcm_reader \<Rightarrow> 's mic_dev \<Rightarrow> byte list \<Rightarrow> int \<Rightarrow> int \<Rightarrow> nat
     \<Rightarrow> (int \<times> 's mic_dev \<times> byte list) c" where
  "read_frames rd dev buff sz i 0 = Some (0, dev, buff)"
| "read_frames rd dev buff sz i (Suc k) = do {
     o1 \<leftarrow> s32 (i * sz);
     (ret, buff1, dev1) \<leftarrow> read_frame rd dev buff (pts dev + o1);
     (if ret \<noteq> 0 then Some (ret, reset_buffer dev1, buff1)
      else read_frames rd dev1 buff1 sz (i + 1) k)
   }"

definition finish_read ::
  "'s pcm_reader \<Rightarrow> overlap \<Rightarrow> 's mic_dev \<Rightarrow> byte list \<Rightarrow> int \<Rightarrow> int
     \<Rightarrow> (int \<times> 's mic_dev \<times> byte list) c" where
  "finish_read rd mv dev buff target left = do {
     (ret, dev1, buff1) \<leftarrow> read_left_frame rd mv dev buff target left;
     (if ret \<noteq> 0 then Some (ret, reset_buffer dev1, buff1) else Some (ret, dev1, buff1))
   }"

definition read_stream ::
  "'s pcm_reader \<Rightarrow> overlap \<Rightarrow> 's mic_dev \<Rightarrow> byte list option \<Rightarrow> int
     \<Rightarrow> (int \<times> 's mic_dev \<times> byte list) c" where
  "read_stream rd mv dev buffo n =
     (let sz = s32_of (frame_cnt dev) in
      if sz \<le> 0 then Some (-1, dev, case buffo of None \<Rightarrow> [] | Some b \<Rightarrow> b)
      else (case buffo of
        None \<Rightarrow> Some (-1, dev, [])
      | Some buff \<Rightarrow>
          if sz \<le> n then do {
            let left = s32_of (n mod sz);
            cnt \<leftarrow> (if left < pts dev then s32 (s32_of (n div sz) - 1) else Some (s32_of (n div sz)));
            buff1 \<leftarrow> (if 0 < pts dev then mem_copy buff 0 (buffer dev) 0 (pts dev) else Some buff);
            (ret, dev1, buff2) \<leftarrow> read_frames rd dev buff1 sz 0 (nat cnt);
            (if ret \<noteq> 0 then Some (ret, dev1, buff2)
             else do {
               whole \<leftarrow> s32 (cnt * sz);
               used \<leftarrow> s32 (pts dev1 + whole);
               (if u32_of (n - used) = 0 then Some (ret, dev1\<lparr>pts := 0\<rparr>, buff2)
                else finish_read rd mv (dev1\<lparr>pts := 0\<rparr>) buff2 used (s32_of (n - used)))
             })
          }
          else finish_read rd mv dev buff 0 n))"

section \<open>What the stream delivers\<close>

text \<open>
  The specification: \<open>frames rd s n k\<close> are the bytes of the next \<open>k\<close> frames the PCM
  device delivers from state \<open>s\<close>, and \<open>pending\<close> the bytes the HAL has cached.
\<close>

fun frames :: "'s pcm_reader \<Rightarrow> 's \<Rightarrow> nat \<Rightarrow> nat \<Rightarrow> (byte list \<times> 's) option" where
  "frames rd s n 0 = Some ([], s)"
| "frames rd s n (Suc k) =
     (case rd s n of (ret, bs, s') \<Rightarrow>
        if ret \<noteq> 0 then None
        else (case frames rd s' n k of None \<Rightarrow> None | Some (ys, t) \<Rightarrow> Some (bs @ ys, t)))"

definition pending :: "'s mic_dev \<Rightarrow> byte list" where
  "pending dev = take (nat (pts dev)) (buffer dev)"

definition mic_ok :: "'s mic_dev \<Rightarrow> bool" where
  "mic_ok dev \<longleftrightarrow> 0 < frame_cnt dev \<and> frame_cnt dev \<le> int_max
     \<and> int (length (buffer dev)) = frame_cnt dev \<and> 0 \<le> pts dev \<and> pts dev \<le> frame_cnt dev"

text \<open>How many frames a request of \<open>n\<close> bytes takes from the device.\<close>

definition frames_needed :: "'s mic_dev \<Rightarrow> int \<Rightarrow> nat" where
  "frames_needed dev n =
     (if n = 0 \<and> pts dev = 0 then 1
      else nat ((max 0 (n - pts dev) + frame_cnt dev - 1) div frame_cnt dev))"

lemma mic_okD:
  assumes "mic_ok dev"
  shows "0 < frame_cnt dev" "frame_cnt dev \<le> int_max" "int (length (buffer dev)) = frame_cnt dev"
    "length (buffer dev) = nat (frame_cnt dev)" "0 \<le> pts dev" "pts dev \<le> frame_cnt dev"
  using assms by (auto simp: mic_ok_def)

lemma length_pending: "mic_ok dev \<Longrightarrow> int (length (pending dev)) = pts dev"
  by (auto simp: mic_ok_def pending_def)

lemma read_frame_eq:
  assumes "pcm_read_ok rd" "pcm dev = Some s" "rd s (nat (frame_cnt dev)) = (ret, bs, s')"
    "0 \<le> off" "nat off + nat (frame_cnt dev) \<le> length dst"
  shows "read_frame rd dev dst off = Some (ret, blit dst (nat off) bs, dev\<lparr>pcm := Some s'\<rparr>)"
proof -
  have "length bs \<le> nat (frame_cnt dev)"
    using assms(1,3) unfolding pcm_read_ok_def by (metis fst_conv snd_conv)
  then show ?thesis using assms by (simp add: read_frame_def c_simps)
qed

lemma pcm_read_okD: "pcm_read_ok rd \<Longrightarrow> rd s n = (0, bs, s') \<Longrightarrow> length bs = n"
  unfolding pcm_read_ok_def by (metis fst_conv snd_conv)

lemma pcm_read_le: "pcm_read_ok rd \<Longrightarrow> rd s n = (ret, bs, s') \<Longrightarrow> length bs \<le> n"
  unfolding pcm_read_ok_def by (metis fst_conv snd_conv)

lemma frames_length:
  "pcm_read_ok rd \<Longrightarrow> frames rd s n k = Some (ys, t) \<Longrightarrow> length ys = k * n"
proof (induction k arbitrary: s ys)
  case (Suc k)
  then show ?case
    by (auto split: prod.splits if_splits option.splits dest: pcm_read_okD)
qed simp

lemma frames_add:
  "frames rd s n (j + k) =
     (case frames rd s n j of None \<Rightarrow> None
      | Some (ys, t) \<Rightarrow> (case frames rd t n k of None \<Rightarrow> None | Some (zs, u) \<Rightarrow> Some (ys @ zs, u)))"
proof (induction j arbitrary: s)
  case (Suc j)
  show ?case by (auto simp: Suc split: prod.splits option.splits)
qed (simp split: option.splits)

lemma copy_down_ok:
  assumes "memmove_like mv" "0 \<le> soff" "0 \<le> n" "nat soff + nat n \<le> length b"
  shows "copy_down mv b soff n = Some (blit b 0 (take (nat n) (drop (nat soff) b)))"
  using assms by (simp add: copy_down_def memmove_like_def)

text \<open>The whole frames land behind the cached bytes, in order.\<close>

lemma read_frames_ok:
  assumes rd: "pcm_read_ok rd" and dev: "pcm dev = Some s" "frame_cnt dev = sz" "0 < sz" "0 \<le> pts dev"
    and fr: "frames rd s (nat sz) k = Some (ys, t)"
    and i: "0 \<le> i" "(i + int k) * sz \<le> int_max"
    and room: "nat (pts dev + i * sz) + k * nat sz \<le> length buff"
  shows "read_frames rd dev buff sz i k =
           Some (0, dev\<lparr>pcm := Some t\<rparr>, blit buff (nat (pts dev + i * sz)) ys)"
  using dev fr i room
proof (induction k arbitrary: dev buff s i ys)
  case 0
  then show ?case by (cases dev) auto
next
  case (Suc k)
  obtain bs s' ys' where r: "rd s (nat sz) = (0, bs, s')" and ys': "frames rd s' (nat sz) k = Some (ys', t)"
    and ys: "ys = bs @ ys'"
    using Suc.prems(5) by (auto split: prod.splits if_splits option.splits)
  have lbs: "length bs = nat sz" by (rule pcm_read_okD [OF rd r])
  have len: "length ys' = k * nat sz" by (rule frames_length [OF rd ys'])
  have nn: "0 \<le> i * sz" using Suc.prems by simp
  have le: "i * sz \<le> int_max"
  proof -
    have "i * sz \<le> (i + int (Suc k)) * sz" using Suc.prems by (intro mult_right_mono) auto
    then show ?thesis using Suc.prems by linarith
  qed
  have s32: "s32 (i * sz) = Some (i * sz)" using nn le by (simp add: s32_def int_min_def)
  let ?off = "nat (pts dev + i * sz)"
  let ?dev = "dev\<lparr>pcm := Some s'\<rparr>"
  have rf: "read_frame rd dev buff (pts dev + i * sz) = Some (0, blit buff ?off bs, ?dev)"
    using rd Suc.prems nn r by (intro read_frame_eq) auto
  have off: "nat (pts ?dev + (i + 1) * sz) = ?off + length bs"
    using Suc.prems nn by (simp add: lbs algebra_simps nat_add_distrib)
  have room': "nat (pts ?dev + (i + 1) * sz) + k * nat sz \<le> length (blit buff ?off bs)"
    using Suc.prems(8) by (subst off) (simp add: lbs algebra_simps)
  have "read_frames rd ?dev (blit buff ?off bs) sz (i + 1) k =
          Some (0, ?dev\<lparr>pcm := Some t\<rparr>, blit (blit buff ?off bs) (nat (pts ?dev + (i + 1) * sz)) ys')"
    by (rule Suc.IH) (use Suc.prems ys' room' in \<open>auto simp: algebra_simps\<close>)
  also have "blit (blit buff ?off bs) (nat (pts ?dev + (i + 1) * sz)) ys' = blit buff ?off ys"
    unfolding off ys using Suc.prems(8) by (intro blit_blit_adj) (simp add: lbs len)
  finally show ?case using s32 rf by simp
qed

text \<open>
  The three branches of \<open>read_left_frame\<close> are one law: the target gets the first
  \<open>left\<close> bytes of the cached bytes followed by the frames read, the cache the rest.
\<close>

definition left_frames :: "'s mic_dev \<Rightarrow> int \<Rightarrow> nat" where
  "left_frames dev left = (if pts dev \<noteq> 0 \<and> left \<le> pts dev then 0 else 1)"

lemma mic_ok_update:
  assumes "mic_ok dev" "length b = length (buffer dev)" "0 \<le> p" "p \<le> frame_cnt dev"
  shows "mic_ok (dev\<lparr>pcm := h, buffer := b, pts := p\<rparr>)"
  using assms by (simp add: mic_ok_def)

lemma read_left_empty:
  assumes "pcm_read_ok rd" "memmove_like mv" "mic_ok dev" "pcm dev = Some s" "pts dev = 0"
    and r: "rd s (nat (frame_cnt dev)) = (0, bs, t)"
    and l: "0 \<le> off" "0 \<le> left" "left \<le> frame_cnt dev" "nat off + nat left \<le> length buff"
  shows "\<exists>dev'. read_left_frame rd mv dev buff off left = Some (0, dev', blit buff (nat off) (take (nat left) bs))
           \<and> mic_ok dev' \<and> pcm dev' = Some t \<and> frame_cnt dev' = frame_cnt dev
           \<and> pending dev' = drop (nat left) bs"
proof -
  note ok = mic_okD [OF assms(3)]
  have lb: "length bs = nat (frame_cnt dev)" by (rule pcm_read_okD [OF assms(1) r])
  have b: "blit (buffer dev) 0 bs = bs" using lb ok by (simp add: blit_zero_all)
  have rf: "read_frame rd dev (buffer dev) 0 = Some (0, bs, dev\<lparr>pcm := Some t\<rparr>)"
    using read_frame_eq [OF assms(1,4) r, of 0 "buffer dev"] ok b by simp
  let ?p = "frame_cnt dev - left"
  have u: "u32_of ?p = ?p" "s32_of ?p = ?p" using l ok by (simp_all add: c_simps int_max_def)
  let ?b1 = "blit bs 0 (take (nat ?p) (drop (nat left) bs))"
  have cd: "copy_down mv bs left ?p = Some ?b1"
    using assms(2) l ok by (intro copy_down_ok) (simp_all add: lb)
  have mc: "mem_copy buff off bs 0 left = Some (blit buff (nat off) (take (nat left) bs))"
    using l ok by (simp add: c_simps lb)
  let ?dev' = "dev\<lparr>pcm := Some t, buffer := ?b1, pts := ?p\<rparr>"
  have eq: "read_left_frame rd mv dev buff off left = Some (0, ?dev', blit buff (nat off) (take (nat left) bs))"
    using assms(5) rf mc cd u by (simp add: read_left_frame_def)
  have "mic_ok ?dev'" using l ok lb by (intro mic_ok_update [OF assms(3)]) (simp_all)
  moreover have "pending ?dev' = drop (nat left) bs"
    using l ok lb by (simp add: pending_def blit_def)
  ultimately show ?thesis using eq by (intro exI [of _ ?dev']) simp
qed

lemma read_left_cached:
  assumes "memmove_like mv" "mic_ok dev" "pts dev \<noteq> 0" "left \<le> pts dev"
    and l: "0 \<le> off" "0 \<le> left" "nat off + nat left \<le> length buff"
  shows "\<exists>dev'. read_left_frame rd mv dev buff off left
             = Some (0, dev', blit buff (nat off) (take (nat left) (pending dev)))
           \<and> mic_ok dev' \<and> pcm dev' = pcm dev \<and> frame_cnt dev' = frame_cnt dev
           \<and> pending dev' = drop (nat left) (pending dev)"
proof -
  note ok = mic_okD [OF assms(2)]
  let ?p = "pts dev - left"
  let ?b1 = "blit (buffer dev) 0 (take (nat ?p) (drop (nat left) (buffer dev)))"
  let ?dev' = "dev\<lparr>buffer := ?b1, pts := ?p\<rparr>"
  have s: "s32 ?p = Some ?p" using l ok assms(4) by (simp add: s32_def int_min_def int_max_def)
  have mc: "mem_copy buff off (buffer dev) 0 left = Some (blit buff (nat off) (take (nat left) (pending dev)))"
    using l ok assms(4) by (simp add: c_simps pending_def min_def nat_le_iff)
  have cd: "(if ?p \<noteq> 0 then copy_down mv (buffer dev) left ?p else Some (buffer dev)) = Some ?b1"
    using assms(1,4) l ok by (auto simp: copy_down_ok nat_add_distrib [symmetric])
  have eq: "read_left_frame rd mv dev buff off left
              = Some (0, ?dev', blit buff (nat off) (take (nat left) (pending dev)))"
    using assms(3,4) s mc cd by (simp add: read_left_frame_def)
  have "mic_ok (dev\<lparr>pcm := pcm dev, buffer := ?b1, pts := ?p\<rparr>)"
    using l ok assms(4) by (intro mic_ok_update [OF assms(2)]) (simp_all add: nat_le_iff)
  moreover have "pending ?dev' = drop (nat left) (pending dev)"
    using l ok assms(4) by (simp add: pending_def blit_def drop_take nat_diff_distrib min_def nat_le_iff)
  ultimately show ?thesis using eq by (intro exI [of _ ?dev']) simp
qed

lemma read_left_refill:
  assumes "pcm_read_ok rd" "memmove_like mv" "mic_ok dev" "pcm dev = Some s" "pts dev \<noteq> 0" "pts dev < left"
    and r: "rd s (nat (frame_cnt dev)) = (0, bs, t)"
    and l: "0 \<le> off" "left \<le> frame_cnt dev" "nat off + nat left \<le> length buff"
  shows "\<exists>dev'. read_left_frame rd mv dev buff off left
             = Some (0, dev', blit buff (nat off) (take (nat left) (pending dev @ bs)))
           \<and> mic_ok dev' \<and> pcm dev' = Some t \<and> frame_cnt dev' = frame_cnt dev
           \<and> pending dev' = drop (nat left) (pending dev @ bs)"
proof -
  note ok = mic_okD [OF assms(3)]
  have lb: "length bs = nat (frame_cnt dev)" by (rule pcm_read_okD [OF assms(1) r])
  have b: "blit (buffer dev) 0 bs = bs" using lb ok by (simp add: blit_zero_all)
  have rf: "read_frame rd dev (buffer dev) 0 = Some (0, bs, dev\<lparr>pcm := Some t\<rparr>)"
    using read_frame_eq [OF assms(1,4) r, of 0 "buffer dev"] ok b by simp
  let ?l = "left - pts dev"
  let ?p = "frame_cnt dev - ?l"
  have lp: "length (pending dev) = nat (pts dev)" using length_pending [OF assms(3)] by simp
  have u: "u32_of ?p = ?p" "s32_of ?p = ?p" "s32 ?l = Some ?l"
    using l ok assms(6) by (simp_all add: c_simps int_max_def int_min_def)
  have m1: "mem_copy buff off (buffer dev) 0 (pts dev) = Some (blit buff (nat off) (pending dev))"
    using l ok assms(6) by (simp add: c_simps pending_def)
  have no: "nat (off + pts dev) = nat off + length (pending dev)"
    using l ok lp by (simp add: nat_add_distrib)
  have nl: "nat left = length (pending dev) + nat ?l" using ok assms(6) lp by simp
  have m2: "mem_copy (blit buff (nat off) (pending dev)) (off + pts dev) bs 0 ?l
              = Some (blit buff (nat off) (take (nat left) (pending dev @ bs)))"
  proof -
    have room: "nat off + length (pending dev) + nat ?l \<le> length buff" using l(3) nl by simp
    have lt: "nat ?l \<le> nat (frame_cnt dev)" using l ok by simp
    have "mem_copy (blit buff (nat off) (pending dev)) (off + pts dev) bs 0 ?l
            = Some (blit (blit buff (nat off) (pending dev)) (nat (off + pts dev)) (take (nat ?l) (drop (nat 0) bs)))"
      using room lt lb l ok assms(6) no by (intro mem_copy_ok) simp_all
    moreover have "blit (blit buff (nat off) (pending dev)) (nat (off + pts dev)) (take (nat ?l) bs)
            = blit buff (nat off) (take (nat left) (pending dev @ bs))"
      using room lt lb nl by (simp add: no blit_blit_adj)
    ultimately show ?thesis by simp
  qed
  have nd: "nat ?p + nat ?l = nat (frame_cnt dev)"
    using l ok assms(6) by (simp add: nat_add_distrib [symmetric])
  let ?b1 = "blit bs 0 (take (nat ?p) (drop (nat ?l) bs))"
  have cd: "copy_down mv bs ?l ?p = Some ?b1"
    using assms(2,6) l ok nd by (intro copy_down_ok) (simp_all add: lb)
  let ?dev' = "dev\<lparr>pcm := Some t, buffer := ?b1, pts := ?p\<rparr>"
  have eq: "read_left_frame rd mv dev buff off left
              = Some (0, ?dev', blit buff (nat off) (take (nat left) (pending dev @ bs)))"
    using assms(5,6) rf m1 m2 cd u by (simp add: read_left_frame_def)
  have "length ?b1 = nat (frame_cnt dev)" using nd lb by (subst length_blit) auto
  then have "mic_ok ?dev'" using l ok assms(6) by (intro mic_ok_update [OF assms(3)]) auto
  moreover have "pending ?dev' = drop (nat left) (pending dev @ bs)"
    using nd lb nl take_blit_shift [of "nat ?p" "nat ?l" bs] by (simp add: pending_def [of ?dev'])
  ultimately show ?thesis using eq by (intro exI [of _ ?dev']) simp
qed

lemma read_left_ok:
  assumes "pcm_read_ok rd" "memmove_like mv" "mic_ok dev" "pcm dev = Some s"
    and fr: "frames rd s (nat (frame_cnt dev)) (left_frames dev left) = Some (ys, t)"
    and l: "0 \<le> off" "0 \<le> left" "left \<le> frame_cnt dev" "nat off + nat left \<le> length buff"
  shows "\<exists>dev'. finish_read rd mv dev buff off left
             = Some (0, dev', blit buff (nat off) (take (nat left) (pending dev @ ys)))
           \<and> mic_ok dev' \<and> pcm dev' = Some t \<and> frame_cnt dev' = frame_cnt dev
           \<and> pending dev' = drop (nat left) (pending dev @ ys)"
proof -
  have "\<exists>dev'. read_left_frame rd mv dev buff off left
             = Some (0, dev', blit buff (nat off) (take (nat left) (pending dev @ ys)))
           \<and> mic_ok dev' \<and> pcm dev' = Some t \<and> frame_cnt dev' = frame_cnt dev
           \<and> pending dev' = drop (nat left) (pending dev @ ys)"
  proof (cases "pts dev \<noteq> 0 \<and> left \<le> pts dev")
    case True
    then have yt: "ys = []" "t = s" using fr by (auto simp: left_frames_def)
    show ?thesis
      using read_left_cached [OF assms(2,3) _ _ l(1,2,4), where rd = rd] True yt assms(4) by auto
  next
    case False
    then have r: "rd s (nat (frame_cnt dev)) = (0, ys, t)"
      using fr by (auto simp: left_frames_def split: prod.splits if_splits)
    show ?thesis
    proof (cases "pts dev = 0")
      case True
      then have "pending dev = []" by (simp add: pending_def)
      then show ?thesis using read_left_empty [OF assms(1-4) True r l] by simp
    next
      case pos: False
      with False show ?thesis using read_left_refill [OF assms(1-4) pos _ r l(1,3,4)] by auto
    qed
  qed
  then show ?thesis by (auto simp: finish_read_def)
qed

text \<open>
  The whole-frame part of \<open>read_stream\<close>: cached bytes, then \<open>cnt\<close> frames, where
  \<open>cnt\<close> is lowered by one when the cache already covers the remainder.
\<close>

definition whole_frames :: "'s mic_dev \<Rightarrow> int \<Rightarrow> int" where
  "whole_frames dev n =
     (if n mod frame_cnt dev < pts dev then n div frame_cnt dev - 1 else n div frame_cnt dev)"

lemma whole_frames_props:
  assumes "mic_ok dev" "frame_cnt dev \<le> n"
  shows "0 \<le> whole_frames dev n" "pts dev + whole_frames dev n * frame_cnt dev \<le> n"
    "n < pts dev + whole_frames dev n * frame_cnt dev + frame_cnt dev"
proof -
  note ok = mic_okD [OF assms(1)]
  define q m where "q = n div frame_cnt dev" and "m = n mod frame_cnt dev"
  have d: "q * frame_cnt dev + m = n" by (simp add: q_def m_def)
  have m: "0 \<le> m" "m < frame_cnt dev" using ok by (auto simp: m_def)
  have q: "1 \<le> q"
    using assms(2) ok by (simp add: q_def pos_imp_zdiv_pos_iff int_one_le_iff_zero_less)
  have w: "whole_frames dev n = (if m < pts dev then q - 1 else q)"
    by (simp add: whole_frames_def q_def m_def)
  have e: "(q - 1) * frame_cnt dev = q * frame_cnt dev - frame_cnt dev" by (simp add: left_diff_distrib)
  show "0 \<le> whole_frames dev n" using q by (simp add: w)
  have *: "whole_frames dev n * frame_cnt dev = n - m - (if m < pts dev then frame_cnt dev else 0)"
    using d e by (auto simp: w)
  show "pts dev + whole_frames dev n * frame_cnt dev \<le> n"
    "n < pts dev + whole_frames dev n * frame_cnt dev + frame_cnt dev"
    unfolding * using m ok by (auto split: if_splits)
qed

lemma frames_needed_large:
  assumes ok: "mic_ok dev" and n: "frame_cnt dev \<le> n"
  shows "frames_needed dev n = nat (whole_frames dev n) + (if n = pts dev + whole_frames dev n * frame_cnt dev then 0 else 1)"
proof -
  note k = mic_okD [OF ok] and w = whole_frames_props [OF ok n]
  let ?w = "whole_frames dev n" and ?f = "frame_cnt dev"
  define r where "r = n - (pts dev + ?w * ?f)"
  have r: "0 \<le> r" "r < ?f" using w by (auto simp: r_def)
  have "?f - 1 + (n - pts dev) = (r + ?f - 1) + ?w * ?f" by (simp add: r_def)
  then have "(?f - 1 + (n - pts dev)) div ?f = ?w + (r + ?f - 1) div ?f"
    using k by (simp only: div_mult_self1 [of ?f])
  moreover have "(r + ?f - 1) div ?f = (if r = 0 then 0 else 1)"
  proof (cases "r = 0")
    case True then show ?thesis using k by simp
  next
    case False
    then have "(r - 1 + ?f) div ?f = 1" using r k by (intro int_div_eq_one) simp_all
    then show ?thesis using False by (simp add: algebra_simps)
  qed
  ultimately have *: "(max 0 (n - pts dev) + ?f - 1) div ?f = ?w + (if r = 0 then 0 else 1)"
    using k n by (simp add: max_def algebra_simps)
  have "frames_needed dev n = nat (?w + (if r = 0 then 0 else 1))"
    using n k by (simp only: frames_needed_def *) simp
  then show ?thesis using w(1) by (auto simp: r_def nat_add_distrib)
qed

lemma frames_needed_small:
  assumes "mic_ok dev" "0 \<le> n" "n < frame_cnt dev"
  shows "frames_needed dev n = left_frames dev n"
proof -
  note k = mic_okD [OF assms(1)]
  have "(n - pts dev - 1 + frame_cnt dev) div frame_cnt dev = 1" if "pts dev < n"
    using that k assms by (intro int_div_eq_one) simp_all
  then have "(n - pts dev + frame_cnt dev - 1) div frame_cnt dev = 1" if "pts dev < n"
    using that by (simp add: algebra_simps)
  then show ?thesis using k assms by (auto simp: frames_needed_def left_frames_def max_def)
qed

lemma frames_Some_add:
  assumes "frames rd s n (j + k) = Some (ys, t)"
  obtains ys1 u ys2 where "frames rd s n j = Some (ys1, u)" "frames rd u n k = Some (ys2, t)" "ys = ys1 @ ys2"
  using assms by (auto simp: frames_add split: option.splits)

lemma read_stream_frames:
  assumes rd: "pcm_read_ok rd" and ok: "mic_ok dev" and s: "pcm dev = Some s"
    and n: "frame_cnt dev \<le> n" "n \<le> int_max" "nat n \<le> length buff"
    and fr: "frames rd s (nat (frame_cnt dev)) (frames_needed dev n) = Some (ys, t)"
  obtains used u b2 ys1 ys2
  where "\<And>mv. read_stream rd mv dev (Some buff) n =
      (if n = used then Some (0, dev\<lparr>pcm := Some u, pts := 0\<rparr>, b2)
       else finish_read rd mv (dev\<lparr>pcm := Some u, pts := 0\<rparr>) b2 used (n - used))"
    and "b2 = blit buff 0 (pending dev @ ys1)" "length (pending dev @ ys1) = nat used"
    "frames rd u (nat (frame_cnt dev)) (if n = used then 0 else 1) = Some (ys2, t)" "ys = ys1 @ ys2"
    "used \<le> n" "n < used + frame_cnt dev" "0 \<le> used" "used = pts dev + whole_frames dev n * frame_cnt dev"
proof -
  let ?f = "frame_cnt dev" let ?w = "whole_frames dev n"
  define used where "used = pts dev + ?w * ?f"
  note k = mic_okD [OF ok] and w = whole_frames_props [OF ok n(1)]
  have wf: "0 \<le> ?w * ?f" using w(1) k by simp
  have used: "used \<le> n" "n < used + ?f" "0 \<le> used" using w k wf by (auto simp: used_def)
  have q: "1 \<le> n div ?f" "n div ?f \<le> n"
    using n k by (simp_all add: pos_imp_zdiv_pos_iff int_one_le_iff_zero_less div_le_self_int)
  have m: "0 \<le> n mod ?f" "n mod ?f < ?f" using k by auto
  obtain ys1 u ys2 where f1: "frames rd s (nat ?f) (nat ?w) = Some (ys1, u)"
    and f2: "frames rd u (nat ?f) (if n = used then 0 else 1) = Some (ys2, t)" and ys: "ys = ys1 @ ys2"
    using fr unfolding frames_needed_large [OF ok n(1)] used_def by (rule frames_Some_add)
  have lp: "length (pending dev) = nat (pts dev)" using length_pending [OF ok] by simp
  have ly: "length ys1 = nat ?w * nat ?f" by (rule frames_length [OF rd f1])
  have lu: "length (pending dev @ ys1) = nat used"
    using lp ly w(1) k wf by (simp add: used_def nat_add_distrib nat_mult_distrib)
  let ?b1 = "blit buff 0 (pending dev)" and ?b2 = "blit buff 0 (pending dev @ ys1)"
  have b1: "(if 0 < pts dev then mem_copy buff 0 (buffer dev) 0 (pts dev) else Some buff) = Some ?b1"
    using k n by (auto simp: c_simps pending_def)
  have "read_frames rd dev ?b1 ?f 0 (nat ?w) = Some (0, dev\<lparr>pcm := Some u\<rparr>, blit ?b1 (nat (pts dev + 0 * ?f)) ys1)"
  proof (rule read_frames_ok [OF rd s refl k(1,5) f1])
    show "(0 + int (nat ?w)) * ?f \<le> int_max" using w(1) used k n by (simp add: used_def)
    show "nat (pts dev + 0 * ?f) + nat ?w * nat ?f \<le> length ?b1"
      using lu lp ly n used by (simp add: nat_le_iff)
  qed simp
  also have "blit ?b1 (nat (pts dev + 0 * ?f)) ys1 = ?b2"
    using lp lu n used blit_blit_adj [of 0 "pending dev" ys1 buff] by (simp add: nat_le_iff)
  finally have rf: "read_frames rd dev ?b1 ?f 0 (nat ?w) = Some (0, dev\<lparr>pcm := Some u\<rparr>, ?b2)" .
  have c: "s32_of ?f = ?f" "s32_of (n mod ?f) = n mod ?f" "s32_of (n div ?f) = n div ?f" "s32_of n = n"
    using k m q n by (auto intro!: s32_of_id)
  have cnt: "(if n mod ?f < pts dev then s32 (s32_of (n div ?f) - 1) else Some (s32_of (n div ?f))) = Some ?w"
    using q n c by (simp add: whole_frames_def c_simps int_min_def)
  have su: "s32 (?w * ?f) = Some (?w * ?f)" "s32 used = Some used" "u32_of (n - used) = n - used"
    "s32_of (n - used) = n - used"
    using wf used k n by (auto simp: used_def int_min_def int_max_def intro!: s32_in_range u32_of_id s32_of_id)
  let ?d = "dev\<lparr>pcm := Some u, pts := 0\<rparr>"
  have "read_stream rd mv dev (Some buff) n =
      (if u32_of (n - used) = 0 then Some (0, ?d, ?b2) else finish_read rd mv ?d ?b2 used (s32_of (n - used)))" for mv
    using k n by (simp add: read_stream_def Let_def c(1-3) cnt b1 rf su(1,2) used_def [symmetric] split del: if_split)
  then have run: "read_stream rd mv dev (Some buff) n =
      (if n = used then Some (0, ?d, ?b2) else finish_read rd mv ?d ?b2 used (n - used))" for mv
    by (simp add: su(3,4))
  show thesis
    by (rule that [OF run refl lu f2 ys used used_def])
qed

lemma read_stream_large:
  assumes rd: "pcm_read_ok rd" and mv: "memmove_like mv" and ok: "mic_ok dev" and s: "pcm dev = Some s"
    and n: "frame_cnt dev \<le> n" "n \<le> int_max" "nat n \<le> length buff"
    and fr: "frames rd s (nat (frame_cnt dev)) (frames_needed dev n) = Some (ys, t)"
  shows "\<exists>dev'. read_stream rd mv dev (Some buff) n
             = Some (0, dev', blit buff 0 (take (nat n) (pending dev @ ys)))
           \<and> mic_ok dev' \<and> pcm dev' = Some t \<and> frame_cnt dev' = frame_cnt dev
           \<and> pending dev' = drop (nat n) (pending dev @ ys) \<and> nat n \<le> length (pending dev @ ys)"
proof -
  let ?f = "frame_cnt dev"
  note k = mic_okD [OF ok]
  obtain used u b2 ys1 ys2 where run: "\<And>mv. read_stream rd mv dev (Some buff) n =
      (if n = used then Some (0, dev\<lparr>pcm := Some u, pts := 0\<rparr>, b2)
       else finish_read rd mv (dev\<lparr>pcm := Some u, pts := 0\<rparr>) b2 used (n - used))"
    and b2: "b2 = blit buff 0 (pending dev @ ys1)" and lu: "length (pending dev @ ys1) = nat used"
    and f2: "frames rd u (nat ?f) (if n = used then 0 else 1) = Some (ys2, t)" and ys: "ys = ys1 @ ys2"
    and used: "used \<le> n" "n < used + ?f" "0 \<le> used"
    using read_stream_frames [OF rd ok s n fr] by metis
  let ?d = "dev\<lparr>pcm := Some u, pts := 0\<rparr>" and ?b2 = "blit buff 0 (pending dev @ ys1)"
  note run = run [unfolded b2]
  have okd: "mic_ok ?d" and pd: "pending ?d = []" using ok by (auto simp: mic_ok_def pending_def)
  show ?thesis
  proof (cases "n = used")
    case True
    then have "ys2 = []" "t = u" using f2 by auto
    then show ?thesis using True run okd pd lu ys by (intro exI [of _ ?d]) simp
  next
    case False
    then have f2': "frames rd u (nat (frame_cnt ?d)) (left_frames ?d (n - used)) = Some (ys2, t)"
      using f2 by (simp add: left_frames_def)
    have l2: "length ys2 = nat ?f" using frames_length [OF rd f2'] by (simp add: left_frames_def)
    have room: "nat used + nat (n - used) = nat n" using used by (simp add: nat_add_distrib [symmetric])
    then have nd: "nat n - nat used = nat (n - used)" by simp
    have lb: "length ?b2 = length buff" using lu n used by (simp add: nat_le_iff)
    obtain d where d: "finish_read rd mv ?d ?b2 used (n - used)
             = Some (0, d, blit ?b2 (nat used) (take (nat (n - used)) ys2))"
      "mic_ok d" "pcm d = Some t" "frame_cnt d = ?f" "pending d = drop (nat (n - used)) ys2"
      using read_left_ok [OF rd mv okd _ f2', of used ?b2] used pd room n lb by auto
    have "nat (n - used) \<le> length ys2" using used by (simp add: l2)
    then have "blit ?b2 (nat used) (take (nat (n - used)) ys2) = blit buff 0 (take (nat n) (pending dev @ ys))"
      "drop (nat (n - used)) ys2 = drop (nat n) (pending dev @ ys)" "nat n \<le> length (pending dev @ ys)"
      using blit_blit_adj [of 0 "pending dev @ ys1" "take (nat (n - used)) ys2" buff] lu n room
      unfolding ys append_assoc [symmetric] by (simp_all add: nd del: append_assoc)
    then show ?thesis using False run d by (intro exI [of _ d]) simp
  qed
qed

lemma read_stream_small:
  assumes "mic_ok dev" "0 \<le> n" "n < frame_cnt dev"
  shows "read_stream rd mv dev (Some buff) n = finish_read rd mv dev buff 0 n"
  using mic_okD [OF assms(1)] assms(2,3) by (simp add: read_stream_def c_simps Let_def)

lemma read_stream_blit:
  assumes rd: "pcm_read_ok rd" and mv: "memmove_like mv" and ok: "mic_ok dev" and s: "pcm dev = Some s"
    and n: "0 \<le> n" "n \<le> int_max" "nat n \<le> length buff"
    and fr: "frames rd s (nat (frame_cnt dev)) (frames_needed dev n) = Some (ys, t)"
  shows "\<exists>dev'. read_stream rd mv dev (Some buff) n
             = Some (0, dev', blit buff 0 (take (nat n) (pending dev @ ys)))
           \<and> mic_ok dev' \<and> pcm dev' = Some t \<and> frame_cnt dev' = frame_cnt dev
           \<and> pending dev' = drop (nat n) (pending dev @ ys) \<and> nat n \<le> length (pending dev @ ys)"
proof (cases "frame_cnt dev \<le> n")
  case True
  then show ?thesis using read_stream_large [OF rd mv ok s _ n(2,3) fr] by blast
next
  case False
  then have lt: "n < frame_cnt dev" by simp
  have fr': "frames rd s (nat (frame_cnt dev)) (left_frames dev n) = Some (ys, t)"
    using fr frames_needed_small [OF ok n(1) lt] by simp
  have "nat n \<le> length (pending dev @ ys)"
    using frames_length [OF rd fr'] length_pending [OF ok] lt by (auto simp: left_frames_def split: if_splits)
  then show ?thesis
    using read_left_ok [OF rd mv ok s fr', of 0 buff] n lt by (simp add: read_stream_small [OF ok n(1) lt])
qed

lemma read_stream_delivers_moved:
  assumes "pcm_read_ok rd" "memmove_like mv" "mic_ok dev" "pcm dev = Some s"
    and "0 \<le> n" "n \<le> int_max" "nat n \<le> length buff"
    and "frames rd s (nat (frame_cnt dev)) (frames_needed dev n) = Some (ys, t)"
  shows "\<exists>dev' buff'. read_stream rd mv dev (Some buff) n = Some (0, dev', buff')
           \<and> mic_ok dev' \<and> pcm dev' = Some t \<and> frame_cnt dev' = frame_cnt dev
           \<and> length buff' = length buff
           \<and> take (nat n) buff' @ pending dev' = pending dev @ ys
           \<and> drop (nat n) buff' = drop (nat n) buff"
proof -
  define x where "x = take (nat n) (pending dev @ ys)"
  obtain dev' where d: "read_stream rd mv dev (Some buff) n = Some (0, dev', blit buff 0 x)"
    "mic_ok dev'" "pcm dev' = Some t" "frame_cnt dev' = frame_cnt dev"
    "pending dev' = drop (nat n) (pending dev @ ys)" "nat n \<le> length (pending dev @ ys)"
    using read_stream_blit [OF assms] unfolding x_def by blast
  have "length x = nat n" using d(6) by (simp add: x_def)
  then have "take (nat n) (blit buff 0 x) = x" "drop (nat n) (blit buff 0 x) = drop (nat n) buff"
    "length (blit buff 0 x) = length buff"
    using assms(7) by (simp_all add: blit_def)
  moreover have "x @ pending dev' = pending dev @ ys"
    unfolding x_def d(5) by (rule append_take_drop_id)
  ultimately show ?thesis using d(1-4) by (intro exI [of _ dev'] exI [of _ "blit buff 0 x"]) simp
qed

section \<open>Requests that overlap\<close>

text \<open>
  The cache of a device with frames of \<open>f\<close> bytes and \<open>p\<close> cached bytes after a request of \<open>n\<close> bytes, and
  whether the rest can be moved to its front without an overlap: the rest of the old cache must not be larger
  than the part that was taken, the rest of a new frame not larger than half a frame.
\<close>

definition cached_after :: "int \<Rightarrow> int \<Rightarrow> int \<Rightarrow> int" where
  "cached_after f p n = (if n = 0 \<and> p = 0 then f else if n \<le> p then p - n else (p - n) mod f)"

definition moves_apart :: "int \<Rightarrow> int \<Rightarrow> int \<Rightarrow> bool" where
  "moves_apart f p n \<longleftrightarrow> (if 0 < p \<and> n \<le> p then p - n \<le> n else 2 * cached_after f p n \<le> f)"

definition left_apart :: "'s mic_dev \<Rightarrow> int \<Rightarrow> bool" where
  "left_apart dev left \<longleftrightarrow>
     (if 0 < pts dev \<and> left \<le> pts dev then pts dev - left \<le> left else 2 * (frame_cnt dev - (left - pts dev)) \<le> frame_cnt dev)"

lemma copy_down_apart: "n \<le> soff \<Longrightarrow> copy_down mv b soff n = copy_down mv' b soff n"
  by (simp add: copy_down_def)

lemma copy_down_overlap: "soff < n \<Longrightarrow> copy_down no_overlap b soff n = None"
  by (simp add: copy_down_def no_overlap_def)

lemma read_frame_keeps: "read_frame rd dev dst off = Some (ret, b, dev1) \<Longrightarrow> frame_cnt dev1 = frame_cnt dev \<and> pts dev1 = pts dev"
  by (auto simp: read_frame_def split: option.splits prod.splits Option.bind_splits)

lemma finish_apart:
  assumes "mic_ok dev" "0 \<le> left" "left \<le> frame_cnt dev" "left_apart dev left"
  shows "finish_read rd mv dev buff off left = finish_read rd mv' dev buff off left"
proof -
  note ok = mic_okD [OF assms(1)]
  have u: "u32_of (frame_cnt dev - x) = frame_cnt dev - x" if "0 \<le> x" "x \<le> left" for x
    using that ok assms(3) by (simp add: c_simps int_max_def)
  have s: "x = left - pts dev" if "s32 (left - pts dev) = Some x" for x
    using that by (auto simp: s32_def split: if_splits)
  consider "pts dev = 0" | "0 < pts dev" "left \<le> pts dev" | "0 < pts dev" "pts dev < left" using ok by linarith
  then have "read_left_frame rd mv dev buff off left = read_left_frame rd mv' dev buff off left"
  proof cases
    case 1
    then show ?thesis using assms(2-4) u [of left]
      by (auto simp: read_left_frame_def left_apart_def copy_down_apart [of _ _ mv _ mv'] dest: read_frame_keeps intro!: Option.bind_cong)
  next
    case 2
    then show ?thesis using assms(2-4)
      by (auto simp: read_left_frame_def left_apart_def s32_def copy_down_apart [of _ _ mv _ mv'] intro!: Option.bind_cong)
  next
    case 3
    then show ?thesis using assms(2-4) u [of "left - pts dev"] ok
      by (auto simp: read_left_frame_def left_apart_def copy_down_apart [of _ _ mv _ mv'] dest!: read_frame_keeps s intro!: Option.bind_cong)
  qed
  then show ?thesis by (simp add: finish_read_def)
qed

lemma finish_overlap:
  assumes "mic_ok dev" "pcm dev = Some s" "0 \<le> left" "left \<le> frame_cnt dev" "\<not> left_apart dev left"
    and fr: "frames rd s (nat (frame_cnt dev)) (left_frames dev left) = Some (ys, t)"
  shows "finish_read rd no_overlap dev buff off left = None"
proof -
  note ok = mic_okD [OF assms(1)]
  have u: "u32_of (frame_cnt dev - x) = frame_cnt dev - x" if "0 \<le> x" "x \<le> left" for x
    using that ok assms(4) by (simp add: c_simps int_max_def)
  have z: "ret = 0 \<and> frame_cnt dev1 = frame_cnt dev \<and> pts dev1 = pts dev"
    if "read_frame rd dev d off' = Some (ret, b, dev1)" "left_frames dev left = Suc 0" for ret b dev1 d off'
    using that fr assms(2) by (auto simp: read_frame_def split: prod.splits if_splits Option.bind_splits)
  consider "pts dev = 0" | "0 < pts dev" "left \<le> pts dev" | "0 < pts dev" "pts dev < left" using ok by linarith
  then have "read_left_frame rd no_overlap dev buff off left = None"
  proof cases
    case 1
    then have "left_frames dev left = Suc 0" by (simp add: left_frames_def)
    then show ?thesis using 1 assms(3-5) u [of left]
      by (cases "read_frame rd dev (buffer dev) 0")
        (auto simp: read_left_frame_def left_apart_def copy_down_overlap bind_eq_None_conv dest!: z)
  next
    case 2
    then show ?thesis using assms(3-5)
      by (auto simp: read_left_frame_def left_apart_def s32_def copy_down_overlap bind_eq_None_conv)
  next
    case 3
    then have "left_frames dev left = Suc 0" by (simp add: left_frames_def)
    then show ?thesis using 3 assms(3-5) u [of "left - pts dev"] ok
      by (cases "read_frame rd dev (buffer dev) 0") (auto simp: read_left_frame_def left_apart_def s32_def copy_down_overlap bind_eq_None_conv dest!: z)
  qed
  then show ?thesis by (simp add: finish_read_def)
qed

lemma small_apart:
  assumes "mic_ok dev" "0 \<le> n" "n < frame_cnt dev"
  shows "moves_apart (frame_cnt dev) (pts dev) n = left_apart dev n"
proof -
  have "(pts dev - n) mod frame_cnt dev = frame_cnt dev - (n - pts dev)" if "pts dev < n"
    using that mic_okD [OF assms(1)] assms(2,3) by (intro int_mod_pos_eq [of _ _ "-1"]) auto
  then show ?thesis
    using mic_okD [OF assms(1)] assms(2,3) by (auto simp: moves_apart_def left_apart_def cached_after_def)
qed

lemma large_apart:
  assumes "mic_ok dev" "frame_cnt dev \<le> n" "used = pts dev + whole_frames dev n * frame_cnt dev" "pts d = 0" "frame_cnt d = frame_cnt dev"
    "used \<le> n" "n < used + frame_cnt dev"
  shows "moves_apart (frame_cnt dev) (pts dev) n \<longleftrightarrow> n = used \<or> left_apart d (n - used)"
proof (cases "n \<le> pts dev")
  case True
  then have "n = pts dev" "pts dev = frame_cnt dev" using assms(2) mic_okD(6) [OF assms(1)] by auto
  then show ?thesis using assms mic_okD [OF assms(1)] by (auto simp: moves_apart_def whole_frames_def)
next
  case False
  let ?f = "frame_cnt dev"
  have "pts dev - n = (used - n) + - whole_frames dev n * ?f" using assms(3) by simp
  then have "(pts dev - n) mod ?f = (used - n) mod ?f" by (metis mod_mult_self1)
  also have "\<dots> = (if n = used then 0 else ?f - (n - used))"
    using assms(6,7) by (auto intro!: int_mod_pos_eq [of _ _ "-1"])
  finally show ?thesis
    using False assms(2,4,5,7) mic_okD [OF assms(1)] by (auto simp: moves_apart_def left_apart_def cached_after_def)
qed

lemma read_stream_apart:
  assumes rd: "pcm_read_ok rd" and ok: "mic_ok dev" and s: "pcm dev = Some s"
    and n: "0 \<le> n" "n \<le> int_max" "nat n \<le> length buff"
    and fr: "frames rd s (nat (frame_cnt dev)) (frames_needed dev n) = Some (ys, t)"
  shows "moves_apart (frame_cnt dev) (pts dev) n \<Longrightarrow> read_stream rd mv dev (Some buff) n = read_stream rd mv' dev (Some buff) n"
    and "\<not> moves_apart (frame_cnt dev) (pts dev) n \<Longrightarrow> read_stream rd no_overlap dev (Some buff) n = None"
proof -
  let ?A = "moves_apart (frame_cnt dev) (pts dev) n"
  have "(?A \<longrightarrow> read_stream rd mv dev (Some buff) n = read_stream rd mv' dev (Some buff) n) \<and>
    (\<not> ?A \<longrightarrow> read_stream rd no_overlap dev (Some buff) n = None)"
  proof (cases "frame_cnt dev \<le> n")
    case False
    then have lt: "n < frame_cnt dev" by simp
    show ?thesis
      using finish_apart [OF ok n(1), of rd mv buff 0 mv'] finish_overlap [OF ok s n(1), of rd ys t buff 0] fr lt
      by (simp add: read_stream_small [OF ok n(1) lt] small_apart [OF ok n(1) lt] frames_needed_small [OF ok n(1) lt])
  next
    case True
    obtain used u b2 ys1 ys2 where run: "\<And>mv. read_stream rd mv dev (Some buff) n =
        (if n = used then Some (0, dev\<lparr>pcm := Some u, pts := 0\<rparr>, b2)
         else finish_read rd mv (dev\<lparr>pcm := Some u, pts := 0\<rparr>) b2 used (n - used))"
      and f2: "frames rd u (nat (frame_cnt dev)) (if n = used then 0 else 1) = Some (ys2, t)"
      and used: "used \<le> n" "n < used + frame_cnt dev" "used = pts dev + whole_frames dev n * frame_cnt dev"
      using read_stream_frames [OF rd ok s True n(2,3) fr] by metis
    let ?d = "dev\<lparr>pcm := Some u, pts := 0\<rparr>"
    have okd: "mic_ok ?d" using ok by (simp add: mic_ok_def)
    have A: "?A \<longleftrightarrow> n = used \<or> left_apart ?d (n - used)"
      using large_apart [OF ok True used(3) _ _ used(1,2), of ?d] by simp
    have f2': "frames rd u (nat (frame_cnt ?d)) (left_frames ?d (n - used)) = Some (ys2, t)" if "n \<noteq> used"
      using f2 that by (simp add: left_frames_def)
    have l: "0 \<le> n - used" "n - used \<le> frame_cnt ?d" "pcm ?d = Some u" using used(1,2) by simp_all
    show ?thesis
      unfolding run A
      using finish_apart [OF okd l(1,2), of rd mv b2 used mv'] finish_overlap [OF okd l(3,1,2) _ f2', of b2 used]
      by (cases "n = used") simp_all
  qed
  then show "?A \<Longrightarrow> read_stream rd mv dev (Some buff) n = read_stream rd mv' dev (Some buff) n"
    "\<not> ?A \<Longrightarrow> read_stream rd no_overlap dev (Some buff) n = None" by blast+
qed

lemma round_up_minus: "0 < f \<Longrightarrow> ((m + f - 1) div f) * f - m = (- m) mod (f :: int)"
proof -
  assume f: "0 < f"
  have "(m + f - 1) div f = - ((- m) div f)"
  proof (rule int_div_pos_eq)
    show "m + f - 1 = f * - ((- m) div f) + (f - 1 - (- m) mod f)"
      using mult_div_mod_eq [of f "- m"] by (simp add: algebra_simps)
  qed (use f pos_mod_bound [of f "- m"] pos_mod_sign [of f "- m"] in linarith)+
  then have "((m + f - 1) div f) * f = - (f * ((- m) div f))" by simp
  then show ?thesis using mult_div_mod_eq [of f "- m"] by linarith
qed

lemma pts_after:
  assumes ok: "mic_ok dev" "mic_ok dev'" "0 \<le> n" "length ys = frames_needed dev n * nat (frame_cnt dev)"
    "pending dev' = drop (nat n) (pending dev @ ys)" "nat n \<le> length (pending dev @ ys)"
  shows "pts dev' = cached_after (frame_cnt dev) (pts dev) n"
proof -
  let ?f = "frame_cnt dev" and ?p = "pts dev"
  note k = mic_okD [OF ok(1)]
  have l: "int (length (pending dev @ ys)) = ?p + int (frames_needed dev n) * ?f"
    using length_pending [OF ok(1)] ok(4) k by simp
  have "int (length (pending dev')) = int (length (pending dev @ ys)) - n"
    unfolding ok(5) using ok(3,6) by (simp add: of_nat_diff del: drop_append)
  then have e: "pts dev' = ?p + int (frames_needed dev n) * ?f - n"
    unfolding l length_pending [OF ok(2)] .
  have fn: "int (frames_needed dev n) = (if n = 0 \<and> ?p = 0 then 1 else if n \<le> ?p then 0 else (n - ?p + ?f - 1) div ?f)"
    using k ok(3) by (auto simp: frames_needed_def max_def pos_imp_zdiv_nonneg_iff)
  show ?thesis
    using round_up_minus [OF k(1), of "n - ?p"] unfolding e fn by (auto simp: cached_after_def)
qed

text \<open>
  C1. With a device that delivers frames, \<open>read_stream\<close> of \<open>n\<close> bytes is decided by \<open>moves_apart\<close>. When the rest
  of the cache can be moved without an overlap, the call delivers the next \<open>n\<close> bytes of the capture stream,
  whatever \<open>memcpy\<close> does with overlapping regions: the caller's buffer followed by the bytes left in the cache is
  the old cache followed by the frames read from the device, and the buffer behind the first \<open>n\<close> cells
  is not touched. Otherwise the call is undefined in C.
\<close>

theorem read_stream_delivers:
  assumes "pcm_read_ok rd" "mic_ok dev" "pcm dev = Some s"
    and "0 \<le> n" "n \<le> int_max" "nat n \<le> length buff"
    and "frames rd s (nat (frame_cnt dev)) (frames_needed dev n) = Some (ys, t)"
  shows "if moves_apart (frame_cnt dev) (pts dev) n
         then \<exists>dev' buff'. (\<forall>mv. read_stream rd mv dev (Some buff) n = Some (0, dev', buff'))
           \<and> mic_ok dev' \<and> pcm dev' = Some t \<and> frame_cnt dev' = frame_cnt dev
           \<and> length buff' = length buff
           \<and> take (nat n) buff' @ pending dev' = pending dev @ ys
           \<and> drop (nat n) buff' = drop (nat n) buff
         else read_stream rd no_overlap dev (Some buff) n = None"
proof (cases "moves_apart (frame_cnt dev) (pts dev) n")
  case True
  have "read_stream rd mv dev (Some buff) n = read_stream rd move_overlap dev (Some buff) n" for mv
    by (rule read_stream_apart(1) [OF assms True])
  then have "(\<forall>mv. read_stream rd mv dev (Some buff) n = x) = (read_stream rd move_overlap dev (Some buff) n = x)" for x
    by metis
  then show ?thesis
    using read_stream_delivers_moved [OF assms(1) move_overlap_ok(1) assms(2-)] unfolding if_P [OF True] by simp
next
  case False
  then show ?thesis using read_stream_apart(2) [OF assms] by simp
qed

text \<open>A PCM device that delivers a counting sequence, for the witnesses.\<close>

definition count_reader :: "nat pcm_reader" where
  "count_reader s n = (0, map of_nat [s..<s + n], s + n)"

lemma count_reader_ok: "pcm_read_ok count_reader"
  by (simp add: pcm_read_ok_def count_reader_def)

definition demo_dev :: "nat mic_dev" where
  "demo_dev = \<lparr>frame_cnt = 4, pcm = Some 10, pts = 3, buffer = [7, 8, 9, 0]\<rparr>"

theorem read_stream_delivers_witness:
  "\<exists>dev' buff'. read_stream count_reader no_overlap demo_dev (Some (replicate 6 0)) 6 = Some (0, dev', buff')
     \<and> take 6 buff' @ pending dev' = [7, 8, 9, 10, 11, 12, 13]"
proof -
  have f: "frames count_reader 10 (nat (frame_cnt demo_dev)) (frames_needed demo_dev 6)
      = Some ([10, 11, 12, 13], 14)"
    by (simp add: frames_needed_def demo_dev_def count_reader_def numeral_eq_Suc upt_rec)
  have a: "moves_apart (frame_cnt demo_dev) (pts demo_dev) 6"
    by (simp add: moves_apart_def cached_after_def demo_dev_def)
  have "if moves_apart (frame_cnt demo_dev) (pts demo_dev) 6
    then \<exists>dev' buff'. (\<forall>mv. read_stream count_reader mv demo_dev (Some (replicate 6 0)) 6 = Some (0, dev', buff'))
           \<and> mic_ok dev' \<and> pcm dev' = Some 14 \<and> frame_cnt dev' = frame_cnt demo_dev
           \<and> length buff' = length (replicate 6 (0 :: byte))
           \<and> take (nat 6) buff' @ pending dev' = pending demo_dev @ [10, 11, 12, 13]
           \<and> drop (nat 6) buff' = drop (nat 6) (replicate 6 0)
    else read_stream count_reader no_overlap demo_dev (Some (replicate 6 0)) 6 = None"
    by (rule read_stream_delivers [OF count_reader_ok _ _ _ _ _ f])
      (simp_all add: mic_ok_def demo_dev_def int_max_def)
  then show ?thesis using a by (auto simp: pending_def demo_dev_def)
qed

text \<open>
  A client that reads requests of the given sizes, each into a fresh buffer, and keeps what it
  gets; an error code of \<open>read_stream\<close> stops it.
\<close>

fun read_all :: "'s pcm_reader \<Rightarrow> overlap \<Rightarrow> 's mic_dev \<Rightarrow> int list \<Rightarrow> (byte list \<times> 's mic_dev) c" where
  "read_all rd mv dev [] = Some ([], dev)"
| "read_all rd mv dev (n # ns) = do {
     (ret, dev1, buff) \<leftarrow> read_stream rd mv dev (Some (replicate (nat n) 0)) n;
     (if ret \<noteq> 0 then None
      else do { (out, dev2) \<leftarrow> read_all rd mv dev1 ns; Some (buff @ out, dev2) })
   }"

lemma frames_never_fail:
  assumes "\<forall>s n. fst (rd s n) = 0"
  shows "\<exists>ys t. frames rd s n k = Some (ys, t)"
proof (induction k arbitrary: s)
  case (Suc k)
  obtain bs s' where "rd s n = (0, bs, s')" using assms by (metis prod.collapse)
  then show ?case using Suc [of s'] by auto
qed simp

text \<open>The requests of a client that are all served without an overlap, from \<open>p\<close> cached bytes.\<close>

fun apart_all :: "int \<Rightarrow> int \<Rightarrow> int list \<Rightarrow> bool" where
  "apart_all f p [] = True"
| "apart_all f p (n # ns) = (moves_apart f p n \<and> apart_all f (cached_after f p n) ns)"

text \<open>Requests of whole halves of a frame are.\<close>

lemma half_frames_apart:
  "0 < h \<Longrightarrow> p = 0 \<or> p = h \<Longrightarrow> list_all (\<lambda>n. 0 < n \<and> h dvd n) ns \<Longrightarrow> apart_all (2 * h) p ns"
proof (induction ns arbitrary: p)
  case (Cons n ns)
  then obtain k where k: "n = h * k" "0 < k" by (auto elim!: dvdE simp: zero_less_mult_iff)
  have "(p - n) mod (2 * h) = 0 \<or> (p - n) mod (2 * h) = h"
  proof -
    obtain j where j: "p - n = h * j" using Cons.prems(2) k by (metis diff_0 mult.right_neutral mult_minus_right right_diff_distrib)
    have "(p - n) mod (2 * h) = h * (j mod 2)" unfolding j by (metis mult.commute mult_mod_right)
    moreover have "j mod 2 = 0 \<or> j mod 2 = 1" by auto
    ultimately show ?thesis by auto
  qed
  moreover have "h \<le> n" using k Cons.prems(1) by simp
  ultimately have "moves_apart (2 * h) p n" "cached_after (2 * h) p n = 0 \<or> cached_after (2 * h) p n = h"
    using Cons.prems(1,2) by (auto simp: moves_apart_def cached_after_def)
  then show ?case using Cons by simp
qed simp

lemma read_all_prefix_strong:
  assumes "pcm_read_ok rd" "mic_ok dev" "pcm dev = Some s"
    and "\<forall>s n. fst (rd s n) = 0" "\<forall>n \<in> set ns. 0 \<le> n \<and> n \<le> int_max"
  shows "if apart_all (frame_cnt dev) (pts dev) ns
         then \<exists>out dev' k ys t. (\<forall>mv. read_all rd mv dev ns = Some (out, dev')) \<and> mic_ok dev'
           \<and> int (length out) = sum_list ns
           \<and> frames rd s (nat (frame_cnt dev)) k = Some (ys, t) \<and> pcm dev' = Some t
           \<and> out @ pending dev' = pending dev @ ys
         else read_all rd no_overlap dev ns = None"
  using assms(2,3,5)
proof (induction ns arbitrary: dev s)
  case Nil
  then show ?case by (auto intro!: exI [of _ 0])
next
  case (Cons n ns)
  note ok = Cons.prems(1) and s = Cons.prems(2)
  have n: "0 \<le> n" "n \<le> int_max" using Cons.prems(3) by auto
  let ?b = "replicate (nat n) (0 :: byte)" and ?k = "frames_needed dev n"
  obtain ys t where f: "frames rd s (nat (frame_cnt dev)) ?k = Some (ys, t)"
    using frames_never_fail [OF assms(4)] by blast
  have lb: "nat n \<le> length ?b" by simp
  note apart = read_stream_apart [OF assms(1) ok s n lb f]
  obtain dev1 where d0: "read_stream rd move_overlap dev (Some ?b) n = Some (0, dev1, take (nat n) (pending dev @ ys))"
    and d: "mic_ok dev1" "pcm dev1 = Some t" "frame_cnt dev1 = frame_cnt dev"
    "pending dev1 = drop (nat n) (pending dev @ ys)" "nat n \<le> length (pending dev @ ys)"
    using read_stream_blit [OF assms(1) move_overlap_ok(1) ok s n _ f, of ?b] by (auto simp: blit_def)
  have p1: "pts dev1 = cached_after (frame_cnt dev) (pts dev) n"
    using frames_length [OF assms(1) f] by (intro pts_after [OF ok d(1) n(1) _ d(4,5)]) simp
  have IH: "if apart_all (frame_cnt dev) (cached_after (frame_cnt dev) (pts dev) n) ns
     then \<exists>out dev' k zs u. (\<forall>mv. read_all rd mv dev1 ns = Some (out, dev')) \<and> mic_ok dev'
       \<and> int (length out) = sum_list ns \<and> frames rd t (nat (frame_cnt dev)) k = Some (zs, u) \<and> pcm dev' = Some u
       \<and> out @ pending dev' = pending dev1 @ zs
     else read_all rd no_overlap dev1 ns = None"
    using Cons.IH [OF d(1,2)] Cons.prems(3) unfolding d(3) p1 by auto
  show ?case
  proof (cases "moves_apart (frame_cnt dev) (pts dev) n")
    case False
    then show ?thesis using apart(2) by simp
  next
    case True
    have d1: "read_stream rd mv dev (Some ?b) n = Some (0, dev1, take (nat n) (pending dev @ ys))" for mv
      using apart(1) [OF True, of mv move_overlap] d0 by simp
    show ?thesis
    proof (cases "apart_all (frame_cnt dev) (cached_after (frame_cnt dev) (pts dev) n) ns")
      case False
      then show ?thesis using IH d1 by simp
    next
      case all: True
      then obtain out dev2 k zs u where r: "\<And>mv. read_all rd mv dev1 ns = Some (out, dev2)" "mic_ok dev2"
        "int (length out) = sum_list ns" "frames rd t (nat (frame_cnt dev)) k = Some (zs, u)" "pcm dev2 = Some u"
        "out @ pending dev2 = pending dev1 @ zs"
        using IH by auto
      have "frames rd s (nat (frame_cnt dev)) (?k + k) = Some (ys @ zs, u)"
        using f r(4) by (simp add: frames_add)
      moreover have "(take (nat n) (pending dev @ ys) @ out) @ pending dev2 = pending dev @ ys @ zs"
        using r(6) d(4) by (metis append.assoc append_take_drop_id)
      moreover have "int (length (take (nat n) (pending dev @ ys) @ out)) = sum_list (n # ns)"
        using d(5) r(3) n by (simp add: min_def del: take_append)
      moreover have "\<forall>mv. read_all rd mv dev (n # ns) = Some (take (nat n) (pending dev @ ys) @ out, dev2)"
        using d1 r(1) by simp
      ultimately show ?thesis using True all r(2,5) by auto
    qed
  qed
qed

text \<open>
  C2. A client reads requests of any sizes from a device that never fails. When no request needs an overlapping
  move (\<open>apart_all\<close>, decided by the frame size, the cached bytes and the sizes), the bytes handed to the
  client and the rest of the cache are what was cached and what the device delivered: nothing is lost,
  repeated or reordered across calls, on any platform. Otherwise the run is undefined in C.
\<close>

theorem read_all_is_stream_prefix:
  assumes "pcm_read_ok rd" "mic_ok dev" "pcm dev = Some s"
    and "\<forall>s n. fst (rd s n) = 0" "\<forall>n \<in> set ns. 0 \<le> n \<and> n \<le> int_max"
  shows "if apart_all (frame_cnt dev) (pts dev) ns
         then \<exists>out dev' k ys t. (\<forall>mv. read_all rd mv dev ns = Some (out, dev')) \<and> mic_ok dev'
           \<and> int (length out) = sum_list ns
           \<and> frames rd s (nat (frame_cnt dev)) k = Some (ys, t) \<and> pcm dev' = Some t
           \<and> out @ pending dev' = pending dev @ ys
         else read_all rd no_overlap dev ns = None"
  using assms by (rule read_all_prefix_strong)

theorem read_all_is_stream_prefix_witness:
  "(\<exists>out dev'. read_all count_reader no_overlap (demo_dev\<lparr>pts := 0\<rparr>) [2, 6] = Some (out, dev') \<and> length out = 8)
   \<and> read_all count_reader no_overlap (demo_dev\<lparr>pts := 0\<rparr>) [2, 1, 6] = None"
proof -
  let ?d = "demo_dev\<lparr>pts := 0\<rparr>"
  have *: "if apart_all (frame_cnt ?d) (pts ?d) ns
     then \<exists>out dev' k ys t. (\<forall>mv. read_all count_reader mv ?d ns = Some (out, dev')) \<and> mic_ok dev'
           \<and> int (length out) = sum_list ns
           \<and> frames count_reader 10 (nat (frame_cnt ?d)) k = Some (ys, t) \<and> pcm dev' = Some t
           \<and> out @ pending dev' = pending ?d @ ys
     else read_all count_reader no_overlap ?d ns = None" if "\<forall>n \<in> set ns. 0 \<le> n \<and> n \<le> int_max" for ns
    using that by (intro read_all_is_stream_prefix [OF count_reader_ok]) (simp_all add: mic_ok_def demo_dev_def int_max_def count_reader_def)
  show ?thesis
    using * [of "[2, 6]"] * [of "[2, 1, 6]"]
    by (auto simp: demo_dev_def moves_apart_def cached_after_def int_max_def)
qed

section \<open>Failing devices\<close>

text \<open>
  Safety needs no success of the device: \<open>outcome\<close> is what each part of the read path
  guarantees for any return code.
\<close>

definition outcome :: "'s pcm_reader \<Rightarrow> 's mic_dev \<Rightarrow> nat \<Rightarrow> (int \<times> 's mic_dev \<times> byte list) c \<Rightarrow> bool" where
  "outcome rd dev len r \<longleftrightarrow>
     (case r of None \<Rightarrow> False
      | Some (ret, dev', buff') \<Rightarrow>
          mic_ok dev' \<and> pcm dev' \<noteq> None \<and> frame_cnt dev' = frame_cnt dev \<and> length buff' = len
          \<and> (ret \<noteq> 0 \<longrightarrow> pts dev' = 0 \<and> (\<exists>s. fst (rd s (nat (frame_cnt dev))) = ret)))"

lemma length_copy_down:
  "keeps_length mv \<Longrightarrow> copy_down mv b soff n = Some b' \<Longrightarrow> length b' = length b"
  unfolding copy_down_def keeps_length_def by (auto split: if_splits) (metis option.inject)

lemma copy_down_total:
  assumes "keeps_length mv" "0 \<le> soff" "0 \<le> n" "nat soff + nat n \<le> length b"
  obtains b' where "copy_down mv b soff n = Some b'" "length b' = length b"
proof -
  obtain b' where "copy_down mv b soff n = Some b'"
    using assms unfolding copy_down_def keeps_length_def by (cases "n \<le> soff") (simp, metis)
  then show thesis using that length_copy_down [OF assms(1)] by blast
qed

lemma outcome_pcm [simp]: "outcome rd (dev\<lparr>pcm := x\<rparr>) len r = outcome rd dev len r"
  by (auto simp: outcome_def split: option.splits)

lemma read_frame_total:
  assumes "pcm_read_ok rd" "pcm dev \<noteq> None" "0 \<le> off" "nat off + nat (frame_cnt dev) \<le> length dst"
  obtains ret dst' s' s where "read_frame rd dev dst off = Some (ret, dst', dev\<lparr>pcm := Some s'\<rparr>)"
    "length dst' = length dst" "fst (rd s (nat (frame_cnt dev))) = ret"
proof -
  obtain s where s: "pcm dev = Some s" using assms(2) by auto
  obtain ret bs s' where r: "rd s (nat (frame_cnt dev)) = (ret, bs, s')" by (metis prod.exhaust)
  show thesis
    by (rule that [OF read_frame_eq [OF assms(1) s r assms(3,4)], of s])
      (use pcm_read_le [OF assms(1) r] assms(4) r in auto)
qed

lemma read_frames_outcome:
  assumes rd: "pcm_read_ok rd" and "mic_ok dev" "pcm dev \<noteq> None" "0 \<le> i"
    "(i + int k) * frame_cnt dev \<le> int_max"
    "nat (pts dev + i * frame_cnt dev) + k * nat (frame_cnt dev) \<le> length buff"
  shows "outcome rd dev (length buff) (read_frames rd dev buff (frame_cnt dev) i k)
    \<and> (\<forall>dev' b. read_frames rd dev buff (frame_cnt dev) i k = Some (0, dev', b) \<longrightarrow> pts dev' = pts dev)"
  using assms(2-)
proof (induction k arbitrary: dev buff i)
  case 0
  then show ?case by (simp add: outcome_def)
next
  case (Suc k)
  let ?f = "frame_cnt dev"
  note ok = mic_okD [OF Suc.prems(1)]
  have nn: "0 \<le> i * ?f" using Suc.prems ok by simp
  have "i * ?f \<le> (i + int (Suc k)) * ?f" using ok by (intro mult_right_mono) auto
  then have s32: "s32 (i * ?f) = Some (i * ?f)" using nn Suc.prems(4) by (intro s32_in_range) (auto simp: int_min_def)
  have room: "nat (pts dev + i * ?f) + nat ?f \<le> length buff" using Suc.prems(5) by simp
  obtain ret b s' s where r: "read_frame rd dev buff (pts dev + i * ?f) = Some (ret, b, dev\<lparr>pcm := Some s'\<rparr>)"
    "length b = length buff" "fst (rd s (nat ?f)) = ret"
    by (rule read_frame_total [OF rd Suc.prems(2), of "pts dev + i * ?f" buff]) (use ok nn room in auto)
  let ?d = "dev\<lparr>pcm := Some s'\<rparr>"
  have okd: "mic_ok ?d" using Suc.prems(1) by (simp add: mic_ok_def)
  show ?case
  proof (cases "ret = 0")
    case False
    then show ?thesis using s32 r okd by (auto simp: outcome_def reset_buffer_def mic_ok_def)
  next
    case True
    have "nat (pts dev + (i + 1) * ?f) = nat (pts dev + i * ?f) + nat ?f"
      using ok nn by (simp add: nat_add_distrib [symmetric] algebra_simps)
    then have "outcome rd ?d (length b) (read_frames rd ?d b (frame_cnt ?d) (i + 1) k)
       \<and> (\<forall>dev' b'. read_frames rd ?d b (frame_cnt ?d) (i + 1) k = Some (0, dev', b') \<longrightarrow> pts dev' = pts ?d)"
      using Suc.prems okd r(2) by (intro Suc.IH) (auto simp: algebra_simps)
    then show ?thesis using s32 r True by simp
  qed
qed

lemma read_left_outcome:
  assumes rd: "pcm_read_ok rd" and mv: "keeps_length mv" and okd: "mic_ok dev" and h: "pcm dev \<noteq> None"
    and l: "0 \<le> off" "0 \<le> left" "left \<le> frame_cnt dev" "nat off + nat left \<le> length buff"
  shows "outcome rd dev (length buff) (finish_read rd mv dev buff off left)"
proof -
  let ?f = "frame_cnt dev"
  note ok = mic_okD [OF okd]
  obtain ret b s' s where r: "read_frame rd dev (buffer dev) 0 = Some (ret, b, dev\<lparr>pcm := Some s'\<rparr>)"
    "length b = nat ?f" "fst (rd s (nat ?f)) = ret"
    by (rule read_frame_total [OF rd h, of 0 "buffer dev"]) (use ok in auto)
  have u: "u32_of (?f - x) = ?f - x" "s32_of (?f - x) = ?f - x" if "0 \<le> x" "x \<le> left" for x
    using that l ok by (simp_all add: c_simps int_max_def)
  have sum: "nat x + nat (?f - x) = nat ?f" if "0 \<le> x" "x \<le> left" for x
    using that l by (simp add: nat_add_distrib [symmetric])
  have out: "outcome rd dev (length buff) (Some (0, dev\<lparr>pcm := hh, buffer := b', pts := p\<rparr>, buff'))"
    if "hh \<noteq> None" "length b' = nat ?f" "0 \<le> p" "p \<le> ?f" "length buff' = length buff" for hh b' p buff'
    using that ok by (simp add: outcome_def mic_ok_def)
  have err: "outcome rd dev (length buff) (Some (ret, reset_buffer (dev\<lparr>pcm := Some s', buffer := b\<rparr>), buff'))"
    if "length buff' = length buff" for buff'
    using that r ok by (auto simp: outcome_def mic_ok_def reset_buffer_def)
  consider "pts dev = 0" | "pts dev \<noteq> 0" "left \<le> pts dev" | "pts dev \<noteq> 0" "pts dev < left" by linarith
  then show ?thesis
  proof cases
    case 1
    show ?thesis
    proof (cases "ret = 0")
      case True
      obtain b' where b': "copy_down mv b left (?f - left) = Some b'" "length b' = length b"
        by (rule copy_down_total [OF mv l(2), of "?f - left" b]) (use l r sum in auto)
      show ?thesis using 1 True r b' u l ok out [of "Some s'" b' "?f - left"]
        by (simp add: finish_read_def read_left_frame_def c_simps)
    qed (use 1 r err [of buff] in \<open>simp add: finish_read_def read_left_frame_def reset_buffer_def\<close>)
  next
    case 2
    have p: "s32 (pts dev - left) = Some (pts dev - left)"
      using 2 ok l by (simp add: c_simps int_min_def)
    obtain b' where b': "copy_down mv (buffer dev) left (pts dev - left) = Some b'" "length b' = nat ?f"
      by (rule copy_down_total [OF mv l(2), of "pts dev - left" "buffer dev"])
        (use 2 l ok in \<open>auto simp: nat_add_distrib [symmetric]\<close>)
    show ?thesis using 2 p b' l ok h out [of "pcm dev" b' "pts dev - left"] out [of "pcm dev" "buffer dev" 0]
      by (simp add: finish_read_def read_left_frame_def c_simps)
  next
    case 3
    let ?l = "left - pts dev"
    have p: "s32 ?l = Some ?l" using 3 ok l by (simp add: c_simps int_min_def)
    have m1: "mem_copy buff off (buffer dev) 0 (pts dev) = Some (blit buff (nat off) (take (nat (pts dev)) (buffer dev)))"
      using 3 ok l by (simp add: c_simps)
    let ?b1 = "blit buff (nat off) (take (nat (pts dev)) (buffer dev))"
    have lb: "length ?b1 = length buff" using 3 ok l by (intro length_blit) simp
    have "nat (off + pts dev) + nat ?l = nat off + nat left"
      using 3 ok l by (simp add: nat_add_distrib [symmetric])
    moreover have "nat ?l \<le> nat ?f" using 3 ok l by simp
    ultimately have m2: "mem_copy ?b1 (off + pts dev) b 0 ?l = Some (blit ?b1 (nat (off + pts dev)) (take (nat ?l) b))"
      "length (blit ?b1 (nat (off + pts dev)) (take (nat ?l) b)) = length buff"
      using 3 ok l r lb mem_copy_ok [of "off + pts dev" 0 ?l b ?b1] by auto
    obtain b' where b': "copy_down mv b ?l (?f - ?l) = Some b'" "length b' = length b"
      by (rule copy_down_total [OF mv, of ?l "?f - ?l" b]) (use 3 l r sum [of ?l] ok in auto)
    show ?thesis
    proof (cases "ret = 0")
      case True
      show ?thesis using 3 True r p m1 m2 b' u [of ?l] l ok out [of "Some s'" b' "?f - ?l"]
        by (simp add: finish_read_def read_left_frame_def)
    qed (use 3 r p m1 lb err [of ?b1] in \<open>simp add: finish_read_def read_left_frame_def reset_buffer_def\<close>)
  qed
qed

lemma read_stream_outcome:
  assumes rd: "pcm_read_ok rd" and mv: "keeps_length mv" and ok: "mic_ok dev" and h: "pcm dev \<noteq> None"
    and n: "0 \<le> n" "n \<le> int_max" "nat n \<le> length buff"
  shows "outcome rd dev (length buff) (read_stream rd mv dev (Some buff) n)"
proof (cases "frame_cnt dev \<le> n")
  case False
  then show ?thesis
    using read_left_outcome [OF rd mv ok h, of 0 n buff] n by (simp add: read_stream_small [OF ok n(1)])
next
  case True
  let ?f = "frame_cnt dev" let ?w = "whole_frames dev n"
  note k = mic_okD [OF ok] and w = whole_frames_props [OF ok True]
  have wf: "0 \<le> ?w * ?f" using w(1) k by simp
  let ?u = "pts dev + ?w * ?f"
  have q: "1 \<le> n div ?f" "n div ?f \<le> n"
    using n True k by (simp_all add: pos_imp_zdiv_pos_iff int_one_le_iff_zero_less div_le_self_int)
  have m: "0 \<le> n mod ?f" "n mod ?f < ?f" using k by auto
  have c: "s32_of ?f = ?f" "s32_of (n mod ?f) = n mod ?f" "s32_of (n div ?f) = n div ?f"
    using k q n m by (auto intro!: s32_of_id)
  have cnt: "(if n mod ?f < pts dev then s32 (s32_of (n div ?f) - 1) else Some (s32_of (n div ?f))) = Some ?w"
    using q n c by (simp add: whole_frames_def c_simps int_min_def)
  define b1 where "b1 = blit buff 0 (pending dev)"
  have lb: "length b1 = length buff"
    using length_pending [OF ok] k True n unfolding b1_def by (intro length_blit) simp
  have b1: "(if 0 < pts dev then mem_copy buff 0 (buffer dev) 0 (pts dev) else Some buff) = Some b1"
    using k n True by (auto simp: c_simps pending_def b1_def)
  have rng: "int_min \<le> ?w * ?f" "?w * ?f \<le> int_max" "int_min \<le> ?u" "?u \<le> int_max"
    "0 \<le> n - ?u" "n - ?u < 4294967296" "0 \<le> n - ?u" "n - ?u \<le> int_max"
    using wf w k n unfolding int_min_def int_max_def by linarith+
  have su: "s32 (?w * ?f) = Some (?w * ?f)" "s32 ?u = Some ?u" "u32_of (n - ?u) = n - ?u" "s32_of (n - ?u) = n - ?u"
    by (rule s32_in_range s32_of_id u32_of_id; rule rng)+
  have nw: "nat ?w * nat ?f = nat (?w * ?f)" using w(1) k by (simp add: nat_mult_distrib)
  have fr: "outcome rd dev (length b1) (read_frames rd dev b1 ?f 0 (nat ?w))
    \<and> (\<forall>dev' b. read_frames rd dev b1 ?f 0 (nat ?w) = Some (0, dev', b) \<longrightarrow> pts dev' = pts dev)"
    using w k n wf nw lb by (intro read_frames_outcome [OF rd ok h]) (auto simp: nat_add_distrib [symmetric])
  then obtain ret d b where r: "read_frames rd dev b1 ?f 0 (nat ?w) = Some (ret, d, b)"
    by (auto simp: outcome_def split: option.splits)
  have run: "read_stream rd mv dev (Some buff) n =
      (if ret \<noteq> 0 then Some (ret, d, b) else
       do { used \<leftarrow> s32 (pts d + ?w * ?f);
            (if u32_of (n - used) = 0 then Some (ret, d\<lparr>pts := 0\<rparr>, b)
             else finish_read rd mv (d\<lparr>pts := 0\<rparr>) b used (s32_of (n - used))) })"
    using k n True by (simp add: read_stream_def Let_def c cnt b1 r split del: if_split) (simp add: su(1))
  show ?thesis
  proof (cases "ret = 0")
    case False
    then show ?thesis using run fr r lb by (simp add: outcome_def)
  next
    case t: True
    have d: "mic_ok d" "pcm d \<noteq> None" "frame_cnt d = ?f" "length b = length buff" "pts d = pts dev"
      using fr r t lb by (auto simp: outcome_def)
    have d0: "mic_ok (d\<lparr>pts := 0\<rparr>)" using d(1) by (simp add: mic_ok_def)
    have "outcome rd (d\<lparr>pts := 0\<rparr>) (length b) (finish_read rd mv (d\<lparr>pts := 0\<rparr>) b ?u (n - ?u))"
      using d w wf k n by (intro read_left_outcome [OF rd mv d0]) (auto simp: nat_add_distrib [symmetric])
    then have "outcome rd dev (length buff) (finish_read rd mv (d\<lparr>pts := 0\<rparr>) b ?u (n - ?u))"
      using d by (auto simp: outcome_def split: option.splits)
    then show ?thesis using run t d d0 su by (auto simp: outcome_def [of _ _ _ "Some _"])
  qed
qed

text \<open>
  C3. Whatever the device answers, \<open>read_stream\<close> into a buffer of at least \<open>n\<close> bytes stays
  inside its two buffers and never overflows; a failure code is one the device returned, and
  leaves the cache empty and the device usable.
\<close>

theorem read_stream_safe:
  assumes "pcm_read_ok rd" "keeps_length mv" "mic_ok dev" "pcm dev \<noteq> None"
    and "0 \<le> n" "n \<le> int_max" "nat n \<le> length buff"
  shows "\<exists>ret dev' buff'. read_stream rd mv dev (Some buff) n = Some (ret, dev', buff')
           \<and> mic_ok dev' \<and> length buff' = length buff
           \<and> (ret \<noteq> 0 \<longrightarrow> pts dev' = 0 \<and> (\<exists>s. fst (rd s (nat (frame_cnt dev))) = ret))"
  using read_stream_outcome [OF assms] by (auto simp: outcome_def split: option.splits)

text \<open>A device that fails with 5 (EIO) after delivering two bytes.\<close>

definition broken_reader :: "nat pcm_reader" where
  "broken_reader s n = (5, take n [1, 2], s)"

theorem read_stream_safe_witness:
  "\<exists>dev' buff'. read_stream broken_reader move_overlap demo_dev (Some (replicate 9 0)) 9 = Some (5, dev', buff') \<and> pts dev' = 0"
proof -
  have ok: "pcm_read_ok broken_reader" by (simp add: pcm_read_ok_def broken_reader_def)
  have "\<exists>ret dev' buff'. read_stream broken_reader move_overlap demo_dev (Some (replicate 9 0)) 9 = Some (ret, dev', buff')
           \<and> mic_ok dev' \<and> length buff' = length (replicate 9 (0 :: byte))
           \<and> (ret \<noteq> 0 \<longrightarrow> pts dev' = 0 \<and> (\<exists>s. fst (broken_reader s (nat (frame_cnt demo_dev))) = ret))"
    by (rule read_stream_safe [OF ok move_overlap_ok(2)]) (simp_all add: mic_ok_def demo_dev_def int_max_def)
  moreover have "\<exists>dev' buff'. read_stream broken_reader move_overlap demo_dev (Some (replicate 9 0)) 9 = Some (5, dev', buff')"
    by (simp add: read_stream_def Let_def demo_dev_def s32_of_def int_max_def s32_def int_min_def mem_copy_def mem_load_def
        mem_store_def read_frame_def broken_reader_def numeral_eq_Suc blit_def)
  ultimately show ?thesis by auto
qed

end
