(* ===== verification/MicControl.thy ===== *)
theory MicControl
  imports MicArray
begin

text \<open>
  The control side of the microphone HAL, \<open>mic_array.c\<close>: the search of
  \<open>/proc/asound/cards\<close>, opening, starting and stopping the device in the NDK build and
  in the platform build (which also sets a mixer control). The tinyalsa calls are parameters.
\<close>

section \<open>Finding the sound card\<close>

text \<open>\<open>strstr\<close> and \<open>atoi\<close> of the C library, on NUL-free strings.\<close>

fun prefix_of :: "string \<Rightarrow> string \<Rightarrow> bool" where
  "prefix_of [] ys = True"
| "prefix_of (x # xs) [] = False"
| "prefix_of (x # xs) (y # ys) = (x = y \<and> prefix_of xs ys)"

fun strstr :: "string \<Rightarrow> string \<Rightarrow> bool" where
  "strstr [] pat = (pat = [])"
| "strstr (c # cs) pat = (prefix_of pat (c # cs) \<or> strstr cs pat)"

definition newline :: char where "newline = CHR 0x0A"

definition is_space :: "char \<Rightarrow> bool" where
  "is_space c \<longleftrightarrow> c \<in> {CHR '' '', CHR 0x09, CHR 0x0A, CHR 0x0B, CHR 0x0C, CHR 0x0D}"

definition is_digit :: "char \<Rightarrow> bool" where
  "is_digit c \<longleftrightarrow> 48 \<le> (of_char c :: nat) \<and> (of_char c :: nat) \<le> 57"

fun digits_value :: "int \<Rightarrow> string \<Rightarrow> int" where
  "digits_value acc [] = acc"
| "digits_value acc (c # cs) = (if is_digit c then digits_value (10 * acc + (of_char c - 48)) cs else acc)"

definition atoi :: "string \<Rightarrow> int c" where
  "atoi s = (case dropWhile is_space s of
       [] \<Rightarrow> Some 0
     | c # cs \<Rightarrow>
         s32 (if c = CHR ''-'' then - digits_value 0 cs
              else if c = CHR ''+'' then digits_value 0 cs
              else digits_value 0 (c # cs)))"

text \<open>
  The search loop: \<open>b\<close> is what is left of the text. A line is looked at only when a newline
  ends it.
\<close>

function scan_cards :: "string \<Rightarrow> string \<Rightarrow> int c" where
  "scan_cards b nm =
     (case dropWhile (\<lambda>c. c \<noteq> newline) b of
        [] \<Rightarrow> Some (-1)
      | _ # rest \<Rightarrow>
          if strstr (takeWhile (\<lambda>c. c \<noteq> newline) b) nm then atoi (takeWhile (\<lambda>c. c \<noteq> newline) b)
          else scan_cards rest nm)"
  by pat_completeness auto
termination
proof (relation "measure (\<lambda>(b, _). length b)", simp, clarsimp)
  fix b x rest assume "dropWhile (\<lambda>c. c \<noteq> newline) b = x # rest"
  then show "length rest < length b"
    using length_dropWhile_le [of "\<lambda>c. c \<noteq> newline" b] by simp
qed

declare scan_cards.simps [simp del]

text \<open>
  \<open>find_snd\<close>: \<open>Inl errno\<close> when \<open>/proc/asound/cards\<close> cannot be opened, \<open>Inr\<close> its text.
  At most 4095 bytes are read, the last byte read is overwritten by the terminating NUL, and
  an empty file writes before the buffer.
\<close>

definition find_snd :: "int + string \<Rightarrow> string \<Rightarrow> int c" where
  "find_snd cards nm =
     (case cards of
        Inl errno \<Rightarrow> Some errno
      | Inr txt \<Rightarrow>
          (let buf = take 4095 txt in
           if buf = [] then None
           else scan_cards (takeWhile (\<lambda>c. c \<noteq> CHR 0x00) (butlast buf)) nm))"

definition find_card :: "int + string \<Rightarrow> string option \<Rightarrow> int c" where
  "find_card cards nm = (case nm of None \<Rightarrow> Some (-1) | Some s \<Rightarrow> find_snd cards s)"

definition unlines :: "string list \<Rightarrow> string" where
  "unlines ls = concat (map (\<lambda>l. l @ [newline]) ls)"

lemma scan_unlines:
  assumes "\<forall>l \<in> set ls. newline \<notin> set l" "newline \<notin> set last_line"
  shows "scan_cards (unlines ls @ last_line) nm =
           (case find (\<lambda>l. strstr l nm) ls of None \<Rightarrow> Some (-1) | Some l \<Rightarrow> atoi l)"
  using assms(1)
proof (induction ls)
  case Nil
  have "dropWhile (\<lambda>c. c \<noteq> newline) last_line = []"
    using assms(2) by (auto simp: dropWhile_eq_Nil_conv)
  then show ?case by (simp only: unlines_def scan_cards.simps [of last_line] list.map concat.simps append.simps
        list.case find.simps option.case)
next
  case (Cons l ls)
  let ?p = "\<lambda>c. c \<noteq> newline"
  have nl: "newline \<notin> set l" using Cons.prems by simp
  have d: "dropWhile ?p (l @ newline # xs) = newline # xs" for xs
    using nl by (induction l) auto
  have t: "takeWhile ?p (l @ newline # xs) = l" for xs
    using nl by (induction l) auto
  have u: "unlines (l # ls) @ last_line = l @ newline # (unlines ls @ last_line)"
    by (simp add: unlines_def)
  show ?case using Cons unfolding u by (subst scan_cards.simps) (auto simp: d t)
qed

text \<open>
  C4. On a card list of newline-terminated lines that fits the buffer, the search returns the number at the head of the
  first line that contains the name \<^emph>\<open>among all lines but the last\<close>: the terminating NUL
  overwrites the newline of the last line, so that line is never compared.
\<close>

theorem find_snd_skips_last_line:
  assumes "\<forall>l \<in> set (ls @ [z]). newline \<notin> set l \<and> CHR 0x00 \<notin> set l"
    and "length (unlines (ls @ [z])) \<le> 4095"
  shows "find_snd (Inr (unlines (ls @ [z]))) nm =
           (case find (\<lambda>l. strstr l nm) ls of None \<Rightarrow> Some (-1) | Some l \<Rightarrow> atoi l)"
proof -
  define t where "t = unlines ls @ z"
  have u: "unlines (ls @ [z]) = t @ [newline]" by (simp add: unlines_def t_def)
  have "CHR 0x00 \<notin> set t" using assms(1) by (auto simp: t_def unlines_def newline_def)
  then have tw: "takeWhile (\<lambda>c. c \<noteq> CHR 0x00) t = t" by (auto simp: takeWhile_eq_all_conv)
  have "take 4095 (t @ [newline]) = t @ [newline]" using assms(2) u by (intro take_all) simp
  then have "find_snd (Inr (unlines (ls @ [z]))) nm = scan_cards t nm"
    by (simp add: find_snd_def Let_def u tw del: take_append)
  then show ?thesis using assms(1) by (simp add: scan_unlines t_def)
qed

theorem find_snd_skips_last_line_witness:
  "find_snd (Inr (unlines [''0 [PCH]: HDA'', ''1 [Mic]: USB-Audio''])) ''USB-Audio'' = Some (-1)
   \<and> find_snd (Inr (unlines [''0 [PCH]: HDA'', ''1 [Mic]: USB-Audio'', ''  long name''])) ''USB-Audio'' = Some 1"
  using find_snd_skips_last_line [of "[''0 [PCH]: HDA'']" "''1 [Mic]: USB-Audio''" "''USB-Audio''"]
    find_snd_skips_last_line [of "[''0 [PCH]: HDA'', ''1 [Mic]: USB-Audio'']" "''  long name''" "''USB-Audio''"]
  by (simp add: newline_def unlines_def atoi_def is_space_def is_digit_def s32_def int_min_def int_max_def)

section \<open>The mixer control of the platform build\<close>

text \<open>
  The tinyalsa mixer as the code uses it; a set call returns non-zero on failure. The model
  returns the set calls that are made, in order.
\<close>

record 'c mixer_api =
  get_ctl :: "int \<Rightarrow> 'c option"
  get_ctl_by_name :: "string \<Rightarrow> 'c option"
  ctl_is_enum :: "'c \<Rightarrow> bool"
  ctl_num_values :: "'c \<Rightarrow> nat"
  ctl_set_value :: "'c \<Rightarrow> nat \<Rightarrow> int \<Rightarrow> int"

datatype mix_call = Set_value nat int | Set_enum string

fun set_same :: "(nat \<Rightarrow> int \<Rightarrow> int) \<Rightarrow> int \<Rightarrow> nat \<Rightarrow> nat \<Rightarrow> mix_call list" where
  "set_same f x i 0 = []"
| "set_same f x i (Suc k) = Set_value i x # (if f i x \<noteq> 0 then [] else set_same f x (Suc i) k)"

fun set_each :: "(nat \<Rightarrow> int \<Rightarrow> int) \<Rightarrow> nat \<Rightarrow> string list \<Rightarrow> mix_call list c" where
  "set_each f i [] = Some []"
| "set_each f i (v # vs) = do {
     x \<leftarrow> atoi v;
     (if f i x \<noteq> 0 then Some [Set_value i x]
      else do { r \<leftarrow> set_each f (Suc i) vs; Some (Set_value i x # r) })
   }"

definition first_char :: "string \<Rightarrow> char" where
  "first_char s = (case s of [] \<Rightarrow> CHR 0x00 | c # _ \<Rightarrow> c)"

definition tinymix_set_value :: "'c mixer_api \<Rightarrow> string \<Rightarrow> string list \<Rightarrow> mix_call list c" where
  "tinymix_set_value m control values = do {
     ctl \<leftarrow> (if is_digit (first_char control) then do { i \<leftarrow> atoi control; Some (get_ctl m i) }
            else Some (get_ctl_by_name m control));
     (case ctl of
        None \<Rightarrow> Some []
      | Some ctl \<Rightarrow>
          (case values of
             [] \<Rightarrow> None
           | v0 # _ \<Rightarrow>
               if is_digit (first_char v0)
               then (if length values = 1
                     then do { x \<leftarrow> atoi v0; Some (set_same (ctl_set_value m ctl) x 0 (ctl_num_values m ctl)) }
                     else if ctl_num_values m ctl < length values then Some []
                     else set_each (ctl_set_value m ctl) 0 values)
               else if ctl_is_enum m ctl
               then (if length values \<noteq> 1 then Some [] else Some [Set_enum v0])
               else Some []))
   }"

lemma find_Some_mem: "find P xs = Some y \<Longrightarrow> y \<in> set xs"
  by (auto simp: find_Some_iff)

text \<open>
  One numeric value given for a control is written to every value of the control, and to
  nothing else, when the writes succeed; the first refused write ends it.
\<close>

theorem tinymix_single_value_sets_all:
  assumes "get_ctl_by_name m name = Some ctl" "\<not> is_digit (first_char name)"
    and "is_digit (first_char v)" "atoi v = Some x"
  shows "tinymix_set_value m name [v] = Some
           (let n = ctl_num_values m ctl in
            case find (\<lambda>i. ctl_set_value m ctl i x \<noteq> 0) [0..<n] of
              None \<Rightarrow> map (\<lambda>i. Set_value i x) [0..<n]
            | Some j \<Rightarrow> map (\<lambda>i. Set_value i x) [0..<Suc j])"
proof -
  let ?f = "ctl_set_value m ctl"
  have "set_same ?f x i k =
      (case find (\<lambda>i. ?f i x \<noteq> 0) [i..<i + k] of
         None \<Rightarrow> map (\<lambda>i. Set_value i x) [i..<i + k] | Some j \<Rightarrow> map (\<lambda>i. Set_value i x) [i..<Suc j])" for i k
  proof (induction k arbitrary: i)
    case (Suc k)
    have u: "[i..<i + Suc k] = i # [Suc i..<Suc i + k]" by (simp add: upt_rec)
    show ?case
    proof (cases "?f i x = 0")
      case True
      have "i < Suc j" if "find (\<lambda>i. ?f i x \<noteq> 0) [Suc i..<Suc i + k] = Some j" for j
        using find_Some_mem [OF that] by auto
      then have "Set_value i x # map (\<lambda>i. Set_value i x) [Suc i..<Suc j] = map (\<lambda>i. Set_value i x) [i..<Suc j]"
        if "find (\<lambda>i. ?f i x \<noteq> 0) [Suc i..<Suc i + k] = Some j" for j
        using that by (simp only: upt_conv_Cons [of i "Suc j"] list.map)
      then show ?thesis using True Suc [of "Suc i"] unfolding u
        by (auto split: option.splits simp del: upt.simps)
    qed (simp only: u, simp)
  qed simp
  from this [of 0 "ctl_num_values m ctl", unfolded add_0] show ?thesis
    using assms by (simp add: tinymix_set_value_def Let_def)
qed

definition demo_mixer :: "nat mixer_api" where
  "demo_mixer = \<lparr>get_ctl = (\<lambda>_. None), get_ctl_by_name = (\<lambda>s. if s = ''QUAT'' then Some 0 else None),
     ctl_is_enum = (\<lambda>_. False), ctl_num_values = (\<lambda>_. 2), ctl_set_value = (\<lambda>_ _ _. 0)\<rparr>"

theorem tinymix_single_value_sets_all_witness:
  "tinymix_set_value demo_mixer ''QUAT'' [''0''] = Some [Set_value 0 0, Set_value 1 0]"
  using tinymix_single_value_sets_all [of demo_mixer "''QUAT''" 0 "''0''" 0]
  by (simp add: demo_mixer_def first_char_def is_digit_def atoi_def is_space_def s32_def int_min_def int_max_def
      numeral_eq_Suc)

section \<open>Opening, starting and stopping\<close>

text \<open>
  \<open>mic_array_device_open\<close>: the two allocations are the parameters; the second one is not
  checked, a device whose buffer could not be allocated has a block of no cells.
\<close>

definition open_with :: "int \<Rightarrow> bool \<Rightarrow> byte list option \<Rightarrow> int \<times> 's mic_dev option" where
  "open_with cnt alloc_dev alloc_buf =
     (if \<not> alloc_dev then (-1, None)
      else (0, Some \<lparr>frame_cnt = cnt, pcm = None, pts = 0,
              buffer = (case alloc_buf of None \<Rightarrow> [] | Some b \<Rightarrow> b)\<rparr>))"

definition mic_open :: "bool \<Rightarrow> byte list option \<Rightarrow> int \<times> 's mic_dev option" where
  "mic_open = open_with (48000 div 100 * 8 * 4)"

definition mic_open_hal :: "bool \<Rightarrow> byte list option \<Rightarrow> int \<times> 's mic_dev option" where
  "mic_open_hal = open_with (4 * 1024)"

definition stop_stream :: "'s mic_dev \<Rightarrow> int \<times> 's mic_dev" where
  "stop_stream dev = (0, if pcm dev \<noteq> None then dev\<lparr>pcm := None\<rparr> else dev)"

definition get_stream_buff_size :: "'s mic_dev \<Rightarrow> int" where
  "get_stream_buff_size dev = s32_of (frame_cnt dev)"

text \<open>
  Closing frees the device and its buffer (the PCM handle, when one is open, is not closed); the
  remaining entries of the device are not implemented and change nothing.
\<close>

definition mic_close :: "'s mic_dev option \<Rightarrow> int \<times> 's mic_dev option" where
  "mic_close d = (0, None)"

definition finish_stream :: "'s mic_dev \<Rightarrow> int \<times> 's mic_dev" where
  "finish_stream dev = (-1, dev)"

definition config_stream :: "'s mic_dev \<Rightarrow> int \<Rightarrow> string \<Rightarrow> int \<times> 's mic_dev" where
  "config_stream dev cmd arg = (-1, dev)"

definition resume_stream :: "'s mic_dev \<Rightarrow> int \<times> 's mic_dev" where
  "resume_stream dev = (-1, dev)"

text \<open>\<open>pcm_open card device\<close> and \<open>pcm_is_ready\<close> are tinyalsa's.\<close>

definition start_stream ::
  "int + string \<Rightarrow> (int \<Rightarrow> int \<Rightarrow> 's option) \<Rightarrow> ('s \<Rightarrow> bool) \<Rightarrow> 's mic_dev \<Rightarrow> (int \<times> 's mic_dev) c" where
  "start_stream cards pcm_open pcm_is_ready dev = do {
     card \<leftarrow> find_snd cards ''USB-Audio'';
     let card1 = (if card < 0 then 0 else card);
     (case pcm_open card1 0 of
        None \<Rightarrow> Some (-1, dev)
      | Some p \<Rightarrow> if \<not> pcm_is_ready p then Some (-1, dev) else Some (0, dev\<lparr>pcm := Some p\<rparr>))
   }"

definition start_stream_hal ::
  "int + string \<Rightarrow> (int \<Rightarrow> 'c mixer_api option) \<Rightarrow> (int \<Rightarrow> int \<Rightarrow> 's option) \<Rightarrow> ('s option \<Rightarrow> bool)
     \<Rightarrow> 's mic_dev \<Rightarrow> (int \<times> 's mic_dev \<times> mix_call list) c" where
  "start_stream_hal cards mixer_open pcm_open pcm_is_ready dev = do {
     card \<leftarrow> find_snd cards ''USB-Audio'';
     mix \<leftarrow> (if card \<le> 0
            then (case mixer_open 0 of
                    None \<Rightarrow> Some None
                  | Some m \<Rightarrow> do {
                      calls \<leftarrow> tinymix_set_value m ''MultiMedia1 Mixer QUAT_MI2S_TX'' [''0''];
                      Some (Some (0, calls)) })
            else Some (Some (card, [])));
     (case mix of
        None \<Rightarrow> Some (-1, dev, [])
      | Some (card1, calls) \<Rightarrow>
          let p = pcm_open card1 0 in
          if p = None \<and> \<not> pcm_is_ready p then Some (-1, dev, calls)
          else Some (0, dev\<lparr>pcm := p\<rparr>, calls))
   }"

lemma mic_open_ok:
  "length b = 15360 \<Longrightarrow> mic_open True (Some b) = (0, Some dev) \<Longrightarrow> mic_ok dev \<and> pending dev = []"
  by (auto simp: mic_open_def open_with_def mic_ok_def pending_def int_max_def)

text \<open>
  C5. A device that was opened, with its buffer allocated, and then started on a PCM device that never fails: when
  every request of the client can be served without an overlapping move, as requests of whole halves of a frame
  (7680 bytes) always are, the client gets the stream of a ready PCM handle from its beginning, on any
  platform; otherwise the run is undefined in C.
\<close>

theorem opened_device_streams:
  assumes "mic_open True (Some b) = (0, Some dev0)" "length b = 15360"
    and "start_stream cards po rdy dev0 = Some (0, dev)"
    and "pcm_read_ok rd" "\<forall>s n. fst (rd s n) = 0" "\<forall>n \<in> set ns. 0 \<le> n \<and> n \<le> int_max"
  shows "\<exists>s. pcm dev = Some s \<and> rdy s \<and>
           (if apart_all 15360 0 ns
            then \<exists>out dev' k ys t. (\<forall>mv. read_all rd mv dev ns = Some (out, dev'))
              \<and> frames rd s 15360 k = Some (ys, t) \<and> out @ pending dev' = ys \<and> int (length out) = sum_list ns
            else read_all rd no_overlap dev ns = None) \<and>
           ((\<forall>n \<in> set ns. 0 < n \<and> 7680 dvd n) \<longrightarrow> apart_all 15360 0 ns)"
proof -
  have fc: "frame_cnt dev0 = 15360" using assms(1) by (auto simp: mic_open_def open_with_def)
  have ok0: "mic_ok dev0" "pending dev0 = []" using mic_open_ok [OF assms(2,1)] by auto
  obtain s where s: "dev = dev0\<lparr>pcm := Some s\<rparr>" "rdy s"
    using assms(3) by (auto simp: start_stream_def Let_def bind_eq_Some_conv split: option.splits if_splits)
  have p0: "pts dev0 = 0" using assms(1) by (auto simp: mic_open_def open_with_def)
  have ok: "mic_ok dev" "pcm dev = Some s" "pending dev = []" "frame_cnt dev = 15360" "pts dev = 0"
    using ok0 s fc p0 by (auto simp: mic_ok_def pending_def)
  have n: "nat 15360 = 15360" by simp
  have "if apart_all 15360 0 ns
      then \<exists>out dev' k ys t. (\<forall>mv. read_all rd mv dev ns = Some (out, dev')) \<and> mic_ok dev' \<and> int (length out) = sum_list ns
        \<and> frames rd s 15360 k = Some (ys, t) \<and> pcm dev' = Some t \<and> out @ pending dev' = [] @ ys
      else read_all rd no_overlap dev ns = None"
    using read_all_prefix_strong [OF assms(4) ok(1,2) assms(5,6)] unfolding ok n .
  moreover have "apart_all 15360 0 ns" if "\<forall>n \<in> set ns. 0 < n \<and> 7680 dvd n"
    using half_frames_apart [of 7680 0 ns] that by (simp add: list_all_iff)
  ultimately show ?thesis using s(2) ok(2) by (auto split: if_splits)
qed

theorem opened_device_streams_witness:
  "\<exists>dev0 dev out dev' k ys t. mic_open True (Some (replicate 15360 0)) = (0, Some dev0)
     \<and> start_stream (Inl 2) (\<lambda>_ _. Some 0) (\<lambda>_. True) dev0 = Some (0, dev)
     \<and> read_all count_reader no_overlap dev [7680, 23040] = Some (out, dev')
     \<and> frames count_reader 0 15360 k = Some (ys, t) \<and> out @ pending dev' = ys \<and> length out = 30720"
proof -
  define b :: "byte list" where "b = replicate 15360 0"
  have lb: "length b = 15360" by (simp add: b_def)
  obtain dev0 :: "nat mic_dev" where o: "mic_open True (Some b) = (0, Some dev0)"
    by (auto simp: mic_open_def open_with_def)
  have st: "start_stream (Inl 2) (\<lambda>_ _. Some 0) (\<lambda>_. True) dev0 = Some (0, dev0\<lparr>pcm := Some 0\<rparr>)"
    by (simp add: start_stream_def find_snd_def)
  have cr: "\<forall>s n. fst (count_reader s n) = 0" by (simp add: count_reader_def)
  have ns: "\<forall>n \<in> set [7680, 23040 :: int]. 0 \<le> n \<and> n \<le> int_max" by (simp add: int_max_def)
  have a: "apart_all 15360 0 [7680, 23040]" by (simp add: moves_apart_def cached_after_def)
  show ?thesis
    using opened_device_streams [OF o lb st count_reader_ok cr ns] o st a
    unfolding b_def [symmetric] by fastforce
qed

text \<open>
  C6. On a machine with a USB card and a PCM handle that opens but is not ready, the NDK build refuses
  to start and keeps its state, and the platform build reports success with the unready handle
  installed (its guard is \<open>pcm == NULL && !pcm_is_ready(pcm)\<close>).
\<close>

theorem hal_start_accepts_unready:
  assumes "find_snd cards ''USB-Audio'' = Some crd" "0 < crd" "po crd 0 = Some p" "\<not> rdy p"
  shows "start_stream cards po rdy dev = Some (-1, dev)
       \<and> start_stream_hal cards mo po (\<lambda>h. h \<noteq> None \<and> rdy (the h)) dev = Some (0, dev\<lparr>pcm := Some p\<rparr>, [])"
  using assms by (simp add: start_stream_def start_stream_hal_def Let_def)

theorem hal_start_accepts_unready_witness:
  "start_stream (Inl 2) (\<lambda>_ _. Some 0) (\<lambda>_. False) demo_dev = Some (-1, demo_dev)
   \<and> start_stream_hal (Inl 2) (\<lambda>_. None :: nat mixer_api option) (\<lambda>_ _. Some 0) (\<lambda>h. h \<noteq> None \<and> False) demo_dev
       = Some (0, demo_dev\<lparr>pcm := Some 0\<rparr>, [])"
  using hal_start_accepts_unready [of "Inl 2" 2 "\<lambda>_ _. Some 0" 0 "\<lambda>_. False" demo_dev
      "\<lambda>_. None :: nat mixer_api option"]
  by (simp add: find_snd_def)

end
