(* ===== verification/DList.thy ===== *)
theory DList
  imports Prelude
begin

text \<open>
  The intrusive doubly linked list of \<open>rlog.c\<close> (\<open>ListItem\<close>, \<open>list_add\<close>,
  \<open>list_erase\<close> and the search loops), on an explicit heap from addresses to nodes.
  \<open>seg\<close> says that a list of addressed items is laid out in the heap; the lemmas give each
  pointer operation as an operation on that list. A NULL pointer is \<open>None\<close>, the access to a
  freed or never allocated object is undefined behaviour.
\<close>

section \<open>Nodes, heaps and the operations\<close>

record 'a node =
  nxt :: "nat option"
  prv :: "nat option"
  item :: 'a

type_synonym 'a heap = "nat \<Rightarrow> 'a node option"
type_synonym allocator = "(nat \<Rightarrow> bool) \<Rightarrow> nat option"

definition used :: "'a heap \<Rightarrow> nat \<Rightarrow> bool" where
  "used h a \<longleftrightarrow> h a \<noteq> None"

text \<open>malloc and the assignment of the payload; the links are set by \<open>list_add\<close>.\<close>

definition new_node :: "allocator \<Rightarrow> 'a heap \<Rightarrow> 'a \<Rightarrow> (nat \<times> 'a heap) c" where
  "new_node m h x =
     (case m (used h) of None \<Rightarrow> None | Some a \<Rightarrow> Some (a, h(a \<mapsto> \<lparr>nxt = None, prv = None, item = x\<rparr>)))"

definition list_add :: "'a heap \<Rightarrow> nat option \<Rightarrow> nat \<Rightarrow> ('a heap \<times> nat option) c" where
  "list_add h head a = do {
     n \<leftarrow> h a;
     let h1 = h(a \<mapsto> n\<lparr>prv := None, nxt := head\<rparr>);
     h2 \<leftarrow> (case head of
            None \<Rightarrow> Some h1
          | Some b \<Rightarrow> do { x \<leftarrow> h1 b; Some (h1(b \<mapsto> x\<lparr>prv := Some a\<rparr>)) });
     Some (h2, Some a)
   }"

definition list_erase :: "'a heap \<Rightarrow> nat option \<Rightarrow> nat \<Rightarrow> ('a heap \<times> nat option) c" where
  "list_erase h head a = do {
     n \<leftarrow> h a;
     h1 \<leftarrow> (case prv n of
            None \<Rightarrow> Some h
          | Some p \<Rightarrow> do { x \<leftarrow> h p; Some (h(p \<mapsto> x\<lparr>nxt := nxt n\<rparr>)) });
     n1 \<leftarrow> h1 a;
     h2 \<leftarrow> (case nxt n1 of
            None \<Rightarrow> Some h1
          | Some q \<Rightarrow> do { x \<leftarrow> h1 q; Some (h1(q \<mapsto> x\<lparr>prv := prv n1\<rparr>)) });
     n2 \<leftarrow> h2 a;
     Some (h2(a := None), if head = Some a then nxt n2 else head)
   }"

text \<open>
  The search loops: walk from \<open>head\<close> until the test holds. The test itself may be undefined (it
  dereferences), and the loop does not end on a cyclic list; both are \<open>None\<close>.
\<close>

partial_function (option) list_find :: "'a heap \<Rightarrow> ('a \<Rightarrow> bool c) \<Rightarrow> nat option \<Rightarrow> nat option c" where
  "list_find h P head =
     (case head of
        None \<Rightarrow> Some None
      | Some a \<Rightarrow> do {
          n \<leftarrow> h a;
          b \<leftarrow> P (item n);
          (if b then Some (Some a) else list_find h P (nxt n))
        })"

section \<open>Lists laid out in the heap\<close>

text \<open>
  \<open>seg h p q xs p' q'\<close>: from the pointer \<open>q\<close> the items \<open>xs\<close> are linked in both
  directions; \<open>p\<close> is the back link of the first, \<open>p'\<close> the last address (\<open>p\<close> when there
  is none) and \<open>q'\<close> the forward link of the last.
\<close>

fun seg :: "'a heap \<Rightarrow> nat option \<Rightarrow> nat option \<Rightarrow> (nat \<times> 'a) list \<Rightarrow> nat option \<Rightarrow> nat option \<Rightarrow> bool" where
  "seg h p q [] p' q' = (p' = p \<and> q' = q)"
| "seg h p q ((a, x) # xs) p' q' =
     (q = Some a \<and> (\<exists>n. h a = Some n \<and> prv n = p \<and> item n = x \<and> seg h (Some a) (nxt n) xs p' q'))"

definition linked :: "'a heap \<Rightarrow> nat option \<Rightarrow> (nat \<times> 'a) list \<Rightarrow> bool" where
  "linked h head xs \<longleftrightarrow> distinct (map fst xs) \<and> (\<exists>p'. seg h None head xs p' None)"

lemma seg_append:
  "seg h p q (xs @ ys) p'' q'' \<longleftrightarrow> (\<exists>p' q'. seg h p q xs p' q' \<and> seg h p' q' ys p'' q'')"
proof (induction xs arbitrary: p q)
  case (Cons x xs)
  then show ?case by (cases x) (simp, blast)
qed simp

lemma seg_head: "seg h p (Some a) xs p' (Some b) \<Longrightarrow> a = b \<or> a \<in> fst ` set xs"
  by (cases xs) auto

lemma seg_upd [simp]: "a \<notin> fst ` set xs \<Longrightarrow> seg (h(a := v)) p q xs p' q' = seg h p q xs p' q'"
  by (induction xs arbitrary: p q) auto

lemma seg_frame: "\<forall>a \<in> fst ` set xs. h' a = h a \<Longrightarrow> seg h' p q xs p' q' = seg h p q xs p' q'"
proof (induction xs arbitrary: p q)
  case (Cons x xs)
  then show ?case by (cases x) simp
qed simp

lemma seg_node: "seg h p q xs p' q' \<Longrightarrow> (a, x) \<in> set xs \<Longrightarrow> \<exists>n. h a = Some n \<and> item n = x"
proof (induction xs arbitrary: p q)
  case (Cons y xs)
  then show ?case by (cases y) auto
qed simp

lemma linked_frame: "linked h head xs \<Longrightarrow> \<forall>a \<in> fst ` set xs. h' a = h a \<Longrightarrow> linked h' head xs"
  unfolding linked_def using seg_frame [of xs h' h] by simp

lemma linked_node: "linked h head xs \<Longrightarrow> (a, x) \<in> set xs \<Longrightarrow> \<exists>n. h a = Some n \<and> item n = x"
  unfolding linked_def using seg_node [of h None head xs _ None a x] by blast

lemma linked_Nil [simp]: "linked h head [] \<longleftrightarrow> head = None"
  by (auto simp: linked_def)

lemma linked_Cons_head: "linked h head ((a, x) # xs) \<Longrightarrow> head = Some a"
  by (auto simp: linked_def)

lemma linked_update_item:
  assumes "linked h head (xs @ (a, x) # ys)" "h a = Some n"
  shows "linked (h(a \<mapsto> n\<lparr>item := y\<rparr>)) head (xs @ (a, y) # ys)"
  using assms by (auto simp: linked_def seg_append)

lemma list_add_linked:
  assumes "linked h head xs" "a \<notin> fst ` set xs" "h a = Some n" "item n = x"
  shows "\<exists>h'. list_add h head a = Some (h', Some a) \<and> linked h' (Some a) ((a, x) # xs)
           \<and> (\<forall>b. b \<notin> insert a (fst ` set xs) \<longrightarrow> h' b = h b)
           \<and> (\<forall>b. h' b = None \<longleftrightarrow> h b = None)"
proof (cases xs)
  case Nil
  then show ?thesis using assms by (auto simp: list_add_def Let_def linked_def)
next
  case (Cons y ys)
  obtain b z where y: "y = (b, z)" by (cases y)
  show ?thesis using assms unfolding Cons y linked_def
    by (auto simp: list_add_def Let_def)
qed

lemma list_erase_linked:
  assumes "linked h head (xs @ (a, x) # ys)"
  shows "\<exists>h' head'. list_erase h head a = Some (h', head') \<and> linked h' head' (xs @ ys)
           \<and> (\<forall>b. b \<notin> fst ` set (xs @ (a, x) # ys) \<longrightarrow> h' b = h b)
           \<and> (\<forall>b. h' b = None \<longleftrightarrow> h b = None \<or> b = a)"
proof (cases xs rule: rev_cases)
  case Nil
  show ?thesis
  proof (cases ys)
    case Nil
    then show ?thesis using assms \<open>xs = []\<close> by (auto simp: linked_def list_erase_def)
  next
    case (Cons y zs)
    obtain b z where "y = (b, z)" by (cases y)
    then show ?thesis using assms Cons \<open>xs = []\<close> by (auto simp: linked_def list_erase_def)
  qed
next
  case (snoc us u)
  obtain b z where u: "u = (b, z)" by (cases u)
  show ?thesis
  proof (cases ys)
    case Nil
    show ?thesis using assms unfolding snoc u Nil linked_def
      by (auto simp: list_erase_def seg_append dest: seg_head)
  next
    case (Cons y zs)
    obtain c w where "y = (c, w)" by (cases y)
    then show ?thesis using assms unfolding snoc u Cons linked_def
      by (auto simp: list_erase_def seg_append dest: seg_head)
  qed
qed

lemma list_find_linked:
  assumes "linked h head xs" "\<forall>(a, x) \<in> set xs. P x = Some (Q (a, x))"
  shows "list_find h P head = Some (map_option fst (find Q xs))"
proof -
  have "list_find h P q = Some (map_option fst (find Q ys))"
    if "seg h p q ys p' None" "\<forall>(a, x) \<in> set ys. P x = Some (Q (a, x))" for p q ys p'
    using that
  proof (induction ys arbitrary: p q)
    case Nil
    then show ?case by (simp add: list_find.simps)
  next
    case (Cons y ys)
    obtain a x where y: "y = (a, x)" by (cases y)
    then show ?case using Cons by (subst list_find.simps) auto
  qed
  then show ?thesis using assms by (auto simp: linked_def)
qed

end
