(* ===== verification/Rlog.thy ===== *)
theory Rlog
  imports DList
begin

text \<open>
  The logging registry of the speech library, \<open>rlog.c\<close>: endpoints (named writers), per-tag
  associations and the default endpoint, as pointer lists on three heaps. \<open>rlog_ctl\<close> and
  \<open>rlog_print\<close> follow the code pointer by pointer; \<open>registry\<close> is the contract (what is
  registered, associated and default, by name) and the refinement relates the two.
\<close>

section \<open>Data\<close>

datatype writer = Std_log_writer | Android_log_writer | User_writer nat

datatype varg = Null | Log_buffer | Ptr int

record endpoint =
  ep_name :: string
  writer :: writer
  ep_arg :: varg

record eptr =
  target :: "nat option"
  ptr_arg :: varg

record assoc =
  tag :: string
  eps :: "nat option"

text \<open>\<open>RokidLogInstance\<close> with the heaps its lists live in.\<close>

record rlog =
  ep_heap :: "endpoint heap"
  ptr_heap :: "eptr heap"
  as_heap :: "assoc heap"
  endpoints :: "nat option"
  associations :: "nat option"
  def_ep :: "nat option"
  def_arg :: varg

definition log_instance :: rlog where
  "log_instance = \<lparr>ep_heap = (\<lambda>_. None), ptr_heap = (\<lambda>_. None), as_heap = (\<lambda>_. None), endpoints = None,
     associations = None, def_ep = None, def_arg = Null\<rparr>"

datatype ctl_op =
    Add_endpoint string writer varg
  | Remove_endpoint string
  | Associate string string varg
  | Disassociate string "string option"
  | Default_endpoint string varg

text \<open>A call of a log writer: the writer, the argument of the endpoint and of the association.\<close>

type_synonym log_call = "writer \<times> varg \<times> varg"

section \<open>Lists of the registry\<close>

definition add_endpoint :: "allocator \<Rightarrow> rlog \<Rightarrow> string \<Rightarrow> writer \<Rightarrow> varg \<Rightarrow> rlog c" where
  "add_endpoint m s nm w arg = do {
     (a, h) \<leftarrow> new_node m (ep_heap s) \<lparr>ep_name = nm, writer = w, ep_arg = arg\<rparr>;
     (h1, l) \<leftarrow> list_add h (endpoints s) a;
     Some (s\<lparr>ep_heap := h1, endpoints := l\<rparr>)
   }"

definition find_endpoint_by_name :: "rlog \<Rightarrow> string \<Rightarrow> nat option c" where
  "find_endpoint_by_name s nm = list_find (ep_heap s) (\<lambda>e. Some (ep_name e = nm)) (endpoints s)"

definition erase_endpoint_by_name :: "rlog \<Rightarrow> string \<Rightarrow> rlog c" where
  "erase_endpoint_by_name s nm = do {
     f \<leftarrow> find_endpoint_by_name s nm;
     (case f of
        None \<Rightarrow> Some s
      | Some a \<Rightarrow> do {
          (h, l) \<leftarrow> list_erase (ep_heap s) (endpoints s) a;
          Some (s\<lparr>ep_heap := h, endpoints := l\<rparr>) })
   }"

definition ptr_has_name :: "rlog \<Rightarrow> string \<Rightarrow> eptr \<Rightarrow> bool c" where
  "ptr_has_name s nm p = do { a \<leftarrow> target p; n \<leftarrow> ep_heap s a; Some (ep_name (item n) = nm) }"

definition find_endpointptr_by_name :: "rlog \<Rightarrow> nat option \<Rightarrow> string \<Rightarrow> nat option c" where
  "find_endpointptr_by_name s ptrs nm = list_find (ptr_heap s) (ptr_has_name s nm) ptrs"

text \<open>\<open>set_eps s a l\<close> is the assignment \<open>a->endpoints = l\<close> through \<open>&ass->endpoints\<close>.\<close>

definition set_eps :: "rlog \<Rightarrow> nat \<Rightarrow> nat option \<Rightarrow> rlog c" where
  "set_eps s a l = do {
     n \<leftarrow> as_heap s a;
     Some (s\<lparr>as_heap := (as_heap s)(a \<mapsto> n\<lparr>item := (item n)\<lparr>eps := l\<rparr>\<rparr>)\<rparr>)
   }"

definition add_endpointptr :: "allocator \<Rightarrow> rlog \<Rightarrow> nat \<Rightarrow> nat \<Rightarrow> varg \<Rightarrow> rlog c" where
  "add_endpointptr m s a e arg = do {
     (p, h) \<leftarrow> new_node m (ptr_heap s) \<lparr>target = Some e, ptr_arg = arg\<rparr>;
     n \<leftarrow> as_heap s a;
     (h1, l) \<leftarrow> list_add h (eps (item n)) p;
     set_eps (s\<lparr>ptr_heap := h1\<rparr>) a l
   }"

definition erase_endpointptr_by_name :: "rlog \<Rightarrow> nat \<Rightarrow> string \<Rightarrow> rlog c" where
  "erase_endpointptr_by_name s a nm = do {
     n \<leftarrow> as_heap s a;
     f \<leftarrow> find_endpointptr_by_name s (eps (item n)) nm;
     (case f of
        None \<Rightarrow> Some s
      | Some p \<Rightarrow> do {
          (h, l) \<leftarrow> list_erase (ptr_heap s) (eps (item n)) p;
          set_eps (s\<lparr>ptr_heap := h\<rparr>) a l })
   }"

definition add_association :: "allocator \<Rightarrow> rlog \<Rightarrow> string \<Rightarrow> (rlog \<times> nat) c" where
  "add_association m s t = do {
     (a, h) \<leftarrow> new_node m (as_heap s) \<lparr>tag = t, eps = None\<rparr>;
     (h1, l) \<leftarrow> list_add h (associations s) a;
     Some (s\<lparr>as_heap := h1, associations := l\<rparr>, a)
   }"

definition find_association_by_tag :: "rlog \<Rightarrow> string \<Rightarrow> nat option c" where
  "find_association_by_tag s t = list_find (as_heap s) (\<lambda>a. Some (tag a = t)) (associations s)"

definition erase_association :: "rlog \<Rightarrow> nat \<Rightarrow> rlog c" where
  "erase_association s a = do {
     (h, l) \<leftarrow> list_erase (as_heap s) (associations s) a;
     Some (s\<lparr>as_heap := h, associations := l\<rparr>)
   }"

section \<open>The operations\<close>

text \<open>
  \<open>initialize\<close>, run by every entry point: an empty endpoint list is filled with the builtin
  endpoints; \<open>android\<close> is the compile-time choice \<open>__ANDROID__\<close>.
\<close>

definition log_initialize :: "allocator \<Rightarrow> bool \<Rightarrow> rlog \<Rightarrow> rlog c" where
  "log_initialize m android s =
     (if endpoints s \<noteq> None then Some s
      else do {
        s1 \<leftarrow> add_endpoint m s ''stdout'' Std_log_writer Log_buffer;
        s2 \<leftarrow> add_endpoint m s1 ''file'' Std_log_writer Log_buffer;
        s3 \<leftarrow> (if android then add_endpoint m s2 ''logcat'' Android_log_writer Null else Some s2);
        Some (s3\<lparr>def_ep := if android then endpoints s3 else endpoints s1, def_arg := Ptr 1\<rparr>)
      })"

definition ctl_add_endpoint :: "allocator \<Rightarrow> rlog \<Rightarrow> string \<Rightarrow> writer \<Rightarrow> varg \<Rightarrow> (int \<times> rlog) c" where
  "ctl_add_endpoint m s nm w arg = do {
     f \<leftarrow> find_endpoint_by_name s nm;
     (case f of
        Some _ \<Rightarrow> Some (-1, s)
      | None \<Rightarrow> do { s1 \<leftarrow> add_endpoint m s nm w arg; Some (0, s1) })
   }"

definition ctl_remove_endpoint :: "rlog \<Rightarrow> string \<Rightarrow> (int \<times> rlog) c" where
  "ctl_remove_endpoint s nm = do {
     e \<leftarrow> def_ep s;
     n \<leftarrow> ep_heap s e;
     let s1 = (if ep_name (item n) = nm then s\<lparr>def_ep := None, def_arg := Null\<rparr> else s);
     s2 \<leftarrow> erase_endpoint_by_name s1 nm;
     Some (0, s2)
   }"

definition ctl_associate :: "allocator \<Rightarrow> rlog \<Rightarrow> string \<Rightarrow> string \<Rightarrow> varg \<Rightarrow> (int \<times> rlog) c" where
  "ctl_associate m s t epn arg = do {
     ep \<leftarrow> find_endpoint_by_name s epn;
     (case ep of
        None \<Rightarrow> Some (-1, s)
      | Some e \<Rightarrow> do {
          ass \<leftarrow> find_association_by_tag s t;
          (s1, a) \<leftarrow> (case ass of None \<Rightarrow> add_association m s t | Some a \<Rightarrow> Some (s, a));
          n \<leftarrow> as_heap s1 a;
          f \<leftarrow> find_endpointptr_by_name s1 (eps (item n)) epn;
          s2 \<leftarrow> (case f of None \<Rightarrow> add_endpointptr m s1 a e arg | Some _ \<Rightarrow> Some s1);
          Some (0, s2) })
   }"

text \<open>The loop that frees every pointer of an association.\<close>

partial_function (option) free_ptrs :: "eptr heap \<Rightarrow> nat option \<Rightarrow> eptr heap c" where
  "free_ptrs h epp =
     (case epp of
        None \<Rightarrow> Some h
      | Some a \<Rightarrow> do { n \<leftarrow> h a; free_ptrs (h(a := None)) (nxt n) })"

definition ctl_disassociate :: "rlog \<Rightarrow> string \<Rightarrow> string option \<Rightarrow> (int \<times> rlog) c" where
  "ctl_disassociate s t epn = do {
     ass \<leftarrow> find_association_by_tag s t;
     (case ass of
        None \<Rightarrow> Some (0, s)
      | Some a \<Rightarrow>
          (case epn of
             Some nm \<Rightarrow> do {
               s1 \<leftarrow> erase_endpointptr_by_name s a nm;
               n \<leftarrow> as_heap s1 a;
               s2 \<leftarrow> (if eps (item n) = None then erase_association s1 a else Some s1);
               Some (0, s2) }
           | None \<Rightarrow> do {
               n \<leftarrow> as_heap s a;
               h \<leftarrow> free_ptrs (ptr_heap s) (eps (item n));
               s1 \<leftarrow> erase_association (s\<lparr>ptr_heap := h\<rparr>) a;
               Some (0, s1) }))
   }"

definition ctl_default_endpoint :: "rlog \<Rightarrow> string \<Rightarrow> varg \<Rightarrow> (int \<times> rlog) c" where
  "ctl_default_endpoint s epn arg = do {
     f \<leftarrow> find_endpoint_by_name s epn;
     (case f of
        None \<Rightarrow> Some (-1, s)
      | Some e \<Rightarrow> Some (0, s\<lparr>def_ep := Some e, def_arg := if epn = ''stdout'' then Ptr 1 else arg\<rparr>))
   }"

fun ctl_dispatch :: "allocator \<Rightarrow> rlog \<Rightarrow> ctl_op \<Rightarrow> (int \<times> rlog) c" where
  "ctl_dispatch m s (Add_endpoint nm w arg) = ctl_add_endpoint m s nm w arg"
| "ctl_dispatch m s (Remove_endpoint nm) = ctl_remove_endpoint s nm"
| "ctl_dispatch m s (Associate t epn arg) = ctl_associate m s t epn arg"
| "ctl_dispatch m s (Disassociate t epn) = ctl_disassociate s t epn"
| "ctl_dispatch m s (Default_endpoint epn arg) = ctl_default_endpoint s epn arg"

definition rlog_ctl :: "allocator \<Rightarrow> bool \<Rightarrow> rlog \<Rightarrow> ctl_op \<Rightarrow> (int \<times> rlog) c" where
  "rlog_ctl m android s opn = do { s1 \<leftarrow> log_initialize m android s; ctl_dispatch m s1 opn }"

text \<open>The dispatch loop of \<open>rokid_log_print\<close> over the pointers of an association.\<close>

partial_function (option) run_writers :: "rlog \<Rightarrow> nat option \<Rightarrow> log_call list c" where
  "run_writers s ptr =
     (case ptr of
        None \<Rightarrow> Some []
      | Some p \<Rightarrow> do {
          n \<leftarrow> ptr_heap s p;
          (case target (item n) of
             None \<Rightarrow> Some []
           | Some e \<Rightarrow> do {
               x \<leftarrow> ep_heap s e;
               r \<leftarrow> run_writers s (nxt n);
               Some ((writer (item x), ep_arg (item x), ptr_arg (item n)) # r) }) })"

definition rlog_print :: "allocator \<Rightarrow> bool \<Rightarrow> rlog \<Rightarrow> string option \<Rightarrow> string option \<Rightarrow> (log_call list \<times> rlog) c" where
  "rlog_print m android s0 tg fmt = do {
     s \<leftarrow> log_initialize m android s0;
     (case (tg, fmt) of
        (Some t, Some _) \<Rightarrow> do {
          ass \<leftarrow> find_association_by_tag s t;
          (case ass of
             None \<Rightarrow>
               (case def_ep s of
                  None \<Rightarrow> Some ([], s)
                | Some e \<Rightarrow> do {
                    x \<leftarrow> ep_heap s e;
                    Some ([(writer (item x), ep_arg (item x), def_arg s)], s) })
           | Some a \<Rightarrow> do {
               n \<leftarrow> as_heap s a;
               r \<leftarrow> run_writers s (eps (item n));
               Some (r, s) }) }
      | _ \<Rightarrow> Some ([], s))
   }"

section \<open>The contract\<close>

text \<open>
  What the registry promises, by name: the endpoints newest first, for every tag its endpoints
  newest first, and the default endpoint with its argument.
\<close>

record registry =
  sp_eps :: "(string \<times> writer \<times> varg) list"
  sp_as :: "(string \<times> (string \<times> varg) list) list"
  sp_def :: "(string \<times> varg) option"

definition builtin_eps :: "bool \<Rightarrow> (string \<times> writer \<times> varg) list" where
  "builtin_eps android =
     (if android then [(''logcat'', Android_log_writer, Null)] else [])
     @ [(''file'', Std_log_writer, Log_buffer), (''stdout'', Std_log_writer, Log_buffer)]"

definition spec_initialize :: "bool \<Rightarrow> registry \<Rightarrow> registry" where
  "spec_initialize android r =
     (if sp_eps r \<noteq> [] then r
      else r\<lparr>sp_eps := builtin_eps android,
             sp_def := Some (if android then ''logcat'' else ''stdout'', Ptr 1)\<rparr>)"

fun spec_step :: "registry \<Rightarrow> ctl_op \<Rightarrow> int \<times> registry" where
  "spec_step r (Add_endpoint nm w arg) =
     (if nm \<in> fst ` set (sp_eps r) then (-1, r) else (0, r\<lparr>sp_eps := (nm, w, arg) # sp_eps r\<rparr>))"
| "spec_step r (Remove_endpoint nm) =
     (0, r\<lparr>sp_eps := filter (\<lambda>e. fst e \<noteq> nm) (sp_eps r),
           sp_def := (if map_option fst (sp_def r) = Some nm then None else sp_def r)\<rparr>)"
| "spec_step r (Associate t epn arg) =
     (if epn \<notin> fst ` set (sp_eps r) then (-1, r)
      else if t \<notin> fst ` set (sp_as r) then (0, r\<lparr>sp_as := (t, [(epn, arg)]) # sp_as r\<rparr>)
      else (0, r\<lparr>sp_as := map (\<lambda>(t', ps). (t', if t' = t \<and> epn \<notin> fst ` set ps then (epn, arg) # ps else ps)) (sp_as r)\<rparr>))"
| "spec_step r (Disassociate t (Some epn)) =
     (0, r\<lparr>sp_as := filter (\<lambda>x. snd x \<noteq> [])
             (map (\<lambda>(t', ps). (t', if t' = t then filter (\<lambda>p. fst p \<noteq> epn) ps else ps)) (sp_as r))\<rparr>)"
| "spec_step r (Disassociate t None) = (0, r\<lparr>sp_as := filter (\<lambda>x. fst x \<noteq> t) (sp_as r)\<rparr>)"
| "spec_step r (Default_endpoint epn arg) =
     (if epn \<notin> fst ` set (sp_eps r) then (-1, r)
      else (0, r\<lparr>sp_def := Some (epn, if epn = ''stdout'' then Ptr 1 else arg)\<rparr>))"

definition spec_ctl :: "bool \<Rightarrow> registry \<Rightarrow> ctl_op \<Rightarrow> int \<times> registry" where
  "spec_ctl android r opn = spec_step (spec_initialize android r) opn"

text \<open>
  What the code needs of its caller: an endpoint is removed only while a default endpoint is
  set and no tag uses the endpoint.
\<close>

fun step_allowed :: "registry \<Rightarrow> ctl_op \<Rightarrow> bool" where
  "step_allowed r (Remove_endpoint nm) \<longleftrightarrow>
     sp_def r \<noteq> None \<and> (\<forall>x \<in> set (sp_as r). nm \<notin> fst ` set (snd x))"
| "step_allowed r opn = True"

definition spec_print :: "registry \<Rightarrow> string \<Rightarrow> log_call list" where
  "spec_print r t =
     (let call = (\<lambda>(nm, arg). case the (map_of (sp_eps r) nm) of (w, a) \<Rightarrow> (w, a, arg)) in
      case map_of (sp_as r) t of
        Some ps \<Rightarrow> map call ps
      | None \<Rightarrow> (case sp_def r of None \<Rightarrow> [] | Some d \<Rightarrow> [call d]))"

section \<open>The relation between the heaps and the contract\<close>

type_synonym ep_list = "(nat \<times> endpoint) list"
type_synonym ptr_list = "(nat \<times> eptr) list"
type_synonym as_list = "((nat \<times> assoc) \<times> ptr_list) list"

definition name_at :: "ep_list \<Rightarrow> nat option \<Rightarrow> string" where
  "name_at E a = ep_name (the (map_of E (the a)))"

definition ptr_view :: "ep_list \<Rightarrow> ptr_list \<Rightarrow> (string \<times> varg) list" where
  "ptr_view E P = map (\<lambda>(_, p). (name_at E (target p), ptr_arg p)) P"

definition ep_view :: "ep_list \<Rightarrow> (string \<times> writer \<times> varg) list" where
  "ep_view E = map (\<lambda>(_, e). (ep_name e, writer e, ep_arg e)) E"

definition as_view :: "ep_list \<Rightarrow> as_list \<Rightarrow> (string \<times> (string \<times> varg) list) list" where
  "as_view E AP = map (\<lambda>y. (tag (snd (fst y)), ptr_view E (snd y))) AP"

definition eps_ok :: "rlog \<Rightarrow> ep_list \<Rightarrow> bool" where
  "eps_ok s E \<longleftrightarrow> linked (ep_heap s) (endpoints s) E \<and> finite {a. used (ep_heap s) a}
     \<and> distinct (map (\<lambda>(_, e). ep_name e) E)"

definition live :: "ep_list \<Rightarrow> nat option \<Rightarrow> bool" where
  "live E t \<longleftrightarrow> (\<exists>e. t = Some e \<and> e \<in> fst ` set E)"

definition ptrs_ok :: "rlog \<Rightarrow> ep_list \<Rightarrow> nat option \<Rightarrow> ptr_list \<Rightarrow> bool" where
  "ptrs_ok s E head P \<longleftrightarrow> linked (ptr_heap s) head P \<and> (\<forall>(_, p) \<in> set P. live E (target p))
     \<and> distinct (map fst (ptr_view E P))"

definition as_ok :: "rlog \<Rightarrow> ep_list \<Rightarrow> as_list \<Rightarrow> bool" where
  "as_ok s E AP \<longleftrightarrow> linked (as_heap s) (associations s) (map fst AP)
     \<and> finite {a. used (as_heap s) a} \<and> finite {a. used (ptr_heap s) a}
     \<and> (\<forall>y \<in> set AP. ptrs_ok s E (eps (snd (fst y))) (snd y))
     \<and> distinct (concat (map (\<lambda>y. map fst (snd y)) AP))
     \<and> distinct (map (\<lambda>y. tag (snd (fst y))) AP)"

definition registry_of :: "rlog \<Rightarrow> ep_list \<Rightarrow> as_list \<Rightarrow> registry" where
  "registry_of s E AP = \<lparr>sp_eps = ep_view E, sp_as = as_view E AP,
     sp_def = map_option (\<lambda>e. (name_at E (Some e), def_arg s)) (def_ep s)\<rparr>"

definition holds :: "rlog \<Rightarrow> ep_list \<Rightarrow> as_list \<Rightarrow> bool" where
  "holds s E AP \<longleftrightarrow> eps_ok s E \<and> as_ok s E AP \<and> (\<forall>x \<in> set AP. snd x \<noteq> [])
     \<and> (def_ep s \<noteq> None \<longrightarrow> live E (def_ep s))"

definition rel :: "rlog \<Rightarrow> registry \<Rightarrow> bool" where
  "rel s r \<longleftrightarrow> (\<exists>E AP. holds s E AP \<and> r = registry_of s E AP)"

text \<open>What the code relies on of malloc: with finitely many objects it returns an unused address.\<close>

definition malloc_ok :: "allocator \<Rightarrow> bool" where
  "malloc_ok m \<longleftrightarrow> (\<forall>P. finite {a. P a} \<longrightarrow> (\<exists>a. m P = Some a \<and> \<not> P a))"

lemma new_node_ok:
  assumes "malloc_ok m" "finite {a. used h a}"
  obtains a where "new_node m h x = Some (a, h(a \<mapsto> \<lparr>nxt = None, prv = None, item = x\<rparr>))" "h a = None"
  using assms unfolding malloc_ok_def new_node_def used_def by fastforce

lemma linked_fresh: "linked h q xs \<Longrightarrow> h a = None \<Longrightarrow> a \<notin> fst ` set xs"
  using linked_node by fastforce

lemma alloc_add_ok:
  assumes "malloc_ok m" "finite {a. used h a}" "linked h q xs"
  obtains a h1 h2 where "new_node m h x = Some (a, h1)" "list_add h1 q a = Some (h2, Some a)" "h a = None"
    "linked h2 (Some a) ((a, x) # xs)" "finite {a. used h2 a}"
    "\<And>b. b \<noteq> a \<Longrightarrow> b \<notin> fst ` set xs \<Longrightarrow> h2 b = h b"
proof -
  obtain a where a: "new_node m h x = Some (a, h(a \<mapsto> \<lparr>nxt = None, prv = None, item = x\<rparr>))" "h a = None"
    by (rule new_node_ok [OF assms(1,2)])
  let ?h = "h(a \<mapsto> \<lparr>nxt = None, prv = None, item = x\<rparr>)"
  have fr: "a \<notin> fst ` set xs" by (rule linked_fresh [OF assms(3) a(2)])
  have "linked ?h q xs" by (rule linked_frame [OF assms(3)]) (use fr in auto)
  then obtain h2 where h2: "list_add ?h q a = Some (h2, Some a)" "linked h2 (Some a) ((a, x) # xs)"
    "\<forall>b. b \<notin> insert a (fst ` set xs) \<longrightarrow> h2 b = ?h b" "\<forall>b. h2 b = None \<longleftrightarrow> ?h b = None"
    using list_add_linked [of ?h q xs a _ x] fr by fastforce
  have "{b. used h2 b} \<subseteq> insert a {b. used h b}" using h2(4) by (auto simp: used_def split: if_splits)
  then have "finite {b. used h2 b}" using assms(2) by (meson finite_insert finite_subset)
  then show thesis using that a h2 by auto
qed

section \<open>Endpoints\<close>

lemma eps_deref:
  assumes "eps_ok s E" "live E t"
  obtains e n where "t = Some e" "ep_heap s e = Some n" "(e, item n) \<in> set E" "map_of E e = Some (item n)"
    "name_at E t = ep_name (item n)"
proof -
  obtain e x where e: "t = Some e" "(e, x) \<in> set E" using assms(2) by (auto simp: live_def)
  have l: "linked (ep_heap s) (endpoints s) E" using assms(1) by (simp add: eps_ok_def)
  obtain n where n: "ep_heap s e = Some n" "item n = x" using linked_node [OF l e(2)] by blast
  have "map_of E e = Some x" using l e(2) by (simp add: linked_def)
  then show thesis using that e n by (simp add: name_at_def)
qed

lemma find_endpoint_ok:
  assumes "eps_ok s E"
  shows "find_endpoint_by_name s nm = Some (map_option fst (find (\<lambda>(_, e). ep_name e = nm) E))"
  unfolding find_endpoint_by_name_def
  by (rule list_find_linked) (use assms in \<open>auto simp: eps_ok_def\<close>)

lemma ep_view_names: "fst ` set (ep_view E) = (\<lambda>(_, e). ep_name e) ` set E"
  by (force simp: ep_view_def)

lemma find_name_None: "find (\<lambda>(_, e). ep_name e = nm) E = None \<longleftrightarrow> nm \<notin> fst ` set (ep_view E)"
  by (auto simp: ep_view_names find_None_iff)

lemma add_endpoint_ok:
  assumes "malloc_ok m" "eps_ok s E" "nm \<notin> fst ` set (ep_view E)"
  obtains a h where
    "add_endpoint m s nm w arg = Some (s\<lparr>ep_heap := h, endpoints := Some a\<rparr>)"
    "eps_ok (s\<lparr>ep_heap := h, endpoints := Some a\<rparr>) ((a, \<lparr>ep_name = nm, writer = w, ep_arg = arg\<rparr>) # E)"
    "a \<notin> fst ` set E"
proof -
  have ok: "linked (ep_heap s) (endpoints s) E" "finite {a. used (ep_heap s) a}" "distinct (map (\<lambda>(_, e). ep_name e) E)"
    using assms(2) by (auto simp: eps_ok_def)
  obtain a h1 h2 where a: "new_node m (ep_heap s) \<lparr>ep_name = nm, writer = w, ep_arg = arg\<rparr> = Some (a, h1)"
    "list_add h1 (endpoints s) a = Some (h2, Some a)" "ep_heap s a = None"
    "linked h2 (Some a) ((a, \<lparr>ep_name = nm, writer = w, ep_arg = arg\<rparr>) # E)" "finite {a. used h2 a}"
    by (rule alloc_add_ok [OF assms(1) ok(2,1)])
  have "a \<notin> fst ` set E" by (rule linked_fresh [OF ok(1) a(3)])
  then show thesis using a ok(3) assms(3)
    by (intro that [of a h2]) (auto simp: add_endpoint_def eps_ok_def ep_view_names)
qed

lemma name_at_Cons: "fst x \<notin> fst ` set E \<Longrightarrow> live E t \<Longrightarrow> name_at (x # E) t = name_at E t"
  by (cases x) (force simp: name_at_def live_def)

lemma live_Cons: "live E t \<Longrightarrow> live (x # E) t"
  by (auto simp: live_def)

lemma live_name: "live E t \<Longrightarrow> name_at E t \<in> fst ` set (ep_view E)"
proof -
  assume "live E t"
  then obtain e x where "t = Some e" "(e, x) \<in> set E" by (auto simp: live_def)
  then obtain y where "map_of E e = Some y" "(e, y) \<in> set E"
    by (metis map_of_SomeD weak_map_of_SomeI)
  then show ?thesis using \<open>t = Some e\<close> by (force simp: name_at_def ep_view_def)
qed

lemma ptr_view_Cons:
  "fst x \<notin> fst ` set E \<Longrightarrow> \<forall>(_, p) \<in> set P. live E (target p) \<Longrightarrow> ptr_view (x # E) P = ptr_view E P"
  by (auto simp: ptr_view_def name_at_Cons)

lemma find_split:
  assumes "find Q xs = Some x"
  obtains ys zs where "xs = ys @ x # zs" "\<forall>y \<in> set ys. \<not> Q y" "Q x"
proof -
  obtain i where i: "i < length xs" "Q (xs ! i)" "x = xs ! i" "\<forall>j < i. \<not> Q (xs ! j)"
    using assms by (auto simp: find_Some_iff)
  have "xs = take i xs @ x # drop (Suc i) xs" using i id_take_nth_drop by blast
  moreover have "\<forall>y \<in> set (take i xs). \<not> Q y" using i by (auto simp: in_set_conv_nth)
  ultimately show thesis using that i by blast
qed

lemma find_None: "find Q xs = None \<Longrightarrow> \<forall>x \<in> set xs. \<not> Q x"
  by (simp add: find_None_iff)

text \<open>A name found in the endpoint list splits it; no other endpoint has the name.\<close>

lemma find_endpoint_split:
  assumes "eps_ok s E" "find (\<lambda>(_, e). ep_name e = nm) E = Some (a, e)"
  obtains xs ys where "E = xs @ (a, e) # ys" "ep_name e = nm" "\<forall>(_, x) \<in> set (xs @ ys). ep_name x \<noteq> nm"
    "name_at E (Some a) = nm"
proof -
  obtain xs ys where xy: "E = xs @ (a, e) # ys" "(\<lambda>(_, e). ep_name e = nm) (a, e)"
    by (rule find_split [OF assms(2)])
  have "distinct (map (\<lambda>(_, e). ep_name e) (xs @ (a, e) # ys))" using assms(1) xy(1) by (simp add: eps_ok_def)
  then have "nm \<notin> (\<lambda>(_, e). ep_name e) ` set (xs @ ys)" using xy(2) by auto
  then have "\<forall>(_, x) \<in> set (xs @ ys). ep_name x \<noteq> nm" by force
  moreover have "map_of E a = Some e" using assms(1) xy(1) map_of_eq_Some_iff [of E a e]
    by (auto simp: eps_ok_def linked_def)
  ultimately show thesis using that [of xs ys] xy by (simp add: name_at_def)
qed

lemma as_ok_eps_cong:
  "as_ok (s\<lparr>ep_heap := h, endpoints := l\<rparr>) E AP = as_ok s E AP"
  by (simp add: as_ok_def ptrs_ok_def)

lemma as_ok_mono:
  assumes "as_ok s E AP"
    and "\<And>x P. (x, P) \<in> set AP \<Longrightarrow> \<forall>(_, p) \<in> set P. live E' (target p) \<and> name_at E' (target p) = name_at E (target p)"
  shows "as_ok s E' AP" "as_view E' AP = as_view E AP"
proof -
  have pv: "ptr_view E' P = ptr_view E P" if "(x, P) \<in> set AP" for x P
    using assms(2) [OF that] by (auto simp: ptr_view_def)
  have "ptrs_ok s E' (eps y) P" if "((a, y), P) \<in> set AP" for a y P
    using assms(1) assms(2) [OF that] pv [OF that] that by (fastforce simp: as_ok_def ptrs_ok_def)
  then show "as_ok s E' AP" using assms(1) by (fastforce simp: as_ok_def)
  show "as_view E' AP = as_view E AP" using pv by (auto simp: as_view_def)
qed

lemma as_ok_live:
  "as_ok s E AP \<Longrightarrow> (x, P) \<in> set AP \<Longrightarrow> (p, q) \<in> set P \<Longrightarrow> live E (target q)"
  by (cases x) (fastforce simp: as_ok_def ptrs_ok_def)

lemma as_ok_Cons:
  assumes "as_ok s E AP" "fst x \<notin> fst ` set E"
  shows "as_ok s (x # E) AP" "as_view (x # E) AP = as_view E AP"
proof -
  have *: "\<forall>(_, p) \<in> set P. live (x # E) (target p) \<and> name_at (x # E) (target p) = name_at E (target p)"
    if "(y, P) \<in> set AP" for y P
    using as_ok_live [OF assms(1) that] name_at_Cons [OF assms(2)] live_Cons by blast
  show "as_ok s (x # E) AP" by (rule as_ok_mono(1) [OF assms(1) *])
  show "as_view (x # E) AP = as_view E AP" by (rule as_ok_mono(2) [OF assms(1) *])
qed

lemma holds_add_endpoint:
  assumes "malloc_ok m" "holds s E AP" "nm \<notin> fst ` set (ep_view E)"
  obtains s' E' where "add_endpoint m s nm w arg = Some s'" "holds s' E' AP"
    "registry_of s' E' AP = (registry_of s E AP)\<lparr>sp_eps := (nm, w, arg) # ep_view E\<rparr>"
    "def_ep s' = def_ep s" "def_arg s' = def_arg s" "live E' (endpoints s')"
    "ep_view E' = (nm, w, arg) # ep_view E" "name_at E' (endpoints s') = nm"
    "\<And>t. live E t \<Longrightarrow> live E' t \<and> name_at E' t = name_at E t"
proof -
  let ?e = "\<lparr>ep_name = nm, writer = w, ep_arg = arg\<rparr>"
  have ok: "eps_ok s E" "as_ok s E AP" using assms(2) by (auto simp: holds_def)
  obtain a h where a: "add_endpoint m s nm w arg = Some (s\<lparr>ep_heap := h, endpoints := Some a\<rparr>)"
    "eps_ok (s\<lparr>ep_heap := h, endpoints := Some a\<rparr>) ((a, ?e) # E)" "a \<notin> fst ` set E"
    by (rule add_endpoint_ok [OF assms(1) ok(1) assms(3)])
  note c = as_ok_Cons [OF ok(2), of "(a, ?e)"] name_at_Cons [of "(a, ?e)" E] live_Cons [of E _ "(a, ?e)"]
  let ?s = "s\<lparr>ep_heap := h, endpoints := Some a\<rparr>"
  have "holds ?s ((a, ?e) # E) AP"
    using assms(2) a c by (auto simp: holds_def as_ok_eps_cong)
  moreover have "registry_of ?s ((a, ?e) # E) AP = (registry_of s E AP)\<lparr>sp_eps := (nm, w, arg) # ep_view E\<rparr>"
    using assms(2) a c by (cases "def_ep s") (simp_all add: holds_def registry_of_def ep_view_def)
  moreover have "live ((a, ?e) # E) t \<and> name_at ((a, ?e) # E) t = name_at E t" if "live E t" for t
    using c(3,4) a(3) that by simp
  moreover have "live ((a, ?e) # E) (endpoints ?s)" "name_at ((a, ?e) # E) (endpoints ?s) = nm"
    "ep_view ((a, ?e) # E) = (nm, w, arg) # ep_view E"
    by (simp_all add: live_def name_at_def ep_view_def)
  ultimately show thesis using a(1) by (intro that [of ?s "(a, ?e) # E"]) simp_all
qed

lemma refine_add:
  assumes "malloc_ok m" "rel s r"
  shows "\<exists>s'. ctl_add_endpoint m s nm w arg = Some (fst (spec_step r (Add_endpoint nm w arg)), s')
           \<and> rel s' (snd (spec_step r (Add_endpoint nm w arg)))"
proof -
  obtain E AP where h: "holds s E AP" "r = registry_of s E AP" using assms(2) by (auto simp: rel_def)
  then have f: "find_endpoint_by_name s nm = Some (map_option fst (find (\<lambda>(_, e). ep_name e = nm) E))"
    by (simp add: find_endpoint_ok holds_def)
  have sp: "sp_eps r = ep_view E" using h by (simp add: registry_of_def)
  show ?thesis
  proof (cases "find (\<lambda>(_, e). ep_name e = nm) E")
    case None
    then have n: "nm \<notin> fst ` set (ep_view E)" by (simp add: find_name_None)
    obtain s' E' where "add_endpoint m s nm w arg = Some s'" "holds s' E' AP"
      "registry_of s' E' AP = r\<lparr>sp_eps := (nm, w, arg) # ep_view E\<rparr>"
      by (rule holds_add_endpoint [OF assms(1) h(1) n, of w arg]) (simp add: h)
    then have "rel s' (r\<lparr>sp_eps := (nm, w, arg) # ep_view E\<rparr>)" by (metis rel_def)
    then show ?thesis using None f n sp \<open>add_endpoint m s nm w arg = Some s'\<close>
      by (simp add: ctl_add_endpoint_def)
  next
    case (Some x)
    then have "nm \<in> fst ` set (ep_view E)" using find_name_None [of nm E] by simp
    then show ?thesis using Some f sp assms(2) by (simp add: ctl_add_endpoint_def)
  qed
qed

lemma refine_default:
  assumes "rel s r"
  shows "\<exists>s'. ctl_default_endpoint s nm arg = Some (fst (spec_step r (Default_endpoint nm arg)), s')
           \<and> rel s' (snd (spec_step r (Default_endpoint nm arg)))"
proof -
  obtain E AP where h: "holds s E AP" "r = registry_of s E AP" using assms by (auto simp: rel_def)
  then have ok: "eps_ok s E" by (simp add: holds_def)
  have sp: "sp_eps r = ep_view E" using h by (simp add: registry_of_def)
  show ?thesis
  proof (cases "find (\<lambda>(_, e). ep_name e = nm) E")
    case None
    then have n: "nm \<notin> fst ` set (ep_view E)" by (simp add: find_name_None)
    then show ?thesis using None sp assms by (simp add: ctl_default_endpoint_def find_endpoint_ok [OF ok])
  next
    case (Some x)
    obtain a e where x: "x = (a, e)" by (cases x)
    obtain xs ys where E: "E = xs @ (a, e) # ys" "ep_name e = nm" "name_at E (Some a) = nm"
      by (rule find_endpoint_split [OF ok Some [unfolded x]])
    have n: "nm \<in> fst ` set (ep_view E)" using E by (force simp: ep_view_names)
    let ?s = "s\<lparr>def_ep := Some a, def_arg := if nm = ''stdout'' then Ptr 1 else arg\<rparr>"
    have "holds ?s E AP" using h E by (auto simp: holds_def live_def eps_ok_def as_ok_def ptrs_ok_def)
    moreover have "snd (spec_step r (Default_endpoint nm arg)) = registry_of ?s E AP"
      using h E n by (simp add: registry_of_def)
    ultimately have "rel ?s (snd (spec_step r (Default_endpoint nm arg)))" unfolding rel_def by blast
    then show ?thesis using Some x n sp by (simp add: ctl_default_endpoint_def find_endpoint_ok [OF ok])
  qed
qed

lemma holds_no_endpoints:
  assumes "holds s [] AP"
  shows "AP = []" "def_ep s = None" "endpoints s = None"
proof -
  have lv: "\<not> live [] t" for t by (simp add: live_def)
  show "AP = []"
  proof (rule ccontr)
    assume "AP \<noteq> []"
    then obtain x P where x: "(x, P) \<in> set AP" by (metis list.set_intros(1) neq_Nil_conv prod.exhaust)
    then have "P \<noteq> []" using assms by (auto simp: holds_def)
    then obtain q where "q \<in> set P" by (cases P) auto
    then show False using as_ok_live [of s "[]" AP x P "fst q" "snd q"] x assms lv by (simp add: holds_def)
  qed
  show "def_ep s = None" using assms lv by (auto simp: holds_def)
  show "endpoints s = None" using assms by (simp add: holds_def eps_ok_def)
qed

lemma refine_initialize:
  assumes "malloc_ok m" "rel s r"
  shows "\<exists>s'. log_initialize m android s = Some s' \<and> rel s' (spec_initialize android r)"
proof -
  obtain E AP where h: "holds s E AP" "r = registry_of s E AP" using assms(2) by (auto simp: rel_def)
  show ?thesis
  proof (cases E)
    case (Cons x xs)
    then have "endpoints s \<noteq> None" "sp_eps r \<noteq> []"
      using h by (cases x, auto simp: holds_def eps_ok_def linked_def registry_of_def ep_view_def)+
    then show ?thesis using assms(2) by (simp add: log_initialize_def spec_initialize_def)
  next
    case Nil
    note e = holds_no_endpoints [OF h(1) [unfolded Nil]]
    have h0: "holds s [] []" using h(1) Nil e by simp
    have r: "r = \<lparr>sp_eps = [], sp_as = [], sp_def = None\<rparr>"
      using h(2) Nil e by (simp add: registry_of_def ep_view_def as_view_def)
    obtain s1 E1 where 1: "add_endpoint m s ''stdout'' Std_log_writer Log_buffer = Some s1" "holds s1 E1 []"
      "ep_view E1 = [(''stdout'', Std_log_writer, Log_buffer)]" "live E1 (endpoints s1)"
      "name_at E1 (endpoints s1) = ''stdout''"
      by (rule holds_add_endpoint [OF assms(1) h0, of "''stdout''" Std_log_writer Log_buffer])
        (auto simp: ep_view_def)
    obtain s2 E2 where 2: "add_endpoint m s1 ''file'' Std_log_writer Log_buffer = Some s2" "holds s2 E2 []"
      "ep_view E2 = (''file'', Std_log_writer, Log_buffer) # ep_view E1"
      "\<And>t. live E1 t \<Longrightarrow> live E2 t \<and> name_at E2 t = name_at E1 t"
      by (rule holds_add_endpoint [OF assms(1) 1(2), of "''file''" Std_log_writer Log_buffer])
        (auto simp: 1(3))
    obtain s3 E3 where 3: "add_endpoint m s2 ''logcat'' Android_log_writer Null = Some s3" "holds s3 E3 []"
      "ep_view E3 = (''logcat'', Android_log_writer, Null) # ep_view E2" "live E3 (endpoints s3)"
      "name_at E3 (endpoints s3) = ''logcat''"
      by (rule holds_add_endpoint [OF assms(1) 2(2), of "''logcat''" Android_log_writer Null])
        (auto simp: 1(3) 2(3))
    let ?s = "(if android then s3 else s2)\<lparr>def_ep := if android then endpoints s3 else endpoints s1, def_arg := Ptr 1\<rparr>"
    let ?E = "if android then E3 else E2"
    have "holds ?s ?E []" using 1 2 3 by (auto simp: holds_def eps_ok_def as_ok_def)
    moreover have "registry_of ?s ?E [] = spec_initialize android r"
    proof -
      obtain a1 a3 where a: "endpoints s1 = Some a1" "endpoints s3 = Some a3" using 1(4) 3(4) by (auto simp: live_def)
      have "name_at E2 (Some a1) = ''stdout''" using 2(4) [OF 1(4)] 1(5) a by simp
      then show ?thesis using 1(3) 2(3) 3(3,5) a
        by (auto simp: registry_of_def spec_initialize_def builtin_eps_def r as_view_def)
    qed
    ultimately have "rel ?s (spec_initialize android r)" unfolding rel_def by metis
    then show ?thesis using 1(1) 2(1) 3(1) e by (simp add: log_initialize_def split del: if_split) (cases android, auto)
  qed
qed

lemma ep_view_filter:
  "\<forall>(_, x) \<in> set zs. ep_name x \<noteq> nm \<Longrightarrow> filter (\<lambda>e. fst e \<noteq> nm) (ep_view zs) = ep_view zs"
  by (induction zs) (auto simp: ep_view_def)

lemma name_at_remove:
  assumes "distinct (map fst (xs @ (a, e) # ys))" "live (xs @ (a, e) # ys) t"
    "name_at (xs @ (a, e) # ys) t \<noteq> ep_name e"
  shows "live (xs @ ys) t" "name_at (xs @ ys) t = name_at (xs @ (a, e) # ys) t"
proof -
  obtain b where b: "t = Some b" using assms(2) by (auto simp: live_def)
  have "b \<noteq> a"
  proof
    assume "b = a"
    then have "map_of (xs @ (a, e) # ys) b = Some e"
      using assms(1) map_of_eq_Some_iff [of "xs @ (a, e) # ys" a e] by simp
    then show False using assms(3) b by (simp add: name_at_def)
  qed
  then show "live (xs @ ys) t" "name_at (xs @ ys) t = name_at (xs @ (a, e) # ys) t"
    using assms(2) b by (auto simp: live_def name_at_def map_add_def split: option.splits)
qed

lemma refine_remove:
  assumes "rel s r" "step_allowed r (Remove_endpoint nm)"
  shows "\<exists>s'. ctl_remove_endpoint s nm = Some (fst (spec_step r (Remove_endpoint nm)), s')
           \<and> rel s' (snd (spec_step r (Remove_endpoint nm)))"
proof -
  obtain E AP where h: "holds s E AP" "r = registry_of s E AP" using assms(1) by (auto simp: rel_def)
  then have ok: "eps_ok s E" "as_ok s E AP" by (auto simp: holds_def)
  have sp: "sp_eps r = ep_view E" "sp_as r = as_view E AP" using h by (simp_all add: registry_of_def)
  have "live E (def_ep s)" using assms(2) h by (auto simp: registry_of_def holds_def)
  then obtain d n where d: "def_ep s = Some d" "ep_heap s d = Some n" "name_at E (Some d) = ep_name (item n)"
    using eps_deref [OF ok(1), of "def_ep s"] by metis
  let ?s1 = "if ep_name (item n) = nm then s\<lparr>def_ep := None, def_arg := Null\<rparr> else s"
  have ok1: "eps_ok ?s1 E" using ok(1) by (simp add: eps_ok_def)
  have heaps: "ep_heap ?s1 = ep_heap s" "endpoints ?s1 = endpoints s" by simp_all
  show ?thesis
  proof (cases "find (\<lambda>(_, e). ep_name e = nm) E")
    case None
    then have n: "nm \<notin> fst ` set (ep_view E)" by (simp add: find_name_None)
    have "name_at E (Some d) \<in> fst ` set (ep_view E)" using \<open>live E (def_ep s)\<close> d live_name by metis
    then have ne: "ep_name (item n) \<noteq> nm" using n d by auto
    have "filter (\<lambda>e. fst e \<noteq> nm) (ep_view E) = ep_view E" using n by (force simp: filter_id_conv)
    then have "snd (spec_step r (Remove_endpoint nm)) = r" using h ne d by (simp add: registry_of_def)
    then show ?thesis using d ne None assms(1)
      by (simp add: ctl_remove_endpoint_def erase_endpoint_by_name_def find_endpoint_ok [OF ok(1)])
  next
    case (Some x)
    obtain a e where x: "x = (a, e)" by (cases x)
    obtain xs ys where E: "E = xs @ (a, e) # ys" "ep_name e = nm" "\<forall>(_, x) \<in> set (xs @ ys). ep_name x \<noteq> nm"
      "name_at E (Some a) = nm"
      by (rule find_endpoint_split [OF ok(1) Some [unfolded x]])
    have lk: "linked (ep_heap s) (endpoints s) (xs @ (a, e) # ys)" and ds: "distinct (map fst (xs @ (a, e) # ys))"
      using ok(1) E by (auto simp: eps_ok_def linked_def)
    obtain hp l where er: "list_erase (ep_heap s) (endpoints s) a = Some (hp, l)" "linked hp l (xs @ ys)"
      "\<forall>b. hp b = None \<longleftrightarrow> ep_heap s b = None \<or> b = a"
      using list_erase_linked [OF lk] by blast
    let ?s2 = "?s1\<lparr>ep_heap := hp, endpoints := l\<rparr>"
    have "{b. used hp b} \<subseteq> {b. used (ep_heap s) b}" using er(3) by (auto simp: used_def)
    then have "eps_ok ?s2 (xs @ ys)" using ok(1) er E finite_subset by (auto simp: eps_ok_def)
    moreover have nt: "\<forall>(_, q) \<in> set P. live (xs @ ys) (target q) \<and> name_at (xs @ ys) (target q) = name_at E (target q)"
      if "(y, P) \<in> set AP" for y P
    proof clarify
      fix p q assume q: "(p, q) \<in> set P"
      have "(tag (snd y), ptr_view E P) \<in> set (sp_as r)"
        using that unfolding sp as_view_def by (force simp: case_prod_beta)
      then have "nm \<notin> fst ` set (ptr_view E P)" using assms(2) by force
      then have "name_at E (target q) \<noteq> ep_name e" using q E by (force simp: ptr_view_def)
      then show "live (xs @ ys) (target q) \<and> name_at (xs @ ys) (target q) = name_at E (target q)"
        using name_at_remove [OF ds] as_ok_live [OF ok(2) that q] E by simp
    qed
    moreover have "as_ok ?s2 (xs @ ys) AP"
      using as_ok_mono(1) [OF ok(2) nt] by (simp add: as_ok_def ptrs_ok_def)
    moreover have dd: "ep_name (item n) \<noteq> nm \<Longrightarrow> live (xs @ ys) (Some d) \<and> name_at (xs @ ys) (Some d) = name_at E (Some d)"
      using name_at_remove [OF ds, of "Some d"] \<open>live E (def_ep s)\<close> d E by simp
    ultimately have hs: "holds ?s2 (xs @ ys) AP" using h(1) d by (auto simp: holds_def)
    have "filter (\<lambda>e. fst e \<noteq> nm) (ep_view E) = ep_view (xs @ ys)"
      using E ep_view_filter [of xs nm] ep_view_filter [of ys nm] by (auto simp: ep_view_def)
    then have "snd (spec_step r (Remove_endpoint nm)) = registry_of ?s2 (xs @ ys) AP"
      using h d dd as_ok_mono(2) [OF ok(2) nt] by (auto simp: registry_of_def)
    then have "rel ?s2 (snd (spec_step r (Remove_endpoint nm)))" using hs unfolding rel_def by metis
    then show ?thesis using Some x d er find_endpoint_ok [OF ok1]
      by (simp add: ctl_remove_endpoint_def erase_endpoint_by_name_def Let_def heaps split del: if_split)
  qed
qed

section \<open>Associations\<close>

lemma find_association_ok:
  assumes "as_ok s E AP"
  shows "find_association_by_tag s t = Some (map_option fst (find (\<lambda>y. tag (snd y) = t) (map fst AP)))"
  unfolding find_association_by_tag_def
  by (rule list_find_linked) (use assms in \<open>auto simp: as_ok_def\<close>)

lemma find_tag_None:
  "find (\<lambda>y. tag (snd y) = t) (map fst AP) = None \<longleftrightarrow> t \<notin> fst ` set (as_view E AP)"
proof -
  have "fst ` set (as_view E AP) = (\<lambda>y. tag (snd y)) ` set (map fst AP)" by (simp add: as_view_def image_image)
  then show ?thesis by (auto simp: find_None_iff)
qed

lemma find_association_split:
  assumes "as_ok s E AP" "find (\<lambda>y. tag (snd y) = t) (map fst AP) = Some (a, x)"
  obtains L P R where "AP = L @ ((a, x), P) # R" "tag x = t" "\<forall>y \<in> set (L @ R). tag (snd (fst y)) \<noteq> t"
proof -
  obtain us vs where uv: "map fst AP = us @ (a, x) # vs" "tag (snd (a, x)) = t"
    by (rule find_split [OF assms(2)])
  then obtain L P R where AP: "AP = L @ ((a, x), P) # R"
    by (auto simp: map_eq_append_conv map_eq_Cons_conv)
  have "distinct (map (\<lambda>y. tag (snd (fst y))) (L @ ((a, x), P) # R))" using assms(1) AP by (simp add: as_ok_def)
  then have "\<forall>y \<in> set (L @ R). tag (snd (fst y)) \<noteq> t" using uv(2) by (auto simp: image_iff)
  then show thesis using that AP uv(2) by simp
qed

lemma find_endpointptr_ok:
  assumes "eps_ok s E" "ptrs_ok s E head P"
  shows "find_endpointptr_by_name s head nm = Some (map_option fst (find (\<lambda>(_, p). name_at E (target p) = nm) P))"
  unfolding find_endpointptr_by_name_def
proof (rule list_find_linked)
  show "linked (ptr_heap s) head P" using assms(2) by (simp add: ptrs_ok_def)
  show "\<forall>(a, x) \<in> set P. ptr_has_name s nm x = Some ((\<lambda>(_, p). name_at E (target p) = nm) (a, x))"
  proof clarify
    fix a x assume "(a, x) \<in> set P"
    then have "live E (target x)" using assms(2) by (auto simp: ptrs_ok_def)
    then obtain e n where "target x = Some e" "ep_heap s e = Some n" "name_at E (target x) = ep_name (item n)"
      by (rule eps_deref [OF assms(1)])
    then show "ptr_has_name s nm x = Some (name_at E (target x) = nm)" by (simp add: ptr_has_name_def)
  qed
qed

lemma find_ptr_None:
  "find (\<lambda>(_, p). name_at E (target p) = nm) P = None \<longleftrightarrow> nm \<notin> fst ` set (ptr_view E P)"
proof -
  have "fst ` set (ptr_view E P) = (\<lambda>(_, p). name_at E (target p)) ` set P" by (force simp: ptr_view_def)
  then show ?thesis by (auto simp: find_None_iff)
qed

lemma as_ok_ptrs: "as_ok s E AP \<Longrightarrow> ((a, x), P) \<in> set AP \<Longrightarrow> ptrs_ok s E (eps x) P"
  by (fastforce simp: as_ok_def)

lemma as_ok_node:
  assumes "as_ok s E AP" "((a, x), P) \<in> set AP"
  obtains n where "as_heap s a = Some n" "item n = x"
proof -
  have "(a, x) \<in> set (map fst AP)" using assms(2) by force
  then show thesis using that assms(1) linked_node [of "as_heap s" "associations s" "map fst AP" a x]
    by (auto simp: as_ok_def)
qed

text \<open>
  The whole state of the registry outside the association and pointer heaps is kept by the
  association operations.
\<close>

definition same_eps :: "rlog \<Rightarrow> rlog \<Rightarrow> bool" where
  "same_eps s s' \<longleftrightarrow> ep_heap s' = ep_heap s \<and> endpoints s' = endpoints s
     \<and> def_ep s' = def_ep s \<and> def_arg s' = def_arg s"

lemma distinct_concat_replace:
  assumes "distinct (concat (map (\<lambda>y. map fst (snd y)) (L @ (z, P) # R)))"
    and "distinct (map fst P')" "\<forall>y \<in> set (L @ R). fst ` set (snd y) \<inter> fst ` set P' = {}"
  shows "distinct (concat (map (\<lambda>y. map fst (snd y)) (L @ (z', P') # R)))"
proof -
  define U V where "U = concat (map (\<lambda>y. map fst (snd y)) L)" "V = concat (map (\<lambda>y. map fst (snd y)) R)"
  have "set U \<inter> fst ` set P' = {}" "set V \<inter> fst ` set P' = {}" using assms(3) by (auto simp: U_V_def; blast)+
  then have "distinct (U @ map fst P' @ V)" using assms(1,2) unfolding U_V_def [symmetric] by (auto simp: U_V_def [symmetric])
  then show ?thesis by (simp add: U_V_def)
qed

lemma distinct_concat_disjoint:
  assumes "distinct (concat (map (\<lambda>y. map fst (snd y)) (L @ (z, P) # R)))" "y \<in> set (L @ R)"
  shows "fst ` set (snd y) \<inter> fst ` set P = {}"
proof -
  define U where "U = concat (map (\<lambda>y. map fst (snd y)) (L @ R))"
  have "fst ` set P \<inter> set U = {}" using assms(1) by (simp add: U_def) blast
  moreover have "fst ` set (snd y) \<subseteq> set U" using assms(2) by (auto simp: U_def)
  ultimately show ?thesis by blast
qed

lemma as_ok_update:
  assumes ok: "as_ok s E (L @ ((a, x), P) # R)"
    and new: "linked h l P'" "\<forall>(_, p) \<in> set P'. live E (target p)" "distinct (map fst (ptr_view E P'))"
    and frame: "\<forall>b. b \<notin> fst ` set P \<union> fst ` set P' \<longrightarrow> h b = ptr_heap s b"
    and sep: "\<forall>y \<in> set (L @ R). fst ` set (snd y) \<inter> fst ` set P' = {}" and fin: "finite {b. used h b}"
  obtains s' where "set_eps (s\<lparr>ptr_heap := h\<rparr>) a l = Some s'" "same_eps s s'"
    "as_ok s' E (L @ ((a, x\<lparr>eps := l\<rparr>), P') # R)" "as_heap s' a \<noteq> None"
proof -
  have lk: "linked (as_heap s) (associations s) (map fst L @ (a, x) # map fst R)"
    and fa: "finite {b. used (as_heap s) b}"
    and all: "\<forall>y \<in> set (L @ ((a, x), P) # R). ptrs_ok s E (eps (snd (fst y))) (snd y)"
    and ds: "distinct (concat (map (\<lambda>y. map fst (snd y)) (L @ ((a, x), P) # R)))"
    and dt: "distinct (map (\<lambda>y. tag (snd (fst y))) (L @ ((a, x), P) # R))"
    using ok by (simp_all add: as_ok_def ball_Un)
  have pk: "ptrs_ok s E (eps (snd (fst y))) (snd y)" if "y \<in> set (L @ R)" for y using all that by auto
  have "(a, x) \<in> set (map fst L @ (a, x) # map fst R)" by simp
  then obtain n where n: "as_heap s a = Some n" "item n = x" using linked_node [OF lk] by blast
  let ?h = "(as_heap s)(a \<mapsto> n\<lparr>item := x\<lparr>eps := l\<rparr>\<rparr>)"
  let ?s = "s\<lparr>ptr_heap := h, as_heap := ?h\<rparr>"
  let ?AP = "L @ ((a, x\<lparr>eps := l\<rparr>), P') # R"
  have lk': "linked ?h (associations s) (map fst L @ (a, x\<lparr>eps := l\<rparr>) # map fst R)"
    by (rule linked_update_item [OF lk n(1)])
  have "{b. used ?h b} \<subseteq> insert a {b. used (as_heap s) b}" by (auto simp: used_def)
  then have fa': "finite {b. used ?h b}" by (rule finite_subset) (simp add: fa)
  have old: "ptrs_ok ?s E (eps (snd (fst y))) (snd y)" if y: "y \<in> set (L @ R)" for y
  proof -
    have 1: "fst ` set (snd y) \<inter> fst ` set P = {}" by (rule distinct_concat_disjoint [OF ds y])
    have 2: "fst ` set (snd y) \<inter> fst ` set P' = {}" by (rule bspec [OF sep y])
    have "h b = ptr_heap s b" if "b \<in> fst ` set (snd y)" for b
    proof -
      have "b \<notin> fst ` set P \<union> fst ` set P'" using 1 2 that by (simp only: disjoint_iff Un_iff) simp
      then show ?thesis using frame by (simp only: simp_thms)
    qed
    then have "linked h (eps (snd (fst y))) (snd y)"
      using pk [OF y] linked_frame [of "ptr_heap s" "eps (snd (fst y))" "snd y" h] by (simp add: ptrs_ok_def)
    then show ?thesis using pk [OF y] by (simp add: ptrs_ok_def)
  qed
  have new': "ptrs_ok ?s E l P'" using new by (simp add: ptrs_ok_def)
  have dp: "distinct (map fst P')" using new(1) by (simp add: linked_def)
  have ds': "distinct (concat (map (\<lambda>y. map fst (snd y)) ?AP))" by (rule distinct_concat_replace [OF ds dp sep])
  have "as_ok ?s E ?AP"
    unfolding as_ok_def
  proof (intro conjI ballI)
    fix y assume "y \<in> set ?AP"
    then consider "y \<in> set (L @ R)" | "y = ((a, x\<lparr>eps := l\<rparr>), P')" by auto
    then show "ptrs_ok ?s E (eps (snd (fst y))) (snd y)"
    proof cases
      case 1
      then show ?thesis by (rule old)
    qed (use new' in simp)
  qed (use lk' fa' fin ds' dt in simp_all)
  then show thesis using n by (intro that [of ?s]) (simp_all add: set_eps_def same_eps_def)
qed

lemma add_endpointptr_ok:
  assumes "malloc_ok m" "as_ok s E (L @ ((a, x), P) # R)" "live E (Some e)"
    "name_at E (Some e) \<notin> fst ` set (ptr_view E P)"
  obtains s' p l where "add_endpointptr m s a e arg = Some s'" "same_eps s s'"
    "as_ok s' E (L @ ((a, x\<lparr>eps := l\<rparr>), (p, \<lparr>target = Some e, ptr_arg = arg\<rparr>) # P) # R)"
proof -
  let ?n = "\<lparr>target = Some e, ptr_arg = arg\<rparr>"
  have pk: "linked (ptr_heap s) (eps x) P" "\<forall>(_, p) \<in> set P. live E (target p)" "distinct (map fst (ptr_view E P))"
    using as_ok_ptrs [OF assms(2), of a x P] by (auto simp: ptrs_ok_def)
  have fin: "finite {b. used (ptr_heap s) b}" using assms(2) by (simp add: as_ok_def)
  obtain p h1 h2 where p: "new_node m (ptr_heap s) ?n = Some (p, h1)" "list_add h1 (eps x) p = Some (h2, Some p)"
    "ptr_heap s p = None" "linked h2 (Some p) ((p, ?n) # P)" "finite {b. used h2 b}"
    "\<And>b. b \<noteq> p \<Longrightarrow> b \<notin> fst ` set P \<Longrightarrow> h2 b = ptr_heap s b"
    by (rule alloc_add_ok [OF assms(1) fin pk(1), of ?n]) (rule that)
  have all: "\<forall>y \<in> set (L @ ((a, x), P) # R). linked (ptr_heap s) (eps (snd (fst y))) (snd y)"
    using assms(2) by (simp only: as_ok_def ptrs_ok_def ball_conj_distrib) (elim conjE)
  have ds: "distinct (concat (map (\<lambda>y. map fst (snd y)) (L @ ((a, x), P) # R)))"
    using assms(2) by (simp only: as_ok_def)
  have sep: "\<forall>y \<in> set (L @ R). fst ` set (snd y) \<inter> fst ` set ((p, ?n) # P) = {}"
  proof
    fix y assume y: "y \<in> set (L @ R)"
    then have "linked (ptr_heap s) (eps (snd (fst y))) (snd y)" using all by auto
    then have "p \<notin> fst ` set (snd y)" using p(3) by (rule linked_fresh)
    then show "fst ` set (snd y) \<inter> fst ` set ((p, ?n) # P) = {}"
      using distinct_concat_disjoint [OF ds y] by auto
  qed
  have pv: "distinct (map fst (ptr_view E ((p, ?n) # P)))" using pk(3) assms(4) by (simp add: ptr_view_def image_image)
  have lv: "\<forall>(_, q) \<in> set ((p, ?n) # P). live E (target q)" using pk(2) assms(3) by simp
  have fr: "\<forall>b. b \<notin> fst ` set P \<union> fst ` set ((p, ?n) # P) \<longrightarrow> h2 b = ptr_heap s b" using p(6) by simp
  obtain s' where s': "set_eps (s\<lparr>ptr_heap := h2\<rparr>) a (Some p) = Some s'" "same_eps s s'"
    "as_ok s' E (L @ ((a, x\<lparr>eps := Some p\<rparr>), (p, ?n) # P) # R)"
    by (rule as_ok_update [OF assms(2) p(4) lv pv fr sep p(5)])
  obtain n where n: "as_heap s a = Some n" "item n = x" by (rule as_ok_node [OF assms(2), of a x P]) auto
  show thesis by (rule that [OF _ s'(2,3)]) (simp add: add_endpointptr_def p n s')
qed

lemma add_association_ok:
  assumes "malloc_ok m" "as_ok s E AP" "t \<notin> fst ` set (as_view E AP)"
  obtains s' a where "add_association m s t = Some (s', a)" "same_eps s s'"
    "as_ok s' E (((a, \<lparr>tag = t, eps = None\<rparr>), []) # AP)"
proof -
  have lk: "linked (as_heap s) (associations s) (map fst AP)" and fin: "finite {b. used (as_heap s) b}"
    using assms(2) by (simp_all add: as_ok_def)
  let ?n = "\<lparr>tag = t, eps = None\<rparr>"
  obtain a h1 h2 where a: "new_node m (as_heap s) ?n = Some (a, h1)" "list_add h1 (associations s) a = Some (h2, Some a)"
    "linked h2 (Some a) ((a, ?n) # map fst AP)" "finite {b. used h2 b}"
    by (rule alloc_add_ok [OF assms(1) fin lk, of ?n]) (rule that)
  let ?s = "s\<lparr>as_heap := h2, associations := Some a\<rparr>"
  have "as_ok ?s E (((a, ?n), []) # AP)"
    using assms(2,3) a by (auto simp: as_ok_def ptrs_ok_def as_view_def ptr_view_def image_image)
  then show thesis using a by (intro that [of ?s a]) (simp_all add: add_association_def same_eps_def)
qed

lemma holds_same_eps:
  assumes "holds s E AP" "same_eps s s'" "as_ok s' E AP'" "\<forall>x \<in> set AP'. snd x \<noteq> []"
  shows "holds s' E AP'" "registry_of s' E AP' = (registry_of s E AP)\<lparr>sp_as := as_view E AP'\<rparr>"
  using assms by (auto simp: holds_def same_eps_def eps_ok_def registry_of_def)

text \<open>Changing the entry of one tag in the view.\<close>

lemma as_view_change:
  assumes "\<forall>y \<in> set (L @ R). tag (snd (fst y)) \<noteq> t" "tag x = t" "ptr_view E P' = f (ptr_view E P)"
  shows "as_view E (L @ ((a, x\<lparr>eps := l\<rparr>), P') # R)
           = map (\<lambda>(t', ps). (t', if t' = t then f ps else ps)) (as_view E (L @ ((a, x), P) # R))"
  using assms by (auto simp: as_view_def)

lemma refine_associate:
  assumes "malloc_ok m" "rel s r"
  shows "\<exists>s'. ctl_associate m s t nm arg = Some (fst (spec_step r (Associate t nm arg)), s')
           \<and> rel s' (snd (spec_step r (Associate t nm arg)))"
proof -
  obtain E AP where h: "holds s E AP" "r = registry_of s E AP" using assms(2) by (auto simp: rel_def)
  then have ok: "eps_ok s E" "as_ok s E AP" by (auto simp: holds_def)
  have sp: "sp_eps r = ep_view E" "sp_as r = as_view E AP" using h by (simp_all add: registry_of_def)
  show ?thesis
  proof (cases "find (\<lambda>(_, e). ep_name e = nm) E")
    case None
    then have "nm \<notin> fst ` set (ep_view E)" by (simp add: find_name_None)
    then show ?thesis using None sp assms(2) by (simp add: ctl_associate_def find_endpoint_ok [OF ok(1)])
  next
    case (Some y)
    obtain e z where y: "y = (e, z)" by (cases y)
    obtain xs ys where E: "E = xs @ (e, z) # ys" "name_at E (Some e) = nm"
      by (rule find_endpoint_split [OF ok(1) Some [unfolded y]])
    have nm: "nm \<in> fst ` set (ep_view E)" using Some find_name_None [of nm E] by simp
    have le: "live E (Some e)" using E by (simp add: live_def)
    show ?thesis
    proof (cases "find (\<lambda>y. tag (snd y) = t) (map fst AP)")
      case None
      then have t: "t \<notin> fst ` set (as_view E AP)" using find_tag_None [of t AP E] by simp
      obtain s1 a where s1: "add_association m s t = Some (s1, a)" "same_eps s s1"
        "as_ok s1 E ([] @ ((a, \<lparr>tag = t, eps = None\<rparr>), []) # AP)"
        by (rule add_association_ok [OF assms(1) ok(2) t]) simp
      have e1: "eps_ok s1 E" using ok(1) s1(2) by (simp add: same_eps_def eps_ok_def)
      have pe: "name_at E (Some e) \<notin> fst ` set (ptr_view E [])" by (simp add: ptr_view_def)
      obtain s2 p l where s2: "add_endpointptr m s1 a e arg = Some s2" "same_eps s1 s2"
        "as_ok s2 E ([] @ ((a, \<lparr>tag = t, eps = None\<rparr>\<lparr>eps := l\<rparr>), [(p, \<lparr>target = Some e, ptr_arg = arg\<rparr>)]) # AP)"
        by (rule add_endpointptr_ok [OF assms(1) s1(3) le pe])
      have ss: "same_eps s s2" using s1(2) s2(2) by (simp add: same_eps_def)
      obtain n where n: "as_heap s1 a = Some n" "item n = \<lparr>tag = t, eps = None\<rparr>"
        by (rule as_ok_node [OF s1(3), of a _ "[]"]) auto
      note hs = holds_same_eps [OF h(1) ss s2(3)]
      have f: "find_endpointptr_by_name s1 None nm = Some None"
        using find_endpointptr_ok [OF e1, of None "[]"] by (simp add: ptrs_ok_def ptr_view_def)
      have "\<exists>s'. ctl_associate m s t nm arg = Some (0, s')
         \<and> rel s' (r\<lparr>sp_as := (t, [(nm, arg)]) # as_view E AP\<rparr>)"
        using Some y None s1(1) s2(1) n f hs h E(2) unfolding rel_def
        by (simp add: ctl_associate_def find_endpoint_ok [OF ok(1)] find_association_ok [OF ok(2)])
          (fastforce simp: holds_def as_view_def ptr_view_def)
      then show ?thesis using nm t sp by simp
    next
      case as: (Some w)
      obtain a x where w: "w = (a, x)" by (cases w)
      obtain L P R where AP: "AP = L @ ((a, x), P) # R" "tag x = t" "\<forall>y \<in> set (L @ R). tag (snd (fst y)) \<noteq> t"
        by (rule find_association_split [OF ok(2) as [unfolded w]])
      have t: "t \<in> fst ` set (as_view E AP)" using as find_tag_None [of t AP E] by simp
      have mem: "((a, x), P) \<in> set AP" using AP(1) by simp
      obtain n where n: "as_heap s a = Some n" "item n = x" by (rule as_ok_node [OF ok(2) mem])
      note f = find_endpointptr_ok [OF ok(1) as_ok_ptrs [OF ok(2) mem], of nm]
      show ?thesis
      proof (cases "find (\<lambda>(_, p). name_at E (target p) = nm) P")
        case None
        then have pe: "nm \<notin> fst ` set (ptr_view E P)" using find_ptr_None [of E nm P] by simp
        obtain s2 p l where s2: "add_endpointptr m s a e arg = Some s2" "same_eps s s2"
          "as_ok s2 E (L @ ((a, x\<lparr>eps := l\<rparr>), (p, \<lparr>target = Some e, ptr_arg = arg\<rparr>) # P) # R)"
          by (rule add_endpointptr_ok [OF assms(1) ok(2) [unfolded AP(1)] le, of arg]) (use pe E(2) in auto)
        let ?AP = "L @ ((a, x\<lparr>eps := l\<rparr>), (p, \<lparr>target = Some e, ptr_arg = arg\<rparr>) # P) # R"
        have ne: "\<forall>y \<in> set ?AP. snd y \<noteq> []" using h(1) AP(1) by (auto simp: holds_def)
        note hs = holds_same_eps [OF h(1) s2(2,3) ne]
        have "as_view E ?AP = map (\<lambda>(t', ps). (t', if t' = t \<and> nm \<notin> fst ` set ps then (nm, arg) # ps else ps)) (as_view E AP)"
          using AP pe E(2) by (auto simp: as_view_def ptr_view_def)
        then have "rel s2 (snd (spec_step r (Associate t nm arg)))"
          using hs h nm t sp unfolding rel_def by (intro exI [of _ E] exI [of _ ?AP]) simp
        then show ?thesis using Some y as w n f None s2(1) nm t sp
          by (simp add: ctl_associate_def find_endpoint_ok [OF ok(1)] find_association_ok [OF ok(2)])
      next
        case fp: (Some q)
        then have pe: "nm \<in> fst ` set (ptr_view E P)" using find_ptr_None [of E nm P] by simp
        have "map (\<lambda>(t', ps). (t', if t' = t \<and> nm \<notin> fst ` set ps then (nm, arg) # ps else ps)) (as_view E AP) = as_view E AP"
          using AP pe by (auto simp: as_view_def intro!: map_idI)
        then have "snd (spec_step r (Associate t nm arg)) = r" using nm t sp by simp
        then show ?thesis using Some y as w n f fp assms(2) nm t sp
          by (simp add: ctl_associate_def find_endpoint_ok [OF ok(1)] find_association_ok [OF ok(2)])
      qed
    qed
  qed
qed

lemma free_ptrs_ok:
  assumes "linked h q P"
  shows "\<exists>h'. free_ptrs h q = Some h' \<and> (\<forall>b. h' b = (if b \<in> fst ` set P then None else h b))"
proof -
  have "\<exists>h'. free_ptrs h q = Some h' \<and> (\<forall>b. h' b = (if b \<in> fst ` set P then None else h b))"
    if "seg h p q P p' None" "distinct (map fst P)" for h p q p'
    using that
  proof (induction P arbitrary: h p q)
    case Nil
    then show ?case by (simp add: free_ptrs.simps)
  next
    case (Cons y P)
    obtain a x where y: "y = (a, x)" by (cases y)
    obtain n where n: "q = Some a" "h a = Some n" "seg h (Some a) (nxt n) P p' None" using Cons.prems y by auto
    have "seg (h(a := None)) (Some a) (nxt n) P p' None" using n(3) Cons.prems(2) y by simp
    then obtain h' where "free_ptrs (h(a := None)) (nxt n) = Some h'"
      "\<forall>b. h' b = (if b \<in> fst ` set P then None else (h(a := None)) b)"
      using Cons.IH Cons.prems(2) y by fastforce
    then show ?case using n y by (subst free_ptrs.simps) auto
  qed
  then show ?thesis using assms unfolding linked_def by blast
qed

lemma erase_association_ok:
  assumes ok: "as_ok s E (L @ ((a, x), P) # R)"
    and frame: "\<forall>b. b \<notin> fst ` set P \<longrightarrow> h b = ptr_heap s b" and fin: "finite {b. used h b}"
  obtains s' where "erase_association (s\<lparr>ptr_heap := h\<rparr>) a = Some s'" "same_eps s s'" "as_ok s' E (L @ R)"
proof -
  have lk: "linked (as_heap s) (associations s) (map fst L @ (a, x) # map fst R)"
    and fa: "finite {b. used (as_heap s) b}"
    and all: "\<forall>y \<in> set (L @ ((a, x), P) # R). ptrs_ok s E (eps (snd (fst y))) (snd y)"
    and ds: "distinct (concat (map (\<lambda>y. map fst (snd y)) (L @ ((a, x), P) # R)))"
    and dt: "distinct (map (\<lambda>y. tag (snd (fst y))) (L @ ((a, x), P) # R))"
    using ok by (simp_all add: as_ok_def ball_Un)
  obtain h' l where er: "list_erase (as_heap s) (associations s) a = Some (h', l)"
    "linked h' l (map fst L @ map fst R)" "\<forall>b. h' b = None \<longleftrightarrow> as_heap s b = None \<or> b = a"
    using list_erase_linked [OF lk] by blast
  have "{b. used h' b} \<subseteq> {b. used (as_heap s) b}" using er(3) by (auto simp: used_def)
  then have fa': "finite {b. used h' b}" by (rule finite_subset) (simp add: fa)
  let ?s = "s\<lparr>ptr_heap := h, as_heap := h', associations := l\<rparr>"
  have old: "ptrs_ok ?s E (eps (snd (fst y))) (snd y)" if y: "y \<in> set (L @ R)" for y
  proof -
    have p: "ptrs_ok s E (eps (snd (fst y))) (snd y)" using all y by auto
    have "fst ` set (snd y) \<inter> fst ` set P = {}" by (rule distinct_concat_disjoint [OF ds y])
    then have "\<forall>b \<in> fst ` set (snd y). h b = ptr_heap s b" using frame by (simp add: disjoint_iff)
    then show ?thesis using p linked_frame [of "ptr_heap s" "eps (snd (fst y))" "snd y" h]
      by (simp add: ptrs_ok_def)
  qed
  have ds': "distinct (concat (map (\<lambda>y. map fst (snd y)) (L @ R)))"
    using distinct_concat_replace [OF ds, of "[]"] by simp
  have "as_ok ?s E (L @ R)" unfolding as_ok_def
    by (intro conjI ballI old) (use er(2) fa' fin ds' dt in simp_all)
  then show thesis using er(1) by (intro that [of ?s]) (simp_all add: erase_association_def same_eps_def)
qed

lemma erase_endpointptr_ok:
  assumes "eps_ok s E" "as_ok s E (L @ ((a, x), P) # R)"
  obtains s' l where "erase_endpointptr_by_name s a nm = Some s'" "same_eps s s'"
    "as_ok s' E (L @ ((a, x\<lparr>eps := l\<rparr>), filter (\<lambda>(_, p). name_at E (target p) \<noteq> nm) P) # R)"
proof -
  let ?F = "filter (\<lambda>(_, p). name_at E (target p) \<noteq> nm)"
  have mem: "((a, x), P) \<in> set (L @ ((a, x), P) # R)" by simp
  obtain n where n: "as_heap s a = Some n" "item n = x" by (rule as_ok_node [OF assms(2) mem])
  have pk: "ptrs_ok s E (eps x) P" by (rule as_ok_ptrs [OF assms(2) mem])
  note f = find_endpointptr_ok [OF assms(1) pk, of nm]
  show thesis
  proof (cases "find (\<lambda>(_, p). name_at E (target p) = nm) P")
    case None
    then have "?F P = P" by (auto simp: find_None_iff filter_id_conv)
    then show thesis using that [of s "eps x"] assms(2) f n None
      by (simp add: erase_endpointptr_by_name_def same_eps_def)
  next
    case (Some w)
    obtain xs y ys where P: "P = xs @ y # ys" "w = y" "(\<lambda>(_, p). name_at E (target p) = nm) y"
      by (rule find_split [OF Some]) (rule that [OF _ refl])
    obtain p q where y: "y = (p, q)" by (cases y)
    have lk: "linked (ptr_heap s) (eps x) (xs @ (p, q) # ys)" using pk P y by (simp add: ptrs_ok_def)
    have ds: "distinct (map fst (ptr_view E (xs @ (p, q) # ys)))" using pk P y by (simp add: ptrs_ok_def)
    have "ptr_view E (xs @ (p, q) # ys) = ptr_view E xs @ (nm, ptr_arg q) # ptr_view E ys"
      "ptr_view E (xs @ ys) = ptr_view E xs @ ptr_view E ys"
      using P(3) y by (simp_all add: ptr_view_def)
    then have "nm \<notin> fst ` set (ptr_view E (xs @ ys))" using ds by auto
    then have "\<forall>z \<in> set (xs @ ys). \<not> (\<lambda>(_, p). name_at E (target p) = nm) z"
      by (simp only: find_ptr_None [symmetric] find_None_iff) blast
    then have "?F xs = xs" "?F ys = ys" by (auto simp: filter_id_conv)
    then have F: "?F P = xs @ ys" using P y by simp
    obtain h l where er: "list_erase (ptr_heap s) (eps x) p = Some (h, l)" "linked h l (xs @ ys)"
      "\<forall>b. b \<notin> fst ` set (xs @ (p, q) # ys) \<longrightarrow> h b = ptr_heap s b"
      "\<forall>b. h b = None \<longleftrightarrow> ptr_heap s b = None \<or> b = p"
      using list_erase_linked [OF lk] by blast
    have fin: "finite {b. used (ptr_heap s) b}" using assms(2) by (simp add: as_ok_def)
    have "{b. used h b} \<subseteq> {b. used (ptr_heap s) b}" using er(4) by (auto simp: used_def)
    then have fin': "finite {b. used h b}" by (rule finite_subset) (rule fin)
    have lv: "\<forall>(_, p) \<in> set (xs @ ys). live E (target p)" using pk P by (auto simp: ptrs_ok_def)
    have dv: "distinct (map fst (ptr_view E (xs @ ys)))" using ds by (auto simp: ptr_view_def)
    have fr: "\<forall>b. b \<notin> fst ` set P \<union> fst ` set (xs @ ys) \<longrightarrow> h b = ptr_heap s b" using er(3) P y by auto
    have dd: "distinct (concat (map (\<lambda>y. map fst (snd y)) (L @ ((a, x), P) # R)))"
      using assms(2) by (simp only: as_ok_def)
    have sep: "\<forall>z \<in> set (L @ R). fst ` set (snd z) \<inter> fst ` set (xs @ ys) = {}"
      using distinct_concat_disjoint [OF dd] P by fastforce
    obtain s' where s': "set_eps (s\<lparr>ptr_heap := h\<rparr>) a l = Some s'" "same_eps s s'"
      "as_ok s' E (L @ ((a, x\<lparr>eps := l\<rparr>), xs @ ys) # R)"
      by (rule as_ok_update [OF assms(2) er(2) lv dv fr sep fin'])
    show thesis using that [of s' l] s' F n f Some P y er(1)
      by (simp add: erase_endpointptr_by_name_def)
  qed
qed

lemma refine_disassociate:
  assumes "rel s r"
  shows "\<exists>s'. ctl_disassociate s t nmo = Some (fst (spec_step r (Disassociate t nmo)), s')
           \<and> rel s' (snd (spec_step r (Disassociate t nmo)))"
proof -
  obtain E AP where h: "holds s E AP" "r = registry_of s E AP" using assms by (auto simp: rel_def)
  then have ok: "eps_ok s E" "as_ok s E AP" and ne: "\<forall>x \<in> set AP. snd x \<noteq> []" by (auto simp: holds_def)
  have sp: "sp_as r = as_view E AP" using h by (simp_all add: registry_of_def)
  have vne: "snd z \<noteq> []" if "z \<in> set (as_view E AP)" for z
    using that ne by (auto simp: as_view_def ptr_view_def)
  show ?thesis
  proof (cases "find (\<lambda>y. tag (snd y) = t) (map fst AP)")
    case None
    then have t: "t \<notin> fst ` set (as_view E AP)" using find_tag_None [of t AP E] by simp
    have m: "map (\<lambda>(t', ps). (t', if t' = t then f ps else ps)) (as_view E AP) = as_view E AP" for f
      using t by (intro map_idI) force
    have "filter (\<lambda>x. fst x \<noteq> t) (as_view E AP) = as_view E AP" using t by (force simp: filter_id_conv)
    then have "spec_step r (Disassociate t nmo) = (0, r)" using vne m sp by (cases nmo) (simp_all add: filter_id_conv)
    then show ?thesis using None assms by (simp add: ctl_disassociate_def find_association_ok [OF ok(2)])
  next
    case (Some w)
    obtain a x where w: "w = (a, x)" by (cases w)
    obtain L P R where AP: "AP = L @ ((a, x), P) # R" "tag x = t" "\<forall>y \<in> set (L @ R). tag (snd (fst y)) \<noteq> t"
      by (rule find_association_split [OF ok(2) Some [unfolded w]])
    note ok2 = ok(2) [unfolded AP(1)]
    have mem: "((a, x), P) \<in> set AP" using AP(1) by simp
    obtain n where n: "as_heap s a = Some n" "item n = x" by (rule as_ok_node [OF ok(2) mem])
    have tv: "\<forall>y \<in> set (as_view E (L @ R)). fst y \<noteq> t" using AP(3) by (simp add: as_view_def ball_Un)
    have vw: "as_view E AP = as_view E L @ (t, ptr_view E P) # as_view E R" using AP by (simp add: as_view_def)
    have fin: "finite {b. used (ptr_heap s) b}" using ok(2) by (simp add: as_ok_def)
    have neR: "\<forall>y \<in> set (L @ R). snd y \<noteq> []" using ne AP(1) by auto
    show ?thesis
    proof (cases nmo)
      case None
      have lk: "linked (ptr_heap s) (eps x) P" using as_ok_ptrs [OF ok(2) mem] by (simp add: ptrs_ok_def)
      obtain hp where hp: "free_ptrs (ptr_heap s) (eps x) = Some hp"
        "\<forall>b. hp b = (if b \<in> fst ` set P then None else ptr_heap s b)"
        using free_ptrs_ok [OF lk] by blast
      have "{b. used hp b} \<subseteq> {b. used (ptr_heap s) b}" using hp(2) by (auto simp: used_def)
      then have fin': "finite {b. used hp b}" by (rule finite_subset) (rule fin)
      have fr: "\<forall>b. b \<notin> fst ` set P \<longrightarrow> hp b = ptr_heap s b" using hp(2) by simp
      obtain s' where s': "erase_association (s\<lparr>ptr_heap := hp\<rparr>) a = Some s'" "same_eps s s'" "as_ok s' E (L @ R)"
        by (rule erase_association_ok [OF ok2 fr fin'])
      have "filter (\<lambda>x. fst x \<noteq> t) (as_view E AP) = as_view E (L @ R)"
        using tv vw by (auto simp: as_view_def filter_id_conv)
      then have "rel s' (snd (spec_step r (Disassociate t nmo)))"
        using holds_same_eps [OF h(1) s'(2,3) neR] h(2) sp None unfolding rel_def
        by (intro exI [of _ E] exI [of _ "L @ R"]) simp
      then show ?thesis using None Some w n hp s'(1)
        by (simp add: ctl_disassociate_def find_association_ok [OF ok(2)])
    next
      case nm: (Some nm)
      let ?P = "filter (\<lambda>(_, p). name_at E (target p) \<noteq> nm) P"
      obtain s1 l where s1: "erase_endpointptr_by_name s a nm = Some s1" "same_eps s s1"
        "as_ok s1 E (L @ ((a, x\<lparr>eps := l\<rparr>), ?P) # R)"
        by (rule erase_endpointptr_ok [OF ok(1) ok2])
      let ?AP = "L @ ((a, x\<lparr>eps := l\<rparr>), ?P) # R"
      have mem1: "((a, x\<lparr>eps := l\<rparr>), ?P) \<in> set ?AP" by simp
      obtain n1 where n1: "as_heap s1 a = Some n1" "item n1 = x\<lparr>eps := l\<rparr>" by (rule as_ok_node [OF s1(3) mem1])
      have pv: "filter (\<lambda>p. fst p \<noteq> nm) (ptr_view E P) = ptr_view E ?P"
        by (induction P) (auto simp: ptr_view_def)
      have idm: "map (\<lambda>(t', ps). (t', if t' = t then f ps else ps)) (as_view E Q) = as_view E Q"
        if "set Q \<subseteq> set (L @ R)" for f Q
      proof (intro map_idI)
        fix z assume "z \<in> set (as_view E Q)"
        then have "z \<in> set (as_view E (L @ R))" using that by (auto simp: as_view_def)
        then have "fst z \<noteq> t" using tv by blast
        then show "(case z of (t', ps) \<Rightarrow> (t', if t' = t then f ps else ps)) = z" by (cases z) simp
      qed
      have idf: "filter (\<lambda>x. snd x \<noteq> []) (as_view E Q) = as_view E Q" if "set Q \<subseteq> set (L @ R)" for Q
        using neR that by (auto simp: as_view_def ptr_view_def filter_id_conv)
      have sps: "sp_as (snd (spec_step r (Disassociate t nmo)))
         = as_view E L @ (if ?P = [] then [] else [(t, ptr_view E ?P)]) @ as_view E R"
        using nm sp vw idm [of L] idm [of R] idf [of L] idf [of R] pv by (auto simp: ptr_view_def)
      have lk: "linked (ptr_heap s1) l ?P" using as_ok_ptrs [OF s1(3) mem1] by (simp add: ptrs_ok_def)
      show ?thesis
      proof (cases "?P = []")
        case True
        then have l: "l = None" using lk by simp
        have fin1: "finite {b. used (ptr_heap s1) b}" using s1(3) by (simp add: as_ok_def)
        obtain s' where s': "erase_association s1 a = Some s'" "same_eps s1 s'" "as_ok s' E (L @ R)"
          by (rule erase_association_ok [OF s1(3), of "ptr_heap s1"]) (use fin1 in simp_all)
        have ss: "same_eps s s'" using s1(2) s'(2) by (simp add: same_eps_def)
        have "snd (spec_step r (Disassociate t nmo)) = registry_of s' E (L @ R)"
          using holds_same_eps(2) [OF h(1) ss s'(3) neR] sps True h(2) nm by (simp add: as_view_def)
        then have "rel s' (snd (spec_step r (Disassociate t nmo)))"
          using holds_same_eps(1) [OF h(1) ss s'(3) neR] unfolding rel_def by blast
        then show ?thesis using nm Some w s1(1) n1 l s'(1)
          by (simp add: ctl_disassociate_def find_association_ok [OF ok(2)])
      next
        case False
        then obtain k where ln: "l = Some k" using lk linked_Cons_head by (cases ?P) force+
        have ne1: "\<forall>y \<in> set ?AP. snd y \<noteq> []" using neR False by auto
        have "snd (spec_step r (Disassociate t nmo)) = registry_of s1 E ?AP"
          using holds_same_eps(2) [OF h(1) s1(2,3) ne1] sps False h(2) nm AP(2) by (simp add: as_view_def)
        then have "rel s1 (snd (spec_step r (Disassociate t nmo)))"
          using holds_same_eps(1) [OF h(1) s1(2,3) ne1] unfolding rel_def by blast
        then show ?thesis using nm Some w s1(1) n1 ln
          by (simp add: ctl_disassociate_def find_association_ok [OF ok(2)])
      qed
    qed
  qed
qed

section \<open>Printing\<close>

lemma map_of_ep_view:
  assumes "eps_ok s E" "(e, x) \<in> set E"
  shows "map_of (ep_view E) (ep_name x) = Some (writer x, ep_arg x)"
proof -
  have d: "map fst (ep_view E) = map (\<lambda>(_, e). ep_name e) E" by (simp add: ep_view_def case_prod_beta)
  have "(ep_name x, writer x, ep_arg x) \<in> set (ep_view E)" using assms(2) by (force simp: ep_view_def)
  then show ?thesis using assms(1) d by (simp add: eps_ok_def)
qed

definition call_of :: "registry \<Rightarrow> string \<times> varg \<Rightarrow> log_call" where
  "call_of r x = (case the (map_of (sp_eps r) (fst x)) of (w, a) \<Rightarrow> (w, a, snd x))"

lemma spec_print_eq:
  "spec_print r t = (case map_of (sp_as r) t of
       Some ps \<Rightarrow> map (call_of r) ps
     | None \<Rightarrow> (case sp_def r of None \<Rightarrow> [] | Some d \<Rightarrow> [call_of r d]))"
  by (simp add: spec_print_def call_of_def Let_def case_prod_beta split: option.splits)

lemma deref_call:
  assumes "eps_ok s E" "live E t" "sp_eps r = ep_view E"
  obtains e n where "t = Some e" "ep_heap s e = Some n"
    "call_of r (name_at E t, arg) = (writer (item n), ep_arg (item n), arg)"
proof -
  obtain e n where e: "t = Some e" "ep_heap s e = Some n" "(e, item n) \<in> set E" "name_at E t = ep_name (item n)"
    by (rule eps_deref [OF assms(1,2)])
  then show thesis using that [OF e(1,2)] map_of_ep_view [OF assms(1) e(3)] assms(3) by (simp add: call_of_def)
qed

lemma run_writers_ok:
  assumes "eps_ok s E" "ptrs_ok s E head P" "sp_eps r = ep_view E"
  shows "run_writers s head = Some (map (call_of r) (ptr_view E P))"
proof -
  have "run_writers s q = Some (map (call_of r) (ptr_view E P))"
    if "seg (ptr_heap s) p q P p' None" "\<forall>(_, x) \<in> set P. live E (target x)" for p q p'
    using that
  proof (induction P arbitrary: p q)
    case Nil
    then show ?case by (simp add: run_writers.simps ptr_view_def)
  next
    case (Cons y P)
    obtain a x where y: "y = (a, x)" by (cases y)
    obtain n where n: "q = Some a" "ptr_heap s a = Some n" "item n = x" "seg (ptr_heap s) (Some a) (nxt n) P p' None"
      using Cons.prems(1) y by auto
    have "live E (target x)" using Cons.prems(2) y by simp
    then obtain e k where e: "target x = Some e" "ep_heap s e = Some k"
      "call_of r (name_at E (target x), ptr_arg x) = (writer (item k), ep_arg (item k), ptr_arg x)"
      by (rule deref_call [OF assms(1) _ assms(3)])
    have "run_writers s (nxt n) = Some (map (call_of r) (ptr_view E P))"
      by (rule Cons.IH [OF n(4)]) (use Cons.prems(2) in simp)
    then show ?case using n e y by (subst run_writers.simps) (simp add: ptr_view_def)
  qed
  then show ?thesis using assms(2) unfolding ptrs_ok_def linked_def by blast
qed

lemma run_writers_dangling:
  assumes "linked (ptr_heap s) head P" "(p, x) \<in> set P" "target x = Some a" "ep_heap s a = None"
    and "\<forall>(_, x) \<in> set P. target x \<noteq> None"
  shows "run_writers s head = None"
proof -
  have "run_writers s q = None"
    if "seg (ptr_heap s) b q P p' None" "(p, x) \<in> set P" "\<forall>(_, x) \<in> set P. target x \<noteq> None" for b q p'
    using that
  proof (induction P arbitrary: b q)
    case (Cons y P)
    obtain d z where y: "y = (d, z)" by (cases y)
    obtain n where n: "q = Some d" "ptr_heap s d = Some n" "item n = z" "seg (ptr_heap s) (Some d) (nxt n) P p' None"
      using Cons.prems(1) y by auto
    obtain e where e: "target z = Some e" using Cons.prems(3) y by auto
    show ?case
    proof (cases "z = x")
      case True
      then show ?thesis using n e assms(3,4) by (subst run_writers.simps) simp
    next
      case False
      then have "run_writers s (nxt n) = None"
        using Cons.prems y by (intro Cons.IH [OF n(4)]) auto
      then show ?thesis using n e by (subst run_writers.simps) (simp split: bind_splits)
    qed
  qed simp
  then show ?thesis using assms unfolding linked_def by blast
qed

lemma find_association_map_of:
  assumes "as_ok s E AP"
  shows "(case map_of (as_view E AP) t of
      None \<Rightarrow> find_association_by_tag s t = Some None
    | Some ps \<Rightarrow> \<exists>a x P. find_association_by_tag s t = Some (Some a) \<and> ((a, x), P) \<in> set AP \<and> tag x = t
        \<and> ps = ptr_view E P)"
proof (cases "find (\<lambda>y. tag (snd y) = t) (map fst AP)")
  case None
  then have "map_of (as_view E AP) t = None" using find_tag_None [of t AP E] by (simp add: map_of_eq_None_iff)
  then show ?thesis using None by (simp add: find_association_ok [OF assms])
next
  case (Some w)
  obtain a x where w: "w = (a, x)" by (cases w)
  obtain L P R where AP: "AP = L @ ((a, x), P) # R" "tag x = t" "\<forall>y \<in> set (L @ R). tag (snd (fst y)) \<noteq> t"
    by (rule find_association_split [OF assms Some [unfolded w]])
  have "\<forall>y \<in> set L. tag (snd (fst y)) \<noteq> t" using AP(3) by (simp add: ball_Un)
  then have "t \<notin> (\<lambda>y. tag (snd (fst y))) ` set L" by blast
  then have "map_of (as_view E L) t = None" by (simp add: as_view_def map_of_eq_None_iff image_image)
  then have "map_of (as_view E AP) t = Some (ptr_view E P)" using AP by (simp add: as_view_def map_add_def)
  then show ?thesis using Some w AP find_association_ok [OF assms, of t] by auto
qed

lemma refine_print:
  assumes "rel s r" "endpoints s \<noteq> None"
  shows "rlog_print m android s (Some t) (Some f) = Some (spec_print r t, s)"
proof -
  obtain E AP where h: "holds s E AP" "r = registry_of s E AP" using assms by (auto simp: rel_def)
  then have ok: "eps_ok s E" "as_ok s E AP" by (auto simp: holds_def)
  have sp: "sp_eps r = ep_view E" "sp_as r = as_view E AP" using h by (simp_all add: registry_of_def)
  have ini: "log_initialize m android s = Some s" using assms(2) by (simp add: log_initialize_def)
  show ?thesis
  proof (cases "map_of (as_view E AP) t")
    case None
    then have f: "find_association_by_tag s t = Some None" using find_association_map_of [OF ok(2), of t] by simp
    show ?thesis
    proof (cases "def_ep s")
      case None
      then show ?thesis using f sp ini h \<open>map_of _ t = None\<close>
        by (simp add: rlog_print_def spec_print_eq registry_of_def)
    next
      case (Some e)
      then have "live E (def_ep s)" using h(1) by (simp add: holds_def)
      then obtain n where "ep_heap s e = Some n"
        "call_of r (name_at E (Some e), def_arg s) = (writer (item n), ep_arg (item n), def_arg s)"
        by (rule deref_call [OF ok(1) _ sp(1), of _ "def_arg s"]) (use Some in auto)
      then show ?thesis using f sp ini h Some \<open>map_of _ t = None\<close>
        by (simp add: rlog_print_def spec_print_eq registry_of_def)
    qed
  next
    case (Some ps)
    then obtain a x P where a: "find_association_by_tag s t = Some (Some a)" "((a, x), P) \<in> set AP" "ps = ptr_view E P"
      using find_association_map_of [OF ok(2), of t] by auto
    obtain n where n: "as_heap s a = Some n" "item n = x" by (rule as_ok_node [OF ok(2) a(2)])
    have "run_writers s (eps x) = Some (map (call_of r) ps)"
      using run_writers_ok [OF ok(1) as_ok_ptrs [OF ok(2) a(2)] sp(1)] a(3) by simp
    then show ?thesis using a n sp ini Some by (simp add: rlog_print_def spec_print_eq)
  qed
qed

section \<open>Properties\<close>

lemma rel_initial: "rel log_instance \<lparr>sp_eps = [], sp_as = [], sp_def = None\<rparr>"
  unfolding rel_def
  by (intro exI [of _ "[]"])
    (simp add: holds_def eps_ok_def as_ok_def log_instance_def registry_of_def ep_view_def as_view_def used_def)

lemma rlog_ctl_step:
  assumes "malloc_ok m" "rel s r" "step_allowed (spec_initialize android r) opn"
  shows "\<exists>s'. rlog_ctl m android s opn = Some (fst (spec_ctl android r opn), s') \<and> rel s' (snd (spec_ctl android r opn))"
proof -
  obtain s1 where s1: "log_initialize m android s = Some s1" "rel s1 (spec_initialize android r)"
    using refine_initialize [OF assms(1,2)] by blast
  show ?thesis
    using s1 assms(3) refine_add [OF assms(1) s1(2)] refine_remove [OF s1(2)] refine_associate [OF assms(1) s1(2)]
      refine_disassociate [OF s1(2)] refine_default [OF s1(2)]
    unfolding rlog_ctl_def spec_ctl_def by (cases opn) (simp_all del: spec_step.simps)
qed

text \<open>Running a whole sequence of control calls, in the code and in the contract.\<close>

fun rlog_run :: "allocator \<Rightarrow> bool \<Rightarrow> rlog \<Rightarrow> ctl_op list \<Rightarrow> (int list \<times> rlog) c" where
  "rlog_run m android s [] = Some ([], s)"
| "rlog_run m android s (opn # ops) = do {
     (ret, s1) \<leftarrow> rlog_ctl m android s opn;
     (rets, s2) \<leftarrow> rlog_run m android s1 ops;
     Some (ret # rets, s2)
   }"

fun spec_run :: "bool \<Rightarrow> registry \<Rightarrow> ctl_op list \<Rightarrow> int list \<times> registry" where
  "spec_run android r [] = ([], r)"
| "spec_run android r (opn # ops) =
     (case spec_ctl android r opn of (ret, r1) \<Rightarrow> case spec_run android r1 ops of (rets, r2) \<Rightarrow> (ret # rets, r2))"

fun run_allowed :: "bool \<Rightarrow> registry \<Rightarrow> ctl_op list \<Rightarrow> bool" where
  "run_allowed android r [] \<longleftrightarrow> True"
| "run_allowed android r (opn # ops) \<longleftrightarrow>
     step_allowed (spec_initialize android r) opn \<and> run_allowed android (snd (spec_ctl android r opn)) ops"

definition empty_registry :: registry where
  "empty_registry = \<lparr>sp_eps = [], sp_as = [], sp_def = None\<rparr>"

lemma rlog_run_rel:
  "malloc_ok m \<Longrightarrow> rel s r \<Longrightarrow> run_allowed android r ops \<Longrightarrow>
     \<exists>s'. rlog_run m android s ops = Some (fst (spec_run android r ops), s') \<and> rel s' (snd (spec_run android r ops))"
proof (induction ops arbitrary: s r)
  case (Cons opn ops)
  let ?r = "snd (spec_ctl android r opn)"
  obtain s1 where s1: "rlog_ctl m android s opn = Some (fst (spec_ctl android r opn), s1)" "rel s1 ?r"
    using rlog_ctl_step [OF Cons.prems(1,2)] Cons.prems(3) by auto
  then obtain s2 where "rlog_run m android s1 ops = Some (fst (spec_run android ?r ops), s2)" "rel s2 (snd (spec_run android ?r ops))"
    using Cons.IH [OF Cons.prems(1) s1(2)] Cons.prems(3) by auto
  then show ?case using s1 by (auto simp: case_prod_beta)
qed auto

lemma rel_endpoints: "rel s r \<Longrightarrow> sp_eps r \<noteq> [] \<Longrightarrow> endpoints s \<noteq> None"
  by (auto simp: rel_def registry_of_def holds_def eps_ok_def ep_view_def linked_def neq_Nil_conv)

lemma rlog_print_rel:
  assumes "malloc_ok m" "rel s r"
  shows "\<exists>s'. rlog_print m android s (Some t) (Some f) = Some (spec_print (spec_initialize android r) t, s')
           \<and> rel s' (spec_initialize android r)"
proof -
  obtain s1 where s1: "log_initialize m android s = Some s1" "rel s1 (spec_initialize android r)"
    using refine_initialize [OF assms] by blast
  have "endpoints s1 \<noteq> None"
    by (rule rel_endpoints [OF s1(2)]) (simp add: spec_initialize_def builtin_eps_def)
  note p = refine_print [OF s1(2) this, of m android t f]
  moreover have "rlog_print m android s (Some t) (Some f) = rlog_print m android s1 (Some t) (Some f)"
    using s1(1) \<open>endpoints s1 \<noteq> None\<close> by (simp add: rlog_print_def log_initialize_def [of _ _ s1])
  ultimately show ?thesis using s1(2) by auto
qed

text \<open>
  C7. From the initial state every sequence of control calls that removes no endpoint in use runs
  without undefined behaviour and returns what the contract returns; a message logged after it
  goes to exactly the endpoints of its tag, or to the default endpoint when the tag has none.
\<close>

theorem rlog_refines_registry:
  assumes "malloc_ok m" "run_allowed android empty_registry ops"
  shows "\<exists>s. rlog_run m android log_instance ops = Some (fst (spec_run android empty_registry ops), s)
           \<and> (\<forall>t f. map_option fst (rlog_print m android s (Some t) (Some f))
                = Some (spec_print (spec_initialize android (snd (spec_run android empty_registry ops))) t))"
proof -
  have "rel log_instance empty_registry" using rel_initial by (simp add: empty_registry_def)
  then obtain s where "rlog_run m android log_instance ops = Some (fst (spec_run android empty_registry ops), s)"
    "rel s (snd (spec_run android empty_registry ops))"
    using rlog_run_rel [OF assms(1) _ assms(2)] by blast
  then show ?thesis using rlog_print_rel [OF assms(1)] by fastforce
qed

definition demo_malloc :: allocator where
  "demo_malloc P = Some (LEAST a. \<not> P a)"

lemma demo_malloc_ok: "malloc_ok demo_malloc"
  unfolding malloc_ok_def demo_malloc_def
proof (intro allI impI)
  fix P :: "nat \<Rightarrow> bool" assume "finite {a. P a}"
  then obtain a where "\<not> P a" using infinite_UNIV_nat by (metis UNIV_eq_I mem_Collect_eq)
  then show "\<exists>a. Some (LEAST a. \<not> P a) = Some a \<and> \<not> P a" using LeastI [of "\<lambda>a. \<not> P a" a] by blast
qed

theorem rlog_refines_registry_witness:
  "\<exists>s. rlog_run demo_malloc False log_instance
         [Add_endpoint ''net'' (User_writer 7) Null, Associate ''tag'' ''net'' (Ptr 3), Associate ''tag'' ''file'' (Ptr 4),
          Add_endpoint ''net'' (User_writer 8) Null, Remove_endpoint ''stdout''] = Some ([0, 0, 0, -1, 0], s)
     \<and> map_option fst (rlog_print demo_malloc False s (Some ''tag'') (Some ''hi''))
         = Some [(Std_log_writer, Log_buffer, Ptr 4), (User_writer 7, Null, Ptr 3)]
     \<and> map_option fst (rlog_print demo_malloc False s (Some ''other'') (Some ''hi'')) = Some []"
proof -
  let ?ops = "[Add_endpoint ''net'' (User_writer 7) Null, Associate ''tag'' ''net'' (Ptr 3), Associate ''tag'' ''file'' (Ptr 4),
          Add_endpoint ''net'' (User_writer 8) Null, Remove_endpoint ''stdout'']"
  have run: "spec_run False empty_registry ?ops = ([0, 0, 0, -1, 0],
     \<lparr>sp_eps = [(''net'', User_writer 7, Null), (''file'', Std_log_writer, Log_buffer)],
      sp_as = [(''tag'', [(''file'', Ptr 4), (''net'', Ptr 3)])], sp_def = None\<rparr>)"
    by (simp add: empty_registry_def spec_ctl_def spec_initialize_def builtin_eps_def)
  have al: "run_allowed False empty_registry ?ops"
    by (simp add: empty_registry_def spec_ctl_def spec_initialize_def builtin_eps_def)
  obtain s where s: "rlog_run demo_malloc False log_instance ?ops = Some (fst (spec_run False empty_registry ?ops), s)"
    and p: "\<forall>t f. map_option fst (rlog_print demo_malloc False s (Some t) (Some f))
        = Some (spec_print (spec_initialize False (snd (spec_run False empty_registry ?ops))) t)"
    using rlog_refines_registry [OF demo_malloc_ok al] by blast
  show ?thesis
  proof (intro exI [of _ s] conjI)
    show "rlog_run demo_malloc False log_instance ?ops = Some ([0, 0, 0, -1, 0], s)"
      using s by (simp only: run fst_conv)
    show "map_option fst (rlog_print demo_malloc False s (Some ''tag'') (Some ''hi''))
         = Some [(Std_log_writer, Log_buffer, Ptr 4), (User_writer 7, Null, Ptr 3)]"
      by (subst p [rule_format], simp only: run snd_conv) (simp add: spec_print_eq call_of_def spec_initialize_def)
    show "map_option fst (rlog_print demo_malloc False s (Some ''other'') (Some ''hi'')) = Some []"
      by (subst p [rule_format], simp only: run snd_conv) (simp add: spec_print_eq spec_initialize_def)
  qed
qed

text \<open>A registry in which \<open>tag\<close> is associated with the endpoint \<open>file\<close>.\<close>

definition demo_registry :: registry where
  "demo_registry = \<lparr>sp_eps = [(''file'', Std_log_writer, Log_buffer), (''stdout'', Std_log_writer, Log_buffer)],
     sp_as = [(''tag'', [(''file'', Null)])], sp_def = Some (''stdout'', Ptr 1)\<rparr>"

lemma demo_registry_reached: "\<exists>s. rel s demo_registry"
proof -
  have run: "spec_run False empty_registry [Associate ''tag'' ''file'' Null] = ([0], demo_registry)"
    by (simp add: empty_registry_def spec_ctl_def spec_initialize_def builtin_eps_def demo_registry_def)
  have "rel log_instance empty_registry" using rel_initial by (simp add: empty_registry_def)
  then show ?thesis using rlog_run_rel [OF demo_malloc_ok, of log_instance empty_registry False "[Associate ''tag'' ''file'' Null]"]
    unfolding run by auto
qed

text \<open>
  The two calls the contract forbids. Removal keeps the pointers of the associations: what an
  endpoint that is still associated leaves behind is dereferenced by the next message of the tag.
\<close>

lemma remove_keeps_pointers:
  assumes "rel s r" "endpoints s \<noteq> None" "sp_def r \<noteq> None" "nm \<in> fst ` set (sp_eps r)"
  obtains a s1 where "ctl_remove_endpoint s nm = Some (0, s1)" "ep_heap s1 a = None"
    "ptr_heap s1 = ptr_heap s" "as_heap s1 = as_heap s" "associations s1 = associations s"
    "\<And>E AP t. holds s E AP \<Longrightarrow> live E t \<Longrightarrow> name_at E t = nm \<Longrightarrow> t = Some a"
    "\<And>x. x \<in> set (sp_eps r) \<Longrightarrow> fst x \<noteq> nm \<Longrightarrow> endpoints s1 \<noteq> None"
    "map_option fst (sp_def r) = Some nm \<Longrightarrow> def_ep s1 = None"
proof -
  obtain E AP where h: "holds s E AP" "r = registry_of s E AP" using assms(1) by (auto simp: rel_def)
  then have ok: "eps_ok s E" by (simp add: holds_def)
  have "live E (def_ep s)" using assms(3) h by (auto simp: registry_of_def holds_def)
  then obtain d n where d: "def_ep s = Some d" "ep_heap s d = Some n" "name_at E (Some d) = ep_name (item n)"
    using eps_deref [OF ok, of "def_ep s"] by metis
  let ?s1 = "if ep_name (item n) = nm then s\<lparr>def_ep := None, def_arg := Null\<rparr> else s"
  have ok1: "eps_ok ?s1 E" using ok by (simp add: eps_ok_def)
  have "find (\<lambda>(_, e). ep_name e = nm) E \<noteq> None"
    using assms(4) h find_name_None [of nm E] by (simp add: registry_of_def)
  then obtain a e where f: "find (\<lambda>(_, e). ep_name e = nm) E = Some (a, e)" by auto
  obtain xs ys where E: "E = xs @ (a, e) # ys" "ep_name e = nm" "\<forall>(_, x) \<in> set (xs @ ys). ep_name x \<noteq> nm"
    by (rule find_endpoint_split [OF ok f])
  have lk: "linked (ep_heap s) (endpoints s) (xs @ (a, e) # ys)" using ok E by (simp add: eps_ok_def)
  obtain hp l where er: "list_erase (ep_heap s) (endpoints s) a = Some (hp, l)" "linked hp l (xs @ ys)"
    "\<forall>b. hp b = None \<longleftrightarrow> ep_heap s b = None \<or> b = a"
    using list_erase_linked [OF lk] by blast
  let ?s2 = "?s1\<lparr>ep_heap := hp, endpoints := l\<rparr>"
  have run: "ctl_remove_endpoint s nm = Some (0, ?s2)"
    using f d er find_endpoint_ok [OF ok1]
    by (simp add: ctl_remove_endpoint_def erase_endpoint_by_name_def Let_def split del: if_split) simp
  have uniq: "t = Some a" if g: "holds s E' AP'" "live E' t" "name_at E' t = nm" for E' AP' t
  proof -
    obtain k m where k: "t = Some k" "ep_heap s k = Some m" "ep_name (item m) = nm"
      using eps_deref [of s E' t] g by (metis holds_def)
    have "eps_ok s E'" using g(1) by (simp add: holds_def)
    then have "find_endpoint_by_name s nm = Some (map_option fst (find (\<lambda>(_, e). ep_name e = nm) E'))"
      by (rule find_endpoint_ok)
    then have "map_option fst (find (\<lambda>(_, e). ep_name e = nm) E') = Some a"
      using find_endpoint_ok [OF ok, of nm] f by simp
    then obtain e' where f': "find (\<lambda>(_, e). ep_name e = nm) E' = Some (a, e')" by auto
    obtain us vs where "E' = us @ (a, e') # vs" "\<forall>(_, x) \<in> set (us @ vs). ep_name x \<noteq> nm"
      by (rule find_endpoint_split [OF \<open>eps_ok s E'\<close> f'])
    moreover obtain y where "(k, y) \<in> set E'" "ep_name y = nm"
    proof (rule eps_deref [OF \<open>eps_ok s E'\<close> g(2)])
      fix e'' n assume "t = Some e''" "ep_heap s e'' = Some n" "(e'', item n) \<in> set E'"
      then show thesis using that k by auto
    qed
    ultimately show ?thesis using k(1) by auto
  qed
  have rest: "l \<noteq> None" if "x \<in> set (sp_eps r)" "fst x \<noteq> nm" for x
  proof -
    have "xs @ ys \<noteq> []" using that h E by (auto simp: registry_of_def ep_view_def)
    then show ?thesis using er(2) linked_Cons_head by (cases "xs @ ys") force+
  qed
  have dn: "map_option fst (sp_def r) = Some nm \<Longrightarrow> ep_name (item n) = nm"
    using h(2) d by (simp add: registry_of_def)
  show thesis
    by (rule that [OF run, of a]) (use er(3) uniq rest dn in auto)
qed

text \<open>
  C8. Removing an endpoint that a tag is still associated with succeeds, and the next message
  logged with the tag dereferences the freed endpoint.
\<close>

theorem print_after_removal_is_undefined:
  assumes "rel s r" "sp_def r \<noteq> None"
    and "map_of (sp_as r) t = Some ps" "nm \<in> fst ` set ps"
    and "e \<in> set (sp_eps r)" "fst e \<noteq> nm"
  shows "\<exists>s1. rlog_ctl m android s (Remove_endpoint nm) = Some (0, s1)
           \<and> rlog_print m android s1 (Some t) (Some f) = None"
proof -
  obtain E AP where h: "holds s E AP" "r = registry_of s E AP" using assms(1) by (auto simp: rel_def)
  then have ok: "eps_ok s E" "as_ok s E AP" by (auto simp: holds_def)
  have ep: "endpoints s \<noteq> None" by (rule rel_endpoints [OF assms(1)]) (use assms(5) in auto)
  obtain a x P where a: "find_association_by_tag s t = Some (Some a)" "((a, x), P) \<in> set AP" "ps = ptr_view E P"
    using find_association_map_of [OF ok(2), of t] assms(3) h(2) by (auto simp: registry_of_def)
  obtain p q where q: "(p, q) \<in> set P" "name_at E (target q) = nm" using assms(4) a(3) by (auto simp: ptr_view_def)
  have pk: "ptrs_ok s E (eps x) P" by (rule as_ok_ptrs [OF ok(2) a(2)])
  then have lv: "live E (target q)" using q(1) by (auto simp: ptrs_ok_def)
  have "nm \<in> fst ` set (sp_eps r)" using live_name [OF lv] q(2) h(2) by (simp add: registry_of_def)
  then obtain b s1 where s1: "ctl_remove_endpoint s nm = Some (0, s1)" "ep_heap s1 b = None"
    "ptr_heap s1 = ptr_heap s" "as_heap s1 = as_heap s" "associations s1 = associations s"
    "target q = Some b" "endpoints s1 \<noteq> None"
    using remove_keeps_pointers [OF assms(1) ep assms(2)] h(1) lv q(2) assms(5,6) by metis
  obtain n where n: "as_heap s a = Some n" "item n = x" by (rule as_ok_node [OF ok(2) a(2)])
  have "linked (ptr_heap s1) (eps x) P" "\<forall>(_, z) \<in> set P. target z \<noteq> None"
    using pk s1(3) by (auto simp: ptrs_ok_def live_def)
  then have "run_writers s1 (eps x) = None" using run_writers_dangling q(1) s1(2,6) by blast
  moreover have "find_association_by_tag s1 t = Some (Some a)"
    using a(1) s1(4,5) by (simp add: find_association_by_tag_def)
  ultimately have "rlog_print m android s1 (Some t) (Some f) = None"
    using n s1(4,7) by (simp add: rlog_print_def log_initialize_def)
  then show ?thesis using s1(1) ep by (simp add: rlog_ctl_def log_initialize_def)
qed

theorem print_after_removal_is_undefined_witness:
  "\<exists>s s1. rel s demo_registry \<and> rlog_ctl demo_malloc False s (Remove_endpoint ''file'') = Some (0, s1)
     \<and> rlog_print demo_malloc False s1 (Some ''tag'') (Some ''hi'') = None"
proof -
  obtain s where s: "rel s demo_registry" using demo_registry_reached by blast
  show ?thesis
    using print_after_removal_is_undefined [OF s, of "''tag''" "[(''file'', Null)]" "''file''"
        "(''stdout'', Std_log_writer, Log_buffer)" demo_malloc False "''hi''"] s
    by (auto simp: demo_registry_def)
qed

text \<open>
  Removing the default endpoint makes every later removal dereference the NULL default.
\<close>

theorem removal_after_default_removal_is_undefined:
  assumes "rel s r" "sp_def r = Some (nm, arg)"
    and "e \<in> set (sp_eps r)" "fst e \<noteq> nm"
  shows "\<exists>s1. rlog_ctl m android s (Remove_endpoint nm) = Some (0, s1)
           \<and> rlog_ctl m android s1 (Remove_endpoint nm') = None"
proof -
  obtain E AP where h: "holds s E AP" "r = registry_of s E AP" using assms(1) by (auto simp: rel_def)
  then have "live E (def_ep s)" "name_at E (def_ep s) = nm" using assms(2) by (auto simp: holds_def registry_of_def)
  have ep: "endpoints s \<noteq> None" by (rule rel_endpoints [OF assms(1)]) (use assms(3) in auto)
  have "nm \<in> fst ` set (sp_eps r)" using live_name [of E "def_ep s"] \<open>live E (def_ep s)\<close> \<open>name_at E (def_ep s) = nm\<close> h(2) by (auto simp: registry_of_def)
  then obtain s1 where "ctl_remove_endpoint s nm = Some (0, s1)" "endpoints s1 \<noteq> None" "def_ep s1 = None"
    using remove_keeps_pointers [OF assms(1) ep, of nm] assms(2-4) by (metis fst_conv option.distinct(1) option.map(2))
  then show ?thesis using ep
    by (auto simp: rlog_ctl_def log_initialize_def ctl_remove_endpoint_def)
qed

theorem removal_after_default_removal_is_undefined_witness:
  "\<exists>s s1. rel s demo_registry \<and> rlog_ctl demo_malloc False s (Remove_endpoint ''stdout'') = Some (0, s1)
     \<and> rlog_ctl demo_malloc False s1 (Remove_endpoint ''none'') = None"
proof -
  obtain s where s: "rel s demo_registry" using demo_registry_reached by blast
  show ?thesis
    using removal_after_default_removal_is_undefined [OF s, of "''stdout''" "Ptr 1"
        "(''file'', Std_log_writer, Log_buffer)" demo_malloc False "''none''"] s
    by (auto simp: demo_registry_def)
qed

section \<open>Listing the registry\<close>

text \<open>
  \<open>rokid_log_endpoints\<close> and \<open>rokid_log_associations\<close>: count every entry and store those
  that fit; \<open>arr\<close> is the size of the caller's array, \<open>None\<close> a NULL array.
\<close>

definition fits :: "nat option \<Rightarrow> nat \<Rightarrow> bool" where
  "fits arr i \<longleftrightarrow> (case arr of None \<Rightarrow> False | Some n \<Rightarrow> i < n)"

partial_function (option) walk_endpoints ::
  "rlog \<Rightarrow> nat option \<Rightarrow> nat option \<Rightarrow> nat \<Rightarrow> (nat \<times> (string \<times> writer \<times> varg) list) c" where
  "walk_endpoints s arr ep i =
     (case ep of
        None \<Rightarrow> Some (i, [])
      | Some a \<Rightarrow> do {
          n \<leftarrow> ep_heap s a;
          (k, r) \<leftarrow> walk_endpoints s arr (nxt n) (i + 1);
          Some (k, if fits arr i then (ep_name (item n), writer (item n), ep_arg (item n)) # r else r) })"

definition rlog_endpoints ::
  "allocator \<Rightarrow> bool \<Rightarrow> rlog \<Rightarrow> nat option \<Rightarrow> (nat \<times> (string \<times> writer \<times> varg) list) c" where
  "rlog_endpoints m android s0 arr = do {
     s \<leftarrow> log_initialize m android s0;
     walk_endpoints s arr (endpoints s) 0
   }"

partial_function (option) walk_ptrs ::
  "rlog \<Rightarrow> nat option \<Rightarrow> string \<Rightarrow> nat option \<Rightarrow> nat \<Rightarrow> (nat \<times> (string \<times> string) list) c" where
  "walk_ptrs s arr t ptr i =
     (case ptr of
        None \<Rightarrow> Some (i, [])
      | Some p \<Rightarrow> do {
          n \<leftarrow> ptr_heap s p;
          st \<leftarrow> (if fits arr i
                 then do { e \<leftarrow> target (item n); x \<leftarrow> ep_heap s e; Some [(t, ep_name (item x))] }
                 else Some []);
          (k, r) \<leftarrow> walk_ptrs s arr t (nxt n) (i + 1);
          Some (k, st @ r) })"

partial_function (option) walk_associations ::
  "rlog \<Rightarrow> nat option \<Rightarrow> nat option \<Rightarrow> nat \<Rightarrow> (nat \<times> (string \<times> string) list) c" where
  "walk_associations s arr ass i =
     (case ass of
        None \<Rightarrow> Some (i, [])
      | Some a \<Rightarrow> do {
          n \<leftarrow> as_heap s a;
          (k, r) \<leftarrow> walk_ptrs s arr (tag (item n)) (eps (item n)) i;
          (k', r') \<leftarrow> walk_associations s arr (nxt n) k;
          Some (k', r @ r') })"

definition rlog_associations ::
  "allocator \<Rightarrow> bool \<Rightarrow> rlog \<Rightarrow> nat option \<Rightarrow> (nat \<times> (string \<times> string) list) c" where
  "rlog_associations m android s0 arr = do {
     s \<leftarrow> log_initialize m android s0;
     walk_associations s arr (associations s) 0
   }"

definition stored :: "nat option \<Rightarrow> nat \<Rightarrow> 'a list \<Rightarrow> 'a list" where
  "stored arr i xs = (case arr of None \<Rightarrow> [] | Some n \<Rightarrow> take (n - i) xs)"

lemma stored_Cons: "stored arr i (x # xs) = (if fits arr i then x # stored arr (Suc i) xs else stored arr (Suc i) xs)"
  by (auto simp: stored_def fits_def take_Cons' split: option.splits)

lemma stored_append: "stored arr i (xs @ ys) = stored arr i xs @ stored arr (i + length xs) ys"
  by (auto simp: stored_def split: option.splits)

lemma walk_endpoints_ok:
  "seg (ep_heap s) p q E p' None \<Longrightarrow>
     walk_endpoints s arr q i = Some (i + length E, stored arr i (ep_view E))"
proof (induction E arbitrary: p q i)
  case Nil
  then show ?case by (simp add: walk_endpoints.simps ep_view_def stored_def split: option.splits)
next
  case (Cons y E)
  obtain a x where y: "y = (a, x)" by (cases y)
  then obtain n where n: "q = Some a" "ep_heap s a = Some n" "item n = x" "seg (ep_heap s) (Some a) (nxt n) E p' None"
    using Cons.prems by auto
  have "ep_view (y # E) = (ep_name x, writer x, ep_arg x) # ep_view E" by (simp add: y ep_view_def)
  then show ?case using n Cons.IH [OF n(4), of "i + 1"] by (subst walk_endpoints.simps) (simp add: stored_Cons)
qed

lemma walk_ptrs_ok:
  assumes "eps_ok s E" "ptrs_ok s E head P"
  shows "walk_ptrs s arr t head i = Some (i + length P, stored arr i (map (\<lambda>x. (t, fst x)) (ptr_view E P)))"
proof -
  have "walk_ptrs s arr t q i = Some (i + length P, stored arr i (map (\<lambda>x. (t, fst x)) (ptr_view E P)))"
    if "seg (ptr_heap s) p q P p' None" "\<forall>(_, x) \<in> set P. live E (target x)" for p q p' i
    using that
  proof (induction P arbitrary: p q i)
    case Nil
    then show ?case by (simp add: walk_ptrs.simps ptr_view_def stored_def split: option.splits)
  next
    case (Cons y P)
    obtain a x where y: "y = (a, x)" by (cases y)
    obtain n where n: "q = Some a" "ptr_heap s a = Some n" "item n = x" "seg (ptr_heap s) (Some a) (nxt n) P p' None"
      using Cons.prems(1) y by auto
    have "live E (target x)" using Cons.prems(2) y by simp
    then obtain e k where e: "target x = Some e" "ep_heap s e = Some k" "name_at E (target x) = ep_name (item k)"
      by (rule eps_deref [OF assms(1)])
    have v: "map (\<lambda>x. (t, fst x)) (ptr_view E (y # P)) = (t, ep_name (item k)) # map (\<lambda>x. (t, fst x)) (ptr_view E P)"
      using e y by (simp add: ptr_view_def)
    have "\<forall>(_, x) \<in> set P. live E (target x)" using Cons.prems(2) by simp
    then have "walk_ptrs s arr t (nxt n) (i + 1)
        = Some (i + 1 + length P, stored arr (i + 1) (map (\<lambda>x. (t, fst x)) (ptr_view E P)))"
      by (rule Cons.IH [OF n(4)])
    then show ?case using n e unfolding v stored_Cons by (subst walk_ptrs.simps) simp
  qed
  then show ?thesis using assms(2) unfolding ptrs_ok_def linked_def by blast
qed

definition pairs_of :: "(string \<times> (string \<times> varg) list) list \<Rightarrow> (string \<times> string) list" where
  "pairs_of as = concat (map (\<lambda>(t, ps). map (\<lambda>x. (t, fst x)) ps) as)"

lemma walk_associations_ok:
  assumes "eps_ok s E" "\<forall>y \<in> set AP. ptrs_ok s E (eps (snd (fst y))) (snd y)"
    and "seg (as_heap s) p q (map fst AP) p' None"
  shows "walk_associations s arr q i
           = Some (i + length (pairs_of (as_view E AP)), stored arr i (pairs_of (as_view E AP)))"
  using assms(2,3)
proof (induction AP arbitrary: p q i)
  case Nil
  then show ?case by (simp add: walk_associations.simps as_view_def pairs_of_def stored_def split: option.splits)
next
  case (Cons y AP)
  obtain a x P where y: "y = ((a, x), P)" by (metis prod.exhaust)
  obtain n where n: "q = Some a" "as_heap s a = Some n" "item n = x" "seg (as_heap s) (Some a) (nxt n) (map fst AP) p' None"
    using Cons.prems(2) y by auto
  have pk: "ptrs_ok s E (eps x) P" using Cons.prems(1) y by simp
  have v: "pairs_of (as_view E (y # AP)) = map (\<lambda>z. (tag x, fst z)) (ptr_view E P) @ pairs_of (as_view E AP)"
    by (simp add: y pairs_of_def as_view_def)
  have l: "length (ptr_view E P) = length P" by (simp add: ptr_view_def)
  have "\<forall>y \<in> set AP. ptrs_ok s E (eps (snd (fst y))) (snd y)" using Cons.prems(1) by simp
  then have "walk_associations s arr (nxt n) (i + length P) = Some (i + length P + length (pairs_of (as_view E AP)),
      stored arr (i + length P) (pairs_of (as_view E AP)))" by (rule Cons.IH [OF _ n(4)])
  then show ?case using n walk_ptrs_ok [OF assms(1) pk, of arr "tag x" i] unfolding v stored_append
    by (subst walk_associations.simps) (simp add: l)
qed

text \<open>
  Listing counts every endpoint and every (tag, endpoint) pair of the registry, whatever the
  size of the caller's array, and stores the first entries that fit.
\<close>

theorem rlog_listing_complete:
  assumes "rel s r" "sp_eps r \<noteq> []"
  shows "rlog_endpoints m android s arr = Some (length (sp_eps r), stored arr 0 (sp_eps r))
       \<and> rlog_associations m android s arr = Some (length (pairs_of (sp_as r)), stored arr 0 (pairs_of (sp_as r)))"
proof -
  obtain E AP where h: "holds s E AP" "r = registry_of s E AP" using assms(1) by (auto simp: rel_def)
  then have ok: "eps_ok s E" "as_ok s E AP" by (auto simp: holds_def)
  have ini: "log_initialize m android s = Some s" using rel_endpoints [OF assms] by (simp add: log_initialize_def)
  obtain p' where e: "seg (ep_heap s) None (endpoints s) E p' None" using ok(1) by (auto simp: eps_ok_def linked_def)
  have all: "\<forall>y \<in> set AP. ptrs_ok s E (eps (snd (fst y))) (snd y)" using ok(2) by (simp add: as_ok_def)
  obtain q' where a: "seg (as_heap s) None (associations s) (map fst AP) q' None"
    using ok(2) by (auto simp: as_ok_def linked_def)
  show ?thesis using walk_endpoints_ok [OF e, of arr 0] walk_associations_ok [OF ok(1) all a, of arr 0] h(2)
    by (simp add: rlog_endpoints_def rlog_associations_def ini registry_of_def ep_view_def)
qed

theorem rlog_listing_complete_witness:
  "\<exists>s. rlog_endpoints demo_malloc False s (Some 1) = Some (2, [(''file'', Std_log_writer, Log_buffer)])
     \<and> rlog_associations demo_malloc False s (Some 4) = Some (1, [(''tag'', ''file'')])"
proof -
  obtain s where s: "rel s demo_registry" using demo_registry_reached by blast
  show ?thesis
    using rlog_listing_complete [OF s, of demo_malloc False "Some 1"] rlog_listing_complete [OF s, of demo_malloc False "Some 4"]
    by (intro exI [of _ s]) (simp add: demo_registry_def pairs_of_def stored_def)
qed

section \<open>The builtin writer\<close>

definition loglevel2char :: "int \<Rightarrow> char" where
  "loglevel2char lv = (if lv < 0 \<or> 5 \<le> lv then CHR ''U'' else ''VDIWE'' ! nat lv)"

definition to_android_loglevel :: "int \<Rightarrow> int" where
  "to_android_loglevel lv = (if lv < 0 \<or> 5 \<le> lv then 1 else [2, 3, 4, 5, 6] ! nat lv)"

text \<open>
  \<open>std_log_writer\<close> with a buffer of \<open>n\<close> bytes: \<open>msg\<close> is the text the message format
  expands to, \<open>wr\<close> the return value of write; the result is the return value and the line
  written. A header longer than the buffer makes the second print start behind it.
\<close>

definition log_header :: "string \<Rightarrow> int \<Rightarrow> string \<Rightarrow> string" where
  "log_header t lv ts = t @ ''/'' @ [loglevel2char lv] @ ''  ['' @ ts @ '']  ''"

definition std_log_writer ::
  "nat \<Rightarrow> (int \<Rightarrow> string \<Rightarrow> int) \<Rightarrow> int \<Rightarrow> int \<Rightarrow> string \<Rightarrow> string \<Rightarrow> string \<Rightarrow> (int \<times> string option) c" where
  "std_log_writer n wr fd lv t ts msg =
     (let hdr = log_header t lv ts; sz = length hdr + length msg in
      if n < length hdr then None
      else if sz < n
      then (let line = hdr @ msg @ [CHR 0x0A] in
            if 0 < fd then Some (wr fd line, Some line) else Some (-2, None))
      else Some (-2, None))"

fun dec :: "nat \<Rightarrow> string" where
  "dec n = (if n < 10 then [char_of (48 + n)] else dec (n div 10) @ [char_of (48 + n mod 10)])"

declare dec.simps [simp del]

definition pad0 :: "nat \<Rightarrow> nat \<Rightarrow> string" where
  "pad0 w n = replicate (w - length (dec n)) (CHR ''0'') @ dec n"

record tm =
  tm_year :: nat
  tm_mon :: nat
  tm_mday :: nat
  tm_hour :: nat
  tm_min :: nat
  tm_sec :: nat

text \<open>\<open>rokid_log_timestamp\<close> into a buffer of \<open>n\<close> bytes (snprintf keeps the first \<open>n - 1\<close>).\<close>

definition rlog_timestamp :: "tm \<Rightarrow> nat \<Rightarrow> nat \<Rightarrow> string" where
  "rlog_timestamp t usec n =
     take (n - 1) (pad0 4 (tm_year t + 1900) @ ''-'' @ pad0 2 (tm_mon t) @ ''-'' @ pad0 2 (tm_mday t) @ '' ''
       @ pad0 2 (tm_hour t) @ '':'' @ pad0 2 (tm_min t) @ '':'' @ pad0 2 (tm_sec t) @ ''.'' @ dec usec)"

lemma length_dec_step: "10 \<le> n \<Longrightarrow> length (dec n) = Suc (length (dec (n div 10)))"
  by (simp add: dec.simps [of n])

lemma length_dec_one: "n < 10 \<Longrightarrow> length (dec n) = 1"
  by (simp add: dec.simps [of n])

lemma length_pad0_2:
  assumes "n < 100"
  shows "length (pad0 2 n) = 2"
proof (cases "n < 10")
  case False
  then have "length (dec n) = 2" using assms by (simp add: length_dec_step length_dec_one less_mult_imp_div_less)
  then show ?thesis by (simp add: pad0_def)
qed (simp add: pad0_def length_dec_one)

lemma length_pad0_4:
  assumes "1000 \<le> n" "n < 10000"
  shows "length (pad0 4 n) = 4"
proof -
  have "100 \<le> n div 10" "10 \<le> n div 10 div 10" "n div 10 div 10 div 10 < 10" using assms by auto
  then have "length (dec n) = 4" using assms by (simp add: length_dec_step length_dec_one del: div_mult2_eq)
  then show ?thesis by (simp add: pad0_def)
qed

text \<open>
  The month of a timestamp is printed zero-based: characters six and seven of the stamp are
  the two digits of \<open>tm_mon\<close>, which counts from 0, so January prints as 00.
\<close>

theorem timestamp_month_zero_based:
  assumes "tm_year t < 8100" "tm_mon t < 12" "8 \<le> n"
  shows "take 2 (drop 5 (rlog_timestamp t usec n)) = pad0 2 (tm_mon t)"
proof -
  have "length (pad0 4 (tm_year t + 1900)) = 4" "length (pad0 2 (tm_mon t)) = 2"
    using assms by (simp_all add: length_pad0_4 length_pad0_2)
  moreover obtain k where "n - 1 = 7 + k" using assms(3) that [of "n - 8"] by simp
  ultimately show ?thesis by (simp add: rlog_timestamp_def take_drop drop_take)
qed

theorem timestamp_month_zero_based_witness:
  "take 2 (drop 5 (rlog_timestamp \<lparr>tm_year = 118, tm_mon = 0, tm_mday = 15, tm_hour = 9, tm_min = 5, tm_sec = 0\<rparr> 42 32)) = ''00''"
proof -
  have "pad0 2 0 = ''00''" by code_simp
  then show ?thesis
    using timestamp_month_zero_based [of "\<lparr>tm_year = 118, tm_mon = 0, tm_mday = 15, tm_hour = 9, tm_min = 5, tm_sec = 0\<rparr>" 32 42]
    by simp
qed

end
