(* ===== verification/StreamQueue.thy ===== *)
theory StreamQueue
  imports Prelude
begin

text \<open>
  The queue of streams of the speech library, \<open>class StreamQueue\<close> of \<open>pending_queue.h\<close>:
  one list of data items and tags, a list of iterators to the tags in order of their start and a
  map from stream ids to them. An iterator is the key of a list node; a key that is no longer in the
  list is a dangling iterator and its use, like a failing \<open>assert\<close>, is undefined behaviour.
  The second half states what the queue promises, as a list of streams, and proves that the code
  implements it; the contract is the locale \<open>stream_queue\<close>.
\<close>

section \<open>Data\<close>

datatype item_type = Data | Uncompleted | Completed | Deleted | Error

record ('t, 'a) qitem =
  ity :: item_type
  polling :: bool
  qerr :: nat
  qid :: int
  content :: "'t option"
  qarg :: "'a option"
  data_count :: u32

record ('t, 'a) sq =
  queue :: "(nat \<times> ('t, 'a) qitem) list"
  tag_queue :: "nat list"
  item_tags :: "(int \<times> nat) list"
  next_node :: nat

definition sq_empty :: "('t, 'a) sq" where
  "sq_empty = \<lparr>queue = [], tag_queue = [], item_tags = [], next_node = 0\<rparr>"

text \<open>The item an iterator points to, and an assignment through it.\<close>

definition deref :: "('t, 'a) sq \<Rightarrow> nat \<Rightarrow> ('t, 'a) qitem c" where
  "deref q k = map_of (queue q) k"

definition assign :: "('t, 'a) sq \<Rightarrow> nat \<Rightarrow> ('t, 'a) qitem \<Rightarrow> ('t, 'a) sq" where
  "assign q k x = q\<lparr>queue := map (\<lambda>(j, y). (j, if j = k then x else y)) (queue q)\<rparr>"

definition new_item :: "item_type \<Rightarrow> int \<Rightarrow> 't option \<Rightarrow> ('t, 'a) qitem" where
  "new_item ty i d = \<lparr>ity = ty, polling = False, qerr = 0, qid = i, content = d, qarg = None, data_count = 0\<rparr>"

section \<open>The operations\<close>

definition sq_start :: "int \<Rightarrow> ('t, 'a) sq \<Rightarrow> (bool \<times> ('t, 'a) sq) c" where
  "sq_start i q =
     (if map_of (item_tags q) i \<noteq> None then Some (False, q)
      else (let k = next_node q in
        Some (True, q\<lparr>queue := queue q @ [(k, new_item Uncompleted i None)], item_tags := (i, k) # item_tags q,
          tag_queue := tag_queue q @ [k], next_node := k + 1\<rparr>)))"

fun insert_before :: "nat \<Rightarrow> (nat \<times> 'x) \<Rightarrow> (nat \<times> 'x) list \<Rightarrow> (nat \<times> 'x) list" where
  "insert_before k n [] = []"
| "insert_before k n ((j, y) # xs) = (if j = k then n # (j, y) # xs else (j, y) # insert_before k n xs)"

definition sq_stream :: "int \<Rightarrow> 't option \<Rightarrow> ('t, 'a) sq \<Rightarrow> (bool \<times> ('t, 'a) sq) c" where
  "sq_stream i d q =
     (case map_of (item_tags q) i of
        None \<Rightarrow> Some (False, q)
      | Some k \<Rightarrow> do {
          t \<leftarrow> deref q k;
          (if ity t \<noteq> Uncompleted then Some (False, q)
           else (let n = next_node q;
                     q1 = q\<lparr>queue := insert_before k (n, new_item Data 0 d) (queue q), next_node := n + 1\<rparr> in
             Some (True, assign q1 k (t\<lparr>data_count := data_count t + 1\<rparr>))))
        })"

definition sq_end :: "int \<Rightarrow> 't option \<Rightarrow> ('t, 'a) sq \<Rightarrow> (bool \<times> ('t, 'a) sq) c" where
  "sq_end i d q =
     (case map_of (item_tags q) i of
        None \<Rightarrow> Some (False, q)
      | Some k \<Rightarrow> do {
          t \<leftarrow> deref q k;
          Some (True, assign q k (t\<lparr>ity := Completed, content := (if d \<noteq> None then d else content t)\<rparr>))
        })"

definition sq_set_arg :: "int \<Rightarrow> 'a option \<Rightarrow> ('t, 'a) sq \<Rightarrow> ('t, 'a) sq c" where
  "sq_set_arg i a q =
     (case map_of (item_tags q) i of
        None \<Rightarrow> Some q
      | Some k \<Rightarrow> do { t \<leftarrow> deref q k; Some (assign q k (t\<lparr>qarg := a\<rparr>)) })"

definition sq_get_arg :: "int \<Rightarrow> ('t, 'a) sq \<Rightarrow> 'a option c" where
  "sq_get_arg i q =
     (case map_of (item_tags q) i of
        None \<Rightarrow> Some None
      | Some k \<Rightarrow> do { t \<leftarrow> deref q k; Some (qarg t) })"

definition sq_size :: "('t, 'a) sq \<Rightarrow> nat" where
  "sq_size q = length (item_tags q)"

text \<open>
  \<open>erase\<close>: the data items in front of the tag, back to the previous tag, are removed. The
  error code is stored in 16 bits.
\<close>

definition sq_erase :: "int \<Rightarrow> nat \<Rightarrow> ('t, 'a) sq \<Rightarrow> (bool \<times> ('t, 'a) sq) c" where
  "sq_erase i e q =
     (case map_of (item_tags q) i of
        None \<Rightarrow> Some (False, q)
      | Some k \<Rightarrow> do {
          t \<leftarrow> deref q k;
          (if qid t \<noteq> i then None
           else (let front = takeWhile (\<lambda>(j, _). j \<noteq> k) (queue q);
                     rest = drop (length front) (queue q);
                     run = takeWhile (\<lambda>(_, y). ity y = Data) (rev front);
                     kept = rev (dropWhile (\<lambda>(_, y). ity y = Data) (rev front));
                     t1 = (if e \<noteq> 0 then t\<lparr>content := None, ity := Error, qerr := e mod 65536\<rparr>
                           else t\<lparr>content := None, ity := Deleted\<rparr>);
                     t2 = (if run \<noteq> [] then t1\<lparr>data_count := data_count t1 - of_nat (length run)\<rparr> else t1) in
             if ity t = Data then None
             else Some (True, assign (q\<lparr>queue := kept @ rest\<rparr>) k t2)))
        })"

fun clear_items :: "u32 \<Rightarrow> (nat \<times> ('t, 'a) qitem) list \<Rightarrow> (nat \<times> ('t, 'a) qitem) list" where
  "clear_items cnt [] = []"
| "clear_items cnt ((k, x) # xs) =
     (if ity x = Data then clear_items (cnt + 1) xs
      else (k, x\<lparr>ity := Deleted, content := None, data_count := data_count x - cnt\<rparr>) # clear_items cnt xs)"

definition sq_clear :: "('t, 'a) sq \<Rightarrow> ((int \<times> int) \<times> ('t, 'a) sq) c" where
  "sq_clear q = do {
     mm \<leftarrow> (if tag_queue q = [] then Some (0, 0)
           else do { f \<leftarrow> deref q (hd (tag_queue q)); l \<leftarrow> deref q (last (tag_queue q)); Some (qid f, qid l) });
     Some (mm, q\<lparr>queue := clear_items 0 (queue q)\<rparr>)
   }"

definition sq_close :: "('t, 'a) sq \<Rightarrow> ('t, 'a) sq" where
  "sq_close q = q\<lparr>queue := [], item_tags := [], tag_queue := []\<rparr>"

text \<open>\<open>*queue_.begin()\<close> and the test \<open>ip == queue_.begin()\<close>.\<close>

definition at_begin :: "('t, 'a) sq \<Rightarrow> nat \<Rightarrow> bool" where
  "at_begin q k = (case queue q of [] \<Rightarrow> False | (j, _) # _ \<Rightarrow> j = k)"

definition sq_available :: "('t, 'a) sq \<Rightarrow> bool c" where
  "sq_available q =
     (case tag_queue q of
        [] \<Rightarrow> Some False
      | k # _ \<Rightarrow> do {
          t \<leftarrow> deref q k;
          (if ity t = Data then None
           else if ity t = Uncompleted \<and> polling t then Some (\<not> at_begin q k)
           else Some True)
        })"

datatype 't pop_result = Pop_empty | Pop_data int "'t option" | Pop_start int | Pop_end int "'t option"
  | Pop_removed int | Pop_error int nat

definition pop_tag :: "('t, 'a) sq \<Rightarrow> int \<Rightarrow> ('t, 'a) sq c" where
  "pop_tag q i =
     (if queue q = [] then None
      else Some (q\<lparr>item_tags := filter (\<lambda>(j, _). j \<noteq> i) (item_tags q), tag_queue := tl (tag_queue q), queue := tl (queue q)\<rparr>))"

definition sq_pop :: "('t, 'a) sq \<Rightarrow> ('t pop_result \<times> ('t, 'a) sq) c" where
  "sq_pop q =
     (case tag_queue q of
        [] \<Rightarrow> Some (Pop_empty, q)
      | k # _ \<Rightarrow> do {
          t \<leftarrow> deref q k;
          (if ity t = Data then None
           else if ity t = Uncompleted \<or> ity t = Completed then
             (if \<not> polling t then Some (Pop_start (qid t), assign q k (t\<lparr>polling := True\<rparr>))
              else if at_begin q k then
                (if ity t = Uncompleted then Some (Pop_empty, q)
                 else do { q1 \<leftarrow> pop_tag q (qid t); Some (Pop_end (qid t) (content t), q1) })
              else (case queue q of
                [] \<Rightarrow> None
              | (_, x) # xs \<Rightarrow>
                  if ity x \<noteq> Data then None
                  else Some (Pop_data (qid t) (content x),
                    (assign q k (t\<lparr>data_count := data_count t - 1\<rparr>))
                      \<lparr>queue := tl (queue (assign q k (t\<lparr>data_count := data_count t - 1\<rparr>)))\<rparr>)))
           else if ity t = Deleted then do { q1 \<leftarrow> pop_tag q (qid t); Some (Pop_removed (qid t), q1) }
           else do { q1 \<leftarrow> pop_tag q (qid t); Some (Pop_error (qid t) (qerr t), q1) })
        })"

section \<open>The contract\<close>

text \<open>
  A queue is a list of streams; of each the id, the state of its tag, whether its start was already
  delivered, the error code, the final datum, the argument and the data waiting.
\<close>

record ('t, 'a) stream =
  sid :: int
  st :: item_type
  polled :: bool
  code :: nat
  fin :: "'t option"
  sarg :: "'a option"
  sdata :: "'t option list"

definition new_stream :: "int \<Rightarrow> ('t, 'a) stream" where
  "new_stream i = \<lparr>sid = i, st = Uncompleted, polled = False, code = 0, fin = None, sarg = None, sdata = []\<rparr>"

definition upd :: "int \<Rightarrow> (('t, 'a) stream \<Rightarrow> ('t, 'a) stream) \<Rightarrow> ('t, 'a) stream list \<Rightarrow> ('t, 'a) stream list" where
  "upd i f S = map (\<lambda>s. if sid s = i then f s else s) S"

definition sp_start :: "int \<Rightarrow> ('t, 'a) stream list \<Rightarrow> bool \<times> ('t, 'a) stream list" where
  "sp_start i S = (if i \<in> sid ` set S then (False, S) else (True, S @ [new_stream i]))"

definition sp_stream :: "int \<Rightarrow> 't option \<Rightarrow> ('t, 'a) stream list \<Rightarrow> bool \<times> ('t, 'a) stream list" where
  "sp_stream i d S =
     (if \<exists>s \<in> set S. sid s = i \<and> st s = Uncompleted then (True, upd i (\<lambda>s. s\<lparr>sdata := sdata s @ [d]\<rparr>) S)
      else (False, S))"

definition sp_end :: "int \<Rightarrow> 't option \<Rightarrow> ('t, 'a) stream list \<Rightarrow> bool \<times> ('t, 'a) stream list" where
  "sp_end i d S =
     (i \<in> sid ` set S, upd i (\<lambda>s. s\<lparr>st := Completed, fin := (if d \<noteq> None then d else fin s)\<rparr>) S)"

definition sp_set_arg :: "int \<Rightarrow> 'a option \<Rightarrow> ('t, 'a) stream list \<Rightarrow> ('t, 'a) stream list" where
  "sp_set_arg i a S = upd i (\<lambda>s. s\<lparr>sarg := a\<rparr>) S"

definition sp_get_arg :: "int \<Rightarrow> ('t, 'a) stream list \<Rightarrow> 'a option" where
  "sp_get_arg i S = (case find (\<lambda>s. sid s = i) S of None \<Rightarrow> None | Some s \<Rightarrow> sarg s)"

definition erased :: "nat \<Rightarrow> ('t, 'a) stream \<Rightarrow> ('t, 'a) stream" where
  "erased e s = s\<lparr>fin := None, sdata := [], st := (if e \<noteq> 0 then Error else Deleted),
     code := (if e \<noteq> 0 then e mod 65536 else code s)\<rparr>"

definition sp_erase :: "int \<Rightarrow> nat \<Rightarrow> ('t, 'a) stream list \<Rightarrow> bool \<times> ('t, 'a) stream list" where
  "sp_erase i e S = (i \<in> sid ` set S, upd i (erased e) S)"

definition sp_clear :: "('t, 'a) stream list \<Rightarrow> (int \<times> int) \<times> ('t, 'a) stream list" where
  "sp_clear S =
     ((if S = [] then (0, 0) else (sid (hd S), sid (last S))), map (\<lambda>s. s\<lparr>st := Deleted, fin := None, sdata := []\<rparr>) S)"

definition sp_available :: "('t, 'a) stream list \<Rightarrow> bool" where
  "sp_available S = (case S of [] \<Rightarrow> False | s # _ \<Rightarrow> st s \<noteq> Uncompleted \<or> \<not> polled s \<or> sdata s \<noteq> [])"

definition sp_pop :: "('t, 'a) stream list \<Rightarrow> 't pop_result \<times> ('t, 'a) stream list" where
  "sp_pop S =
     (case S of
        [] \<Rightarrow> (Pop_empty, [])
      | s # S' \<Rightarrow>
          if st s = Uncompleted \<or> st s = Completed then
            (if \<not> polled s then (Pop_start (sid s), s\<lparr>polled := True\<rparr> # S')
             else (case sdata s of
               d # ds \<Rightarrow> (Pop_data (sid s) d, s\<lparr>sdata := ds\<rparr> # S')
             | [] \<Rightarrow> if st s = Uncompleted then (Pop_empty, S) else (Pop_end (sid s) (fin s), S')))
          else if st s = Deleted then (Pop_removed (sid s), S')
          else (Pop_error (sid s) (code s), S'))"

section \<open>The representation\<close>

type_synonym ('t, 'a) nodes = "(nat \<times> ('t, 'a) qitem) list"
type_synonym ('t, 'a) layout = "(nat \<times> ('t, 'a) qitem \<times> ('t, 'a) nodes) list"

definition nodes_of :: "nat \<times> ('t, 'a) qitem \<times> ('t, 'a) nodes \<Rightarrow> ('t, 'a) nodes" where
  "nodes_of x = snd (snd x) @ [(fst x, fst (snd x))]"

definition flat :: "('t, 'a) layout \<Rightarrow> ('t, 'a) nodes" where
  "flat L = concat (map nodes_of L)"

definition stream_of :: "('t, 'a) qitem \<Rightarrow> 't option list \<Rightarrow> ('t, 'a) stream" where
  "stream_of t ds = \<lparr>sid = qid t, st = ity t, polled = polling t, code = qerr t, fin = content t, sarg = qarg t, sdata = ds\<rparr>"

definition streams_of_layout :: "('t, 'a) layout \<Rightarrow> ('t, 'a) stream list" where
  "streams_of_layout L = map (\<lambda>x. stream_of (fst (snd x)) (map (\<lambda>n. content (snd n)) (snd (snd x)))) L"

definition tag_of :: "nat \<times> ('t, 'a) qitem \<times> ('t, 'a) nodes \<Rightarrow> int \<times> nat" where
  "tag_of x = (qid (fst (snd x)), fst x)"

definition rep :: "('t, 'a) sq \<Rightarrow> ('t, 'a) layout \<Rightarrow> bool" where
  "rep q L \<longleftrightarrow> queue q = flat L \<and> tag_queue q = map fst L \<and> item_tags q = rev (map tag_of L)
     \<and> (\<forall>x \<in> set L. ity (fst (snd x)) \<noteq> Data \<and> (\<forall>n \<in> set (snd (snd x)). ity (snd n) = Data))
     \<and> distinct (map fst (flat L)) \<and> distinct (map (\<lambda>x. qid (fst (snd x))) L)
     \<and> (\<forall>n \<in> set (flat L). fst n < next_node q)
     \<and> (\<forall>x \<in> set L. ity (fst (snd x)) \<in> {Deleted, Error} \<longrightarrow> snd (snd x) = [])"

text \<open>The abstraction function reads the streams off the list of items.\<close>

fun split_streams :: "'t option list \<Rightarrow> ('t, 'a) nodes \<Rightarrow> ('t, 'a) stream list" where
  "split_streams ds [] = []"
| "split_streams ds ((k, x) # xs) =
     (if ity x = Data then split_streams (ds @ [content x]) xs else stream_of x ds # split_streams [] xs)"

definition streams :: "('t, 'a) sq \<Rightarrow> ('t, 'a) stream list" where
  "streams q = split_streams [] (queue q)"

definition sq_ok :: "('t, 'a) sq \<Rightarrow> bool" where
  "sq_ok q \<longleftrightarrow> (\<exists>L. rep q L)"

lemma flat_simps [simp]: "flat [] = []" "flat (x # L) = snd (snd x) @ (fst x, fst (snd x)) # flat L"
  "flat (L @ M) = flat L @ flat M"
  by (simp_all add: flat_def nodes_of_def)

lemma split_data:
  "\<forall>n \<in> set xs. ity (snd n) = Data \<Longrightarrow> split_streams ds (xs @ ys) = split_streams (ds @ map (\<lambda>n. content (snd n)) xs) ys"
  by (induction xs arbitrary: ds) auto

lemma streams_rep:
  assumes "rep q L"
  shows "streams q = streams_of_layout L"
proof -
  have "\<forall>x \<in> set L. ity (fst (snd x)) \<noteq> Data \<and> (\<forall>n \<in> set (snd (snd x)). ity (snd n) = Data)"
    using assms by (simp add: rep_def)
  then have "split_streams [] (flat L) = streams_of_layout L"
    by (induction L) (simp_all add: streams_of_layout_def split_data)
  then show ?thesis using assms by (simp add: streams_def rep_def)
qed

lemma repD:
  assumes "rep q L"
  shows "queue q = flat L" "tag_queue q = map fst L" "item_tags q = rev (map tag_of L)"
    "\<forall>x \<in> set L. ity (fst (snd x)) \<noteq> Data \<and> (\<forall>n \<in> set (snd (snd x)). ity (snd n) = Data)"
    "distinct (map fst (flat L))" "distinct (map (\<lambda>x. qid (fst (snd x))) L)"
    "\<forall>n \<in> set (flat L). fst n < next_node q"
    "\<forall>x \<in> set L. ity (fst (snd x)) \<in> {Deleted, Error} \<longrightarrow> snd (snd x) = []"
  using assms unfolding rep_def by blast+

lemma rep_empty: "rep sq_empty []"
  by (simp add: rep_def sq_empty_def)

lemma find_tag:
  assumes "rep q L"
  shows "(case map_of (item_tags q) i of
      None \<Rightarrow> i \<notin> sid ` set (streams q)
    | Some k \<Rightarrow> \<exists>L1 t ds L2. L = L1 @ (k, t, ds) # L2 \<and> qid t = i \<and> i \<notin> (\<lambda>x. qid (fst (snd x))) ` set (L1 @ L2))"
proof (cases "map_of (item_tags q) i")
  case None
  then have "i \<notin> fst ` set (map tag_of L)" using assms by (simp add: rep_def map_of_eq_None_iff)
  then show ?thesis using None by (auto simp: streams_rep [OF assms] streams_of_layout_def stream_of_def tag_of_def image_image)
next
  case (Some k)
  then have "(i, k) \<in> set (map tag_of L)" using assms by (auto simp: rep_def dest: map_of_SomeD)
  then obtain x where x: "x \<in> set L" "tag_of x = (i, k)" by auto
  obtain L1 L2 where L: "L = L1 @ x # L2" using split_list [OF x(1)] by blast
  obtain t ds where xt: "x = (k, t, ds)" "qid t = i" using x(2) by (cases x) (auto simp: tag_of_def)
  have "distinct (map (\<lambda>x. qid (fst (snd x))) L)" using assms by (simp add: rep_def)
  then have "i \<notin> (\<lambda>x. qid (fst (snd x))) ` set (L1 @ L2)" using L xt by auto
  then show ?thesis using Some L xt by auto
qed

lemma deref_rep:
  assumes "rep q (L1 @ (k, t, ds) # L2)"
  shows "deref q k = Some t"
proof -
  have "(k, t) \<in> set (queue q)" "distinct (map fst (queue q))" using assms by (simp_all add: rep_def)
  then show ?thesis by (simp add: deref_def)
qed

lemma map_other_keys: "k \<notin> fst ` set xs \<Longrightarrow> map (\<lambda>(j, y). (j, if j = k then x else y)) xs = xs"
  by (intro map_idI) force

lemma queue_assign:
  assumes "k \<notin> fst ` set xs" "k \<notin> fst ` set ys" "queue q = xs @ (k, t) # ys"
  shows "assign q k x = q\<lparr>queue := xs @ (k, x) # ys\<rparr>"
  using assms by (simp add: assign_def map_other_keys)

lemma upd_simps [simp]: "upd i f [] = []" "upd i f (s # S) = (if sid s = i then f s else s) # upd i f S"
  "upd i f (S @ T) = upd i f S @ upd i f T"
  by (simp_all add: upd_def)

lemma streams_of_layout_simps [simp]: "streams_of_layout [] = []"
  "streams_of_layout (x # L) = stream_of (fst (snd x)) (map (\<lambda>n. content (snd n)) (snd (snd x))) # streams_of_layout L"
  "streams_of_layout (L @ M) = streams_of_layout L @ streams_of_layout M"
  by (simp_all add: streams_of_layout_def)

lemma upd_layout:
  assumes "i \<notin> (\<lambda>x. qid (fst (snd x))) ` set (L1 @ L2)" "qid t = i"
  shows "upd i f (streams_of_layout (L1 @ (k, t, ds) # L2))
           = streams_of_layout L1 @ f (stream_of t (map (\<lambda>n. content (snd n)) ds)) # streams_of_layout L2"
proof -
  have "upd i f (streams_of_layout M) = streams_of_layout M"
    if "i \<notin> (\<lambda>x. qid (fst (snd x))) ` set M" for M
    using that by (induction M) (auto simp: stream_of_def)
  from this [of L1] this [of L2] show ?thesis using assms by (simp add: stream_of_def image_Un)
qed

text \<open>Replacing the tag and the data of one stream keeps the representation.\<close>

lemma rep_replace:
  assumes "rep q (L1 @ (k, t, ds) # L2)" "qid t' = qid t" "ity t' \<noteq> Data"
    and "\<forall>n \<in> set ds'. ity (snd n) = Data" "distinct (map fst ds')"
    and "\<forall>n \<in> set ds'. fst n \<notin> insert k (fst ` set (flat (L1 @ L2))) \<and> fst n < next_node q'"
    and "queue q' = flat (L1 @ (k, t', ds') # L2)" "tag_queue q' = tag_queue q" "item_tags q' = item_tags q"
    and "next_node q \<le> next_node q'" "ity t' \<in> {Deleted, Error} \<longrightarrow> ds' = []"
  shows "rep q' (L1 @ (k, t', ds') # L2)"
proof -
  have old: "distinct (map fst (flat (L1 @ (k, t, ds) # L2)))"
    "\<forall>n \<in> set (flat (L1 @ (k, t, ds) # L2)). fst n < next_node q"
    "\<forall>x \<in> set (L1 @ (k, t, ds) # L2). ity (fst (snd x)) \<noteq> Data \<and> (\<forall>n \<in> set (snd (snd x)). ity (snd n) = Data)"
    "distinct (map (\<lambda>x. qid (fst (snd x))) (L1 @ (k, t, ds) # L2))"
    "tag_queue q = map fst (L1 @ (k, t, ds) # L2)" "item_tags q = rev (map tag_of (L1 @ (k, t, ds) # L2))"
    "\<forall>x \<in> set (L1 @ (k, t, ds) # L2). ity (fst (snd x)) \<in> {Deleted, Error} \<longrightarrow> snd (snd x) = []"
    by (rule repD [OF assms(1)])+
  define A B where "A = fst ` set (flat L1)" and "B = fst ` set (flat L2)"
  have sep: "k \<notin> fst ` set ds'" "A \<inter> fst ` set ds' = {}" "B \<inter> fst ` set ds' = {}"
  proof -
    have n: "fst n \<notin> insert k (A \<union> B)" if "n \<in> set ds'" for n
      using assms(6) that unfolding A_def B_def by (simp add: image_Un)
    show "k \<notin> fst ` set ds'" "A \<inter> fst ` set ds' = {}" "B \<inter> fst ` set ds' = {}" using n by blast+
  qed
  have "distinct (map fst (flat (L1 @ (k, t', ds') # L2)))"
    using old(1) assms(5) sep by (simp add: A_def [symmetric] B_def [symmetric] Int_Un_distrib Int_commute)
  moreover have "\<forall>n \<in> set (flat (L1 @ (k, t', ds') # L2)). fst n < next_node q'"
  proof
    fix n assume "n \<in> set (flat (L1 @ (k, t', ds') # L2))"
    then consider "fst n \<in> fst ` set (flat (L1 @ (k, t, ds) # L2))" | "n \<in> set ds'" by auto
    then show "fst n < next_node q'"
    proof cases
      case 1
      then obtain m where "m \<in> set (flat (L1 @ (k, t, ds) # L2))" "fst n = fst m" by blast
      then have "fst n < next_node q" using old(2) by metis
      then show ?thesis using assms(10) by simp
    next
      case 2
      then show ?thesis using assms(6) by blast
    qed
  qed
  moreover have "\<forall>x \<in> set (L1 @ (k, t', ds') # L2). ity (fst (snd x)) \<noteq> Data \<and> (\<forall>n \<in> set (snd (snd x)). ity (snd n) = Data)"
    using old(3) assms(3,4) by (simp add: ball_Un)
  moreover have "distinct (map (\<lambda>x. qid (fst (snd x))) (L1 @ (k, t', ds') # L2))" using old(4) assms(2) by simp
  moreover have "\<forall>x \<in> set (L1 @ (k, t', ds') # L2). ity (fst (snd x)) \<in> {Deleted, Error} \<longrightarrow> snd (snd x) = []"
    using old(7) assms(11) by (simp add: ball_Un)
  ultimately show ?thesis using old(5,6) assms(2,7-9) by (simp add: rep_def tag_of_def)
qed

lemma rep_keys:
  assumes "rep q (L1 @ (k, t, ds) # L2)"
  shows "k \<notin> fst ` set (flat L1)" "k \<notin> fst ` set ds" "k \<notin> fst ` set (flat L2)" "distinct (map fst ds)"
    "fst ` set ds \<inter> fst ` set (flat L1) = {}" "fst ` set ds \<inter> fst ` set (flat L2) = {}"
    "queue q = (flat L1 @ ds) @ (k, t) # flat L2" "k < next_node q" "\<forall>n \<in> set ds. fst n < next_node q"
    "ity t \<noteq> Data" "\<forall>n \<in> set ds. ity (snd n) = Data" "ity t \<in> {Deleted, Error} \<longrightarrow> ds = []"
  using repD(5) [OF assms] repD(1,4,7,8) [OF assms] by (auto simp: Int_commute)

lemma rep_update_tag:
  assumes "rep q (L1 @ (k, t, ds) # L2)" "qid t' = qid t" "ity t' \<noteq> Data"
    and "ity t' \<in> {Deleted, Error} \<longrightarrow> ds = []"
  shows "rep (assign q k t') (L1 @ (k, t', ds) # L2)"
proof -
  note k = rep_keys [OF assms(1)]
  have a: "assign q k t' = q\<lparr>queue := (flat L1 @ ds) @ (k, t') # flat L2\<rparr>"
    by (rule queue_assign [OF _ k(3,7)]) (use k(1,2) in auto)
  have "\<forall>n \<in> set ds. fst n \<notin> insert k (fst ` set (flat (L1 @ L2))) \<and> fst n < next_node q"
    using k(2,5,6,9) by (auto simp: disjoint_iff)
  then show ?thesis unfolding a
    by (intro rep_replace [OF assms(1-3)]) (use k(4,11) assms(4) in simp_all)
qed

text \<open>An operation of the queue implements an operation on lists of streams.\<close>

definition simulates ::
  "(('t, 'a) sq \<Rightarrow> ('r \<times> ('t, 'a) sq) c) \<Rightarrow> (('t, 'a) stream list \<Rightarrow> 'r \<times> ('t, 'a) stream list) \<Rightarrow> bool" where
  "simulates f g \<longleftrightarrow> (\<forall>q. sq_ok q \<longrightarrow>
     (\<exists>q'. f q = Some (fst (g (streams q)), q') \<and> sq_ok q' \<and> streams q' = snd (g (streams q))))"

lemma simulatesI:
  assumes "\<And>q L. rep q L \<Longrightarrow> \<exists>q' L'. f q = Some (fst (g (streams_of_layout L)), q') \<and> rep q' L'
             \<and> streams_of_layout L' = snd (g (streams_of_layout L))"
  shows "simulates f g"
  using assms unfolding simulates_def sq_ok_def by (metis streams_rep)

lemma simulates_start: "simulates (sq_start i) (sp_start i)"
proof (rule simulatesI)
  fix q :: "('a, 'b) sq" and L assume r: "rep q L"
  note s = streams_rep [OF r]
  let ?C = "\<lambda>q' L'. sq_start i q = Some (fst (sp_start i (streams_of_layout L)), q') \<and> rep q' L'
     \<and> streams_of_layout L' = snd (sp_start i (streams_of_layout L))"
  show "\<exists>q' L'. ?C q' L'"
  proof (cases "map_of (item_tags q) i")
    case None
    then have ni: "i \<notin> sid ` set (streams_of_layout L)" using find_tag [OF r, of i] s by simp
    let ?k = "next_node q" let ?t = "new_item Uncompleted i None :: ('a, 'b) qitem"
    let ?q = "q\<lparr>queue := queue q @ [(?k, ?t)], item_tags := (i, ?k) # item_tags q, tag_queue := tag_queue q @ [?k],
      next_node := ?k + 1\<rparr>"
    have "i \<notin> (\<lambda>x. qid (fst (snd x))) ` set L" using ni by (simp add: streams_of_layout_def stream_of_def image_image)
    moreover have "?k \<notin> fst ` set (flat L)" using repD(7) [OF r] by force
    moreover have "\<forall>n \<in> set (flat L). fst n < Suc ?k" using repD(7) [OF r] by (simp add: less_SucI)
    ultimately have "rep ?q (L @ [(?k, ?t, [])])"
      using repD [OF r] by (simp add: rep_def new_item_def tag_of_def)
    moreover have "streams_of_layout (L @ [(?k, ?t, [])]) = snd (sp_start i (streams_of_layout L))"
      using ni by (simp add: sp_start_def stream_of_def new_item_def new_stream_def)
    ultimately have "?C ?q (L @ [(?k, ?t, [])])" using None ni by (simp add: sq_start_def Let_def sp_start_def)
    then show ?thesis by blast
  next
    case (Some k)
    then have "i \<in> sid ` set (streams_of_layout L)"
      using find_tag [OF r, of i] by (auto simp: stream_of_def)
    then have "?C q L" using Some r by (simp add: sq_start_def sp_start_def)
    then show ?thesis by blast
  qed
qed

lemma insert_before_key:
  "k \<notin> fst ` set xs \<Longrightarrow> insert_before k n (xs @ (k, t) # ys) = xs @ n # (k, t) # ys"
  by (induction xs) auto

lemma simulates_stream: "simulates (sq_stream i d) (sp_stream i d)"
proof (rule simulatesI)
  fix q :: "('a, 'b) sq" and L assume r: "rep q L"
  note s = streams_rep [OF r]
  let ?C = "\<lambda>q' L'. sq_stream i d q = Some (fst (sp_stream i d (streams_of_layout L)), q') \<and> rep q' L'
     \<and> streams_of_layout L' = snd (sp_stream i d (streams_of_layout L))"
  show "\<exists>q' L'. ?C q' L'"
  proof (cases "map_of (item_tags q) i")
    case None
    then have "i \<notin> sid ` set (streams_of_layout L)" using find_tag [OF r, of i] s by simp
    then have "\<not> (\<exists>x \<in> set (streams_of_layout L). sid x = i \<and> st x = Uncompleted)" by auto
    then have "?C q L" using None r by (simp only: sq_stream_def sp_stream_def option.case if_False) simp
    then show ?thesis by blast
  next
    case (Some k)
    then obtain L1 t ds L2 where L: "L = L1 @ (k, t, ds) # L2" "qid t = i"
      "i \<notin> (\<lambda>x. qid (fst (snd x))) ` set (L1 @ L2)"
      using find_tag [OF r, of i] by auto
    note r' = r [unfolded L(1)] and k = rep_keys [OF r [unfolded L(1)]]
    have only: "(\<exists>x \<in> set (streams_of_layout L). sid x = i \<and> st x = Uncompleted) \<longleftrightarrow> ity t = Uncompleted"
    proof -
      have "\<forall>x \<in> set (streams_of_layout (L1 @ L2)). sid x \<noteq> i"
        using L(3) by (force simp: streams_of_layout_def stream_of_def)
      then show ?thesis using L(1,2) by (simp add: ball_Un stream_of_def) blast
    qed
    show ?thesis
    proof (cases "ity t = Uncompleted")
      case False
      then have "?C q L" using Some r only deref_rep [OF r'] by (simp add: sq_stream_def sp_stream_def)
      then show ?thesis by blast
    next
      case True
      let ?n = "(next_node q, new_item Data 0 d :: ('a, 'b) qitem)"
      let ?q1 = "q\<lparr>queue := insert_before k ?n (queue q), next_node := next_node q + 1\<rparr>"
      let ?t = "t\<lparr>data_count := data_count t + 1\<rparr>"
      have fr: "next_node q \<notin> fst ` set (flat L)" using repD(7) [OF r] by force
      have ib: "insert_before k ?n (queue q) = flat (L1 @ (k, t, ds @ [?n]) # L2)"
        unfolding k(7) by (subst insert_before_key) (use k(1,2) in auto)
      have r1: "rep ?q1 (L1 @ (k, t, ds @ [?n]) # L2)"
      proof (rule rep_replace [OF r' refl k(10)])
        show "\<forall>n \<in> set (ds @ [?n]). ity (snd n) = Data" using k(11) by (simp add: new_item_def)
        show "distinct (map fst (ds @ [?n]))" using k(4) fr L by auto
        show "\<forall>n \<in> set (ds @ [?n]). fst n \<notin> insert k (fst ` set (flat (L1 @ L2))) \<and> fst n < next_node ?q1"
          using k(2,5,6,9) fr L by (auto simp: disjoint_iff less_SucI)
      qed (use ib True in simp_all)
      have r2: "rep (assign ?q1 k ?t) (L1 @ (k, ?t, ds @ [?n]) # L2)"
        by (rule rep_update_tag [OF r1]) (use True in simp_all)
      have "streams_of_layout (L1 @ (k, ?t, ds @ [?n]) # L2) = upd i (\<lambda>s. s\<lparr>sdata := sdata s @ [d]\<rparr>) (streams_of_layout L)"
        unfolding L(1) upd_layout [OF L(3,2)] by (simp add: stream_of_def new_item_def)
      then have "?C (assign ?q1 k ?t) (L1 @ (k, ?t, ds @ [?n]) # L2)"
        using Some True only r2 deref_rep [OF r'] by (simp add: sq_stream_def sp_stream_def Let_def)
      then show ?thesis by blast
    qed
  qed
qed

text \<open>The operations that change the tag of one stream.\<close>

lemma simulates_tag_update:
  assumes ok: "\<And>t. qid (f t) = qid t \<and> (ity t \<noteq> Data \<longrightarrow> ity (f t) \<noteq> Data)
      \<and> (ity (f t) \<in> {Deleted, Error} \<longrightarrow> ity t \<in> {Deleted, Error})"
    and eq: "\<And>t ds. stream_of (f t) ds = g (stream_of t ds)"
    and run: "\<And>q. op q = (case map_of (item_tags q) i of None \<Rightarrow> Some (False, q)
        | Some k \<Rightarrow> do { t \<leftarrow> deref q k; Some (True, assign q k (f t)) })"
  shows "simulates op (\<lambda>S. (i \<in> sid ` set S, upd i g S))"
proof (rule simulatesI)
  fix q :: "('a, 'b) sq" and L assume r: "rep q L"
  note s = streams_rep [OF r]
  let ?g = "\<lambda>S. (i \<in> sid ` set S, upd i g S)"
  let ?C = "\<lambda>q' L'. op q = Some (fst (?g (streams_of_layout L)), q') \<and> rep q' L'
     \<and> streams_of_layout L' = snd (?g (streams_of_layout L))"
  show "\<exists>q' L'. ?C q' L'"
  proof (cases "map_of (item_tags q) i")
    case None
    then have ni: "i \<notin> sid ` set (streams_of_layout L)" using find_tag [OF r, of i] s by simp
    then have "upd i g (streams_of_layout L) = streams_of_layout L" by (auto simp: upd_def intro!: map_idI)
    then have "?C q L" using None r ni by (simp add: run)
    then show ?thesis by blast
  next
    case (Some k)
    then obtain L1 t ds L2 where L: "L = L1 @ (k, t, ds) # L2" "qid t = i"
      "i \<notin> (\<lambda>x. qid (fst (snd x))) ` set (L1 @ L2)"
      using find_tag [OF r, of i] by auto
    note r' = r [unfolded L(1)]
    have "rep (assign q k (f t)) (L1 @ (k, f t, ds) # L2)"
      by (rule rep_update_tag [OF r']) (use ok rep_keys(10,12) [OF r'] in blast)+
    moreover have "upd i g (streams_of_layout L) = streams_of_layout (L1 @ (k, f t, ds) # L2)"
      unfolding L(1) upd_layout [OF L(3,2)] by (simp add: eq)
    moreover have "i \<in> sid ` set (streams_of_layout L)" using L by (simp add: stream_of_def)
    ultimately have "?C (assign q k (f t)) (L1 @ (k, f t, ds) # L2)" using Some deref_rep [OF r'] by (simp add: run)
    then show ?thesis by blast
  qed
qed

lemma simulates_end: "simulates (sq_end i d) (sp_end i d)"
proof -
  let ?f = "\<lambda>t. t\<lparr>ity := Completed, content := (if d \<noteq> None then d else content t)\<rparr>"
  have "simulates (sq_end i d) (\<lambda>S. (i \<in> sid ` set S, upd i (\<lambda>s. s\<lparr>st := Completed, fin := (if d \<noteq> None then d else fin s)\<rparr>) S))"
    by (rule simulates_tag_update [of ?f]) (simp_all add: stream_of_def sq_end_def)
  then show ?thesis by (simp add: sp_end_def [abs_def])
qed

lemma set_arg_ok:
  assumes "sq_ok q"
  shows "\<exists>q'. sq_set_arg i a q = Some q' \<and> sq_ok q' \<and> streams q' = sp_set_arg i a (streams q)"
proof -
  let ?op = "\<lambda>q. case map_of (item_tags q) i of None \<Rightarrow> Some (False, q)
        | Some k \<Rightarrow> do { t \<leftarrow> deref q k; Some (True, assign q k (t\<lparr>qarg := a\<rparr>)) }"
  have "simulates ?op (\<lambda>S. (i \<in> sid ` set S, upd i (\<lambda>s. s\<lparr>sarg := a\<rparr>) S))"
    by (rule simulates_tag_update [of "\<lambda>t. t\<lparr>qarg := a\<rparr>"]) (simp_all add: stream_of_def)
  moreover have "sq_set_arg i a q = map_option snd (?op q)"
    by (simp add: sq_set_arg_def split: option.split bind_splits)
  ultimately show ?thesis using assms by (fastforce simp: simulates_def sp_set_arg_def)
qed

lemma get_arg_ok:
  assumes "sq_ok q"
  shows "sq_get_arg i q = Some (sp_get_arg i (streams q))"
proof -
  obtain L where r: "rep q L" using assms by (auto simp: sq_ok_def)
  show ?thesis
  proof (cases "map_of (item_tags q) i")
    case None
    then have "find (\<lambda>s. sid s = i) (streams q) = None" using find_tag [OF r, of i] by (auto simp: find_None_iff)
    then show ?thesis using None by (simp add: sq_get_arg_def sp_get_arg_def)
  next
    case (Some k)
    then obtain L1 t ds L2 where L: "L = L1 @ (k, t, ds) # L2" "qid t = i"
      "i \<notin> (\<lambda>x. qid (fst (snd x))) ` set (L1 @ L2)"
      using find_tag [OF r, of i] by auto
    have "find (\<lambda>s. sid s = i) (streams_of_layout M @ xs) = find (\<lambda>s. sid s = i) xs"
      if "i \<notin> (\<lambda>x. qid (fst (snd x))) ` set M" for M xs
      using that by (induction M) (auto simp: stream_of_def)
    from this [of L1] have "find (\<lambda>s. sid s = i) (streams q) = Some (stream_of t (map (\<lambda>n. content (snd n)) ds))"
      using L by (simp add: streams_rep [OF r] image_Un) (simp add: stream_of_def)
    then show ?thesis using Some deref_rep [OF r [unfolded L(1)]]
      by (simp add: sq_get_arg_def sp_get_arg_def stream_of_def)
  qed
qed

text \<open>The run of data in front of a tag ends at the tag before it.\<close>

lemma run_before_tag:
  assumes "rep q (L1 @ (k, t, ds) # L2)"
  shows "takeWhile (\<lambda>(_, y). ity y = Data) (rev (flat L1 @ ds)) = rev ds"
    "dropWhile (\<lambda>(_, y). ity y = Data) (rev (flat L1 @ ds)) = rev (flat L1)"
proof -
  have all: "\<forall>x \<in> set (rev ds). (\<lambda>(_, y). ity y = Data) x" using rep_keys(11) [OF assms] by auto
  have "takeWhile (\<lambda>(_, y). ity y = Data) (rev (flat L1)) = []
      \<and> dropWhile (\<lambda>(_, y). ity y = Data) (rev (flat L1)) = rev (flat L1)"
  proof (cases L1 rule: rev_cases)
    case (snoc M x)
    have "ity (fst (snd x)) \<noteq> Data" using repD(4) [OF assms] snoc by auto
    then show ?thesis using snoc by simp
  qed simp
  then show "takeWhile (\<lambda>(_, y). ity y = Data) (rev (flat L1 @ ds)) = rev ds"
    "dropWhile (\<lambda>(_, y). ity y = Data) (rev (flat L1 @ ds)) = rev (flat L1)"
    using all takeWhile_append2 [of "rev ds" "\<lambda>(_, y). ity y = Data" "rev (flat L1)"]
      dropWhile_append2 [of "rev ds" "\<lambda>(_, y). ity y = Data" "rev (flat L1)"]
    by (simp_all only: rev_append append_Nil2 simp_thms)
qed

lemma simulates_erase: "simulates (sq_erase i e) (sp_erase i e)"
proof (rule simulatesI)
  fix q :: "('a, 'b) sq" and L assume r: "rep q L"
  note s = streams_rep [OF r]
  let ?C = "\<lambda>q' L'. sq_erase i e q = Some (fst (sp_erase i e (streams_of_layout L)), q') \<and> rep q' L'
     \<and> streams_of_layout L' = snd (sp_erase i e (streams_of_layout L))"
  show "\<exists>q' L'. ?C q' L'"
  proof (cases "map_of (item_tags q) i")
    case None
    then have ni: "i \<notin> sid ` set (streams_of_layout L)" using find_tag [OF r, of i] s by simp
    then have "upd i (erased e) (streams_of_layout L) = streams_of_layout L" by (auto simp: upd_def intro!: map_idI)
    then have "?C q L" using None r ni by (simp add: sq_erase_def sp_erase_def)
    then show ?thesis by blast
  next
    case (Some k)
    then obtain L1 t ds L2 where L: "L = L1 @ (k, t, ds) # L2" "qid t = i"
      "i \<notin> (\<lambda>x. qid (fst (snd x))) ` set (L1 @ L2)"
      using find_tag [OF r, of i] by auto
    note r' = r [unfolded L(1)]
    note k = rep_keys [OF r']
    have "\<forall>x \<in> set (flat L1 @ ds). (\<lambda>(j, _). j \<noteq> k) x" using k(1,2) by force
    then have front: "takeWhile (\<lambda>(j, _). j \<noteq> k) (queue q) = flat L1 @ ds"
      unfolding k(7) by (subst takeWhile_append2) auto
    have rest: "drop (length (flat L1 @ ds)) (queue q) = (k, t) # flat L2" unfolding k(7) by simp
    let ?q1 = "q\<lparr>queue := flat L1 @ (k, t) # flat L2\<rparr>"
    have r1: "rep ?q1 (L1 @ (k, t, []) # L2)"
      by (rule rep_replace [OF r' refl k(10)]) (use k(12) in simp_all)
    define t1 where "t1 = (if e \<noteq> 0 then t\<lparr>content := None, ity := Error, qerr := e mod 65536\<rparr>
                           else t\<lparr>content := None, ity := Deleted\<rparr>)"
    define t2 where "t2 = (if rev ds \<noteq> [] then t1\<lparr>data_count := data_count t1 - of_nat (length (rev ds))\<rparr> else t1)"
    have t2: "qid t2 = qid t" "ity t2 \<noteq> Data" "stream_of t2 [] = erased e (stream_of t ds')" for ds'
      by (simp_all add: t1_def t2_def stream_of_def erased_def)
    have run: "sq_erase i e q = Some (True, assign ?q1 k t2)"
      using Some deref_rep [OF r'] L(2) k(10) front rest run_before_tag [OF r']
      by (simp add: sq_erase_def Let_def t1_def t2_def del: rev_append)
    have "rep (assign ?q1 k t2) (L1 @ (k, t2, []) # L2)" by (rule rep_update_tag [OF r1 t2(1,2)]) simp
    moreover have "streams_of_layout (L1 @ (k, t2, []) # L2) = upd i (erased e) (streams_of_layout L)"
      unfolding L(1) upd_layout [OF L(3,2)] by (simp add: t2(3) [symmetric])
    moreover have "i \<in> sid ` set (streams_of_layout L)" using L by (simp add: stream_of_def)
    ultimately have "?C (assign ?q1 k t2) (L1 @ (k, t2, []) # L2)" using run by (simp add: sp_erase_def)
    then show ?thesis by blast
  qed
qed

fun clear_layout :: "u32 \<Rightarrow> ('t, 'a) layout \<Rightarrow> ('t, 'a) layout" where
  "clear_layout cnt [] = []"
| "clear_layout cnt ((k, t, ds) # L) =
     (let c1 = cnt + of_nat (length ds) in
      (k, t\<lparr>ity := Deleted, content := None, data_count := data_count t - c1\<rparr>, []) # clear_layout c1 L)"

lemma clear_items_data:
  "\<forall>n \<in> set xs. ity (snd n) = Data \<Longrightarrow> clear_items cnt (xs @ ys) = clear_items (cnt + of_nat (length xs)) ys"
  by (induction xs arbitrary: cnt) (auto simp: ac_simps)

lemma clear_items_flat:
  "\<forall>x \<in> set L. ity (fst (snd x)) \<noteq> Data \<and> (\<forall>n \<in> set (snd (snd x)). ity (snd n) = Data) \<Longrightarrow>
     clear_items cnt (flat L) = flat (clear_layout cnt L)"
  by (induction L arbitrary: cnt) (auto simp: clear_items_data Let_def)

lemma clear_layout_simps:
  "map fst (clear_layout cnt L) = map fst L" "map tag_of (clear_layout cnt L) = map tag_of L"
  "map (\<lambda>x. qid (fst (snd x))) (clear_layout cnt L) = map (\<lambda>x. qid (fst (snd x))) L"
  "map fst (flat (clear_layout cnt L)) = map fst L"
  "\<forall>x \<in> set (clear_layout cnt L). ity (fst (snd x)) \<noteq> Data \<and> snd (snd x) = []"
  "streams_of_layout (clear_layout cnt L) = map (\<lambda>s. s\<lparr>st := Deleted, fin := None, sdata := []\<rparr>) (streams_of_layout L)"
  by (induction cnt L rule: clear_layout.induct; simp add: tag_of_def Let_def stream_of_def)+

lemma distinct_flat_keys: "distinct (map fst (flat L)) \<Longrightarrow> distinct (map fst L)"
proof (induction L)
  case (Cons x L)
  have "fst ` set L \<subseteq> fst ` set (flat L)" by (induction L) auto
  then show ?case using Cons by auto
qed simp

lemma simulates_clear: "simulates sq_clear sp_clear"
proof (rule simulatesI)
  fix q :: "('a, 'b) sq" and L assume r: "rep q L"
  let ?C = "\<lambda>q' L'. sq_clear q = Some (fst (sp_clear (streams_of_layout L)), q') \<and> rep q' L'
     \<and> streams_of_layout L' = snd (sp_clear (streams_of_layout L))"
  let ?q = "q\<lparr>queue := clear_items 0 (queue q)\<rparr>" let ?L = "clear_layout 0 L"
  have cl: "clear_items 0 (queue q) = flat ?L" using clear_items_flat [OF repD(4) [OF r]] repD(1) [OF r] by simp
  have keys: "fst ` set L \<subseteq> fst ` set (flat L)" by (induction L) auto
  have "\<forall>n \<in> set (flat ?L). fst n < next_node q"
  proof
    fix n assume "n \<in> set (flat ?L)"
    then have "fst n \<in> set (map fst (flat ?L))" by simp
    then have "fst n \<in> fst ` set (flat L)" using keys unfolding clear_layout_simps(4) by auto
    then obtain m where "m \<in> set (flat L)" "fst n = fst m" by blast
    then show "fst n < next_node q" using repD(7) [OF r] by metis
  qed
  then have "rep ?q ?L"
    using repD [OF r] cl clear_layout_simps [of 0 L] distinct_flat_keys [OF repD(5) [OF r]]
    by (simp add: rep_def)
  moreover have "(if tag_queue q = [] then Some (0, 0)
      else do { f \<leftarrow> deref q (hd (tag_queue q)); l \<leftarrow> deref q (last (tag_queue q)); Some (qid f, qid l) })
     = Some (if streams_of_layout L = [] then (0, 0) else (sid (hd (streams_of_layout L)), sid (last (streams_of_layout L))))"
  proof (cases "L = []")
    case False
    then obtain k t ds M where a: "L = [] @ (k, t, ds) # M" by (cases L) auto
    obtain N k' t' ds' where b: "L = N @ (k', t', ds') # []" using False by (cases L rule: rev_cases) auto
    have "deref q (hd (tag_queue q)) = Some t" using deref_rep [OF r [unfolded a]] repD(2) [OF r] a by simp
    moreover have "deref q (last (tag_queue q)) = Some t'" using deref_rep [OF r [unfolded b]] repD(2) [OF r] b by simp
    moreover have "tag_queue q \<noteq> []" using repD(2) [OF r] a by simp
    moreover have "streams_of_layout L \<noteq> []" using a by simp
    moreover have "sid (hd (streams_of_layout L)) = qid t" using a by (simp add: stream_of_def)
    moreover have "sid (last (streams_of_layout L)) = qid t'" using b by (simp add: stream_of_def)
    ultimately show ?thesis by simp
  qed (use repD(2) [OF r] in simp)
  ultimately have "?C ?q ?L" by (simp add: sq_clear_def sp_clear_def clear_layout_simps(6) del: clear_layout.simps)
  then show "\<exists>q' L'. ?C q' L'" by blast
qed

lemma at_begin_rep:
  assumes "rep q ([] @ (k, t, ds) # L2)"
  shows "at_begin q k \<longleftrightarrow> ds = []"
  using rep_keys(2,7) [OF assms] by (cases ds) (auto simp: at_begin_def)

lemma rep_pop_tag:
  assumes "rep q ([] @ (k, t, []) # L2)"
  shows "\<exists>q'. pop_tag q (qid t) = Some q' \<and> rep q' L2"
proof -
  note r = repD [OF assms]
  have "qid t \<notin> fst ` set (map tag_of L2)" using r(6) by (simp add: tag_of_def image_image)
  then have "filter (\<lambda>(j, _). j \<noteq> qid t) (rev (map tag_of L2)) = rev (map tag_of L2)"
    by (force simp: filter_id_conv)
  then show ?thesis using r by (auto simp: pop_tag_def rep_def tag_of_def)
qed

lemma rep_pop_data:
  assumes "rep q ([] @ (k, t, d # ds) # L2)" "qid t' = qid t" "ity t' \<notin> {Data, Deleted, Error}"
  shows "rep ((assign q k t')\<lparr>queue := tl (queue (assign q k t'))\<rparr>) ([] @ (k, t', ds) # L2)"
proof -
  have r: "rep (assign q k t') ([] @ (k, t', d # ds) # L2)" by (rule rep_update_tag [OF assms(1,2)]) (use assms(3) in auto)
  note k = rep_keys [OF r]
  show ?thesis
    by (rule rep_replace [OF r refl k(10)]) (use k assms(3) in \<open>auto simp: disjoint_iff\<close>)
qed

lemma simulates_pop: "simulates sq_pop sp_pop"
proof (rule simulatesI)
  fix q :: "('a, 'b) sq" and L assume r: "rep q L"
  let ?C = "\<lambda>q' L'. sq_pop q = Some (fst (sp_pop (streams_of_layout L)), q') \<and> rep q' L'
     \<and> streams_of_layout L' = snd (sp_pop (streams_of_layout L))"
  show "\<exists>q' L'. ?C q' L'"
  proof (cases L)
    case Nil
    then have "?C q L" using r repD(2) [OF r] by (simp add: sq_pop_def sp_pop_def)
    then show ?thesis by blast
  next
    case (Cons x L2)
    obtain k t ds where x: "x = (k, t, ds)" by (cases x)
    have L: "L = [] @ (k, t, ds) # L2" using Cons x by simp
    note r' = r [unfolded L]
    note k = rep_keys [OF r']
    have tq: "tag_queue q = k # map fst L2" using repD(2) [OF r'] by simp
    have run: "sq_pop q = (if ity t = Uncompleted \<or> ity t = Completed then
             (if \<not> polling t then Some (Pop_start (qid t), assign q k (t\<lparr>polling := True\<rparr>))
              else if ds = [] then
                (if ity t = Uncompleted then Some (Pop_empty, q)
                 else do { q1 \<leftarrow> pop_tag q (qid t); Some (Pop_end (qid t) (content t), q1) })
              else (case queue q of
                [] \<Rightarrow> None
              | (_, x) # xs \<Rightarrow>
                  if ity x \<noteq> Data then None
                  else Some (Pop_data (qid t) (content x),
                    (assign q k (t\<lparr>data_count := data_count t - 1\<rparr>))
                      \<lparr>queue := tl (queue (assign q k (t\<lparr>data_count := data_count t - 1\<rparr>)))\<rparr>)))
           else if ity t = Deleted then do { q1 \<leftarrow> pop_tag q (qid t); Some (Pop_removed (qid t), q1) }
           else do { q1 \<leftarrow> pop_tag q (qid t); Some (Pop_error (qid t) (qerr t), q1) })"
      using k(10) deref_rep [OF r'] at_begin_rep [OF r'] by (simp add: sq_pop_def tq)
    have sp: "streams_of_layout L = stream_of t (map (\<lambda>n. content (snd n)) ds) # streams_of_layout L2"
      using L by simp
    consider "ity t \<in> {Uncompleted, Completed}" "\<not> polling t"
      | "ity t = Uncompleted" "polling t" "ds = []"
      | "ity t = Completed" "polling t" "ds = []"
      | d es where "ity t \<in> {Uncompleted, Completed}" "polling t" "ds = d # es"
      | "ity t \<in> {Deleted, Error}" using k(10) by (cases "ity t"; cases ds) auto
    then show ?thesis
    proof cases
      case 1
      have "rep (assign q k (t\<lparr>polling := True\<rparr>)) ([] @ (k, t\<lparr>polling := True\<rparr>, ds) # L2)"
        by (rule rep_update_tag [OF r']) (use k(10,12) in auto)
      then have "?C (assign q k (t\<lparr>polling := True\<rparr>)) ([] @ (k, t\<lparr>polling := True\<rparr>, ds) # L2)"
        using 1 run sp by (auto simp: sp_pop_def stream_of_def)
      then show ?thesis by blast
    next
      case 2
      then have "?C q L" using run sp r by (simp add: sp_pop_def stream_of_def)
      then show ?thesis by blast
    next
      case 3
      then obtain q' where "pop_tag q (qid t) = Some q'" "rep q' L2" using rep_pop_tag r' by blast
      then have "?C q' L2" using 3 run sp by (simp add: sp_pop_def stream_of_def)
      then show ?thesis by blast
    next
      case 4
      let ?t = "t\<lparr>data_count := data_count t - 1\<rparr>"
      have r1: "rep ((assign q k ?t)\<lparr>queue := tl (queue (assign q k ?t))\<rparr>) ([] @ (k, ?t, es) # L2)"
        by (rule rep_pop_data [OF r' [unfolded 4(3)]]) (use 4(1) in auto)
      obtain j y where d: "d = (j, y)" by (cases d)
      have "queue q = (j, y) # es @ (k, t) # flat L2" "ity y = Data" using k(7,11) 4(3) d by auto
      then have "?C ((assign q k ?t)\<lparr>queue := tl (queue (assign q k ?t))\<rparr>) ([] @ (k, ?t, es) # L2)"
        using 4 run sp r1 d by (auto simp: sp_pop_def stream_of_def)
      then show ?thesis by blast
    next
      case 5
      then have "ds = []" using k(12) by simp
      then obtain q' where "pop_tag q (qid t) = Some q'" "rep q' L2" using rep_pop_tag r' by blast
      then have "?C q' L2" using 5 run sp by (auto simp: sp_pop_def stream_of_def)
      then show ?thesis by blast
    qed
  qed
qed

section \<open>The queue under any sequence of calls\<close>

lemma available_ok:
  assumes "sq_ok q"
  shows "sq_available q = Some (sp_available (streams q))"
proof -
  obtain L where r: "rep q L" using assms by (auto simp: sq_ok_def)
  show ?thesis
  proof (cases L)
    case Nil
    then show ?thesis using repD(2) [OF r] by (simp add: sq_available_def sp_available_def streams_rep [OF r])
  next
    case (Cons x L2)
    obtain k t ds where "x = (k, t, ds)" by (cases x)
    then have L: "L = [] @ (k, t, ds) # L2" using Cons by simp
    note r' = r [unfolded L]
    show ?thesis using repD(2) [OF r'] rep_keys(10) [OF r'] deref_rep [OF r'] at_begin_rep [OF r'] L
      by (auto simp: sq_available_def sp_available_def streams_rep [OF r] stream_of_def)
  qed
qed

lemma size_ok: "sq_ok q \<Longrightarrow> sq_size q = length (streams q)"
  by (auto simp: sq_ok_def sq_size_def streams_rep repD(3) streams_of_layout_def)

lemma close_ok: "sq_ok (sq_close q)" "streams (sq_close q) = []"
proof -
  have "rep (sq_close q) []" by (simp add: rep_def sq_close_def)
  then show "sq_ok (sq_close q)" "streams (sq_close q) = []" by (auto simp: sq_ok_def streams_rep)
qed

datatype ('t, 'a) qop = Q_start int | Q_stream int "'t option" | Q_end int "'t option" | Q_set_arg int "'a option"
  | Q_get_arg int | Q_erase int nat | Q_clear | Q_close | Q_available | Q_size | Q_pop

datatype ('t, 'a) qres = R_unit | R_bool bool | R_arg "'a option" | R_ids int int | R_size nat | R_pop "'t pop_result"

fun sq_step :: "('t, 'a) qop \<Rightarrow> ('t, 'a) sq \<Rightarrow> (('t, 'a) qres \<times> ('t, 'a) sq) c" where
  "sq_step (Q_start i) q = do { (b, q') \<leftarrow> sq_start i q; Some (R_bool b, q') }"
| "sq_step (Q_stream i d) q = do { (b, q') \<leftarrow> sq_stream i d q; Some (R_bool b, q') }"
| "sq_step (Q_end i d) q = do { (b, q') \<leftarrow> sq_end i d q; Some (R_bool b, q') }"
| "sq_step (Q_set_arg i a) q = do { q' \<leftarrow> sq_set_arg i a q; Some (R_unit, q') }"
| "sq_step (Q_get_arg i) q = do { a \<leftarrow> sq_get_arg i q; Some (R_arg a, q) }"
| "sq_step (Q_erase i e) q = do { (b, q') \<leftarrow> sq_erase i e q; Some (R_bool b, q') }"
| "sq_step Q_clear q = do { ((a, b), q') \<leftarrow> sq_clear q; Some (R_ids a b, q') }"
| "sq_step Q_close q = Some (R_unit, sq_close q)"
| "sq_step Q_available q = do { b \<leftarrow> sq_available q; Some (R_bool b, q) }"
| "sq_step Q_size q = Some (R_size (sq_size q), q)"
| "sq_step Q_pop q = do { (x, q') \<leftarrow> sq_pop q; Some (R_pop x, q') }"

fun sp_step :: "('t, 'a) qop \<Rightarrow> ('t, 'a) stream list \<Rightarrow> ('t, 'a) qres \<times> ('t, 'a) stream list" where
  "sp_step (Q_start i) S = apfst R_bool (sp_start i S)"
| "sp_step (Q_stream i d) S = apfst R_bool (sp_stream i d S)"
| "sp_step (Q_end i d) S = apfst R_bool (sp_end i d S)"
| "sp_step (Q_set_arg i a) S = (R_unit, sp_set_arg i a S)"
| "sp_step (Q_get_arg i) S = (R_arg (sp_get_arg i S), S)"
| "sp_step (Q_erase i e) S = apfst R_bool (sp_erase i e S)"
| "sp_step Q_clear S = apfst (\<lambda>(a, b). R_ids a b) (sp_clear S)"
| "sp_step Q_close S = (R_unit, [])"
| "sp_step Q_available S = (R_bool (sp_available S), S)"
| "sp_step Q_size S = (R_size (length S), S)"
| "sp_step Q_pop S = apfst R_pop (sp_pop S)"

definition sq_rel :: "('t, 'a) sq \<Rightarrow> ('t, 'a) stream list \<Rightarrow> bool" where
  "sq_rel q S \<longleftrightarrow> sq_ok q \<and> streams q = S"

lemma simulatesD:
  "simulates f g \<Longrightarrow> sq_ok q \<Longrightarrow> \<exists>q'. f q = Some (fst (g (streams q)), q') \<and> sq_rel q' (snd (g (streams q)))"
  by (auto simp: simulates_def sq_rel_def)

lemmas sq_laws = simulatesD [OF simulates_start] simulatesD [OF simulates_stream] simulatesD [OF simulates_end]
  simulatesD [OF simulates_erase] simulatesD [OF simulates_clear] simulatesD [OF simulates_pop]

lemma sq_step_simulates:
  assumes "sq_ok q"
  shows "\<exists>q'. sq_step x q = Some (fst (sp_step x (streams q)), q') \<and> sq_rel q' (snd (sp_step x (streams q)))"
proof (cases x)
  case (Q_start i)
  then show ?thesis using sq_laws(1) [OF assms, of i] by auto
next
  case (Q_stream i d)
  then show ?thesis using sq_laws(2) [OF assms, of i d] by auto
next
  case (Q_end i d)
  then show ?thesis using sq_laws(3) [OF assms, of i d] by auto
next
  case (Q_set_arg i a)
  then show ?thesis using set_arg_ok [OF assms, of i a] by (auto simp: sq_rel_def)
next
  case (Q_get_arg i)
  then show ?thesis using get_arg_ok [OF assms, of i] assms by (simp add: sq_rel_def)
next
  case (Q_erase i e)
  then show ?thesis using sq_laws(4) [OF assms, of i e] by auto
next
  case Q_clear
  then show ?thesis using sq_laws(5) [OF assms] by (auto simp: case_prod_beta)
next
  case Q_close
  then show ?thesis using close_ok [of q] by (simp add: sq_rel_def)
next
  case Q_available
  then show ?thesis using available_ok [OF assms] assms by (simp add: sq_rel_def)
next
  case Q_size
  then show ?thesis using size_ok [OF assms] assms by (simp add: sq_rel_def)
next
  case Q_pop
  then show ?thesis using sq_laws(6) [OF assms] by auto
qed

interpretation sq: simulation sq_rel sq_step sp_step "\<lambda>_ _. True"
  by unfold_locales (use sq_step_simulates in \<open>auto simp: sq_rel_def\<close>)

lemma sq_rel_empty: "sq_rel sq_empty []"
  using rep_empty by (auto simp: sq_rel_def sq_ok_def streams_rep)

lemma sq_empty_ok: "sq_ok sq_empty" "streams sq_empty = []"
  by (rule conjunct1 [OF sq_rel_empty [unfolded sq_rel_def]], rule conjunct2 [OF sq_rel_empty [unfolded sq_rel_def]])

lemma allowed_all: "allowed_run (\<lambda>_ _. True) g xs v"
  by (induction xs arbitrary: v) auto

text \<open>
  C9. Any sequence of queue operations from the empty queue runs without a dangling iterator, an
  empty-list access or a failing assertion, and returns what the list of streams returns.
\<close>

theorem stream_queue_refines:
  "\<exists>q. run sq_step xs sq_empty = Some (fst (run_spec sp_step xs []), q) \<and> streams q = snd (run_spec sp_step xs [])"
  using sq.simulates_run [OF sq_rel_empty allowed_all, of xs] by (auto simp: sq_rel_def)

section \<open>What comes out is what went in\<close>

definition waiting :: "int \<Rightarrow> ('t, 'a) stream list \<Rightarrow> 't option list" where
  "waiting i S = concat (map sdata (filter (\<lambda>s. sid s = i) S))"

fun put_in :: "int \<Rightarrow> (('t, 'a) qop \<times> ('t, 'a) qres) list \<Rightarrow> 't option list" where
  "put_in i [] = []"
| "put_in i ((Q_stream j d, R_bool True) # xs) = (if j = i then d # put_in i xs else put_in i xs)"
| "put_in i (x # xs) = put_in i xs"

fun taken_out :: "int \<Rightarrow> (('t, 'a) qop \<times> ('t, 'a) qres) list \<Rightarrow> 't option list" where
  "taken_out i [] = []"
| "taken_out i ((Q_pop, R_pop (Pop_data j d)) # xs) = (if j = i then d # taken_out i xs else taken_out i xs)"
| "taken_out i (x # xs) = taken_out i xs"

fun drops :: "int \<Rightarrow> ('t, 'a) qop \<Rightarrow> bool" where
  "drops i (Q_erase j e) = (j = i)"
| "drops i Q_clear = True"
| "drops i Q_close = True"
| "drops i x = False"

definition ids_distinct :: "('t, 'a) stream list \<Rightarrow> bool" where
  "ids_distinct S \<longleftrightarrow> distinct (map sid S)
     \<and> (\<forall>s \<in> set S. st s \<noteq> Data \<and> (st s \<in> {Deleted, Error} \<longrightarrow> sdata s = []))"

lemma sq_ids_distinct: "sq_ok q \<Longrightarrow> ids_distinct (streams q)"
proof -
  assume "sq_ok q"
  then obtain L where r: "rep q L" by (auto simp: sq_ok_def)
  show ?thesis using repD(4,6,8) [OF r]
    by (simp add: ids_distinct_def streams_rep [OF r] streams_of_layout_def stream_of_def o_def)
qed

lemma waiting_simps [simp]:
  "waiting i [] = []" "waiting i (s # S) = (if sid s = i then sdata s else []) @ waiting i S"
  "waiting i (S @ T) = waiting i S @ waiting i T"
  by (simp_all add: waiting_def)

lemma waiting_upd:
  assumes "distinct (map sid S)" "j \<in> sid ` set S" "\<And>s. sid (f s) = sid s" "\<And>s. sdata (f s) = sdata s @ ds"
  shows "waiting i (upd j f S) = waiting i S @ (if j = i then ds else [])"
proof -
  obtain s where "s \<in> set S" "sid s = j" using assms(2) by blast
  then obtain S1 S2 where S: "S = S1 @ s # S2" using split_list by metis
  have other: "upd j f T = T" if "j \<notin> sid ` set T" for T using that by (induction T) auto
  have n: "j \<notin> sid ` set S1" "j \<notin> sid ` set S2" using assms(1) S \<open>sid s = j\<close> by auto
  have "waiting j S2 = []" using n(2) by (induction S2) auto
  then show ?thesis using S other [OF n(1)] other [OF n(2)] assms(3,4) \<open>sid s = j\<close> by auto
qed

lemma waiting_upd_other:
  assumes "\<And>s. sid s = j \<Longrightarrow> sid (f s) = sid s" "\<And>s. j = i \<Longrightarrow> sdata (f s) = sdata s"
  shows "waiting i (upd j f S) = waiting i S"
  using assms by (induction S) auto

lemma put_in_Cons: "put_in i (x # xs) = put_in i [x] @ put_in i xs"
  by (induction i "[x]" rule: put_in.induct) auto

lemma taken_out_Cons: "taken_out i (x # xs) = taken_out i [x] @ taken_out i xs"
  by (induction i "[x]" rule: taken_out.induct) auto

lemma fifo_step:
  assumes "ids_distinct S" "\<not> drops i x"
  shows "waiting i S @ put_in i [(x, fst (sp_step x S))] = taken_out i [(x, fst (sp_step x S))] @ waiting i (snd (sp_step x S))"
proof (cases x)
  case (Q_start j)
  then show ?thesis by (simp add: sp_start_def new_stream_def)
next
  case (Q_stream j d)
  show ?thesis
  proof (cases "\<exists>s \<in> set S. sid s = j \<and> st s = Uncompleted")
    case True
    then have "j \<in> sid ` set S" by auto
    then have "waiting i (upd j (\<lambda>s. s\<lparr>sdata := sdata s @ [d]\<rparr>) S) = waiting i S @ (if j = i then [d] else [])"
      using assms(1) by (intro waiting_upd) (simp_all add: ids_distinct_def)
    then show ?thesis using True Q_stream by (simp add: sp_stream_def)
  next
    case False
    then have "sp_stream j d S = (False, S)" by (simp only: sp_stream_def if_False)
    then show ?thesis using Q_stream by simp
  qed
next
  case (Q_end j d)
  then show ?thesis by (simp add: sp_end_def waiting_upd_other)
next
  case (Q_set_arg j a)
  then show ?thesis by (simp add: sp_set_arg_def waiting_upd_other)
next
  case (Q_erase j e)
  then show ?thesis using assms(2) by (simp add: sp_erase_def waiting_upd_other erased_def)
next
  case Q_pop
  show ?thesis
  proof (cases S)
    case (Cons s T)
    have "st s \<in> {Deleted, Error} \<longrightarrow> sdata s = []" "st s \<noteq> Data" using assms(1) Cons by (simp_all add: ids_distinct_def)
    then show ?thesis using Q_pop Cons by (cases "st s"; cases "sdata s") (auto simp: sp_pop_def)
  qed (use Q_pop in \<open>simp add: sp_pop_def\<close>)
qed (use assms(2) in simp_all)

lemma fifo_run:
  "sq_ok q \<Longrightarrow> run sq_step xs q = Some (rs, q') \<Longrightarrow> \<forall>x \<in> set xs. \<not> drops i x \<Longrightarrow>
     waiting i (streams q) @ put_in i (zip xs rs) = taken_out i (zip xs rs) @ waiting i (streams q')"
proof (induction xs arbitrary: q rs)
  case (Cons x xs)
  obtain q1 where q1: "sq_step x q = Some (fst (sp_step x (streams q)), q1)" "sq_ok q1"
    "streams q1 = snd (sp_step x (streams q))"
    using sq_step_simulates [OF Cons.prems(1), of x] by (auto simp: sq_rel_def)
  then obtain rs1 where rs: "run sq_step xs q1 = Some (rs1, q')" "rs = fst (sp_step x (streams q)) # rs1"
    using Cons.prems(2) by (auto simp: bind_eq_Some_conv)
  have 1: "waiting i (streams q) @ put_in i [(x, fst (sp_step x (streams q)))]
      = taken_out i [(x, fst (sp_step x (streams q)))] @ waiting i (streams q1)"
    unfolding q1(3) by (rule fifo_step [OF sq_ids_distinct [OF Cons.prems(1)]]) (use Cons.prems(3) in simp)
  have 2: "waiting i (streams q1) @ put_in i (zip xs rs1) = taken_out i (zip xs rs1) @ waiting i (streams q')"
    using Cons.IH [OF q1(2) rs(1)] Cons.prems(3) by simp
  show ?case using 1 2 unfolding rs(2) zip_Cons_Cons
    by (subst put_in_Cons, subst taken_out_Cons) (metis append.assoc)
qed auto

text \<open>
  C10. First in, first out, without loss: as long as a stream is not erased and the queue not
  cleared or closed, the data accepted for the stream are the data popped for it followed by
  the data still waiting, in order.
\<close>

theorem stream_data_fifo:
  assumes "run sq_step xs sq_empty = Some (rs, q)" "\<forall>x \<in> set xs. \<not> drops i x"
  shows "put_in i (zip xs rs) = taken_out i (zip xs rs) @ waiting i (streams q)"
  using fifo_run [OF sq_empty_ok(1) assms] by (simp add: sq_empty_ok(2))

definition demo_ops :: "(string, unit) qop list" where
  "demo_ops = [Q_start 1, Q_stream 1 (Some ''a''), Q_start 2, Q_stream 2 (Some ''x''), Q_stream 1 (Some ''b''), Q_pop,
      Q_pop, Q_stream 3 None, Q_erase 2 0]"

theorem stream_data_fifo_witness:
  "\<exists>rs q. run sq_step demo_ops sq_empty = Some (rs, q) \<and> put_in 1 (zip demo_ops rs) = [Some ''a'', Some ''b'']
    \<and> waiting 1 (streams q) = [Some ''b'']"
proof -
  obtain q where q: "run sq_step demo_ops sq_empty = Some (fst (run_spec sp_step demo_ops []), q)"
    using sq.simulates_run [OF sq_rel_empty allowed_all, of demo_ops] by auto
  have rs: "fst (run_spec sp_step demo_ops []) = [R_bool True, R_bool True, R_bool True, R_bool True, R_bool True,
      R_pop (Pop_start 1), R_pop (Pop_data 1 (Some ''a'')), R_bool False, R_bool True]"
    by (simp add: demo_ops_def sp_start_def sp_stream_def sp_pop_def sp_erase_def new_stream_def upd_def)
  have nd: "\<forall>x \<in> set demo_ops. \<not> drops 1 x" by (simp add: demo_ops_def)
  have "waiting 1 (streams q) = [Some ''b'']" using stream_data_fifo [OF q nd] unfolding rs by (simp add: demo_ops_def)
  moreover have "put_in 1 (zip demo_ops (fst (run_spec sp_step demo_ops []))) = [Some ''a'', Some ''b'']"
    unfolding rs by (simp add: demo_ops_def)
  ultimately show ?thesis using q by blast
qed

section \<open>The order of pop results\<close>

text \<open>
  The protocol a consumer may rely on: its state is the stream it is reading, \<open>None\<close> a
  violation. A stream may be removed or fail before its start was delivered.
\<close>

fun follow :: "int option \<Rightarrow> 't pop_result \<Rightarrow> int option option" where
  "follow cur Pop_empty = Some cur"
| "follow None (Pop_start i) = Some (Some i)"
| "follow None (Pop_removed i) = Some None"
| "follow None (Pop_error i e) = Some None"
| "follow (Some j) (Pop_data i d) = (if i = j then Some (Some j) else None)"
| "follow (Some j) (Pop_end i d) = (if i = j then Some None else None)"
| "follow (Some j) (Pop_removed i) = (if i = j then Some None else None)"
| "follow (Some j) (Pop_error i e) = (if i = j then Some None else None)"
| "follow cur r = None"

fun follow_all :: "int option \<Rightarrow> ('t, 'a) qres list \<Rightarrow> int option option" where
  "follow_all cur [] = Some cur"
| "follow_all cur (R_pop r # rs) = (case follow cur r of None \<Rightarrow> None | Some cur' \<Rightarrow> follow_all cur' rs)"
| "follow_all cur (_ # rs) = follow_all cur rs"

definition current :: "('t, 'a) stream list \<Rightarrow> int option" where
  "current S = (case S of [] \<Rightarrow> None | s # _ \<Rightarrow> if polled s then Some (sid s) else None)"

definition only_first_polled :: "('t, 'a) stream list \<Rightarrow> bool" where
  "only_first_polled S \<longleftrightarrow> (\<forall>s \<in> set (tl S). \<not> polled s)"

lemma only_first_upd:
  assumes "only_first_polled S" "\<And>s. polled (f s) = polled s" "\<And>s. sid (f s) = sid s"
  shows "only_first_polled (upd i f S)" "current (upd i f S) = current S"
  using assms by (cases S; auto simp: only_first_polled_def current_def upd_def)+

lemma follow_step:
  assumes "only_first_polled S" "x \<noteq> Q_close"
  shows "only_first_polled (snd (sp_step x S)) \<and> follow_all (current S) [fst (sp_step x S)] = Some (current (snd (sp_step x S)))"
proof (cases x)
  case (Q_start j)
  then show ?thesis using assms
    by (cases S) (auto simp: sp_start_def new_stream_def only_first_polled_def current_def)
next
  case (Q_stream j d)
  then show ?thesis using assms only_first_upd [of S "\<lambda>s. s\<lparr>sdata := sdata s @ [d]\<rparr>" j] by (simp add: sp_stream_def)
next
  case (Q_end j d)
  then show ?thesis using assms only_first_upd [of S "\<lambda>s. s\<lparr>st := Completed, fin := (if d \<noteq> None then d else fin s)\<rparr>" j]
    by (simp add: sp_end_def)
next
  case (Q_set_arg j a)
  then show ?thesis using assms only_first_upd [of S "\<lambda>s. s\<lparr>sarg := a\<rparr>" j] by (simp add: sp_set_arg_def)
next
  case (Q_erase j e)
  then show ?thesis using assms only_first_upd [of S "erased e" j] by (simp add: sp_erase_def erased_def)
next
  case Q_clear
  then show ?thesis using assms by (cases S) (auto simp: sp_clear_def only_first_polled_def current_def)
next
  case Q_pop
  show ?thesis
  proof (cases S)
    case (Cons s T)
    have "current T = None" "only_first_polled T"
      using assms(1) Cons by (cases T; auto simp: only_first_polled_def current_def)+
    then show ?thesis using Q_pop Cons assms(1)
      by (auto simp: sp_pop_def current_def only_first_polled_def split: list.split)
  qed (use Q_pop assms in \<open>simp add: sp_pop_def current_def\<close>)
qed (use assms in simp_all)

lemma follow_all_Cons:
  "follow_all cur (r # rs) = (case follow_all cur [r] of None \<Rightarrow> None | Some c \<Rightarrow> follow_all c rs)"
  by (cases r) (auto split: option.split)

text \<open>
  C11. Until the queue is closed the pop results keep the protocol: streams are delivered one after
  the other, each starting with its start (or only its removal or error), then its data, then
  exactly one end, removal or error, with no result of another stream in between.
\<close>

theorem pop_results_follow_protocol:
  assumes "Q_close \<notin> set xs"
  shows "\<exists>cur. follow_all None (fst (run_spec sp_step xs [])) = Some cur
           \<and> map_option fst (run sq_step xs sq_empty) = Some (fst (run_spec sp_step xs []))"
proof -
  have "follow_all (current S) (fst (run_spec sp_step xs S)) = Some (current (snd (run_spec sp_step xs S)))"
    if "only_first_polled S" "Q_close \<notin> set xs" for S xs
    using that
  proof (induction xs arbitrary: S)
    case (Cons x xs)
    have x: "x \<noteq> Q_close" "Q_close \<notin> set xs" using Cons.prems(2) by auto
    note s = follow_step [OF Cons.prems(1) x(1)]
    let ?S = "snd (sp_step x S)"
    have 1: "follow_all (current S) [fst (sp_step x S)] = Some (current ?S)" by (rule conjunct2 [OF s])
    have 2: "follow_all (current ?S) (fst (run_spec sp_step xs ?S)) = Some (current (snd (run_spec sp_step xs ?S)))"
      by (rule Cons.IH [OF conjunct1 [OF s] x(2)])
    have "fst (run_spec sp_step (x # xs) S) = fst (sp_step x S) # fst (run_spec sp_step xs ?S)"
      "snd (run_spec sp_step (x # xs) S) = snd (run_spec sp_step xs ?S)" by (simp_all add: case_prod_beta)
    moreover have "follow_all (current S) (fst (sp_step x S) # fst (run_spec sp_step xs ?S))
        = Some (current (snd (run_spec sp_step xs ?S)))"
      by (rule trans [OF follow_all_Cons]) (simp only: 1 2 option.case)
    ultimately show ?case by (simp only:)
  qed simp
  from this [of "[]" xs] have "follow_all None (fst (run_spec sp_step xs [])) = Some (current (snd (run_spec sp_step xs [])))"
    using assms by (simp add: only_first_polled_def current_def)
  then show ?thesis using sq.run_result [OF sq_rel_empty allowed_all, of xs] by blast
qed

definition demo_ops2 :: "(string, unit) qop list" where
  "demo_ops2 = [Q_start 1, Q_start 2, Q_stream 1 None, Q_pop, Q_pop, Q_end 1 None, Q_erase 2 7, Q_pop, Q_pop]"

theorem pop_results_follow_protocol_witness:
  "map_option fst (run sq_step demo_ops2 sq_empty)
     = Some [R_bool True, R_bool True, R_bool True, R_pop (Pop_start 1), R_pop (Pop_data 1 None), R_bool True, R_bool True,
         R_pop (Pop_end 1 None), R_pop (Pop_error 2 7)]"
proof -
  have rs: "fst (run_spec sp_step demo_ops2 []) = [R_bool True, R_bool True, R_bool True, R_pop (Pop_start 1),
      R_pop (Pop_data 1 None), R_bool True, R_bool True, R_pop (Pop_end 1 None), R_pop (Pop_error 2 7)]"
    by (simp add: demo_ops2_def sp_start_def sp_stream_def sp_pop_def sp_erase_def sp_end_def erased_def
        new_stream_def)
  have "Q_close \<notin> set demo_ops2" by (simp add: demo_ops2_def)
  then show ?thesis using pop_results_follow_protocol [of demo_ops2] unfolding rs by blast
qed

text \<open>
  C12. \<open>end\<close> does not look at the state of the tag: a stream that was erased, even with an
  error, and is then ended is reported to the consumer as normally completed.
\<close>

theorem end_revives_erased_stream:
  "\<exists>q. run sq_step [Q_start i, Q_pop, Q_stream i d, Q_erase i e, Q_end i None, Q_pop] (sq_empty :: ('t, 'a) sq)
      = Some ([R_bool True, R_pop (Pop_start i), R_bool True, R_bool True, R_bool True, R_pop (Pop_end i None)], q)
      \<and> streams q = []"
proof -
  define xs :: "('t, 'a) qop list" where "xs = [Q_start i, Q_pop, Q_stream i d, Q_erase i e, Q_end i None, Q_pop]"
  have "run_spec sp_step xs [] = ([R_bool True, R_pop (Pop_start i), R_bool True, R_bool True, R_bool True,
      R_pop (Pop_end i None)], [])"
    by (simp add: xs_def sp_start_def sp_stream_def sp_pop_def sp_erase_def sp_end_def erased_def new_stream_def upd_def)
  then show ?thesis using sq.simulates_run [OF sq_rel_empty allowed_all, of xs] by (simp only: xs_def sq_rel_def) auto
qed

section \<open>What the clients do with a queue\<close>

text \<open>The output arguments of \<open>StreamQueue::pop\<close>: the id is not set when the queue has nothing.\<close>

fun pop_id :: "'t pop_result \<Rightarrow> int option" where
  "pop_id Pop_empty = None"
| "pop_id (Pop_data i d) = Some i"
| "pop_id (Pop_start i) = Some i"
| "pop_id (Pop_end i d) = Some i"
| "pop_id (Pop_removed i) = Some i"
| "pop_id (Pop_error i e) = Some i"

fun pop_res :: "'t option \<Rightarrow> 't pop_result \<Rightarrow> 't option" where
  "pop_res v (Pop_data i d) = d"
| "pop_res v (Pop_end i (Some d)) = Some d"
| "pop_res v r = v"

fun pop_err :: "nat \<Rightarrow> 't pop_result \<Rightarrow> nat" where
  "pop_err e (Pop_error i x) = x"
| "pop_err e r = e"

text \<open>
  \<open>if (responses_.erase(id)) responses_.pop(id1, ...)\<close> with the assertion that the stream popped is
  the one erased, when \<open>poll\<close> drops the responses of an operation.
\<close>

definition drop_stream :: "int \<Rightarrow> ('t, 'a) sq \<Rightarrow> ('t, 'a) sq c" where
  "drop_stream i q = do {
     (ok, q1) \<leftarrow> sq_erase i 0 q;
     (if ok then do {
        (r, q2) \<leftarrow> sq_pop q1;
        (if pop_id r = Some i then Some q2 else None) }
      else Some q1) }"

end
