(* ===== verification/PendingQueue.thy ===== *)
theory PendingQueue
  imports StreamQueue
begin

text \<open>
  The two blocking queues of \<open>pending_queue.h\<close>: \<open>PendingQueue\<close> and
  \<open>PendingStreamQueue\<close>, which puts a mutex and a condition variable around
  \<open>StreamQueue\<close>. Every operation holds the mutex from its first to its last access, so it
  is one step; a wait releases it, so \<open>poll\<close> is cut there. The consumer is in one of the
  states of \<open>consumer\<close>, producers call at any time. \<open>PendingStreamQueue\<close> waits in a loop and its steps include
  the spurious wake-ups the condition variable permits. \<open>PendingQueue\<close> waits once, without a loop, and would run
  into its assertion after one: \<open>pq_step\<close> has no spurious wake-up.
\<close>

section \<open>Consumers\<close>

datatype 'r consumer = Idle | Waiting | Woken | Got 'r

definition wake :: "'r consumer \<Rightarrow> 'r consumer" where
  "wake c = (case c of Waiting \<Rightarrow> Woken | _ \<Rightarrow> c)"

definition signal_if :: "bool \<Rightarrow> 'r consumer \<Rightarrow> 'r consumer" where
  "signal_if b c = (if b then wake c else c)"

lemma wake_simps [simp]:
  "wake Idle = Idle" "wake Waiting = Woken" "wake Woken = Woken" "wake (Got r) = Got r"
  by (simp_all add: wake_def)

lemma signal_if_Waiting [simp]: "signal_if b c = Waiting \<longleftrightarrow> c = Waiting \<and> \<not> b"
  by (cases c) (auto simp: signal_if_def)

lemma signal_if_Woken: "signal_if b c = Woken \<longleftrightarrow> c = Woken \<or> c = Waiting \<and> b"
  by (cases c) (auto simp: signal_if_def)

section \<open>PendingQueue\<close>

record 't pitem =
  pid :: int
  pdeleted :: bool
  pdata :: 't

record 't pq =
  items :: "'t pitem list"
  pq_closed :: bool

definition pq_add :: "int \<Rightarrow> 't \<Rightarrow> 't pq \<Rightarrow> bool \<times> 't pq \<times> bool" where
  "pq_add i d q =
     (if pq_closed q then (False, q, False)
      else (True, q\<lparr>items := items q @ [\<lparr>pid = i, pdeleted = False, pdata = d\<rparr>]\<rparr>, True))"

fun mark_deleted :: "int \<Rightarrow> 't pitem list \<Rightarrow> bool \<times> 't pitem list" where
  "mark_deleted i [] = (False, [])"
| "mark_deleted i (x # xs) =
     (if pid x = i then (True, x\<lparr>pdeleted := True\<rparr> # xs)
      else (case mark_deleted i xs of (r, ys) \<Rightarrow> (r, x # ys)))"

definition pq_erase :: "int \<Rightarrow> 't pq \<Rightarrow> bool \<times> 't pq" where
  "pq_erase i q = (case mark_deleted i (items q) of (r, xs) \<Rightarrow> (r, q\<lparr>items := xs\<rparr>))"

definition pq_clear :: "'t pq \<Rightarrow> (int \<times> int) \<times> 't pq" where
  "pq_clear q =
     ((if items q = [] then (0, 0) else (pid (hd (items q)), pid (last (items q)))),
      q\<lparr>items := map (\<lambda>x. x\<lparr>pdeleted := True\<rparr>) (items q)\<rparr>)"

definition pq_close :: "'t pq \<Rightarrow> 't pq" where
  "pq_close q = q\<lparr>items := [], pq_closed := True\<rparr>"

definition pq_reset :: "'t pq \<Rightarrow> 't pq" where
  "pq_reset q = q\<lparr>pq_closed := False\<rparr>"

definition pq_size :: "'t pq \<Rightarrow> nat" where
  "pq_size q = length (items q)"

text \<open>
  \<open>poll\<close>: the test before the wait, and what runs after it; \<open>None\<close> is the failing
  assertion \<open>closed_\<close>. The result is \<open>None\<close> when the queue was closed.
\<close>

definition pq_must_wait :: "'t pq \<Rightarrow> bool" where
  "pq_must_wait q \<longleftrightarrow> \<not> pq_closed q \<and> items q = []"

definition pq_take :: "'t pq \<Rightarrow> ('t pitem option \<times> 't pq) c" where
  "pq_take q =
     (case items q of
        x # xs \<Rightarrow> Some (Some x, q\<lparr>items := xs\<rparr>)
      | [] \<Rightarrow> if pq_closed q then Some (None, q) else None)"

inductive pq_step :: "'t pq \<times> 't pitem option consumer \<Rightarrow> 't pq \<times> 't pitem option consumer \<Rightarrow> bool" where
  pq_do_add: "pq_add i d q = (r, q', sg) \<Longrightarrow> pq_step (q, cs) (q', signal_if sg cs)"
| pq_do_erase: "pq_step (q, cs) (snd (pq_erase i q), cs)"
| pq_do_clear: "pq_step (q, cs) (snd (pq_clear q), cs)"
| pq_do_close: "pq_step (q, cs) (pq_close q, wake cs)"
| pq_enter_wait: "pq_must_wait q \<Longrightarrow> pq_step (q, Idle) (q, Waiting)"
| pq_enter_take: "\<not> pq_must_wait q \<Longrightarrow> pq_take q = Some (r, q') \<Longrightarrow> pq_step (q, Idle) (q', Got r)"
| pq_resume: "pq_take q = Some (r, q') \<Longrightarrow> pq_step (q, Woken) (q', Got r)"
| pq_return: "pq_step (q, Got r) (q, Idle)"

inductive_cases pq_stepE: "pq_step (q, cs) s'"

definition pq_init :: "'t pq" where
  "pq_init = \<lparr>items = [], pq_closed = False\<rparr>"

lemma length_mark_deleted [simp]: "length (snd (mark_deleted i xs)) = length xs"
  by (induction xs) (auto split: prod.split)

lemma mark_deleted_Nil [simp]: "snd (mark_deleted i xs) = [] \<longleftrightarrow> xs = []"
  using length_mark_deleted [of i xs] by (metis length_0_conv)

text \<open>The invariant: who waits has nothing to take, who was woken has.\<close>

definition pq_inv :: "'t pq \<times> 't pitem option consumer \<Rightarrow> bool" where
  "pq_inv s \<longleftrightarrow>
     (snd s = Waiting \<longrightarrow> pq_must_wait (fst s)) \<and> (snd s = Woken \<longrightarrow> \<not> pq_must_wait (fst s))"

lemma pq_inv_step: "pq_step s s' \<Longrightarrow> pq_inv s \<Longrightarrow> pq_inv s'"
  by (induction rule: pq_step.induct)
    (auto simp: pq_inv_def pq_must_wait_def pq_add_def pq_erase_def pq_clear_def pq_close_def signal_if_Woken wake_def
      case_prod_beta split: if_splits consumer.splits)

lemma pq_reachable_inv: "pq_step\<^sup>*\<^sup>* (pq_init, Idle) s \<Longrightarrow> pq_inv s"
proof (induction rule: rtranclp_induct)
  case base
  show ?case by (simp add: pq_inv_def)
next
  case (step s t)
  then show ?case by (blast intro: pq_inv_step)
qed

text \<open>
  C13. While the queue is not reset and no wake-up is spurious, in every interleaving of
  producers with a consumer no wake-up is lost (a waiting consumer has nothing to take and the queue
  is open) and \<open>poll\<close> never runs into its assertion.
\<close>

theorem pending_queue_no_lost_wakeup:
  assumes "pq_step\<^sup>*\<^sup>* (pq_init, Idle) (q, cs)"
  shows "(cs = Waiting \<longrightarrow> items q = [] \<and> \<not> pq_closed q)
       \<and> (cs = Woken \<or> cs = Idle \<and> \<not> pq_must_wait q \<longrightarrow> pq_take q \<noteq> None)"
  using pq_reachable_inv [OF assms]
  by (cases "items q") (auto simp: pq_inv_def pq_must_wait_def pq_take_def)

theorem pending_queue_no_lost_wakeup_witness:
  "pq_step\<^sup>*\<^sup>* (pq_init, Idle) (\<lparr>items = [\<lparr>pid = 1, pdeleted = False, pdata = ''x''\<rparr>], pq_closed = False\<rparr>, Woken)
   \<and> pq_take \<lparr>items = [\<lparr>pid = 1, pdeleted = False, pdata = ''x''\<rparr>], pq_closed = False\<rparr> \<noteq> None"
proof -
  let ?q = "\<lparr>items = [\<lparr>pid = 1, pdeleted = False, pdata = ''x''\<rparr>], pq_closed = False\<rparr>"
  have 1: "pq_step (pq_init, Idle) (pq_init, Waiting)" by (rule pq_enter_wait) (simp add: pq_must_wait_def pq_init_def)
  have 2: "pq_step (pq_init, Waiting) (?q, Woken)"
    using pq_do_add [of 1 "''x''" pq_init True ?q True Waiting] by (simp add: pq_add_def pq_init_def signal_if_def)
  have r: "pq_step\<^sup>*\<^sup>* (pq_init, Idle) (?q, Woken)"
    by (rule rtranclp_trans [OF r_into_rtranclp [where r = pq_step, OF 1] r_into_rtranclp [where r = pq_step, OF 2]])
  show ?thesis using pending_queue_no_lost_wakeup [OF r] r by blast
qed

section \<open>PendingStreamQueue\<close>

record ('t, 'a) psq =
  base :: "('t, 'a) sq"
  closed :: bool

definition psq_init :: "('t, 'a) psq" where
  "psq_init = \<lparr>base = sq_empty, closed = False\<rparr>"

text \<open>Each operation returns its result, the new queue and whether it signals.\<close>

definition psq_start :: "int \<Rightarrow> ('t, 'a) psq \<Rightarrow> (bool \<times> ('t, 'a) psq \<times> bool) c" where
  "psq_start i s =
     (if closed s then Some (False, s, False)
      else do { (b, q) \<leftarrow> sq_start i (base s); Some (True, s\<lparr>base := q\<rparr>, b) })"

definition psq_stream :: "int \<Rightarrow> 't option \<Rightarrow> ('t, 'a) psq \<Rightarrow> (('t, 'a) psq \<times> bool) c" where
  "psq_stream i d s =
     (if closed s then Some (s, False) else do { (b, q) \<leftarrow> sq_stream i d (base s); Some (s\<lparr>base := q\<rparr>, b) })"

definition psq_end :: "int \<Rightarrow> ('t, 'a) psq \<Rightarrow> (('t, 'a) psq \<times> bool) c" where
  "psq_end i s =
     (if closed s then Some (s, False) else do { (b, q) \<leftarrow> sq_end i None (base s); Some (s\<lparr>base := q\<rparr>, b) })"

definition psq_erase :: "int \<Rightarrow> nat \<Rightarrow> ('t, 'a) psq \<Rightarrow> (bool \<times> ('t, 'a) psq \<times> bool) c" where
  "psq_erase i e s =
     (if closed s then Some (False, s, False)
      else do { (b, q) \<leftarrow> sq_erase i e (base s); Some (b, s\<lparr>base := q\<rparr>, b) })"

definition psq_clear :: "('t, 'a) psq \<Rightarrow> ((int \<times> int) \<times> ('t, 'a) psq \<times> bool) c" where
  "psq_clear s = do { (mm, q) \<leftarrow> sq_clear (base s); Some (mm, s\<lparr>base := q\<rparr>, 0 < fst mm) }"

definition psq_close :: "('t, 'a) psq \<Rightarrow> ('t, 'a) psq \<times> bool" where
  "psq_close s = (s\<lparr>base := sq_close (base s), closed := True\<rparr>, True)"

definition psq_reset :: "('t, 'a) psq \<Rightarrow> ('t, 'a) psq" where
  "psq_reset s = s\<lparr>closed := False\<rparr>"

definition psq_size :: "('t, 'a) psq \<Rightarrow> nat" where
  "psq_size s = sq_size (base s)"

datatype 't pcall = P_start int | P_stream int "'t option" | P_end int | P_erase int nat | P_clear | P_close

fun psq_call :: "'t pcall \<Rightarrow> ('t, 'a) psq \<Rightarrow> (('t, 'a) psq \<times> bool) c" where
  "psq_call (P_start i) s = map_option snd (psq_start i s)"
| "psq_call (P_stream i d) s = psq_stream i d s"
| "psq_call (P_end i) s = psq_end i s"
| "psq_call (P_erase i e) s = map_option snd (psq_erase i e s)"
| "psq_call P_clear s = map_option snd (psq_clear s)"
| "psq_call P_close s = Some (psq_close s)"

text \<open>
  One round of the loop of \<open>poll\<close>: pop, and wait when there is nothing. The closed flag is read
  only after a wait; \<open>Got None\<close> is the return value false.
\<close>

definition psq_try :: "('t, 'a) psq \<Rightarrow> (('t, 'a) psq \<times> 't pop_result option consumer) c" where
  "psq_try s = do {
     (r, q) \<leftarrow> sq_pop (base s);
     Some (s\<lparr>base := q\<rparr>, if r = Pop_empty then Waiting else Got (Some r))
   }"

definition psq_resume :: "('t, 'a) psq \<Rightarrow> (('t, 'a) psq \<times> 't pop_result option consumer) c" where
  "psq_resume s = (if closed s then Some (s, Got None) else psq_try s)"

datatype 't label = Call "'t pcall" | Enter | Wake_up | Return | Spurious

inductive psq_step ::
  "('t, 'a) psq \<times> 't pop_result option consumer \<Rightarrow> 't label \<Rightarrow> ('t, 'a) psq \<times> 't pop_result option consumer \<Rightarrow> bool" where
  psq_do_call: "psq_call x s = Some (s', sg) \<Longrightarrow> psq_step (s, cs) (Call x) (s', signal_if sg cs)"
| psq_enter: "psq_try s = Some (s', cs) \<Longrightarrow> psq_step (s, Idle) Enter (s', cs)"
| psq_wake_up: "psq_resume s = Some (s', cs) \<Longrightarrow> psq_step (s, Woken) Wake_up (s', cs)"
| psq_return: "psq_step (s, Got r) Return (s, Idle)"
| psq_spurious: "psq_step (s, Waiting) Spurious (s, Woken)"

inductive_cases psq_stepE: "psq_step (s, cs) l s'"

inductive_simps psq_step_waiting: "psq_step (s, Waiting) l s'"

text \<open>Ids are positive: \<open>clear\<close> signals only when the first id is.\<close>

definition ids_positive :: "('t, 'a) stream list \<Rightarrow> bool" where
  "ids_positive S \<longleftrightarrow> (\<forall>s \<in> set S. 0 < sid s)"

fun call_ok :: "'t pcall \<Rightarrow> bool" where
  "call_ok (P_start i) = (0 < i)"
| "call_ok x = True"

text \<open>A queue operation that signals nothing leaves an empty pop empty.\<close>

lemma silent_ops_keep_empty:
  assumes "fst (sp_pop S) = Pop_empty"
  shows "\<not> fst (sp_start i S) \<Longrightarrow> fst (sp_pop (snd (sp_start i S))) = Pop_empty"
    and "\<not> fst (sp_stream i d S) \<Longrightarrow> fst (sp_pop (snd (sp_stream i d S))) = Pop_empty"
    and "\<not> fst (sp_end i d S) \<Longrightarrow> fst (sp_pop (snd (sp_end i d S))) = Pop_empty"
    and "\<not> fst (sp_erase i e S) \<Longrightarrow> fst (sp_pop (snd (sp_erase i e S))) = Pop_empty"
    and "ids_positive S \<Longrightarrow> \<not> 0 < fst (fst (sp_clear S)) \<Longrightarrow> fst (sp_pop (snd (sp_clear S))) = Pop_empty"
proof -
  have upd_id: "i \<notin> sid ` set S \<Longrightarrow> upd i f S = S" for f by (induction S) auto
  show "\<not> fst (sp_start i S) \<Longrightarrow> fst (sp_pop (snd (sp_start i S))) = Pop_empty"
    using assms by (simp add: sp_start_def split: if_splits)
  show "\<not> fst (sp_stream i d S) \<Longrightarrow> fst (sp_pop (snd (sp_stream i d S))) = Pop_empty"
    using assms by (cases "\<exists>s \<in> set S. sid s = i \<and> st s = Uncompleted")
      (simp_all only: sp_stream_def if_True if_False fst_conv snd_conv)
  show "\<not> fst (sp_end i d S) \<Longrightarrow> fst (sp_pop (snd (sp_end i d S))) = Pop_empty"
    using assms upd_id by (simp add: sp_end_def)
  show "\<not> fst (sp_erase i e S) \<Longrightarrow> fst (sp_pop (snd (sp_erase i e S))) = Pop_empty"
    using assms upd_id by (simp add: sp_erase_def)
  show "ids_positive S \<Longrightarrow> \<not> 0 < fst (fst (sp_clear S)) \<Longrightarrow> fst (sp_pop (snd (sp_clear S))) = Pop_empty"
    using assms by (cases S) (auto simp: sp_clear_def ids_positive_def)
qed

lemma upd_positive: "(\<And>s. sid (f s) = sid s) \<Longrightarrow> ids_positive S \<Longrightarrow> ids_positive (upd i f S)"
  by (auto simp: ids_positive_def upd_def)

lemma ops_keep_positive:
  assumes "ids_positive S"
  shows "0 < i \<Longrightarrow> ids_positive (snd (sp_start i S))" "ids_positive (snd (sp_stream i d S))"
    "ids_positive (snd (sp_end i d S))" "ids_positive (snd (sp_erase i e S))" "ids_positive (snd (sp_clear S))"
    "ids_positive (snd (sp_pop S))"
proof -
  show "0 < i \<Longrightarrow> ids_positive (snd (sp_start i S))"
    using assms by (auto simp: sp_start_def ids_positive_def new_stream_def)
  show "ids_positive (snd (sp_stream i d S))" using assms by (simp add: sp_stream_def upd_positive)
  show "ids_positive (snd (sp_end i d S))" using assms by (simp add: sp_end_def upd_positive)
  show "ids_positive (snd (sp_erase i e S))" using assms by (simp add: sp_erase_def upd_positive erased_def)
  show "ids_positive (snd (sp_clear S))" using assms by (auto simp: sp_clear_def ids_positive_def)
  show "ids_positive (snd (sp_pop S))"
    using assms by (cases S) (auto simp: sp_pop_def ids_positive_def split: list.splits)
qed

definition psq_ok :: "('t, 'a) psq \<Rightarrow> bool" where
  "psq_ok s \<longleftrightarrow> sq_ok (base s) \<and> (closed s \<longrightarrow> streams (base s) = []) \<and> ids_positive (streams (base s))"

definition nothing_to_pop :: "('t, 'a) psq \<Rightarrow> bool" where
  "nothing_to_pop s \<longleftrightarrow> fst (sp_pop (streams (base s))) = Pop_empty"

text \<open>Every call is defined, keeps the invariant, and signals when it makes a pop succeed.\<close>

lemma psq_call_ok:
  assumes "psq_ok s" "call_ok x"
  obtains s' sg where "psq_call x s = Some (s', sg)" "psq_ok s'" "nothing_to_pop s \<Longrightarrow> \<not> sg \<Longrightarrow> nothing_to_pop s'"
proof -
  note ok = assms(1) [unfolded psq_ok_def]
  note sil = silent_ops_keep_empty [of "streams (base s)"] and pos = ops_keep_positive [of "streams (base s)"]
  have "\<exists>s' sg. psq_call x s = Some (s', sg) \<and> psq_ok s' \<and> (nothing_to_pop s \<longrightarrow> \<not> sg \<longrightarrow> nothing_to_pop s')"
  proof (cases "closed s")
    case True
    then have c: "streams (base s) = []" using ok by simp
    show ?thesis
    proof (cases x)
      case P_clear
      then show ?thesis using sq_laws(5) [of "base s"] ok True c
        by (auto simp: psq_clear_def psq_ok_def sq_rel_def sp_clear_def nothing_to_pop_def ids_positive_def)
    next
      case P_close
      then show ?thesis using close_ok [of "base s"] by (auto simp: psq_close_def psq_ok_def ids_positive_def)
    qed (use True assms in \<open>auto simp: psq_start_def psq_stream_def psq_end_def psq_erase_def intro: exI [of _ False]\<close>)
  next
    case False
    show ?thesis
    proof (cases x)
      case (P_start i)
      then show ?thesis using sq_laws(1) [of "base s" i] ok False sil(1) [of i] pos(1) [of i] assms(2)
        by (auto simp: psq_start_def psq_ok_def sq_rel_def nothing_to_pop_def)
    next
      case (P_stream i d)
      then show ?thesis using sq_laws(2) [of "base s" i d] ok False sil(2) [of i d] pos(2) [of i d]
        by (auto simp: psq_stream_def psq_ok_def sq_rel_def nothing_to_pop_def)
    next
      case (P_end i)
      then show ?thesis using sq_laws(3) [of "base s" i None] ok False sil(3) [of i None] pos(3) [of i None]
        by (auto simp: psq_end_def psq_ok_def sq_rel_def nothing_to_pop_def)
    next
      case (P_erase i e)
      then show ?thesis using sq_laws(4) [of "base s" i e] ok False sil(4) [of i e] pos(4) [of i e]
        by (auto simp: psq_erase_def psq_ok_def sq_rel_def nothing_to_pop_def)
    next
      case P_clear
      then show ?thesis using sq_laws(5) [of "base s"] ok False sil(5) pos(5)
        by (auto simp: psq_clear_def psq_ok_def sq_rel_def nothing_to_pop_def)
    next
      case P_close
      then show ?thesis using close_ok [of "base s"] by (auto simp: psq_close_def psq_ok_def ids_positive_def)
    qed
  qed
  then show thesis using that by blast
qed

lemma sp_pop_empty: "fst (sp_pop S) = Pop_empty \<Longrightarrow> sp_pop S = (Pop_empty, S)"
  by (cases S) (auto simp: sp_pop_def split: list.splits if_splits)

lemma psq_try_ok:
  assumes "psq_ok s"
  obtains s' cs where "psq_try s = Some (s', cs)" "psq_ok s'" "closed s' = closed s"
    "cs = (if nothing_to_pop s then Waiting else Got (Some (fst (sp_pop (streams (base s))))))"
    "nothing_to_pop s \<Longrightarrow> nothing_to_pop s'"
proof -
  obtain q where q: "sq_pop (base s) = Some (fst (sp_pop (streams (base s))), q)"
    "sq_rel q (snd (sp_pop (streams (base s))))"
    using sq_laws(6) [of "base s"] assms by (auto simp: psq_ok_def)
  let ?s = "s\<lparr>base := q\<rparr>"
  have "ids_positive (streams q)" "closed s \<longrightarrow> streams q = []"
    using q(2) assms ops_keep_positive(6) [of "streams (base s)"] by (auto simp: sq_rel_def psq_ok_def sp_pop_def)
  then have "psq_ok ?s" using q(2) by (simp add: psq_ok_def sq_rel_def)
  moreover have "nothing_to_pop ?s" if "nothing_to_pop s"
    using that q(2) sp_pop_empty [of "streams (base s)"] by (simp add: nothing_to_pop_def sq_rel_def)
  ultimately show thesis using q(1)
    by (intro that [of ?s]) (auto simp: psq_try_def nothing_to_pop_def)
qed

text \<open>Executions from the initial state in which the producers use positive ids.\<close>

fun label_ok :: "'t label \<Rightarrow> bool" where
  "label_ok (Call x) = call_ok x"
| "label_ok l = True"

inductive psq_reach :: "('t, 'a) psq \<times> 't pop_result option consumer \<Rightarrow> bool" where
  psq_reach_init: "psq_reach (psq_init, Idle)"
| psq_reach_step: "psq_reach sc \<Longrightarrow> psq_step sc l sc' \<Longrightarrow> label_ok l \<Longrightarrow> psq_reach sc'"

definition psq_inv :: "('t, 'a) psq \<times> 't pop_result option consumer \<Rightarrow> bool" where
  "psq_inv sc \<longleftrightarrow> psq_ok (fst sc) \<and> (snd sc = Waiting \<longrightarrow> nothing_to_pop (fst sc))"

lemma psq_try_inv:
  assumes "psq_ok s" "psq_try s = Some (s', cs)"
  shows "psq_inv (s', cs)"
proof -
  obtain s1 cs1 where "psq_try s = Some (s1, cs1)" "psq_ok s1" "closed s1 = closed s"
    "cs1 = (if nothing_to_pop s then Waiting else Got (Some (fst (sp_pop (streams (base s))))))"
    "nothing_to_pop s \<Longrightarrow> nothing_to_pop s1"
    by (rule psq_try_ok [OF assms(1)]) (rule that)
  then show ?thesis using assms(2) by (auto simp: psq_inv_def split: if_splits)
qed

lemma psq_inv_step:
  assumes "psq_step sc l sc'" "psq_inv sc" "label_ok l"
  shows "psq_inv sc'"
  using assms
proof (induction rule: psq_step.induct)
  case (psq_do_call x s s' sg cs)
  then have "psq_ok s" "call_ok x" by (simp_all add: psq_inv_def)
  then obtain s1 sg1 where "psq_call x s = Some (s1, sg1)" "psq_ok s1" "nothing_to_pop s \<Longrightarrow> \<not> sg1 \<Longrightarrow> nothing_to_pop s1"
    using psq_call_ok by blast
  then show ?case using psq_do_call by (auto simp: psq_inv_def)
next
  case (psq_enter s s' cs)
  then show ?case using psq_try_inv by (simp add: psq_inv_def)
next
  case (psq_wake_up s s' cs)
  then show ?case using psq_try_inv [of s s' cs] by (auto simp: psq_inv_def psq_resume_def split: if_splits)
qed (simp_all add: psq_inv_def)

lemma psq_reach_inv: "psq_reach sc \<Longrightarrow> psq_inv sc"
proof (induction rule: psq_reach.induct)
  case psq_reach_init
  show ?case by (simp add: psq_inv_def psq_ok_def psq_init_def sq_empty_ok ids_positive_def)
next
  case (psq_reach_step sc l sc')
  then show ?case using psq_inv_step by blast
qed

lemma psq_call_signals:
  assumes "psq_call x s = Some (s', sg)" "psq_ok s" "call_ok x" "nothing_to_pop s" "\<not> sg"
  shows "nothing_to_pop s' \<and> x \<noteq> P_close \<and> closed s' = closed s"
proof -
  have "nothing_to_pop s'" by (rule psq_call_ok [OF assms(2,3)]) (use assms in auto)
  moreover have "x \<noteq> P_close \<and> closed s' = closed s"
    using assms(1,5) by (cases x) (auto simp: psq_close_def psq_start_def psq_stream_def psq_end_def psq_erase_def psq_clear_def
        bind_eq_Some_conv split: if_splits)
  ultimately show ?thesis by simp
qed

lemma waiting_on_closed:
  assumes "psq_step (s, cs) l (s', Waiting)" "closed s'" "\<not> (cs = Waiting \<and> closed s)" "psq_inv (s, cs)" "label_ok l"
  shows "cs = Idle \<and> l = Enter \<and> closed s"
  using assms(1)
proof (cases rule: psq_step.cases)
  case (psq_do_call x sg)
  then have "cs = Waiting \<and> \<not> sg" using signal_if_Waiting [of sg cs] by metis
  then have "cs = Waiting" "\<not> sg" "psq_ok s" "nothing_to_pop s" "call_ok x" using psq_do_call assms(4,5) by (auto simp: psq_inv_def)
  then show ?thesis using psq_call_signals [of x s s' sg] psq_do_call assms(2,3) by blast
next
  case psq_enter
  have "closed s = closed s'" using psq_enter(3) by (auto simp: psq_try_def split: Option.bind_splits)
  then show ?thesis using psq_enter assms(2) by simp
next
  case psq_wake_up
  then have "psq_try s = Some (s', Waiting)" "\<not> closed s" by (auto simp: psq_resume_def split: if_splits)
  then show ?thesis using assms(2) by (auto simp: psq_try_def split: Option.bind_splits)
qed

text \<open>
  C14. In every interleaving of producers that use positive ids with a consumer, spurious wake-ups
  included, every call is defined. A waiting consumer has nothing to pop; a call that gives it something to pop,
  or closes the queue, signals it. So the only way to wait on a closed queue is to call \<open>poll\<close> when it is closed already.
\<close>

theorem pending_stream_queue_wakes:
  assumes "psq_reach (s, cs)"
  shows "(\<forall>x. call_ok x \<longrightarrow> psq_call x s \<noteq> None) \<and> psq_try s \<noteq> None \<and> psq_resume s \<noteq> None
       \<and> (cs = Waiting \<longrightarrow> (\<exists>q. sq_pop (base s) = Some (Pop_empty, q)))
       \<and> (\<forall>x s' sg. cs = Waiting \<and> call_ok x \<and> psq_call x s = Some (s', sg)
            \<and> (x = P_close \<or> (\<forall>q. sq_pop (base s') \<noteq> Some (Pop_empty, q))) \<longrightarrow> sg)
       \<and> (\<forall>l s'. psq_step (s, cs) l (s', Waiting) \<and> label_ok l \<and> closed s' \<and> \<not> (cs = Waiting \<and> closed s)
            \<longrightarrow> cs = Idle \<and> l = Enter \<and> closed s)"
proof -
  have I: "psq_inv (s, cs)" by (rule psq_reach_inv [OF assms])
  then have inv: "psq_ok s" "cs = Waiting \<longrightarrow> nothing_to_pop s" by (simp_all add: psq_inv_def)
  have pop: "\<exists>q. sq_pop (base x) = Some (fst (sp_pop (streams (base x))), q)" if "psq_ok x" for x :: "('a, 'b) psq"
    using sq_laws(6) [of "base x"] that by (auto simp: psq_ok_def)
  have "psq_try s \<noteq> None" by (rule psq_try_ok [OF inv(1)]) simp
  moreover have "psq_call x s \<noteq> None" if "call_ok x" for x by (rule psq_call_ok [OF inv(1) that]) simp
  moreover have sg if "cs = Waiting \<and> call_ok x \<and> psq_call x s = Some (s', sg)
      \<and> (x = P_close \<or> (\<forall>q. sq_pop (base s') \<noteq> Some (Pop_empty, q)))" for x s' sg
  proof (rule ccontr)
    assume n: "\<not> sg"
    have "psq_ok s'" by (rule psq_call_ok [OF inv(1), of x]) (use that in auto)
    then show False using psq_call_signals [of x s s' sg] that inv n pop [of s'] by (auto simp: nothing_to_pop_def)
  qed
  moreover have "\<exists>q. sq_pop (base s) = Some (Pop_empty, q)" if "cs = Waiting"
    using inv that pop [OF inv(1)] by (simp add: nothing_to_pop_def)
  ultimately show ?thesis using waiting_on_closed [of s cs] I by (auto simp: psq_resume_def)
qed

theorem pending_stream_queue_wakes_witness:
  "psq_reach (psq_init :: (string, unit) psq, Waiting) \<and> sq_pop (base (psq_init :: (string, unit) psq)) = Some (Pop_empty, sq_empty)"
proof -
  have "psq_step (psq_init :: (string, unit) psq, Idle) Enter (psq_init, Waiting)"
    by (rule psq_enter) (simp add: psq_try_def psq_init_def sq_pop_def sq_empty_def)
  then have r: "psq_reach (psq_init :: (string, unit) psq, Waiting)" using psq_reach_init psq_reach_step by fastforce
  show ?thesis using pending_stream_queue_wakes [OF r] r by (simp add: psq_init_def sq_pop_def sq_empty_def)
qed

text \<open>Executions without a further \<open>close\<close> and without spurious wake-ups.\<close>

inductive psq_without_close ::
  "('t, 'a) psq \<times> 't pop_result option consumer \<Rightarrow> ('t, 'a) psq \<times> 't pop_result option consumer \<Rightarrow> bool" where
  no_step: "psq_without_close sc sc"
| more_steps: "psq_without_close sc sc' \<Longrightarrow> psq_step sc' l sc'' \<Longrightarrow> l \<noteq> Call P_close \<Longrightarrow> l \<noteq> Spurious \<Longrightarrow> psq_without_close sc sc''"

lemma closed_waits_forever:
  assumes "psq_without_close sc sc'" "psq_ok (fst sc)" "closed (fst sc)" "snd sc = Waiting"
  shows "psq_ok (fst sc') \<and> closed (fst sc') \<and> snd sc' = Waiting"
  using assms
proof (induction rule: psq_without_close.induct)
  case (more_steps sc sc' l sc'')
  then have IH: "psq_ok (fst sc')" "closed (fst sc')" "snd sc' = Waiting" by simp_all
  obtain s where s: "sc' = (s, Waiting)" using IH(3) by (cases sc') simp
  then obtain x s' sg where x: "l = Call x" "psq_call x s = Some (s', sg)" "sc'' = (s', signal_if sg Waiting)"
    using more_steps.hyps(2,4) by (auto elim: psq_stepE)
  have e: "streams (base s) = []" "closed s" "psq_ok s" using IH s by (auto simp: psq_ok_def)
  have "s' = s \<and> \<not> sg \<or> (x = P_clear \<and> \<not> sg \<and> psq_ok s' \<and> closed s')"
  proof (cases x)
    case P_clear
    then show ?thesis using x(2) sq_laws(5) [of "base s"] e
      by (auto simp: psq_clear_def psq_ok_def sq_rel_def sp_clear_def ids_positive_def)
  qed (use x more_steps.hyps(3) e in \<open>auto simp: psq_start_def psq_stream_def psq_end_def psq_erase_def\<close>)
  then show ?case using x(3) e by (auto simp: signal_if_def)
qed simp

text \<open>
  C15. \<open>poll\<close> looks at the closed flag only after a wait. A consumer that calls it on a queue that
  is already closed waits, and no call of a producer but a second
  \<open>close\<close> ever wakes it (only a spurious wake-up would).
\<close>

theorem poll_after_close_hangs:
  assumes "psq_reach (s, Idle)" "closed s"
  shows "\<exists>s'. psq_step (s, Idle) Enter (s', Waiting)
           \<and> (\<forall>sc. psq_without_close (s', Waiting) sc \<longrightarrow> snd sc = Waiting)"
proof -
  have ok: "psq_ok s" using psq_reach_inv [OF assms(1)] by (simp add: psq_inv_def)
  then have "nothing_to_pop s" using assms(2) by (simp add: psq_ok_def nothing_to_pop_def sp_pop_def)
  then obtain s' where s': "psq_try s = Some (s', Waiting)" "psq_ok s'" "closed s'"
    using psq_try_ok [OF ok] assms(2) by metis
  then have "psq_step (s, Idle) Enter (s', Waiting)" by (intro psq_enter)
  then show ?thesis using closed_waits_forever [of "(s', Waiting)"] s'(2,3) by auto
qed

theorem poll_after_close_hangs_witness:
  "\<exists>s s' :: (string, unit) psq. psq_reach (s, Idle) \<and> closed s \<and> psq_step (s, Idle) Enter (s', Waiting)
     \<and> (\<forall>sc. psq_without_close (s', Waiting) sc \<longrightarrow> snd sc = Waiting)"
proof -
  let ?s = "fst (psq_close (psq_init :: (string, unit) psq))"
  have "psq_step (psq_init :: (string, unit) psq, Idle) (Call P_close) (?s, signal_if True Idle)"
    by (rule psq_do_call) (simp add: psq_close_def)
  then have "psq_step (psq_init :: (string, unit) psq, Idle) (Call P_close) (?s, Idle)" by (simp add: signal_if_def)
  then have r: "psq_reach (?s, Idle)" using psq_reach_init psq_reach_step by fastforce
  have c: "closed ?s" by (simp add: psq_close_def)
  show ?thesis using poll_after_close_hangs [OF r c] r c by blast
qed

end
