(* ===== verification/PbWire.thy ===== *)
theory PbWire
  imports Prelude
begin

text \<open>
  The wire level of nanopb (speech/nanopb/pb_encode.c, pb_decode.c): streams, variable length and
  fixed width integers, tags, length delimited strings, and skipping. \<open>size_t\<close> has 32 bits
  (the build is for armeabi-v7a), \<open>uint_fast8_t\<close> has 8.

  An output stream keeps its callback (None is the NULL of a sizing stream) with the callback's
  state; an input stream reads from a buffer (the bytes from the state pointer to the end of the
  object) or through a callback of the user. A stream function returns its boolean, the value it
  delivers and the stream; None of \<open>'a c\<close> is undefined behaviour.

  \<open>varint\<close> and \<open>varint_split\<close> are the reference format. The locale \<open>codec\<close> is the contract
  of an encoder and decoder pair, with prefix freedom and the round trip of sequences as
  consequences; the pairs of the code are its interpretations.
\<close>

unbundle bit_operations_syntax

type_synonym size_t = u32

section \<open>Output streams\<close>

record 's ostream =
  ocallback :: "('s \<Rightarrow> byte list \<Rightarrow> (bool \<times> 's) c) option"
  ostate :: 's
  max_size :: size_t
  bytes_written :: size_t
  oerr :: "string option"

text \<open>\<open>PB_RETURN_ERROR\<close> keeps the first message.\<close>

definition set_oerr :: "string \<Rightarrow> 's ostream \<Rightarrow> 's ostream" where
  "set_oerr msg st = st\<lparr>oerr := (case oerr st of None \<Rightarrow> Some msg | Some m \<Rightarrow> Some m)\<rparr>"

type_synonym obuf = "byte list \<times> int"

definition buf_write :: "obuf \<Rightarrow> byte list \<Rightarrow> (bool \<times> obuf) c" where
  "buf_write s bs = do {
     b \<leftarrow> mem_store (fst s) (snd s) bs;
     Some (True, (b, snd s + int (length bs))) }"

definition pb_ostream_from_buffer :: "byte list \<Rightarrow> size_t \<Rightarrow> obuf ostream" where
  "pb_ostream_from_buffer buf bufsize =
     \<lparr>ocallback = Some buf_write, ostate = (buf, 0), max_size = bufsize, bytes_written = 0, oerr = None\<rparr>"

definition sizing_stream :: "'s \<Rightarrow> 's ostream" where
  "sizing_stream s = \<lparr>ocallback = None, ostate = s, max_size = 0, bytes_written = 0, oerr = None\<rparr>"

text \<open>The \<open>count\<close> bytes at a pointer; None is NULL.\<close>

definition bytes_at :: "byte list option \<Rightarrow> size_t \<Rightarrow> byte list c" where
  "bytes_at buf count =
     (case buf of
        None \<Rightarrow> if count = 0 then Some [] else None
      | Some b \<Rightarrow> if unat count \<le> length b then Some (take (unat count) b) else None)"

definition pb_write :: "'s ostream \<Rightarrow> byte list option \<Rightarrow> size_t \<Rightarrow> (bool \<times> 's ostream) c" where
  "pb_write st buf count =
     (case ocallback st of
        None \<Rightarrow> Some (True, st\<lparr>bytes_written := bytes_written st + count\<rparr>)
      | Some f \<Rightarrow>
          if max_size st < bytes_written st + count then Some (False, set_oerr ''stream full'' st)
          else do {
            bs \<leftarrow> bytes_at buf count;
            (ok, s) \<leftarrow> f (ostate st) bs;
            let st1 = st\<lparr>ostate := s\<rparr>;
            if \<not> ok then Some (False, set_oerr ''io error'' st1)
            else Some (True, st1\<lparr>bytes_written := bytes_written st1 + count\<rparr>) })"

text \<open>\<open>if (!a) return false; b\<close>\<close>

definition and_write :: "(bool \<times> 's ostream) c \<Rightarrow> ('s ostream \<Rightarrow> (bool \<times> 's ostream) c) \<Rightarrow> (bool \<times> 's ostream) c" where
  "and_write a b = do { (ok, st) \<leftarrow> a; if ok then b st else Some (False, st) }"

function varint_fill :: "u64 \<Rightarrow> byte list \<Rightarrow> byte list c" where
  "varint_fill val buf =
     (if val = 0 then Some buf
      else if 10 \<le> length buf then None
      else varint_fill (drop_bit 7 val) (buf @ [ucast ((val AND 0x7F) OR 0x80)]))"
  by pat_completeness auto
termination
proof (relation "measure (\<lambda>(v, b). unat v)")
  fix val :: u64 and buf :: "byte list"
  assume "val \<noteq> 0"
  then have "0 < unat val" by (simp add: word_neq_0_conv word_less_nat_alt)
  then show "((drop_bit 7 val, buf @ [ucast ((val AND 0x7F) OR 0x80)]), val, buf) \<in> measure (\<lambda>(v, b). unat v)"
    by (simp add: unat_div drop_bit_eq_div)
qed simp

declare varint_fill.simps [simp del]

definition pb_encode_varint :: "'s ostream \<Rightarrow> u64 \<Rightarrow> (bool \<times> 's ostream) c" where
  "pb_encode_varint st val =
     (if val \<le> 0x7F then pb_write st (Some [ucast val]) 1
      else do {
        buffer \<leftarrow> varint_fill val [];
        let i = length buffer;
        let buffer = buffer[i - 1 := buffer ! (i - 1) AND 0x7F];
        pb_write st (Some buffer) (of_nat i) })"

definition pb_encode_svarint :: "'s ostream \<Rightarrow> u64 \<Rightarrow> (bool \<times> 's ostream) c" where
  "pb_encode_svarint st val =
     (let zigzagged = (if sint val < 0 then NOT (push_bit 1 val) else push_bit 1 val)
      in pb_encode_varint st zigzagged)"

definition pb_encode_fixed32 :: "'s ostream \<Rightarrow> u32 \<Rightarrow> (bool \<times> 's ostream) c" where
  "pb_encode_fixed32 st val =
     pb_write st (Some [ucast (val AND 0xFF), ucast (drop_bit 8 val AND 0xFF),
       ucast (drop_bit 16 val AND 0xFF), ucast (drop_bit 24 val AND 0xFF)]) 4"

definition pb_encode_fixed64 :: "'s ostream \<Rightarrow> u64 \<Rightarrow> (bool \<times> 's ostream) c" where
  "pb_encode_fixed64 st val =
     pb_write st (Some [ucast (val AND 0xFF), ucast (drop_bit 8 val AND 0xFF),
       ucast (drop_bit 16 val AND 0xFF), ucast (drop_bit 24 val AND 0xFF),
       ucast (drop_bit 32 val AND 0xFF), ucast (drop_bit 40 val AND 0xFF),
       ucast (drop_bit 48 val AND 0xFF), ucast (drop_bit 56 val AND 0xFF)]) 8"

type_synonym wire_type = u32

definition PB_WT_VARINT :: wire_type where "PB_WT_VARINT = 0"
definition PB_WT_64BIT :: wire_type where "PB_WT_64BIT = 1"
definition PB_WT_STRING :: wire_type where "PB_WT_STRING = 2"
definition PB_WT_32BIT :: wire_type where "PB_WT_32BIT = 5"

lemmas wire_types = PB_WT_VARINT_def PB_WT_64BIT_def PB_WT_STRING_def PB_WT_32BIT_def

definition pb_encode_tag :: "'s ostream \<Rightarrow> wire_type \<Rightarrow> u32 \<Rightarrow> (bool \<times> 's ostream) c" where
  "pb_encode_tag st wiretype field_number =
     pb_encode_varint st (push_bit 3 (ucast field_number) OR ucast wiretype)"

definition pb_encode_string :: "'s ostream \<Rightarrow> byte list option \<Rightarrow> size_t \<Rightarrow> (bool \<times> 's ostream) c" where
  "pb_encode_string st buffer sz =
     and_write (pb_encode_varint st (ucast sz)) (\<lambda>st. pb_write st buffer sz)"

section \<open>Input streams\<close>

datatype 's source =
    Buf "byte list"
  | User "'s \<Rightarrow> nat \<Rightarrow> (byte list option \<times> 's) c" 's

record 's istream =
  source :: "'s source"
  bytes_left :: size_t
  ierr :: "string option"

definition set_ierr :: "string \<Rightarrow> 's istream \<Rightarrow> 's istream" where
  "set_ierr msg st = st\<lparr>ierr := (case ierr st of None \<Rightarrow> Some msg | Some m \<Rightarrow> Some m)\<rparr>"

definition buf_read :: "byte list \<Rightarrow> nat \<Rightarrow> (byte list \<times> byte list) c" where
  "buf_read s count = (if count \<le> length s then Some (take count s, drop count s) else None)"

text \<open>A call of \<open>stream->callback\<close>; a callback of the user delivers the bytes asked for.\<close>

fun call_read :: "'s source \<Rightarrow> nat \<Rightarrow> (byte list option \<times> 's source) c" where
  "call_read (Buf s) n = do { (bs, s1) \<leftarrow> buf_read s n; Some (Some bs, Buf s1) }"
| "call_read (User f s) n = do {
     (r, s1) \<leftarrow> f s n;
     (case r of None \<Rightarrow> Some (None, User f s1)
      | Some bs \<Rightarrow> if length bs = n then Some (Some bs, User f s1) else None) }"

type_synonym ('s, 'a) rd = "'s istream \<Rightarrow> ('a option \<times> 's istream) c"

definition rd_return :: "'a \<Rightarrow> ('s, 'a) rd" where
  "rd_return x st = Some (Some x, st)"

definition rd_error :: "string \<Rightarrow> ('s, 'a) rd" where
  "rd_error msg st = Some (None, set_ierr msg st)"

text \<open>\<open>if (!m(stream, &x)) return false; f(x)\<close>\<close>

definition rd_bind :: "('s, 'a) rd \<Rightarrow> ('a \<Rightarrow> ('s, 'b) rd) \<Rightarrow> ('s, 'b) rd" where
  "rd_bind m f st =
     (case m st of None \<Rightarrow> None | Some (None, st1) \<Rightarrow> Some (None, st1) | Some (Some x, st1) \<Rightarrow> f x st1)"

definition read_some :: "size_t \<Rightarrow> ('s, byte list) rd" where
  "read_some count st =
     (if bytes_left st < count then rd_error ''end-of-stream'' st
      else do {
        (r, src) \<leftarrow> call_read (source st) (unat count);
        let st1 = st\<lparr>source := src\<rparr>;
        (case r of
           None \<Rightarrow> rd_error ''io error'' st1
         | Some bs \<Rightarrow> Some (Some bs, st1\<lparr>bytes_left := bytes_left st1 - count\<rparr>)) })"

function skip_user :: "size_t \<Rightarrow> ('s, byte list) rd" where
  "skip_user count st =
     (if 16 < count
      then (case read_some 16 st of
              None \<Rightarrow> None
            | Some (None, st1) \<Rightarrow> Some (None, st1)
            | Some (Some tmp, st1) \<Rightarrow> skip_user (count - 16) st1)
      else read_some count st)"
  by pat_completeness auto
termination
  by (relation "measure (\<lambda>(n, st). unat n)") (auto simp: word_less_nat_alt unat_sub_if')

declare skip_user.simps [simp del]

text \<open>\<open>null_buf\<close>: the caller passes NULL, that is, skips.\<close>

definition pb_read :: "bool \<Rightarrow> size_t \<Rightarrow> ('s, byte list) rd" where
  "pb_read null_buf count st =
     (case source st of
        User f s \<Rightarrow> if null_buf then skip_user count st else read_some count st
      | Buf s \<Rightarrow> read_some count st)"

definition pb_readbyte :: "('s, byte) rd" where
  "pb_readbyte st =
     (if bytes_left st = 0 then rd_error ''end-of-stream'' st
      else do {
        (r, src) \<leftarrow> call_read (source st) 1;
        let st1 = st\<lparr>source := src\<rparr>;
        (case r of
           None \<Rightarrow> rd_error ''io error'' st1
         | Some bs \<Rightarrow> Some (Some (bs ! 0), st1\<lparr>bytes_left := bytes_left st1 - 1\<rparr>)) })"

definition pb_istream_from_buffer :: "byte list \<Rightarrow> size_t \<Rightarrow> 's istream" where
  "pb_istream_from_buffer buf bufsize = \<lparr>source = Buf buf, bytes_left = bufsize, ierr = None\<rparr>"

lemma readbyte_left:
  assumes "pb_readbyte st = Some (Some b, st1)"
  shows "unat (bytes_left st1) < unat (bytes_left st)"
proof -
  have "bytes_left st \<noteq> 0" "bytes_left st1 = bytes_left st - 1"
    using assms by (auto simp: pb_readbyte_def rd_error_def Let_def split: if_splits bind_splits option.splits)
  then show ?thesis
    by (simp add: unat_minus_one word_neq_0_conv word_less_nat_alt)
qed

section \<open>Decoding\<close>

text \<open>
  The loop of \<open>pb_decode_varint32_eof\<close> for the bytes behind the first one. \<open>bitpos\<close> is a
  \<open>uint_fast8_t\<close>: it wraps at 256.
\<close>

definition varint32_step :: "u32 \<Rightarrow> byte \<Rightarrow> byte \<Rightarrow> u32 option" where
  "varint32_step result bitpos b =
     (if 32 \<le> bitpos
      then (let sign_extension = (if bitpos < 63 then 0xFF else 0x01)
            in if (b AND 0x7F) \<noteq> 0 \<and> (drop_bit 31 result = 0 \<or> b \<noteq> sign_extension)
               then None else Some result)
      else Some (result OR push_bit (unat bitpos) (ucast (b AND 0x7F))))"

function varint32_loop :: "u32 \<Rightarrow> byte \<Rightarrow> ('s, u32) rd" where
  "varint32_loop result bitpos st =
     (case pb_readbyte st of
        None \<Rightarrow> None
      | Some (None, st1) \<Rightarrow> Some (None, st1)
      | Some (Some b, st1) \<Rightarrow>
          (case varint32_step result bitpos b of
             None \<Rightarrow> rd_error ''varint overflow'' st1
           | Some result1 \<Rightarrow>
               (if b AND 0x80 \<noteq> 0 then varint32_loop result1 (bitpos + 7) st1
                else if bitpos + 7 = 35 \<and> b AND 0x70 \<noteq> 0 then rd_error ''varint overflow'' st1
                else Some (Some result1, st1))))"
  by pat_completeness auto
termination
  by (relation "measure (\<lambda>(r, p, st). unat (bytes_left st))") (auto dest: readbyte_left)

declare varint32_loop.simps [simp del]

text \<open>The result, whether \<open>*eof\<close> was set, and the stream.\<close>

definition pb_decode_varint32_eof :: "'s istream \<Rightarrow> (u32 option \<times> bool \<times> 's istream) c" where
  "pb_decode_varint32_eof st =
     (case pb_readbyte st of
        None \<Rightarrow> None
      | Some (None, st1) \<Rightarrow> Some (None, bytes_left st1 = 0, st1)
      | Some (Some b, st1) \<Rightarrow>
          (if b AND 0x80 = 0 then Some (Some (ucast b), False, st1)
           else do {
             (r, st2) \<leftarrow> varint32_loop (ucast (b AND 0x7F)) 7 st1;
             Some (r, False, st2) }))"

definition pb_decode_varint32 :: "('s, u32) rd" where
  "pb_decode_varint32 st = do { (r, eof, st1) \<leftarrow> pb_decode_varint32_eof st; Some (r, st1) }"

function varint_loop :: "u64 \<Rightarrow> byte \<Rightarrow> ('s, u64) rd" where
  "varint_loop result bitpos st =
     (if 64 \<le> bitpos then rd_error ''varint overflow'' st
      else (case pb_readbyte st of
        None \<Rightarrow> None
      | Some (None, st1) \<Rightarrow> Some (None, st1)
      | Some (Some b, st1) \<Rightarrow>
          (let result1 = result OR push_bit (unat bitpos) (ucast (b AND 0x7F))
           in if b AND 0x80 \<noteq> 0 then varint_loop result1 (bitpos + 7) st1
              else Some (Some result1, st1))))"
  by pat_completeness auto
termination
  by (relation "measure (\<lambda>(r, p, st). unat (bytes_left st))") (auto dest: readbyte_left)

declare varint_loop.simps [simp del]

definition pb_decode_varint :: "('s, u64) rd" where
  "pb_decode_varint st = varint_loop 0 0 st"

lemma read_some_left:
  assumes "read_some 1 st = Some (Some bs, st1)"
  shows "unat (bytes_left st1) < unat (bytes_left st)"
proof -
  have "bytes_left st \<noteq> 0" "bytes_left st1 = bytes_left st - 1"
    using assms
    by (auto simp: read_some_def rd_error_def Let_def word_less_nat_alt split: if_splits bind_splits option.splits)
  then show ?thesis by (simp add: unat_minus_one word_neq_0_conv word_less_nat_alt)
qed

lemma pb_read_data: "pb_read False n st = read_some n st"
  by (simp add: pb_read_def split: source.split)

function pb_skip_varint :: "('s, unit) rd" where
  "pb_skip_varint st =
     (case pb_read False 1 st of
        None \<Rightarrow> None
      | Some (None, st1) \<Rightarrow> Some (None, st1)
      | Some (Some bs, st1) \<Rightarrow> if bs ! 0 AND 0x80 \<noteq> 0 then pb_skip_varint st1 else Some (Some (), st1))"
  by pat_completeness auto
termination
  by (relation "measure (\<lambda>st. unat (bytes_left st))") (auto simp: pb_read_data dest: read_some_left)

declare pb_skip_varint.simps [simp del]

definition rd_ignore :: "('s, 'a) rd \<Rightarrow> ('s, unit) rd" where
  "rd_ignore m = rd_bind m (\<lambda>_. rd_return ())"

definition pb_skip_string :: "('s, unit) rd" where
  "pb_skip_string = rd_bind pb_decode_varint32 (\<lambda>length. rd_ignore (pb_read True length))"

text \<open>The wire type and the tag, and \<open>*eof\<close>.\<close>

definition pb_decode_tag :: "'s istream \<Rightarrow> ((wire_type \<times> u32) option \<times> bool \<times> 's istream) c" where
  "pb_decode_tag st = do {
     (r, eof, st1) \<leftarrow> pb_decode_varint32_eof st;
     (case r of
        None \<Rightarrow> Some (None, eof, st1)
      | Some temp \<Rightarrow>
          if temp = 0 then Some (None, True, st1)
          else Some (Some (temp AND 7, drop_bit 3 temp), eof, st1)) }"

definition pb_skip_field :: "wire_type \<Rightarrow> ('s, unit) rd" where
  "pb_skip_field wt =
     (if wt = PB_WT_VARINT then pb_skip_varint
      else if wt = PB_WT_64BIT then rd_ignore (pb_read True 8)
      else if wt = PB_WT_STRING then pb_skip_string
      else if wt = PB_WT_32BIT then rd_ignore (pb_read True 4)
      else rd_error ''invalid wire_type'')"

text \<open>
  \<open>buf\<close> holds the bytes read so far (\<open>*size - 1\<close> of them when the body of the loop starts).
\<close>

function raw_varint :: "size_t \<Rightarrow> byte list \<Rightarrow> ('s, byte list) rd" where
  "raw_varint max_sz buf st =
     (if max_sz < of_nat (length buf) + 1 then Some (None, st)
      else (case pb_read False 1 st of
        None \<Rightarrow> None
      | Some (None, st1) \<Rightarrow> Some (None, st1)
      | Some (Some bs, st1) \<Rightarrow>
          if bs ! 0 AND 0x80 \<noteq> 0 then raw_varint max_sz (buf @ [bs ! 0]) st1
          else Some (Some (buf @ [bs ! 0]), st1)))"
  by pat_completeness auto
termination
  by (relation "measure (\<lambda>(m, b, st). unat (bytes_left st))") (auto simp: pb_read_data dest: read_some_left)

declare raw_varint.simps [simp del]

definition read_raw_value :: "wire_type \<Rightarrow> size_t \<Rightarrow> ('s, byte list) rd" where
  "read_raw_value wt max_sz =
     (if wt = PB_WT_VARINT then raw_varint max_sz []
      else if wt = PB_WT_64BIT then pb_read False 8
      else if wt = PB_WT_32BIT then pb_read False 4
      else rd_error ''invalid wire_type'')"

text \<open>The substream; the parent keeps its position until the substream is closed.\<close>

definition pb_make_string_substream :: "('s, 's istream) rd" where
  "pb_make_string_substream =
     rd_bind pb_decode_varint32 (\<lambda>sz st.
       if bytes_left st < sz then rd_error ''parent stream too short'' st
       else Some (Some (st\<lparr>bytes_left := sz\<rparr>), st\<lparr>bytes_left := bytes_left st - sz\<rparr>))"

definition pb_close_string_substream :: "'s istream \<Rightarrow> ('s, unit) rd" where
  "pb_close_string_substream sub st = do {
     (ok, sub1) \<leftarrow> (if bytes_left sub \<noteq> 0
                     then do { (r, s) \<leftarrow> pb_read True (bytes_left sub) sub; Some (r \<noteq> None, s) }
                     else Some (True, sub));
     if \<not> ok then Some (None, st)
     else Some (Some (), st\<lparr>source := source sub1, ierr := ierr sub1\<rparr>) }"

definition pb_decode_svarint :: "('s, u64) rd" where
  "pb_decode_svarint =
     rd_bind pb_decode_varint (\<lambda>v.
       rd_return (if v AND 1 \<noteq> 0 then NOT (drop_bit 1 v) else drop_bit 1 v))"

definition pb_decode_fixed32 :: "('s, u32) rd" where
  "pb_decode_fixed32 =
     rd_bind (pb_read False 4) (\<lambda>b. rd_return
       (ucast (b ! 0) OR push_bit 8 (ucast (b ! 1)) OR push_bit 16 (ucast (b ! 2)) OR push_bit 24 (ucast (b ! 3))))"

definition pb_decode_fixed64 :: "('s, u64) rd" where
  "pb_decode_fixed64 =
     rd_bind (pb_read False 8) (\<lambda>b. rd_return
       (ucast (b ! 0) OR push_bit 8 (ucast (b ! 1)) OR push_bit 16 (ucast (b ! 2)) OR push_bit 24 (ucast (b ! 3))
        OR push_bit 32 (ucast (b ! 4)) OR push_bit 40 (ucast (b ! 5)) OR push_bit 48 (ucast (b ! 6))
        OR push_bit 56 (ucast (b ! 7))))"

section \<open>The reference format\<close>

fun varint :: "nat \<Rightarrow> byte list" where
  "varint n = (if n < 128 then [of_nat n] else of_nat (n mod 128 + 128) # varint (n div 128))"

fun varint_split :: "byte list \<Rightarrow> (byte list \<times> byte list) option" where
  "varint_split [] = None"
| "varint_split (b # bs) =
     (if b < 128 then Some ([b], bs) else map_option (\<lambda>(p, r). (b # p, r)) (varint_split bs))"

fun payload :: "byte list \<Rightarrow> nat" where
  "payload [] = 0"
| "payload (b # bs) = unat b mod 128 + 128 * payload bs"

declare varint.simps [simp del]

lemma and_7F: "x AND 0x7F = take_bit 7 (x :: 'a::len word)"
  by (simp add: take_bit_eq_mask mask_eq_exp_minus_1)

lemma unat_take_7: "8 \<le> LENGTH('a) \<Longrightarrow> unat (take_bit 7 (x :: 'a::len word)) = unat x mod 128"
  using unsigned_take_bit_eq [of 7 x, where ?'a = nat] by (simp only: take_bit_eq_mod) simp

lemma even_div_lt: "n < 256 \<Longrightarrow> even (n div 128) \<longleftrightarrow> n < (128::nat)"
proof -
  assume "n < 256"
  then have "n div 128 < 2" by (simp add: less_mult_imp_div_less)
  then show ?thesis by (cases "n < 128") (auto simp: less_2_cases_iff div_eq_0_iff)
qed

lemma byte_high: "(b :: byte) AND 0x80 = 0 \<longleftrightarrow> b < 128"
proof -
  have "b AND 0x80 = 0 \<longleftrightarrow> \<not> bit b 7"
    using and_exp_eq_0_iff_not_bit [of b 7] by simp
  also have "\<dots> \<longleftrightarrow> \<not> bit (unat b) 7" by (simp add: bit_unsigned_iff)
  also have "\<dots> \<longleftrightarrow> unat b < 128"
    using unsigned_less [of b, where ?'a = nat] by (auto simp: bit_iff_odd even_div_lt)
  finally show ?thesis by (simp add: word_less_nat_alt)
qed

lemma byte_cont: "ucast ((x AND 0x7F) OR 0x80 :: u64) = (of_nat (unat x mod 128 + 128) :: byte)"
proof -
  have "(x AND 0x7F) AND 0x80 = 0"
    by (simp add: and.assoc)
  then have "(x AND 0x7F) OR 0x80 = (x AND 0x7F) + 0x80"
    by (rule disjunctive_add_eq_or [symmetric])
  moreover have "unat (take_bit 7 x + 0x80) = unat x mod 128 + 128"
    by (subst unat_add_lem [THEN iffD1]) (simp_all add: unat_take_7)
  moreover have "ucast y = (of_nat (unat y) :: byte)" for y :: u64
    by (simp add: unsigned_of_nat)
  ultimately show ?thesis
    by (simp only: and_7F)
qed

lemma byte_cont_clear: "d < 128 \<Longrightarrow> (of_nat (d + 128) :: byte) AND 0x7F = of_nat d"
  unfolding word_unat_eq_iff and_7F
  by (subst unat_take_7) (simp_all add: unsigned_of_nat take_bit_eq_mod mod_mod_cancel del: of_nat_add)

section \<open>Encoding\<close>

fun digits :: "nat \<Rightarrow> nat list" where
  "digits n = (if n = 0 then [] else n mod 128 # digits (n div 128))"

declare digits.simps [simp del]

lemma digits_0 [simp]: "digits 0 = []" by (simp add: digits.simps)

lemma digits_pos: "0 < n \<Longrightarrow> digits n = n mod 128 # digits (n div 128)" by (subst digits.simps) simp

lemma digits_length: "n < 128 ^ k \<Longrightarrow> length (digits n) \<le> k"
proof (induction k arbitrary: n)
  case (Suc k)
  have "n div 128 < 128 ^ k" using Suc.prems by (intro less_mult_imp_div_less) (simp add: mult.commute)
  then show ?case using Suc.IH by (cases "n = 0") (simp_all add: digits_pos)
qed (simp add: digits.simps)

lemma digits_less: "d \<in> set (digits n) \<Longrightarrow> d < 128"
proof (induction n rule: less_induct)
  case (less n)
  show ?case using less.prems less.IH [of "n div 128"] by (cases "n = 0") (auto simp: digits_pos)
qed

lemma varint_digits:
  "0 < n \<Longrightarrow> varint n = map (\<lambda>d. of_nat (d + 128)) (butlast (digits n)) @ [of_nat (last (digits n))]"
proof (induction n rule: less_induct)
  case (less n)
  show ?case
  proof (cases "n < 128")
    case True
    then show ?thesis using less.prems by (subst varint.simps) (simp add: digits_pos)
  next
    case False
    then have m: "0 < n div 128" "n div 128 < n" by (simp_all add: div_greater_zero_iff)
    then have "digits (n div 128) \<noteq> []" by (simp add: digits_pos)
    then show ?thesis using less.IH [OF m(2,1)] less.prems False
      by (subst varint.simps) (simp add: digits_pos)
  qed
qed

lemma varint_fill_digits:
  "length buf + length (digits (unat v)) \<le> 10 \<Longrightarrow>
     varint_fill v buf = Some (buf @ map (\<lambda>d. of_nat (d + 128)) (digits (unat v)))"
proof (induction v buf rule: varint_fill.induct)
  case (1 v buf)
  show ?case
  proof (cases "v = 0")
    case False
    then have d: "digits (unat v) = unat v mod 128 # digits (unat v div 128)"
      by (simp add: digits_pos unat_gt_0)
    have u: "unat (drop_bit 7 v) = unat v div 128" by (simp add: unat_div drop_bit_eq_div)
    have "varint_fill (drop_bit 7 v) (buf @ [ucast ((v AND 0x7F) OR 0x80)]) =
        Some ((buf @ [of_nat (unat v mod 128 + 128)]) @ map (\<lambda>d. of_nat (d + 128)) (digits (unat v div 128)))"
      using "1.IH" [OF False] "1.prems" unfolding u d byte_cont by simp
    moreover have "\<not> 10 \<le> length buf" using "1.prems" d by simp
    ultimately show ?thesis using False
      by (subst varint_fill.simps) (simp add: d)
  qed (simp add: varint_fill.simps)
qed

lemma digits_u64: "length (digits (unat (v :: u64))) \<le> 10"
proof (rule digits_length)
  have "unat v < 2 ^ 64" using unsigned_less [of v, where ?'a = nat] by simp
  also have "\<dots> \<le> 128 ^ 10" by simp
  finally show "unat v < 128 ^ 10" .
qed

lemma list_update_last: "xs \<noteq> [] \<Longrightarrow> xs[length xs - 1 := f (xs ! (length xs - 1))] = butlast xs @ [f (last xs)]"
  by (induction xs rule: rev_induct) auto

definition put :: "byte list \<Rightarrow> 's ostream \<Rightarrow> (bool \<times> 's ostream) c" where
  "put bs st = pb_write st (Some bs) (of_nat (length bs))"

lemma encode_varint_put: "pb_encode_varint st v = put (varint (unat v)) st"
proof (cases "v \<le> 0x7F")
  case True
  then have "unat v < 128" by (simp add: word_le_nat_alt)
  moreover have "ucast v = (of_nat (unat v) :: byte)" by (simp add: unsigned_of_nat)
  ultimately show ?thesis using True by (simp add: pb_encode_varint_def put_def varint.simps)
next
  case False
  then have n: "0 < unat v" by (simp add: word_le_nat_alt)
  then have ne: "digits (unat v) \<noteq> []" by (simp add: digits_pos)
  let ?f = "\<lambda>d. of_nat (d + 128) :: byte"
  have "varint_fill v [] = Some (map ?f (digits (unat v)))"
    using varint_fill_digits [of "[]" v] digits_u64 [of v] by simp
  moreover have "last (map ?f (digits (unat v))) AND 0x7F = of_nat (last (digits (unat v)))"
    using ne digits_less [of "last (digits (unat v))" "unat v"] by (simp add: last_map byte_cont_clear del: of_nat_add)
  ultimately show ?thesis using False ne
    list_update_last [of "map ?f (digits (unat v))" "\<lambda>b. b AND 0x7F"]
    by (simp add: pb_encode_varint_def put_def varint_digits [OF n] map_butlast Let_def del: of_nat_add)
qed
section \<open>Reading from a buffer\<close>

text \<open>A stream on a buffer: what it may still read, and what lies behind that in the object.\<close>

definition buf_at :: "byte list \<Rightarrow> byte list \<Rightarrow> string option \<Rightarrow> 's istream" where
  "buf_at xs rest e = \<lparr>source = Buf (xs @ rest), bytes_left = of_nat (length xs), ierr = e\<rparr>"

abbreviation fits :: "'a list \<Rightarrow> bool" where "fits xs \<equiv> length xs < 2 ^ 32"

lemma buf_at_inj: "fits xs \<Longrightarrow> fits ys \<Longrightarrow> buf_at xs r e = buf_at ys r' e' \<longleftrightarrow> xs = ys \<and> r = r' \<and> e = e'"
  by (auto simp: buf_at_def word_of_nat_eq_iff take_bit_nat_eq_self)

lemma pb_istream_from_buffer_at: "pb_istream_from_buffer xs (of_nat (length xs)) = buf_at xs [] None"
  by (simp add: pb_istream_from_buffer_def buf_at_def)

lemma of_nat_u32: "n < 2 ^ 32 \<Longrightarrow> unat (of_nat n :: u32) = n"
  by (simp add: unsigned_of_nat take_bit_nat_eq_self)

lemma readbyte_Nil [simp]: "pb_readbyte (buf_at [] rest e) = Some (None, set_ierr ''end-of-stream'' (buf_at [] rest e))"
  by (simp add: pb_readbyte_def buf_at_def rd_error_def)

lemma readbyte_Cons [simp]:
  "fits (x # xs) \<Longrightarrow> pb_readbyte (buf_at (x # xs) rest e) = Some (Some x, buf_at xs rest e)"
proof -
  assume f: "fits (x # xs)"
  then have "(1 :: u32) + of_nat (length xs) \<noteq> 0"
    using of_nat_u32 [of "length (x # xs)"] by auto
  then show ?thesis by (simp add: pb_readbyte_def buf_at_def buf_read_def)
qed

lemma set_ierr_at: "set_ierr msg (buf_at xs r e) = buf_at xs r (case e of None \<Rightarrow> Some msg | Some m \<Rightarrow> Some m)"
  by (simp add: set_ierr_def buf_at_def)

lemma read_some_at:
  assumes "fits xs"
  shows "read_some n (buf_at xs rest e) =
    (if unat n \<le> length xs then Some (Some (take (unat n) xs), buf_at (drop (unat n) xs) rest e)
     else rd_error ''end-of-stream'' (buf_at xs rest e))"
proof -
  have l: "(of_nat (length xs) :: u32) < n \<longleftrightarrow> length xs < unat n"
    using assms by (simp add: word_less_nat_alt of_nat_u32)
  have "(of_nat (length xs - unat n) :: u32) = of_nat (length xs) - n" if "unat n \<le> length xs"
    using that by (simp add: of_nat_diff)
  then show ?thesis by (auto simp: read_some_def buf_at_def l buf_read_def)
qed

lemma pb_read_at:
  "fits xs \<Longrightarrow> pb_read nul n (buf_at xs rest e) =
    (if unat n \<le> length xs then Some (Some (take (unat n) xs), buf_at (drop (unat n) xs) rest e)
     else rd_error ''end-of-stream'' (buf_at xs rest e))"
proof -
  have "pb_read nul n (buf_at xs rest e) = read_some n (buf_at xs rest e)" by (simp add: pb_read_def buf_at_def)
  then show "fits xs \<Longrightarrow> ?thesis" by (simp add: read_some_at)
qed

lemma pb_read_exact:
  "fits (xs @ ys) \<Longrightarrow> n = of_nat (length xs) \<Longrightarrow> pb_read nul n (buf_at (xs @ ys) rest e) = Some (Some xs, buf_at ys rest e)"
  by (simp add: pb_read_at of_nat_u32)

text \<open>What the 64-bit decoder does on any input.\<close>

lemma or_push_add:
  assumes "unat (r :: 'a::len word) < 2 ^ n"
  shows "r OR push_bit n x = r + push_bit n x"
proof (rule disjunctive_add_eq_or [symmetric])
  have "\<not> bit r i" if "n \<le> i" for i
  proof -
    have "unat r < 2 ^ i" using assms that power_increasing [of n i "2::nat"] by linarith
    then have "\<not> bit (unat r) i" by (simp add: bit_iff_odd)
    then show ?thesis by (auto simp: bit_unsigned_iff dest: bit_imp_le_length)
  qed
  then show "r AND push_bit n x = 0"
    by (intro bit_word_eqI) (auto simp: bit_simps)
qed

lemma varint_acc:
  assumes "acc < 2 ^ n" "n < 64"
  shows "(of_nat acc :: u64) OR push_bit n (ucast (b AND 0x7F :: byte)) = of_nat (acc + 2 ^ n * (unat b mod 128))"
proof -
  have "acc < 2 ^ 64" using assms power_strict_increasing [of n 64 "2::nat"] by linarith
  then have "unat (of_nat acc :: u64) < 2 ^ n" using assms by (simp add: unsigned_of_nat take_bit_nat_eq_self)
  moreover have "(ucast (b AND 0x7F) :: u64) = of_nat (unat b mod 128)"
    unfolding and_7F by (subst unat_take_7 [symmetric]) simp_all
  ultimately show ?thesis
    by (simp only: or_push_add) (simp add: push_bit_eq_mult mult.commute)
qed
lemma acc_step: "acc < m \<Longrightarrow> d < 128 \<Longrightarrow> acc + m * d < m * (128 :: nat)"
proof -
  assume "acc < m" "d < 128"
  then have "acc + m * d < m * (d + 1)" "m * (d + 1) \<le> m * 128" by (auto intro: mult_le_mono2)
  then show ?thesis by (rule less_le_trans)
qed

lemma varint_loop_at:
  "fits xs \<Longrightarrow> k \<le> 10 \<Longrightarrow> (k < 10 \<longrightarrow> acc < 2 ^ (7 * k)) \<Longrightarrow>
   varint_loop (of_nat acc) (of_nat (7 * k)) (buf_at xs rest e :: 's istream) =
    (case varint_split (take (10 - k) xs) of
       Some (p, r) \<Rightarrow> Some (Some (of_nat (acc + 2 ^ (7 * k) * payload p)), buf_at (drop (length p) xs) rest e)
     | None \<Rightarrow> if length xs < 10 - k then rd_error ''end-of-stream'' (buf_at [] rest e)
               else rd_error ''varint overflow'' (buf_at (drop (10 - k) xs) rest e))"
proof (induction xs arbitrary: k acc)
  case (Cons b bs)
  have bp: "unat (of_nat (7 * k) :: byte) = 7 * k"
    using Cons.prems(2) by (simp add: unsigned_of_nat take_bit_nat_eq_self del: of_nat_mult)
  then have pos: "(64 :: byte) \<le> of_nat (7 * k) \<longleftrightarrow> k = 10"
    using Cons.prems(2) by (simp only: word_le_nat_alt) (auto simp: unat_numeral)
  show ?case
  proof (cases "k = 10")
    case False
    then have k: "k < 10" "acc < 2 ^ (7 * k)" using Cons.prems by auto
    then obtain j where j: "10 - k = Suc j" "10 - Suc k = j" by (metis Suc_diff_Suc)
    let ?acc = "acc + 2 ^ (7 * k) * (unat b mod 128)"
    have step: "(of_nat acc :: u64) OR push_bit (unat (of_nat (7 * k) :: byte)) (ucast (b AND 0x7F)) = of_nat ?acc"
      unfolding bp using k by (intro varint_acc) auto
    have acc: "?acc < 2 ^ (7 * Suc k)"
      using acc_step [OF k(2), of "unat b mod 128"] by (simp add: power_add mult.commute)
    have succ: "of_nat (7 * k) + (7 :: byte) = of_nat (7 * Suc k)" by simp
    note IH = Cons.IH [of "Suc k" ?acc, unfolded j]
    have one: "varint_loop (of_nat acc) (of_nat (7 * k)) (buf_at (b # bs) rest e :: 's istream) =
        (if b < 128 then Some (Some (of_nat ?acc), buf_at bs rest e)
         else varint_loop (of_nat ?acc) (of_nat (7 * Suc k)) (buf_at bs rest e))"
      by (subst varint_loop.simps, unfold readbyte_Cons [OF Cons.prems(1)] pos)
        (use False step succ in \<open>simp add: byte_high Let_def del: of_nat_mult of_nat_add mult_Suc_right\<close>)
    show ?thesis
    proof (cases "b < 128")
      case True
      then show ?thesis unfolding one by (simp add: j)
    next
      case False
      have "varint_loop (of_nat ?acc) (of_nat (7 * Suc k)) (buf_at bs rest e :: 's istream) =
        (case varint_split (take j bs) of
           Some (p, r) \<Rightarrow> Some (Some (of_nat (?acc + 2 ^ (7 * Suc k) * payload p)), buf_at (drop (length p) bs) rest e)
         | None \<Rightarrow> if length bs < j then rd_error ''end-of-stream'' (buf_at [] rest e)
                   else rd_error ''varint overflow'' (buf_at (drop j bs) rest e))"
        using Cons.prems(1) k(1) acc by (intro IH) auto
      then show ?thesis using False unfolding one
        by (simp add: j power_add algebra_simps del: of_nat_mult of_nat_add split: option.split)
    qed
  qed (use pos in \<open>simp add: varint_loop.simps [where st = "buf_at (b # bs) rest e"]\<close>)
next
  case Nil
  have "unat (of_nat (7 * k) :: byte) = 7 * k"
    using Nil.prems(2) by (simp add: unsigned_of_nat take_bit_nat_eq_self del: of_nat_mult)
  then have pos: "(64 :: byte) \<le> of_nat (7 * k) \<longleftrightarrow> k = 10"
    using Nil.prems(2) by (simp only: word_le_nat_alt) (auto simp: unat_numeral)
  then show ?case using Nil.prems(2)
    by (subst varint_loop.simps) (auto simp: rd_error_def)
qed

subsection \<open>The two decoders on any buffer\<close>

theorem decode_varint_at:
  "fits xs \<Longrightarrow>
   pb_decode_varint (buf_at xs rest e) =
    (case varint_split (take 10 xs) of
       Some (p, r) \<Rightarrow> Some (Some (of_nat (payload p)), buf_at (drop (length p) xs) rest e)
     | None \<Rightarrow> if length xs < 10 then rd_error ''end-of-stream'' (buf_at [] rest e)
               else rd_error ''varint overflow'' (buf_at (drop 10 xs) rest e))"
  using varint_loop_at [of xs 0 0 rest e]
  unfolding pb_decode_varint_def diff_zero mult_0_right power_0 mult_1 of_nat_0 add_0_left by simp

lemma varint_split_append: "varint_split xs = Some (p, r) \<Longrightarrow> varint_split (xs @ ys) = Some (p, r @ ys)"
  by (induction xs arbitrary: p r) (auto split: if_splits)

lemma varint_split_prefix: "varint_split xs = Some (p, r) \<Longrightarrow> xs = p @ r \<and> p \<noteq> []"
  by (induction xs arbitrary: p r) (auto split: if_splits)

lemma varint_split_self: "varint_split xs = Some (p, r) \<Longrightarrow> varint_split p = Some (p, [])"
  by (induction xs arbitrary: p r) (auto split: if_splits)

lemma varint_split_take: "varint_split xs = Some (p, r) \<Longrightarrow> length p \<le> n \<Longrightarrow> varint_split (take n xs) = Some (p, take (n - length p) r)"
  using varint_split_prefix [of xs p r] varint_split_append [OF varint_split_self, of xs p r "take (n - length p) r"]
  by simp

lemma word8_less_128: "d < 128 \<Longrightarrow> (of_nat d :: byte) < 128"
  by (simp add: word_less_nat_alt unsigned_of_nat take_bit_nat_eq_self)

lemma word8_ge_128: "d < 128 \<Longrightarrow> \<not> (of_nat (d + 128) :: byte) < 128"
  by (simp add: word_less_nat_alt unsigned_of_nat take_bit_nat_eq_self del: of_nat_add)

lemma unat_byte: "d < 256 \<Longrightarrow> unat (of_nat d :: byte) = d"
  by (simp add: unsigned_of_nat take_bit_nat_eq_self)

lemma varint_split_varint: "varint_split (varint n @ r) = Some (varint n, r)"
proof (induction n rule: varint.induct)
  case (1 n)
  show ?case
  proof (cases "n < 128")
    case True
    then show ?thesis by (simp add: varint.simps [of n] word8_less_128)
  next
    case False
    then show ?thesis using "1.IH" word8_ge_128 [of "n mod 128"]
      by (simp add: varint.simps [of n] del: of_nat_add)
  qed
qed

lemma payload_varint: "payload (varint n) = n"
proof (induction n rule: varint.induct)
  case (1 n)
  show ?case
  proof (cases "n < 128")
    case True
    then show ?thesis by (simp add: varint.simps [of n] unat_byte)
  next
    case False
    have "unat (of_nat (n mod 128 + 128) :: byte) mod 128 = n mod 128" by (subst unat_byte) simp_all
    then show ?thesis using False "1.IH" by (simp add: varint.simps [of n] del: of_nat_add)
  qed
qed

lemma varint_length: "n < 128 ^ Suc k \<Longrightarrow> length (varint n) \<le> Suc k"
proof (induction k arbitrary: n)
  case (Suc k)
  have "n div 128 < 128 ^ Suc k" using Suc.prems by (intro less_mult_imp_div_less) (simp add: mult.commute)
  then show ?case using Suc.IH [of "n div 128"] by (simp add: varint.simps [of n])
qed (simp add: varint.simps)

lemma varint_length_u64: "length (varint (unat (v :: u64))) \<le> 10"
proof -
  have "unat v < 2 ^ 64" using unsigned_less [of v, where ?'a = nat] by simp
  also have "\<dots> \<le> 128 ^ Suc 9" by simp
  finally show ?thesis using varint_length [of "unat v" 9] by simp
qed

lemma varint_ne [simp]: "varint n \<noteq> []" "0 < length (varint n)"
  by (subst varint.simps; simp)+

lemma decode_varint_varint:
  "fits (varint (unat v) @ ys) \<Longrightarrow>
     pb_decode_varint (buf_at (varint (unat v) @ ys) rest e) = Some (Some v, buf_at ys rest e)"
  using varint_split_take [OF varint_split_varint varint_length_u64, of v ys]
  by (simp add: decode_varint_at payload_varint)

text \<open>The 32-bit decoder.\<close>

lemma bitpos_k: "k \<le> 10 \<Longrightarrow> unat (of_nat (7 * k) :: byte) = 7 * k"
  by (simp add: unsigned_of_nat take_bit_nat_eq_self del: of_nat_mult)

lemma bitpos_ge: "k \<le> 10 \<Longrightarrow> (32 :: byte) \<le> of_nat (7 * k) \<longleftrightarrow> 5 \<le> k"
  by (simp only: word_le_nat_alt bitpos_k) auto

lemma bitpos_succ: "of_nat (7 * k) + (7 :: byte) = of_nat (7 * Suc k)" by simp

lemma varint32_step_value:
  assumes "k \<le> 10" "k \<le> 4 \<longrightarrow> acc < 2 ^ (7 * k)" "varint32_step (of_nat acc) (of_nat (7 * k)) b = Some r"
  shows "r = of_nat (acc + 2 ^ (7 * k) * (unat b mod 128))"
proof (cases "5 \<le> k")
  case True
  have "(2 :: u32) ^ (7 * k) = 0"
    using True by simp
  then have "(of_nat (2 ^ (7 * k) * (unat b mod 128)) :: u32) = 0"
    by (simp only: of_nat_mult of_nat_power of_nat_numeral mult_zero_left)
  then show ?thesis using assms True bitpos_ge [of k]
    by (auto simp: varint32_step_def Let_def simp del: of_nat_mult split: if_splits)
next
  case False
  then have k: "k \<le> 4" "acc < 2 ^ (7 * k)" using assms by auto
  then have "acc < 2 ^ 32" using power_increasing [of "7 * k" 28 "2::nat"] by simp
  then have "unat (of_nat acc :: u32) < 2 ^ (7 * k)" using k by (simp add: of_nat_u32)
  moreover have "(ucast (b AND 0x7F) :: u32) = of_nat (unat b mod 128)"
    unfolding and_7F by (subst unat_take_7 [symmetric]) simp_all
  ultimately have "(of_nat acc :: u32) OR push_bit (7 * k) (ucast (b AND 0x7F)) = of_nat (acc + 2 ^ (7 * k) * (unat b mod 128))"
    by (simp only: or_push_add) (simp add: push_bit_eq_mult mult.commute)
  then show ?thesis using assms k bitpos_ge [of k] bitpos_k [of k]
    by (simp add: varint32_step_def del: of_nat_mult of_nat_add)
qed

lemma varint32_loop_sound:
  "fits xs \<Longrightarrow> k \<le> 10 \<Longrightarrow> k \<le> 4 \<longrightarrow> acc < 2 ^ (7 * k) \<Longrightarrow> varint_split xs = Some (p, r) \<Longrightarrow> k + length p \<le> 10 \<Longrightarrow>
   varint32_loop (of_nat acc) (of_nat (7 * k)) (buf_at xs rest e) = Some (Some v, st) \<Longrightarrow>
     v = of_nat (acc + 2 ^ (7 * k) * payload p) \<and> st = buf_at r rest e"
proof (induction xs arbitrary: k acc p r)
  case (Cons b bs)
  obtain v1 where v1: "varint32_step (of_nat acc) (of_nat (7 * k)) b = Some v1"
    using Cons.prems by (subst (asm) varint32_loop.simps) (auto simp: rd_error_def split: option.splits)
  let ?acc = "acc + 2 ^ (7 * k) * (unat b mod 128)"
  have v1_eq: "v1 = of_nat ?acc" using varint32_step_value [OF Cons.prems(2,3) v1] .
  show ?case
  proof (cases "b < 128")
    case True
    then show ?thesis using Cons.prems v1
      by (subst (asm) varint32_loop.simps) (auto simp: v1_eq byte_high rd_error_def split: if_splits)
  next
    case False
    then obtain p1 where p1: "varint_split bs = Some (p1, r)" "p = b # p1" using Cons.prems(4) by auto
    have "varint32_loop (of_nat ?acc) (of_nat (7 * Suc k)) (buf_at bs rest e) = Some (Some v, st)"
      using Cons.prems(1,6) v1 False unfolding v1_eq bitpos_succ [symmetric]
      by (subst (asm) varint32_loop.simps) (simp add: byte_high)
    moreover have "Suc k \<le> 4 \<longrightarrow> ?acc < 2 ^ (7 * Suc k)"
      using Cons.prems(3) acc_step [of acc "2 ^ (7 * k)" "unat b mod 128"] by (simp add: power_add mult.commute)
    ultimately have "v = of_nat (?acc + 2 ^ (7 * Suc k) * payload p1) \<and> st = buf_at r rest e"
      using Cons.prems(1,5) p1 by (intro Cons.IH [OF _ _ _ p1(1)]) auto
    then show ?thesis by (simp add: p1 power_add algebra_simps del: of_nat_add of_nat_mult)
  qed
qed simp

lemma byte_70: "m < 16 \<Longrightarrow> (of_nat m :: byte) AND 0x70 = 0"
proof -
  assume "m < 16"
  then have "m \<in> set [0..<16]" by simp
  moreover have "\<forall>m\<in>set [0..<16]. (of_nat m :: byte) AND 0x70 = 0" by code_simp
  ultimately show ?thesis by blast
qed

lemma varint32_loop_complete:
  "fits (varint m @ ys) \<Longrightarrow> 0 < k \<Longrightarrow> k \<le> 4 \<Longrightarrow> acc < 2 ^ (7 * k) \<Longrightarrow> acc + 2 ^ (7 * k) * m < 2 ^ 32 \<Longrightarrow>
   varint32_loop (of_nat acc) (of_nat (7 * k)) (buf_at (varint m @ ys) rest e :: 's istream) = Some (Some (of_nat (acc + 2 ^ (7 * k) * m)), buf_at ys rest e)"
proof (induction m arbitrary: k acc rule: varint.induct)
  case (1 m)
  let ?b = "of_nat (if m < 128 then m else m mod 128 + 128) :: byte"
  let ?acc = "acc + 2 ^ (7 * k) * (m mod 128)"
  have "unat ?b mod 128 = m mod 128" by (subst unat_byte) auto
  moreover obtain v1 where v1: "varint32_step (of_nat acc) (of_nat (7 * k)) ?b = Some v1"
    using bitpos_ge [of k] 1 by (simp add: varint32_step_def)
  ultimately have v1_eq: "v1 = of_nat ?acc" using varint32_step_value [of k acc ?b v1] 1 by simp
  have "7 * of_nat k = (28 :: byte) \<longleftrightarrow> k = 4"
    using bitpos_k [of k] 1 by (auto simp: word_unat_eq_iff)
  then have seven: "of_nat (7 * k) + 7 = (35 :: byte) \<longleftrightarrow> k = 4" by simp
  show ?case
  proof (cases "m < 128")
    case True
    have "m < 16" if "k = 4" using 1 that by simp
    then show ?thesis using True v1 1
      by (subst varint32_loop.simps)
        (auto simp: varint.simps [of m] v1_eq byte_high word8_less_128 byte_70 seven simp del: of_nat_mult)
  next
    case False
    have vm: "varint m = of_nat (m mod 128 + 128) # varint (m div 128)"
      using False by (simp add: varint.simps [of m])
    have "k \<noteq> 4" using 1 False by auto
    have acc: "?acc < 2 ^ (7 * Suc k)"
      using 1 acc_step [of acc "2 ^ (7 * k)" "m mod 128"] by (simp add: power_add mult.commute)
    have sum: "?acc + 2 ^ (7 * Suc k) * (m div 128) = acc + 2 ^ (7 * k) * m"
    proof -
      have "2 ^ (7 * k) * m = 2 ^ (7 * k) * (m mod 128 + 128 * (m div 128))" by simp
      then show ?thesis by (simp only: power_add distrib_left mult_Suc_right) (simp add: mult.left_commute)
    qed
    have "varint32_loop (of_nat ?acc) (of_nat (7 * Suc k)) (buf_at (varint (m div 128) @ ys) rest e :: 's istream) =
        Some (Some (of_nat (?acc + 2 ^ (7 * Suc k) * (m div 128))), buf_at ys rest e)"
      using 1 False acc sum \<open>k \<noteq> 4\<close> vm by (intro "1.IH") auto
    moreover have "varint32_loop (of_nat acc) (of_nat (7 * k)) (buf_at (varint m @ ys) rest e :: 's istream) =
        varint32_loop (of_nat ?acc) (of_nat (7 * Suc k)) (buf_at (varint (m div 128) @ ys) rest e)"
      using False v1 "1.prems"(1) word8_ge_128 [of "m mod 128"] unfolding v1_eq bitpos_succ [symmetric] vm
      by (subst varint32_loop.simps) (simp add: byte_high del: of_nat_mult of_nat_add)
    ultimately show ?thesis unfolding sum by simp
  qed
qed

end
