(* ===== verification/PbCodec.thy ===== *)
theory PbCodec
  imports PbWire
begin

text \<open>
  Contracts over the wire level of nanopb. \<open>codec\<close> relates the bytes of an encoder to its
  decoder; \<open>writes\<close> says what an encoding function does to a sizing stream and to a stream on
  a buffer; \<open>in_bounds\<close> says that a decoding function on a buffer has no undefined behaviour
  and only advances inside the bytes it may read.
\<close>

section \<open>The contract of an encoder and its decoder\<close>

locale codec =
  fixes valid :: "'a \<Rightarrow> bool"
    and enc :: "'a \<Rightarrow> byte list"
    and dec :: "('s, 'a) rd"
  assumes dec_enc: "valid x \<Longrightarrow> fits (enc x @ ys) \<Longrightarrow> dec (buf_at (enc x @ ys) rest e) = Some (Some x, buf_at ys rest e)"
begin

lemma prefix_free:
  assumes "valid x" "valid y" "fits (enc x @ r)" "enc x @ r = enc y @ r'"
  shows "x = y \<and> r = r'"
proof -
  have "dec (buf_at (enc x @ r) [] None) = Some (Some x, buf_at r [] None)"
    "dec (buf_at (enc y @ r') [] None) = Some (Some y, buf_at r' [] None)"
    using assms by (intro dec_enc; simp)+
  moreover have "fits r" "fits r'" using assms(3,4) by (auto dest: arg_cong [where f = length])
  ultimately show ?thesis using assms(4) by (simp add: buf_at_inj)
qed

lemma injective: "valid x \<Longrightarrow> valid y \<Longrightarrow> fits (enc x) \<Longrightarrow> enc x = enc y \<Longrightarrow> x = y"
  using prefix_free [of x y "[]" "[]"] by simp

lemma dec_sequence:
  "(\<And>x. x \<in> set xs \<Longrightarrow> valid x) \<Longrightarrow> fits (concat (map enc xs) @ ys) \<Longrightarrow>
     fold (\<lambda>_ acc. case acc of Some (Some vs, st) \<Rightarrow> rd_bind dec (\<lambda>v. rd_return (vs @ [v])) st | _ \<Rightarrow> acc) xs
       (Some (Some us, buf_at (concat (map enc xs) @ ys) rest e)) = Some (Some (us @ xs), buf_at ys rest e)"
proof (induction xs arbitrary: us)
  case (Cons x xs)
  have "dec (buf_at (enc x @ concat (map enc xs) @ ys) rest e) = Some (Some x, buf_at (concat (map enc xs) @ ys) rest e)"
    using Cons.prems by (intro dec_enc) auto
  then show ?case using Cons.IH [of "us @ [x]"] Cons.prems by (simp add: rd_bind_def rd_return_def)
qed simp

end

section \<open>Writing\<close>

text \<open>
  A stream on a buffer that holds \<open>pre\<close> (written before this stream was set up) and the bytes
  \<open>bs\<close> this stream has written, with room for \<open>max_size\<close> bytes in all.
\<close>

definition out_at :: "byte list \<Rightarrow> byte list \<Rightarrow> obuf ostream \<Rightarrow> bool" where
  "out_at pre bs st \<longleftrightarrow>
     (\<exists>post. ocallback st = Some buf_write \<and> ostate st = (pre @ bs @ post, int (length pre + length bs)) \<and>
        bytes_written st = of_nat (length bs) \<and> length bs + length post < 2 ^ 32 \<and>
        length bs \<le> unat (max_size st) \<and> unat (max_size st) \<le> length bs + length post)"

definition same_room :: "obuf ostream \<Rightarrow> obuf ostream \<Rightarrow> bool" where
  "same_room st st' \<longleftrightarrow> max_size st' = max_size st \<and> length (fst (ostate st')) = length (fst (ostate st))"

definition writes :: "(obuf ostream \<Rightarrow> (bool \<times> obuf ostream) c) \<Rightarrow> byte list \<Rightarrow> bool" where
  "writes f bs \<longleftrightarrow>
     (\<forall>st. ocallback st = None \<longrightarrow> f st = Some (True, st\<lparr>bytes_written := bytes_written st + of_nat (length bs)\<rparr>)) \<and>
     (\<forall>pre old st. out_at pre old st \<longrightarrow> length old + length bs < 2 ^ 32 \<longrightarrow>
        (if length old + length bs \<le> unat (max_size st)
         then \<exists>st'. f st = Some (True, st') \<and> out_at pre (old @ bs) st' \<and> same_room st st'
         else \<exists>st' part. f st = Some (False, st') \<and> out_at pre (old @ part) st' \<and> same_room st st'))"

lemma writes_sizing:
  "writes f bs \<Longrightarrow> ocallback st = None \<Longrightarrow> f st = Some (True, st\<lparr>bytes_written := bytes_written st + of_nat (length bs)\<rparr>)"
  by (simp add: writes_def)

lemma writes_fit:
  assumes "writes f bs" "out_at pre old st" "length old + length bs \<le> unat (max_size st)"
  obtains st' where "f st = Some (True, st')" "out_at pre (old @ bs) st'" "same_room st st'"
proof -
  have "length old + length bs < 2 ^ 32" using assms(3) unsigned_less [of "max_size st", where ?'a = nat] by simp
  then show thesis using assms that unfolding writes_def by (meson that)
qed

lemma writes_full:
  assumes "writes f bs" "out_at pre old st" "unat (max_size st) < length old + length bs" "length old + length bs < 2 ^ 32"
  obtains st' part where "f st = Some (False, st')" "out_at pre (old @ part) st'" "same_room st st'"
  using assms unfolding writes_def by (meson that not_less)

lemma out_at_buffer: "fits buf \<Longrightarrow> out_at [] [] (pb_ostream_from_buffer buf (of_nat (length buf)))"
  by (simp add: out_at_def pb_ostream_from_buffer_def of_nat_u32 unsigned_of_nat take_bit_nat_eq_self)

lemma out_at_content: "out_at [] bs st \<Longrightarrow> take (unat (bytes_written st)) (fst (ostate st)) = bs"
  by (auto simp: out_at_def unsigned_of_nat take_bit_nat_eq_self)

lemma out_at_set_oerr [simp]: "out_at pre bs (set_oerr m st) = out_at pre bs st"
  by (simp add: out_at_def set_oerr_def)

lemma same_room_set_oerr [simp]: "same_room st (set_oerr m st)" "same_room st st"
  by (simp_all add: same_room_def set_oerr_def)

lemma same_room_trans: "same_room a b \<Longrightarrow> same_room b c \<Longrightarrow> same_room a c"
  by (simp add: same_room_def)

lemma writes_put: "writes (put bs) bs"
  unfolding writes_def
proof (intro conjI allI impI)
  fix st :: "obuf ostream"
  assume "ocallback st = None"
  then show "put bs st = Some (True, st\<lparr>bytes_written := bytes_written st + of_nat (length bs)\<rparr>)"
    by (simp add: put_def pb_write_def)
next
  fix pre old st
  assume o: "out_at pre old st" and l: "length old + length bs < 2 ^ 32"
  then obtain post where p: "ocallback st = Some buf_write"
    "ostate st = (pre @ old @ post, int (length pre + length old))" "bytes_written st = of_nat (length old)"
    "length old + length post < 2 ^ 32" "length old \<le> unat (max_size st)" "unat (max_size st) \<le> length old + length post"
    by (auto simp: out_at_def)
  have u: "unat (of_nat (length old) + of_nat (length bs) :: u32) = length old + length bs"
    using l of_nat_u32 [of "length old + length bs"] by simp
  have b: "bytes_at (Some bs) (of_nat (length bs)) = Some bs"
    using l by (simp add: bytes_at_def unsigned_of_nat take_bit_nat_eq_self)
  show "if length old + length bs \<le> unat (max_size st)
         then \<exists>st'. put bs st = Some (True, st') \<and> out_at pre (old @ bs) st' \<and> same_room st st'
         else \<exists>st' part. put bs st = Some (False, st') \<and> out_at pre (old @ part) st' \<and> same_room st st'"
  proof (cases "length old + length bs \<le> unat (max_size st)")
    case True
    have "mem_store (pre @ old @ post) (int (length pre + length old)) bs =
        Some (pre @ (old @ bs) @ drop (length bs) post)"
      using True p(6) by (simp add: mem_store_def blit_def nat_int_add)
    then have "put bs st = Some (True, st\<lparr>ostate := (pre @ (old @ bs) @ drop (length bs) post, int (length pre + length (old @ bs))),
        bytes_written := of_nat (length (old @ bs))\<rparr>)"
      using True u b p(1-3) by (simp add: put_def pb_write_def word_less_nat_alt buf_write_def Let_def)
    then show ?thesis using True p by (auto simp: out_at_def same_room_def)
  next
    case False
    then have "put bs st = Some (False, set_oerr ''stream full'' st)"
      using u p(1,3) by (simp add: put_def pb_write_def word_less_nat_alt)
    then show ?thesis using False o by (auto intro!: exI [of _ "[]"])
  qed
qed

lemma writes_and:
  assumes f: "writes f a" and g: "writes g b"
  shows "writes (\<lambda>st. and_write (f st) g) (a @ b)"
  unfolding writes_def
proof (intro conjI allI impI)
  fix st :: "obuf ostream"
  assume "ocallback st = None"
  then show "and_write (f st) g = Some (True, st\<lparr>bytes_written := bytes_written st + of_nat (length (a @ b))\<rparr>)"
    by (simp add: and_write_def writes_sizing [OF f] writes_sizing [OF g] add.assoc)
next
  fix pre old st
  assume o: "out_at pre old st" and l: "length old + length (a @ b) < 2 ^ 32"
  show "if length old + length (a @ b) \<le> unat (max_size st)
         then \<exists>st'. and_write (f st) g = Some (True, st') \<and> out_at pre (old @ a @ b) st' \<and> same_room st st'
         else \<exists>st' part. and_write (f st) g = Some (False, st') \<and> out_at pre (old @ part) st' \<and> same_room st st'"
  proof (cases "length old + length a \<le> unat (max_size st)")
    case True
    then obtain st1 where s1: "f st = Some (True, st1)" "out_at pre (old @ a) st1" "same_room st st1"
      using writes_fit [OF f o] by blast
    have m: "max_size st1 = max_size st" using s1(3) by (simp add: same_room_def)
    show ?thesis
    proof (cases "length old + length (a @ b) \<le> unat (max_size st)")
      case True
      then obtain st2 where "g st1 = Some (True, st2)" "out_at pre ((old @ a) @ b) st2" "same_room st1 st2"
        using writes_fit [OF g s1(2)] m by auto
      then show ?thesis using s1 True same_room_trans by (auto simp: and_write_def)
    next
      case False
      then obtain st2 part where "g st1 = Some (False, st2)" "out_at pre ((old @ a) @ part) st2" "same_room st1 st2"
        using writes_full [OF g s1(2)] m l by auto
      then show ?thesis using s1 False same_room_trans by (auto simp: and_write_def intro!: exI [of _ "a @ part"])
    qed
  next
    case False
    then obtain st1 part where "f st = Some (False, st1)" "out_at pre (old @ part) st1" "same_room st st1"
      using writes_full [OF f o] l by auto
    then show ?thesis using False by (auto simp: and_write_def)
  qed
qed

lemma and_write_assoc: "and_write (and_write a f) g = and_write a (\<lambda>st. and_write (f st) g)"
  by (simp add: and_write_def case_prod_beta split: bind_split)

section \<open>The integer formats\<close>

definition varint_bytes :: "u64 \<Rightarrow> byte list" where
  "varint_bytes v = varint (unat v)"

definition zigzag :: "u64 \<Rightarrow> u64" where
  "zigzag v = (if sint v < 0 then NOT (push_bit 1 v) else push_bit 1 v)"

definition fixed32_bytes :: "u32 \<Rightarrow> byte list" where
  "fixed32_bytes v = [ucast (v AND 0xFF), ucast (drop_bit 8 v AND 0xFF), ucast (drop_bit 16 v AND 0xFF), ucast (drop_bit 24 v AND 0xFF)]"

definition fixed64_bytes :: "u64 \<Rightarrow> byte list" where
  "fixed64_bytes v = [ucast (v AND 0xFF), ucast (drop_bit 8 v AND 0xFF), ucast (drop_bit 16 v AND 0xFF),
     ucast (drop_bit 24 v AND 0xFF), ucast (drop_bit 32 v AND 0xFF), ucast (drop_bit 40 v AND 0xFF),
     ucast (drop_bit 48 v AND 0xFF), ucast (drop_bit 56 v AND 0xFF)]"

definition string_bytes :: "byte list \<Rightarrow> byte list" where
  "string_bytes s = varint (length s) @ s"

definition tag_bytes :: "wire_type \<times> u32 \<Rightarrow> byte list" where
  "tag_bytes x = varint (unat (snd x) * 8 + unat (fst x))"

definition valid_tag :: "wire_type \<times> u32 \<Rightarrow> bool" where
  "valid_tag x \<longleftrightarrow> fst x < 8 \<and> 0 < snd x \<and> snd x < 2 ^ 29"

lemma encode_svarint_put: "pb_encode_svarint st v = put (varint_bytes (zigzag v)) st"
  by (simp add: pb_encode_svarint_def zigzag_def varint_bytes_def encode_varint_put)

lemma encode_fixed32_put: "pb_encode_fixed32 st v = put (fixed32_bytes v) st"
  by (simp add: pb_encode_fixed32_def fixed32_bytes_def put_def)

lemma encode_fixed64_put: "pb_encode_fixed64 st v = put (fixed64_bytes v) st"
  by (simp add: pb_encode_fixed64_def fixed64_bytes_def put_def)

lemma encode_tag_put:
  assumes "wt < 8"
  shows "pb_encode_tag st wt fn = put (tag_bytes (wt, fn)) st"
proof -
  have w: "unat wt < 8" using assms by (simp add: word_less_nat_alt)
  have "unat (ucast wt :: u64) < 2 ^ 3" using w by (simp add: unsigned_ucast_eq take_bit_nat_eq_self)
  then have "push_bit 3 (ucast fn) OR ucast wt = (ucast wt + push_bit 3 (ucast fn) :: u64)"
    by (subst or.commute) (rule or_push_add)
  also have "\<dots> = of_nat (unat fn * 8 + unat wt)"
    by (simp add: push_bit_eq_mult)
  finally have e: "push_bit 3 (ucast fn) OR ucast wt = (of_nat (unat fn * 8 + unat wt) :: u64)" .
  have "unat fn * 8 + unat wt < 2 ^ 64" using w unsigned_less [of fn, where ?'a = nat] by simp
  then have "unat (push_bit 3 (ucast fn) OR ucast wt :: u64) = unat fn * 8 + unat wt"
    unfolding e by (simp only: unsigned_of_nat) (simp add: take_bit_nat_eq_self)
  then show ?thesis by (simp add: pb_encode_tag_def encode_varint_put tag_bytes_def)
qed

lemma writes_varint: "writes (\<lambda>st. pb_encode_varint st v) (varint (unat v))"
  by (simp add: encode_varint_put writes_put)

lemma writes_string:
  assumes "fits s"
  shows "writes (\<lambda>st. pb_encode_string st (Some s) (of_nat (length s))) (string_bytes s)"
proof -
  have "unat (ucast (of_nat (length s) :: u32) :: u64) = length s"
    using assms by (simp add: unsigned_ucast_eq unsigned_of_nat take_bit_nat_eq_self)
  then have "pb_encode_string st (Some s) (of_nat (length s)) = and_write (put (varint (length s)) st) (put s)" for st :: "obuf ostream"
    by (simp add: pb_encode_string_def encode_varint_put put_def [of s, abs_def])
  then show ?thesis using writes_and [OF writes_put writes_put] by (simp add: string_bytes_def)
qed

lemma writes_NULL_string: "writes (\<lambda>st. pb_encode_string st None 0) (string_bytes [])"
proof -
  have "pb_write st None 0 = put [] st" for st :: "obuf ostream"
    by (simp add: pb_write_def put_def bytes_at_def split: option.split)
  then have "pb_encode_string st None 0 = and_write (put (varint 0) st) (put [])" for st :: "obuf ostream"
    by (simp add: pb_encode_string_def encode_varint_put)
  then show ?thesis using writes_and [OF writes_put writes_put, of "varint 0" "[]"] by (simp add: string_bytes_def)
qed

subsection \<open>Decoding them\<close>

definition rd_map :: "('a \<Rightarrow> 'b) \<Rightarrow> ('s, 'a) rd \<Rightarrow> ('s, 'b) rd" where
  "rd_map f m = rd_bind m (\<lambda>x. rd_return (f x))"

definition decode_tag :: "('s, wire_type \<times> u32) rd" where
  "decode_tag st = map_option (\<lambda>(r, eof, st1). (r, st1)) (pb_decode_tag st)"

definition decode_string :: "('s, byte list) rd" where
  "decode_string = rd_bind pb_decode_varint32 (pb_read False)"

lemma zigzag_inverse: "(if zigzag v AND 1 \<noteq> 0 then NOT (drop_bit 1 (zigzag v)) else drop_bit 1 (zigzag v)) = v"
proof -
  have neg: "sint v < 0 \<longleftrightarrow> bit v 63"
    using bit_last_iff [of v] by simp
  have ev: "even (push_bit 1 v)" by (simp add: even_push_bit_iff)
  have "zigzag v AND 1 \<noteq> 0 \<longleftrightarrow> odd (zigzag v)" by (simp add: and_one_eq odd_iff_mod_2_eq_one)
  also have "\<dots> \<longleftrightarrow> bit v 63" using ev by (simp only: zigzag_def neg) (auto simp only: even_not_iff split: if_splits)
  finally have odd: "zigzag v AND 1 \<noteq> 0 \<longleftrightarrow> bit v 63" .
  have cases: "n < 64 \<Longrightarrow> n = 63 \<or> Suc n < 64" for n :: nat by linarith
  have "NOT (drop_bit 1 (NOT (push_bit 1 v))) = v" if "bit v 63"
  proof (rule bit_word_eqI)
    fix n assume "n < LENGTH(64)"
    then show "bit (NOT (drop_bit 1 (NOT (push_bit 1 v)))) n = bit v n"
      using cases [of n] that by (auto simp: bit_not_iff bit_drop_bit_eq bit_push_bit_iff simp del: push_bit_Suc)
  qed
  moreover have "drop_bit 1 (push_bit 1 v) = v" if "\<not> bit v 63"
  proof (rule bit_word_eqI)
    fix n assume "n < LENGTH(64)"
    then show "bit (drop_bit 1 (push_bit 1 v)) n = bit v n"
      using cases [of n] that by (auto simp: bit_not_iff bit_drop_bit_eq bit_push_bit_iff simp del: push_bit_Suc)
  qed
  ultimately show ?thesis unfolding odd by (simp add: zigzag_def neg)
qed

lemma byte_part: "8 \<le> LENGTH('a) \<Longrightarrow> ucast (ucast (w AND 0xFF) :: byte) = take_bit 8 (w :: 'a::len word)"
proof -
  assume l: "8 \<le> LENGTH('a)"
  have m: "w AND 0xFF = take_bit 8 w" by (simp add: take_bit_eq_mask mask_eq_exp_minus_1)
  show ?thesis unfolding m by (rule bit_word_eqI) (auto simp: bit_simps)
qed

lemma join_byte: "take_bit n w OR push_bit n (take_bit 8 (drop_bit n w)) = take_bit (n + 8) (w :: 'a::len word)"
  by (rule bit_word_eqI) (auto simp: bit_simps not_less)

lemma fixed32_join:
  "(ucast (ucast (v AND 0xFF) :: byte) OR push_bit 8 (ucast (ucast (drop_bit 8 v AND 0xFF) :: byte))
    OR push_bit 16 (ucast (ucast (drop_bit 16 v AND 0xFF) :: byte)) OR push_bit 24 (ucast (ucast (drop_bit 24 v AND 0xFF) :: byte))) = (v :: u32)"
  using join_byte [of 8 v] join_byte [of 16 v] join_byte [of 24 v]
  by (simp add: byte_part or.assoc [symmetric] take_bit_word_eq_self)

lemma fixed64_join:
  "(ucast (ucast (v AND 0xFF) :: byte) OR push_bit 8 (ucast (ucast (drop_bit 8 v AND 0xFF) :: byte))
    OR push_bit 16 (ucast (ucast (drop_bit 16 v AND 0xFF) :: byte)) OR push_bit 24 (ucast (ucast (drop_bit 24 v AND 0xFF) :: byte))
    OR push_bit 32 (ucast (ucast (drop_bit 32 v AND 0xFF) :: byte)) OR push_bit 40 (ucast (ucast (drop_bit 40 v AND 0xFF) :: byte))
    OR push_bit 48 (ucast (ucast (drop_bit 48 v AND 0xFF) :: byte)) OR push_bit 56 (ucast (ucast (drop_bit 56 v AND 0xFF) :: byte))) = (v :: u64)"
  using join_byte [of 8 v] join_byte [of 16 v] join_byte [of 24 v] join_byte [of 32 v] join_byte [of 40 v]
    join_byte [of 48 v] join_byte [of 56 v]
  by (simp add: byte_part or.assoc [symmetric] take_bit_word_eq_self)

lemma varint32_eof_varint:
  assumes "fits (varint n @ ys)" "n < 2 ^ 32"
  shows "pb_decode_varint32_eof (buf_at (varint n @ ys) rest e :: 's istream) = Some (Some (of_nat n), False, buf_at ys rest e)"
proof (cases "n < 128")
  case True
  then have "unat (ucast (of_nat n :: byte) :: u32) = unat (of_nat n :: u32)"
    by (simp add: unsigned_ucast_eq unat_byte unsigned_of_nat take_bit_nat_eq_self)
  then have "ucast (of_nat n :: byte) = (of_nat n :: u32)" by (simp only: word_unat_eq_iff)
  then show ?thesis using True assms
    by (simp add: pb_decode_varint32_eof_def varint.simps [of n] byte_high word8_less_128)
next
  case False
  then have vm: "varint n = of_nat (n mod 128 + 128) # varint (n div 128)" by (simp add: varint.simps [of n])
  have m: "n mod 128 + 128 * (n div 128) = n" by simp
  have "unat (ucast (of_nat (n mod 128) :: byte) :: u32) = unat (of_nat (n mod 128) :: u32)"
    by (simp add: unsigned_ucast_eq unat_byte unsigned_of_nat take_bit_nat_eq_self)
  then have c: "ucast (of_nat (n mod 128 + 128) AND 0x7F :: byte) = (of_nat (n mod 128) :: u32)"
    by (subst byte_cont_clear) (simp, simp only: word_unat_eq_iff)
  have "varint32_loop (of_nat (n mod 128)) (of_nat (7 * 1)) (buf_at (varint (n div 128) @ ys) rest e :: 's istream) =
      Some (Some (of_nat (n mod 128 + 2 ^ (7 * 1) * (n div 128))), buf_at ys rest e)"
    using assms m by (intro varint32_loop_complete) (auto simp: vm)
  then have "varint32_loop (of_nat (n mod 128)) 7 (buf_at (varint (n div 128) @ ys) rest e :: 's istream) =
      Some (Some (of_nat n), buf_at ys rest e)" using m by (simp del: of_nat_add of_nat_mult)
  then show ?thesis using assms word8_ge_128 [of "n mod 128"]
    unfolding vm by (simp add: pb_decode_varint32_eof_def byte_high c del: of_nat_add)
qed

lemma varint32_varint:
  "fits (varint n @ ys) \<Longrightarrow> n < 2 ^ 32 \<Longrightarrow>
     pb_decode_varint32 (buf_at (varint n @ ys) rest e) = Some (Some (of_nat n), buf_at ys rest e)"
  by (simp add: pb_decode_varint32_def varint32_eof_varint)

interpretation varint64: codec "\<lambda>_. True" varint_bytes pb_decode_varint
  by unfold_locales (simp add: varint_bytes_def decode_varint_varint)

interpretation svarint: codec "\<lambda>_. True" "\<lambda>v. varint_bytes (zigzag v)" pb_decode_svarint
  by unfold_locales (simp only: pb_decode_svarint_def rd_bind_def varint64.dec_enc option.case prod.case
      zigzag_inverse rd_return_def)

interpretation varint32: codec "\<lambda>_. True" "\<lambda>v :: u32. varint (unat v)" pb_decode_varint32
  by unfold_locales (use varint32_varint unsigned_less [where ?'a = nat and ?'b = 32] in force)

lemma decode_fixed32_bytes:
  assumes "fits (fixed32_bytes v @ ys)"
  shows "pb_decode_fixed32 (buf_at (fixed32_bytes v @ ys) rest e :: 's istream) = Some (Some v, buf_at ys rest e)"
proof -
  have "pb_read False 4 (buf_at (fixed32_bytes v @ ys) rest e :: 's istream) = Some (Some (fixed32_bytes v), buf_at ys rest e)"
    using assms by (intro pb_read_exact) (simp_all add: fixed32_bytes_def)
  then show ?thesis
    by (simp only: pb_decode_fixed32_def rd_bind_def rd_return_def option.case prod.case)
      (simp add: fixed32_bytes_def fixed32_join)
qed

interpretation fixed32: codec "\<lambda>_. True" fixed32_bytes pb_decode_fixed32
  by unfold_locales (rule decode_fixed32_bytes)

lemma decode_fixed64_bytes:
  assumes "fits (fixed64_bytes v @ ys)"
  shows "pb_decode_fixed64 (buf_at (fixed64_bytes v @ ys) rest e :: 's istream) = Some (Some v, buf_at ys rest e)"
proof -
  have "pb_read False 8 (buf_at (fixed64_bytes v @ ys) rest e :: 's istream) = Some (Some (fixed64_bytes v), buf_at ys rest e)"
    using assms by (intro pb_read_exact) (simp_all add: fixed64_bytes_def)
  then show ?thesis
    by (simp only: pb_decode_fixed64_def rd_bind_def rd_return_def option.case prod.case)
      (simp add: fixed64_bytes_def fixed64_join)
qed

interpretation fixed64: codec "\<lambda>_. True" fixed64_bytes pb_decode_fixed64
  by unfold_locales (rule decode_fixed64_bytes)

interpretation string: codec fits string_bytes decode_string
  by unfold_locales (simp add: decode_string_def rd_bind_def string_bytes_def varint32_varint pb_read_exact)

lemma and_7: "x AND 7 = take_bit 3 (x :: 'a::len word)"
  by (simp add: take_bit_eq_mask mask_eq_exp_minus_1)

lemma decode_tag_bytes:
  assumes "valid_tag (wt, fn)" "fits (tag_bytes (wt, fn) @ ys)"
  shows "pb_decode_tag (buf_at (tag_bytes (wt, fn) @ ys) rest e :: 's istream) = Some (Some (wt, fn), False, buf_at ys rest e)"
proof -
  let ?n = "unat fn * 8 + unat wt"
  have b: "unat wt < 8" "0 < unat fn" "unat fn < 2 ^ 29"
    using assms(1) by (simp_all add: valid_tag_def word_less_nat_alt unat_gt_0)
  have n: "?n < 2 ^ 32" using b by simp
  have "unat (of_nat ?n :: u32) = ?n" by (rule of_nat_u32) (rule n)
  then have t: "(of_nat ?n :: u32) \<noteq> 0" "unat (of_nat ?n AND 7 :: u32) = unat wt" "unat (drop_bit 3 (of_nat ?n) :: u32) = unat fn"
    using b n by (auto simp: and_7 drop_bit_eq_div unat_div unat_mod take_bit_eq_mod simp del: of_nat_add of_nat_mult)
  then have "of_nat ?n AND 7 = wt" "drop_bit 3 (of_nat ?n) = fn" by (simp_all only: word_unat_eq_iff)
  then show ?thesis using t(1) varint32_eof_varint [OF _ n, of ys rest e, where ?'s = 's] assms(2)
    by (simp add: pb_decode_tag_def tag_bytes_def del: of_nat_add of_nat_mult)
qed

interpretation tag: codec valid_tag tag_bytes decode_tag
  by unfold_locales (auto simp: decode_tag_def decode_tag_bytes)

section \<open>Staying inside the buffer\<close>

definition in_bounds :: "('s, 'a) rd \<Rightarrow> bool" where
  "in_bounds m \<longleftrightarrow> (\<forall>xs rest e. fits xs \<longrightarrow>
     (\<exists>r n e'. m (buf_at xs rest e) = Some (r, buf_at (drop n xs) rest e')))"

lemma in_boundsI:
  "(\<And>xs rest e. fits xs \<Longrightarrow> \<exists>r n e'. m (buf_at xs rest e) = Some (r, buf_at (drop n xs) rest e')) \<Longrightarrow> in_bounds m"
  by (simp add: in_bounds_def)

lemma in_boundsE:
  assumes "in_bounds m" "fits xs"
  obtains r n e' where "m (buf_at xs rest e) = Some (r, buf_at (drop n xs) rest e')" "fits (drop n xs)"
  using assms unfolding in_bounds_def by (metis length_drop less_imp_diff_less)

lemma in_bounds_error: "fits xs \<Longrightarrow> \<exists>r n' e'. rd_error msg (buf_at (drop n xs) rest e) = Some (r, buf_at (drop n' xs) rest e')"
  by (auto simp: rd_error_def set_ierr_at)

named_theorems bounds_intros \<open>decoders that stay in bounds\<close>

lemma in_bounds_rd_error [bounds_intros]: "in_bounds (rd_error msg)"
  using in_bounds_error [of _ msg 0] by (auto intro!: in_boundsI)

lemma in_bounds_return [bounds_intros]: "in_bounds (rd_return x)"
  by (rule in_boundsI) (auto simp: rd_return_def intro!: exI [of _ "0 :: nat"])

lemma in_bounds_bind [bounds_intros]:
  assumes "in_bounds m" "\<And>x. in_bounds (f x)"
  shows "in_bounds (rd_bind m f)"
proof (rule in_boundsI)
  fix xs rest :: "byte list" and e
  assume "fits xs"
  then obtain r n e1 where 1: "m (buf_at xs rest e) = Some (r, buf_at (drop n xs) rest e1)" "fits (drop n xs)"
    using in_boundsE [OF assms(1)] by metis
  show "\<exists>r n e'. rd_bind m f (buf_at xs rest e) = Some (r, buf_at (drop n xs) rest e')"
  proof (cases r)
    case (Some x)
    obtain r' n' e' where "f x (buf_at (drop n xs) rest e1) = Some (r', buf_at (drop n' (drop n xs)) rest e')"
      using in_boundsE [OF assms(2) 1(2)] by metis
    then show ?thesis using 1 Some by (auto simp: rd_bind_def)
  qed (use 1 in \<open>auto simp: rd_bind_def\<close>)
qed

lemma in_bounds_readbyte [bounds_intros]: "in_bounds pb_readbyte"
proof (rule in_boundsI)
  fix xs rest :: "byte list" and e :: "string option"
  assume "fits xs"
  then show "\<exists>r n e'. pb_readbyte (buf_at xs rest e) = Some (r, buf_at (drop n xs) rest e')"
    by (cases xs) (auto simp: set_ierr_at intro!: exI [of _ "Suc 0"])
qed

lemma in_bounds_read [bounds_intros]: "in_bounds (pb_read nul n)"
proof (rule in_boundsI)
  fix xs rest :: "byte list" and e
  assume "fits xs"
  then show "\<exists>r k e'. pb_read nul n (buf_at xs rest e) = Some (r, buf_at (drop k xs) rest e')"
    using in_bounds_error [of xs "''end-of-stream''" 0 rest e] by (auto simp: pb_read_at)
qed

lemma in_bounds_ignore [bounds_intros]: "in_bounds m \<Longrightarrow> in_bounds (rd_ignore m)"
  unfolding rd_ignore_def by (intro bounds_intros)

text \<open>A loop that reads one byte per round.\<close>

lemma byte_loop_in_bounds:
  assumes Nil: "\<And>a rest e. \<exists>r e'. loop a (buf_at [] rest e) = Some (r, buf_at [] rest e')"
    and Cons: "\<And>a b bs rest e. fits (b # bs) \<Longrightarrow>
      (\<exists>r n e'. loop a (buf_at (b # bs) rest e) = Some (r, buf_at (drop n (b # bs)) rest e')) \<or>
      (\<exists>a'. loop a (buf_at (b # bs) rest e) = loop a' (buf_at bs rest e))"
  shows "in_bounds (loop a)"
proof (rule in_boundsI)
  fix xs rest :: "byte list" and e
  assume "fits xs"
  then show "\<exists>r n e'. loop a (buf_at xs rest e) = Some (r, buf_at (drop n xs) rest e')"
  proof (induction xs arbitrary: a)
    case Nil
    then show ?case using assms(1) by (metis drop_Nil)
  next
    case (Cons b bs)
    show ?case
    proof (cases "\<exists>r n e'. loop a (buf_at (b # bs) rest e) = Some (r, buf_at (drop n (b # bs)) rest e')")
      case False
      then obtain a' where a': "loop a (buf_at (b # bs) rest e) = loop a' (buf_at bs rest e)"
        using assms(2) [OF Cons.prems] by blast
      moreover have "fits bs" using Cons.prems by simp
      ultimately show ?thesis using Cons.IH [of a'] by (metis drop_Suc_Cons)
    qed
  qed
qed

lemma stays: "\<exists>n e'. buf_at xs rest e = buf_at (drop n xs) rest e'"
  by (intro exI [of _ "0 :: nat"]) auto

lemma one_byte: "\<exists>n e'. buf_at bs rest e = buf_at (drop n (b # bs)) rest e'"
  by (intro exI [of _ "Suc 0"]) auto

lemma in_bounds_varint_loop: "in_bounds (varint_loop r p)"
proof -
  have "in_bounds ((\<lambda>a. varint_loop (fst a) (snd a)) (r, p))"
  proof (rule byte_loop_in_bounds [where loop = "\<lambda>a. varint_loop (fst a) (snd a)" and a = "(r, p)"], goal_cases)
    case (1 a rest e)
    show ?case by (subst varint_loop.simps) (auto simp: rd_error_def set_ierr_at)
  next
    case (2 a b bs rest e)
    then show ?case
      by (subst (1 2) varint_loop.simps) (auto simp: rd_error_def set_ierr_at Let_def intro: stays one_byte)
  qed
  then show ?thesis by simp
qed

lemma in_bounds_varint32_loop: "in_bounds (varint32_loop r p)"
proof -
  have "in_bounds ((\<lambda>a. varint32_loop (fst a) (snd a)) (r, p))"
  proof (rule byte_loop_in_bounds [where loop = "\<lambda>a. varint32_loop (fst a) (snd a)" and a = "(r, p)"], goal_cases)
    case (1 a rest e)
    show ?case by (subst varint32_loop.simps) (auto simp: rd_error_def set_ierr_at)
  next
    case (2 a b bs rest e)
    then show ?case
      by (subst (1 2) varint32_loop.simps)
        (auto simp: rd_error_def set_ierr_at intro: stays one_byte split: option.split)
  qed
  then show ?thesis by simp
qed

lemma in_bounds_skip_varint: "in_bounds pb_skip_varint"
proof -
  have "in_bounds ((\<lambda>a. pb_skip_varint) ())"
  proof (rule byte_loop_in_bounds [where loop = "\<lambda>_. pb_skip_varint" and a = "()"], goal_cases)
    case (1 a rest e)
    show ?case by (subst pb_skip_varint.simps) (auto simp: pb_read_at rd_error_def set_ierr_at)
  next
    case (2 a b bs rest e)
    then show ?case
      by (subst (1 2) pb_skip_varint.simps) (auto simp: pb_read_at rd_error_def set_ierr_at intro: stays one_byte)
  qed
  then show ?thesis by simp
qed

lemma in_bounds_raw_varint: "in_bounds (raw_varint m buf)"
proof -
  have "in_bounds ((\<lambda>a. raw_varint m a) buf)"
  proof (rule byte_loop_in_bounds [where loop = "\<lambda>a. raw_varint m a" and a = buf], goal_cases)
    case (1 a rest e)
    show ?case by (subst raw_varint.simps) (auto simp: pb_read_at rd_error_def set_ierr_at)
  next
    case (2 a b bs rest e)
    then show ?case
      by (subst (1 2) raw_varint.simps) (auto simp: pb_read_at rd_error_def set_ierr_at intro: stays one_byte)
  qed
  then show ?thesis by simp
qed

lemma in_bounds_varint [bounds_intros]: "in_bounds pb_decode_varint"
  using in_bounds_varint_loop by (simp add: pb_decode_varint_def [abs_def])

text \<open>\<open>pb_decode_varint32_eof\<close> and \<open>pb_decode_tag\<close> also report the end of the stream.\<close>

lemma varint32_eof_in_bounds:
  assumes "fits xs"
  shows "\<exists>r eof n e'. pb_decode_varint32_eof (buf_at xs rest e :: 's istream) = Some (r, eof, buf_at (drop n xs) rest e')"
proof (cases xs)
  case Nil
  then show ?thesis by (auto simp: pb_decode_varint32_eof_def set_ierr_at)
next
  case (Cons b bs)
  then have "fits bs" using assms by simp
  then obtain r n e' where "varint32_loop (ucast (b AND 0x7F)) 7 (buf_at bs rest e :: 's istream) = Some (r, buf_at (drop n bs) rest e')"
    using in_boundsE [OF in_bounds_varint32_loop] by metis
  then have "pb_decode_varint32_eof (buf_at xs rest e :: 's istream) =
      (if b AND 0x80 = 0 then Some (Some (ucast b), False, buf_at (drop 1 xs) rest e)
       else Some (r, False, buf_at (drop (Suc n) xs) rest e'))"
    using Cons assms by (simp add: pb_decode_varint32_eof_def)
  then show ?thesis by (metis (full_types))
qed

lemma in_bounds_varint32 [bounds_intros]: "in_bounds (pb_decode_varint32 :: ('s, u32) rd)"
proof (rule in_boundsI, goal_cases)
  case (1 xs rest e)
  then obtain r eof n e' where "pb_decode_varint32_eof (buf_at xs rest e :: 's istream) = Some (r, eof, buf_at (drop n xs) rest e')"
    using varint32_eof_in_bounds by blast
  then show ?case by (simp add: pb_decode_varint32_def) blast
qed

lemma decode_tag_in_bounds:
  assumes "fits xs"
  shows "\<exists>r eof n e'. pb_decode_tag (buf_at xs rest e :: 's istream) = Some (r, eof, buf_at (drop n xs) rest e')"
proof -
  obtain r eof n e' where "pb_decode_varint32_eof (buf_at xs rest e :: 's istream) = Some (r, eof, buf_at (drop n xs) rest e')"
    using varint32_eof_in_bounds [OF assms] by blast
  then show ?thesis by (cases r) (auto simp: pb_decode_tag_def)
qed

lemma in_bounds_skip_field [bounds_intros]: "in_bounds (pb_skip_field wt)"
  unfolding pb_skip_field_def pb_skip_string_def
  by (simp add: in_bounds_skip_varint bounds_intros)

lemma in_bounds_raw_value [bounds_intros]: "in_bounds (read_raw_value wt m)"
  unfolding read_raw_value_def by (simp add: in_bounds_raw_varint bounds_intros)

lemma in_bounds_svarint [bounds_intros]: "in_bounds pb_decode_svarint"
  unfolding pb_decode_svarint_def by (intro bounds_intros)

lemma in_bounds_fixed32 [bounds_intros]: "in_bounds pb_decode_fixed32"
  unfolding pb_decode_fixed32_def by (intro bounds_intros)

lemma in_bounds_fixed64 [bounds_intros]: "in_bounds pb_decode_fixed64"
  unfolding pb_decode_fixed64_def by (intro bounds_intros)

section \<open>Reading back what was written\<close>

locale round_trip = codec +
  fixes wr :: "obuf ostream \<Rightarrow> 'a \<Rightarrow> (bool \<times> obuf ostream) c"
  assumes write_enc: "valid x \<Longrightarrow> writes (\<lambda>st. wr st x) (enc x)"
begin

lemma sizing: "valid x \<Longrightarrow> wr (sizing_stream s) x = Some (True, (sizing_stream s)\<lparr>bytes_written := of_nat (length (enc x))\<rparr>)"
  using writes_sizing [OF write_enc, of x "sizing_stream s"] by (simp add: sizing_stream_def)

lemma read_back:
  assumes "valid x" "length (enc x) \<le> length buf" "fits buf"
  shows "\<exists>st. wr (pb_ostream_from_buffer buf (of_nat (length buf))) x = Some (True, st) \<and>
    unat (bytes_written st) = length (enc x) \<and>
    dec (pb_istream_from_buffer (fst (ostate st)) (bytes_written st)) =
      Some (Some x, buf_at [] (drop (length (enc x)) (fst (ostate st))) None)"
proof -
  let ?st = "pb_ostream_from_buffer buf (of_nat (length buf))"
  have m: "unat (max_size ?st) = length buf" using assms(3) by (simp add: pb_ostream_from_buffer_def of_nat_u32)
  obtain st where st: "wr ?st x = Some (True, st)" "out_at [] (enc x) st"
    using writes_fit [OF write_enc [OF assms(1)] out_at_buffer [OF assms(3)]] assms(2) m by auto
  then obtain post where post: "fst (ostate st) = enc x @ post" "bytes_written st = of_nat (length (enc x))"
    by (auto simp: out_at_def)
  have "dec (pb_istream_from_buffer (fst (ostate st)) (bytes_written st)) = dec (buf_at (enc x @ []) post None)"
    by (simp add: post pb_istream_from_buffer_def buf_at_def)
  moreover have "fits (enc x @ [])" using assms(2,3) by simp
  ultimately show ?thesis using st(1) post dec_enc [OF assms(1), of "[]" post None] assms(2,3)
    by (simp add: of_nat_u32)
qed

lemma write_full:
  assumes "valid x" "length buf < length (enc x)" "fits (enc x)"
  shows "\<exists>st. wr (pb_ostream_from_buffer buf (of_nat (length buf))) x = Some (False, st)"
proof -
  have "fits buf" using assms(2,3) by simp
  then have m: "unat (max_size (pb_ostream_from_buffer buf (of_nat (length buf)))) = length buf"
    by (simp add: pb_ostream_from_buffer_def of_nat_u32)
  show ?thesis
    using writes_full [OF write_enc [OF assms(1)] out_at_buffer [OF \<open>fits buf\<close>]] assms(2,3) m by auto
qed

end

interpretation varint64: round_trip "\<lambda>_. True" varint_bytes pb_decode_varint pb_encode_varint
  by unfold_locales (simp add: encode_varint_put writes_put varint_bytes_def)

interpretation svarint: round_trip "\<lambda>_. True" "\<lambda>v. varint_bytes (zigzag v)" pb_decode_svarint pb_encode_svarint
  by unfold_locales (simp add: encode_svarint_put writes_put)

interpretation fixed32: round_trip "\<lambda>_. True" fixed32_bytes pb_decode_fixed32 pb_encode_fixed32
  by unfold_locales (simp add: encode_fixed32_put writes_put)

interpretation fixed64: round_trip "\<lambda>_. True" fixed64_bytes pb_decode_fixed64 pb_encode_fixed64
  by unfold_locales (simp add: encode_fixed64_put writes_put)

interpretation tag: round_trip valid_tag tag_bytes decode_tag "\<lambda>st x. pb_encode_tag st (fst x) (snd x)"
  by unfold_locales (simp add: valid_tag_def encode_tag_put writes_put split: prod.splits)

interpretation string: round_trip fits string_bytes decode_string "\<lambda>st s. pb_encode_string st (Some s) (of_nat (length s))"
  by unfold_locales (rule writes_string)

section \<open>Values on the wire\<close>

datatype wire_value = W_varint u64 | W_64bit u64 | W_string "byte list" | W_32bit u32

fun wire_type_of :: "wire_value \<Rightarrow> wire_type" where
  "wire_type_of (W_varint v) = PB_WT_VARINT"
| "wire_type_of (W_64bit v) = PB_WT_64BIT"
| "wire_type_of (W_string s) = PB_WT_STRING"
| "wire_type_of (W_32bit v) = PB_WT_32BIT"

fun wire_bytes :: "wire_value \<Rightarrow> byte list" where
  "wire_bytes (W_varint v) = varint_bytes v"
| "wire_bytes (W_64bit v) = fixed64_bytes v"
| "wire_bytes (W_string s) = string_bytes s"
| "wire_bytes (W_32bit v) = fixed32_bytes v"

lemma length_fixed [simp]: "length (fixed32_bytes v) = 4" "length (fixed64_bytes w) = 8"
  by (simp_all add: fixed32_bytes_def fixed64_bytes_def)

lemma skip_varint_varint:
  "fits (varint n @ ys) \<Longrightarrow> pb_skip_varint (buf_at (varint n @ ys) rest e) = Some (Some (), buf_at ys rest e)"
proof (induction n rule: varint.induct)
  case (1 n)
  show ?case
  proof (cases "n < 128")
    case True
    then show ?thesis using "1.prems"
      by (subst pb_skip_varint.simps) (simp add: varint.simps [of n] pb_read_at byte_high word8_less_128)
  next
    case False
    then have vm: "varint n = of_nat (n mod 128 + 128) # varint (n div 128)" by (simp add: varint.simps [of n])
    show ?thesis using False "1.prems" "1.IH" word8_ge_128 [of "n mod 128"] unfolding vm
      by (subst pb_skip_varint.simps) (simp add: pb_read_at byte_high del: of_nat_add)
  qed
qed

lemma skip_exact:
  "fits (xs @ ys) \<Longrightarrow> n = of_nat (length xs) \<Longrightarrow>
     rd_ignore (pb_read True n) (buf_at (xs @ ys) rest e) = Some (Some (), buf_at ys rest e)"
  by (simp add: rd_ignore_def rd_bind_def pb_read_exact rd_return_def)

section \<open>Properties of the wire level\<close>

lemma zigzag_int: "zigzag v = word_of_int (if sint v < 0 then - 2 * sint v - 1 else 2 * sint v)"
proof -
  have a: "push_bit 1 v = word_of_int (2 * sint v)" by (simp add: push_bit_eq_mult mult.commute)
  have b: "NOT (word_of_int k) = (word_of_int (- k - 1) :: u64)" for k
    by (simp add: not_eq_complement)
  show ?thesis unfolding zigzag_def a b by (cases "sint v < 0") simp_all
qed

lemma zigzag_short:
  assumes "- 64 \<le> sint v" "sint v < 64"
  shows "length (varint_bytes (zigzag v)) = 1"
proof -
  have "unat (word_of_int k :: u64) < 128" if "0 \<le> k" "k < 128" for k
    using that by (simp add: unsigned_of_int take_bit_int_eq_self)
  from this [of "if sint v < 0 then - 2 * sint v - 1 else 2 * sint v"]
  have "unat (zigzag v) < 128" unfolding zigzag_int using assms by auto
  then show ?thesis by (simp add: varint_bytes_def varint.simps)
qed


text \<open>
  C19. A 64-bit value that \<open>pb_encode_varint\<close> writes into a buffer with room for ten bytes is read
  back by \<open>pb_decode_varint\<close>, which consumes exactly the bytes that were written, at most ten.
\<close>

theorem varint_read_back:
  assumes "10 \<le> length buf" "fits buf"
  shows "\<exists>st. pb_encode_varint (pb_ostream_from_buffer buf (of_nat (length buf))) v = Some (True, st) \<and>
    unat (bytes_written st) = length (varint_bytes v) \<and> length (varint_bytes v) \<le> 10 \<and>
    pb_decode_varint (pb_istream_from_buffer (fst (ostate st)) (bytes_written st)) =
      Some (Some v, buf_at [] (drop (length (varint_bytes v)) (fst (ostate st))) None)"
proof -
  have l: "length (varint_bytes v) \<le> 10" using varint_length_u64 by (simp add: varint_bytes_def)
  then show ?thesis using varint64.read_back [of v buf] assms by auto
qed

theorem varint_read_back_witness:
  "\<exists>st. pb_encode_varint (pb_ostream_from_buffer (replicate 10 0) (of_nat (length (replicate 10 (0 :: byte))))) 300 = Some (True, st) \<and>
    unat (bytes_written st) = length (varint_bytes 300) \<and> length (varint_bytes 300) \<le> 10 \<and>
    pb_decode_varint (pb_istream_from_buffer (fst (ostate st)) (bytes_written st)) =
      Some (Some 300, buf_at [] (drop (length (varint_bytes 300)) (fst (ostate st))) None)"
  by (rule varint_read_back) simp_all

text \<open>
  The signed values: \<open>pb_decode_svarint\<close> reads back what \<open>pb_encode_svarint\<close> writes, and the
  zigzag order keeps small magnitudes short, in at most ten bytes in all.
\<close>

theorem svarint_read_back:
  assumes "10 \<le> length buf" "fits buf"
  shows "\<exists>st. pb_encode_svarint (pb_ostream_from_buffer buf (of_nat (length buf))) v = Some (True, st) \<and>
    unat (bytes_written st) \<le> 10 \<and>
    (- 64 \<le> sint v \<longrightarrow> sint v < 64 \<longrightarrow> bytes_written st = 1) \<and>
    pb_decode_svarint (pb_istream_from_buffer (fst (ostate st)) (bytes_written st)) =
      Some (Some v, buf_at [] (drop (unat (bytes_written st)) (fst (ostate st))) None)"
proof -
  let ?n = "length (varint_bytes (zigzag v))"
  have l: "?n \<le> 10" using varint_length_u64 by (simp add: varint_bytes_def)
  show ?thesis using svarint.read_back [of v buf] zigzag_short [of v] assms l by (auto simp: word_unat_eq_iff)
qed

theorem svarint_read_back_witness:
  "\<exists>st. pb_encode_svarint (pb_ostream_from_buffer (replicate 10 0) (of_nat (length (replicate 10 (0 :: byte))))) (- 3) = Some (True, st) \<and>
    unat (bytes_written st) \<le> 10 \<and>
    (- 64 \<le> sint (- 3 :: u64) \<longrightarrow> sint (- 3 :: u64) < 64 \<longrightarrow> bytes_written st = 1) \<and>
    pb_decode_svarint (pb_istream_from_buffer (fst (ostate st)) (bytes_written st)) =
      Some (Some (- 3), buf_at [] (drop (unat (bytes_written st)) (fst (ostate st))) None)"
  by (rule svarint_read_back) simp_all

text \<open>
  Strings: a length-delimited string is read back as it was written when the buffer has room
  for it, and the encoder fails when it has not; nothing is ever cut off.
\<close>

theorem string_read_back:
  assumes "fits buf" "fits (string_bytes s)"
  shows "\<exists>ok st. pb_encode_string (pb_ostream_from_buffer buf (of_nat (length buf))) (Some s) (of_nat (length s)) = Some (ok, st) \<and>
    (ok \<longleftrightarrow> length (string_bytes s) \<le> length buf) \<and>
    (ok \<longrightarrow> decode_string (pb_istream_from_buffer (fst (ostate st)) (bytes_written st)) =
      Some (Some s, buf_at [] (drop (length (string_bytes s)) (fst (ostate st))) None))"
proof -
  have "fits s" using assms(2) by (simp add: string_bytes_def)
  then show ?thesis
    using string.read_back [of s buf] string.write_full [of s buf] assms
    by (cases "length (string_bytes s) \<le> length buf") auto
qed

theorem string_read_back_witness:
  "\<exists>ok st. pb_encode_string (pb_ostream_from_buffer (replicate 4 0) (of_nat (length (replicate 4 (0 :: byte)))))
      (Some [104, 105]) (of_nat (length [104, 105 :: byte])) = Some (ok, st) \<and>
    (ok \<longleftrightarrow> length (string_bytes [104, 105]) \<le> length (replicate 4 (0 :: byte))) \<and>
    (ok \<longrightarrow> decode_string (pb_istream_from_buffer (fst (ostate st)) (bytes_written st)) =
      Some (Some [104, 105], buf_at [] (drop (length (string_bytes [104, 105])) (fst (ostate st))) None))"
  by (rule string_read_back) (simp_all add: string_bytes_def varint.simps)

text \<open>
  C20. \<open>pb_decode_varint\<close> on any bytes: the value is that of the first run of bytes that ends
  with a byte below 128, modulo \<open>2 ^ 64\<close>, when it ends within ten bytes; otherwise the result is
  the error of a short stream or of an overflow, and the stream has advanced past what was read.
\<close>

theorem decode_varint_result:
  assumes "fits xs"
  shows "pb_decode_varint (buf_at xs rest None) =
    (case varint_split (take 10 xs) of
       Some (p, r) \<Rightarrow> Some (Some (of_nat (payload p)), buf_at (drop (length p) xs) rest None)
     | None \<Rightarrow> Some (None, buf_at (drop 10 xs) rest
         (Some (if length xs < 10 then ''end-of-stream'' else ''varint overflow''))))"
  using decode_varint_at [OF assms, of rest None]
  by (auto simp: rd_error_def set_ierr_at split: option.splits)

theorem decode_varint_result_witness:
  "pb_decode_varint (buf_at [0x96, 0x01, 0x07] [] None) =
    (case varint_split (take 10 [0x96, 0x01, 0x07]) of
       Some (p, r) \<Rightarrow> Some (Some (of_nat (payload p)), buf_at (drop (length p) [0x96, 0x01, 0x07]) [] None)
     | None \<Rightarrow> Some (None, buf_at (drop 10 [0x96, 0x01, 0x07]) []
         (Some (if length [0x96, 0x01, 0x07 :: byte] < 10 then ''end-of-stream'' else ''varint overflow''))))"
  by (rule decode_varint_result) simp

text \<open>
  C21. The 32-bit decoder agrees with the 64-bit one: on a varint of at most ten bytes, whatever it
  returns is the value \<open>pb_decode_varint\<close> returns, modulo \<open>2 ^ 32\<close>, from the same bytes.
\<close>

theorem varint32_agrees:
  assumes "fits xs" "varint_split xs = Some (p, r)" "length p \<le> 10"
    and "pb_decode_varint32 (buf_at xs rest e :: 's istream) = Some (Some v, st)"
  shows "st = buf_at r rest e \<and> v = of_nat (payload p) \<and>
    pb_decode_varint (buf_at xs rest e) = Some (Some (of_nat (payload p)), st)"
proof -
  obtain b bs where xs: "xs = b # bs" using assms(2) by (cases xs) auto
  have c: "(ucast (b AND 0x7F) :: u32) = of_nat (unat b mod 128)"
    unfolding and_7F by (subst unat_take_7 [symmetric]) simp_all
  have "st = buf_at r rest e \<and> v = of_nat (payload p)"
  proof (cases "b < 128")
    case True
    then have "unat (b AND 0x7F) = unat b" unfolding and_7F by (subst unat_take_7) (simp_all add: word_less_nat_alt)
    then have "b AND 0x7F = b" by (simp only: word_unat_eq_iff)
    then show ?thesis using True assms c by (auto simp: xs pb_decode_varint32_def pb_decode_varint32_eof_def byte_high)
  next
    case False
    then obtain q where q: "varint_split bs = Some (q, r)" "p = b # q" using assms(2) xs by auto
    have m: "unat b mod 128 < 2 ^ (7 * 1)" by simp
    have "varint32_loop (of_nat (unat b mod 128)) (of_nat (7 * 1)) (buf_at bs rest e) = Some (Some v, st)"
      using False assms(1,4) c
      by (auto simp: xs pb_decode_varint32_def pb_decode_varint32_eof_def byte_high split: bind_splits prod.splits)
    then have "v = of_nat (unat b mod 128 + 2 ^ (7 * 1) * payload q) \<and> st = buf_at r rest e"
      using assms(1,3) q m xs by (intro varint32_loop_sound [OF _ _ _ q(1)]) auto
    then show ?thesis by (simp add: q(2) del: of_nat_add of_nat_mult)
  qed
  moreover have "pb_decode_varint (buf_at xs rest e :: 's istream) = Some (Some (of_nat (payload p)), buf_at (drop (length p) xs) rest e)"
    using decode_varint_at [OF assms(1), of rest e] varint_split_take [OF assms(2,3)] by simp
  moreover have "drop (length p) xs = r" using varint_split_prefix [OF assms(2)] by auto
  ultimately show ?thesis by simp
qed

lemma varint32_example:
  "pb_decode_varint32 (buf_at [0x96, 0x01, 0x07] [] None :: unit istream) = Some (Some 150, buf_at [0x07] [] None)"
  using varint32_varint [of 150 "[7]" "[]" None] by (simp add: varint.simps)

theorem varint32_agrees_witness:
  "\<exists>st. st = (buf_at [0x07] [] None :: unit istream) \<and> (150 :: u32) = of_nat (payload [0x96, 0x01]) \<and>
    pb_decode_varint (buf_at [0x96, 0x01, 0x07] [] None) = Some (Some (of_nat (payload [0x96, 0x01])), st)"
  using varint32_agrees [OF _ _ _ varint32_example, of "[0x96, 0x01]" "[0x07]"] by simp

text \<open>
  Bits 32 to 34 of a sixth byte: the check of the 32-bit decoder for bits that do not fit is
  skipped when another byte follows. \<open>FF FF FF FF FF 00\<close> encodes \<open>2 ^ 35 - 1\<close>, which the 64-bit
  decoder returns; the 32-bit decoder accepts the same bytes as \<open>2 ^ 32 - 1\<close>, while it rejects
  the five byte encoding \<open>FF FF FF FF 7F\<close> of the same number as an overflow.
\<close>

theorem varint32_drops_bits:
  "pb_decode_varint (buf_at [0xFF, 0xFF, 0xFF, 0xFF, 0xFF, 0] [] None :: unit istream) =
     Some (Some (2 ^ 35 - 1), buf_at [] [] None) \<and>
   pb_decode_varint32 (buf_at [0xFF, 0xFF, 0xFF, 0xFF, 0xFF, 0] [] None :: unit istream) =
     Some (Some (2 ^ 32 - 1), buf_at [] [] None) \<and>
   pb_decode_varint32 (buf_at [0xFF, 0xFF, 0xFF, 0xFF, 0x7F] [] None :: unit istream) =
     Some (None, buf_at [] [] (Some ''varint overflow''))"
proof (intro conjI)
  show "pb_decode_varint (buf_at [0xFF, 0xFF, 0xFF, 0xFF, 0xFF, 0] [] None :: unit istream) =
     Some (Some (2 ^ 35 - 1), buf_at [] [] None)"
    by (simp add: decode_varint_at)
  show "pb_decode_varint32 (buf_at [0xFF, 0xFF, 0xFF, 0xFF, 0xFF, 0] [] None :: unit istream) =
     Some (Some (2 ^ 32 - 1), buf_at [] [] None)"
    by (simp add: pb_decode_varint32_def pb_decode_varint32_eof_def varint32_loop.simps varint32_step_def Let_def)
  show "pb_decode_varint32 (buf_at [0xFF, 0xFF, 0xFF, 0xFF, 0x7F] [] None :: unit istream) =
     Some (None, buf_at [] [] (Some ''varint overflow''))"
    by (simp add: pb_decode_varint32_def pb_decode_varint32_eof_def varint32_loop.simps varint32_step_def Let_def
        rd_error_def set_ierr_at)
qed

text \<open>
  C22. Unknown fields: \<open>pb_skip_field\<close> skips exactly the bytes of a value of the wire type it is
  given, whatever follows them.
\<close>

theorem skip_field_skips:
  assumes "fits (wire_bytes w @ ys)"
  shows "pb_skip_field (wire_type_of w) (buf_at (wire_bytes w @ ys) rest e) = Some (Some (), buf_at ys rest e)"
proof (cases w)
  case (W_string s)
  have s: "fits (varint (length s) @ s @ ys)" using assms W_string by (simp add: string_bytes_def)
  then have "rd_ignore (pb_read True (of_nat (length s))) (buf_at (s @ ys) rest e) = Some (Some (), buf_at ys rest e)"
    by (intro skip_exact) auto
  then show ?thesis using W_string s
    by (simp add: pb_skip_field_def PB_WT_STRING_def PB_WT_VARINT_def PB_WT_64BIT_def pb_skip_string_def rd_bind_def
        string_bytes_def varint32_varint)
next
  case (W_64bit v)
  then show ?thesis using assms skip_exact [of "fixed64_bytes v" ys 8 rest e]
    by (simp add: pb_skip_field_def PB_WT_VARINT_def PB_WT_64BIT_def)
next
  case (W_32bit v)
  then show ?thesis using assms skip_exact [of "fixed32_bytes v" ys 4 rest e]
    by (simp add: pb_skip_field_def PB_WT_VARINT_def PB_WT_64BIT_def PB_WT_STRING_def PB_WT_32BIT_def)
qed (use assms in \<open>simp add: pb_skip_field_def varint_bytes_def skip_varint_varint\<close>)

theorem skip_field_skips_witness:
  "pb_skip_field (wire_type_of (W_string [1, 2])) (buf_at (wire_bytes (W_string [1, 2]) @ [8, 1]) [] None :: unit istream) =
    Some (Some (), buf_at [8, 1] [] None)"
  by (rule skip_field_skips) (simp add: string_bytes_def varint.simps)

text \<open>
  Tags: for a field number below \<open>2 ^ 29\<close> the decoder reads back the wire type and the number
  \<open>pb_encode_tag\<close> writes, and two different tags never start with the same bytes.
\<close>

theorem tag_read_back:
  assumes "valid_tag x" "valid_tag y" "fits (tag_bytes x @ ys)"
  shows "(\<exists>st. pb_encode_tag (sizing_stream (z :: obuf)) (fst x) (snd x) = Some (True, st) \<and> bytes_written st = of_nat (length (tag_bytes x))) \<and>
    pb_decode_tag (buf_at (tag_bytes x @ ys) rest e) = Some (Some x, False, buf_at ys rest e) \<and>
    (tag_bytes x @ ys = tag_bytes y @ zs) = (x = y \<and> ys = zs)"
proof (intro conjI iffI)
  show "\<exists>st. pb_encode_tag (sizing_stream (z :: obuf)) (fst x) (snd x) = Some (True, st) \<and> bytes_written st = of_nat (length (tag_bytes x))"
    using tag.sizing [OF assms(1)] by simp
  show "pb_decode_tag (buf_at (tag_bytes x @ ys) rest e) = Some (Some x, False, buf_at ys rest e)"
    using decode_tag_bytes [of "fst x" "snd x"] assms(1,3) by simp
  assume "tag_bytes x @ ys = tag_bytes y @ zs"
  from tag.prefix_free [OF assms(1,2,3) this] show "x = y" "ys = zs" by simp_all
qed simp

theorem tag_read_back_witness:
  "(\<exists>st. pb_encode_tag (sizing_stream (([], 0) :: obuf)) (fst (2 :: wire_type, 3 :: u32)) (snd (2 :: wire_type, 3 :: u32)) = Some (True, st) \<and>
      bytes_written st = of_nat (length (tag_bytes (2, 3)))) \<and>
    pb_decode_tag (buf_at (tag_bytes (2, 3) @ [0]) [] None :: unit istream) = Some (Some (2, 3), False, buf_at [0] [] None) \<and>
    (tag_bytes (2, 3) @ [0] = tag_bytes (0, 1) @ [5]) = ((2, 3) = (0 :: wire_type, 1 :: u32) \<and> [0] = [5 :: byte])"
  by (rule tag_read_back [where x = "(2, 3)" and y = "(0, 1)" and z = "([], 0)" and ys = "[0]" and zs = "[5]"])
    (simp_all add: valid_tag_def tag_bytes_def varint.simps)

end
