(* ===== verification/PbFields.thy ===== *)
theory PbFields
  imports PbCodec
begin

text \<open>
  Field descriptors of nanopb (speech/nanopb/pb.h) and the field iterator (pb_common.c).

  The memory of the messages is one list of bytes indexed by addresses, with address 0 as NULL;
  a message struct lies at its address in it, and pointers in it are 4 bytes, little endian. A
  descriptor array ends with an entry of tag 0. Constant objects the structs point to (the
  functions of callbacks, the types of extensions) are looked up by their pointers in tables.
\<close>

section \<open>Memory of the messages\<close>

type_synonym memory = "byte list"
type_synonym addr = int

definition ld :: "memory \<Rightarrow> addr \<Rightarrow> int \<Rightarrow> byte list c" where
  "ld m a n = (if 0 < a then mem_load m a n else None)"

definition sto :: "memory \<Rightarrow> addr \<Rightarrow> byte list \<Rightarrow> memory c" where
  "sto m a bs = (if 0 < a then mem_store m a bs else None)"

fun le_value :: "byte list \<Rightarrow> nat" where
  "le_value [] = 0"
| "le_value (b # bs) = unat b + 256 * le_value bs"

fun le_bytes :: "nat \<Rightarrow> nat \<Rightarrow> byte list" where
  "le_bytes 0 v = []"
| "le_bytes (Suc n) v = of_nat (v mod 256) # le_bytes n (v div 256)"

definition ld_byte :: "memory \<Rightarrow> addr \<Rightarrow> byte c" where
  "ld_byte m a = do { bs \<leftarrow> ld m a 1; Some (bs ! 0) }"

definition ld_ptr :: "memory \<Rightarrow> addr \<Rightarrow> addr c" where
  "ld_ptr m a = do { bs \<leftarrow> ld m a 4; Some (int (le_value bs)) }"

lemma le_bytes_length [simp]: "length (le_bytes n v) = n"
  by (induction n arbitrary: v) auto

lemma le_value_less: "le_value bs < 256 ^ length bs"
proof (induction bs)
  case (Cons b bs)
  have "unat b < 256" using unsigned_less [of b, where ?'a = nat] by simp
  moreover have "le_value bs + 1 \<le> 256 ^ length bs" using Cons by simp
  then have "256 * (le_value bs + 1) \<le> 256 * 256 ^ length bs" by (rule mult_le_mono2)
  ultimately show ?case by simp
qed simp

lemma le_value_bytes: "v < 256 ^ n \<Longrightarrow> le_value (le_bytes n v) = v"
proof (induction n arbitrary: v)
  case (Suc n)
  have "v div 256 < 256 ^ n" using Suc.prems by (intro less_mult_imp_div_less) (simp add: mult.commute)
  then show ?case using Suc.IH by (simp add: unat_byte)
qed simp

lemma le_bytes_value: "le_bytes (length bs) (le_value bs) = bs"
proof (induction bs)
  case (Cons b bs)
  have "unat b < 256" using unsigned_less [of b, where ?'a = nat] by simp
  then show ?case using Cons by simp
qed simp

section \<open>Descriptors\<close>

datatype pb_field =
  Field (f_tag: byte) (f_type: byte) (data_offset: byte) (size_offset: byte) (data_size: byte)
    (array_size: byte) (f_ptr: field_ptr)
and field_ptr = NULL | Submsg "pb_field list" | Default_value "byte list"

definition PB_LTYPE :: "byte \<Rightarrow> byte" where "PB_LTYPE t = t AND 0x0F"
definition PB_HTYPE :: "byte \<Rightarrow> byte" where "PB_HTYPE t = t AND 0x30"
definition PB_ATYPE :: "byte \<Rightarrow> byte" where "PB_ATYPE t = t AND 0xC0"

definition PB_LTYPE_VARINT :: byte where "PB_LTYPE_VARINT = 0x00"
definition PB_LTYPE_UVARINT :: byte where "PB_LTYPE_UVARINT = 0x01"
definition PB_LTYPE_SVARINT :: byte where "PB_LTYPE_SVARINT = 0x02"
definition PB_LTYPE_FIXED32 :: byte where "PB_LTYPE_FIXED32 = 0x03"
definition PB_LTYPE_FIXED64 :: byte where "PB_LTYPE_FIXED64 = 0x04"
definition PB_LTYPE_LAST_PACKABLE :: byte where "PB_LTYPE_LAST_PACKABLE = 0x04"
definition PB_LTYPE_BYTES :: byte where "PB_LTYPE_BYTES = 0x05"
definition PB_LTYPE_STRING :: byte where "PB_LTYPE_STRING = 0x06"
definition PB_LTYPE_SUBMESSAGE :: byte where "PB_LTYPE_SUBMESSAGE = 0x07"
definition PB_LTYPE_EXTENSION :: byte where "PB_LTYPE_EXTENSION = 0x08"
definition PB_LTYPE_FIXED_LENGTH_BYTES :: byte where "PB_LTYPE_FIXED_LENGTH_BYTES = 0x09"

lemmas ltypes = PB_LTYPE_VARINT_def PB_LTYPE_UVARINT_def PB_LTYPE_SVARINT_def PB_LTYPE_FIXED32_def
  PB_LTYPE_FIXED64_def PB_LTYPE_LAST_PACKABLE_def PB_LTYPE_BYTES_def PB_LTYPE_STRING_def
  PB_LTYPE_SUBMESSAGE_def PB_LTYPE_EXTENSION_def PB_LTYPE_FIXED_LENGTH_BYTES_def

definition PB_HTYPE_REQUIRED :: byte where "PB_HTYPE_REQUIRED = 0x00"
definition PB_HTYPE_OPTIONAL :: byte where "PB_HTYPE_OPTIONAL = 0x10"
definition PB_HTYPE_REPEATED :: byte where "PB_HTYPE_REPEATED = 0x20"
definition PB_HTYPE_ONEOF :: byte where "PB_HTYPE_ONEOF = 0x30"

lemmas htypes = PB_HTYPE_REQUIRED_def PB_HTYPE_OPTIONAL_def PB_HTYPE_REPEATED_def PB_HTYPE_ONEOF_def

definition PB_ATYPE_STATIC :: byte where "PB_ATYPE_STATIC = 0x00"
definition PB_ATYPE_POINTER :: byte where "PB_ATYPE_POINTER = 0x80"
definition PB_ATYPE_CALLBACK :: byte where "PB_ATYPE_CALLBACK = 0x40"

lemmas atypes = PB_ATYPE_STATIC_def PB_ATYPE_POINTER_def PB_ATYPE_CALLBACK_def

abbreviation ltype :: "pb_field \<Rightarrow> byte" where "ltype f \<equiv> PB_LTYPE (f_type f)"
abbreviation htype :: "pb_field \<Rightarrow> byte" where "htype f \<equiv> PB_HTYPE (f_type f)"
abbreviation atype :: "pb_field \<Rightarrow> byte" where "atype f \<equiv> PB_ATYPE (f_type f)"

lemma and_exp: "(t :: byte) AND push_bit k 1 = (if bit t k then push_bit k 1 else 0)"
  by (rule bit_word_eqI) (auto simp: bit_simps)

lemma mask_pair: "(t :: byte) AND (push_bit j 1 OR push_bit k 1) = (if bit t j then push_bit j 1 else 0) OR (if bit t k then push_bit k 1 else 0)"
  by (simp only: bit.conj_disj_distrib and_exp)

lemma htype_cases: "htype f \<in> {PB_HTYPE_REQUIRED, PB_HTYPE_OPTIONAL, PB_HTYPE_REPEATED, PB_HTYPE_ONEOF}"
proof -
  have "0x30 = (push_bit 4 1 OR push_bit 5 1 :: byte)" by simp
  then show ?thesis using mask_pair [of "f_type f" 4 5] by (auto simp: PB_HTYPE_def htypes)
qed

lemma atype_cases: "atype f \<in> {PB_ATYPE_STATIC, PB_ATYPE_POINTER, PB_ATYPE_CALLBACK, 0xC0}"
proof -
  have "0xC0 = (push_bit 6 1 OR push_bit 7 1 :: byte)" by simp
  then show ?thesis using mask_pair [of "f_type f" 6 7] by (auto simp: PB_ATYPE_def atypes)
qed

definition PB_SIZE_MAX :: byte where "PB_SIZE_MAX = 255"

section \<open>The iterator\<close>

record field_iter =
  it_start :: "pb_field list"
  pos :: nat
  required_field_index :: nat
  dest_struct :: addr
  pData :: addr
  pSize :: addr

text \<open>\<open>iter->pos\<close>, dereferenced.\<close>

definition at_pos :: "field_iter \<Rightarrow> pb_field c" where
  "at_pos it = (if pos it < length (it_start it) then Some (it_start it ! pos it) else None)"

definition pb_field_iter_begin :: "pb_field list \<Rightarrow> addr \<Rightarrow> (bool \<times> field_iter) c" where
  "pb_field_iter_begin flds dest = do {
     let it = \<lparr>it_start = flds, pos = 0, required_field_index = 0, dest_struct = dest, pData = 0, pSize = 0\<rparr>;
     f \<leftarrow> at_pos it;
     let p = dest + uint (data_offset f);
     Some (f_tag f \<noteq> 0, it\<lparr>pData := p, pSize := p + sint (size_offset f)\<rparr>) }"

definition prev_size :: "pb_field \<Rightarrow> int" where
  "prev_size prev =
     (if atype prev = PB_ATYPE_STATIC \<and> htype prev = PB_HTYPE_REPEATED
      then uint (data_size prev) * uint (array_size prev)
      else if atype prev = PB_ATYPE_POINTER then 4
      else uint (data_size prev))"

definition pb_field_iter_next :: "field_iter \<Rightarrow> (bool \<times> field_iter) c" where
  "pb_field_iter_next it = do {
     prev \<leftarrow> at_pos it;
     if f_tag prev = 0 then Some (False, it)
     else do {
       let it1 = it\<lparr>pos := pos it + 1\<rparr>;
       f \<leftarrow> at_pos it1;
       if f_tag f = 0 then do {
         (_, it2) \<leftarrow> pb_field_iter_begin (it_start it1) (dest_struct it1);
         Some (False, it2) }
       else if htype prev = PB_HTYPE_ONEOF \<and> htype f = PB_HTYPE_ONEOF \<and> data_offset f = PB_SIZE_MAX
       then Some (True, it1)
       else do {
         let it2 = (if htype prev = PB_HTYPE_REQUIRED
                    then it1\<lparr>required_field_index := required_field_index it1 + 1\<rparr> else it1);
         let p = pData it2 + prev_size prev + uint (data_offset f);
         Some (True, it2\<lparr>pData := p, pSize := p + sint (size_offset f)\<rparr>) } } }"

partial_function (option) iter_search :: "(pb_field \<Rightarrow> bool) \<Rightarrow> nat \<Rightarrow> field_iter \<Rightarrow> (bool \<times> field_iter) c" where
  "iter_search wanted stop it = do {
     f \<leftarrow> at_pos it;
     if wanted f then Some (True, it)
     else do {
       (_, it1) \<leftarrow> pb_field_iter_next it;
       if pos it1 \<noteq> stop then iter_search wanted stop it1 else Some (False, it1) } }"

definition pb_field_iter_find :: "field_iter \<Rightarrow> u32 \<Rightarrow> (bool \<times> field_iter) c" where
  "pb_field_iter_find it t =
     iter_search (\<lambda>f. ucast (f_tag f) = t \<and> ltype f \<noteq> PB_LTYPE_EXTENSION) (pos it) it"

text \<open>
  \<open>do { if (!body) return false; } while (pb_field_iter_next(&iter)); return true\<close>, with
  the state the body changes.
\<close>

partial_function (option) iter_loop ::
  "(pb_field \<Rightarrow> addr \<Rightarrow> addr \<Rightarrow> 'a \<Rightarrow> (bool \<times> 'a) c) \<Rightarrow> field_iter \<Rightarrow> 'a \<Rightarrow> (bool \<times> 'a) c" where
  "iter_loop body it a = do {
     f \<leftarrow> at_pos it;
     (ok, a1) \<leftarrow> body f (pData it) (pSize it) a;
     if \<not> ok then Some (False, a1)
     else do {
       (more, it1) \<leftarrow> pb_field_iter_next it;
       if more then iter_loop body it1 a1 else Some (True, a1) } }"

definition for_fields ::
  "(pb_field \<Rightarrow> addr \<Rightarrow> addr \<Rightarrow> 'a \<Rightarrow> (bool \<times> 'a) c) \<Rightarrow> pb_field list \<Rightarrow> addr \<Rightarrow> 'a \<Rightarrow> (bool \<times> 'a) c" where
  "for_fields body flds dest a = do {
     (ok, it) \<leftarrow> pb_field_iter_begin flds dest;
     if ok then iter_loop body it a else Some (True, a) }"

section \<open>What the iterator visits\<close>

record slot =
  s_field :: pb_field
  s_data :: addr
  s_size :: addr
  s_required :: nat

definition next_slot :: "slot \<Rightarrow> pb_field \<Rightarrow> slot" where
  "next_slot s f =
     (let prev = s_field s in
      if htype prev = PB_HTYPE_ONEOF \<and> htype f = PB_HTYPE_ONEOF \<and> data_offset f = PB_SIZE_MAX
      then s\<lparr>s_field := f\<rparr>
      else (let p = s_data s + prev_size prev + uint (data_offset f) in
        \<lparr>s_field = f, s_data = p, s_size = p + sint (size_offset f),
         s_required = (if htype prev = PB_HTYPE_REQUIRED then s_required s + 1 else s_required s)\<rparr>))"

fun slots_from :: "slot \<Rightarrow> pb_field list \<Rightarrow> slot list" where
  "slots_from s [] = [s]"
| "slots_from s (f # fs) = s # slots_from (next_slot s f) fs"

definition first_slot :: "pb_field \<Rightarrow> addr \<Rightarrow> slot" where
  "first_slot f dest =
     (let p = dest + uint (data_offset f) in \<lparr>s_field = f, s_data = p, s_size = p + sint (size_offset f), s_required = 0\<rparr>)"

text \<open>The fields of a descriptor array with where their data and sizes lie.\<close>

fun slots :: "pb_field list \<Rightarrow> addr \<Rightarrow> slot list" where
  "slots (f # fs) dest = slots_from (first_slot f dest) fs"
| "slots [] dest = []"

definition terminated :: "pb_field list \<Rightarrow> bool" where
  "terminated flds \<longleftrightarrow> flds \<noteq> [] \<and> f_tag (last flds) = 0 \<and> list_all (\<lambda>f. f_tag f \<noteq> 0) (butlast flds)"

definition iter_at :: "pb_field list \<Rightarrow> addr \<Rightarrow> nat \<Rightarrow> field_iter" where
  "iter_at flds dest i =
     (let s = slots (butlast flds) dest ! i in
      \<lparr>it_start = flds, pos = i, required_field_index = s_required s, dest_struct = dest,
       pData = s_data s, pSize = s_size s\<rparr>)"

lemma slots_from_length [simp]: "length (slots_from s fs) = Suc (length fs)"
  by (induction fs arbitrary: s) auto

lemma slots_length [simp]: "length (slots fs dest) = length fs"
  by (cases fs) auto

lemma slots_from_step:
  "Suc i < Suc (length fs) \<Longrightarrow> slots_from s fs ! Suc i = next_slot (slots_from s fs ! i) (fs ! i)"
proof (induction fs arbitrary: s i)
  case (Cons f fs)
  show ?case
  proof (cases i)
    case 0
    then show ?thesis by (cases fs) auto
  next
    case (Suc j)
    then show ?thesis using Cons.IH [of j "next_slot s f"] Cons.prems by simp
  qed
qed simp

lemma slots_step: "Suc i < length fs \<Longrightarrow> slots fs dest ! Suc i = next_slot (slots fs dest ! i) (fs ! Suc i)"
  by (cases fs) (auto simp: slots_from_step)

lemma next_slot_field [simp]: "s_field (next_slot s f) = f"
  by (simp add: next_slot_def Let_def)

lemma slots_first: "fs \<noteq> [] \<Longrightarrow> slots fs dest ! 0 = first_slot (hd fs) dest"
  by (cases fs rule: list.exhaust; cases "tl fs") auto

lemma slots_field: "i < length fs \<Longrightarrow> s_field (slots fs dest ! i) = fs ! i"
proof (cases i)
  case 0
  assume "i < length fs"
  then show ?thesis using 0 slots_first [of fs dest] by (auto simp: first_slot_def Let_def hd_conv_nth)
qed (simp add: slots_step)

lemma terminated_nth:
  assumes "terminated flds" "i < length flds - 1"
  shows "flds ! i = butlast flds ! i" "f_tag (flds ! i) \<noteq> 0"
proof -
  show "flds ! i = butlast flds ! i" using assms by (simp add: nth_butlast)
  then show "f_tag (flds ! i) \<noteq> 0"
    using assms nth_mem [of i "butlast flds"] by (simp add: terminated_def list_all_iff)
qed

lemma terminated_last: "terminated flds \<Longrightarrow> f_tag (flds ! (length flds - 1)) = 0" "terminated flds \<Longrightarrow> flds \<noteq> []"
  by (metis terminated_def last_conv_nth) (simp add: terminated_def)

lemma at_pos_iter_at [simp]: "i < length flds \<Longrightarrow> at_pos (iter_at flds dest i) = Some (flds ! i)"
  by (simp add: at_pos_def iter_at_def Let_def)

lemma iter_begin_at:
  assumes "terminated flds" "1 < length flds"
  shows "pb_field_iter_begin flds dest = Some (True, iter_at flds dest 0)"
proof -
  have ne: "butlast flds \<noteq> []" using assms(2) by (simp flip: length_greater_0_conv)
  then have "hd (butlast flds) = flds ! 0" using assms(2) by (simp add: hd_conv_nth nth_butlast)
  moreover have "0 < length flds" "f_tag (flds ! 0) \<noteq> 0" using assms terminated_nth(2) [of flds 0] by auto
  ultimately show ?thesis using slots_first [OF ne, of dest]
    by (simp add: pb_field_iter_begin_def at_pos_def iter_at_def Let_def first_slot_def)
qed

lemma iter_begin_empty:
  "terminated flds \<Longrightarrow> length flds \<le> 1 \<Longrightarrow> \<exists>it. pb_field_iter_begin flds dest = Some (False, it)"
  using terminated_last [of flds]
  by (cases flds) (auto simp: pb_field_iter_begin_def at_pos_def Let_def)

lemma iter_next_at:
  assumes "terminated flds" "Suc i < length flds - 1"
  shows "pb_field_iter_next (iter_at flds dest i) = Some (True, iter_at flds dest (Suc i))"
proof -
  let ?s = "slots (butlast flds) dest ! i"
  have f: "s_field ?s = flds ! i" "f_tag (flds ! i) \<noteq> 0" "f_tag (flds ! Suc i) \<noteq> 0"
    using assms terminated_nth [of flds i] terminated_nth [of flds "Suc i"] by (simp_all add: slots_field)
  have "slots (butlast flds) dest ! Suc i = next_slot ?s (flds ! Suc i)"
    using assms terminated_nth [of flds "Suc i"] by (simp add: slots_step)
  moreover have "i < length flds" "Suc i < length flds" using assms by auto
  ultimately show ?thesis using f
    by (auto simp: pb_field_iter_next_def iter_at_def next_slot_def at_pos_def Let_def)
qed

lemma iter_next_wrap:
  assumes "terminated flds" "Suc i = length flds - 1"
  shows "pb_field_iter_next (iter_at flds dest i) = Some (False, iter_at flds dest 0)"
proof -
  have "f_tag (flds ! i) \<noteq> 0" "f_tag (flds ! Suc i) = 0" "Suc i < length flds" "1 < length flds"
    using assms terminated_nth [of flds i] terminated_last [of flds] by auto
  then show ?thesis
    using iter_begin_at [OF assms(1)] by (simp add: pb_field_iter_next_def iter_at_def at_pos_def Let_def)
qed

fun loop_slots :: "(pb_field \<Rightarrow> addr \<Rightarrow> addr \<Rightarrow> 'a \<Rightarrow> (bool \<times> 'a) c) \<Rightarrow> slot list \<Rightarrow> 'a \<Rightarrow> (bool \<times> 'a) c" where
  "loop_slots body [] a = Some (True, a)"
| "loop_slots body (s # ss) a = do {
     (ok, a1) \<leftarrow> body (s_field s) (s_data s) (s_size s) a;
     if \<not> ok then Some (False, a1) else loop_slots body ss a1 }"

lemma iter_loop_slots:
  assumes "terminated flds" "i < length flds - 1"
  shows "iter_loop body (iter_at flds dest i) a = loop_slots body (drop i (slots (butlast flds) dest)) a"
  using assms(2)
proof (induction "length flds - 1 - i" arbitrary: i a)
  case (Suc d)
  let ?s = "slots (butlast flds) dest ! i"
  have d: "drop i (slots (butlast flds) dest) = ?s # drop (Suc i) (slots (butlast flds) dest)"
    using Suc.prems by (simp add: Cons_nth_drop_Suc)
  have s: "at_pos (iter_at flds dest i) = Some (s_field ?s)" "pData (iter_at flds dest i) = s_data ?s"
    "pSize (iter_at flds dest i) = s_size ?s"
    using Suc.prems assms(1) terminated_nth [of flds i] by (simp_all add: slots_field) (simp_all add: iter_at_def Let_def)
  show ?case
  proof (cases "Suc i = length flds - 1")
    case True
    then have "drop (Suc i) (slots (butlast flds) dest) = []" by simp
    then show ?thesis using iter_next_wrap [OF assms(1) True]
      unfolding d by (subst iter_loop.simps) (simp add: s case_prod_beta cong: if_cong)
  next
    case False
    then have n: "Suc i < length flds - 1" using Suc.prems by simp
    have "d = length flds - 1 - Suc i" using Suc.hyps(2) by simp
    then show ?thesis using Suc.hyps(1) [OF _ n] iter_next_at [OF assms(1) n]
      unfolding d by (subst iter_loop.simps) (simp add: s case_prod_beta cong: if_cong)
  qed
qed simp

theorem for_fields_slots:
  assumes "terminated flds"
  shows "for_fields body flds dest a = loop_slots body (slots (butlast flds) dest) a"
proof (cases "1 < length flds")
  case True
  then show ?thesis using iter_begin_at [OF assms True] iter_loop_slots [OF assms, of 0]
    by (simp add: for_fields_def)
next
  case False
  then have "butlast flds = []" by (cases flds) auto
  then show ?thesis using iter_begin_empty [OF assms, of dest] False by (auto simp: for_fields_def)
qed

section \<open>Searching a field\<close>

text \<open>The positions a search that starts at \<open>k\<close> looks at, \<open>d\<close> of them.\<close>

definition round_from :: "nat \<Rightarrow> nat \<Rightarrow> nat \<Rightarrow> nat list" where
  "round_from n k d = map (\<lambda>x. (k + x) mod n) [0..<d]"

lemma round_from_Suc: "k < n \<Longrightarrow> round_from n k (Suc d) = k # round_from n (Suc k mod n) d"
proof -
  assume "k < n"
  moreover have "[0..<Suc d] = 0 # map Suc [0..<d]" by (simp add: map_Suc_upt upt_conv_Cons)
  moreover have "(k + Suc x) mod n = (Suc k mod n + x) mod n" for x by (simp add: mod_add_left_eq)
  ultimately show ?thesis unfolding round_from_def by (simp del: upt_Suc)
qed

lemma next_at:
  assumes "terminated flds" "i < length flds - 1"
  shows "\<exists>more. pb_field_iter_next (iter_at flds dest i) = Some (more, iter_at flds dest (Suc i mod (length flds - 1)))"
proof (cases "Suc i = length flds - 1")
  case True
  then show ?thesis using iter_next_wrap [OF assms(1) True] by auto
next
  case False
  then show ?thesis using iter_next_at [OF assms(1), of i] assms(2) by auto
qed

lemma pos_iter_at [simp]: "pos (iter_at flds dest i) = i"
  by (simp add: iter_at_def Let_def)

lemma iter_search_at:
  assumes "terminated flds" "k < n" "n = length flds - 1" "0 < d" "d \<le> n"
  shows "iter_search wanted ((k + d) mod n) (iter_at flds dest k) =
    (case find (\<lambda>j. wanted (flds ! j)) (round_from n k d) of
       Some j \<Rightarrow> Some (True, iter_at flds dest j)
     | None \<Rightarrow> Some (False, iter_at flds dest ((k + d) mod n)))"
  using assms(2,4,5)
proof (induction d arbitrary: k)
  case (Suc d)
  have k: "k < length flds" using Suc.prems assms(3) by simp
  obtain more where m: "pb_field_iter_next (iter_at flds dest k) = Some (more, iter_at flds dest (Suc k mod n))"
    using next_at [OF assms(1), of k dest] Suc.prems assms(3) by auto
  have stop: "(k + Suc d) mod n = (Suc k mod n + d) mod n" by (simp add: mod_add_left_eq)
  show ?case
  proof (cases "wanted (flds ! k)")
    case True
    then show ?thesis using k Suc.prems by (subst iter_search.simps) (simp add: round_from_Suc)
  next
    case False
    show ?thesis
    proof (cases "d = 0")
      case True
      then show ?thesis using k Suc.prems False m
        by (subst iter_search.simps) (simp add: round_from_Suc round_from_def)
    next
      case d: False
      have ne: "Suc k mod n \<noteq> (k + Suc d) mod n"
      proof
        assume "Suc k mod n = (k + Suc d) mod n"
        then have "n dvd d" using mod_eq_dvd_iff_nat [of "Suc k" "k + Suc d" n] by simp
        then show False using d Suc.prems(3) by (auto dest: dvd_imp_le)
      qed
      have "Suc k mod n < n" using Suc.prems by simp
      then have "iter_search wanted ((Suc k mod n + d) mod n) (iter_at flds dest (Suc k mod n)) =
        (case find (\<lambda>j. wanted (flds ! j)) (round_from n (Suc k mod n) d) of
           Some j \<Rightarrow> Some (True, iter_at flds dest j)
         | None \<Rightarrow> Some (False, iter_at flds dest ((Suc k mod n + d) mod n)))"
        using d Suc.prems by (intro Suc.IH) auto
      then show ?thesis using k Suc.prems False m ne
        unfolding stop
        by (subst iter_search.simps) (simp add: round_from_Suc)
    qed
  qed
qed simp

lemma find_cases:
  "(case find P xs of Some j \<Rightarrow> f j | None \<Rightarrow> z) = y \<Longrightarrow> (\<exists>j\<in>set xs. P j \<and> f j = y) \<or> ((\<forall>j\<in>set xs. \<not> P j) \<and> z = y)"
  by (cases "find P xs") (auto simp: find_None_iff find_Some_iff)

lemma set_round: "k < n \<Longrightarrow> set (round_from n k n) = {..<n}"
proof -
  assume "k < n"
  have "j \<in> (\<lambda>x. (k + x) mod n) ` {0..<n}" if "j < n" for j
  proof (cases "k \<le> j")
    case True
    then show ?thesis using that by (intro image_eqI [of _ _ "j - k"]) auto
  next
    case False
    then show ?thesis using that \<open>k < n\<close> by (intro image_eqI [of _ _ "j + n - k"]) auto
  qed
  then show ?thesis using \<open>k < n\<close> by (auto simp: round_from_def)
qed

definition wanted_by :: "u32 \<Rightarrow> pb_field \<Rightarrow> bool" where
  "wanted_by t f \<longleftrightarrow> ucast (f_tag f) = t \<and> ltype f \<noteq> PB_LTYPE_EXTENSION"

lemma iter_find_at:
  assumes "terminated flds" "k < length flds - 1"
  obtains (found) j where "j < length flds - 1" "wanted_by t (flds ! j)"
      "pb_field_iter_find (iter_at flds dest k) t = Some (True, iter_at flds dest j)"
  | (absent) "\<forall>j < length flds - 1. \<not> wanted_by t (flds ! j)"
      "pb_field_iter_find (iter_at flds dest k) t = Some (False, iter_at flds dest k)"
proof -
  let ?n = "length flds - 1"
  have "pb_field_iter_find (iter_at flds dest k) t =
    (case find (\<lambda>j. wanted_by t (flds ! j)) (round_from ?n k ?n) of
       Some j \<Rightarrow> Some (True, iter_at flds dest j) | None \<Rightarrow> Some (False, iter_at flds dest k))"
  proof -
    have kn: "(k + ?n) mod ?n = k" using assms(2) by (metis mod_add_self2 mod_less)
    have n: "0 < ?n" using assms(2) by simp
    show ?thesis using iter_search_at [OF assms refl n order_refl, of "wanted_by t" dest]
      unfolding kn pb_field_iter_find_def wanted_by_def [abs_def] pos_iter_at by assumption
  qed
  then show thesis using that set_round [OF assms(2)]
    by (auto split: option.splits simp: find_None_iff find_Some_iff) (metis lessThan_iff nth_mem)
qed

end
