(* ===== verification/PbEncode.thy ===== *)
theory PbEncode
  imports PbFields
begin

text \<open>
  The message encoder of nanopb (speech/nanopb/pb_encode.c). The recursion into submessages is
  bounded by a depth; a message whose descriptors are nested less deep never reaches the bound.
  \<open>message_bytes\<close> is the encoding as a function of the memory alone: no stream, no size pass.
  The refinement theorem says that the encoder writes exactly these bytes on a buffer, counts
  exactly their number on a sizing stream and fails exactly when they do not fit.
\<close>

section \<open>The encoder\<close>

record 's ext_type =
  et_encode :: "(addr \<Rightarrow> 's ostream \<Rightarrow> (bool \<times> 's ostream) c) option"
  et_arg :: pb_field

record 's enc_env =
  mem :: memory
  enc_callbacks :: "addr \<Rightarrow> (pb_field \<Rightarrow> addr \<Rightarrow> 's ostream \<Rightarrow> (bool \<times> 's ostream) c) option"
  ext_types :: "addr \<Rightarrow> 's ext_type option"

type_synonym 's sub_encoder = "pb_field list \<Rightarrow> addr \<Rightarrow> 's ostream \<Rightarrow> (bool \<times> 's ostream) c"

definition ost_error :: "string \<Rightarrow> 's ostream \<Rightarrow> (bool \<times> 's ostream) c" where
  "ost_error msg st = Some (False, set_oerr msg st)"

text \<open>The buffer argument that points into the memory.\<close>

definition ptr_bytes :: "memory \<Rightarrow> addr \<Rightarrow> byte list option" where
  "ptr_bytes m a = (if a = 0 then None else Some (drop (nat a) m))"

definition pb_enc_varint :: "memory \<Rightarrow> pb_field \<Rightarrow> addr \<Rightarrow> 's ostream \<Rightarrow> (bool \<times> 's ostream) c" where
  "pb_enc_varint m f src st =
     (if data_size f = 1 then do { bs \<leftarrow> ld m src 1; pb_encode_varint st (scast (of_nat (le_value bs) :: byte)) }
      else if data_size f = 2 then do { bs \<leftarrow> ld m src 2; pb_encode_varint st (scast (of_nat (le_value bs) :: u16)) }
      else if data_size f = 4 then do { bs \<leftarrow> ld m src 4; pb_encode_varint st (scast (of_nat (le_value bs) :: u32)) }
      else if data_size f = 8 then do { bs \<leftarrow> ld m src 8; pb_encode_varint st (of_nat (le_value bs)) }
      else ost_error ''invalid data_size'' st)"

definition pb_enc_uvarint :: "memory \<Rightarrow> pb_field \<Rightarrow> addr \<Rightarrow> 's ostream \<Rightarrow> (bool \<times> 's ostream) c" where
  "pb_enc_uvarint m f src st =
     (if data_size f = 1 then do { bs \<leftarrow> ld m src 1; pb_encode_varint st (of_nat (le_value bs)) }
      else if data_size f = 2 then do { bs \<leftarrow> ld m src 2; pb_encode_varint st (of_nat (le_value bs)) }
      else if data_size f = 4 then do { bs \<leftarrow> ld m src 4; pb_encode_varint st (of_nat (le_value bs)) }
      else if data_size f = 8 then do { bs \<leftarrow> ld m src 8; pb_encode_varint st (of_nat (le_value bs)) }
      else ost_error ''invalid data_size'' st)"

definition pb_enc_svarint :: "memory \<Rightarrow> pb_field \<Rightarrow> addr \<Rightarrow> 's ostream \<Rightarrow> (bool \<times> 's ostream) c" where
  "pb_enc_svarint m f src st =
     (if data_size f = 1 then do { bs \<leftarrow> ld m src 1; pb_encode_svarint st (scast (of_nat (le_value bs) :: byte)) }
      else if data_size f = 2 then do { bs \<leftarrow> ld m src 2; pb_encode_svarint st (scast (of_nat (le_value bs) :: u16)) }
      else if data_size f = 4 then do { bs \<leftarrow> ld m src 4; pb_encode_svarint st (scast (of_nat (le_value bs) :: u32)) }
      else if data_size f = 8 then do { bs \<leftarrow> ld m src 8; pb_encode_svarint st (of_nat (le_value bs)) }
      else ost_error ''invalid data_size'' st)"

definition pb_enc_fixed32 :: "memory \<Rightarrow> addr \<Rightarrow> 's ostream \<Rightarrow> (bool \<times> 's ostream) c" where
  "pb_enc_fixed32 m src st = do { bs \<leftarrow> ld m src 4; pb_encode_fixed32 st (of_nat (le_value bs)) }"

definition pb_enc_fixed64 :: "memory \<Rightarrow> addr \<Rightarrow> 's ostream \<Rightarrow> (bool \<times> 's ostream) c" where
  "pb_enc_fixed64 m src st = do { bs \<leftarrow> ld m src 8; pb_encode_fixed64 st (of_nat (le_value bs)) }"

text \<open>A \<open>pb_bytes_array_t\<close> is its size in one byte with the bytes behind it.\<close>

definition pb_enc_bytes :: "memory \<Rightarrow> pb_field \<Rightarrow> addr \<Rightarrow> 's ostream \<Rightarrow> (bool \<times> 's ostream) c" where
  "pb_enc_bytes m f src st =
     (if src = 0 then pb_encode_string st None 0
      else do {
        sz \<leftarrow> ld_byte m src;
        if atype f = PB_ATYPE_STATIC \<and> unat (data_size f) < unat sz + 1
        then ost_error ''bytes size exceeded'' st
        else pb_encode_string st (ptr_bytes m (src + 1)) (ucast sz) })"

text \<open>\<open>while (size < max_size && *p != '\0')\<close>\<close>

function string_size :: "memory \<Rightarrow> addr \<Rightarrow> nat \<Rightarrow> nat \<Rightarrow> nat c" where
  "string_size m src max_sz n =
     (if n < max_sz
      then do { b \<leftarrow> ld_byte m (src + int n); if b \<noteq> 0 then string_size m src max_sz (n + 1) else Some n }
      else Some n)"
  by pat_completeness auto
termination by (relation "measure (\<lambda>(m, a, k, n). k - n)") auto

declare string_size.simps [simp del]

definition string_max :: "pb_field \<Rightarrow> nat" where
  "string_max f = (if atype f = PB_ATYPE_POINTER then 2 ^ 32 - 1 else unat (data_size f))"

definition pb_enc_string :: "memory \<Rightarrow> pb_field \<Rightarrow> addr \<Rightarrow> 's ostream \<Rightarrow> (bool \<times> 's ostream) c" where
  "pb_enc_string m f src st = do {
     sz \<leftarrow> (if src = 0 then Some 0 else string_size m src (string_max f) 0);
     pb_encode_string st (ptr_bytes m src) (of_nat sz) }"

text \<open>The body of \<open>pb_encode_submessage\<close> behind the length, for a message of \<open>sz\<close> bytes.\<close>

definition write_submessage :: "'s sub_encoder \<Rightarrow> pb_field list \<Rightarrow> addr \<Rightarrow> size_t \<Rightarrow> 's ostream \<Rightarrow> (bool \<times> 's ostream) c" where
  "write_submessage enc flds src sz st =
     (case ocallback st of
        None \<Rightarrow> pb_write st None sz
      | Some f \<Rightarrow>
          if max_size st < bytes_written st + sz then ost_error ''stream full'' st
          else do {
            (status, sub) \<leftarrow> enc flds src
              \<lparr>ocallback = Some f, ostate = ostate st, max_size = sz, bytes_written = 0, oerr = None\<rparr>;
            let st1 = st\<lparr>bytes_written := bytes_written st + bytes_written sub, ostate := ostate sub, oerr := oerr sub\<rparr>;
            if bytes_written sub \<noteq> sz then ost_error ''submsg size changed'' st1
            else Some (status, st1) })"

definition pb_encode_submessage :: "'s sub_encoder \<Rightarrow> 's sub_encoder" where
  "pb_encode_submessage enc flds src st = do {
     (ok, sub) \<leftarrow> enc flds src (sizing_stream (ostate st));
     if \<not> ok then Some (False, st\<lparr>oerr := oerr sub\<rparr>)
     else and_write (pb_encode_varint st (ucast (bytes_written sub)))
            (write_submessage enc flds src (bytes_written sub)) }"

definition pb_enc_submessage :: "'s sub_encoder \<Rightarrow> pb_field \<Rightarrow> addr \<Rightarrow> 's ostream \<Rightarrow> (bool \<times> 's ostream) c" where
  "pb_enc_submessage enc f src st =
     (case f_ptr f of
        NULL \<Rightarrow> ost_error ''invalid field descriptor'' st
      | Submsg flds \<Rightarrow> pb_encode_submessage enc flds src st
      | Default_value v \<Rightarrow> None)"

definition pb_enc_fixed_length_bytes :: "memory \<Rightarrow> pb_field \<Rightarrow> addr \<Rightarrow> 's ostream \<Rightarrow> (bool \<times> 's ostream) c" where
  "pb_enc_fixed_length_bytes m f src st = pb_encode_string st (ptr_bytes m src) (ucast (data_size f))"

text \<open>A call through \<open>PB_ENCODERS[PB_LTYPE(field->type)]\<close>; the entry of extensions is NULL.\<close>

definition enc_func :: "memory \<Rightarrow> 's sub_encoder \<Rightarrow> pb_field \<Rightarrow> addr \<Rightarrow> 's ostream \<Rightarrow> (bool \<times> 's ostream) c" where
  "enc_func m enc f src st =
     (if ltype f = PB_LTYPE_VARINT then pb_enc_varint m f src st
      else if ltype f = PB_LTYPE_UVARINT then pb_enc_uvarint m f src st
      else if ltype f = PB_LTYPE_SVARINT then pb_enc_svarint m f src st
      else if ltype f = PB_LTYPE_FIXED32 then pb_enc_fixed32 m src st
      else if ltype f = PB_LTYPE_FIXED64 then pb_enc_fixed64 m src st
      else if ltype f = PB_LTYPE_BYTES then pb_enc_bytes m f src st
      else if ltype f = PB_LTYPE_STRING then pb_enc_string m f src st
      else if ltype f = PB_LTYPE_SUBMESSAGE then pb_enc_submessage enc f src st
      else if ltype f = PB_LTYPE_FIXED_LENGTH_BYTES then pb_enc_fixed_length_bytes m f src st
      else None)"

definition pb_encode_tag_for_field :: "pb_field \<Rightarrow> 's ostream \<Rightarrow> (bool \<times> 's ostream) c" where
  "pb_encode_tag_for_field f st =
     (if ltype f \<in> {PB_LTYPE_VARINT, PB_LTYPE_UVARINT, PB_LTYPE_SVARINT}
      then pb_encode_tag st PB_WT_VARINT (ucast (f_tag f))
      else if ltype f = PB_LTYPE_FIXED32 then pb_encode_tag st PB_WT_32BIT (ucast (f_tag f))
      else if ltype f = PB_LTYPE_FIXED64 then pb_encode_tag st PB_WT_64BIT (ucast (f_tag f))
      else if ltype f \<in> {PB_LTYPE_BYTES, PB_LTYPE_STRING, PB_LTYPE_SUBMESSAGE, PB_LTYPE_FIXED_LENGTH_BYTES}
      then pb_encode_tag st PB_WT_STRING (ucast (f_tag f))
      else ost_error ''invalid field type'' st)"

text \<open>\<open>for (i = 0; i < count; i++) { if (!f(stream, p)) return false; p += step; }\<close>\<close>

fun each_item :: "(addr \<Rightarrow> 's ostream \<Rightarrow> (bool \<times> 's ostream) c) \<Rightarrow> int \<Rightarrow> nat \<Rightarrow> addr \<Rightarrow> 's ostream \<Rightarrow> (bool \<times> 's ostream) c" where
  "each_item f step 0 p st = Some (True, st)"
| "each_item f step (Suc n) p st = and_write (f p st) (each_item f step n (p + step))"

text \<open>The size of a packed array; integers are counted on a sizing stream.\<close>

definition packed_size :: "memory \<Rightarrow> 's sub_encoder \<Rightarrow> pb_field \<Rightarrow> addr \<Rightarrow> nat \<Rightarrow> 's \<Rightarrow> (bool \<times> size_t) c" where
  "packed_size m enc f p count s =
     (if ltype f = PB_LTYPE_FIXED32 then Some (True, 4 * of_nat count)
      else if ltype f = PB_LTYPE_FIXED64 then Some (True, 8 * of_nat count)
      else do {
        (ok, st) \<leftarrow> each_item (enc_func m enc f) (uint (data_size f)) count p (sizing_stream s);
        Some (ok, bytes_written st) })"

definition packed_data :: "memory \<Rightarrow> 's sub_encoder \<Rightarrow> pb_field \<Rightarrow> addr \<Rightarrow> nat \<Rightarrow> size_t \<Rightarrow> 's ostream \<Rightarrow> (bool \<times> 's ostream) c" where
  "packed_data m enc f p count sz st =
     (case ocallback st of
        None \<Rightarrow> pb_write st None sz
      | Some _ \<Rightarrow> each_item (enc_func m enc f) (uint (data_size f)) count p st)"

definition encode_packed :: "memory \<Rightarrow> 's sub_encoder \<Rightarrow> pb_field \<Rightarrow> addr \<Rightarrow> nat \<Rightarrow> 's ostream \<Rightarrow> (bool \<times> 's ostream) c" where
  "encode_packed m enc f p count st = do {
     (ok, sz) \<leftarrow> packed_size m enc f p count (ostate st);
     if \<not> ok then Some (False, st)
     else and_write (pb_encode_varint st (ucast sz)) (packed_data m enc f p count sz) }"

text \<open>The entries of an array of pointers to strings are pointers themselves.\<close>

definition encode_item :: "memory \<Rightarrow> 's sub_encoder \<Rightarrow> pb_field \<Rightarrow> addr \<Rightarrow> 's ostream \<Rightarrow> (bool \<times> 's ostream) c" where
  "encode_item m enc f p st =
     (if atype f = PB_ATYPE_POINTER \<and> (ltype f = PB_LTYPE_STRING \<or> ltype f = PB_LTYPE_BYTES)
      then do { q \<leftarrow> ld_ptr m p; enc_func m enc f q st }
      else enc_func m enc f p st)"

definition encode_array :: "memory \<Rightarrow> 's sub_encoder \<Rightarrow> pb_field \<Rightarrow> addr \<Rightarrow> nat \<Rightarrow> 's ostream \<Rightarrow> (bool \<times> 's ostream) c" where
  "encode_array m enc f p count st =
     (if count = 0 then Some (True, st)
      else if atype f \<noteq> PB_ATYPE_POINTER \<and> unat (array_size f) < count
      then ost_error ''array max size exceeded'' st
      else if ltype f \<le> PB_LTYPE_LAST_PACKABLE
      then and_write (pb_encode_tag st PB_WT_STRING (ucast (f_tag f))) (encode_packed m enc f p count)
      else each_item (\<lambda>p st. and_write (pb_encode_tag_for_field f st) (encode_item m enc f p))
             (uint (data_size f)) count p st)"

function pb_check_proto3_default_value :: "memory \<Rightarrow> nat \<Rightarrow> pb_field \<Rightarrow> addr \<Rightarrow> bool c" where
  "pb_check_proto3_default_value m d f p =
     (let size_at = p + sint (size_offset f) in
      if htype f = PB_HTYPE_REQUIRED then Some False
      else if htype f = PB_HTYPE_REPEATED then do { b \<leftarrow> ld_byte m size_at; Some (b = 0) }
      else if htype f = PB_HTYPE_ONEOF then do { b \<leftarrow> ld_byte m size_at; Some (b = 0) }
      else if htype f = PB_HTYPE_OPTIONAL \<and> size_offset f \<noteq> 0 then do { b \<leftarrow> ld_byte m size_at; Some (b = 0) }
      else if atype f = PB_ATYPE_STATIC \<and> ltype f = PB_LTYPE_BYTES then do { b \<leftarrow> ld_byte m p; Some (b = 0) }
      else if atype f = PB_ATYPE_STATIC \<and> ltype f = PB_LTYPE_STRING then do { b \<leftarrow> ld_byte m p; Some (b = 0) }
      else if atype f = PB_ATYPE_STATIC \<and> ltype f = PB_LTYPE_FIXED_LENGTH_BYTES then Some (data_size f = 0)
      else if atype f = PB_ATYPE_STATIC \<and> ltype f = PB_LTYPE_SUBMESSAGE
      then (case (d, f_ptr f) of
              (Suc k, Submsg flds) \<Rightarrow> do {
                (ok, _) \<leftarrow> for_fields (\<lambda>g q _ u. do { z \<leftarrow> pb_check_proto3_default_value m k g q; Some (z, u) }) flds p ();
                Some ok }
            | _ \<Rightarrow> None)
      else if data_size f = 0 then Some True
      else do { bs \<leftarrow> ld m p (uint (data_size f)); Some (list_all (\<lambda>b. b = 0) bs) })"
  by pat_completeness auto
termination by (relation "measure (\<lambda>(m, d, f, p). d)") auto

declare pb_check_proto3_default_value.simps [simp del]

text \<open>
  \<open>has\<close> is the byte \<open>pSize\<close> points to: the member of the struct at \<open>size_offset\<close>, or the local
  \<open>implicit_has\<close>.
\<close>

definition encode_basic_field :: "memory \<Rightarrow> nat \<Rightarrow> 's sub_encoder \<Rightarrow> pb_field \<Rightarrow> addr \<Rightarrow> 's ostream \<Rightarrow> (bool \<times> 's ostream) c" where
  "encode_basic_field m d enc f p st =
     (if 10 \<le> ltype f then None
      else do {
       implicit_has \<leftarrow> (if size_offset f \<noteq> 0 then Some True
                        else if htype f = PB_HTYPE_OPTIONAL
                        then do { z \<leftarrow> pb_check_proto3_default_value m d f p; Some (\<not> z) }
                        else Some True);
       q \<leftarrow> (if atype f = PB_ATYPE_POINTER then ld_ptr m p else Some p);
       let implicit_has = (if atype f = PB_ATYPE_POINTER then q \<noteq> 0 else implicit_has);
       let has = (if size_offset f \<noteq> 0 then ld_byte m (p + sint (size_offset f))
                  else Some (if implicit_has then 1 else 0));
       let with_tag = and_write (pb_encode_tag_for_field f st) (enc_func m enc f q);
       if htype f = PB_HTYPE_REQUIRED
       then (if q = 0 then ost_error ''missing required field'' st else with_tag)
       else if htype f = PB_HTYPE_OPTIONAL
       then do { b \<leftarrow> has; if b \<noteq> 0 then with_tag else Some (True, st) }
       else if htype f = PB_HTYPE_REPEATED
       then do { b \<leftarrow> has; encode_array m enc f q (unat b) st }
       else if htype f = PB_HTYPE_ONEOF
       then do { b \<leftarrow> has; if b = f_tag f then with_tag else Some (True, st) }
       else ost_error ''invalid field type'' st })"

text \<open>A \<open>pb_callback_t\<close> is the pointer to the function with \<open>arg\<close> behind it.\<close>

definition encode_callback_field :: "'s enc_env \<Rightarrow> pb_field \<Rightarrow> addr \<Rightarrow> 's ostream \<Rightarrow> (bool \<times> 's ostream) c" where
  "encode_callback_field env f p st = do {
     fp \<leftarrow> ld_ptr (mem env) p;
     if fp = 0 then Some (True, st)
     else (case enc_callbacks env fp of
             None \<Rightarrow> None
           | Some cb \<Rightarrow> do {
               (ok, st1) \<leftarrow> cb f (p + 4) st;
               if \<not> ok then ost_error ''callback error'' st1 else Some (True, st1) }) }"

definition encode_field :: "'s enc_env \<Rightarrow> nat \<Rightarrow> 's sub_encoder \<Rightarrow> pb_field \<Rightarrow> addr \<Rightarrow> 's ostream \<Rightarrow> (bool \<times> 's ostream) c" where
  "encode_field env d enc f p st =
     (if atype f = PB_ATYPE_STATIC \<or> atype f = PB_ATYPE_POINTER then encode_basic_field (mem env) d enc f p st
      else if atype f = PB_ATYPE_CALLBACK then encode_callback_field env f p st
      else ost_error ''invalid field type'' st)"

text \<open>A \<open>pb_extension_t\<close>: the pointers \<open>type\<close>, \<open>dest\<close> and \<open>next\<close>, and \<open>found\<close>.\<close>

definition default_extension_encoder ::
  "'s enc_env \<Rightarrow> nat \<Rightarrow> 's sub_encoder \<Rightarrow> 's ext_type \<Rightarrow> addr \<Rightarrow> 's ostream \<Rightarrow> (bool \<times> 's ostream) c" where
  "default_extension_encoder env d enc ty x st =
     (if atype (et_arg ty) = PB_ATYPE_POINTER then encode_field env d enc (et_arg ty) (x + 4) st
      else do { dest \<leftarrow> ld_ptr (mem env) (x + 4); encode_field env d enc (et_arg ty) dest st })"

partial_function (option) extension_loop ::
  "'s enc_env \<Rightarrow> nat \<Rightarrow> 's sub_encoder \<Rightarrow> addr \<Rightarrow> 's ostream \<Rightarrow> (bool \<times> 's ostream) c" where
  "extension_loop env d enc x st =
     (if x = 0 then Some (True, st)
      else do {
        t \<leftarrow> ld_ptr (mem env) x;
        ty \<leftarrow> ext_types env t;
        (ok, st1) \<leftarrow> (case et_encode ty of
                        Some f \<Rightarrow> f x st
                      | None \<Rightarrow> default_extension_encoder env d enc ty x st);
        if \<not> ok then Some (False, st1)
        else do { nxt \<leftarrow> ld_ptr (mem env) (x + 8); extension_loop env d enc nxt st1 } })"

definition encode_extension_field :: "'s enc_env \<Rightarrow> nat \<Rightarrow> 's sub_encoder \<Rightarrow> addr \<Rightarrow> 's ostream \<Rightarrow> (bool \<times> 's ostream) c" where
  "encode_extension_field env d enc p st = do { x \<leftarrow> ld_ptr (mem env) p; extension_loop env d enc x st }"

primrec pb_encode :: "'s enc_env \<Rightarrow> nat \<Rightarrow> 's sub_encoder" where
  "pb_encode env 0 = (\<lambda>flds src st. None)"
| "pb_encode env (Suc d) = (\<lambda>flds src st. for_fields (\<lambda>f p _ st.
     if ltype f = PB_LTYPE_EXTENSION then encode_extension_field env d (pb_encode env d) p st
     else encode_field env d (pb_encode env d) f p st) flds src st)"

definition pb_encode_delimited :: "'s enc_env \<Rightarrow> nat \<Rightarrow> 's sub_encoder" where
  "pb_encode_delimited env d = pb_encode_submessage (pb_encode env d)"

definition pb_encode_nullterminated :: "'s enc_env \<Rightarrow> nat \<Rightarrow> 's sub_encoder" where
  "pb_encode_nullterminated env d flds src st =
     and_write (pb_encode env d flds src st) (\<lambda>st. pb_write st (Some [0]) 1)"

text \<open>The boolean and \<open>*size\<close>, which is left alone on an error.\<close>

definition pb_get_encoded_size :: "'s enc_env \<Rightarrow> nat \<Rightarrow> 's \<Rightarrow> pb_field list \<Rightarrow> addr \<Rightarrow> (bool \<times> size_t option) c" where
  "pb_get_encoded_size env d s flds src = do {
     (ok, st) \<leftarrow> pb_encode env d flds src (sizing_stream s);
     Some (if ok then (True, Some (bytes_written st)) else (False, None)) }"

end
