(* ===== verification/PbEncodeSpec.thy ===== *)
theory PbEncodeSpec
  imports PbEncode
begin

text \<open>
  \<open>message_bytes\<close>, the encoding of a message as a function of the memory, and the refinement of
  it by the encoder: on a buffer the encoder writes exactly these bytes, on a sizing stream it
  counts them, and it fails exactly when they do not fit.
\<close>

section \<open>The encoding as a function of the memory\<close>

text \<open>A two's complement integer in memory.\<close>

definition signed_value :: "byte list \<Rightarrow> u64" where
  "signed_value bs = word_of_int (signed_take_bit (8 * length bs - 1) (int (le_value bs)))"

definition int_sizes :: "byte set" where
  "int_sizes = {1, 2, 4, 8}"

type_synonym sub_bytes = "pb_field list \<Rightarrow> addr \<Rightarrow> byte list option"

definition c_string :: "memory \<Rightarrow> addr \<Rightarrow> nat \<Rightarrow> byte list option" where
  "c_string m src max_sz =
     (let s = takeWhile (\<lambda>b. b \<noteq> 0) (take max_sz (drop (nat src) m)) in
      if 0 < src \<and> nat src \<le> length m \<and> (length s = max_sz \<or> nat src + length s < length m) then Some s else None)"

definition value_bytes :: "memory \<Rightarrow> sub_bytes \<Rightarrow> pb_field \<Rightarrow> addr \<Rightarrow> byte list option" where
  "value_bytes m sub f src =
     (if ltype f \<in> {PB_LTYPE_VARINT, PB_LTYPE_UVARINT, PB_LTYPE_SVARINT} \<and> data_size f \<in> int_sizes
      then map_option (\<lambda>bs. varint_bytes (
        if ltype f = PB_LTYPE_VARINT then signed_value bs
        else if ltype f = PB_LTYPE_UVARINT then of_nat (le_value bs)
        else zigzag (signed_value bs))) (ld m src (uint (data_size f)))
      else if ltype f = PB_LTYPE_FIXED32 then ld m src 4
      else if ltype f = PB_LTYPE_FIXED64 then ld m src 8
      else if ltype f = PB_LTYPE_BYTES
      then (if src = 0 then Some (string_bytes [])
            else do {
              sz \<leftarrow> ld_byte m src;
              if atype f = PB_ATYPE_STATIC \<and> unat (data_size f) < unat sz + 1 then None
              else map_option string_bytes (ld m (src + 1) (uint sz)) })
      else if ltype f = PB_LTYPE_STRING
      then (if src = 0 then Some (string_bytes []) else map_option string_bytes (c_string m src (string_max f)))
      else if ltype f = PB_LTYPE_SUBMESSAGE
      then (case f_ptr f of Submsg flds \<Rightarrow> map_option string_bytes (sub flds src) | _ \<Rightarrow> None)
      else if ltype f = PB_LTYPE_FIXED_LENGTH_BYTES then map_option string_bytes (ld m src (uint (data_size f)))
      else None)"

definition wire_type_for :: "pb_field \<Rightarrow> wire_type" where
  "wire_type_for f =
     (if ltype f \<in> {PB_LTYPE_VARINT, PB_LTYPE_UVARINT, PB_LTYPE_SVARINT} then PB_WT_VARINT
      else if ltype f = PB_LTYPE_FIXED32 then PB_WT_32BIT
      else if ltype f = PB_LTYPE_FIXED64 then PB_WT_64BIT
      else PB_WT_STRING)"

definition tagged :: "pb_field \<Rightarrow> byte list \<Rightarrow> byte list" where
  "tagged f v = tag_bytes (wire_type_for f, ucast (f_tag f)) @ v"

fun item_bytes :: "(addr \<Rightarrow> byte list option) \<Rightarrow> int \<Rightarrow> nat \<Rightarrow> addr \<Rightarrow> byte list option" where
  "item_bytes v step 0 p = Some []"
| "item_bytes v step (Suc n) p = do { a \<leftarrow> v p; b \<leftarrow> item_bytes v step n (p + step); Some (a @ b) }"

definition array_bytes :: "memory \<Rightarrow> sub_bytes \<Rightarrow> pb_field \<Rightarrow> addr \<Rightarrow> nat \<Rightarrow> byte list option" where
  "array_bytes m sub f p count =
     (let step = uint (data_size f) in
      if count = 0 then Some []
      else if atype f \<noteq> PB_ATYPE_POINTER \<and> unat (array_size f) < count then None
      else if ltype f \<le> PB_LTYPE_LAST_PACKABLE
      then map_option (\<lambda>bs. tag_bytes (PB_WT_STRING, ucast (f_tag f)) @ string_bytes bs)
             (item_bytes (value_bytes m sub f) step count p)
      else item_bytes (\<lambda>p. do {
             q \<leftarrow> (if atype f = PB_ATYPE_POINTER \<and> (ltype f = PB_LTYPE_STRING \<or> ltype f = PB_LTYPE_BYTES)
                  then ld_ptr m p else Some p);
             map_option (tagged f) (value_bytes m sub f q) }) step count p)"

definition basic_bytes :: "memory \<Rightarrow> nat \<Rightarrow> sub_bytes \<Rightarrow> pb_field \<Rightarrow> addr \<Rightarrow> byte list option" where
  "basic_bytes m d sub f p = do {
     q \<leftarrow> (if atype f = PB_ATYPE_POINTER then ld_ptr m p else Some p);
     has \<leftarrow> (if size_offset f \<noteq> 0 then ld_byte m (p + sint (size_offset f))
             else if atype f = PB_ATYPE_POINTER then Some (if q \<noteq> 0 then 1 else 0)
             else if htype f = PB_HTYPE_OPTIONAL
             then map_option (\<lambda>z. if z then 0 else 1) (pb_check_proto3_default_value m d f p)
             else Some 1);
     if htype f = PB_HTYPE_REPEATED then array_bytes m sub f q (unat has)
     else if htype f = PB_HTYPE_OPTIONAL \<and> has = 0 \<or> htype f = PB_HTYPE_ONEOF \<and> has \<noteq> f_tag f then Some []
     else if htype f = PB_HTYPE_REQUIRED \<and> q = 0 then None
     else map_option (tagged f) (value_bytes m sub f q) }"

text \<open>\<open>cb\<close> is what the function at a pointer writes for a field and its \<open>arg\<close>.\<close>

definition field_bytes :: "'s enc_env \<Rightarrow> (addr \<Rightarrow> pb_field \<Rightarrow> addr \<Rightarrow> byte list option) \<Rightarrow> nat \<Rightarrow> sub_bytes \<Rightarrow> pb_field \<Rightarrow> addr \<Rightarrow> byte list option" where
  "field_bytes env cb d sub f p =
     (if 10 \<le> ltype f \<or> ltype f = PB_LTYPE_EXTENSION then None
      else if atype f = PB_ATYPE_STATIC \<or> atype f = PB_ATYPE_POINTER
      then (if atype f = PB_ATYPE_POINTER \<and> size_offset f = 0 \<and> htype f = PB_HTYPE_OPTIONAL
               \<and> pb_check_proto3_default_value (mem env) d f p = None
            then None else basic_bytes (mem env) d sub f p)
      else if atype f = PB_ATYPE_CALLBACK
      then do { fp \<leftarrow> ld_ptr (mem env) p; if fp = 0 then Some [] else cb fp f (p + 4) }
      else None)"

fun bytes_of_slots :: "(pb_field \<Rightarrow> addr \<Rightarrow> byte list option) \<Rightarrow> slot list \<Rightarrow> byte list option" where
  "bytes_of_slots fb [] = Some []"
| "bytes_of_slots fb (s # ss) = do { a \<leftarrow> fb (s_field s) (s_data s); b \<leftarrow> bytes_of_slots fb ss; Some (a @ b) }"

primrec message_bytes :: "'s enc_env \<Rightarrow> (addr \<Rightarrow> pb_field \<Rightarrow> addr \<Rightarrow> byte list option) \<Rightarrow> nat \<Rightarrow> sub_bytes" where
  "message_bytes env cb 0 = (\<lambda>flds src. None)"
| "message_bytes env cb (Suc d) = (\<lambda>flds src.
     if terminated flds
     then bytes_of_slots (field_bytes env cb d (message_bytes env cb d)) (slots (butlast flds) src)
     else None)"
section \<open>The encoder writes these bytes\<close>

lemma ld_length: "ld m a n = Some bs \<Longrightarrow> length bs = nat n"
  by (auto simp: ld_def mem_load_Some_length split: if_splits)

lemma ld_Some: "ld m a n = Some bs \<Longrightarrow> 0 < a \<and> 0 \<le> n \<and> nat a + nat n \<le> length m \<and> bs = take (nat n) (drop (nat a) m)"
  by (auto simp: ld_def mem_load_def split: if_splits)

lemma scast_signed:
  "length bs = 1 \<Longrightarrow> scast (of_nat (le_value bs) :: byte) = signed_value bs"
  "length bs = 2 \<Longrightarrow> scast (of_nat (le_value bs) :: u16) = signed_value bs"
  "length bs = 4 \<Longrightarrow> scast (of_nat (le_value bs) :: u32) = signed_value bs"
  by (simp_all add: signed_value_def scast_eq signed_of_nat)

lemma signed_value8: "length bs = 8 \<Longrightarrow> of_nat (le_value bs) = signed_value bs"
proof -
  assume "length bs = 8"
  have "(word_of_int (signed_take_bit 63 (int v)) :: u64) = of_nat v" for v
    by (rule bit_word_eqI) (auto simp: bit_simps)
  then show ?thesis using \<open>length bs = 8\<close> by (simp add: signed_value_def)
qed

lemma low_byte: "8 \<le> LENGTH('a) \<Longrightarrow> (ucast (w AND 0xFF) :: byte) = of_nat (unat (w :: 'a::len word) mod 256)"
proof -
  assume l: "8 \<le> LENGTH('a)"
  have "w AND 0xFF = take_bit 8 w" by (simp add: take_bit_eq_mask mask_eq_exp_minus_1)
  moreover have "unat (take_bit 8 w) = unat w mod 256"
    using unsigned_take_bit_eq [of 8 w, where ?'a = nat] l by (simp only: take_bit_eq_mod) simp
  moreover have "(ucast y :: byte) = of_nat (unat y)" for y :: "'a word"
    by (simp add: unsigned_of_nat)
  ultimately show ?thesis by (simp only:)
qed

lemma low_byte_shift:
  "8 \<le> LENGTH('a) \<Longrightarrow> v < 2 ^ LENGTH('a) \<Longrightarrow>
     (ucast (drop_bit k (of_nat v :: 'a::len word) AND 0xFF) :: byte) = of_nat (v div 2 ^ k mod 256)"
  by (simp only: low_byte unsigned_drop_bit_eq unsigned_of_nat)
    (simp add: take_bit_nat_eq_self drop_bit_eq_div)

lemma le_bytes_4: "le_bytes 4 v = [of_nat (v mod 256), of_nat (v div 2 ^ 8 mod 256), of_nat (v div 2 ^ 16 mod 256), of_nat (v div 2 ^ 24 mod 256)]"
proof -
  have n: "4 = Suc (Suc (Suc (Suc 0)))" by simp
  show ?thesis unfolding n le_bytes.simps by (simp add: div_mult2_eq [symmetric])
qed

lemma le_bytes_8: "le_bytes 8 v = [of_nat (v mod 256), of_nat (v div 2 ^ 8 mod 256), of_nat (v div 2 ^ 16 mod 256),
    of_nat (v div 2 ^ 24 mod 256), of_nat (v div 2 ^ 32 mod 256), of_nat (v div 2 ^ 40 mod 256),
    of_nat (v div 2 ^ 48 mod 256), of_nat (v div 2 ^ 56 mod 256)]"
proof -
  have n: "8 = Suc (Suc (Suc (Suc 4)))" by simp
  show ?thesis unfolding n le_bytes.simps le_bytes_4 by (simp add: div_mult2_eq [symmetric])
qed

lemma fixed32_bytes_value:
  assumes "length bs = 4"
  shows "fixed32_bytes (of_nat (le_value bs)) = bs"
proof -
  have v: "le_value bs < 2 ^ LENGTH(32)" using le_value_less [of bs] assms by simp
  have "fixed32_bytes (of_nat (le_value bs)) = le_bytes 4 (le_value bs)"
    using low_byte_shift [OF _ v, of 0] low_byte_shift [OF _ v, of 8] low_byte_shift [OF _ v, of 16]
      low_byte_shift [OF _ v, of 24] by (simp add: fixed32_bytes_def le_bytes_4)
  then show ?thesis using le_bytes_value [of bs] assms by simp
qed

lemma fixed64_bytes_value:
  assumes "length bs = 8"
  shows "fixed64_bytes (of_nat (le_value bs)) = bs"
proof -
  have v: "le_value bs < 2 ^ LENGTH(64)" using le_value_less [of bs] assms by simp
  have "fixed64_bytes (of_nat (le_value bs)) = le_bytes 8 (le_value bs)"
    using low_byte_shift [OF _ v, of 0] low_byte_shift [OF _ v, of 8] low_byte_shift [OF _ v, of 16]
      low_byte_shift [OF _ v, of 24] low_byte_shift [OF _ v, of 32] low_byte_shift [OF _ v, of 40]
      low_byte_shift [OF _ v, of 48] low_byte_shift [OF _ v, of 56] by (simp add: fixed64_bytes_def le_bytes_8)
  then show ?thesis using le_bytes_value [of bs] assms by simp
qed
lemma writes_ptr_string:
  assumes "ld m a n = Some s" "k = of_nat (length s)" "fits s"
  shows "writes (\<lambda>st. pb_encode_string st (ptr_bytes m a) k) (string_bytes s)"
proof -
  have a: "0 < a" "nat a + length s \<le> length m" "s = take (length s) (drop (nat a) m)"
    using ld_Some [OF assms(1)] ld_length [OF assms(1)] by auto
  have "pb_write st (ptr_bytes m a) k = put s st" for st :: "obuf ostream"
    using a(1,2) a(3) [symmetric] assms(2,3)
    by (auto simp: pb_write_def put_def bytes_at_def ptr_bytes_def unsigned_of_nat take_bit_nat_eq_self split: option.split)
  then have "pb_encode_string st (ptr_bytes m a) k = pb_encode_string st (Some s) k" for st :: "obuf ostream"
    using assms(2) by (simp add: pb_encode_string_def put_def)
  then show ?thesis using writes_string [OF assms(3)] assms(2) by simp
qed

lemma string_size_step:
  "n \<le> length (takeWhile (\<lambda>b. b \<noteq> 0) (take k (drop (nat a) m))) \<Longrightarrow> c_string m a k = Some s \<Longrightarrow>
     string_size m a k n = Some (length s)"
proof (induction m a k n rule: string_size.induct)
  case (1 m a k n)
  let ?t = "take k (drop (nat a) m)"
  have s: "s = takeWhile (\<lambda>b. b \<noteq> 0) ?t" "0 < a" "length s = k \<or> nat a + length s < length m"
    using "1.prems"(2) by (auto simp: c_string_def Let_def split: if_splits)
  have sk: "length s \<le> k" using s(1) length_takeWhile_le [of "\<lambda>b. b \<noteq> 0" ?t] by simp
  show ?case
  proof (cases "n < k")
    case True
    have "length s = k \<Longrightarrow> k \<le> length m - nat a \<or> k = 0"
      using s(1) length_takeWhile_le [of "\<lambda>b. b \<noteq> 0" ?t] by auto
    then have bound: "nat a + n < length m" using s(3) "1.prems"(1) True unfolding s(1) [symmetric] by auto
    then have b: "ld_byte m (a + int n) = Some (m ! (nat a + n))"
      using s(2) by (simp add: ld_byte_def ld_def mem_load_def nat_add_distrib)
    have tn: "?t ! n = m ! (nat a + n)" using True bound by simp
    have lt: "n < length ?t" using True bound by simp
    show ?thesis
    proof (cases "m ! (nat a + n) = 0")
      case True
      then have "length s = n"
        using "1.prems"(1) lt tn set_takeWhileD [of "?t ! n" "\<lambda>b. b \<noteq> 0" ?t] takeWhile_nth [of n "\<lambda>b. b \<noteq> 0" ?t]
        unfolding s(1) by (metis le_neq_implies_less nth_mem)
      then show ?thesis using True \<open>n < k\<close> b by (simp add: string_size.simps)
    next
      case False
      have "Suc n \<le> length s"
      proof (rule ccontr)
        assume "\<not> Suc n \<le> length s"
        then have "n = length s" using "1.prems"(1) s(1) by simp
        then show False using False tn lt nth_length_takeWhile [of "\<lambda>b. b \<noteq> 0" ?t] s(1) by simp
      qed
      then have "string_size m a k (n + 1) = Some (length s)"
        using "1.IH" [OF \<open>n < k\<close> b False] "1.prems"(2) s(1) by simp
      then show ?thesis using b False \<open>n < k\<close> by (subst string_size.simps) simp
    qed
  next
    case False
    then show ?thesis using sk "1.prems"(1) s(1) by (subst string_size.simps) simp
  qed
qed

lemma c_string_ld: "c_string m a k = Some s \<Longrightarrow> ld m a (int (length s)) = Some s"
proof -
  assume c: "c_string m a k = Some s"
  let ?t = "take k (drop (nat a) m)"
  have s: "s = takeWhile (\<lambda>b. b \<noteq> 0) ?t" "0 < a" using c by (auto simp: c_string_def Let_def split: if_splits)
  have m: "nat a \<le> length m" using c by (auto simp: c_string_def Let_def split: if_splits)
  have "length s \<le> length ?t" using s(1) length_takeWhile_le by metis
  then have l: "length s \<le> k" "length s \<le> length m - nat a" by auto
  have "s = take (length s) ?t" unfolding s(1) by (metis takeWhile_eq_take)
  then have "take (length s) (drop (nat a) m) = s" using l(1) by (simp add: min_absorb1)
  then show ?thesis using s(2) l(2) m by (simp add: ld_def mem_load_def)
qed

lemma writes_ld:
  assumes "map_option g (ld m a n) = Some bs" "\<And>s. ld m a n = Some s \<Longrightarrow> writes (w s) (g s)"
  shows "writes (\<lambda>st. do { s \<leftarrow> ld m a n; w s st }) bs"
  using assms by (cases "ld m a n") auto

lemma writes_varint_bytes: "writes (\<lambda>st. pb_encode_varint st v) (varint_bytes v)"
  by (simp add: varint_bytes_def writes_varint)

lemma writes_svarint_bytes: "writes (\<lambda>st. pb_encode_svarint st v) (varint_bytes (zigzag v))"
  by (simp add: encode_svarint_put writes_put)

lemma writes_int_value:
  assumes "value_bytes m sub f a = Some bs" "ltype f \<in> {PB_LTYPE_VARINT, PB_LTYPE_UVARINT, PB_LTYPE_SVARINT}"
  shows "writes (enc_func m enc f a) bs"
proof -
  have d: "data_size f \<in> int_sizes"
    and v: "map_option (\<lambda>bs. varint_bytes (
        if ltype f = PB_LTYPE_VARINT then signed_value bs
        else if ltype f = PB_LTYPE_UVARINT then of_nat (le_value bs)
        else zigzag (signed_value bs))) (ld m a (uint (data_size f))) = Some bs"
    using assms by (auto simp: value_bytes_def ltypes split: if_splits)
  obtain s where s: "ld m a (uint (data_size f)) = Some s" using v by (cases "ld m a (uint (data_size f))") auto
  have l: "length s = unat (data_size f)" using ld_length [OF s] by simp
  consider "data_size f = 1" | "data_size f = 2" | "data_size f = 4" | "data_size f = 8"
    using d by (auto simp: int_sizes_def)
  then show ?thesis
    using assms(2) v s l
    by cases (auto simp: enc_func_def [abs_def] ltypes pb_enc_varint_def pb_enc_uvarint_def pb_enc_svarint_def
        scast_signed signed_value8 writes_varint_bytes writes_svarint_bytes)
qed

lemma string_fits: "fits (string_bytes s) \<Longrightarrow> fits s"
  by (simp add: string_bytes_def)

lemma writes_value:
  assumes v: "value_bytes m sub f a = Some bs" and fit: "fits bs"
    and sub: "\<And>flds src s. sub flds src = Some s \<Longrightarrow> fits (string_bytes s) \<Longrightarrow> writes (pb_encode_submessage enc flds src) (string_bytes s)"
  shows "writes (enc_func m enc f a) bs"
proof -
  consider (int) "ltype f \<in> {PB_LTYPE_VARINT, PB_LTYPE_UVARINT, PB_LTYPE_SVARINT}" | (f32) "ltype f = PB_LTYPE_FIXED32"
    | (f64) "ltype f = PB_LTYPE_FIXED64" | (bytes) "ltype f = PB_LTYPE_BYTES" | (string) "ltype f = PB_LTYPE_STRING"
    | (sub) "ltype f = PB_LTYPE_SUBMESSAGE" | (fixed) "ltype f = PB_LTYPE_FIXED_LENGTH_BYTES"
    using v by (auto simp: value_bytes_def split: if_splits)
  then show ?thesis
  proof cases
    case int
    then show ?thesis using writes_int_value [OF v] by simp
  next
    case f32
    then have "ld m a 4 = Some bs" using v by (simp add: value_bytes_def ltypes)
    then show ?thesis using f32 writes_put [of bs] ld_length [of m a 4 bs]
      by (simp add: enc_func_def [abs_def] ltypes pb_enc_fixed32_def encode_fixed32_put fixed32_bytes_value)
  next
    case f64
    then have "ld m a 8 = Some bs" using v by (simp add: value_bytes_def ltypes)
    then show ?thesis using f64 writes_put [of bs] ld_length [of m a 8 bs]
      by (simp add: enc_func_def [abs_def] ltypes pb_enc_fixed64_def encode_fixed64_put fixed64_bytes_value)
  next
    case bytes
    show ?thesis
    proof (cases "a = 0")
      case True
      then show ?thesis using v bytes writes_NULL_string by (simp add: value_bytes_def enc_func_def [abs_def] ltypes pb_enc_bytes_def)
    next
      case False
      then obtain sz s where s: "ld_byte m a = Some sz" "\<not> (atype f = PB_ATYPE_STATIC \<and> unat (data_size f) < unat sz + 1)"
        "ld m (a + 1) (uint sz) = Some s" "bs = string_bytes s"
        using v bytes by (auto simp: value_bytes_def ltypes split: if_splits bind_splits)
      have "ucast sz = (of_nat (length s) :: u32)"
        using ld_length [OF s(3)] by simp
      then have "writes (\<lambda>st. pb_encode_string st (ptr_bytes m (a + 1)) (ucast sz)) bs"
        using writes_ptr_string [OF s(3)] s(4) fit string_fits by simp
      then show ?thesis using False bytes s(1) s(2)
        by (cases "atype f = PB_ATYPE_STATIC") (simp_all add: enc_func_def [abs_def] ltypes pb_enc_bytes_def)
    qed
  next
    case string
    show ?thesis
    proof (cases "a = 0")
      case True
      have "(\<lambda>st. pb_encode_string st (ptr_bytes m 0) (of_nat 0)) = (\<lambda>st :: obuf ostream. pb_encode_string st None 0)"
        by (simp add: ptr_bytes_def)
      then show ?thesis using True v string writes_NULL_string
        by (simp add: value_bytes_def enc_func_def [abs_def] ltypes pb_enc_string_def)
    next
      case False
      then obtain s where s: "c_string m a (string_max f) = Some s" "bs = string_bytes s"
        using v string by (auto simp: value_bytes_def ltypes)
      have "string_size m a (string_max f) 0 = Some (length s)" using string_size_step [OF _ s(1)] by simp
      then show ?thesis using False string s writes_ptr_string [OF c_string_ld [OF s(1)]] fit string_fits
        by (simp add: enc_func_def [abs_def] ltypes pb_enc_string_def)
    qed
  next
    case sub
    then obtain flds s where s: "f_ptr f = Submsg flds" "sub flds a = Some s" "bs = string_bytes s"
      using v by (auto simp: value_bytes_def ltypes split: field_ptr.splits)
    then show ?thesis using assms(3) [OF s(2)] fit sub
      by (simp add: enc_func_def [abs_def] ltypes pb_enc_submessage_def)
  next
    case fixed
    then obtain s where s: "ld m a (uint (data_size f)) = Some s" "bs = string_bytes s"
      using v by (auto simp: value_bytes_def ltypes)
    have "ucast (data_size f) = (of_nat (length s) :: u32)" using ld_length [OF s(1)] by simp
    then show ?thesis using writes_ptr_string [OF s(1)] s(2) fit string_fits fixed
      by (simp add: enc_func_def [abs_def] ltypes pb_enc_fixed_length_bytes_def)
  qed
qed

lemma writes_submessage_body:
  assumes enc: "writes (enc flds src) s" and fs: "fits s"
  shows "writes (write_submessage enc flds src (of_nat (length s))) s"
proof -
  let ?sz = "of_nat (length s) :: u32"
  let ?tail = "write_submessage enc flds src ?sz"
  show ?thesis unfolding writes_def
  proof (intro conjI allI impI)
    fix st :: "obuf ostream"
    assume "ocallback st = None"
    then show "?tail st = Some (True, st\<lparr>bytes_written := bytes_written st + of_nat (length s)\<rparr>)"
      by (simp add: write_submessage_def pb_write_def)
  next
    fix pre old st
    assume o: "out_at pre old st" and l: "length old + length s < 2 ^ 32"
    then obtain post where p: "ocallback st = Some buf_write"
      "ostate st = (pre @ old @ post, int (length pre + length old))" "bytes_written st = of_nat (length old)"
      "length old + length post < 2 ^ 32" "length old \<le> unat (max_size st)" "unat (max_size st) \<le> length old + length post"
      by (auto simp: out_at_def)
    have u: "unat (of_nat (length old) + ?sz) = length old + length s"
      using l of_nat_u32 [of "length old + length s"] by simp
    show "if length old + length s \<le> unat (max_size st)
         then \<exists>st'. ?tail st = Some (True, st') \<and> out_at pre (old @ s) st' \<and> same_room st st'
         else \<exists>st' part. ?tail st = Some (False, st') \<and> out_at pre (old @ part) st' \<and> same_room st st'"
    proof (cases "length old + length s \<le> unat (max_size st)")
      case True
      let ?sub = "\<lparr>ocallback = Some buf_write, ostate = ostate st, max_size = ?sz, bytes_written = 0, oerr = None\<rparr>"
      have "out_at (pre @ old) [] ?sub" using p True fs by (simp add: out_at_def of_nat_u32)
      then obtain sub where sub: "enc flds src ?sub = Some (True, sub)" "out_at (pre @ old) s sub" "same_room ?sub sub"
        using writes_fit [OF enc, of "pre @ old" "[]" ?sub] fs by (auto simp: of_nat_u32)
      then obtain post' where q: "ostate sub = (pre @ old @ s @ post', int (length pre + length old + length s))"
        "bytes_written sub = ?sz" "length s + length post' = length post"
        using p(2) by (auto simp: out_at_def same_room_def)
      then show ?thesis using True u p sub(1)
        by (auto simp: write_submessage_def word_less_nat_alt Let_def out_at_def same_room_def)
    next
      case False
      then have "?tail st = Some (False, set_oerr ''stream full'' st)"
        using u p(1,3) by (simp add: write_submessage_def word_less_nat_alt ost_error_def)
      then show ?thesis using False o by (auto intro!: exI [of _ "[]"])
    qed
  qed
qed

lemma writes_submessage:
  assumes enc: "writes (enc flds src) s" and fit: "fits (string_bytes s)"
  shows "writes (pb_encode_submessage enc flds src) (string_bytes s)"
proof -
  let ?tail = "write_submessage enc flds src (of_nat (length s))"
  have fs: "fits s" using fit by (rule string_fits)
  then have n: "unat (of_nat (length s) :: u64) = length s" by (simp add: unsigned_of_nat take_bit_nat_eq_self)
  have w: "writes (\<lambda>st. and_write (pb_encode_varint st (of_nat (length s))) ?tail) (string_bytes s)"
    using writes_and [OF writes_varint [of "of_nat (length s)"] writes_submessage_body [of enc flds src, OF enc fs]]
    unfolding n string_bytes_def .
  have "pb_encode_submessage enc flds src st = and_write (pb_encode_varint st (of_nat (length s))) ?tail" for st
  proof -
    have "enc flds src (sizing_stream (ostate st)) = Some (True, (sizing_stream (ostate st))\<lparr>bytes_written := of_nat (length s)\<rparr>)"
      using writes_sizing [OF enc, of "sizing_stream (ostate st)"] by (simp add: sizing_stream_def)
    moreover have "ucast (of_nat (length s) :: u32) = (of_nat (length s) :: u64)"
      using fs by (simp add: word_unat_eq_iff unsigned_ucast_eq unsigned_of_nat take_bit_nat_eq_self)
    ultimately show ?thesis by (simp add: pb_encode_submessage_def)
  qed
  then have "pb_encode_submessage enc flds src = (\<lambda>st. and_write (pb_encode_varint st (of_nat (length s))) ?tail)" by blast
  then show ?thesis using w by (simp only:)
qed

lemma writes_nothing: "writes (\<lambda>st. Some (True, st)) []"
  by (auto simp: writes_def out_at_def)

lemma writes_items:
  "item_bytes v step n p = Some bs \<Longrightarrow> fits bs \<Longrightarrow> (\<And>p b. v p = Some b \<Longrightarrow> fits b \<Longrightarrow> writes (f p) b) \<Longrightarrow>
     writes (each_item f step n p) bs"
proof (induction n arbitrary: p bs)
  case 0
  then show ?case using writes_nothing by (simp add: fun_eq_iff [THEN iffD2, of "each_item f step 0 p"])
next
  case (Suc n)
  obtain a b where ab: "v p = Some a" "item_bytes v step n (p + step) = Some b" "bs = a @ b"
    using Suc.prems(1) by (auto split: bind_splits)
  then have "writes (f p) a" "writes (each_item f step n (p + step)) b"
    using Suc by auto
  then have "writes (\<lambda>st. and_write (f p st) (each_item f step n (p + step))) (a @ b)" by (rule writes_and)
  moreover have "each_item f step (Suc n) p = (\<lambda>st. and_write (f p st) (each_item f step n (p + step)))" by (rule ext) simp
  ultimately show ?case using ab(3) by simp
qed

lemma item_length:
  "item_bytes v step n p = Some bs \<Longrightarrow> (\<And>p b. v p = Some b \<Longrightarrow> length b = k) \<Longrightarrow> length bs = n * k"
  by (induction n arbitrary: p bs) (auto split: bind_splits)

lemma out_at_callback: "out_at pre bs st \<Longrightarrow> ocallback st = Some buf_write"
  by (auto simp: out_at_def)

lemma writes_cong:
  assumes "writes g bs"
    and "\<And>st. ocallback st = None \<Longrightarrow> h st = Some (True, st\<lparr>bytes_written := bytes_written st + of_nat (length bs)\<rparr>)"
    and "\<And>st. ocallback st = Some buf_write \<Longrightarrow> h st = g st"
  shows "writes h bs"
  unfolding writes_def
proof (intro conjI allI impI)
  fix pre old st
  assume "out_at pre old st" "length old + length bs < 2 ^ 32"
  moreover from this have hg: "h st = g st" by (intro assms(3) out_at_callback)
  ultimately show "if length old + length bs \<le> unat (max_size st)
         then \<exists>st'. h st = Some (True, st') \<and> out_at pre (old @ bs) st' \<and> same_room st st'
         else \<exists>st' part. h st = Some (False, st') \<and> out_at pre (old @ part) st' \<and> same_room st st'"
    using assms(1) unfolding hg writes_def by blast
qed (rule assms(2))

lemma wire_type_8 [simp]: "wire_type_for f < 8" "PB_WT_STRING < 8"
  by (simp_all add: wire_type_for_def wire_types)

lemma writes_tag: "wt < 8 \<Longrightarrow> writes (\<lambda>st. pb_encode_tag st wt fn) (tag_bytes (wt, fn))"
  by (simp add: encode_tag_put writes_put)

lemma tag_for_field:
  assumes "ltype f < 10" "ltype f \<noteq> PB_LTYPE_EXTENSION"
  shows "pb_encode_tag_for_field f st = pb_encode_tag st (wire_type_for f) (ucast (f_tag f))"
proof -
  have "unat (ltype f) < 10" using assms(1) by (simp add: word_less_nat_alt)
  then have "unat (ltype f) \<in> {0, 1, 2, 3, 4, 5, 6, 7, 8, 9}" by auto
  then have "ltype f \<in> {0, 1, 2, 3, 4, 5, 6, 7, 8, 9}" by (auto simp: word_unat_eq_iff)
  then show ?thesis using assms(2) by (auto simp: pb_encode_tag_for_field_def wire_type_for_def ltypes)
qed

lemma writes_tagged:
  assumes "writes g v" "ltype f < 10" "ltype f \<noteq> PB_LTYPE_EXTENSION"
  shows "writes (\<lambda>st. and_write (pb_encode_tag_for_field f st) g) (tagged f v)"
  using writes_and [OF writes_tag assms(1)] assms(2,3) by (simp add: tag_for_field tagged_def)

lemma value_fixed_length:
  "value_bytes m sub f p = Some b \<Longrightarrow> ltype f = PB_LTYPE_FIXED32 \<Longrightarrow> length b = 4"
  "value_bytes m sub f p = Some b \<Longrightarrow> ltype f = PB_LTYPE_FIXED64 \<Longrightarrow> length b = 8"
  by (auto simp: value_bytes_def ltypes dest: ld_length)

locale sub_encoding =
  fixes m :: memory and sub :: sub_bytes and enc :: "obuf sub_encoder"
  assumes sub_writes: "sub flds src = Some s \<Longrightarrow> fits s \<Longrightarrow> writes (enc flds src) s"
begin

lemma func_writes: "value_bytes m sub f a = Some bs \<Longrightarrow> fits bs \<Longrightarrow> writes (enc_func m enc f a) bs"
proof (rule writes_value)
  fix flds src s
  assume "sub flds src = Some s" "fits (string_bytes s)"
  then show "writes (pb_encode_submessage enc flds src) (string_bytes s)"
    using writes_submessage [of enc flds src s, OF sub_writes] string_fits by blast
qed

lemma packed_writes:
  assumes items: "item_bytes (value_bytes m sub f) (uint (data_size f)) count p = Some bs" and fit: "fits (string_bytes bs)"
  shows "writes (encode_packed m enc f p count) (string_bytes bs)"
proof -
  let ?each = "each_item (enc_func m enc f) (uint (data_size f)) count p"
  let ?sz = "of_nat (length bs) :: u32"
  have fs: "fits bs" using fit by (rule string_fits)
  have each: "writes ?each bs" using items fs func_writes by (rule writes_items)
  have "writes (packed_data m enc f p count ?sz) bs"
    by (rule writes_cong [OF each]) (simp_all add: packed_data_def pb_write_def)
  moreover have n: "unat (of_nat (length bs) :: u64) = length bs" using fs by (simp add: unsigned_of_nat take_bit_nat_eq_self)
  ultimately have w: "writes (\<lambda>st. and_write (pb_encode_varint st (of_nat (length bs))) (packed_data m enc f p count ?sz)) (string_bytes bs)"
    using writes_and [OF writes_varint [of "of_nat (length bs)"]] unfolding n string_bytes_def by blast
  have "?each (sizing_stream s) = Some (True, (sizing_stream s)\<lparr>bytes_written := ?sz\<rparr>)" for s
    using writes_sizing [OF each, of "sizing_stream s"] by (simp add: sizing_stream_def)
  moreover have "4 * of_nat count = ?sz" if "ltype f = PB_LTYPE_FIXED32"
    using item_length [OF items value_fixed_length(1)] that by (simp add: mult.commute)
  moreover have "8 * of_nat count = ?sz" if "ltype f = PB_LTYPE_FIXED64"
    using item_length [OF items value_fixed_length(2)] that by (simp add: mult.commute)
  ultimately have "packed_size m enc f p count s = Some (True, ?sz)" for s
    by (auto simp: packed_size_def)
  moreover have "ucast ?sz = (of_nat (length bs) :: u64)"
    using fs by (simp add: word_unat_eq_iff unsigned_ucast_eq unsigned_of_nat take_bit_nat_eq_self)
  ultimately have "encode_packed m enc f p count = (\<lambda>st. and_write (pb_encode_varint st (of_nat (length bs))) (packed_data m enc f p count ?sz))"
    by (intro ext) (simp add: encode_packed_def)
  then show ?thesis using w by (simp only:)
qed

lemma array_writes:
  assumes bytes: "array_bytes m sub f p count = Some bs" and fit: "fits bs" and lt: "ltype f < 10" "ltype f \<noteq> PB_LTYPE_EXTENSION"
  shows "writes (encode_array m enc f p count) bs"
proof (cases "count = 0")
  case True
  then show ?thesis using bytes writes_nothing by (simp add: array_bytes_def encode_array_def [abs_def])
next
  case count: False
  then have size_ok: "\<not> (atype f \<noteq> PB_ATYPE_POINTER \<and> unat (array_size f) < count)"
    using bytes by (auto simp: array_bytes_def)
  show ?thesis
  proof (cases "ltype f \<le> PB_LTYPE_LAST_PACKABLE")
    case True
    then obtain s where s: "item_bytes (value_bytes m sub f) (uint (data_size f)) count p = Some s"
      "bs = tag_bytes (PB_WT_STRING, ucast (f_tag f)) @ string_bytes s"
      using bytes count size_ok by (auto simp: array_bytes_def)
    have "encode_array m enc f p count =
        (\<lambda>st. and_write (pb_encode_tag st PB_WT_STRING (ucast (f_tag f))) (encode_packed m enc f p count))"
      using True count size_ok by (intro ext) (auto simp: encode_array_def)
    then show ?thesis using writes_and [OF writes_tag packed_writes [OF s(1)]] s(2) fit by simp
  next
    case False
    let ?v = "\<lambda>p. do {
             q \<leftarrow> (if atype f = PB_ATYPE_POINTER \<and> (ltype f = PB_LTYPE_STRING \<or> ltype f = PB_LTYPE_BYTES)
                  then ld_ptr m p else Some p);
             map_option (tagged f) (value_bytes m sub f q) }"
    let ?w = "\<lambda>p st. and_write (pb_encode_tag_for_field f st) (encode_item m enc f p)"
    have items: "item_bytes ?v (uint (data_size f)) count p = Some bs"
      using bytes count size_ok False by (auto simp: array_bytes_def Let_def)
    have "writes (?w q) b" if vq: "?v q = Some b" and fb: "fits b" for q b
    proof -
      obtain a v where a: "(if atype f = PB_ATYPE_POINTER \<and> (ltype f = PB_LTYPE_STRING \<or> ltype f = PB_LTYPE_BYTES)
                  then ld_ptr m q else Some q) = Some a" "value_bytes m sub f a = Some v" "b = tagged f v"
        using vq by (simp only: bind_eq_Some_conv map_option_eq_Some) blast
      have "encode_item m enc f q = enc_func m enc f a"
        using a(1) by (intro ext) (auto simp: encode_item_def split: if_splits)
      moreover have "fits v" using fb a(3) by (simp add: tagged_def)
      ultimately show ?thesis using writes_tagged [OF func_writes [OF a(2)] lt] a(3) by simp
    qed
    then have "writes (each_item ?w (uint (data_size f)) count p) bs" by (rule writes_items [OF items fit])
    moreover have "encode_array m enc f p count = each_item ?w (uint (data_size f)) count p"
      using False count size_ok by (intro ext) (auto simp: encode_array_def)
    ultimately show ?thesis by simp
  qed
qed

lemma basic_writes:
  assumes bytes: "basic_bytes m d sub f p = Some bs" and fit: "fits bs" and lt: "ltype f < 10" "ltype f \<noteq> PB_LTYPE_EXTENSION"
    and chk: "atype f = PB_ATYPE_POINTER \<Longrightarrow> size_offset f = 0 \<Longrightarrow> htype f = PB_HTYPE_OPTIONAL \<Longrightarrow>
      pb_check_proto3_default_value m d f p \<noteq> None"
  shows "writes (encode_basic_field m d enc f p) bs"
proof -
  obtain q where q: "(if atype f = PB_ATYPE_POINTER then ld_ptr m p else Some p) = Some q"
    using bytes by (auto simp: basic_bytes_def split: bind_splits)
  obtain has where has: "(if size_offset f \<noteq> 0 then ld_byte m (p + sint (size_offset f))
             else if atype f = PB_ATYPE_POINTER then Some (if q \<noteq> 0 then 1 else 0)
             else if htype f = PB_HTYPE_OPTIONAL
             then map_option (\<lambda>z. if z then 0 else 1) (pb_check_proto3_default_value m d f p)
             else Some 1) = Some has"
    and rest: "(if htype f = PB_HTYPE_REPEATED then array_bytes m sub f q (unat has)
     else if htype f = PB_HTYPE_OPTIONAL \<and> has = 0 \<or> htype f = PB_HTYPE_ONEOF \<and> has \<noteq> f_tag f then Some []
     else if htype f = PB_HTYPE_REQUIRED \<and> q = 0 then None
     else map_option (tagged f) (value_bytes m sub f q)) = Some bs"
    using bytes unfolding basic_bytes_def q by (auto split: bind_splits)
  let ?with_tag = "\<lambda>st. and_write (pb_encode_tag_for_field f st) (enc_func m enc f q)"
  have run: "encode_basic_field m d enc f p st =
     (if htype f = PB_HTYPE_REQUIRED then (if q = 0 then ost_error ''missing required field'' st else ?with_tag st)
       else if htype f = PB_HTYPE_OPTIONAL then (if has \<noteq> 0 then ?with_tag st else Some (True, st))
       else if htype f = PB_HTYPE_REPEATED then encode_array m enc f q (unat has) st
       else if htype f = PB_HTYPE_ONEOF then (if has = f_tag f then ?with_tag st else Some (True, st))
       else ost_error ''invalid field type'' st)" for st
  proof -
    consider (ptr) "atype f = PB_ATYPE_POINTER" "size_offset f = 0" "htype f = PB_HTYPE_OPTIONAL"
      | (other) "\<not> (atype f = PB_ATYPE_POINTER \<and> size_offset f = 0 \<and> htype f = PB_HTYPE_OPTIONAL)" by blast
    then show ?thesis
    proof cases
      case ptr
      then obtain z where z: "pb_check_proto3_default_value m d f p = Some z" using chk by blast
      then show ?thesis using ptr lt q has
        by (simp add: encode_basic_field_def htypes flip: not_less)
    next
      case other
      then show ?thesis using lt q has
        by (auto simp: encode_basic_field_def not_le htypes Let_def split: if_splits)
    qed
  qed
  have tagged: "writes ?with_tag bs" if mt: "map_option (tagged f) (value_bytes m sub f q) = Some bs"
  proof -
    obtain v where v: "value_bytes m sub f q = Some v" "bs = tagged f v" using mt by auto
    then have "fits v" using fit by (simp add: tagged_def)
    then show ?thesis using writes_tagged [OF func_writes [OF v(1)] lt] v(2) by simp
  qed
  have skip: "writes (\<lambda>st. Some (True, st)) bs" if "bs = []" using that writes_nothing by simp
  note h = htype_cases [of f]
  show ?thesis
    using rest h array_writes [OF _ fit lt, of q "unat has"] tagged skip
    unfolding run [abs_def]
    by (auto simp: htypes split: if_splits)
qed

end

section \<open>Messages\<close>

definition callbacks_write :: "obuf enc_env \<Rightarrow> (addr \<Rightarrow> pb_field \<Rightarrow> addr \<Rightarrow> byte list option) \<Rightarrow> bool" where
  "callbacks_write env cb \<longleftrightarrow> (\<forall>fp f a bs. cb fp f a = Some bs \<longrightarrow> fits bs \<longrightarrow>
     (\<exists>fn. enc_callbacks env fp = Some fn \<and> writes (fn f a) bs))"

lemma writes_with_error:
  assumes "writes g bs"
  shows "writes (\<lambda>st. do { (ok, st1) \<leftarrow> g st; if \<not> ok then ost_error msg st1 else Some (True, st1) }) bs"
  unfolding writes_def
proof (intro conjI allI impI)
  fix pre old st
  assume o: "out_at pre old st" and l: "length old + length bs < 2 ^ 32"
  let ?w = "\<lambda>st. do { (ok, st1) \<leftarrow> g st; if \<not> ok then ost_error msg st1 else Some (True, st1) }"
  show "if length old + length bs \<le> unat (max_size st)
         then \<exists>st'. ?w st = Some (True, st') \<and> out_at pre (old @ bs) st' \<and> same_room st st'
         else \<exists>st' part. ?w st = Some (False, st') \<and> out_at pre (old @ part) st' \<and> same_room st st'"
  proof (cases "length old + length bs \<le> unat (max_size st)")
    case True
    then obtain st' where "g st = Some (True, st')" "out_at pre (old @ bs) st'" "same_room st st'"
      using writes_fit [OF assms o] by blast
    then show ?thesis using True by simp
  next
    case False
    then obtain st' part where "g st = Some (False, st')" "out_at pre (old @ part) st'" "same_room st st'"
      using writes_full [OF assms o] l by auto
    then have "?w st = Some (False, set_oerr msg st') \<and> out_at pre (old @ part) (set_oerr msg st') \<and> same_room st (set_oerr msg st')"
      by (simp add: ost_error_def) (simp add: same_room_def set_oerr_def)
    then show ?thesis using False by (auto simp del: out_at_set_oerr)
  qed
qed (simp add: writes_sizing [OF assms])

lemma field_writes:
  assumes sub: "sub_encoding sub enc" and cb: "callbacks_write env cb"
    and bytes: "field_bytes env cb d sub f p = Some bs" and fit: "fits bs"
  shows "writes (\<lambda>st. if ltype f = PB_LTYPE_EXTENSION then encode_extension_field env d enc p st
     else encode_field env d enc f p st) bs"
proof -
  have lt: "ltype f < 10" "ltype f \<noteq> PB_LTYPE_EXTENSION"
    using bytes by (auto simp: field_bytes_def not_le split: if_splits)
  consider (basic) "atype f = PB_ATYPE_STATIC \<or> atype f = PB_ATYPE_POINTER"
    | (callback) "atype f = PB_ATYPE_CALLBACK" "\<not> (atype f = PB_ATYPE_STATIC \<or> atype f = PB_ATYPE_POINTER)"
    using bytes by (auto simp: field_bytes_def split: if_splits)
  then show ?thesis
  proof cases
    case basic
    have "basic_bytes (mem env) d sub f p = Some bs"
      and "atype f = PB_ATYPE_POINTER \<Longrightarrow> size_offset f = 0 \<Longrightarrow> htype f = PB_HTYPE_OPTIONAL \<Longrightarrow>
        pb_check_proto3_default_value (mem env) d f p \<noteq> None"
      using bytes basic by (auto simp: field_bytes_def split: if_splits)
    then have "writes (encode_basic_field (mem env) d enc f p) bs"
      by (intro sub_encoding.basic_writes [OF sub _ fit lt])
    moreover have "(\<lambda>st. if ltype f = PB_LTYPE_EXTENSION then encode_extension_field env d enc p st
     else encode_field env d enc f p st) = encode_basic_field (mem env) d enc f p"
      using basic lt by (intro ext) (auto simp: encode_field_def)
    ultimately show ?thesis by simp
  next
    case callback
    then obtain fp where fp: "ld_ptr (mem env) p = Some fp" "(if fp = 0 then Some [] else cb fp f (p + 4)) = Some bs"
      using bytes lt by (auto simp: field_bytes_def split: if_splits bind_splits)
    have run: "(\<lambda>st. if ltype f = PB_LTYPE_EXTENSION then encode_extension_field env d enc p st
     else encode_field env d enc f p st) = encode_callback_field env f p"
      using callback lt by (intro ext) (auto simp: encode_field_def)
    show ?thesis
    proof (cases "fp = 0")
      case True
      then have "encode_callback_field env f p = (\<lambda>st. Some (True, st))" "bs = []"
        using fp by (auto simp: encode_callback_field_def)
      then show ?thesis using run writes_nothing by simp
    next
      case False
      then obtain fn where fn: "enc_callbacks env fp = Some fn" "writes (fn f (p + 4)) bs"
      proof -
        have "cb fp f (p + 4) = Some bs" using fp(2) False by simp
        then show ?thesis using that fit cb unfolding callbacks_write_def by blast
      qed
      have "encode_callback_field env f p =
          (\<lambda>st. do { (ok, st1) \<leftarrow> fn f (p + 4) st; if \<not> ok then ost_error ''callback error'' st1 else Some (True, st1) })"
        using fp(1) fn(1) False by (intro ext) (simp add: encode_callback_field_def)
      then show ?thesis using run writes_with_error [OF fn(2)] by simp
    qed
  qed
qed

lemma loop_writes:
  "bytes_of_slots fb ss = Some bs \<Longrightarrow> fits bs \<Longrightarrow>
   (\<And>s b. s \<in> set ss \<Longrightarrow> fb (s_field s) (s_data s) = Some b \<Longrightarrow> fits b \<Longrightarrow> writes (w (s_field s) (s_data s)) b) \<Longrightarrow>
     writes (loop_slots (\<lambda>f p _ st. w f p st) ss) bs"
proof (induction ss arbitrary: bs)
  case Nil
  then show ?case using writes_nothing by (simp add: fun_eq_iff [THEN iffD2, of "loop_slots _ []"])
next
  case (Cons s ss)
  obtain a b where ab: "fb (s_field s) (s_data s) = Some a" "bytes_of_slots fb ss = Some b" "bs = a @ b"
    using Cons.prems(1) by (auto split: bind_splits)
  then have "writes (w (s_field s) (s_data s)) a" "writes (loop_slots (\<lambda>f p _ st. w f p st) ss) b"
    using Cons by auto
  then have "writes (\<lambda>st. and_write (w (s_field s) (s_data s) st) (loop_slots (\<lambda>f p _ st. w f p st) ss)) (a @ b)"
    by (rule writes_and)
  moreover have "loop_slots (\<lambda>f p _ st. w f p st) (s # ss) =
      (\<lambda>st. and_write (w (s_field s) (s_data s) st) (loop_slots (\<lambda>f p _ st. w f p st) ss))"
    by (intro ext) (auto simp: and_write_def split: bind_split)
  ultimately show ?case using ab(3) by simp
qed

theorem message_writes:
  "callbacks_write env cb \<Longrightarrow> message_bytes env cb d flds src = Some bs \<Longrightarrow> fits bs \<Longrightarrow> writes (pb_encode env d flds src) bs"
proof (induction d arbitrary: flds src bs)
  case (Suc d)
  let ?w = "\<lambda>f p st. if ltype f = PB_LTYPE_EXTENSION then encode_extension_field env d (pb_encode env d) p st
     else encode_field env d (pb_encode env d) f p st"
  have t: "terminated flds"
    and b: "bytes_of_slots (field_bytes env cb d (message_bytes env cb d)) (slots (butlast flds) src) = Some bs"
    using Suc.prems(2) by (auto split: if_splits)
  have sub: "sub_encoding (message_bytes env cb d) (pb_encode env d)"
    by unfold_locales (rule Suc.IH [OF Suc.prems(1)])
  have "writes (loop_slots (\<lambda>f p _ st. ?w f p st) (slots (butlast flds) src)) bs"
    by (rule loop_writes [OF b Suc.prems(3)]) (rule field_writes [OF sub Suc.prems(1)])
  moreover have "pb_encode env (Suc d) flds src = loop_slots (\<lambda>f p _ st. ?w f p st) (slots (butlast flds) src)"
    by (rule ext) (simp add: for_fields_slots [OF t])
  ultimately show ?case by (simp only:)
qed simp

interpretation nested: sub_encoding "mem env" "message_bytes env (\<lambda>fp f a. None) d" "pb_encode env d" for env d
  by unfold_locales (auto simp: callbacks_write_def intro: message_writes)

lemma encode_to_buffer:
  assumes "callbacks_write env cb" "message_bytes env cb d flds src = Some bs" "fits bs" "fits buf"
  shows "\<exists>st. pb_encode env d flds src (pb_ostream_from_buffer buf (of_nat (length buf))) = Some (length bs \<le> length buf, st) \<and>
    length (fst (ostate st)) = length buf \<and>
    (length bs \<le> length buf \<longrightarrow> take (unat (bytes_written st)) (fst (ostate st)) = bs)"
proof -
  let ?st = "pb_ostream_from_buffer buf (of_nat (length buf))"
  note w = message_writes [OF assms(1-3)]
  have o: "out_at [] [] ?st" using out_at_buffer [OF assms(4)] .
  have m: "unat (max_size ?st) = length buf" "length (fst (ostate ?st)) = length buf"
    using assms(4) by (simp_all add: pb_ostream_from_buffer_def of_nat_u32)
  show ?thesis
  proof (cases "length bs \<le> length buf")
    case True
    then obtain st' where "pb_encode env d flds src ?st = Some (True, st')" "out_at [] bs st'" "same_room ?st st'"
      using writes_fit [OF w o] m by auto
    then show ?thesis using True out_at_content m(2) by (auto simp: same_room_def)
  next
    case False
    then obtain st' part where "pb_encode env d flds src ?st = Some (False, st')" "same_room ?st st'"
      using writes_full [OF w o] m assms(3) by auto
    then show ?thesis using False m(2) by (auto simp: same_room_def)
  qed
qed

section \<open>Properties of the encoder\<close>

text \<open>
  C16. The encoder refines \<open>message_bytes\<close>: into a buffer it writes exactly the encoding of the
  message, nested messages, arrays and callbacks included, when the encoding fits, and it returns
  an error when it does not; it never writes outside the buffer.
\<close>

theorem pb_encode_refines:
  assumes "callbacks_write env cb" "message_bytes env cb d flds src = Some bs" "fits bs" "fits buf"
  shows "\<exists>st. pb_encode env d flds src (pb_ostream_from_buffer buf (of_nat (length buf))) = Some (length bs \<le> length buf, st) \<and>
    length (fst (ostate st)) = length buf \<and>
    (length bs \<le> length buf \<longrightarrow> take (unat (bytes_written st)) (fst (ostate st)) = bs)"
  using encode_to_buffer [OF assms] .

text \<open>
  C18. \<open>pb_get_encoded_size\<close> returns the length of the encoding, and a buffer of this length is
  needed and enough for \<open>pb_encode\<close> to succeed.
\<close>

theorem pb_get_encoded_size_exact:
  assumes "callbacks_write env cb" "message_bytes env cb d flds src = Some bs" "fits bs" "fits buf"
  shows "pb_get_encoded_size env d s flds src = Some (True, Some (of_nat (length bs))) \<and>
    (\<exists>st. pb_encode env d flds src (pb_ostream_from_buffer buf (of_nat (length buf))) = Some (length bs \<le> length buf, st))"
proof
  have "ocallback (sizing_stream s) = None" by (simp add: sizing_stream_def)
  from writes_sizing [OF message_writes [OF assms(1-3)] this]
  show "pb_get_encoded_size env d s flds src = Some (True, Some (of_nat (length bs)))"
    by (simp add: pb_get_encoded_size_def) (simp add: sizing_stream_def)
  show "\<exists>st. pb_encode env d flds src (pb_ostream_from_buffer buf (of_nat (length buf))) = Some (length bs \<le> length buf, st)"
    using encode_to_buffer [OF assms] by auto
qed

text \<open>A message of an \<open>int32\<close> and an array of two \<open>uint32\<close>, with the number of elements before it.\<close>

definition example_fields :: "pb_field list" where
  "example_fields =
     [Field 1 0x00 0 0 4 0 NULL, Field 2 0x21 4 (- 4) 4 2 NULL, Field 0 0 0 0 0 0 NULL]"

definition example_env :: "obuf enc_env" where
  "example_env =
     \<lparr>mem = [0, 44, 1, 0, 0, 2, 0, 0, 0, 5, 0, 0, 0, 128, 0, 0, 0], enc_callbacks = \<lambda>_. None, ext_types = \<lambda>_. None\<rparr>"

lemma example_bytes:
  "message_bytes example_env (\<lambda>_ _ _. None) 1 example_fields 1 = Some [8, 172, 2, 18, 3, 5, 128, 1]"
  by code_simp

lemma example_callbacks: "callbacks_write example_env (\<lambda>_ _ _. None)"
  by (simp add: callbacks_write_def)

theorem pb_encode_refines_witness:
  "\<exists>st. pb_encode example_env 1 example_fields 1 (pb_ostream_from_buffer (replicate 9 0) (of_nat (length (replicate 9 (0 :: byte))))) =
      Some (length [8, 172, 2, 18, 3, 5, 128, 1 :: byte] \<le> length (replicate 9 (0 :: byte)), st) \<and>
    length (fst (ostate st)) = length (replicate 9 (0 :: byte)) \<and>
    (length [8, 172, 2, 18, 3, 5, 128, 1 :: byte] \<le> length (replicate 9 (0 :: byte)) \<longrightarrow>
      take (unat (bytes_written st)) (fst (ostate st)) = [8, 172, 2, 18, 3, 5, 128, 1])"
  by (rule pb_encode_refines [OF example_callbacks example_bytes]) simp_all

theorem pb_get_encoded_size_exact_witness:
  "pb_get_encoded_size example_env 1 ([], 0) example_fields 1 = Some (True, Some (of_nat (length [8, 172, 2, 18, 3, 5, 128, 1 :: byte]))) \<and>
    (\<exists>st. pb_encode example_env 1 example_fields 1 (pb_ostream_from_buffer [0, 0, 0] (of_nat (length [0, 0, 0 :: byte]))) =
       Some (length [8, 172, 2, 18, 3, 5, 128, 1 :: byte] \<le> length [0, 0, 0 :: byte], st))"
  by (rule pb_get_encoded_size_exact [OF example_callbacks example_bytes]) simp_all

end
