(* ===== verification/PbDecode.thy ===== *)
theory PbDecode
  imports PbFields
begin

text \<open>
  The message decoder of nanopb (speech/nanopb/pb_decode.c, built without PB_ENABLE_MALLOC). The
  state of a decoding is the memory with the struct it fills and the world of the callbacks;
  a decoding function returns its boolean, this state and the stream. \<open>fields_seen\<close> are the two
  words of the local array. The recursion into submessages is bounded by a depth.
\<close>

section \<open>Field decoders\<close>

record 'w dst =
  dmem :: memory
  world :: 'w

type_synonym ('s, 'w) dec = "'w dst \<Rightarrow> 's istream \<Rightarrow> (bool \<times> 'w dst \<times> 's istream) c"

definition dec_ok :: "('s, 'w) dec" where
  "dec_ok ds st = Some (True, ds, st)"

definition dec_error :: "string \<Rightarrow> ('s, 'w) dec" where
  "dec_error msg ds st = Some (False, ds, set_ierr msg st)"

text \<open>\<open>if (!m(stream, &x)) return false; k(x)\<close>\<close>

definition dec_with :: "('s, 'a) rd \<Rightarrow> ('a \<Rightarrow> ('s, 'w) dec) \<Rightarrow> ('s, 'w) dec" where
  "dec_with m k ds st =
     (case m st of
        None \<Rightarrow> None | Some (None, st1) \<Rightarrow> Some (False, ds, st1) | Some (Some x, st1) \<Rightarrow> k x ds st1)"

text \<open>A store into the memory, and what follows it.\<close>

definition dec_sto :: "addr \<Rightarrow> byte list \<Rightarrow> ('s, 'w) dec \<Rightarrow> ('s, 'w) dec" where
  "dec_sto a bs k ds st = do { m \<leftarrow> sto (dmem ds) a bs; k (ds\<lparr>dmem := m\<rparr>) st }"

definition dec_ld :: "addr \<Rightarrow> (byte \<Rightarrow> ('s, 'w) dec) \<Rightarrow> ('s, 'w) dec" where
  "dec_ld a k ds st = do { b \<leftarrow> ld_byte (dmem ds) a; k b ds st }"

definition le_word :: "nat \<Rightarrow> u64 \<Rightarrow> byte list" where
  "le_word n v = le_bytes n (unat v)"

text \<open>
  The value is cast to the size of the field, stored, and then compared with what was asked for.
\<close>

definition sto_checked :: "addr \<Rightarrow> nat \<Rightarrow> u64 \<Rightarrow> u64 \<Rightarrow> ('s, 'w) dec" where
  "sto_checked dest n clamped v =
     dec_sto dest (le_word n clamped) (if clamped \<noteq> v then dec_error ''integer too large'' else dec_ok)"

definition pb_dec_varint :: "pb_field \<Rightarrow> addr \<Rightarrow> ('s, 'w) dec" where
  "pb_dec_varint f dest = dec_with pb_decode_varint (\<lambda>v.
     let sv = (if data_size f = 8 then v else scast (ucast v :: u32)) in
     if data_size f = 8 then sto_checked dest 8 sv sv
     else if data_size f = 4 then sto_checked dest 4 (scast (ucast sv :: u32)) sv
     else if data_size f = 2 then sto_checked dest 2 (scast (ucast sv :: u16)) sv
     else if data_size f = 1 then sto_checked dest 1 (scast (ucast sv :: byte)) sv
     else dec_error ''invalid data_size'')"

definition pb_dec_uvarint :: "pb_field \<Rightarrow> addr \<Rightarrow> ('s, 'w) dec" where
  "pb_dec_uvarint f dest = dec_with pb_decode_varint (\<lambda>v.
     if data_size f = 8 then sto_checked dest 8 v v
     else if data_size f = 4 then sto_checked dest 4 (ucast (ucast v :: u32)) v
     else if data_size f = 2 then sto_checked dest 2 (ucast (ucast v :: u16)) v
     else if data_size f = 1 then sto_checked dest 1 (ucast (ucast v :: byte)) v
     else dec_error ''invalid data_size'')"

definition pb_dec_svarint :: "pb_field \<Rightarrow> addr \<Rightarrow> ('s, 'w) dec" where
  "pb_dec_svarint f dest = dec_with pb_decode_svarint (\<lambda>v.
     if data_size f = 8 then sto_checked dest 8 v v
     else if data_size f = 4 then sto_checked dest 4 (scast (ucast v :: u32)) v
     else if data_size f = 2 then sto_checked dest 2 (scast (ucast v :: u16)) v
     else if data_size f = 1 then sto_checked dest 1 (scast (ucast v :: byte)) v
     else dec_error ''invalid data_size'')"

definition pb_dec_fixed32 :: "addr \<Rightarrow> ('s, 'w) dec" where
  "pb_dec_fixed32 dest = dec_with pb_decode_fixed32 (\<lambda>v. dec_sto dest (le_bytes 4 (unat v)) dec_ok)"

definition pb_dec_fixed64 :: "addr \<Rightarrow> ('s, 'w) dec" where
  "pb_dec_fixed64 dest = dec_with pb_decode_fixed64 (\<lambda>v. dec_sto dest (le_bytes 8 (unat v)) dec_ok)"

definition pb_dec_bytes :: "pb_field \<Rightarrow> addr \<Rightarrow> ('s, 'w) dec" where
  "pb_dec_bytes f dest = dec_with pb_decode_varint32 (\<lambda>sz.
     if ucast PB_SIZE_MAX < sz then dec_error ''bytes overflow''
     else if sz + 1 < sz then dec_error ''size too large''
     else if atype f = PB_ATYPE_POINTER then dec_error ''no malloc support''
     else if ucast (data_size f) < sz + 1 then dec_error ''bytes overflow''
     else dec_sto dest [ucast sz] (dec_with (pb_read False sz) (\<lambda>bs. dec_sto (dest + 1) bs dec_ok)))"

text \<open>The terminator is stored whether or not the read succeeded.\<close>

definition pb_dec_string :: "pb_field \<Rightarrow> addr \<Rightarrow> ('s, 'w) dec" where
  "pb_dec_string f dest = dec_with pb_decode_varint32 (\<lambda>sz.
     if sz + 1 < sz then dec_error ''size too large''
     else if atype f = PB_ATYPE_POINTER then dec_error ''no malloc support''
     else if ucast (data_size f) < sz + 1 then dec_error ''string overflow''
     else (\<lambda>ds st.
       case pb_read False sz st of
         None \<Rightarrow> None
       | Some (None, st1) \<Rightarrow> dec_sto (dest + uint sz) [0] (\<lambda>ds st. Some (False, ds, st)) ds st1
       | Some (Some bs, st1) \<Rightarrow> dec_sto dest bs (dec_sto (dest + uint sz) [0] dec_ok) ds st1))"

text \<open>Decoding into a substream: what it consumed is taken over when the substream is closed.\<close>

definition dec_substream :: "(('s, 'w) dec) \<Rightarrow> ('s, 'w) dec" where
  "dec_substream body = dec_with pb_make_string_substream (\<lambda>sub ds st.
     do {
       (status, ds1, sub1) \<leftarrow> body ds sub;
       dec_with (pb_close_string_substream sub1) (\<lambda>_ ds2 st2. Some (status, ds2, st2)) ds1 st })"

text \<open>\<open>pb_decode\<close> and \<open>pb_decode_noinit\<close> on the fields of a submessage.\<close>

record ('s, 'w) sub_decoders =
  sub_decode :: "pb_field list \<Rightarrow> addr \<Rightarrow> ('s, 'w) dec"
  sub_noinit :: "pb_field list \<Rightarrow> addr \<Rightarrow> ('s, 'w) dec"

definition pb_dec_submessage :: "('s, 'w) sub_decoders \<Rightarrow> pb_field \<Rightarrow> addr \<Rightarrow> ('s, 'w) dec" where
  "pb_dec_submessage sub f dest =
     (case f_ptr f of
        NULL \<Rightarrow> dec_with pb_make_string_substream (\<lambda>_. dec_error ''invalid field descriptor'')
      | Submsg flds \<Rightarrow>
          dec_substream (if htype f = PB_HTYPE_REPEATED then sub_decode sub flds dest else sub_noinit sub flds dest)
      | Default_value v \<Rightarrow> dec_with pb_make_string_substream (\<lambda>_ ds st. None))"

definition pb_dec_fixed_length_bytes :: "pb_field \<Rightarrow> addr \<Rightarrow> ('s, 'w) dec" where
  "pb_dec_fixed_length_bytes f dest = dec_with pb_decode_varint32 (\<lambda>sz.
     if ucast PB_SIZE_MAX < sz then dec_error ''bytes overflow''
     else if sz = 0 then dec_sto dest (replicate (unat (data_size f)) 0) dec_ok
     else if sz \<noteq> ucast (data_size f) then dec_error ''incorrect fixed length bytes size''
     else dec_with (pb_read False (ucast (data_size f))) (\<lambda>bs. dec_sto dest bs dec_ok))"

text \<open>A call through \<open>PB_DECODERS[PB_LTYPE(type)]\<close>; the entry of extensions is NULL.\<close>

definition dec_func :: "('s, 'w) sub_decoders \<Rightarrow> pb_field \<Rightarrow> addr \<Rightarrow> ('s, 'w) dec" where
  "dec_func sub f dest =
     (if ltype f = PB_LTYPE_VARINT then pb_dec_varint f dest
      else if ltype f = PB_LTYPE_UVARINT then pb_dec_uvarint f dest
      else if ltype f = PB_LTYPE_SVARINT then pb_dec_svarint f dest
      else if ltype f = PB_LTYPE_FIXED32 then pb_dec_fixed32 dest
      else if ltype f = PB_LTYPE_FIXED64 then pb_dec_fixed64 dest
      else if ltype f = PB_LTYPE_BYTES then pb_dec_bytes f dest
      else if ltype f = PB_LTYPE_STRING then pb_dec_string f dest
      else if ltype f = PB_LTYPE_SUBMESSAGE then pb_dec_submessage sub f dest
      else if ltype f = PB_LTYPE_FIXED_LENGTH_BYTES then pb_dec_fixed_length_bytes f dest
      else (\<lambda>ds st. None))"

section \<open>Defaults\<close>

record ('s, 'w) dec_ext_type =
  et_decode :: "(addr \<Rightarrow> u32 \<Rightarrow> wire_type \<Rightarrow> ('s, 'w) dec) option"
  et_darg :: pb_field

record ('s, 'w) dec_env =
  dec_callbacks :: "addr \<Rightarrow> (pb_field \<Rightarrow> addr \<Rightarrow> ('s, 'w) dec) option"
  dec_ext_types :: "addr \<Rightarrow> ('s, 'w) dec_ext_type option"

text \<open>\<open>iter_from_extension\<close>: where the data of an extension lie; \<open>found\<close> is at offset 12.\<close>

definition ext_data :: "memory \<Rightarrow> pb_field \<Rightarrow> addr \<Rightarrow> addr c" where
  "ext_data m f x = (if atype f = PB_ATYPE_POINTER then Some (x + 4) else ld_ptr m (x + 4))"

definition static_default :: "(pb_field list \<Rightarrow> addr \<Rightarrow> memory \<Rightarrow> memory c) \<Rightarrow> pb_field \<Rightarrow> addr \<Rightarrow> addr \<Rightarrow> memory \<Rightarrow> memory c" where
  "static_default defaults f p sz m =
     (if htype f = PB_HTYPE_REPEATED \<or> htype f = PB_HTYPE_ONEOF then sto m sz [0]
      else do {
        m1 \<leftarrow> (if htype f = PB_HTYPE_OPTIONAL \<and> sz \<noteq> p then sto m sz [0] else Some m);
        if ltype f = PB_LTYPE_SUBMESSAGE
        then (case f_ptr f of Submsg flds \<Rightarrow> defaults flds p m1 | _ \<Rightarrow> None)
        else (case f_ptr f of
                Default_value v \<Rightarrow> if unat (data_size f) \<le> length v then sto m1 p (take (unat (data_size f)) v) else None
              | NULL \<Rightarrow> sto m1 p (replicate (unat (data_size f)) 0)
              | Submsg flds \<Rightarrow> None) })"

text \<open>The default of a field that is not an extension.\<close>

definition plain_default :: "(pb_field list \<Rightarrow> addr \<Rightarrow> memory \<Rightarrow> memory c) \<Rightarrow> pb_field \<Rightarrow> addr \<Rightarrow> addr \<Rightarrow> memory \<Rightarrow> memory c" where
  "plain_default defaults f p sz m =
     (if atype f = PB_ATYPE_STATIC then static_default defaults f p sz m
      else if atype f = PB_ATYPE_POINTER
      then do {
        m1 \<leftarrow> sto m p [0, 0, 0, 0];
        if htype f = PB_HTYPE_REPEATED \<or> htype f = PB_HTYPE_ONEOF then sto m1 sz [0] else Some m1 }
      else Some m)"

text \<open>The extensions of a message; an extension whose field is an extension itself is left out.\<close>

partial_function (option) default_extensions ::
  "(addr \<Rightarrow> pb_field c) \<Rightarrow> (pb_field list \<Rightarrow> addr \<Rightarrow> memory \<Rightarrow> memory c) \<Rightarrow> addr \<Rightarrow> memory \<Rightarrow> memory c" where
  "default_extensions ty defaults x m =
     (if x = 0 then Some m
      else do {
        m1 \<leftarrow> sto m (x + 12) [0];
        t \<leftarrow> ld_ptr m1 x;
        f \<leftarrow> ty t;
        p \<leftarrow> ext_data m1 f x;
        m2 \<leftarrow> (if ltype f = PB_LTYPE_EXTENSION then None else plain_default defaults f p (x + 12) m1);
        nxt \<leftarrow> ld_ptr m2 (x + 8);
        default_extensions ty defaults nxt m2 })"

definition pb_field_set_to_default ::
  "(addr \<Rightarrow> pb_field c) \<Rightarrow> (pb_field list \<Rightarrow> addr \<Rightarrow> memory \<Rightarrow> memory c) \<Rightarrow> pb_field \<Rightarrow> addr \<Rightarrow> addr \<Rightarrow> memory \<Rightarrow> memory c" where
  "pb_field_set_to_default ty defaults f p sz m =
     (if ltype f = PB_LTYPE_EXTENSION then do { x \<leftarrow> ld_ptr m p; default_extensions ty defaults x m }
      else plain_default defaults f p sz m)"

primrec pb_message_set_to_defaults :: "(addr \<Rightarrow> pb_field c) \<Rightarrow> nat \<Rightarrow> pb_field list \<Rightarrow> addr \<Rightarrow> memory \<Rightarrow> memory c" where
  "pb_message_set_to_defaults ty 0 = (\<lambda>flds dest m. None)"
| "pb_message_set_to_defaults ty (Suc d) = (\<lambda>flds dest m. do {
     (_, m1) \<leftarrow> for_fields (\<lambda>f p sz m. do {
        m1 \<leftarrow> pb_field_set_to_default ty (pb_message_set_to_defaults ty d) f p sz m; Some (True, m1) }) flds dest m;
     Some m1 })"

section \<open>Fields\<close>

text \<open>
  \<open>while (substream.bytes_left > 0 && *size < array_size)\<close>: the result is \<open>status\<close>, and the
  loop ends early on a failure.
\<close>

partial_function (option) packed_loop :: "('s, 'w) sub_decoders \<Rightarrow> pb_field \<Rightarrow> addr \<Rightarrow> addr \<Rightarrow> ('s, 'w) dec" where
  "packed_loop sub f p sz ds st = do {
     n \<leftarrow> ld_byte (dmem ds) sz;
     if 0 < bytes_left st \<and> n < array_size f
     then do {
       (ok, ds1, st1) \<leftarrow> dec_func sub f (p + uint (data_size f) * uint n) ds st;
       if \<not> ok then Some (False, ds1, st1)
       else do {
         n1 \<leftarrow> ld_byte (dmem ds1) sz;
         m \<leftarrow> sto (dmem ds1) sz [n1 + 1];
         packed_loop sub f p sz (ds1\<lparr>dmem := m\<rparr>) st1 } }
     else Some (True, ds, st) }"

definition decode_packed :: "('s, 'w) sub_decoders \<Rightarrow> pb_field \<Rightarrow> addr \<Rightarrow> addr \<Rightarrow> ('s, 'w) dec" where
  "decode_packed sub f p sz = dec_with pb_make_string_substream (\<lambda>substream ds st. do {
     (status, ds1, sub1) \<leftarrow> packed_loop sub f p sz ds substream;
     if bytes_left sub1 \<noteq> 0 then dec_error ''array overflow'' ds1 st
     else dec_with (pb_close_string_substream sub1) (\<lambda>_ ds2 st2. Some (status, ds2, st2)) ds1 st })"

definition decode_item :: "('s, 'w) sub_decoders \<Rightarrow> pb_field \<Rightarrow> addr \<Rightarrow> addr \<Rightarrow> ('s, 'w) dec" where
  "decode_item sub f p sz = dec_ld sz (\<lambda>n.
     if array_size f \<le> n then dec_error ''array overflow''
     else dec_sto sz [n + 1] (dec_func sub f (p + uint (data_size f) * uint n)))"

definition decode_oneof :: "('s, 'w) dec_env \<Rightarrow> nat \<Rightarrow> ('s, 'w) sub_decoders \<Rightarrow> pb_field \<Rightarrow> addr \<Rightarrow> addr \<Rightarrow> ('s, 'w) dec" where
  "decode_oneof env d sub f p sz = dec_sto sz [f_tag f]
     (if ltype f = PB_LTYPE_SUBMESSAGE
      then dec_sto p (replicate (unat (data_size f)) 0) (\<lambda>ds st.
        case f_ptr f of
          Submsg flds \<Rightarrow> do {
            m \<leftarrow> pb_message_set_to_defaults (\<lambda>t. map_option et_darg (dec_ext_types env t)) d flds p (dmem ds);
            dec_func sub f p (ds\<lparr>dmem := m\<rparr>) st }
        | _ \<Rightarrow> None)
      else dec_func sub f p)"

definition decode_static_field :: "('s, 'w) dec_env \<Rightarrow> nat \<Rightarrow> ('s, 'w) sub_decoders \<Rightarrow> wire_type \<Rightarrow> pb_field \<Rightarrow> addr \<Rightarrow> addr \<Rightarrow> ('s, 'w) dec" where
  "decode_static_field env d sub wt f p sz =
     (if 10 \<le> ltype f then (\<lambda>ds st. None)
      else if htype f = PB_HTYPE_REQUIRED then dec_func sub f p
      else if htype f = PB_HTYPE_OPTIONAL
      then (if sz \<noteq> p then dec_sto sz [1] (dec_func sub f p) else dec_func sub f p)
      else if htype f = PB_HTYPE_REPEATED
      then (if wt = PB_WT_STRING \<and> ltype f \<le> PB_LTYPE_LAST_PACKABLE then decode_packed sub f p sz
            else decode_item sub f p sz)
      else if htype f = PB_HTYPE_ONEOF then decode_oneof env d sub f p sz
      else dec_error ''invalid field type'')"

definition decode_pointer_field :: "('s, 'w) dec" where
  "decode_pointer_field = dec_error ''no malloc support''"

text \<open>\<open>do { if (!decode(&substream, ...)) return error } while (substream.bytes_left)\<close>\<close>

partial_function (option) callback_loop :: "('s, 'w) dec \<Rightarrow> ('s, 'w) dec" where
  "callback_loop cb ds sub = do {
     (ok, ds1, sub1) \<leftarrow> cb ds sub;
     if \<not> ok then Some (False, ds1, sub1)
     else if bytes_left sub1 \<noteq> 0 then callback_loop cb ds1 sub1
     else Some (True, ds1, sub1) }"

definition decode_string_callback :: "('s, 'w) dec \<Rightarrow> ('s, 'w) dec" where
  "decode_string_callback cb = dec_with pb_make_string_substream (\<lambda>substream ds st. do {
     (ok, ds1, sub1) \<leftarrow> callback_loop cb ds substream;
     if \<not> ok then dec_error ''callback failed'' ds1 st
     else dec_with (pb_close_string_substream sub1) (\<lambda>_ ds2 st2. Some (True, ds2, st2)) ds1 st })"

definition decode_scalar_callback :: "wire_type \<Rightarrow> ('s, 'w) dec \<Rightarrow> ('s, 'w) dec" where
  "decode_scalar_callback wt cb = dec_with (read_raw_value wt 10) (\<lambda>buffer ds st. do {
     (ok, ds1, sub1) \<leftarrow> cb ds (pb_istream_from_buffer buffer (of_nat (length buffer)));
     Some (ok, ds1, st) })"

definition decode_callback_field :: "('s, 'w) dec_env \<Rightarrow> wire_type \<Rightarrow> pb_field \<Rightarrow> addr \<Rightarrow> ('s, 'w) dec" where
  "decode_callback_field env wt f p ds st = do {
     fp \<leftarrow> (if p = 0 then Some 0 else ld_ptr (dmem ds) p);
     if fp = 0 then dec_with (pb_skip_field wt) (\<lambda>_. dec_ok) ds st
     else do {
       cb \<leftarrow> dec_callbacks env fp;
       if wt = PB_WT_STRING then decode_string_callback (cb f (p + 4)) ds st
       else decode_scalar_callback wt (cb f (p + 4)) ds st } }"

definition decode_field :: "('s, 'w) dec_env \<Rightarrow> nat \<Rightarrow> ('s, 'w) sub_decoders \<Rightarrow> wire_type \<Rightarrow> pb_field \<Rightarrow> addr \<Rightarrow> addr \<Rightarrow> ('s, 'w) dec" where
  "decode_field env d sub wt f p sz =
     (if atype f = PB_ATYPE_STATIC then decode_static_field env d sub wt f p sz
      else if atype f = PB_ATYPE_POINTER then decode_pointer_field
      else if atype f = PB_ATYPE_CALLBACK then decode_callback_field env wt f p
      else dec_error ''invalid field type'')"

section \<open>Extensions\<close>

definition default_extension_decoder ::
  "('s, 'w) dec_env \<Rightarrow> nat \<Rightarrow> ('s, 'w) sub_decoders \<Rightarrow> pb_field \<Rightarrow> addr \<Rightarrow> u32 \<Rightarrow> wire_type \<Rightarrow> ('s, 'w) dec" where
  "default_extension_decoder env d sub f x t wt ds st =
     (if ucast (f_tag f) \<noteq> t then dec_ok ds st
      else do {
        p \<leftarrow> ext_data (dmem ds) f x;
        dec_sto (x + 12) [1] (decode_field env d sub wt f p (x + 12)) ds st })"

partial_function (option) decode_extensions ::
  "('s, 'w) dec_env \<Rightarrow> nat \<Rightarrow> ('s, 'w) sub_decoders \<Rightarrow> size_t \<Rightarrow> u32 \<Rightarrow> wire_type \<Rightarrow> addr \<Rightarrow> ('s, 'w) dec" where
  "decode_extensions env d sub left t wt x ds st =
     (if x \<noteq> 0 \<and> left = bytes_left st
      then do {
        tp \<leftarrow> ld_ptr (dmem ds) x;
        ty \<leftarrow> dec_ext_types env tp;
        (ok, ds1, st1) \<leftarrow> (case et_decode ty of
            Some fn \<Rightarrow> fn x t wt ds st
          | None \<Rightarrow> default_extension_decoder env d sub (et_darg ty) x t wt ds st);
        if \<not> ok then Some (False, ds1, st1)
        else do { nxt \<leftarrow> ld_ptr (dmem ds1) (x + 8); decode_extensions env d sub left t wt nxt ds1 st1 } }
      else Some (True, ds, st))"

definition decode_extension :: "('s, 'w) dec_env \<Rightarrow> nat \<Rightarrow> ('s, 'w) sub_decoders \<Rightarrow> u32 \<Rightarrow> wire_type \<Rightarrow> addr \<Rightarrow> ('s, 'w) dec" where
  "decode_extension env d sub t wt p ds st = do {
     x \<leftarrow> ld_ptr (dmem ds) p;
     decode_extensions env d sub (bytes_left st) t wt x ds st }"

definition find_extension_field :: "field_iter \<Rightarrow> (bool \<times> field_iter) c" where
  "find_extension_field it = iter_search (\<lambda>f. ltype f = PB_LTYPE_EXTENSION) (pos it) it"

section \<open>Messages\<close>

definition PB_MAX_REQUIRED_FIELDS :: nat where "PB_MAX_REQUIRED_FIELDS = 64"

text \<open>\<open>fields_seen[i >> 5] |= 1 << (i & 31)\<close>\<close>

definition mark_seen :: "nat \<Rightarrow> u32 list \<Rightarrow> u32 list c" where
  "mark_seen i seen =
     (if i div 32 < length seen
      then Some (seen[i div 32 := seen ! (i div 32) OR push_bit (i mod 32) 1]) else None)"

record loop_state =
  l_iter :: field_iter
  l_seen :: "u32 list"
  l_ext :: u32

text \<open>A tag no field has: the extensions are tried, and the value is skipped otherwise.\<close>

definition unknown_field ::
  "('s, 'w) dec_env \<Rightarrow> nat \<Rightarrow> ('s, 'w) sub_decoders \<Rightarrow> u32 \<Rightarrow> wire_type \<Rightarrow> loop_state \<Rightarrow> 'w dst \<Rightarrow> 's istream \<Rightarrow>
     (bool \<times> loop_state \<times> 'w dst \<times> 's istream) c" where
  "unknown_field env d sub t wt ls ds st =
     (let skip = (\<lambda>ls ds st. do {
        (ok, ds1, st1) \<leftarrow> dec_with (pb_skip_field wt) (\<lambda>_. dec_ok) ds st; Some (ok, ls, ds1, st1) }) in
      if t < l_ext ls then skip ls ds st
      else do {
        (found, it) \<leftarrow> find_extension_field (l_iter ls);
        f \<leftarrow> at_pos it;
        let ext = (if found then ucast (f_tag f) else - 1);
        let ls1 = ls\<lparr>l_iter := it, l_ext := ext\<rparr>;
        if t < ext then skip ls1 ds st
        else do {
          (ok, ds1, st1) \<leftarrow> decode_extension env d sub t wt (pData it) ds st;
          if \<not> ok then Some (False, ls1, ds1, st1)
          else if bytes_left st1 \<noteq> bytes_left st then Some (True, ls1, ds1, st1)
          else skip ls1 ds1 st1 } })"

definition known_field ::
  "('s, 'w) dec_env \<Rightarrow> nat \<Rightarrow> ('s, 'w) sub_decoders \<Rightarrow> wire_type \<Rightarrow> loop_state \<Rightarrow> 'w dst \<Rightarrow> 's istream \<Rightarrow>
     (bool \<times> loop_state \<times> 'w dst \<times> 's istream) c" where
  "known_field env d sub wt ls ds st = do {
     f \<leftarrow> at_pos (l_iter ls);
     let i = required_field_index (l_iter ls);
     seen \<leftarrow> (if htype f = PB_HTYPE_REQUIRED \<and> i < PB_MAX_REQUIRED_FIELDS then mark_seen i (l_seen ls) else Some (l_seen ls));
     (ok, ds1, st1) \<leftarrow> decode_field env d sub wt f (pData (l_iter ls)) (pSize (l_iter ls)) ds st;
     Some (ok, ls\<lparr>l_seen := seen\<rparr>, ds1, st1) }"

partial_function (option) decode_loop ::
  "('s, 'w) dec_env \<Rightarrow> nat \<Rightarrow> ('s, 'w) sub_decoders \<Rightarrow> loop_state \<Rightarrow> 'w dst \<Rightarrow> 's istream \<Rightarrow>
     (bool \<times> loop_state \<times> 'w dst \<times> 's istream) c" where
  "decode_loop env d sub ls ds st =
     (if bytes_left st = 0 then Some (True, ls, ds, st)
      else do {
        (r, eof, st1) \<leftarrow> pb_decode_tag st;
        (case r of
           None \<Rightarrow> Some (eof, ls, ds, st1)
         | Some (wt, t) \<Rightarrow> do {
             (found, it) \<leftarrow> pb_field_iter_find (l_iter ls) t;
             (ok, ls2, ds2, st2) \<leftarrow>
               (if found then known_field env d sub wt (ls\<lparr>l_iter := it\<rparr>) ds st1
                else unknown_field env d sub t wt (ls\<lparr>l_iter := it\<rparr>) ds st1);
             if \<not> ok then Some (False, ls2, ds2, st2) else decode_loop env d sub ls2 ds2 st2 }) })"

text \<open>
  \<open>do { count = iter.required_field_index; last_type = iter.pos->type; } while (next)\<close>
\<close>

partial_function (option) count_required :: "field_iter \<Rightarrow> (nat \<times> byte \<times> field_iter) c" where
  "count_required it = do {
     f \<leftarrow> at_pos it;
     (more, it1) \<leftarrow> pb_field_iter_next it;
     if more then count_required it1 else Some (required_field_index it, f_type f, it1) }"

definition required_count :: "field_iter \<Rightarrow> nat c" where
  "required_count it = do {
     (n, last_type, it1) \<leftarrow> count_required it;
     f \<leftarrow> at_pos it1;
     let n1 = (if PB_HTYPE last_type = PB_HTYPE_REQUIRED \<and> f_tag f \<noteq> 0 then n + 1 else n);
     Some (min n1 PB_MAX_REQUIRED_FIELDS) }"

definition all_seen :: "nat \<Rightarrow> u32 list \<Rightarrow> bool c" where
  "all_seen n seen =
     (if n div 32 \<le> length seen \<and> (n mod 32 \<noteq> 0 \<longrightarrow> n div 32 < length seen)
      then Some (list_all (\<lambda>i. seen ! i = - 1) [0..<n div 32] \<and>
        (n mod 32 \<noteq> 0 \<longrightarrow> seen ! (n div 32) = drop_bit (32 - n mod 32) (- 1)))
      else None)"

definition noinit_with :: "('s, 'w) dec_env \<Rightarrow> nat \<Rightarrow> ('s, 'w) sub_decoders \<Rightarrow> pb_field list \<Rightarrow> addr \<Rightarrow> ('s, 'w) dec" where
  "noinit_with env d sub flds dest ds st = do {
     (_, it) \<leftarrow> pb_field_iter_begin flds dest;
     (ok, ls, ds1, st1) \<leftarrow> decode_loop env d sub \<lparr>l_iter = it, l_seen = [0, 0], l_ext = 0\<rparr> ds st;
     if \<not> ok then Some (False, ds1, st1)
     else do {
       n \<leftarrow> required_count (l_iter ls);
       seen \<leftarrow> all_seen n (l_seen ls);
       if seen then Some (True, ds1, st1) else dec_error ''missing required field'' ds1 st1 } }"

definition decode_with :: "('s, 'w) dec_env \<Rightarrow> nat \<Rightarrow> (pb_field list \<Rightarrow> addr \<Rightarrow> ('s, 'w) dec) \<Rightarrow> pb_field list \<Rightarrow> addr \<Rightarrow> ('s, 'w) dec" where
  "decode_with env d noinit flds dest ds st = do {
     m \<leftarrow> pb_message_set_to_defaults (\<lambda>t. map_option et_darg (dec_ext_types env t)) d flds dest (dmem ds);
     noinit flds dest (ds\<lparr>dmem := m\<rparr>) st }"

text \<open>\<open>pb_decode_noinit\<close> and \<open>pb_decode\<close> for messages nested less than \<open>d\<close> deep.\<close>

primrec pb_decode_noinit :: "('s, 'w) dec_env \<Rightarrow> nat \<Rightarrow> pb_field list \<Rightarrow> addr \<Rightarrow> ('s, 'w) dec" where
  "pb_decode_noinit env 0 = (\<lambda>flds dest ds st. None)"
| "pb_decode_noinit env (Suc d) = noinit_with env d
     \<lparr>sub_decode = decode_with env d (pb_decode_noinit env d), sub_noinit = pb_decode_noinit env d\<rparr>"

definition pb_decode :: "('s, 'w) dec_env \<Rightarrow> nat \<Rightarrow> pb_field list \<Rightarrow> addr \<Rightarrow> ('s, 'w) dec" where
  "pb_decode env d = decode_with env d (pb_decode_noinit env d)"

definition pb_decode_delimited_noinit :: "('s, 'w) dec_env \<Rightarrow> nat \<Rightarrow> pb_field list \<Rightarrow> addr \<Rightarrow> ('s, 'w) dec" where
  "pb_decode_delimited_noinit env d flds dest = dec_substream (pb_decode_noinit env d flds dest)"

definition pb_decode_delimited :: "('s, 'w) dec_env \<Rightarrow> nat \<Rightarrow> pb_field list \<Rightarrow> addr \<Rightarrow> ('s, 'w) dec" where
  "pb_decode_delimited env d flds dest = dec_substream (pb_decode env d flds dest)"

definition pb_decode_nullterminated :: "('s, 'w) dec_env \<Rightarrow> nat \<Rightarrow> pb_field list \<Rightarrow> addr \<Rightarrow> ('s, 'w) dec" where
  "pb_decode_nullterminated env d = pb_decode env d"

end
