(* ===== verification/PbDecodeSpec.thy ===== *)
theory PbDecodeSpec
  imports PbDecode
begin

text \<open>
  The decoder returns on every input: whatever bytes a buffer holds, decoding them into a struct
  whose descriptors fit the memory ends, reads only inside the buffer and writes only inside the
  memory. \<open>safe_dec\<close> is the contract all decoding functions keep, \<open>valid_message\<close> says that a
  descriptor array fits the memory.
\<close>

section \<open>The contract\<close>

text \<open>What a stream on \<open>xs @ rest\<close> that may read \<open>xs\<close> can become.\<close>

definition within :: "byte list \<Rightarrow> byte list \<Rightarrow> 's istream \<Rightarrow> bool" where
  "within xs rest st \<longleftrightarrow>
     (\<exists>pre zs tl e. st = buf_at zs tl e \<and> xs @ rest = pre @ zs @ tl \<and> length pre + length zs \<le> length xs)"

lemma withinE:
  assumes "within xs rest (st :: 's istream)"
  obtains zs tl e where "st = buf_at zs tl e" "length zs \<le> length xs"
    "\<And>st' :: 's istream. within zs tl st' \<Longrightarrow> within xs rest st'"
proof -
  obtain pre zs tl e where w: "st = buf_at zs tl e" "xs @ rest = pre @ zs @ tl" "length pre + length zs \<le> length xs"
    using assms by (auto simp: within_def)
  have "within xs rest st'" if z: "within zs tl st'" for st' :: "'s istream"
  proof -
    obtain pre' zs' tl' e' where "st' = buf_at zs' tl' e'" "zs @ tl = pre' @ zs' @ tl'" "length pre' + length zs' \<le> length zs"
      using z by (auto simp: within_def)
    then show ?thesis unfolding within_def using w
      by (intro exI [of _ "pre @ pre'"] exI [of _ zs'] exI [of _ tl'] exI [of _ e']) auto
  qed
  then show thesis using w by (intro that [of zs tl e]) auto
qed

lemma within_drop [intro]: "within xs rest (buf_at (drop n xs) rest e)"
  unfolding within_def by (intro exI [of _ "take n xs"] exI [of _ "drop n xs"] exI [of _ rest] exI [of _ e]) auto

lemma within_refl [intro]: "within xs rest (buf_at xs rest e)"
  using within_drop [of xs rest 0] by simp

lemma within_left: "within xs rest (buf_at zs ts e :: 's istream) \<Longrightarrow> fits xs \<Longrightarrow> fits zs \<Longrightarrow> length zs \<le> length xs"
proof -
  assume w: "within xs rest (buf_at zs ts e :: 's istream)" and f: "fits xs" "fits zs"
  obtain zs' ts' e' where z: "(buf_at zs ts e :: 's istream) = buf_at zs' ts' e'" "length zs' \<le> length xs"
    using withinE [OF w] by metis
  then have "zs = zs'" using f by (intro buf_at_inj [THEN iffD1, THEN conjunct1, OF f(2) _ z(1)]) simp
  then show ?thesis using z(2) by simp
qed

definition safe_dec :: "nat \<Rightarrow> ('s, 'w) dec \<Rightarrow> bool" where
  "safe_dec L m \<longleftrightarrow> (\<forall>ds xs rest e. length (dmem ds) = L \<longrightarrow> fits xs \<longrightarrow>
     (\<exists>ok ds' st'. m ds (buf_at xs rest e) = Some (ok, ds', st') \<and> length (dmem ds') = L \<and> within xs rest st'))"

lemma safe_decI:
  "(\<And>ds xs rest e. length (dmem ds) = L \<Longrightarrow> fits xs \<Longrightarrow>
     \<exists>ok ds' st'. m ds (buf_at xs rest e) = Some (ok, ds', st') \<and> length (dmem ds') = L \<and> within xs rest st') \<Longrightarrow> safe_dec L m"
  by (simp add: safe_dec_def)

lemma safe_decE:
  assumes "safe_dec L m" "length (dmem ds) = L" "fits xs"
  obtains ok ds' st' where "m ds (buf_at xs rest e) = Some (ok, ds', st')" "length (dmem ds') = L" "within xs rest st'"
  using assms unfolding safe_dec_def by blast

named_theorems safe_intros \<open>decoders that keep the contract\<close>

lemma safe_ok [safe_intros]: "safe_dec L dec_ok"
  by (rule safe_decI) (auto simp: dec_ok_def)

lemma safe_error [safe_intros]: "safe_dec L (dec_error msg)"
  by (rule safe_decI) (auto simp: dec_error_def set_ierr_at)

lemma safe_result [safe_intros]: "safe_dec L (\<lambda>ds st. Some (ok, ds, st))"
  by (rule safe_decI) auto

text \<open>Continuing on a stream that is within the first one.\<close>

lemma safe_continue:
  assumes "safe_dec L m" "length (dmem ds) = L" "fits xs" "within xs rest (st :: 's istream)"
  obtains ok ds' st' where "m ds st = Some (ok, ds', st')" "length (dmem ds') = L" "within xs rest st'"
proof -
  obtain zs ts e where z: "st = buf_at zs ts e" "length zs \<le> length xs" "\<And>st' :: 's istream. within zs ts st' \<Longrightarrow> within xs rest st'"
    using withinE [OF assms(4)] by metis
  have "fits zs" using z(2) assms(3) by simp
  then obtain ok ds' st' where "m ds (buf_at zs ts e) = Some (ok, ds', st')" "length (dmem ds') = L" "within zs ts st'"
    using safe_decE [OF assms(1,2)] by metis
  then show thesis using that z(1,3) by simp
qed

lemma safe_with [safe_intros]:
  assumes "in_bounds m" "\<And>x. safe_dec L (k x)"
  shows "safe_dec L (dec_with m k)"
proof (rule safe_decI, goal_cases)
  case (1 ds xs rest e)
  note l = 1(1) and f = 1(2)
  obtain r n e' where m: "m (buf_at xs rest e) = Some (r, buf_at (drop n xs) rest e')"
    using in_boundsE [OF assms(1) f] by metis
  show ?case
  proof (cases r)
    case None
    then show ?thesis using m l by (auto simp: dec_with_def)
  next
    case (Some x)
    obtain ok ds' st' where "k x ds (buf_at (drop n xs) rest e') = Some (ok, ds', st')" "length (dmem ds') = L" "within xs rest st'"
      using safe_continue [OF assms(2) l f within_drop] by metis
    then show ?thesis using m Some by (auto simp: dec_with_def)
  qed
qed

lemma sto_Some: "0 < a \<Longrightarrow> nat a + length bs \<le> length m \<Longrightarrow> \<exists>m'. sto m a bs = Some m' \<and> length m' = length m"
  by (auto simp: sto_def mem_store_def)

lemma ld_Some_ex: "0 < a \<Longrightarrow> 0 \<le> n \<Longrightarrow> nat a + nat n \<le> length m \<Longrightarrow> \<exists>bs. ld m a n = Some bs"
  by (simp add: ld_def mem_load_def)

lemma safe_sto [safe_intros]:
  assumes "0 < a" "nat a + length bs \<le> L" "safe_dec L k"
  shows "safe_dec L (dec_sto a bs k)"
proof (rule safe_decI, goal_cases)
  case (1 ds xs rest e)
  note l = 1(1) and f = 1(2)
  obtain m' where m: "sto (dmem ds) a bs = Some m'" "length m' = L" using sto_Some [OF assms(1)] assms(2) l by metis
  then show ?case
    using safe_decE [OF assms(3) _ f, of "ds\<lparr>dmem := m'\<rparr>" rest e] by (fastforce simp: dec_sto_def)
qed

lemma ld_byte_Some: "0 < a \<Longrightarrow> nat a < length m \<Longrightarrow> \<exists>b. ld_byte m a = Some b"
  using ld_Some_ex [of a 1 m] by (auto simp: ld_byte_def)

lemma safe_ld [safe_intros]:
  assumes "0 < a" "nat a < L" "\<And>b. safe_dec L (k b)"
  shows "safe_dec L (dec_ld a k)"
proof (rule safe_decI, goal_cases)
  case (1 ds xs rest e)
  note l = 1(1) and f = 1(2)
  obtain b where "ld_byte (dmem ds) a = Some b" using ld_byte_Some [OF assms(1)] assms(2) l by metis
  then show ?case
    using safe_decE [OF assms(3) l f] by (simp add: dec_ld_def) metis
qed

section \<open>Substreams\<close>

lemma split_stream:
  assumes "unat sz \<le> length ys"
  shows "(buf_at ys rest e)\<lparr>bytes_left := sz\<rparr> = buf_at (take (unat sz) ys) (drop (unat sz) ys @ rest) e"
    and "(buf_at ys rest e)\<lparr>bytes_left := bytes_left (buf_at ys rest e) - sz\<rparr> =
      buf_at (take (length ys - unat sz) ys) (drop (length ys - unat sz) ys @ rest) e"
  using assms by (simp_all add: buf_at_def min_absorb1 of_nat_diff)

lemma make_substream_at:
  assumes "fits xs"
  obtains (fail) n e' where "pb_make_string_substream (buf_at xs rest e :: 's istream) = Some (None, buf_at (drop n xs) rest e')"
  | (sub) n k e' where "k \<le> length (drop n xs)"
      "pb_make_string_substream (buf_at xs rest e :: 's istream) =
         Some (Some (buf_at (take k (drop n xs)) (drop k (drop n xs) @ rest) e'),
               buf_at (take (length (drop n xs) - k) (drop n xs)) (drop (length (drop n xs) - k) (drop n xs) @ rest) e')"
proof -
  obtain r n e1 where m: "pb_decode_varint32 (buf_at xs rest e :: 's istream) = Some (r, buf_at (drop n xs) rest e1)" "fits (drop n xs)"
    using in_boundsE [OF in_bounds_varint32 assms] by metis
  let ?ys = "drop n xs"
  show thesis
  proof (cases r)
    case None
    then show thesis using m fail by (simp add: pb_make_string_substream_def rd_bind_def)
  next
    case (Some sz)
    have left: "bytes_left (buf_at ?ys rest e1 :: 's istream) < sz \<longleftrightarrow> length ?ys < unat sz"
      using m(2) by (simp add: buf_at_def word_less_nat_alt of_nat_u32)
    show thesis
    proof (cases "length ?ys < unat sz")
      case True
      then have "pb_make_string_substream (buf_at xs rest e :: 's istream) =
          Some (None, buf_at ?ys rest (case e1 of None \<Rightarrow> Some ''parent stream too short'' | Some m \<Rightarrow> Some m))"
        using m(1) Some left by (simp add: pb_make_string_substream_def rd_bind_def rd_error_def set_ierr_at)
      then show thesis by (rule fail)
    next
      case False
      then have "unat sz \<le> length ?ys" by simp
      then have "pb_make_string_substream (buf_at xs rest e :: 's istream) =
         Some (Some (buf_at (take (unat sz) ?ys) (drop (unat sz) ?ys @ rest) e1),
               buf_at (take (length ?ys - unat sz) ?ys) (drop (length ?ys - unat sz) ?ys @ rest) e1)"
        using m(1) Some left False
        by (simp add: pb_make_string_substream_def rd_bind_def split_stream del: length_drop)
      then show thesis using False by (intro sub [of "unat sz" n e1]) auto
    qed
  qed
qed

lemma close_substream_at:
  assumes "fits zs" "k + length zs \<le> length ts + length zs" "k < 2 ^ 32"
  shows "pb_close_string_substream (buf_at zs ts e1) (buf_at ys rest e :: 's istream) =
    Some (Some (), (buf_at ys rest e)\<lparr>source := Buf ts, ierr := e1\<rparr>)"
proof (cases zs)
  case Nil
  then show ?thesis by (simp add: pb_close_string_substream_def buf_at_def)
next
  case (Cons z zs')
  have "(of_nat (length zs) :: u32) \<noteq> 0" using assms(1) Cons of_nat_u32 [of "length zs"] by auto
  moreover have "pb_read True (of_nat (length zs)) (buf_at (zs @ []) ts e1 :: 's istream) = Some (Some zs, buf_at [] ts e1)"
    using assms(1) by (intro pb_read_exact) auto
  ultimately show ?thesis by (simp add: pb_close_string_substream_def) (simp add: buf_at_def)
qed

lemma close_at:
  assumes "fits zs" "k \<le> length ts" "length ys = k" "fits ys"
  shows "pb_close_string_substream (buf_at zs ts e1) (buf_at ys rest e :: 's istream) = Some (Some (), buf_at (take k ts) (drop k ts) e1)"
  using close_substream_at [of zs k ts e1 ys rest e] assms
  by (simp add: buf_at_def min_absorb1)

lemma substream_within:
  assumes "fits xs" "k \<le> length (drop n xs)" "within (take k (drop n xs)) (drop k (drop n xs) @ rest) (sub1 :: 's istream)"
  shows "\<exists>st2. pb_close_string_substream sub1
      (buf_at (take (length (drop n xs) - k) (drop n xs)) (drop (length (drop n xs) - k) (drop n xs) @ rest) e :: 's istream) = Some (Some (), st2) \<and>
    within xs rest st2"
proof -
  let ?ys = "drop n xs"
  let ?m = "length ?ys - k"
  obtain pre zs ts e1 where w: "sub1 = buf_at zs ts e1" "take k ?ys @ drop k ?ys @ rest = pre @ zs @ ts"
    "length pre + length zs \<le> length (take k ?ys)"
    using assms(3) by (auto simp: within_def)
  have len: "length ?ys + length rest = length pre + length zs + length ts"
    using arg_cong [OF w(2), of length] by simp
  have pz: "length pre + length zs \<le> k" using w(3) by simp
  then have m: "?m \<le> length ts" using len assms(2) by linarith
  have "fits zs" using pz assms(1,2) by simp
  then have "pb_close_string_substream sub1 (buf_at (take ?m ?ys) (drop ?m ?ys @ rest) e :: 's istream) =
      Some (Some (), buf_at (take ?m ts) (drop ?m ts) e1)"
    unfolding w(1) using assms(1) by (intro close_at m) (auto simp: min_absorb1)
  moreover have "within xs rest (buf_at (take ?m ts) (drop ?m ts) e1 :: 's istream)"
    unfolding within_def
  proof (intro exI conjI)
    show "xs @ rest = (take n xs @ pre @ zs) @ take ?m ts @ drop ?m ts"
      using w(2) by (metis append.assoc append_take_drop_id)
    show "length (take n xs @ pre @ zs) + length (take ?m ts) \<le> length xs"
      using pz m assms(2) by simp
  qed simp
  ultimately show ?thesis by blast
qed

text \<open>
  A decoding of a substream: what follows closes the substream, or leaves the parent as it is.
\<close>

lemma within_split: "within xs rest (buf_at (take j (drop n xs)) (drop j (drop n xs) @ rest) e)"
  unfolding within_def
proof (intro exI conjI)
  show "xs @ rest = take n xs @ take j (drop n xs) @ drop j (drop n xs) @ rest"
    by (metis append.assoc append_take_drop_id)
  show "length (take n xs) + length (take j (drop n xs)) \<le> length xs" by auto
qed (rule refl)

definition closes :: "nat \<Rightarrow> 's istream \<Rightarrow> ('s, 'w) dec \<Rightarrow> bool" where
  "closes L sub1 k \<longleftrightarrow> safe_dec L k \<or> (\<exists>fin. safe_dec L fin \<and> k = dec_with (pb_close_string_substream sub1) (\<lambda>_. fin))"

lemma closesI [intro]:
  "safe_dec L k \<Longrightarrow> closes L sub1 k"
  "safe_dec L fin \<Longrightarrow> closes L sub1 (dec_with (pb_close_string_substream sub1) (\<lambda>_. fin))"
  by (auto simp: closes_def)

lemma safe_substream_step:
  assumes body: "safe_dec L body" and k: "\<And>ok sub1. closes L sub1 (k ok sub1)"
  shows "safe_dec L (dec_with pb_make_string_substream (\<lambda>sub ds st. do {
       (status, ds1, sub1) \<leftarrow> body ds sub; k status sub1 ds1 (st :: 's istream) }))"
proof (rule safe_decI, goal_cases)
  case (1 ds xs rest e)
  note l = 1(1) and f = 1(2)
  show ?case (is ?G)
  proof (cases rule: make_substream_at [OF f, of rest e, where ?'s = 's])
    case (1 n e')
    then show ?G using l by (auto simp: dec_with_def)
  next
    case (2 n m e')
    let ?ys = "drop n xs"
    let ?st = "buf_at (take (length ?ys - m) ?ys) (drop (length ?ys - m) ?ys @ rest) e' :: 's istream"
    have fm: "fits (take m ?ys)" using f by simp
    obtain ok ds' sub1 where b: "body ds (buf_at (take m ?ys) (drop m ?ys @ rest) e') = Some (ok, ds', sub1)"
      "length (dmem ds') = L" "within (take m ?ys) (drop m ?ys @ rest) sub1"
      using safe_decE [OF body l fm] by blast
    have "\<exists>ok' ds2 st'. k ok sub1 ds' ?st = Some (ok', ds2, st') \<and> length (dmem ds2) = L \<and> within xs rest st'"
      using k [of sub1 ok] unfolding closes_def
    proof
      assume "safe_dec L (k ok sub1)"
      then show ?thesis using safe_continue [OF _ b(2) f within_split] by metis
    next
      assume "\<exists>fin. safe_dec L fin \<and> k ok sub1 = dec_with (pb_close_string_substream sub1) (\<lambda>_. fin)"
      then obtain fin where fin: "safe_dec L fin" "k ok sub1 = dec_with (pb_close_string_substream sub1) (\<lambda>_. fin)" by auto
      obtain st2 where c: "pb_close_string_substream sub1 ?st = Some (Some (), st2)" "within xs rest st2"
        using substream_within [OF f 2(1) b(3)] by blast
      obtain ok' ds2 st' where "fin ds' st2 = Some (ok', ds2, st')" "length (dmem ds2) = L" "within xs rest st'"
        using safe_continue [OF fin(1) b(2) f c(2)] by metis
      then show ?thesis using c(1) fin(2) by (simp add: dec_with_def)
    qed
    then show ?G using 2(2) b(1) by (simp add: dec_with_def)
  qed
qed

section \<open>Field decoders\<close>

lemma le_word_length [simp]: "length (le_word n v) = n"
  by (simp add: le_word_def)

lemma safe_sto_checked [safe_intros]: "0 < a \<Longrightarrow> nat a + n \<le> L \<Longrightarrow> safe_dec L (sto_checked a n c v)"
  unfolding sto_checked_def by (intro safe_intros) (simp_all add: safe_intros)

lemma safe_varint:
  assumes "0 < a" "nat a + unat (data_size f) \<le> L"
  shows "safe_dec L (pb_dec_varint f a)" "safe_dec L (pb_dec_uvarint f a)" "safe_dec L (pb_dec_svarint f a)"
  using assms unfolding pb_dec_varint_def pb_dec_uvarint_def pb_dec_svarint_def Let_def
  by (intro safe_intros bounds_intros; auto intro!: safe_intros)+

lemma safe_fixed:
  "0 < a \<Longrightarrow> nat a + 4 \<le> L \<Longrightarrow> safe_dec L (pb_dec_fixed32 a)"
  "0 < a \<Longrightarrow> nat a + 8 \<le> L \<Longrightarrow> safe_dec L (pb_dec_fixed64 a)"
  unfolding pb_dec_fixed32_def pb_dec_fixed64_def
  by (intro safe_intros bounds_intros; auto intro!: safe_intros)+

lemma safe_read:
  fixes k :: "byte list \<Rightarrow> ('s, 'w) dec"
  assumes "\<And>bs. length bs = unat n \<Longrightarrow> safe_dec L (k bs)"
  shows "safe_dec L (dec_with (pb_read nul n) k)"
proof (rule safe_decI, goal_cases)
  case (1 ds xs rest e)
  note l = 1(1) and f = 1(2)
  show ?case
  proof (cases "unat n \<le> length xs")
    case True
    then have "safe_dec L (k (take (unat n) xs))" using assms by simp
    then obtain ok ds' st' where "k (take (unat n) xs) ds (buf_at (drop (unat n) xs) rest e) = Some (ok, ds', st')"
      "length (dmem ds') = L" "within xs rest st'"
      using safe_continue [OF _ l f within_drop] by metis
    then show ?thesis using True f by (simp add: dec_with_def pb_read_at)
  next
    case False
    then show ?thesis using l f by (auto simp: dec_with_def pb_read_at rd_error_def set_ierr_at)
  qed
qed

lemma unat_plus_one: "\<not> sz + 1 < sz \<Longrightarrow> unat (sz + 1) = unat sz + 1" for sz :: u32
proof -
  assume "\<not> sz + 1 < sz"
  then have "sz + 1 \<noteq> 0" by (metis add_0 word_neq_0_conv zero_neq_one)
  then show ?thesis by (metis unatSuc add.commute plus_1_eq_Suc)
qed

lemma unat_data_size [simp]: "unat (ucast (data_size f) :: u32) = unat (data_size f)"
proof -
  have "unat (data_size f) < 2 ^ 32" using unsigned_less [of "data_size f", where ?'a = nat] by simp
  then show ?thesis by (simp add: unsigned_ucast_eq take_bit_nat_eq_self)
qed

lemma safe_bytes:
  assumes "0 < a" "nat a + unat (data_size f) \<le> L"
  shows "safe_dec L (pb_dec_bytes f a)"
proof -
  have "safe_dec L (dec_sto a [ucast sz] (dec_with (pb_read False sz) (\<lambda>bs. dec_sto (a + 1) bs dec_ok)))"
    if sz: "\<not> sz + 1 < sz" "\<not> ucast (data_size f) < sz + 1" for sz :: u32
  proof -
    have "unat sz + 1 \<le> unat (data_size f)" using sz unat_plus_one [OF sz(1)] by (simp add: word_less_nat_alt)
    then show ?thesis using assms by (intro safe_intros safe_read) auto
  qed
  then show ?thesis unfolding pb_dec_bytes_def by (intro safe_intros bounds_intros) (auto intro!: safe_error)
qed

lemma safe_string:
  assumes "0 < a" "nat a + unat (data_size f) \<le> L"
  shows "safe_dec L (pb_dec_string f a :: ('s, 'w) dec)"
proof -
  let ?k = "\<lambda>(sz :: u32) ds st. case pb_read False sz st of
         None \<Rightarrow> None
       | Some (None, st1) \<Rightarrow> dec_sto (a + uint sz) [0] (\<lambda>ds st. Some (False, ds, st)) ds st1
       | Some (Some bs, st1) \<Rightarrow> dec_sto a bs (dec_sto (a + uint sz) [0] dec_ok) ds st1"
  have "safe_dec L (?k sz :: ('s, 'w) dec)" if sz: "\<not> sz + 1 < sz" "\<not> ucast (data_size f) < sz + 1" for sz :: u32
  proof (rule safe_decI, goal_cases)
    case (1 ds xs rest e)
    note l = 1(1) and f = 1(2)
    have n: "unat sz + 1 \<le> unat (data_size f)" using sz unat_plus_one [OF sz(1)] by (simp add: word_less_nat_alt)
    have a: "nat (a + uint sz) = nat a + unat sz" "0 < a + uint sz"
      using assms(1) by (simp add: nat_add_distrib) (rule add_pos_nonneg [OF assms(1) uint_ge_0])
    have zero: "safe_dec L (dec_sto (a + uint sz) [0] m)" if "safe_dec L m" for m :: "('s, 'w) dec"
      using that n a assms(2) by (intro safe_sto) auto
    show ?case
    proof (cases "unat sz \<le> length xs")
      case True
      have t: "safe_dec L (dec_sto a (take (unat sz) xs) (dec_sto (a + uint sz) [0] dec_ok) :: ('s, 'w) dec)"
        using True n assms by (intro safe_sto zero safe_ok) auto
      obtain ok ds' st' where
        "dec_sto a (take (unat sz) xs) (dec_sto (a + uint sz) [0] dec_ok) ds (buf_at (drop (unat sz) xs) rest e :: 's istream) = Some (ok, ds', st')"
        "length (dmem ds') = L" "within xs rest st'"
        by (rule safe_continue [OF t l f within_drop [of xs rest "unat sz" e]]) blast
      then show ?thesis using True f by (simp add: pb_read_at)
    next
      case False
      have t: "safe_dec L (dec_sto (a + uint sz) [0] (\<lambda>ds st. Some (False, ds, st)) :: ('s, 'w) dec)"
        by (intro zero safe_result)
      obtain ok ds' st' where "dec_sto (a + uint sz) [0] (\<lambda>ds st. Some (False, ds, st)) ds
          (buf_at xs rest (case e of None \<Rightarrow> Some ''end-of-stream'' | Some m \<Rightarrow> Some m) :: 's istream) = Some (ok, ds', st')"
        "length (dmem ds') = L" "within xs rest st'"
        by (rule safe_decE [OF t l f]) blast
      then show ?thesis using False f by (simp add: pb_read_at rd_error_def set_ierr_at)
    qed
  qed
  then show ?thesis unfolding pb_dec_string_def by (intro safe_with bounds_intros) (auto intro!: safe_error)
qed

lemma safe_fixed_length:
  assumes "0 < a" "nat a + unat (data_size f) \<le> L"
  shows "safe_dec L (pb_dec_fixed_length_bytes f a)"
  unfolding pb_dec_fixed_length_bytes_def
proof (intro safe_with bounds_intros, goal_cases)
  case (1 sz)
  have "safe_dec L (dec_with (pb_read False (ucast (data_size f))) (\<lambda>bs. dec_sto a bs dec_ok))"
    using assms by (intro safe_read safe_intros) auto
  moreover have "safe_dec L (dec_sto a (replicate (unat (data_size f)) 0) dec_ok)"
    using assms by (intro safe_intros) auto
  ultimately show ?case by (auto intro!: safe_error)
qed

lemma safe_make_only:
  assumes "safe_dec L m"
  shows "safe_dec L (dec_with pb_make_string_substream (\<lambda>_. m) :: ('s, 'w) dec)"
proof (rule safe_decI, goal_cases)
  case (1 ds xs rest e)
  note l = 1(1) and f = 1(2)
  show ?case (is ?G)
  proof (cases rule: make_substream_at [OF f, of rest e, where ?'s = 's])
    case (1 n e')
    then show ?G using l by (auto simp: dec_with_def)
  next
    case (2 n k e')
    have w: "within xs rest (buf_at (take (length (drop n xs) - k) (drop n xs)) (drop (length (drop n xs) - k) (drop n xs) @ rest) e' :: 's istream)"
      by (rule within_split)
    obtain ok ds' st' where "m ds (buf_at (take (length (drop n xs) - k) (drop n xs)) (drop (length (drop n xs) - k) (drop n xs) @ rest) e') = Some (ok, ds', st')"
      "length (dmem ds') = L" "within xs rest st'"
      using safe_continue [OF assms l f w] by metis
    then show ?G using 2(2) by (simp add: dec_with_def)
  qed
qed

lemma safe_dec_substream:
  assumes "safe_dec L body"
  shows "safe_dec L (dec_substream body :: ('s, 'w) dec)"
  unfolding dec_substream_def by (intro safe_substream_step assms closesI safe_result)

text \<open>What the memory must offer for one item of a field at \<open>a\<close>.\<close>

definition item_ok :: "nat \<Rightarrow> (pb_field list \<Rightarrow> addr \<Rightarrow> bool) \<Rightarrow> pb_field \<Rightarrow> addr \<Rightarrow> bool" where
  "item_ok L sub f a \<longleftrightarrow>
     0 < a \<and> nat a + unat (data_size f) \<le> L \<and> ltype f < 10 \<and> ltype f \<noteq> PB_LTYPE_EXTENSION \<and>
     (ltype f = PB_LTYPE_FIXED32 \<longrightarrow> 4 \<le> data_size f) \<and> (ltype f = PB_LTYPE_FIXED64 \<longrightarrow> 8 \<le> data_size f) \<and>
     (case f_ptr f of
        Submsg flds \<Rightarrow> ltype f = PB_LTYPE_SUBMESSAGE \<and> sub flds a
      | NULL \<Rightarrow> ltype f \<noteq> PB_LTYPE_SUBMESSAGE
      | Default_value v \<Rightarrow> ltype f \<noteq> PB_LTYPE_SUBMESSAGE \<and> unat (data_size f) \<le> length v)"

definition safe_sub :: "nat \<Rightarrow> (pb_field list \<Rightarrow> addr \<Rightarrow> bool) \<Rightarrow> ('s, 'w) sub_decoders \<Rightarrow> bool" where
  "safe_sub L valid sub \<longleftrightarrow>
     (\<forall>flds a. valid flds a \<longrightarrow> safe_dec L (sub_decode sub flds a) \<and> safe_dec L (sub_noinit sub flds a))"

lemma ltype_cases:
  fixes t :: byte
  assumes "t < 10" "t \<noteq> PB_LTYPE_EXTENSION"
  shows "t \<in> {PB_LTYPE_VARINT, PB_LTYPE_UVARINT, PB_LTYPE_SVARINT, PB_LTYPE_FIXED32, PB_LTYPE_FIXED64,
    PB_LTYPE_BYTES, PB_LTYPE_STRING, PB_LTYPE_SUBMESSAGE, PB_LTYPE_FIXED_LENGTH_BYTES}"
proof -
  have "unat t < 10" using assms(1) by (simp add: word_less_nat_alt)
  then have "unat t \<in> {0,1,2,3,4,5,6,7,8,9}" by auto
  then have "t \<in> {0,1,2,3,4,5,6,7,8,9}" by (auto simp: word_unat_eq_iff)
  then show ?thesis using assms(2) by (auto simp: ltypes)
qed

lemma dec_func_of:
  "ltype f = PB_LTYPE_VARINT \<Longrightarrow> dec_func sub f = pb_dec_varint f"
  "ltype f = PB_LTYPE_UVARINT \<Longrightarrow> dec_func sub f = pb_dec_uvarint f"
  "ltype f = PB_LTYPE_SVARINT \<Longrightarrow> dec_func sub f = pb_dec_svarint f"
  "ltype f = PB_LTYPE_FIXED32 \<Longrightarrow> dec_func sub f = pb_dec_fixed32"
  "ltype f = PB_LTYPE_FIXED64 \<Longrightarrow> dec_func sub f = pb_dec_fixed64"
  "ltype f = PB_LTYPE_BYTES \<Longrightarrow> dec_func sub f = pb_dec_bytes f"
  "ltype f = PB_LTYPE_STRING \<Longrightarrow> dec_func sub f = pb_dec_string f"
  "ltype f = PB_LTYPE_SUBMESSAGE \<Longrightarrow> dec_func sub f = pb_dec_submessage sub f"
  "ltype f = PB_LTYPE_FIXED_LENGTH_BYTES \<Longrightarrow> dec_func sub f = pb_dec_fixed_length_bytes f"
  by (simp_all add: dec_func_def fun_eq_iff ltypes)

lemma safe_dec_func:
  assumes "item_ok L valid f a" "safe_sub L valid sub"
  shows "safe_dec L (dec_func sub f a)"
proof -
  have a: "0 < a" "nat a + unat (data_size f) \<le> L" using assms(1) by (simp_all add: item_ok_def)
  have w: "4 \<le> unat (data_size f)" if "ltype f = PB_LTYPE_FIXED32"
    using assms(1) that by (simp add: item_ok_def word_le_nat_alt)
  have w8: "8 \<le> unat (data_size f)" if "ltype f = PB_LTYPE_FIXED64"
    using assms(1) that by (simp add: item_ok_def word_le_nat_alt)
  have sub: "safe_dec L (pb_dec_submessage sub f a)" if "ltype f = PB_LTYPE_SUBMESSAGE"
    using assms that unfolding pb_dec_submessage_def item_ok_def safe_sub_def
    by (auto split: field_ptr.splits intro!: safe_dec_substream)
  have "ltype f \<in> {PB_LTYPE_VARINT, PB_LTYPE_UVARINT, PB_LTYPE_SVARINT, PB_LTYPE_FIXED32, PB_LTYPE_FIXED64,
    PB_LTYPE_BYTES, PB_LTYPE_STRING, PB_LTYPE_SUBMESSAGE, PB_LTYPE_FIXED_LENGTH_BYTES}"
    using assms(1) by (intro ltype_cases) (simp_all add: item_ok_def)
  then show ?thesis
    using w w8 a sub
    by (elim insertE emptyE)
      (simp_all add: dec_func_of safe_fixed safe_varint safe_bytes safe_string safe_fixed_length)
qed

section \<open>Loops of a field\<close>

text \<open>A read that succeeds takes bytes.\<close>

definition eats :: "('s, 'a) rd \<Rightarrow> bool" where
  "eats m \<longleftrightarrow> (\<forall>st x st1. m st = Some (Some x, st1) \<longrightarrow> unat (bytes_left st1) < unat (bytes_left st))"

lemma eatsD: "eats m \<Longrightarrow> m st = Some (Some x, st1) \<Longrightarrow> unat (bytes_left st1) < unat (bytes_left st)"
  by (auto simp: eats_def)

lemma eats_return: "eats m \<Longrightarrow> eats (rd_bind m (\<lambda>x. rd_return (g x)))"
  unfolding eats_def by (auto simp: rd_bind_def rd_return_def split: bind_splits option.splits)

lemma varint_loop_left:
  "varint_loop r p st = Some (Some v, st1) \<Longrightarrow> unat (bytes_left st1) < unat (bytes_left st)"
proof (induction r p st rule: varint_loop.induct)
  case (1 r p st)
  show ?case using "1.prems" "1.IH" [OF _ _ refl refl refl]
    by (auto simp: varint_loop.simps [of r p st] Let_def rd_error_def dest!: readbyte_left split: if_splits option.splits intro: less_trans)
qed

lemma varint32_loop_left:
  "varint32_loop r p st = Some (Some v, st1) \<Longrightarrow> unat (bytes_left st1) < unat (bytes_left st)"
proof (induction r p st rule: varint32_loop.induct)
  case (1 r p st)
  show ?case using "1.prems" "1.IH" [OF _ refl refl]
    by (auto simp: varint32_loop.simps [of r p st] Let_def rd_error_def dest!: readbyte_left split: if_splits option.splits intro: less_trans) (metis less_trans)
qed

lemma eats_varint: "eats pb_decode_varint"
  unfolding eats_def pb_decode_varint_def using varint_loop_left by blast

lemma eats_svarint: "eats pb_decode_svarint"
  unfolding eats_def pb_decode_svarint_def
  using eatsD [OF eats_varint] by (auto simp: rd_bind_def rd_return_def split: bind_splits option.splits)

lemma read_some_less:
  assumes "read_some n st = Some (Some bs, st1)" "0 < n"
  shows "unat (bytes_left st1) < unat (bytes_left st)"
proof -
  have "n \<le> bytes_left st" "bytes_left st1 = bytes_left st - n"
    using assms(1) by (auto simp: read_some_def rd_error_def Let_def not_less split: if_splits bind_splits option.splits)
  then show ?thesis using assms(2) by (simp add: word_less_nat_alt word_le_nat_alt unat_sub_if')
qed

lemma eats_fixed: "eats pb_decode_fixed32" "eats pb_decode_fixed64"
  unfolding eats_def pb_decode_fixed32_def pb_decode_fixed64_def
  using read_some_less by (fastforce simp: rd_bind_def rd_return_def pb_read_data split: bind_splits option.splits)+

definition dec_eats :: "('s, 'w) dec \<Rightarrow> bool" where
  "dec_eats m \<longleftrightarrow> (\<forall>ds st ds1 st1. m ds st = Some (True, ds1, st1) \<longrightarrow> unat (bytes_left st1) < unat (bytes_left st))"

lemma sto_ok_left:
  "dec_sto a bs dec_ok ds st = Some (True, ds1, st1) \<Longrightarrow> bytes_left st1 = bytes_left st"
  "sto_checked a n c v ds st = Some (True, ds1, st1) \<Longrightarrow> bytes_left st1 = bytes_left st"
  by (auto simp: dec_sto_def dec_ok_def sto_checked_def dec_error_def split: bind_splits if_splits)

lemma error_not_ok [simp]: "dec_error msg ds st \<noteq> Some (True, ds1, st1)"
  by (simp add: dec_error_def)

lemma dec_eats_with:
  assumes "eats m" "\<And>x ds st ds1 st1. k x ds st = Some (True, ds1, st1) \<Longrightarrow> bytes_left st1 = bytes_left st"
  shows "dec_eats (dec_with m k)"
  unfolding dec_eats_def
proof (intro allI impI)
  fix ds st ds1 st1
  assume "dec_with m k ds st = Some (True, ds1, st1)"
  then obtain x st2 where m: "m st = Some (Some x, st2)" and k: "k x ds st2 = Some (True, ds1, st1)"
    by (auto simp: dec_with_def split: option.splits)
  then show "unat (bytes_left st1) < unat (bytes_left st)" using eatsD [OF assms(1) m] assms(2) [OF k] by simp
qed

lemma packable_eats:
  assumes "ltype f \<le> PB_LTYPE_LAST_PACKABLE"
  shows "dec_eats (dec_func sub f a)"
proof -
  have "unat (ltype f) \<le> 4" using assms by (simp add: word_le_nat_alt PB_LTYPE_LAST_PACKABLE_def)
  then have "unat (ltype f) \<in> {0,1,2,3,4}" by auto
  then have "ltype f \<in> {PB_LTYPE_VARINT, PB_LTYPE_UVARINT, PB_LTYPE_SVARINT, PB_LTYPE_FIXED32, PB_LTYPE_FIXED64}"
    by (auto simp: word_unat_eq_iff ltypes)
  then show ?thesis
    by (elim insertE emptyE)
      (auto simp: dec_func_of pb_dec_varint_def pb_dec_uvarint_def pb_dec_svarint_def pb_dec_fixed32_def pb_dec_fixed64_def Let_def
        intro!: dec_eats_with eats_varint eats_svarint eats_fixed dest: sto_ok_left split: if_splits)
qed

lemma packed_loop_safe:
  assumes items: "\<And>n. n < array_size f \<Longrightarrow> item_ok L valid f (p + uint (data_size f) * uint n)" "safe_sub L valid sub"
    and sz: "0 < sz" "nat sz < L" and pack: "ltype f \<le> PB_LTYPE_LAST_PACKABLE"
    and f: "fits xs"
  shows "within xs rest (st :: 's istream) \<Longrightarrow> length (dmem ds) = L \<Longrightarrow>
    \<exists>ok ds' st'. packed_loop sub f p sz ds st = Some (ok, ds', st') \<and> length (dmem ds') = L \<and> within xs rest st'"
proof (induction "unat (bytes_left st)" arbitrary: st ds rule: less_induct)
  case less
  obtain n where n: "ld_byte (dmem ds) sz = Some n" using ld_byte_Some [OF sz(1)] sz(2) less.prems(2) by metis
  show ?case
  proof (cases "0 < bytes_left st \<and> n < array_size f")
    case False
    then have "packed_loop sub f p sz ds st = Some (True, ds, st)" using n by (subst packed_loop.simps) auto
    then show ?thesis using less.prems by auto
  next
    case True
    have s: "safe_dec L (dec_func sub f (p + uint (data_size f) * uint n))"
      using True safe_dec_func [OF items(1) items(2)] by simp
    obtain ok ds1 st1 where d: "dec_func sub f (p + uint (data_size f) * uint n) ds st = Some (ok, ds1, st1)"
      "length (dmem ds1) = L" "within xs rest st1"
      using safe_continue [OF s less.prems(2) f less.prems(1)] by metis
    show ?thesis
    proof (cases ok)
      case False
      then have "packed_loop sub f p sz ds st = Some (False, ds1, st1)" using n True d(1) by (subst packed_loop.simps) simp
      then show ?thesis using d(2,3) by auto
    next
      case ok: True
      obtain n1 where n1: "ld_byte (dmem ds1) sz = Some n1" using ld_byte_Some [OF sz(1)] sz(2) d(2) by metis
      obtain m where m: "sto (dmem ds1) sz [n1 + 1] = Some m" "length m = L"
        using sto_Some [OF sz(1), of "[n1 + 1]" "dmem ds1"] sz(2) d(2) by auto
      have "unat (bytes_left st1) < unat (bytes_left st)"
        using packable_eats [OF pack, of sub] d(1) ok unfolding dec_eats_def by auto
      then obtain ok' ds' st' where r: "packed_loop sub f p sz (ds1\<lparr>dmem := m\<rparr>) st1 = Some (ok', ds', st')"
        "length (dmem ds') = L" "within xs rest st'"
        using less.hyps [of st1 "ds1\<lparr>dmem := m\<rparr>"] d(3) m(2) by auto
      have "packed_loop sub f p sz ds st = packed_loop sub f p sz (ds1\<lparr>dmem := m\<rparr>) st1"
        using n True d(1) ok n1 m(1) by (subst packed_loop.simps) simp
      then show ?thesis using r by simp
    qed
  qed
qed

text \<open>A callback must take bytes, or all of them, when it succeeds: its caller loops.\<close>

definition callback_ok :: "nat \<Rightarrow> ('s, 'w) dec \<Rightarrow> bool" where
  "callback_ok L cb \<longleftrightarrow> safe_dec L cb \<and>
     (\<forall>ds st ds1 st1. cb ds st = Some (True, ds1, st1) \<longrightarrow> bytes_left st1 \<noteq> 0 \<longrightarrow> unat (bytes_left st1) < unat (bytes_left st))"

lemma callback_loop_safe:
  assumes cb: "callback_ok L cb" and f: "fits xs"
  shows "within xs rest (st :: 's istream) \<Longrightarrow> length (dmem ds) = L \<Longrightarrow>
    \<exists>ok ds' st'. callback_loop cb ds st = Some (ok, ds', st') \<and> length (dmem ds') = L \<and> within xs rest st'"
proof (induction "unat (bytes_left st)" arbitrary: st ds rule: less_induct)
  case less
  have s: "safe_dec L cb" using cb by (simp add: callback_ok_def)
  obtain ok ds1 st1 where d: "cb ds st = Some (ok, ds1, st1)" "length (dmem ds1) = L" "within xs rest st1"
    using safe_continue [OF s less.prems(2) f less.prems(1)] by metis
  show ?case
  proof (cases "ok \<and> bytes_left st1 \<noteq> 0")
    case False
    then have "callback_loop cb ds st = Some (ok, ds1, st1)" using d(1) by (subst callback_loop.simps) auto
    then show ?thesis using d(2,3) by auto
  next
    case True
    then have "unat (bytes_left st1) < unat (bytes_left st)"
      using cb d(1) unfolding callback_ok_def by auto
    then obtain ok' ds' st' where r: "callback_loop cb ds1 st1 = Some (ok', ds', st')" "length (dmem ds') = L" "within xs rest st'"
      using less.hyps [of st1 ds1] d(2,3) by auto
    have "callback_loop cb ds st = callback_loop cb ds1 st1" using True d(1) by (subst callback_loop.simps) simp
    then show ?thesis using r by simp
  qed
qed

lemma safe_packed:
  assumes "\<And>n. n < array_size f \<Longrightarrow> item_ok L valid f (p + uint (data_size f) * uint n)" "safe_sub L valid sub"
    and "0 < sz" "nat sz < L" "ltype f \<le> PB_LTYPE_LAST_PACKABLE"
  shows "safe_dec L (decode_packed sub f p sz)"
proof -
  have loop: "safe_dec L (packed_loop sub f p sz)"
    by (rule safe_decI, rule packed_loop_safe [OF assms]) (assumption | rule within_refl)+
  have k: "closes L sub1 (\<lambda>ds1 st. if bytes_left sub1 \<noteq> 0 then dec_error ''array overflow'' ds1 st
     else dec_with (pb_close_string_substream sub1) (\<lambda>_ ds2 st2. Some (status, ds2, st2)) ds1 st)" for status sub1
    by (cases "bytes_left sub1 = 0") (auto intro: safe_error safe_result)
  show ?thesis unfolding decode_packed_def
    using safe_substream_step [OF loop k] by simp
qed

lemma safe_string_callback:
  assumes "callback_ok L cb"
  shows "safe_dec L (decode_string_callback cb)"
proof -
  have loop: "safe_dec L (callback_loop cb)"
    by (rule safe_decI, rule callback_loop_safe [OF assms]) (assumption | rule within_refl)+
  have k: "closes L sub1 (\<lambda>ds1 st. if \<not> ok then dec_error ''callback failed'' ds1 st
     else dec_with (pb_close_string_substream sub1) (\<lambda>_ ds2 st2. Some (True, ds2, st2)) ds1 st)" for ok sub1
    by (cases ok) (auto intro: safe_error safe_result)
  show ?thesis unfolding decode_string_callback_def
    using safe_substream_step [OF loop k] by simp
qed

lemma safe_decD:
  "safe_dec L m \<Longrightarrow> length (dmem ds) = L \<Longrightarrow> fits xs \<Longrightarrow>
     \<exists>ok ds' st'. m ds (buf_at xs rest e) = Some (ok, ds', st') \<and> length (dmem ds') = L \<and> within xs rest st'"
  by (simp add: safe_dec_def)

lemma read_length:
  assumes "fits xs" "pb_read nul n (buf_at xs rest e :: 's istream) = Some (Some bs, st)"
  shows "length bs = unat n"
  using assms by (auto simp: pb_read_at rd_error_def split: if_splits)

lemma raw_varint_length: "length buf \<le> 10 \<Longrightarrow> raw_varint 10 buf st = Some (Some bs, st1) \<Longrightarrow> length bs \<le> 10"
proof (induction "10 :: u32" buf st rule: raw_varint.induct)
  case (1 buf st)
  have "length buf < 10" if "\<not> (10 :: u32) < of_nat (length buf) + 1"
  proof (rule ccontr)
    assume "\<not> length buf < 10"
    then have "length buf = 10" using "1.prems" by simp
    then show False using that by simp
  qed
  then show ?case using "1.prems" "1.hyps" [OF _ _ refl refl]
    by (auto simp: raw_varint.simps [of "10" buf st] split: if_splits option.splits)
qed

lemma raw_value_length:
  assumes "fits xs" "read_raw_value wt 10 (buf_at xs rest e :: 's istream) = Some (Some bs, st)"
  shows "length bs \<le> 10"
  using assms(2) raw_varint_length [of "[]" "buf_at xs rest e" bs st]
    read_length [OF assms(1), of False 8 rest e bs st] read_length [OF assms(1), of False 4 rest e bs st]
  by (auto simp: read_raw_value_def rd_error_def split: if_splits)

lemma safe_scalar_callback:
  assumes cb: "safe_dec L cb"
  shows "safe_dec L (decode_scalar_callback wt cb :: ('s, 'w) dec)"
proof (rule safe_decI, goal_cases)
  case (1 ds xs rest e)
  note l = 1(1) and f = 1(2)
  obtain r n e' where m: "read_raw_value wt 10 (buf_at xs rest e :: 's istream) = Some (r, buf_at (drop n xs) rest e')"
    using in_boundsE [OF in_bounds_raw_value f] by metis
  show ?case
  proof (cases r)
    case None
    then show ?thesis using m l by (auto simp: decode_scalar_callback_def dec_with_def)
  next
    case (Some buffer)
    have "length buffer \<le> 10" using raw_value_length [OF f] m Some by metis
    then have fb: "fits buffer" by simp
    obtain ok ds1 sub1 where c: "cb ds (buf_at buffer [] None :: 's istream) = Some (ok, ds1, sub1)" "length (dmem ds1) = L"
      using safe_decE [OF cb l fb] by metis
    then have "decode_scalar_callback wt cb ds (buf_at xs rest e) = Some (ok, ds1, buf_at (drop n xs) rest e')"
      using m Some by (simp add: decode_scalar_callback_def dec_with_def pb_istream_from_buffer_at)
    then show ?thesis using c(2) by auto
  qed
qed

definition callbacks_ok :: "nat \<Rightarrow> ('s, 'w) dec_env \<Rightarrow> bool" where
  "callbacks_ok L env \<longleftrightarrow> (\<forall>fp f p. fp \<noteq> 0 \<longrightarrow> (\<exists>cb. dec_callbacks env fp = Some cb \<and>
     (0 < p \<and> nat p + 4 \<le> L \<longrightarrow> callback_ok L (cb f p))))"

lemma ld_ptr_Some: "0 < a \<Longrightarrow> nat a + 4 \<le> length m \<Longrightarrow> \<exists>v. ld_ptr m a = Some v"
  using ld_Some_ex [of a 4 m] by (auto simp: ld_ptr_def)

lemma safe_callback_field:
  assumes "callbacks_ok L env" "0 < p" "nat p + 8 \<le> L"
  shows "safe_dec L (decode_callback_field env wt f p)"
proof (rule safe_decI, goal_cases)
  case (1 ds xs rest e)
  note l = 1(1) and f = 1(2)
  have p: "0 < p + 4" "nat (p + 4) + 4 \<le> L" "nat p + 4 \<le> L" using assms(2,3) by simp_all
  obtain fp where fp: "ld_ptr (dmem ds) p = Some fp" using ld_ptr_Some [OF assms(2)] p(3) l by metis
  show ?case
  proof (cases "fp = 0")
    case True
    have "safe_dec L (dec_with (pb_skip_field wt) (\<lambda>_. dec_ok))" by (intro safe_intros bounds_intros)
    from safe_decD [OF this l f] show ?thesis
      using True fp assms(2) by (simp add: decode_callback_field_def)
  next
    case False
    then obtain cb where cb: "dec_callbacks env fp = Some cb" "callback_ok L (cb f (p + 4))"
      using assms(1) p unfolding callbacks_ok_def by blast
    then have "safe_dec L (if wt = PB_WT_STRING then decode_string_callback (cb f (p + 4)) else decode_scalar_callback wt (cb f (p + 4)))"
      by (auto simp: callback_ok_def intro: safe_string_callback safe_scalar_callback)
    from safe_decD [OF this l f] show ?thesis
      using False fp assms(2) cb(1) by (cases "wt = PB_WT_STRING") (simp_all add: decode_callback_field_def)
  qed
qed

section \<open>Descriptors that fit the memory\<close>

definition cell_ok :: "nat \<Rightarrow> addr \<Rightarrow> bool" where
  "cell_ok L a \<longleftrightarrow> 0 < a \<and> nat a < L"

definition slot_ok :: "nat \<Rightarrow> (pb_field list \<Rightarrow> addr \<Rightarrow> bool) \<Rightarrow> slot \<Rightarrow> bool" where
  "slot_ok L valid s \<longleftrightarrow>
     (let f = s_field s; p = s_data s; sz = s_size s in
      ltype f < 10 \<and> ltype f \<noteq> PB_LTYPE_EXTENSION \<and>
      (if atype f = PB_ATYPE_STATIC
       then (if htype f = PB_HTYPE_REPEATED
             then cell_ok L sz \<and> list_all (\<lambda>i. item_ok L valid f (p + uint (data_size f) * int i)) [0..<unat (array_size f)]
             else item_ok L valid f p \<and>
               (htype f = PB_HTYPE_ONEOF \<or> htype f = PB_HTYPE_OPTIONAL \<and> sz \<noteq> p \<longrightarrow> cell_ok L sz))
       else 0 < p \<and> nat p + (if atype f = PB_ATYPE_CALLBACK then 8 else 4) \<le> L \<and>
         (atype f = PB_ATYPE_POINTER \<and> (htype f = PB_HTYPE_REPEATED \<or> htype f = PB_HTYPE_ONEOF) \<longrightarrow> cell_ok L sz)))"

primrec fits_struct :: "nat \<Rightarrow> nat \<Rightarrow> pb_field list \<Rightarrow> addr \<Rightarrow> bool" where
  "fits_struct L 0 = (\<lambda>flds dest. False)"
| "fits_struct L (Suc d) = (\<lambda>flds dest.
     terminated flds \<and> 1 < length flds \<and> list_all (slot_ok L (fits_struct L d)) (slots (butlast flds) dest))"

section \<open>Defaults\<close>

definition safe_store :: "nat \<Rightarrow> (memory \<Rightarrow> memory c) \<Rightarrow> bool" where
  "safe_store L g \<longleftrightarrow> (\<forall>m. length m = L \<longrightarrow> (\<exists>m'. g m = Some m' \<and> length m' = L))"

lemma safe_storeI: "(\<And>m. length m = L \<Longrightarrow> \<exists>m'. g m = Some m' \<and> length m' = L) \<Longrightarrow> safe_store L g"
  by (simp add: safe_store_def)

lemma safe_store_sto: "0 < a \<Longrightarrow> nat a + length bs \<le> L \<Longrightarrow> safe_store L (\<lambda>m. sto m a bs)"
  using sto_Some by (fastforce intro!: safe_storeI)

lemma safe_store_cell: "cell_ok L a \<Longrightarrow> safe_store L (\<lambda>m. sto m a [b])"
  by (rule safe_store_sto) (auto simp: cell_ok_def)

lemma safe_store_bind:
  assumes "safe_store L g" "safe_store L h"
  shows "safe_store L (\<lambda>m. g m \<bind> h)"
  using assms unfolding safe_store_def by fastforce

lemma safe_store_Some: "safe_store L Some"
  by (rule safe_storeI) simp

lemma safe_plain_default:
  assumes s: "slot_ok L valid s" and d: "\<And>flds a. valid flds a \<Longrightarrow> safe_store L (defaults flds a)"
  shows "safe_store L (plain_default defaults (s_field s) (s_data s) (s_size s))"
proof -
  let ?f = "s_field s" and ?p = "s_data s" and ?sz = "s_size s"
  have static: "safe_store L (static_default defaults ?f ?p ?sz)" if a: "atype ?f = PB_ATYPE_STATIC"
  proof (cases "htype ?f = PB_HTYPE_REPEATED \<or> htype ?f = PB_HTYPE_ONEOF")
    case True
    then have "cell_ok L ?sz" using s a by (auto simp: slot_ok_def Let_def htypes)
    then show ?thesis using True safe_store_cell [of L ?sz 0] by (simp add: static_default_def [abs_def])
  next
    case False
    then have i: "item_ok L valid ?f ?p" and c: "htype ?f = PB_HTYPE_OPTIONAL \<and> ?sz \<noteq> ?p \<longrightarrow> cell_ok L ?sz"
      using s a by (auto simp: slot_ok_def Let_def)
    have one: "safe_store L (\<lambda>m. if htype ?f = PB_HTYPE_OPTIONAL \<and> ?sz \<noteq> ?p then sto m ?sz [0] else Some m)"
      using c by (cases "htype ?f = PB_HTYPE_OPTIONAL \<and> ?sz \<noteq> ?p") (auto simp: safe_store_cell safe_store_Some)
    have two: "safe_store L (\<lambda>m1. if ltype ?f = PB_LTYPE_SUBMESSAGE
        then (case f_ptr ?f of Submsg flds \<Rightarrow> defaults flds ?p m1 | _ \<Rightarrow> None)
        else (case f_ptr ?f of
                Default_value v \<Rightarrow> if unat (data_size ?f) \<le> length v then sto m1 ?p (take (unat (data_size ?f)) v) else None
              | NULL \<Rightarrow> sto m1 ?p (replicate (unat (data_size ?f)) 0)
              | Submsg flds \<Rightarrow> None))"
      using i d by (cases "f_ptr ?f") (auto simp: item_ok_def intro: safe_store_sto)
    show ?thesis
      using safe_store_bind [OF one two] False unfolding static_default_def [abs_def] by simp
  qed
  have pointer: "safe_store L (\<lambda>m. do { m1 \<leftarrow> sto m ?p [0, 0, 0, 0];
        if htype ?f = PB_HTYPE_REPEATED \<or> htype ?f = PB_HTYPE_ONEOF then sto m1 ?sz [0] else Some m1 })"
    if a: "atype ?f = PB_ATYPE_POINTER"
  proof (rule safe_store_bind)
    have na: "atype ?f \<noteq> PB_ATYPE_STATIC" using a by (simp add: atypes)
    then show "safe_store L (\<lambda>m. sto m ?p [0, 0, 0, 0])"
      using s by (intro safe_store_sto) (auto simp: slot_ok_def Let_def split: if_splits)
    have "htype ?f = PB_HTYPE_REPEATED \<or> htype ?f = PB_HTYPE_ONEOF \<longrightarrow> cell_ok L ?sz"
      using s a na by (auto simp: slot_ok_def Let_def)
    then show "safe_store L (\<lambda>m1. if htype ?f = PB_HTYPE_REPEATED \<or> htype ?f = PB_HTYPE_ONEOF then sto m1 ?sz [0] else Some m1)"
      by (cases "htype ?f = PB_HTYPE_REPEATED \<or> htype ?f = PB_HTYPE_ONEOF") (auto simp: safe_store_cell safe_store_Some)
  qed
  show ?thesis unfolding plain_default_def [abs_def] using static pointer
    by (cases "atype ?f = PB_ATYPE_STATIC"; cases "atype ?f = PB_ATYPE_POINTER") (simp_all add: safe_store_Some cong: if_cong)
qed

lemma loop_slots_safe:
  assumes "\<And>s. s \<in> set ss \<Longrightarrow> safe_store L (g (s_field s) (s_data s) (s_size s))"
  shows "safe_store L (\<lambda>m. do { (_, m1) \<leftarrow> loop_slots (\<lambda>f p sz m. do { m1 \<leftarrow> g f p sz m; Some (True, m1) }) ss m; Some m1 })"
  using assms
proof (induction ss)
  case Nil
  then show ?case by (simp add: safe_store_Some)
next
  case (Cons s ss)
  show ?case
  proof (rule safe_storeI)
    fix m :: memory assume "length m = L"
    then obtain m1 where "g (s_field s) (s_data s) (s_size s) m = Some m1" "length m1 = L"
      using Cons.prems [of s] by (auto simp: safe_store_def)
    moreover obtain m2 where "(do { (_, m1) \<leftarrow> loop_slots (\<lambda>f p sz m. do { m1 \<leftarrow> g f p sz m; Some (True, m1) }) ss m1; Some m1 }) = Some m2"
      "length m2 = L"
      using Cons.IH Cons.prems \<open>length m1 = L\<close> by (auto simp: safe_store_def)
    ultimately show "\<exists>m'. (do { (_, m1) \<leftarrow> loop_slots (\<lambda>f p sz m. do { m1 \<leftarrow> g f p sz m; Some (True, m1) }) (s # ss) m; Some m1 }) = Some m' \<and> length m' = L"
      by simp
  qed
qed

lemma safe_defaults: "fits_struct L d flds dest \<Longrightarrow> safe_store L (pb_message_set_to_defaults ty d flds dest)"
proof (induction d arbitrary: flds dest)
  case (Suc d)
  have t: "terminated flds" using Suc.prems by simp
  have "safe_store L (pb_field_set_to_default ty (pb_message_set_to_defaults ty d) (s_field s) (s_data s) (s_size s))"
    if "s \<in> set (slots (butlast flds) dest)" for s
  proof -
    have s: "slot_ok L (fits_struct L d) s" using Suc.prems that by (simp add: list_all_iff)
    then have "ltype (s_field s) \<noteq> PB_LTYPE_EXTENSION" by (simp add: slot_ok_def Let_def)
    then show ?thesis
      using safe_plain_default [OF s, of "pb_message_set_to_defaults ty d"] Suc.IH
      unfolding pb_field_set_to_default_def [abs_def] by simp
  qed
  from loop_slots_safe [where g = "pb_field_set_to_default ty (pb_message_set_to_defaults ty d)", OF this] show ?case by (simp add: for_fields_slots [OF t])
qed simp

section \<open>Fields\<close>

lemma static_slot:
  assumes "slot_ok L valid s" "atype (s_field s) = PB_ATYPE_STATIC"
  shows "htype (s_field s) = PB_HTYPE_REPEATED \<Longrightarrow> cell_ok L (s_size s)"
    and "htype (s_field s) = PB_HTYPE_REPEATED \<Longrightarrow> n < array_size (s_field s) \<Longrightarrow>
      item_ok L valid (s_field s) (s_data s + uint (data_size (s_field s)) * uint n)"
    and "htype (s_field s) \<noteq> PB_HTYPE_REPEATED \<Longrightarrow> item_ok L valid (s_field s) (s_data s)"
    and "htype (s_field s) = PB_HTYPE_ONEOF \<Longrightarrow> cell_ok L (s_size s)"
    and "htype (s_field s) = PB_HTYPE_OPTIONAL \<Longrightarrow> s_size s \<noteq> s_data s \<Longrightarrow> cell_ok L (s_size s)"
    and "ltype (s_field s) < 10"
proof -
  assume n: "htype (s_field s) = PB_HTYPE_REPEATED" "n < array_size (s_field s)"
  then have "unat n \<in> set [0..<unat (array_size (s_field s))]" by (simp add: word_less_nat_alt)
  moreover have "list_all (\<lambda>i. item_ok L valid (s_field s) (s_data s + uint (data_size (s_field s)) * int i)) [0..<unat (array_size (s_field s))]"
    using assms n(1) by (simp add: slot_ok_def Let_def)
  ultimately have "item_ok L valid (s_field s) (s_data s + uint (data_size (s_field s)) * int (unat n))"
    unfolding list_all_iff by blast
  then show "item_ok L valid (s_field s) (s_data s + uint (data_size (s_field s)) * uint n)" by simp
qed (use assms in \<open>auto simp: slot_ok_def Let_def htypes\<close>)

lemma safe_cell: "cell_ok L a \<Longrightarrow> safe_dec L k \<Longrightarrow> safe_dec L (dec_sto a [b] k)"
  by (rule safe_sto) (auto simp: cell_ok_def)

lemma safe_item:
  assumes "slot_ok L valid s" "atype (s_field s) = PB_ATYPE_STATIC" "htype (s_field s) = PB_HTYPE_REPEATED" "safe_sub L valid sub"
  shows "safe_dec L (decode_item sub (s_field s) (s_data s) (s_size s))"
proof -
  note c = static_slot(1) [OF assms(1,2,3)] and i = static_slot(2) [OF assms(1,2,3)]
  show ?thesis unfolding decode_item_def
  proof (rule safe_ld)
    show "0 < s_size s" "nat (s_size s) < L" using c by (simp_all add: cell_ok_def)
    show "safe_dec L (if array_size (s_field s) \<le> n then dec_error ''array overflow''
      else dec_sto (s_size s) [n + 1] (dec_func sub (s_field s) (s_data s + uint (data_size (s_field s)) * uint n)))" for n
      using safe_cell [OF c safe_dec_func [OF i assms(4)]] by (simp add: safe_error not_le)
  qed
qed

lemma safe_oneof:
  assumes "slot_ok L (fits_struct L d) s" "atype (s_field s) = PB_ATYPE_STATIC" "htype (s_field s) = PB_HTYPE_ONEOF"
    and "safe_sub L (fits_struct L d) sub"
  shows "safe_dec L (decode_oneof env d sub (s_field s) (s_data s) (s_size s) :: ('s, 'w) dec)"
proof -
  let ?f = "s_field s" and ?p = "s_data s"
  have i: "item_ok L (fits_struct L d) ?f ?p" using static_slot(3) [OF assms(1,2)] assms(3) by (simp add: htypes)
  have c: "cell_ok L (s_size s)" using static_slot(4) [OF assms(1,2,3)] .
  note fn = safe_dec_func [OF i assms(4)]
  have sub: "safe_dec L (dec_sto ?p (replicate (unat (data_size ?f)) 0) (\<lambda>ds st.
        case f_ptr ?f of
          Submsg flds \<Rightarrow> do {
            m \<leftarrow> pb_message_set_to_defaults (\<lambda>t. map_option et_darg (dec_ext_types env t)) d flds ?p (dmem ds);
            dec_func sub ?f ?p (ds\<lparr>dmem := m\<rparr>) st }
        | _ \<Rightarrow> None) :: ('s, 'w) dec)" if lt: "ltype ?f = PB_LTYPE_SUBMESSAGE"
  proof (rule safe_sto)
    show "0 < ?p" "nat ?p + length (replicate (unat (data_size ?f)) (0 :: byte)) \<le> L" using i by (simp_all add: item_ok_def)
    obtain flds where fl: "f_ptr ?f = Submsg flds" "fits_struct L d flds ?p"
      using i lt by (cases "f_ptr ?f") (auto simp: item_ok_def)
    show "safe_dec L (\<lambda>ds st.
        case f_ptr ?f of
          Submsg flds \<Rightarrow> do {
            m \<leftarrow> pb_message_set_to_defaults (\<lambda>t. map_option et_darg (dec_ext_types env t)) d flds ?p (dmem ds);
            dec_func sub ?f ?p (ds\<lparr>dmem := m\<rparr>) st }
        | _ \<Rightarrow> None)"
    proof (rule safe_decI, goal_cases)
      case (1 ds xs rest e)
      obtain m where m: "pb_message_set_to_defaults (\<lambda>t. map_option et_darg (dec_ext_types env t)) d flds ?p (dmem ds) = Some m" "length m = L"
        using safe_defaults [OF fl(2)] 1(1) unfolding safe_store_def by blast
      then show ?case using safe_decD [OF fn _ 1(2), of "ds\<lparr>dmem := m\<rparr>"] fl(1) by simp
    qed
  qed
  show ?thesis unfolding decode_oneof_def using sub fn by (intro safe_cell [OF c]) auto
qed

lemma safe_field:
  fixes env :: "('s, 'w) dec_env"
  assumes s: "slot_ok L (fits_struct L d) s" and sub: "safe_sub L (fits_struct L d) sub" and cb: "callbacks_ok L env"
  shows "safe_dec L (decode_field env d sub wt (s_field s) (s_data s) (s_size s))"
proof -
  let ?f = "s_field s" and ?p = "s_data s" and ?sz = "s_size s"
  have static: "safe_dec L (decode_static_field env d sub wt ?f ?p ?sz)" if a: "atype ?f = PB_ATYPE_STATIC"
  proof -
    note slot = static_slot [OF s a]
    have "\<not> 10 \<le> ltype ?f" using slot(6) by simp
    moreover have "safe_dec L (dec_func sub ?f ?p)" if "htype ?f \<noteq> PB_HTYPE_REPEATED"
      using safe_dec_func [OF slot(3) sub] that by simp
    moreover have "safe_dec L (decode_packed sub ?f ?p ?sz)" if "htype ?f = PB_HTYPE_REPEATED" "ltype ?f \<le> PB_LTYPE_LAST_PACKABLE"
      using slot(1) [OF that(1)] slot(2) [OF that(1)] that(2) sub by (intro safe_packed) (auto simp: cell_ok_def)
    ultimately show ?thesis
      using htype_cases [of ?f] safe_item [OF s a _ sub] safe_oneof [OF s a _ sub] slot(5)
      unfolding decode_static_field_def by (elim insertE emptyE) (simp_all add: htypes safe_cell)
  qed
  have "safe_dec L (decode_callback_field env wt ?f ?p)" if "atype ?f = PB_ATYPE_CALLBACK"
    using s that by (intro safe_callback_field [OF cb]) (auto simp: slot_ok_def Let_def atypes)
  then show ?thesis using static atype_cases [of ?f]
    unfolding decode_field_def by (auto simp: decode_pointer_field_def intro: safe_error)
qed

section \<open>Messages\<close>

text \<open>The state of the loop over the tags: the iterator is on a field and the bitmap has its words.\<close>

definition loop_inv :: "pb_field list \<Rightarrow> addr \<Rightarrow> loop_state \<Rightarrow> bool" where
  "loop_inv flds dest ls \<longleftrightarrow> (\<exists>k < length flds - 1. l_iter ls = iter_at flds dest k) \<and> length (l_seen ls) = 2"

definition loop_ok :: "nat \<Rightarrow> pb_field list \<Rightarrow> addr \<Rightarrow> byte list \<Rightarrow> byte list \<Rightarrow> (bool \<times> loop_state \<times> 'w dst \<times> 's istream) c \<Rightarrow> bool" where
  "loop_ok L flds dest xs rest r \<longleftrightarrow>
     (\<exists>ok ls ds st. r = Some (ok, ls, ds, st) \<and> loop_inv flds dest ls \<and> length (dmem ds) = L \<and> within xs rest st)"

lemma mark_seen_inv: "length seen = 2 \<Longrightarrow> i < PB_MAX_REQUIRED_FIELDS \<Longrightarrow> \<exists>seen'. mark_seen i seen = Some seen' \<and> length seen' = 2"
  by (auto simp: mark_seen_def PB_MAX_REQUIRED_FIELDS_def)

lemma iter_slot:
  assumes "terminated flds" "k < length flds - 1"
  shows "at_pos (iter_at flds dest k) = Some (s_field (slots (butlast flds) dest ! k))"
    and "pData (iter_at flds dest k) = s_data (slots (butlast flds) dest ! k)"
    and "pSize (iter_at flds dest k) = s_size (slots (butlast flds) dest ! k)"
  using assms terminated_nth [OF assms] by (simp_all add: slots_field) (simp_all add: iter_at_def Let_def)

lemma known_field_ok:
  fixes env :: "('s, 'w) dec_env"
  assumes v: "fits_struct L (Suc d) flds dest" and sub: "safe_sub L (fits_struct L d) sub" and cb: "callbacks_ok L env"
    and k: "k < length flds - 1" "l_iter ls = iter_at flds dest k" "length (l_seen ls) = 2"
    and f: "fits xs" and w: "within xs rest st" and l: "length (dmem ds) = L"
  shows "loop_ok L flds dest xs rest (known_field env d sub wt ls ds st)"
proof -
  let ?s = "slots (butlast flds) dest ! k"
  have t: "terminated flds" and s: "slot_ok L (fits_struct L d) ?s"
    using v k(1) by (simp_all add: list_all_iff)
  note it = iter_slot [OF t k(1), of dest]
  let ?i = "required_field_index (l_iter ls)"
  obtain seen where seen: "(if htype (s_field ?s) = PB_HTYPE_REQUIRED \<and> ?i < PB_MAX_REQUIRED_FIELDS
      then mark_seen ?i (l_seen ls) else Some (l_seen ls)) = Some seen" "length seen = 2"
    using mark_seen_inv [OF k(3), of ?i] k(3) by (cases "htype (s_field ?s) = PB_HTYPE_REQUIRED \<and> ?i < PB_MAX_REQUIRED_FIELDS") auto
  obtain ok ds1 st1 where d: "decode_field env d sub wt (s_field ?s) (s_data ?s) (s_size ?s) ds st = Some (ok, ds1, st1)"
    "length (dmem ds1) = L" "within xs rest st1"
    using safe_continue [OF safe_field [OF s sub cb] l f w] by metis
  have "known_field env d sub wt ls ds st = Some (ok, ls\<lparr>l_seen := seen\<rparr>, ds1, st1)"
    unfolding known_field_def Let_def k(2) using it seen(1) d(1) unfolding k(2) by simp
  then show ?thesis using k seen(2) d(2,3) by (auto simp: loop_ok_def loop_inv_def)
qed

lemma no_extension:
  assumes v: "fits_struct L (Suc d) flds dest" and k: "k < length flds - 1"
  shows "find_extension_field (iter_at flds dest k) = Some (False, iter_at flds dest k)"
proof -
  let ?n = "length flds - 1"
  have t: "terminated flds" using v by simp
  have no: "ltype (flds ! j) \<noteq> PB_LTYPE_EXTENSION" if "j < ?n" for j
  proof -
    have "slot_ok L (fits_struct L d) (slots (butlast flds) dest ! j)"
      using v that by (simp add: list_all_iff)
    then show ?thesis using that terminated_nth [OF t that] by (simp add: slot_ok_def Let_def slots_field)
  qed
  have kn: "(k + ?n) mod ?n = k" using k by (metis mod_add_self2 mod_less)
  have n: "0 < ?n" using k by simp
  have "find (\<lambda>j. ltype (flds ! j) = PB_LTYPE_EXTENSION) (round_from ?n k ?n) = None"
    using set_round [OF k] no by (simp add: find_None_iff)
  then show ?thesis
    using iter_search_at [OF t k refl n order_refl, of "\<lambda>f. ltype f = PB_LTYPE_EXTENSION" dest]
    unfolding kn by (simp add: find_extension_field_def)
qed

lemma skip_ok:
  assumes "fits xs" "within xs rest (st :: 's istream)" "length (dmem ds) = L"
  obtains ok ds1 st1 where "dec_with (pb_skip_field wt) (\<lambda>_. dec_ok) ds st = Some (ok, ds1, st1)"
    "length (dmem ds1) = L" "within xs rest st1"
proof -
  have "safe_dec L (dec_with (pb_skip_field wt) (\<lambda>_. dec_ok) :: ('s, 'w) dec)" by (intro safe_intros bounds_intros)
  from safe_continue [OF this assms(3,1,2)] show thesis using that by metis
qed

lemma unknown_field_ok:
  fixes env :: "('s, 'w) dec_env"
  assumes v: "fits_struct L (Suc d) flds dest" and t: "t \<noteq> - 1"
    and k: "k < length flds - 1" "l_iter ls = iter_at flds dest k" "length (l_seen ls) = 2"
    and f: "fits xs" and w: "within xs rest (st :: 's istream)" and l: "length (dmem ds) = L"
  shows "loop_ok L flds dest xs rest (unknown_field env d sub t wt ls ds st)"
proof -
  obtain ok ds1 st1 where s: "dec_with (pb_skip_field wt) (\<lambda>_. dec_ok) ds st = Some (ok, ds1, st1)"
    "length (dmem ds1) = L" "within xs rest st1"
    using skip_ok [OF f w l] by metis
  have t: "t < - 1" using t by (metis word_order.not_eq_extremum)
  note ext = no_extension [OF v k(1)]
  have it: "\<exists>f. at_pos (iter_at flds dest k) = Some f" using k(1) by simp
  have "\<exists>e. unknown_field env d sub t wt ls ds st = Some (ok, ls\<lparr>l_ext := e\<rparr>, ds1, st1)"
  proof (cases "t < l_ext ls")
    case True
    then show ?thesis using s(1) by (auto simp: unknown_field_def Let_def intro!: exI [of _ "l_ext ls"])
  next
    case False
    have "ls\<lparr>l_iter := iter_at flds dest k, l_ext := - 1\<rparr> = ls\<lparr>l_ext := - 1\<rparr>" using k(2) by (cases ls) simp
    then show ?thesis using s(1) False ext it t k(2)
      by (auto simp: unknown_field_def Let_def intro!: exI [of _ "- 1"])
  qed
  then show ?thesis using k s(2,3) by (auto simp: loop_ok_def loop_inv_def)
qed

lemma decode_tag_step:
  assumes "fits xs" "within xs rest (st :: 's istream)"
  obtains r eof st1 where "pb_decode_tag st = Some (r, eof, st1)" "within xs rest st1"
    "\<And>wt t. r = Some (wt, t) \<Longrightarrow> unat (bytes_left st1) < unat (bytes_left st) \<and> t \<noteq> - 1"
proof -
  obtain zs ts e where z: "st = buf_at zs ts e" "length zs \<le> length xs" "\<And>st' :: 's istream. within zs ts st' \<Longrightarrow> within xs rest st'"
    using withinE [OF assms(2)] by metis
  have fz: "fits zs" using z(2) assms(1) by simp
  obtain r eof n e' where d: "pb_decode_tag (buf_at zs ts e :: 's istream) = Some (r, eof, buf_at (drop n zs) ts e')"
    using decode_tag_in_bounds [OF fz] by blast
  have "unat (bytes_left (buf_at (drop n zs) ts e' :: 's istream)) < unat (bytes_left st) \<and> t \<noteq> - 1" if r: "r = Some (wt, t)" for wt t
  proof -
    obtain temp where e: "pb_decode_varint32_eof st = Some (Some temp, eof, buf_at (drop n zs) ts e')" and t: "t = drop_bit 3 temp"
      using d r z(1) by (auto simp: pb_decode_tag_def split: bind_splits option.splits if_splits)
    have "unat (bytes_left (buf_at (drop n zs) ts e' :: 's istream)) < unat (bytes_left st)"
      using e by (auto simp: pb_decode_varint32_eof_def dest!: readbyte_left varint32_loop_left split: option.splits if_splits bind_splits)
    moreover have "t \<noteq> - 1"
    proof
      assume m: "t = - 1"
      have "unat t = unat temp div 8" unfolding t by (simp add: unat_div drop_bit_eq_div)
      moreover have "unat temp < 2 ^ 32" using unsigned_less [of temp, where ?'a = nat] by simp
      moreover have "unat t = 2 ^ 32 - 1" unfolding m by (simp add: unsigned_minus_1_eq_mask mask_eq_exp_minus_1)
      ultimately show False by simp
    qed
    ultimately show ?thesis by simp
  qed
  then show thesis using that [of r eof "buf_at (drop n zs) ts e'"] d z(1) z(3) [OF within_drop] by simp
qed

lemma buf_left [simp]: "fits xs \<Longrightarrow> unat (bytes_left (buf_at xs rest e)) = length xs"
  by (simp add: buf_at_def of_nat_u32)

lemma within_left_le: "within zs ts (st :: 's istream) \<Longrightarrow> fits zs \<Longrightarrow> unat (bytes_left st) \<le> length zs"
  by (erule withinE) auto

lemma decode_loop_safe:
  fixes env :: "('s, 'w) dec_env"
  assumes v: "fits_struct L (Suc d) flds dest" and sub: "safe_sub L (fits_struct L d) sub" and cb: "callbacks_ok L env"
    and f: "fits xs"
  shows "loop_inv flds dest ls \<Longrightarrow> within xs rest (st :: 's istream) \<Longrightarrow> length (dmem ds) = L \<Longrightarrow>
    loop_ok L flds dest xs rest (decode_loop env d sub ls ds st)"
proof (induction "unat (bytes_left st)" arbitrary: st ds ls rule: less_induct)
  case less
  have t: "terminated flds" using v by simp
  show ?case
  proof (cases "bytes_left st = 0")
    case True
    then have "decode_loop env d sub ls ds st = Some (True, ls, ds, st)" by (subst decode_loop.simps) simp
    then show ?thesis using less.prems by (auto simp: loop_ok_def)
  next
    case left: False
    obtain r eof st1 where tag: "pb_decode_tag st = Some (r, eof, st1)" "within xs rest st1"
      and fewer: "\<And>wt t. r = Some (wt, t) \<Longrightarrow> unat (bytes_left st1) < unat (bytes_left st) \<and> t \<noteq> - 1"
      using decode_tag_step [OF f less.prems(2)] by metis
    show ?thesis
    proof (cases r)
      case None
      then have "decode_loop env d sub ls ds st = Some (eof, ls, ds, st1)"
        using left tag(1) by (subst decode_loop.simps) simp
      then show ?thesis using less.prems tag(2) by (auto simp: loop_ok_def)
    next
      case (Some wtt)
      obtain wt tg where wtt: "wtt = (wt, tg)" by (cases wtt)
      obtain zs ts e where z: "st1 = buf_at zs ts e" "length zs \<le> length xs" and up: "\<And>st' :: 's istream. within zs ts st' \<Longrightarrow> within xs rest st'"
        using withinE [OF tag(2)] by metis
      have fz: "fits zs" using z(2) f by simp
      have w1: "within zs ts st1" unfolding z(1) by (rule within_refl)
      obtain k where k: "k < length flds - 1" "l_iter ls = iter_at flds dest k" and seen: "length (l_seen ls) = 2"
        using less.prems(1) by (auto simp: loop_inv_def)
      have "\<exists>found j. j < length flds - 1 \<and> pb_field_iter_find (l_iter ls) tg = Some (found, iter_at flds dest j)"
        unfolding k(2) by (rule iter_find_at [OF t k(1), of tg dest]) (use k(1) in blast)+
      then obtain found j where j: "j < length flds - 1" "pb_field_iter_find (l_iter ls) tg = Some (found, iter_at flds dest j)"
        by blast
      define step where "step = (if found then known_field env d sub wt (ls\<lparr>l_iter := iter_at flds dest j\<rparr>) ds st1
                else unknown_field env d sub tg wt (ls\<lparr>l_iter := iter_at flds dest j\<rparr>) ds st1)"
      have "loop_ok L flds dest zs ts step"
        unfolding step_def using known_field_ok [OF v sub cb j(1) _ _ fz w1 less.prems(3)]
          unknown_field_ok [OF v _ j(1) _ _ fz w1 less.prems(3)] seen fewer Some wtt by auto
      then obtain ok ls2 ds2 st2 where s: "step = Some (ok, ls2, ds2, st2)" "loop_inv flds dest ls2" "length (dmem ds2) = L" "within zs ts st2"
        by (auto simp: loop_ok_def)
      have lp: "decode_loop env d sub ls ds st = (if \<not> ok then Some (False, ls2, ds2, st2) else decode_loop env d sub ls2 ds2 st2)"
        using left tag(1) Some wtt j(2) s(1) unfolding step_def by (subst decode_loop.simps) simp
      have "unat (bytes_left st2) < unat (bytes_left st)"
        using within_left_le [OF s(4) fz] fewer Some wtt fz unfolding z(1) by simp
      then show ?thesis
        using less.hyps [OF _ s(2) up [OF s(4)] s(3)] s(2,3) up [OF s(4)] unfolding lp by (auto simp: loop_ok_def)
    qed
  qed
qed

text \<open>The check of the required fields.\<close>

definition required_before :: "pb_field list \<Rightarrow> nat \<Rightarrow> nat" where
  "required_before flds k = length (filter (\<lambda>f. htype f = PB_HTYPE_REQUIRED) (take k flds))"

lemma s_required_nth:
  "k < length fs \<Longrightarrow> s_required (slots fs dest ! k) = required_before fs k"
proof (induction k)
  case 0
  then show ?case using slots_first [of fs dest] by (auto simp: first_slot_def Let_def required_before_def)
next
  case (Suc k)
  have "s_field (slots fs dest ! k) = fs ! k" using Suc.prems by (simp add: slots_field)
  then show ?case using Suc slots_step [OF Suc.prems, of dest]
    by (auto simp: next_slot_def Let_def required_before_def take_Suc_conv_app_nth htypes)
qed

lemma count_required_at:
  assumes t: "terminated flds" and k: "k < length flds - 1"
  shows "count_required (iter_at flds dest k) =
    Some (required_before (butlast flds) (length flds - 2), f_type (flds ! (length flds - 2)), iter_at flds dest 0)"
  using k
proof (induction "length flds - 2 - k" arbitrary: k)
  case 0
  then have k: "k = length flds - 2" "Suc k = length flds - 1" by auto
  have "required_field_index (iter_at flds dest k) = required_before (butlast flds) k"
    using "0.prems" by (simp add: iter_at_def Let_def s_required_nth)
  then show ?case using iter_next_wrap [OF t k(2), of dest] "0.prems" unfolding k(1)
    by (subst count_required.simps) simp
next
  case (Suc d)
  then have k: "Suc k < length flds - 1" "d = length flds - 2 - Suc k" by auto
  then show ?case using Suc.hyps(1) [OF k(2,1)] iter_next_at [OF t k(1), of dest]
    by (subst count_required.simps) simp
qed

lemma required_count_at:
  assumes t: "terminated flds" and k: "k < length flds - 1"
  shows "required_count (iter_at flds dest k) =
    Some (min (required_before (butlast flds) (length flds - 1)) PB_MAX_REQUIRED_FIELDS)"
proof -
  let ?m = "length flds - 2"
  have m: "?m < length (butlast flds)" "Suc ?m = length flds - 1" "0 < length flds" "0 < length flds - 1"
    using k by auto
  have "required_before (butlast flds) (Suc ?m) =
    required_before (butlast flds) ?m + (if htype (flds ! ?m) = PB_HTYPE_REQUIRED then 1 else 0)"
    unfolding required_before_def take_Suc_conv_app_nth [OF m(1)] using m(1) terminated_nth(1) [OF t, of ?m] by simp
  moreover have "f_tag (flds ! 0) \<noteq> 0" using terminated_nth(2) [OF t m(4)] .
  ultimately show ?thesis
    using count_required_at [OF t k, of dest] m by (simp add: required_count_def Let_def)
qed

lemma all_seen_Some: "n \<le> PB_MAX_REQUIRED_FIELDS \<Longrightarrow> length seen = 2 \<Longrightarrow> \<exists>b. all_seen n seen = Some b"
proof -
  assume n: "n \<le> PB_MAX_REQUIRED_FIELDS" and l: "length seen = 2"
  have "n div 32 \<le> 2" using n by (auto simp: PB_MAX_REQUIRED_FIELDS_def)
  moreover have "n div 32 < 2" if "n mod 32 \<noteq> 0"
  proof (rule ccontr)
    assume "\<not> n div 32 < 2"
    then have "n = 64" using n by (auto simp: PB_MAX_REQUIRED_FIELDS_def)
    then show False using that by simp
  qed
  ultimately show ?thesis using l by (auto simp: all_seen_def)
qed

lemma noinit_safe:
  fixes env :: "('s, 'w) dec_env"
  assumes v: "fits_struct L (Suc d) flds dest" and sub: "safe_sub L (fits_struct L d) sub" and cb: "callbacks_ok L env"
  shows "safe_dec L (noinit_with env d sub flds dest)"
proof (rule safe_decI, goal_cases)
  case (1 ds xs rest e)
  note l = 1(1) and f = 1(2)
  have t: "terminated flds" and n: "1 < length flds" using v by simp_all
  let ?ls = "\<lparr>l_iter = iter_at flds dest 0, l_seen = [0, 0], l_ext = 0\<rparr>"
  have "loop_inv flds dest ?ls" using n by (auto simp: loop_inv_def intro!: exI [of _ "0 :: nat"])
  then obtain ok ls ds1 st1 where d: "decode_loop env d sub ?ls ds (buf_at xs rest e :: 's istream) = Some (ok, ls, ds1, st1)"
    "loop_inv flds dest ls" "length (dmem ds1) = L" "within xs rest st1"
    using decode_loop_safe [OF v sub cb f _ within_refl l, of ?ls] unfolding loop_ok_def by blast
  show ?case
  proof (cases ok)
    case False
    then show ?thesis using d iter_begin_at [OF t n] by (auto simp: noinit_with_def)
  next
    case True
    obtain k where k: "k < length flds - 1" "l_iter ls = iter_at flds dest k" and seen: "length (l_seen ls) = 2"
      using d(2) by (auto simp: loop_inv_def)
    define m where "m = min (required_before (butlast flds) (length flds - 1)) PB_MAX_REQUIRED_FIELDS"
    obtain b where b: "all_seen m (l_seen ls) = Some b" using all_seen_Some [of m, OF _ seen] by (auto simp: m_def)
    let ?fin = "if b then \<lambda>ds st. Some (True, ds, st) else dec_error ''missing required field'' :: ('s, 'w) dec"
    have "safe_dec L ?fin" by (cases b) (simp_all add: safe_result safe_error)
    from safe_continue [OF this d(3) f d(4)]
    obtain ok' ds2 st2 where r: "?fin ds1 st1 = Some (ok', ds2, st2)" "length (dmem ds2) = L" "within xs rest st2"
      by blast
    have "noinit_with env d sub flds dest ds (buf_at xs rest e) = Some (ok', ds2, st2)"
      using d(1) True iter_begin_at [OF t n] required_count_at [OF t k(1), of dest] b r(1) k(2)
      by (auto simp: noinit_with_def m_def split: if_splits)
    then show ?thesis using r by blast
  qed
qed

lemma decode_with_safe:
  assumes v: "fits_struct L d flds dest" and "safe_dec L (noinit flds dest)"
  shows "safe_dec L (decode_with env d noinit flds dest)"
proof (rule safe_decI, goal_cases)
  case (1 ds xs rest e)
  obtain m where "pb_message_set_to_defaults (\<lambda>t. map_option et_darg (dec_ext_types env t)) d flds dest (dmem ds) = Some m" "length m = L"
    using safe_defaults [OF v] 1(1) unfolding safe_store_def by blast
  then show ?case using safe_decD [OF assms(2) _ 1(2), of "ds\<lparr>dmem := m\<rparr>"] by (simp add: decode_with_def)
qed

lemma noinit_depth_safe:
  assumes cb: "callbacks_ok L env"
  shows "fits_struct L d flds dest \<Longrightarrow> safe_dec L (pb_decode_noinit env d flds dest)"
proof (induction d arbitrary: flds dest)
  case (Suc d)
  have "safe_sub L (fits_struct L d)
      \<lparr>sub_decode = decode_with env d (pb_decode_noinit env d), sub_noinit = pb_decode_noinit env d\<rparr>"
    using Suc.IH by (auto simp: safe_sub_def intro: decode_with_safe)
  from noinit_safe [OF Suc.prems this cb] show ?case by simp
qed simp

lemma decode_safe:
  "callbacks_ok L env \<Longrightarrow> fits_struct L d flds dest \<Longrightarrow> safe_dec L (pb_decode env d flds dest)"
  unfolding pb_decode_def by (intro decode_with_safe noinit_depth_safe)

lemma decode_delimited_safe:
  assumes "callbacks_ok L env" "fits_struct L d flds dest"
  shows "safe_dec L (pb_decode_delimited env d flds dest)" "safe_dec L (pb_decode_delimited_noinit env d flds dest)"
  unfolding pb_decode_delimited_def pb_decode_delimited_noinit_def
  by (intro safe_dec_substream decode_safe noinit_depth_safe assms)+

text \<open>No bytes: the message is complete when it has no required field.\<close>

lemma all_seen_none: "n \<le> PB_MAX_REQUIRED_FIELDS \<Longrightarrow> all_seen n [0, 0] = Some (n = 0)"
proof -
  assume n: "n \<le> PB_MAX_REQUIRED_FIELDS"
  obtain b where b: "all_seen n [0, 0] = Some b" using all_seen_Some [OF n, of "[0, 0]"] by auto
  have "b \<longleftrightarrow> n = 0"
  proof
    assume "b"
    then have full: "list_all (\<lambda>i. [0 :: u32, 0] ! i = - 1) [0..<n div 32]"
      and part: "n mod 32 \<noteq> 0 \<longrightarrow> [0 :: u32, 0] ! (n div 32) = drop_bit (32 - n mod 32) (- 1)"
      using b by (auto simp: all_seen_def split: if_splits)
    have "n div 32 = 0"
    proof (rule ccontr)
      assume "n div 32 \<noteq> 0"
      then have "0 \<in> set [0..<n div 32]" by simp
      then have "[0 :: u32, 0] ! 0 = - 1" using full unfolding list_all_iff by blast
      then show False by simp
    qed
    moreover have "n mod 32 = 0"
    proof (rule ccontr)
      assume a: "n mod 32 \<noteq> 0"
      then have "(0 :: u32) = drop_bit (32 - n mod 32) (- 1)" using part \<open>n div 32 = 0\<close> by simp
      moreover have "bit (drop_bit (32 - n mod 32) (- 1 :: u32)) 0" using a by (simp add: bit_mask_iff)
      ultimately show False by simp
    qed
    ultimately show "n = 0" by (metis div_mult_mod_eq mult_0 add_0)
  next
    assume "n = 0"
    then show b using b by (simp add: all_seen_def)
  qed
  then show ?thesis using b by simp
qed

lemma noinit_nothing:
  assumes t: "terminated flds" and n: "1 < length flds"
  shows "noinit_with env d sub flds dest ds (buf_at [] rest e) =
    (if list_all (\<lambda>f. htype f \<noteq> PB_HTYPE_REQUIRED) (butlast flds) then Some (True, ds, buf_at [] rest e)
     else dec_error ''missing required field'' ds (buf_at [] rest e))"
proof -
  let ?m = "min (required_before (butlast flds) (length flds - 1)) PB_MAX_REQUIRED_FIELDS"
  have "decode_loop env d sub \<lparr>l_iter = iter_at flds dest 0, l_seen = [0, 0], l_ext = 0\<rparr> ds (buf_at [] rest e) =
    Some (True, \<lparr>l_iter = iter_at flds dest 0, l_seen = [0, 0], l_ext = 0\<rparr>, ds, buf_at [] rest e)"
    by (subst decode_loop.simps) (simp add: buf_at_def)
  moreover have "required_count (iter_at flds dest 0) = Some ?m" using n by (intro required_count_at [OF t]) simp
  moreover have "?m = 0 \<longleftrightarrow> filter (\<lambda>f. htype f = PB_HTYPE_REQUIRED) (butlast flds) = []"
  proof -
    have "min a 64 = 0 \<longleftrightarrow> a = 0" for a :: nat by (simp add: min_def)
    then show ?thesis by (simp add: required_before_def PB_MAX_REQUIRED_FIELDS_def)
  qed
  then have "?m = 0 \<longleftrightarrow> list_all (\<lambda>f. htype f \<noteq> PB_HTYPE_REQUIRED) (butlast flds)"
    by (simp add: filter_empty_conv list_all_iff)
  ultimately show ?thesis
    using iter_begin_at [OF t n, of dest] all_seen_none [of ?m] by (simp add: noinit_with_def)
qed

section \<open>Properties of the decoder\<close>

text \<open>
  C17. \<open>pb_decode\<close> returns on every input: whatever bytes the buffer holds and whatever the memory
  contains, decoding into a struct whose descriptors fit the memory ends with true or false. It
  has stayed inside the buffer and inside the memory: every load and store of the model fails
  outside them, and none did. A callback must take bytes when it succeeds, for its caller loops.
\<close>

theorem pb_decode_total:
  fixes env :: "('s, 'w) dec_env"
  assumes "callbacks_ok (length (dmem ds)) env" "fits_struct (length (dmem ds)) d flds dest" "fits xs"
  shows "\<exists>ok ds' zs ts e'. pb_decode env d flds dest ds (buf_at xs rest e :: 's istream) = Some (ok, ds', buf_at zs ts e') \<and>
    length (dmem ds') = length (dmem ds) \<and> length zs \<le> length xs \<and> (\<exists>pre. xs @ rest = pre @ zs @ ts)"
proof -
  obtain ok ds' st' where d: "pb_decode env d flds dest ds (buf_at xs rest e :: 's istream) = Some (ok, ds', st')"
    "length (dmem ds') = length (dmem ds)" "within xs rest st'"
    using safe_decE [OF decode_safe [OF assms(1,2)] refl assms(3)] by metis
  then show ?thesis unfolding within_def by fastforce
qed

text \<open>A callback that reads one byte, and a message with a string, an array and a nested message.\<close>

definition byte_callbacks :: "(unit, unit) dec_env" where
  "byte_callbacks = \<lparr>dec_callbacks = \<lambda>_. Some (\<lambda>_ _. dec_with pb_readbyte (\<lambda>_. dec_ok)), dec_ext_types = \<lambda>_. None\<rparr>"

definition nested_fields :: "pb_field list" where
  "nested_fields =
     [Field 1 0x16 1 (- 1) 8 0 NULL, Field 2 0x21 1 (- 1) 4 2 NULL,
      Field 3 0x07 0 0 4 0 (Submsg [Field 1 0x01 0 0 4 0 NULL, Field 0 0 0 0 0 0 NULL]),
      Field 4 0x46 0 0 8 0 NULL, Field 0 0 0 0 0 0 NULL]"

lemma byte_callbacks_ok: "callbacks_ok L byte_callbacks"
proof -
  have "safe_dec L (dec_with pb_readbyte (\<lambda>_. dec_ok) :: (unit, unit) dec)" by (intro safe_intros bounds_intros)
  moreover have "dec_eats (dec_with pb_readbyte (\<lambda>_. dec_ok) :: (unit, unit) dec)"
    by (rule dec_eats_with) (auto simp: eats_def dec_ok_def dest: readbyte_left)
  ultimately show ?thesis by (auto simp: callbacks_ok_def byte_callbacks_def callback_ok_def dec_eats_def)
qed

lemma nested_fields_fit: "fits_struct 48 2 nested_fields 1"
  by code_simp

theorem pb_decode_total_witness:
  "\<exists>ok ds' zs ts e'. pb_decode byte_callbacks 2 nested_fields 1 \<lparr>dmem = replicate 48 0, world = ()\<rparr>
      (buf_at [10, 1, 65, 26, 2, 8, 5] [] None) = Some (ok, ds', buf_at zs ts e') \<and>
    length (dmem ds') = length (dmem \<lparr>dmem = replicate 48 (0 :: byte), world = ()\<rparr>) \<and>
    length zs \<le> length [10, 1, 65, 26, 2, 8, 5 :: byte] \<and> (\<exists>pre. [10, 1, 65, 26, 2, 8, 5] @ [] = pre @ zs @ ts)"
  using byte_callbacks_ok nested_fields_fit by (intro pb_decode_total) simp_all

text \<open>
  The required fields are checked: decoding no bytes at all succeeds exactly when no field is
  required, and leaves the struct and the stream alone; otherwise the error says so.
\<close>

theorem required_fields_checked:
  assumes "terminated flds" "1 < length flds"
  shows "pb_decode_noinit env (Suc d) flds dest ds (buf_at [] rest None) =
    (if list_all (\<lambda>f. htype f \<noteq> PB_HTYPE_REQUIRED) (butlast flds) then Some (True, ds, buf_at [] rest None)
     else Some (False, ds, buf_at [] rest (Some ''missing required field'')))"
  by (simp add: noinit_nothing [OF assms] dec_error_def set_ierr_at)

theorem required_fields_checked_witness:
  "pb_decode_noinit byte_callbacks (Suc 0) nested_fields 1 \<lparr>dmem = replicate 48 0, world = ()\<rparr> (buf_at [] [] None) =
    (if list_all (\<lambda>f. htype f \<noteq> PB_HTYPE_REQUIRED) (butlast nested_fields)
     then Some (True, \<lparr>dmem = replicate 48 0, world = ()\<rparr>, buf_at [] [] None)
     else Some (False, \<lparr>dmem = replicate 48 0, world = ()\<rparr>, buf_at [] [] (Some ''missing required field'')))"
  by (rule required_fields_checked) code_simp+

text \<open>
  The iterator: from any field of a descriptor array \<open>pb_field_iter_find\<close> returns, and it
  finds a field with the tag exactly when there is one that is not an extension, wherever the
  search started; when there is none the iterator is back where it was.
\<close>

theorem iter_find_complete:
  assumes "terminated flds" "k < length flds - 1"
  shows "\<exists>found j. pb_field_iter_find (iter_at flds dest k) t = Some (found, iter_at flds dest j) \<and> j < length flds - 1 \<and>
    (found \<longleftrightarrow> (\<exists>i < length flds - 1. wanted_by t (flds ! i))) \<and> (if found then wanted_by t (flds ! j) else j = k)"
proof (cases rule: iter_find_at [OF assms, of t dest])
  case (1 j)
  then show ?thesis by (intro exI [of _ True] exI [of _ j]) auto
next
  case 2
  then show ?thesis using assms(2) by (intro exI [of _ False] exI [of _ k]) auto
qed

theorem iter_find_complete_witness:
  "\<exists>found j. pb_field_iter_find (iter_at nested_fields 1 2) 1 = Some (found, iter_at nested_fields 1 j) \<and> j < length nested_fields - 1 \<and>
    (found \<longleftrightarrow> (\<exists>i < length nested_fields - 1. wanted_by 1 (nested_fields ! i))) \<and>
    (if found then wanted_by 1 (nested_fields ! j) else j = 2)"
  by (rule iter_find_complete) code_simp+

end
