(* ===== verification/Messages.thy ===== *)
theory Messages
  imports PbDecodeSpec
begin

text \<open>
  The generated messages (speech/nanopb-gen/*.pb.h and *.pb.c): the C structs, the descriptor
  tables, and the macros of pb.h that compute a descriptor from a struct.

  \<open>ctype\<close> gives a member its size and alignment on the 32-bit ARM target: a scalar of \<open>n\<close> bytes is
  aligned to \<open>n\<close>, an enum and a float have 4 bytes, a bool one, and \<open>pb_callback_t\<close> is the pointer to
  the function with \<open>arg\<close> behind it.
\<close>

section \<open>Structs\<close>

datatype ctype = Scalar nat | Callback | Pointer ctype | Array nat ctype | Struct "(string \<times> ctype) list"

abbreviation "c_bool \<equiv> Scalar 1"
abbreviation "c_int32 \<equiv> Scalar 4"
abbreviation "c_uint32 \<equiv> Scalar 4"
abbreviation "c_uint64 \<equiv> Scalar 8"
abbreviation "c_float \<equiv> Scalar 4"
abbreviation "c_enum \<equiv> Scalar 4"

definition align_up :: "nat \<Rightarrow> nat \<Rightarrow> nat" where
  "align_up n a = (n + a - 1) div a * a"

fun align_of :: "ctype \<Rightarrow> nat" and align_members :: "(string \<times> ctype) list \<Rightarrow> nat" where
  "align_of (Scalar n) = n"
| "align_of Callback = 4"
| "align_of (Pointer t) = 4"
| "align_of (Array n t) = align_of t"
| "align_of (Struct ms) = align_members ms"
| "align_members [] = 1"
| "align_members ((_, t) # ms) = max (align_of t) (align_members ms)"

text \<open>The members with their offsets; a struct ends at a multiple of its alignment.\<close>

fun size_of :: "ctype \<Rightarrow> nat" and members_end :: "nat \<Rightarrow> (string \<times> ctype) list \<Rightarrow> nat" where
  "size_of (Scalar n) = n"
| "size_of Callback = 8"
| "size_of (Pointer t) = 4"
| "size_of (Array n t) = n * size_of t"
| "size_of (Struct ms) = align_up (members_end 0 ms) (align_members ms)"
| "members_end e [] = e"
| "members_end e ((_, t) # ms) = members_end (align_up e (align_of t) + size_of t) ms"

fun find_member :: "nat \<Rightarrow> (string \<times> ctype) list \<Rightarrow> string \<Rightarrow> (nat \<times> ctype) c" where
  "find_member e [] m = None"
| "find_member e ((n, t) # ms) m =
     (let a = align_up e (align_of t) in if n = m then Some (a, t) else find_member (a + size_of t) ms m)"

fun member :: "ctype \<Rightarrow> string \<Rightarrow> (nat \<times> ctype) c" where
  "member (Struct ms) m = find_member 0 ms m"
| "member _ m = None"

text \<open>\<open>offsetof\<close>, \<open>pb_membersize(st, m)\<close>, \<open>pb_membersize(st, m[0])\<close>, \<open>pb_arraysize\<close> and \<open>pb_delta\<close>\<close>

definition offset_of :: "ctype \<Rightarrow> string \<Rightarrow> int c" where
  "offset_of st m = map_option (\<lambda>(a, t). int a) (member st m)"

definition pb_membersize :: "ctype \<Rightarrow> string \<Rightarrow> int c" where
  "pb_membersize st m = map_option (\<lambda>(a, t). int (size_of t)) (member st m)"

definition item_size :: "ctype \<Rightarrow> string \<Rightarrow> int c" where
  "item_size st m = do { (_, t) \<leftarrow> member st m; (case t of Array n u \<Rightarrow> Some (int (size_of u)) | Pointer u \<Rightarrow> Some (int (size_of u)) | _ \<Rightarrow> None) }"

definition pb_arraysize :: "ctype \<Rightarrow> string \<Rightarrow> int c" where
  "pb_arraysize st m = do { s \<leftarrow> pb_membersize st m; i \<leftarrow> item_size st m; Some (s div i) }"

definition pb_delta :: "ctype \<Rightarrow> string \<Rightarrow> string \<Rightarrow> int c" where
  "pb_delta st m1 m2 = do { a \<leftarrow> offset_of st m1; b \<leftarrow> offset_of st m2; Some (a - b) }"

section \<open>The macros\<close>

datatype pb_kind = BOOL | BYTES | DOUBLE | ENUM | UENUM | FIXED32 | FIXED64 | FLOAT | INT32 | INT64 | MESSAGE | SFIXED32
  | SFIXED64 | SINT32 | SINT64 | STRING | UINT32 | UINT64 | EXTENSION | FIXED_LENGTH_BYTES

datatype pb_rule = REQUIRED | OPTIONAL | SINGULAR | REPEATED | OPTEXT
datatype pb_alloc = STATIC | POINTER | CALLBACK
datatype pb_place = FIRST | OTHER | UNION

fun PB_LTYPE_MAP :: "pb_kind \<Rightarrow> byte" where
  "PB_LTYPE_MAP BOOL = PB_LTYPE_VARINT"
| "PB_LTYPE_MAP BYTES = PB_LTYPE_BYTES"
| "PB_LTYPE_MAP DOUBLE = PB_LTYPE_FIXED64"
| "PB_LTYPE_MAP ENUM = PB_LTYPE_VARINT"
| "PB_LTYPE_MAP UENUM = PB_LTYPE_UVARINT"
| "PB_LTYPE_MAP FIXED32 = PB_LTYPE_FIXED32"
| "PB_LTYPE_MAP FIXED64 = PB_LTYPE_FIXED64"
| "PB_LTYPE_MAP FLOAT = PB_LTYPE_FIXED32"
| "PB_LTYPE_MAP INT32 = PB_LTYPE_VARINT"
| "PB_LTYPE_MAP INT64 = PB_LTYPE_VARINT"
| "PB_LTYPE_MAP MESSAGE = PB_LTYPE_SUBMESSAGE"
| "PB_LTYPE_MAP SFIXED32 = PB_LTYPE_FIXED32"
| "PB_LTYPE_MAP SFIXED64 = PB_LTYPE_FIXED64"
| "PB_LTYPE_MAP SINT32 = PB_LTYPE_SVARINT"
| "PB_LTYPE_MAP SINT64 = PB_LTYPE_SVARINT"
| "PB_LTYPE_MAP STRING = PB_LTYPE_STRING"
| "PB_LTYPE_MAP UINT32 = PB_LTYPE_UVARINT"
| "PB_LTYPE_MAP UINT64 = PB_LTYPE_UVARINT"
| "PB_LTYPE_MAP EXTENSION = PB_LTYPE_EXTENSION"
| "PB_LTYPE_MAP FIXED_LENGTH_BYTES = PB_LTYPE_FIXED_LENGTH_BYTES"

text \<open>\<open>PB_DATAOFFSET_FIRST\<close>, \<open>PB_DATAOFFSET_OTHER\<close> and \<open>PB_DATAOFFSET_UNION\<close>\<close>

fun PB_DATAOFFSET :: "pb_place \<Rightarrow> ctype \<Rightarrow> string \<Rightarrow> string \<Rightarrow> int c" where
  "PB_DATAOFFSET FIRST st m1 m2 = offset_of st m1"
| "PB_DATAOFFSET OTHER st m1 m2 = do {
     a \<leftarrow> offset_of st m1; b \<leftarrow> offset_of st m2; s \<leftarrow> pb_membersize st m2; Some (a - b - s) }"
| "PB_DATAOFFSET UNION st m1 m2 = Some 255"

definition PB_LAST_FIELD :: pb_field where
  "PB_LAST_FIELD = Field 0 0 0 0 0 0 NULL"

text \<open>A descriptor with the numbers narrowed to the 8 bits of its members.\<close>

definition descriptor :: "nat \<Rightarrow> byte \<Rightarrow> int \<Rightarrow> int \<Rightarrow> int \<Rightarrow> int \<Rightarrow> field_ptr \<Rightarrow> pb_field" where
  "descriptor tg ty d_off s_off sz arr ptr =
     Field (of_nat tg) ty (of_int d_off) (of_int s_off) (of_int sz) (of_int arr) ptr"

fun rule_bits :: "pb_rule \<Rightarrow> pb_alloc \<Rightarrow> byte" where
  "rule_bits REQUIRED _ = PB_HTYPE_REQUIRED"
| "rule_bits OPTIONAL _ = PB_HTYPE_OPTIONAL"
| "rule_bits SINGULAR _ = PB_HTYPE_OPTIONAL"
| "rule_bits REPEATED _ = PB_HTYPE_REPEATED"
| "rule_bits OPTEXT STATIC = PB_HTYPE_REQUIRED"
| "rule_bits OPTEXT _ = PB_HTYPE_OPTIONAL"

fun alloc_bits :: "pb_alloc \<Rightarrow> byte" where
  "alloc_bits STATIC = PB_ATYPE_STATIC"
| "alloc_bits POINTER = PB_ATYPE_POINTER"
| "alloc_bits CALLBACK = PB_ATYPE_CALLBACK"

text \<open>The size offset of \<open>PB_<rule>_<allocation>\<close>: the has member of an optional one, the count of an array.\<close>

fun rule_size_offset :: "pb_rule \<Rightarrow> pb_alloc \<Rightarrow> ctype \<Rightarrow> string \<Rightarrow> int c" where
  "rule_size_offset OPTIONAL STATIC st m = pb_delta st (''has_'' @ m) m"
| "rule_size_offset REPEATED STATIC st m = pb_delta st (m @ ''_count'') m"
| "rule_size_offset REPEATED POINTER st m = pb_delta st (m @ ''_count'') m"
| "rule_size_offset _ _ st m = Some 0"

fun rule_data_size :: "pb_rule \<Rightarrow> pb_alloc \<Rightarrow> ctype \<Rightarrow> string \<Rightarrow> int c" where
  "rule_data_size REPEATED STATIC st m = item_size st m"
| "rule_data_size _ POINTER st m = item_size st m"
| "rule_data_size _ _ st m = pb_membersize st m"

fun rule_array_size :: "pb_rule \<Rightarrow> pb_alloc \<Rightarrow> ctype \<Rightarrow> string \<Rightarrow> int c" where
  "rule_array_size REPEATED STATIC st m = pb_arraysize st m"
| "rule_array_size _ _ st m = Some 0"

definition PB_FIELD :: "nat \<Rightarrow> pb_kind \<Rightarrow> pb_rule \<Rightarrow> pb_alloc \<Rightarrow> pb_place \<Rightarrow> ctype \<Rightarrow> string \<Rightarrow> string \<Rightarrow> field_ptr \<Rightarrow> pb_field c" where
  "PB_FIELD tg kind rule alloc place st m prev ptr = do {
     fd \<leftarrow> (if rule = OPTEXT \<and> alloc = STATIC then Some 0 else PB_DATAOFFSET place st m prev);
     so \<leftarrow> rule_size_offset rule alloc st m;
     ds \<leftarrow> rule_data_size rule alloc st m;
     n \<leftarrow> rule_array_size rule alloc st m;
     Some (descriptor tg (alloc_bits alloc OR rule_bits rule alloc OR PB_LTYPE_MAP kind) fd so ds n ptr) }"

section \<open>The generated structs\<close>

definition AuthRequest :: ctype where
  "AuthRequest = Struct
     [(''key'', Callback), (''device_type_id'', Callback), (''device_id'', Callback),
      (''service'', Callback), (''version'', Callback), (''timestamp'', Callback), (''sign'', Callback)]"

definition AuthResponse :: ctype where
  "AuthResponse = Struct
     [(''result'', c_enum)]"

definition PingPayload :: ctype where
  "PingPayload = Struct
     [(''req_id'', c_int32), (''now_tp'', c_uint64), (''req_tp'', c_uint64), (''resp_tp'', c_uint64)]"

definition SpeechOptions :: ctype where
  "SpeechOptions = Struct
     [(''lang'', c_enum), (''codec'', c_enum), (''vad_mode'', c_enum), (''has_vend_timeout'', c_bool),
      (''vend_timeout'', c_uint32), (''no_nlp'', c_bool), (''no_intermediate_asr'', c_bool),
      (''stack'', Callback), (''voice_trigger'', Callback), (''has_voice_power'', c_bool),
      (''voice_power'', c_float), (''has_trigger_start'', c_bool), (''trigger_start'', c_uint32),
      (''has_trigger_length'', c_bool), (''trigger_length'', c_uint32), (''skill_options'', Callback),
      (''voice_extra'', Callback), (''has_vad_begin'', c_bool), (''vad_begin'', c_uint32),
      (''has_no_trigger_confirm'', c_bool), (''no_trigger_confirm'', c_bool)]"

definition SpeechResponse :: ctype where
  "SpeechResponse = Struct
     [(''id'', c_int32), (''type'', c_enum), (''result'', c_enum), (''asr'', Callback),
      (''nlp'', Callback), (''action'', Callback), (''extra'', Callback)]"

definition SpeechRequest :: ctype where
  "SpeechRequest = Struct
     [(''id'', c_int32), (''type'', c_enum), (''voice'', Callback), (''asr'', Callback),
      (''has_options'', c_bool), (''options'', SpeechOptions)]"

definition TtsRequest :: ctype where
  "TtsRequest = Struct
     [(''id'', c_int32), (''text'', Callback), (''declaimer'', Callback), (''codec'', Callback),
      (''has_sample_rate'', c_bool), (''sample_rate'', c_uint32)]"

definition TtsResponse :: ctype where
  "TtsResponse = Struct
     [(''id'', c_int32), (''result'', c_enum), (''text'', Callback), (''voice'', Callback),
      (''has_finish'', c_bool), (''finish'', c_bool)]"

section \<open>The generated tables\<close>

text \<open>A line of a table, \<open>PB_FIELD(tag, type, rule, allocation, placement, message, field, previous, ptr)\<close>.\<close>

datatype table_line = FieldLine (e_tag: nat) (e_kind: pb_kind) (e_rule: pb_rule) (e_alloc: pb_alloc) (e_place: pb_place)
  (e_member: string) (e_prev: string) (e_ptr: field_ptr)

fun line_field :: "ctype \<Rightarrow> table_line \<Rightarrow> pb_field c" where
  "line_field st (FieldLine tg kind rule alloc place m prev ptr) = PB_FIELD tg kind rule alloc place st m prev ptr"

definition table_of :: "ctype \<Rightarrow> table_line list \<Rightarrow> pb_field list" where
  "table_of st ls = List.map_filter (line_field st) ls @ [PB_LAST_FIELD]"

definition AuthRequest_lines :: "table_line list" where
  "AuthRequest_lines =
     [FieldLine 1 STRING REQUIRED CALLBACK FIRST ''key'' ''key'' NULL,
      FieldLine 2 STRING REQUIRED CALLBACK OTHER ''device_type_id'' ''key'' NULL,
      FieldLine 3 STRING REQUIRED CALLBACK OTHER ''device_id'' ''device_type_id'' NULL,
      FieldLine 4 STRING REQUIRED CALLBACK OTHER ''service'' ''device_id'' NULL,
      FieldLine 5 STRING REQUIRED CALLBACK OTHER ''version'' ''service'' NULL,
      FieldLine 6 STRING REQUIRED CALLBACK OTHER ''timestamp'' ''version'' NULL,
      FieldLine 7 STRING REQUIRED CALLBACK OTHER ''sign'' ''timestamp'' NULL]"

definition AuthRequest_fields :: "pb_field list" where
  "AuthRequest_fields = table_of AuthRequest AuthRequest_lines"

definition AuthResponse_lines :: "table_line list" where
  "AuthResponse_lines =
     [FieldLine 1 UENUM REQUIRED STATIC FIRST ''result'' ''result'' NULL]"

definition AuthResponse_fields :: "pb_field list" where
  "AuthResponse_fields = table_of AuthResponse AuthResponse_lines"

definition PingPayload_lines :: "table_line list" where
  "PingPayload_lines =
     [FieldLine 1 INT32 REQUIRED STATIC FIRST ''req_id'' ''req_id'' NULL,
      FieldLine 2 UINT64 REQUIRED STATIC OTHER ''now_tp'' ''req_id'' NULL,
      FieldLine 3 UINT64 REQUIRED STATIC OTHER ''req_tp'' ''now_tp'' NULL,
      FieldLine 4 UINT64 REQUIRED STATIC OTHER ''resp_tp'' ''req_tp'' NULL]"

definition PingPayload_fields :: "pb_field list" where
  "PingPayload_fields = table_of PingPayload PingPayload_lines"

definition SpeechOptions_lines :: "table_line list" where
  "SpeechOptions_lines =
     [FieldLine 1 UENUM REQUIRED STATIC FIRST ''lang'' ''lang'' NULL,
      FieldLine 2 UENUM REQUIRED STATIC OTHER ''codec'' ''lang'' NULL,
      FieldLine 3 UENUM REQUIRED STATIC OTHER ''vad_mode'' ''codec'' NULL,
      FieldLine 4 UINT32 OPTIONAL STATIC OTHER ''vend_timeout'' ''vad_mode'' NULL,
      FieldLine 5 BOOL REQUIRED STATIC OTHER ''no_nlp'' ''vend_timeout'' NULL,
      FieldLine 6 BOOL REQUIRED STATIC OTHER ''no_intermediate_asr'' ''no_nlp'' NULL,
      FieldLine 7 STRING OPTIONAL CALLBACK OTHER ''stack'' ''no_intermediate_asr'' NULL,
      FieldLine 8 STRING OPTIONAL CALLBACK OTHER ''voice_trigger'' ''stack'' NULL,
      FieldLine 9 FLOAT OPTIONAL STATIC OTHER ''voice_power'' ''voice_trigger'' NULL,
      FieldLine 10 UINT32 OPTIONAL STATIC OTHER ''trigger_start'' ''voice_power'' NULL,
      FieldLine 11 UINT32 OPTIONAL STATIC OTHER ''trigger_length'' ''trigger_start'' NULL,
      FieldLine 12 STRING OPTIONAL CALLBACK OTHER ''skill_options'' ''trigger_length'' NULL,
      FieldLine 13 STRING OPTIONAL CALLBACK OTHER ''voice_extra'' ''skill_options'' NULL,
      FieldLine 14 UINT32 OPTIONAL STATIC OTHER ''vad_begin'' ''voice_extra'' NULL,
      FieldLine 15 BOOL OPTIONAL STATIC OTHER ''no_trigger_confirm'' ''vad_begin'' NULL]"

definition SpeechOptions_fields :: "pb_field list" where
  "SpeechOptions_fields = table_of SpeechOptions SpeechOptions_lines"

definition SpeechResponse_lines :: "table_line list" where
  "SpeechResponse_lines =
     [FieldLine 1 INT32 REQUIRED STATIC FIRST ''id'' ''id'' NULL,
      FieldLine 2 UENUM REQUIRED STATIC OTHER ''type'' ''id'' NULL,
      FieldLine 3 UENUM REQUIRED STATIC OTHER ''result'' ''type'' NULL,
      FieldLine 4 STRING OPTIONAL CALLBACK OTHER ''asr'' ''result'' NULL,
      FieldLine 5 STRING OPTIONAL CALLBACK OTHER ''nlp'' ''asr'' NULL,
      FieldLine 6 STRING OPTIONAL CALLBACK OTHER ''action'' ''nlp'' NULL,
      FieldLine 7 STRING OPTIONAL CALLBACK OTHER ''extra'' ''action'' NULL]"

definition SpeechResponse_fields :: "pb_field list" where
  "SpeechResponse_fields = table_of SpeechResponse SpeechResponse_lines"

definition SpeechRequest_lines :: "table_line list" where
  "SpeechRequest_lines =
     [FieldLine 1 INT32 REQUIRED STATIC FIRST ''id'' ''id'' NULL,
      FieldLine 2 UENUM REQUIRED STATIC OTHER ''type'' ''id'' NULL,
      FieldLine 3 BYTES OPTIONAL CALLBACK OTHER ''voice'' ''type'' NULL,
      FieldLine 4 STRING OPTIONAL CALLBACK OTHER ''asr'' ''voice'' NULL,
      FieldLine 5 MESSAGE OPTIONAL STATIC OTHER ''options'' ''asr'' (Submsg SpeechOptions_fields)]"

definition SpeechRequest_fields :: "pb_field list" where
  "SpeechRequest_fields = table_of SpeechRequest SpeechRequest_lines"

definition TtsRequest_lines :: "table_line list" where
  "TtsRequest_lines =
     [FieldLine 1 INT32 REQUIRED STATIC FIRST ''id'' ''id'' NULL,
      FieldLine 2 STRING REQUIRED CALLBACK OTHER ''text'' ''id'' NULL,
      FieldLine 3 STRING OPTIONAL CALLBACK OTHER ''declaimer'' ''text'' NULL,
      FieldLine 4 STRING OPTIONAL CALLBACK OTHER ''codec'' ''declaimer'' NULL,
      FieldLine 5 UINT32 OPTIONAL STATIC OTHER ''sample_rate'' ''codec'' NULL]"

definition TtsRequest_fields :: "pb_field list" where
  "TtsRequest_fields = table_of TtsRequest TtsRequest_lines"

definition TtsResponse_lines :: "table_line list" where
  "TtsResponse_lines =
     [FieldLine 1 INT32 REQUIRED STATIC FIRST ''id'' ''id'' NULL,
      FieldLine 2 UENUM REQUIRED STATIC OTHER ''result'' ''id'' NULL,
      FieldLine 3 STRING OPTIONAL CALLBACK OTHER ''text'' ''result'' NULL,
      FieldLine 4 BYTES OPTIONAL CALLBACK OTHER ''voice'' ''text'' NULL,
      FieldLine 5 BOOL OPTIONAL STATIC OTHER ''finish'' ''voice'' NULL]"

definition TtsResponse_fields :: "pb_field list" where
  "TtsResponse_fields = table_of TtsResponse TtsResponse_lines"


section \<open>Well-typed tables\<close>

text \<open>The C type a member of each kind and allocation must have.\<close>

fun kind_type :: "pb_kind \<Rightarrow> pb_alloc \<Rightarrow> ctype \<Rightarrow> bool" where
  "kind_type _ CALLBACK t \<longleftrightarrow> t = Callback"
| "kind_type BOOL STATIC t \<longleftrightarrow> t = c_bool"
| "kind_type MESSAGE STATIC t \<longleftrightarrow> (case t of Struct _ \<Rightarrow> True | _ \<Rightarrow> False)"
| "kind_type kind STATIC t \<longleftrightarrow>
     (if kind \<in> {UINT64, INT64, SINT64, FIXED64, SFIXED64, DOUBLE} then t = Scalar 8
      else kind \<in> {UINT32, INT32, SINT32, FIXED32, SFIXED32, FLOAT, ENUM, UENUM} \<and> t = Scalar 4)"
| "kind_type _ POINTER t \<longleftrightarrow> False"

text \<open>
  A line of a table with what the iterator makes of it: the data of the field are the member of
  the line, with its size and its type, and the size cell of an optional member is its has flag.
\<close>

definition line_ok :: "ctype \<Rightarrow> addr \<Rightarrow> table_line \<Rightarrow> slot \<Rightarrow> bool" where
  "line_ok st dest l s \<longleftrightarrow>
     unat (f_tag (s_field s)) = e_tag l \<and> f_ptr (s_field s) = e_ptr l \<and>
     (case member st (e_member l) of
        None \<Rightarrow> False
      | Some (a, t) \<Rightarrow> s_data s = dest + int a \<and> unat (data_size (s_field s)) = size_of t \<and> kind_type (e_kind l) (e_alloc l) t) \<and>
     (if e_rule l = OPTIONAL \<and> e_alloc l = STATIC
      then (case member st (''has_'' @ e_member l) of
              None \<Rightarrow> False | Some (b, t) \<Rightarrow> s_size s = dest + int b \<and> t = c_bool)
      else s_size s = s_data s)"

definition messages :: "(ctype \<times> table_line list \<times> pb_field list) list" where
  "messages =
     [(AuthRequest, AuthRequest_lines, AuthRequest_fields), (AuthResponse, AuthResponse_lines, AuthResponse_fields),
      (PingPayload, PingPayload_lines, PingPayload_fields), (SpeechOptions, SpeechOptions_lines, SpeechOptions_fields),
      (SpeechResponse, SpeechResponse_lines, SpeechResponse_fields), (SpeechRequest, SpeechRequest_lines, SpeechRequest_fields),
      (TtsRequest, TtsRequest_lines, TtsRequest_fields), (TtsResponse, TtsResponse_lines, TtsResponse_fields)]"

text \<open>What holds at the address 1 in a memory that just holds the struct holds wherever it fits.\<close>

definition shift_slot :: "int \<Rightarrow> slot \<Rightarrow> slot" where
  "shift_slot k s = s\<lparr>s_data := s_data s + k, s_size := s_size s + k\<rparr>"

lemma shift_slot_simps [simp]:
  "s_field (shift_slot k s) = s_field s" "s_data (shift_slot k s) = s_data s + k" "s_size (shift_slot k s) = s_size s + k"
  by (simp_all add: shift_slot_def)

lemma next_slot_shift: "next_slot (shift_slot k s) f = shift_slot k (next_slot s f)"
  by (cases s) (auto simp: next_slot_def shift_slot_def Let_def)

lemma slots_from_shift: "slots_from (shift_slot k s) fs = map (shift_slot k) (slots_from s fs)"
  by (induction fs arbitrary: s) (simp_all add: next_slot_shift)

lemma slots_shift: "slots fs (dest + k) = map (shift_slot k) (slots fs dest)"
proof (cases fs)
  case (Cons f fs')
  have "first_slot f (dest + k) = shift_slot k (first_slot f dest)"
    by (simp add: first_slot_def shift_slot_def Let_def)
  then show ?thesis using Cons by (simp add: slots_from_shift)
qed simp

lemma cell_ok_shift: "cell_ok L a \<Longrightarrow> 0 \<le> k \<Longrightarrow> L + nat k \<le> L' \<Longrightarrow> cell_ok L' (a + k)"
  by (auto simp: cell_ok_def)

lemma item_ok_shift:
  assumes "item_ok L v f a" "0 \<le> k" "L + nat k \<le> L'" and v: "\<forall>flds b. v flds b \<longrightarrow> v' flds (b + k)"
  shows "item_ok L' v' f (a + k)"
  using assms(1-3) v unfolding item_ok_def by (cases "f_ptr f") (auto simp: nat_add_distrib)

lemma slot_ok_shift:
  assumes s: "slot_ok L v s" and k: "0 \<le> k" "L + nat k \<le> L'" and v: "\<forall>flds b. v flds b \<longrightarrow> v' flds (b + k)"
  shows "slot_ok L' v' (shift_slot k s)"
proof -
  let ?f = "s_field s"
  note item = item_ok_shift [OF _ k v] and cell = cell_ok_shift [OF _ k]
  have pos: "0 < s_data s \<and> nat (s_data s) + n \<le> L \<longrightarrow> 0 < s_data s + k \<and> nat (s_data s + k) + n \<le> L'" for n
    using k by (auto simp: nat_add_distrib)
  have swap: "s_data s + k + z = s_data s + z + k" for z by simp
  show ?thesis
  proof (cases "atype ?f = PB_ATYPE_STATIC")
    case True
    show ?thesis
    proof (cases "htype ?f = PB_HTYPE_REPEATED")
      case rep: True
      then show ?thesis using s True item cell unfolding slot_ok_def Let_def by (simp add: list_all_iff swap)
    next
      case False
      then show ?thesis using s True item [of ?f "s_data s"] cell unfolding slot_ok_def Let_def by auto
    qed
  next
    case False
    then show ?thesis using s cell pos unfolding slot_ok_def Let_def by auto
  qed
qed

lemma fits_struct_shift:
  assumes k: "0 \<le> k" "L + nat k \<le> L'"
  shows "fits_struct L d flds dest \<Longrightarrow> fits_struct L' d flds (dest + k)"
proof (induction d arbitrary: flds dest)
  case (Suc d)
  have "slot_ok L' (fits_struct L' d) (shift_slot k s)" if "slot_ok L (fits_struct L d) s" for s
    using slot_ok_shift [OF that k] Suc.IH by blast
  then show ?case using Suc.prems by (auto simp: slots_shift list_all_iff)
qed simp

lemma line_ok_shift: "line_ok st dest l s \<Longrightarrow> line_ok st (dest + k) l (shift_slot k s)"
  by (auto simp: line_ok_def split: option.splits if_splits)

definition message_ok :: "nat \<Rightarrow> addr \<Rightarrow> ctype \<times> table_line list \<times> pb_field list \<Rightarrow> bool" where
  "message_ok L dest = (\<lambda>(st, ls, flds). fits_struct L 2 flds dest \<and> length flds = Suc (length ls) \<and>
     list_all2 (line_ok st dest) ls (slots (butlast flds) dest))"

lemma message_ok_shift:
  assumes "message_ok L dest m" "0 \<le> k" "L + nat k \<le> L'"
  shows "message_ok L' (dest + k) m"
  using assms fits_struct_shift [OF assms(2,3)]
  by (auto simp: message_ok_def slots_shift list_all2_map2 elim!: list_all2_mono intro: line_ok_shift)

lemma messages_ok: "list_all (\<lambda>m. message_ok (Suc (size_of (fst m))) 1 m) messages"
  by code_simp

section \<open>Property of the tables\<close>

text \<open>
  C35. The generated tables are typed by the structs they describe. Wherever a message struct fits the
  memory, each of its fields is found by the iterator at the offset of the member the line names,
  with the size and the C type of this member, no number cut to 8 bits; the flag of an optional
  member is the has member of the struct; and the descriptors, those of the nested options included,
  satisfy all that the decoder asks of a struct it fills.
\<close>

theorem messages_well_typed:
  assumes "(st, ls, flds) \<in> set messages" and "0 < dest" and "nat dest + size_of st \<le> L"
  shows "fits_struct L 2 flds dest \<and> length flds = Suc (length ls) \<and>
    list_all2 (line_ok st dest) ls (slots (butlast flds) dest)"
proof -
  have "message_ok (Suc (size_of st)) 1 (st, ls, flds)"
    using messages_ok assms(1) by (auto simp: list_all_iff)
  then have "message_ok L (1 + (dest - 1)) (st, ls, flds)"
    using assms(2,3) by (rule_tac message_ok_shift) auto
  then show ?thesis by (simp add: message_ok_def)
qed

theorem messages_well_typed_witness:
  "fits_struct 200 2 SpeechRequest_fields 8 \<and> length SpeechRequest_fields = Suc (length SpeechRequest_lines) \<and>
    list_all2 (line_ok SpeechRequest 8) SpeechRequest_lines (slots (butlast SpeechRequest_fields) 8)"
proof (rule messages_well_typed)
  show "(SpeechRequest, SpeechRequest_lines, SpeechRequest_fields) \<in> set messages" by (simp add: messages_def)
  show "nat 8 + size_of SpeechRequest \<le> 200" by code_simp
qed simp

end
