(* ===== verification/Decoder.thy ===== *)
theory Decoder
  imports Messages
begin

text \<open>
  The decoder classes of the speech client (speech/src/common/nanopb_decoder.cc and .h): a response
  object is a nanopb struct with callbacks, and \<open>shared_ptr<string>\<close> members the callbacks fill.

  The world of the callbacks maps the address of a \<open>shared_ptr\<close> member to its string, None when it
  is empty. \<open>fn\<close> is the address of \<open>NanoPBDecoder::decode_string\<close>, the only function the classes
  store in a callback. The class members are at the addresses \<open>cell m\<close>. The function copies through a
  buffer from \<open>new[]\<close>, which the code frees with \<open>delete\<close>; C++ asks for \<open>delete[]\<close>, and the model takes
  the two as the same.
\<close>

section \<open>The classes\<close>

type_synonym strings = "addr \<Rightarrow> byte list option"

definition decode_string_arg :: "pb_field \<Rightarrow> addr \<Rightarrow> ('s, strings) dec" where
  "decode_string_arg f p ds st =
     (if bytes_left st = 0 then dec_ok ds st
      else dec_with (pb_read False (bytes_left st)) (\<lambda>buf ds st. do {
        a \<leftarrow> ld_ptr (dmem ds) p;
        if a = 0 then Some (False, ds, st)
        else Some (True, ds\<lparr>world := (world ds)(a := Some buf)\<rparr>, st) }) ds st)"

definition string_env :: "addr \<Rightarrow> ('s, strings) dec_env" where
  "string_env fn = \<lparr>dec_callbacks = \<lambda>fp. if fp = fn then Some decode_string_arg else None, dec_ext_types = \<lambda>_. None\<rparr>"

definition init_string_field :: "addr \<Rightarrow> addr \<Rightarrow> addr \<Rightarrow> memory \<Rightarrow> memory c" where
  "init_string_field fn cb strp m = do {
     m1 \<leftarrow> sto m cb (le_bytes 4 (nat fn));
     sto m1 (cb + 4) (le_bytes 4 (nat strp)) }"

record response_class =
  rc_struct :: ctype
  rc_lines :: "table_line list"
  rc_fields :: "pb_field list"
  rc_strings :: "string list"

definition AuthResponse_class :: response_class where
  "AuthResponse_class = \<lparr>rc_struct = AuthResponse, rc_lines = AuthResponse_lines, rc_fields = AuthResponse_fields, rc_strings = []\<rparr>"

definition TtsResponse_class :: response_class where
  "TtsResponse_class = \<lparr>rc_struct = TtsResponse, rc_lines = TtsResponse_lines, rc_fields = TtsResponse_fields,
     rc_strings = [''text'', ''voice'']\<rparr>"

definition SpeechResponse_class :: response_class where
  "SpeechResponse_class = \<lparr>rc_struct = SpeechResponse, rc_lines = SpeechResponse_lines, rc_fields = SpeechResponse_fields,
     rc_strings = [''asr'', ''nlp'', ''action'', ''extra'']\<rparr>"

text \<open>
  A constructor sets the struct to its initializer, which is all zero, and then the callback of
  each string member.
\<close>

fun init_strings :: "ctype \<Rightarrow> addr \<Rightarrow> (string \<Rightarrow> addr) \<Rightarrow> addr \<Rightarrow> string list \<Rightarrow> memory \<Rightarrow> memory c" where
  "init_strings st fn cell dest [] m = Some m"
| "init_strings st fn cell dest (x # xs) m = do {
     a \<leftarrow> offset_of st x;
     m1 \<leftarrow> init_string_field fn (dest + a) (cell x) m;
     init_strings st fn cell dest xs m1 }"

definition new_response :: "response_class \<Rightarrow> addr \<Rightarrow> (string \<Rightarrow> addr) \<Rightarrow> addr \<Rightarrow> memory \<Rightarrow> memory c" where
  "new_response cls fn cell dest m = do {
     m1 \<leftarrow> sto m dest (replicate (size_of (rc_struct cls)) 0);
     init_strings (rc_struct cls) fn cell dest (rc_strings cls) m1 }"

definition clear_super_data :: "response_class \<Rightarrow> (string \<Rightarrow> addr) \<Rightarrow> strings \<Rightarrow> strings" where
  "clear_super_data cls cell w = fold (\<lambda>x w. w(cell x := None)) (rc_strings cls) w"

definition ParseFromArray ::
  "response_class \<Rightarrow> addr \<Rightarrow> (string \<Rightarrow> addr) \<Rightarrow> addr \<Rightarrow> strings dst \<Rightarrow> byte list \<Rightarrow> u32 \<Rightarrow> (bool \<times> strings dst) c" where
  "ParseFromArray cls fn cell dest ds data len = do {
     let ds1 = ds\<lparr>world := clear_super_data cls cell (world ds)\<rparr>;
     (ok, ds2, _) \<leftarrow> pb_decode (string_env fn) 2 (rc_fields cls) dest ds1 (pb_istream_from_buffer data len :: unit istream);
     Some (ok, ds2) }"

text \<open>The accessors: a number of the struct, and what \<open>asr()\<close> and the others return.\<close>

definition get_number :: "response_class \<Rightarrow> addr \<Rightarrow> memory \<Rightarrow> string \<Rightarrow> nat c" where
  "get_number cls dest m x = do {
     (a, t) \<leftarrow> member (rc_struct cls) x;
     bs \<leftarrow> ld m (dest + int a) (int (size_of t));
     Some (le_value bs) }"

definition get_string :: "(string \<Rightarrow> addr) \<Rightarrow> strings \<Rightarrow> string \<Rightarrow> byte list" where
  "get_string cell w x = (case w (cell x) of None \<Rightarrow> [] | Some s \<Rightarrow> s)"

definition has_voice :: "(string \<Rightarrow> addr) \<Rightarrow> strings \<Rightarrow> bool" where
  "has_voice cell w \<longleftrightarrow> w (cell ''voice'') \<noteq> None"

definition release_voice :: "(string \<Rightarrow> addr) \<Rightarrow> strings \<Rightarrow> byte list option \<times> strings" where
  "release_voice cell w = (w (cell ''voice''), w(cell ''voice'' := None))"

section \<open>Cells\<close>

text \<open>Runs of memory that do not overlap.\<close>

definition apart :: "addr \<times> nat \<Rightarrow> addr \<times> nat \<Rightarrow> bool" where
  "apart c d \<longleftrightarrow> fst c + int (snd c) \<le> fst d \<or> fst d + int (snd d) \<le> fst c"

definition cell_bytes :: "memory \<Rightarrow> addr \<times> nat \<Rightarrow> byte list c" where
  "cell_bytes m c = ld m (fst c) (int (snd c))"

lemma apart_sym: "apart c d = apart d c"
  by (auto simp: apart_def)

lemma sto_ld: "sto m a bs = Some m' \<Longrightarrow> cell_bytes m' (a, length bs) = Some bs"
  by (auto simp: cell_bytes_def sto_def ld_def mem_store_def mem_load_def blit_def split: if_splits)

lemma sto_length: "sto m a bs = Some m' \<Longrightarrow> length m' = length m"
  by (auto simp: sto_def mem_store_def split: if_splits)

lemma take_drop_blit:
  assumes "k + n \<le> off \<or> off + length ys \<le> k" and l: "off + length ys \<le> length xs"
  shows "take n (drop k (blit xs off ys)) = take n (drop k xs)"
  using assms(1)
proof
  assume n: "k + n \<le> off"
  have "take (k + n) (blit xs off ys) = take (k + n) xs"
    using n l by (intro take_blit_front) simp_all
  then have "drop k (take (k + n) (blit xs off ys)) = drop k (take (k + n) xs)" by (rule arg_cong)
  then show ?thesis by (simp add: drop_take)
next
  assume "off + length ys \<le> k"
  then show ?thesis using l by (subst drop_blit) simp_all
qed

lemma sto_ld_apart:
  assumes s: "sto m a bs = Some m'" and d: "apart (a, length bs) c"
  shows "cell_bytes m' c = cell_bytes m c"
proof (cases "0 < fst c")
  case True
  have t: "0 < a" "nat a + length bs \<le> length m" "m' = blit m (nat a) bs"
    using s by (auto simp: sto_def mem_store_def split: if_splits)
  have "nat (fst c) + snd c \<le> nat a \<or> nat a + length bs \<le> nat (fst c)"
    using d t(1) True by (auto simp: apart_def nat_le_iff)
  then have "take (snd c) (drop (nat (fst c)) m') = take (snd c) (drop (nat (fst c)) m)"
    unfolding t(3) using t(2) by (rule take_drop_blit)
  then show ?thesis using sto_length [OF s] by (simp add: cell_bytes_def ld_def mem_load_def)
qed (simp add: cell_bytes_def ld_def)

lemma ld_halves:
  assumes "cell_bytes m (a, 8) = Some (xs @ ys)" "length xs = 4"
  shows "cell_bytes m (a, 4) = Some xs" "cell_bytes m (a + 4, 4) = Some ys"
proof -
  have t: "0 < a" "nat a + 8 \<le> length m" "take (4 + 4) (drop (nat a) m) = xs @ ys"
    using assms(1) by (auto simp: cell_bytes_def ld_def mem_load_def split: if_splits)
  have "take 4 (drop (nat a) m) = xs \<and> take 4 (drop 4 (drop (nat a) m)) = ys"
    using t(2,3) assms(2) unfolding take_add by (subst (asm) append_eq_append_conv) auto
  moreover have "nat (a + 4) = 4 + nat a" using t(1) by simp
  ultimately show "cell_bytes m (a, 4) = Some xs" "cell_bytes m (a + 4, 4) = Some ys"
    using t(1,2) by (simp_all add: cell_bytes_def ld_def mem_load_def)
qed

lemma ld_ptr_bytes: "0 \<le> v \<Longrightarrow> v < 2 ^ 32 \<Longrightarrow> cell_bytes m (a, 4) = Some (le_bytes 4 (nat v)) \<Longrightarrow> ld_ptr m a = Some v"
  using le_value_bytes [of "nat v" 4] by (simp add: ld_ptr_def cell_bytes_def)

end
