(* ===== verification/DecoderItems.thy ===== *)
theory DecoderItems
  imports Decoder
begin

text \<open>
  Decoding a message of numbers and strings, field by field: the decoder of nanopb on the bytes of a
  list of items leaves the memory and the strings as the items say. The fields lie apart from each
  other, so that storing one keeps the others, and the bitmap of the required fields counts them.
\<close>

section \<open>Messages of numbers and strings\<close>

definition has_flag :: "slot \<Rightarrow> bool" where
  "has_flag s \<longleftrightarrow> htype (s_field s) = PB_HTYPE_OPTIONAL \<and> atype (s_field s) = PB_ATYPE_STATIC \<and> s_size s \<noteq> s_data s"

abbreviation data_cell :: "slot \<Rightarrow> addr \<times> nat" where
  "data_cell s \<equiv> (s_data s, unat (data_size (s_field s)))"

definition slot_cells :: "slot \<Rightarrow> (addr \<times> nat) list" where
  "slot_cells s = data_cell s # (if has_flag s then [(s_size s, 1)] else [])"

definition number_field :: "pb_field \<Rightarrow> bool" where
  "number_field f \<longleftrightarrow> atype f = PB_ATYPE_STATIC \<and> ltype f \<in> {PB_LTYPE_VARINT, PB_LTYPE_UVARINT} \<and>
     htype f \<in> {PB_HTYPE_REQUIRED, PB_HTYPE_OPTIONAL} \<and> data_size f \<in> {1, 4} \<and> f_ptr f = NULL"

definition string_field :: "pb_field \<Rightarrow> bool" where
  "string_field f \<longleftrightarrow> atype f = PB_ATYPE_CALLBACK \<and> ltype f \<in> {PB_LTYPE_BYTES, PB_LTYPE_STRING} \<and> data_size f = 8"

text \<open>What has been read of a message: the index of a field with its value.\<close>

datatype item = Num nat u64 | Str nat "byte list"

primrec item_index :: "item \<Rightarrow> nat" where
  "item_index (Num i v) = i"
| "item_index (Str i xs) = i"

definition number_fits :: "pb_field \<Rightarrow> u64 \<Rightarrow> bool" where
  "number_fits f v \<longleftrightarrow>
     (if ltype f = PB_LTYPE_VARINT
      then scast (ucast v :: u32) = v \<and> (data_size f = 1 \<longrightarrow> scast (ucast v :: byte) = v)
      else (if data_size f = 4 then ucast (ucast v :: u32) = v else ucast (ucast v :: byte) = v))"

primrec item_valid :: "pb_field list \<Rightarrow> item \<Rightarrow> bool" where
  "item_valid flds (Num i v) \<longleftrightarrow> i < length flds - 1 \<and> number_field (flds ! i) \<and> number_fits (flds ! i) v"
| "item_valid flds (Str i xs) \<longleftrightarrow> i < length flds - 1 \<and> string_field (flds ! i)"

text \<open>The bytes of an item on the wire.\<close>

primrec item_wire :: "pb_field list \<Rightarrow> item \<Rightarrow> byte list" where
  "item_wire flds (Num i v) = tag_bytes (PB_WT_VARINT, ucast (f_tag (flds ! i))) @ varint_bytes v"
| "item_wire flds (Str i xs) = tag_bytes (PB_WT_STRING, ucast (f_tag (flds ! i))) @ string_bytes xs"

text \<open>The value of a field after a list of items: the last one, and an empty string is no value.\<close>

primrec put_number :: "nat \<Rightarrow> item \<Rightarrow> u64 \<Rightarrow> u64" where
  "put_number i (Num j v) x = (if i = j then v else x)"
| "put_number i (Str j s) x = x"

primrec put_string :: "nat \<Rightarrow> item \<Rightarrow> byte list option \<Rightarrow> byte list option" where
  "put_string i (Num j v) x = x"
| "put_string i (Str j s) x = (if i = j \<and> s \<noteq> [] then Some s else x)"

definition last_number :: "nat \<Rightarrow> item list \<Rightarrow> u64" where
  "last_number i rs = fold (put_number i) rs 0"

definition last_string :: "nat \<Rightarrow> item list \<Rightarrow> byte list option" where
  "last_string i rs = fold (put_string i) rs None"

lemma last_snoc [simp]:
  "last_number i (rs @ [r]) = put_number i r (last_number i rs)" "last_string i (rs @ [r]) = put_string i r (last_string i rs)"
  "last_number i [] = 0" "last_string i [] = None"
  by (simp_all add: last_number_def last_string_def)

section \<open>Decoding a field\<close>

lemma le_word_sto: "sto m a (le_word n v) = Some m' \<Longrightarrow> cell_bytes m' (a, n) = Some (le_word n v)"
  using sto_ld [of m a "le_word n v" m'] by simp

lemma dec_number:
  fixes sub :: "('s, strings) sub_decoders"
  assumes f: "number_field f" and v: "number_fits f v" and s: "sto (dmem ds) p (le_word (unat (data_size f)) v) = Some m"
    and fits: "fits (varint_bytes v @ ys)"
  shows "dec_func sub f p ds (buf_at (varint_bytes v @ ys) rest e) = Some (True, ds\<lparr>dmem := m\<rparr>, buf_at ys rest e)"
proof -
  have r: "pb_decode_varint (buf_at (varint_bytes v @ ys) rest e :: 's istream) = Some (Some v, buf_at ys rest e)"
    using varint64.dec_enc fits by simp
  have st: "sto_checked p n v v ds (buf_at ys rest e :: 's istream) = Some (True, ds\<lparr>dmem := m\<rparr>, buf_at ys rest e)"
    if "n = unat (data_size f)" for n
    using s that by (simp add: sto_checked_def dec_sto_def dec_ok_def)
  show ?thesis
  proof (cases "ltype f = PB_LTYPE_VARINT")
    case True
    then show ?thesis using f v r st
      by (auto simp: dec_func_def pb_dec_varint_def dec_with_def number_fits_def number_field_def ltypes Let_def)
  next
    case False
    then show ?thesis using f v r st
      by (auto simp: dec_func_def pb_dec_uvarint_def dec_with_def number_fits_def number_field_def ltypes)
  qed
qed

lemma decode_number_field:
  fixes env :: "('s, strings) dec_env"
  assumes f: "number_field (s_field s)" and v: "number_fits (s_field s) v" and fits: "fits (varint_bytes v @ ys)"
    and m1: "(if has_flag s then sto (dmem ds) (s_size s) [1] else Some (dmem ds)) = Some m1"
    and m2: "sto m1 (s_data s) (le_word (unat (data_size (s_field s))) v) = Some m2"
  shows "decode_field env d sub wt (s_field s) (s_data s) (s_size s) ds (buf_at (varint_bytes v @ ys) rest e) =
    Some (True, ds\<lparr>dmem := m2\<rparr>, buf_at ys rest e)"
proof -
  have a: "atype (s_field s) = PB_ATYPE_STATIC" and h: "htype (s_field s) = PB_HTYPE_REQUIRED \<or> htype (s_field s) = PB_HTYPE_OPTIONAL"
    using f by (auto simp: number_field_def)
  have "\<not> (10 :: byte) \<le> 1" by (simp add: word_le_nat_alt)
  then have lt: "\<not> 10 \<le> ltype (s_field s)" using f by (auto simp: number_field_def ltypes)
  have d1: "dec_func sub (s_field s) (s_data s) (ds\<lparr>dmem := m1\<rparr>) (buf_at (varint_bytes v @ ys) rest e) =
      Some (True, ds\<lparr>dmem := m2\<rparr>, buf_at ys rest e)"
    using dec_number [OF f v _ fits, of "ds\<lparr>dmem := m1\<rparr>" "s_data s" m2 sub rest e] m2 by simp
  have "ds\<lparr>dmem := dmem ds\<rparr> = ds" by simp
  then show ?thesis using d1 m1 a lt h
    by (auto simp: decode_field_def decode_static_field_def has_flag_def dec_sto_def htypes split: if_splits)
qed

lemma string_substream:
  assumes "fits (string_bytes xs @ ys)"
  shows "pb_make_string_substream (buf_at (string_bytes xs @ ys) rest e :: 's istream) =
    Some (Some (buf_at xs (ys @ rest) e), (buf_at ys [] e)\<lparr>source := Buf (xs @ ys @ rest)\<rparr>)"
proof -
  have fx: "length xs < 2 ^ 32" "fits (varint (length xs) @ xs @ ys)" "fits (xs @ ys)" using assms by (simp_all add: string_bytes_def)
  have r: "pb_decode_varint32 (buf_at (varint (length xs) @ xs @ ys) rest e :: 's istream) = Some (Some (of_nat (length xs)), buf_at (xs @ ys) rest e)"
    by (rule varint32_varint [OF fx(2,1)])
  have l: "\<not> (of_nat (length (xs @ ys)) :: u32) < of_nat (length xs)"
    unfolding word_less_nat_alt using of_nat_u32 [OF fx(1)] of_nat_u32 [OF fx(3)] by simp
  show ?thesis using r l
    by (simp add: string_bytes_def pb_make_string_substream_def rd_bind_def) (simp add: buf_at_def)
qed

lemma decode_string_field:
  fixes st :: "'s istream"
  assumes f: "string_field (s_field s)" and fits: "fits (string_bytes xs @ ys)" and p: "0 < s_data s"
    and fn: "ld_ptr (dmem ds) (s_data s) = Some fn" "fn \<noteq> 0"
    and a: "ld_ptr (dmem ds) (s_data s + 4) = Some a" "a \<noteq> 0"
  shows "decode_field (string_env fn) d sub PB_WT_STRING (s_field s) (s_data s) sz ds (buf_at (string_bytes xs @ ys) rest e :: 's istream) =
    Some (True, (if xs = [] then ds else ds\<lparr>world := (world ds)(a := Some xs)\<rparr>), buf_at ys rest e)"
proof -
  let ?parent = "(buf_at ys [] e)\<lparr>source := Buf (xs @ ys @ rest)\<rparr> :: 's istream"
  let ?ds = "if xs = [] then ds else ds\<lparr>world := (world ds)(a := Some xs)\<rparr>"
  have f1: "fits xs" and f2: "fits ys" and fe: "fits (xs @ [])" using fits by (simp_all add: string_bytes_def)
  have left: "bytes_left (buf_at xs (ys @ rest) e :: 's istream) = of_nat (length xs)" by (simp add: buf_at_def)
  have nz: "xs \<noteq> [] \<Longrightarrow> (of_nat (length xs) :: u32) \<noteq> 0" using of_nat_u32 [OF f1] by auto
  have rd: "pb_read False (of_nat (length xs)) (buf_at xs (ys @ rest) e :: 's istream) = Some (Some xs, buf_at [] (ys @ rest) e)"
    using pb_read_exact [OF fe refl, of False "ys @ rest" e] by simp
  have cb: "decode_string_arg (s_field s) (s_data s + 4) ds (buf_at xs (ys @ rest) e :: 's istream) = Some (True, ?ds, buf_at [] (ys @ rest) e)"
    using a nz rd by (cases "xs = []") (simp_all add: decode_string_arg_def left dec_ok_def dec_with_def, simp add: buf_at_def)
  have loop: "callback_loop (decode_string_arg (s_field s) (s_data s + 4)) ds (buf_at xs (ys @ rest) e :: 's istream) = Some (True, ?ds, buf_at [] (ys @ rest) e)"
    using cb by (subst callback_loop.simps) (simp add: buf_at_def)
  have close: "pb_close_string_substream (buf_at [] (ys @ rest) e) ?parent = Some (Some (), buf_at ys rest e)"
    by (simp add: pb_close_string_substream_def buf_at_def)
  have "decode_string_callback (decode_string_arg (s_field s) (s_data s + 4)) ds (buf_at (string_bytes xs @ ys) rest e :: 's istream) =
      Some (True, ?ds, buf_at ys rest e)"
    unfolding decode_string_callback_def dec_with_def string_substream [OF fits]
    using loop close by (simp add: dec_with_def)
  then show ?thesis using f fn p
    by (simp add: decode_field_def string_field_def atypes decode_callback_field_def string_env_def)
qed

section \<open>Decoding the items of a message\<close>

definition changes_only :: "(addr \<times> nat) list \<Rightarrow> memory \<Rightarrow> memory \<Rightarrow> bool" where
  "changes_only cs m m' \<longleftrightarrow> length m' = length m \<and> (\<forall>c. list_all (\<lambda>d. apart d c) cs \<longrightarrow> cell_bytes m' c = cell_bytes m c)"

lemma changes_only_sto: "sto m a bs = Some m' \<Longrightarrow> (a, length bs) \<in> set cs \<Longrightarrow> changes_only cs m m'"
  unfolding changes_only_def list_all_iff using sto_length sto_ld_apart by blast

lemma changes_only_refl: "changes_only cs m m"
  by (simp add: changes_only_def)

lemma changes_only_trans: "changes_only cs m m' \<Longrightarrow> changes_only cs m' m'' \<Longrightarrow> changes_only cs m m''"
  by (simp add: changes_only_def)

text \<open>The fields of a table are numbers and strings at addresses of their own, with tags of their own.\<close>

definition slots_apart :: "slot list \<Rightarrow> bool" where
  "slots_apart ss \<longleftrightarrow>
     list_all (\<lambda>i. list_all (\<lambda>j. i = j \<or> list_all (\<lambda>c. list_all (apart c) (slot_cells (ss ! j))) (slot_cells (ss ! i)))
       [0..<length ss]) [0..<length ss] \<and>
     list_all (\<lambda>s. sorted_wrt apart (slot_cells s)) ss"

definition readable :: "pb_field list \<Rightarrow> addr \<Rightarrow> bool" where
  "readable flds dest \<longleftrightarrow>
     terminated flds \<and> 1 < length flds \<and> distinct (map f_tag (butlast flds)) \<and>
     list_all (\<lambda>s. (number_field (s_field s) \<or> string_field (s_field s)) \<and> 0 < s_data s) (slots (butlast flds) dest) \<and>
     slots_apart (slots (butlast flds) dest) \<and> required_before (butlast flds) (length flds - 1) < 32"

text \<open>What the memory and the strings hold of a field after the items \<open>rs\<close>.\<close>

definition field_holds :: "addr \<Rightarrow> (nat \<Rightarrow> addr) \<Rightarrow> item list \<Rightarrow> strings dst \<Rightarrow> nat \<Rightarrow> slot \<Rightarrow> bool" where
  "field_holds fn cell rs ds j s \<longleftrightarrow>
     (if string_field (s_field s)
      then cell_bytes (dmem ds) (data_cell s) = Some (le_bytes 4 (nat fn) @ le_bytes 4 (nat (cell j))) \<and>
        world ds (cell j) = last_string j rs
      else cell_bytes (dmem ds) (data_cell s) = Some (le_word (unat (data_size (s_field s))) (last_number j rs)) \<and>
        (has_flag s \<longrightarrow> cell_bytes (dmem ds) (s_size s, 1) = Some [of_bool (j \<in> item_index ` set rs)]))"

definition string_indices :: "pb_field list \<Rightarrow> nat set" where
  "string_indices flds = {j. j < length flds - 1 \<and> string_field (flds ! j)}"

definition pointers_ok :: "addr \<Rightarrow> (nat \<Rightarrow> addr) \<Rightarrow> pb_field list \<Rightarrow> bool" where
  "pointers_ok fn cell flds \<longleftrightarrow> 0 < fn \<and> fn < 2 ^ 32 \<and> inj_on cell (string_indices flds) \<and>
     (\<forall>i \<in> string_indices flds. 0 < cell i \<and> cell i < 2 ^ 32)"

definition message_holds :: "addr \<Rightarrow> (nat \<Rightarrow> addr) \<Rightarrow> pb_field list \<Rightarrow> addr \<Rightarrow> item list \<Rightarrow> strings dst \<Rightarrow> bool" where
  "message_holds fn cell flds dest rs ds \<longleftrightarrow>
     (\<forall>j < length flds - 1. field_holds fn cell rs ds j (slots (butlast flds) dest ! j))"

lemma slots_apart_cells:
  assumes "slots_apart ss" "i < length ss" "j < length ss" "i \<noteq> j" "c \<in> set (slot_cells (ss ! i))" "d \<in> set (slot_cells (ss ! j))"
  shows "apart c d"
  using assms unfolding slots_apart_def list_all_iff by (metis (no_types, lifting) atLeastLessThan_upt atLeastLessThan_iff le0)

lemma slot_cells_apart: "slots_apart ss \<Longrightarrow> i < length ss \<Longrightarrow> has_flag (ss ! i) \<Longrightarrow> apart (data_cell (ss ! i)) (s_size (ss ! i), 1)"
  by (auto simp: slots_apart_def list_all_iff slot_cells_def)

lemma not_number_string: "number_field f \<Longrightarrow> \<not> string_field f"
  by (auto simp: number_field_def string_field_def atypes)

text \<open>A field the item is not about keeps what it holds.\<close>

lemma other_field_holds:
  assumes a: "slots_apart ss" and ij: "i < length ss" "j < length ss" "j \<noteq> i" and r: "item_index r = i"
    and h: "field_holds fn cell rs ds j (ss ! j)" and m: "changes_only (slot_cells (ss ! i)) (dmem ds) (dmem ds')"
    and w: "string_field (s_field (ss ! j)) \<Longrightarrow> world ds' (cell j) = world ds (cell j)"
  shows "field_holds fn cell (rs @ [r]) ds' j (ss ! j)"
proof -
  have keep: "cell_bytes (dmem ds') c = cell_bytes (dmem ds) c" if "c \<in> set (slot_cells (ss ! j))" for c
    using m slots_apart_cells [OF a ij(1,2) ij(3) [symmetric] _ that] unfolding changes_only_def list_all_iff by blast
  have same: "last_number j (rs @ [r]) = last_number j rs" "last_string j (rs @ [r]) = last_string j rs"
    "j \<in> item_index ` set (rs @ [r]) \<longleftrightarrow> j \<in> item_index ` set rs"
    using r ij(3) by (cases r; auto)+
  show ?thesis using h w keep unfolding field_holds_def same by (auto simp: slot_cells_def)
qed

lemma slot_stores:
  assumes fit: "list_all (\<lambda>c. 0 < fst c \<and> nat (fst c) + snd c \<le> length m) (slot_cells s)"
    and ap: "has_flag s \<Longrightarrow> apart (data_cell s) (s_size s, 1)"
  obtains m1 m2 where "(if has_flag s then sto m (s_size s) [b] else Some m) = Some m1"
    "sto m1 (s_data s) (le_word (unat (data_size (s_field s))) v) = Some m2" "changes_only (slot_cells s) m m2"
    "cell_bytes m2 (data_cell s) = Some (le_word (unat (data_size (s_field s))) v)"
    "has_flag s \<Longrightarrow> cell_bytes m2 (s_size s, 1) = Some [b]"
proof -
  let ?n = "unat (data_size (s_field s))"
  obtain m1 where m1: "(if has_flag s then sto m (s_size s) [b] else Some m) = Some m1" "changes_only (slot_cells s) m m1"
    "has_flag s \<Longrightarrow> cell_bytes m1 (s_size s, 1) = Some [b]" "length m1 = length m"
  proof (cases "has_flag s")
    case True
    then obtain m1 where "sto m (s_size s) [b] = Some m1" using fit sto_Some [of "s_size s" "[b]" m] by (auto simp: slot_cells_def)
    then show ?thesis using True that sto_ld [of m "s_size s" "[b]" m1] changes_only_sto [of m "s_size s" "[b]" m1 "slot_cells s"] sto_length
      by (auto simp: slot_cells_def)
  qed (use that changes_only_refl in auto)
  obtain m2 where m2: "sto m1 (s_data s) (le_word ?n v) = Some m2"
    using fit m1(4) sto_Some [of "s_data s" "le_word ?n v" m1] by (auto simp: slot_cells_def)
  have "changes_only (slot_cells s) m m2"
    using m1(2) changes_only_sto [OF m2, of "slot_cells s"] by (auto simp: slot_cells_def intro: changes_only_trans)
  moreover have "has_flag s \<Longrightarrow> cell_bytes m2 (s_size s, 1) = Some [b]"
    using m1(3) sto_ld_apart [OF m2] ap by simp
  ultimately show thesis using that [OF m1(1) m2] le_word_sto [OF m2] by simp
qed

definition cells_fit :: "nat \<Rightarrow> slot list \<Rightarrow> bool" where
  "cells_fit L ss \<longleftrightarrow> list_all (\<lambda>s. list_all (\<lambda>c. 0 < fst c \<and> nat (fst c) + snd c \<le> L) (slot_cells s)) ss"

definition mark :: "pb_field list \<Rightarrow> nat \<Rightarrow> u32 \<Rightarrow> u32" where
  "mark flds j w = (if htype (flds ! j) = PB_HTYPE_REQUIRED then w OR push_bit (required_before (butlast flds) j) 1 else w)"

lemma required_before_mono: "i \<le> j \<Longrightarrow> required_before fs i \<le> required_before fs j"
proof -
  assume "i \<le> j"
  then have "take j fs = take i fs @ take (j - i) (drop i fs)" by (metis le_add_diff_inverse take_add)
  then show ?thesis by (simp add: required_before_def)
qed

lemma readable_slot:
  assumes "readable flds dest" "j < length flds - 1"
  shows "s_field (slots (butlast flds) dest ! j) = flds ! j" "j < length (slots (butlast flds) dest)"
    "number_field (flds ! j) \<or> string_field (flds ! j)" "0 < s_data (slots (butlast flds) dest ! j)"
proof -
  have t: "terminated flds" using assms(1) by (simp add: readable_def)
  show f: "s_field (slots (butlast flds) dest ! j) = flds ! j" using assms(2) terminated_nth(1) [OF t assms(2)] by (simp add: slots_field)
  show "j < length (slots (butlast flds) dest)" using assms(2) by simp
  then show "number_field (flds ! j) \<or> string_field (flds ! j)" "0 < s_data (slots (butlast flds) dest ! j)"
    using assms(1) f unfolding readable_def list_all_iff by (metis nth_mem)+
qed

lemma tag_inject: "(ucast (a :: byte) :: u32) = ucast b \<longleftrightarrow> a = b"
proof -
  have "unat (ucast x :: u32) = unat x" for x :: byte
    using unsigned_less [of x, where ?'a = nat] by (simp add: unsigned_ucast_eq take_bit_nat_eq_self)
  then show ?thesis by (metis word_unat_eq_iff)
qed

lemma find_readable:
  assumes R: "readable flds dest" and k: "k < length flds - 1" and i: "i < length flds - 1"
  shows "pb_field_iter_find (iter_at flds dest k) (ucast (f_tag (flds ! i))) = Some (True, iter_at flds dest i)"
proof -
  have t: "terminated flds" using R by (simp add: readable_def)
  have w: "wanted_by (ucast (f_tag (flds ! i))) (flds ! i)"
    using readable_slot(3) [OF R i] by (auto simp: wanted_by_def number_field_def string_field_def ltypes)
  have one: "j = i" if j: "j < length flds - 1" "wanted_by (ucast (f_tag (flds ! i))) (flds ! j)" for j
  proof -
    have "(ucast (f_tag (flds ! j)) :: u32) = ucast (f_tag (flds ! i))" using j(2) by (simp add: wanted_by_def)
    then have "f_tag (flds ! j) = f_tag (flds ! i)" by (simp only: tag_inject)
    then show ?thesis
      using R i j(1) terminated_nth(1) [OF t] nth_eq_iff_index_eq [of "map f_tag (butlast flds)" j i] by (simp add: readable_def)
  qed
  show ?thesis
    by (rule iter_find_at [OF t k, of "ucast (f_tag (flds ! i))" dest]) (use one w i in auto)
qed

lemma decode_item_field:
  fixes ds :: "strings dst"
  assumes R: "readable flds dest" and C: "cells_fit (length (dmem ds)) (slots (butlast flds) dest)"
    and P: "pointers_ok fn cell flds" and H: "message_holds fn cell flds dest rs ds" and r: "item_valid flds r"
    and i: "i = item_index r" and s: "s = slots (butlast flds) dest ! i"
  obtains ds' where "message_holds fn cell flds dest (rs @ [r]) ds'" "length (dmem ds') = length (dmem ds)"
    "\<And>x ys. r = Num i x \<Longrightarrow> fits (varint_bytes x @ ys) \<Longrightarrow>
       decode_field (string_env fn) d sub wt (flds ! i) (s_data s) (s_size s) ds (buf_at (varint_bytes x @ ys) rest e :: 's istream) =
         Some (True, ds', buf_at ys rest e)"
    "\<And>xs ys. r = Str i xs \<Longrightarrow> fits (string_bytes xs @ ys) \<Longrightarrow>
       decode_field (string_env fn) d sub PB_WT_STRING (flds ! i) (s_data s) (s_size s) ds (buf_at (string_bytes xs @ ys) rest e :: 's istream) =
         Some (True, ds', buf_at ys rest e)"
proof -
  let ?ss = "slots (butlast flds) dest"
  have il: "i < length flds - 1" using r i by (cases r) auto
  note sl = readable_slot [OF R il]
  have ap: "slots_apart ?ss" using R by (simp add: readable_def)
  have others: "message_holds fn cell flds dest (rs @ [r]) ds'"
    if "changes_only (slot_cells s) (dmem ds) (dmem ds')" "\<And>j. j \<in> string_indices flds \<Longrightarrow> j \<noteq> i \<Longrightarrow> world ds' (cell j) = world ds (cell j)"
      "field_holds fn cell (rs @ [r]) ds' i s" for ds'
    unfolding message_holds_def
  proof (intro allI impI)
    fix j assume j: "j < length flds - 1"
    show "field_holds fn cell (rs @ [r]) ds' j (?ss ! j)"
    proof (cases "j = i")
      case False
      show ?thesis
        using that(1) j that(2) [OF _ False] H s readable_slot(1) [OF R j]
        by (intro other_field_holds [OF ap sl(2) _ False i [symmetric]]) (simp_all add: message_holds_def string_indices_def)
    qed (use that(3) s in simp)
  qed
  have held: "field_holds fn cell rs ds i s" using H il s by (simp add: message_holds_def)
  show thesis
  proof (cases r)
    case (Num i' x)
    then have v: "number_field (s_field s)" "number_fits (s_field s) x" using r i sl(1) s by simp_all
    have fl: "list_all (\<lambda>c. 0 < fst c \<and> nat (fst c) + snd c \<le> length (dmem ds)) (slot_cells s)"
      using C sl(2) s by (auto simp: cells_fit_def list_all_iff)
    obtain m1 m2 where m: "(if has_flag s then sto (dmem ds) (s_size s) [1] else Some (dmem ds)) = Some m1"
      "sto m1 (s_data s) (le_word (unat (data_size (s_field s))) x) = Some m2" "changes_only (slot_cells s) (dmem ds) m2"
      "cell_bytes m2 (data_cell s) = Some (le_word (unat (data_size (s_field s))) x)"
      "has_flag s \<Longrightarrow> cell_bytes m2 (s_size s, 1) = Some [1]"
      using slot_stores [OF fl slot_cells_apart [OF ap sl(2), folded s]] by metis
    have "field_holds fn cell (rs @ [r]) (ds\<lparr>dmem := m2\<rparr>) i s"
      using m(4,5) Num i not_number_string [OF v(1)] by (simp add: field_holds_def)
    then have "message_holds fn cell flds dest (rs @ [r]) (ds\<lparr>dmem := m2\<rparr>)"
      using others [of "ds\<lparr>dmem := m2\<rparr>"] m(3) by simp
    then show thesis
    proof (rule that)
      show "length (dmem (ds\<lparr>dmem := m2\<rparr>)) = length (dmem ds)" using m(3) by (simp add: changes_only_def)
    qed (use decode_number_field [where ?'s = 's, OF v _ m(1,2)] sl(1) s Num in auto)
  next
    case (Str i' xs)
    then have f: "string_field (s_field s)" using r i sl(1) s by simp
    then have ds8: "unat (data_size (s_field s)) = 8" by (simp add: string_field_def)
    have cb: "cell_bytes (dmem ds) (s_data s, 8) = Some (le_bytes 4 (nat fn) @ le_bytes 4 (nat (cell i)))"
      and w: "world ds (cell i) = last_string i rs" using held f ds8 by (simp_all add: field_holds_def)
    have p: "0 < fn" "fn < 2 ^ 32" "0 < cell i" "cell i < 2 ^ 32" using P il f sl(1) s by (simp_all add: pointers_ok_def string_indices_def)
    have ptr: "ld_ptr (dmem ds) (s_data s) = Some fn" "ld_ptr (dmem ds) (s_data s + 4) = Some (cell i)"
      using ld_halves [OF cb] p by (auto intro!: ld_ptr_bytes)
    let ?ds = "if xs = [] then ds else ds\<lparr>world := (world ds)(cell i := Some xs)\<rparr>"
    have "field_holds fn cell (rs @ [r]) ?ds i s"
      using cb w f ds8 Str i by (simp add: field_holds_def)
    moreover have "world ?ds (cell j) = world ds (cell j)" if "j \<in> string_indices flds" "j \<noteq> i" for j
      using P il f sl(1) s that by (auto simp: pointers_ok_def string_indices_def dest: inj_onD)
    ultimately have "message_holds fn cell flds dest (rs @ [r]) ?ds"
      by (intro others) (simp_all add: changes_only_refl)
    then show thesis
    proof (rule that)
      show "length (dmem ?ds) = length (dmem ds)" by simp
    qed (use decode_string_field [where ?'s = 's, OF f _ _ ptr(1) _ ptr(2)] sl(1,4) s p Str in auto)
  qed
qed

section \<open>The loop over the items\<close>

lemma tag_bytes_nonempty: "tag_bytes x \<noteq> []"
  by (simp add: tag_bytes_def varint.simps [of "unat (snd x) * 8 + unat (fst x)"])

definition item_wire_type :: "item \<Rightarrow> wire_type" where
  "item_wire_type r = (case r of Num i v \<Rightarrow> PB_WT_VARINT | Str i xs \<Rightarrow> PB_WT_STRING)"

definition item_payload :: "item \<Rightarrow> byte list" where
  "item_payload r = (case r of Num i v \<Rightarrow> varint_bytes v | Str i xs \<Rightarrow> string_bytes xs)"

lemma item_wire_split: "item_wire flds r = tag_bytes (item_wire_type r, ucast (f_tag (flds ! item_index r))) @ item_payload r"
  by (cases r) (simp_all add: item_wire_type_def item_payload_def)

lemma field_tag_valid:
  assumes "f_tag f \<noteq> 0"
  shows "valid_tag (item_wire_type r, ucast (f_tag f))"
proof -
  have u: "unat (ucast x :: u32) = unat x" for x :: byte
    using unsigned_less [of x, where ?'a = nat] by (simp add: unsigned_ucast_eq take_bit_nat_eq_self)
  have "unat (f_tag f) < 256" using unsigned_less [of "f_tag f", where ?'a = nat] by simp
  moreover have "0 < unat (f_tag f)" using assms by (simp add: unat_gt_0)
  ultimately show ?thesis
    by (cases r) (simp_all add: valid_tag_def item_wire_type_def word_less_nat_alt u wire_types)
qed

lemma mark_seen_one: "i < 32 \<Longrightarrow> mark_seen i [w, 0] = Some [w OR push_bit i 1, 0]"
  by (simp add: mark_seen_def)

lemma item_step:
  fixes ds :: "strings dst"
  assumes R: "readable flds dest" and C: "cells_fit L (slots (butlast flds) dest)"
    and P: "pointers_ok fn cell flds" and H: "message_holds fn cell flds dest rs ds" "length (dmem ds) = L"
    and r: "item_valid flds r" and fits: "fits (item_wire flds r @ ys)"
    and ls: "l_iter ls = iter_at flds dest k" "k < length flds - 1" "l_seen ls = [w, 0]"
  obtains ds' where "decode_loop (string_env fn) d sub ls ds (buf_at (item_wire flds r @ ys) rest e :: 's istream) =
      decode_loop (string_env fn) d sub
        (ls\<lparr>l_iter := iter_at flds dest (item_index r), l_seen := [mark flds (item_index r) w, 0]\<rparr>) ds' (buf_at ys rest e)"
    "message_holds fn cell flds dest (rs @ [r]) ds'" "length (dmem ds') = L"
proof -
  let ?i = "item_index r" and ?s = "slots (butlast flds) dest ! item_index r"
  let ?tag = "(item_wire_type r, ucast (f_tag (flds ! ?i))) :: wire_type \<times> u32"
  have t: "terminated flds" and req: "required_before (butlast flds) (length flds - 1) < 32" using R by (simp_all add: readable_def)
  have i: "?i < length flds - 1" using r by (cases r) auto
  have tag: "pb_decode_tag (buf_at (tag_bytes ?tag @ item_payload r @ ys) rest e :: 's istream) =
      Some (Some ?tag, False, buf_at (item_payload r @ ys) rest e)"
    using fits field_tag_valid [OF terminated_nth(2) [OF t i], of r] by (intro decode_tag_bytes) (simp_all add: item_wire_split)
  have ne: "bytes_left (buf_at (tag_bytes ?tag @ item_payload r @ ys) rest e :: 's istream) \<noteq> 0"
    using fits of_nat_u32 [of "length (item_wire flds r @ ys)"] tag_bytes_nonempty [of ?tag]
    by (auto simp: buf_at_def item_wire_split simp flip: of_nat_add)
  obtain ds' where ds': "message_holds fn cell flds dest (rs @ [r]) ds'" "length (dmem ds') = L"
    "\<And>x ys. r = Num ?i x \<Longrightarrow> fits (varint_bytes x @ ys) \<Longrightarrow>
       decode_field (string_env fn) d sub (item_wire_type r) (flds ! ?i) (s_data ?s) (s_size ?s) ds (buf_at (varint_bytes x @ ys) rest e :: 's istream) =
         Some (True, ds', buf_at ys rest e)"
    "\<And>xs ys. r = Str ?i xs \<Longrightarrow> fits (string_bytes xs @ ys) \<Longrightarrow>
       decode_field (string_env fn) d sub PB_WT_STRING (flds ! ?i) (s_data ?s) (s_size ?s) ds (buf_at (string_bytes xs @ ys) rest e :: 's istream) =
         Some (True, ds', buf_at ys rest e)"
    by (rule decode_item_field [OF R _ P H(1) r refl refl]) (use C H(2) in auto)
  have field: "decode_field (string_env fn) d sub (item_wire_type r) (flds ! ?i) (s_data ?s) (s_size ?s) ds (buf_at (item_payload r @ ys) rest e :: 's istream) =
         Some (True, ds', buf_at ys rest e)"
    using ds'(3,4) fits by (cases r) (auto simp: item_payload_def item_wire_type_def)
  have idx: "required_field_index (iter_at flds dest ?i) = required_before (butlast flds) ?i"
    using i by (simp add: iter_at_def Let_def s_required_nth)
  have small: "required_before (butlast flds) ?i < 32"
    using required_before_mono [of ?i "length flds - 1" "butlast flds"] i req by simp
  have seen: "(if htype (flds ! ?i) = PB_HTYPE_REQUIRED \<and> required_before (butlast flds) ?i < PB_MAX_REQUIRED_FIELDS
      then mark_seen (required_before (butlast flds) ?i) [w, 0] else Some [w, 0]) = Some [mark flds ?i w, 0]"
    using small by (simp add: mark_def mark_seen_one PB_MAX_REQUIRED_FIELDS_def)
  note it = iter_slot [OF t i, of dest, unfolded readable_slot(1) [OF R i]]
  have known: "known_field (string_env fn) d sub (item_wire_type r) (ls\<lparr>l_iter := iter_at flds dest ?i\<rparr>) ds (buf_at (item_payload r @ ys) rest e :: 's istream) =
      Some (True, ls\<lparr>l_iter := iter_at flds dest ?i, l_seen := [mark flds ?i w, 0]\<rparr>, ds', buf_at ys rest e)"
    using it field seen idx ls(3) by (simp add: known_field_def cong: if_cong)
  have "decode_loop (string_env fn) d sub ls ds (buf_at (item_wire flds r @ ys) rest e :: 's istream) =
      decode_loop (string_env fn) d sub
        (ls\<lparr>l_iter := iter_at flds dest (item_index r), l_seen := [mark flds (item_index r) w, 0]\<rparr>) ds' (buf_at ys rest e)"
    using ne tag find_readable [OF R ls(2) i] known ls(1)
    by (subst decode_loop.simps) (simp add: item_wire_split)
  then show thesis using ds'(1,2) by (rule that)
qed

definition marks :: "pb_field list \<Rightarrow> item list \<Rightarrow> u32 \<Rightarrow> u32" where
  "marks flds rs w = fold (\<lambda>r. mark flds (item_index r)) rs w"

definition items_wire :: "pb_field list \<Rightarrow> item list \<Rightarrow> byte list" where
  "items_wire flds rs = concat (map (item_wire flds) rs)"

lemma items_loop:
  fixes ds :: "strings dst"
  assumes R: "readable flds dest" and C: "cells_fit L (slots (butlast flds) dest)"
    and P: "pointers_ok fn cell flds"
  shows "\<lbrakk>message_holds fn cell flds dest pre ds; length (dmem ds) = L; list_all (item_valid flds) rs; fits (items_wire flds rs);
     l_iter ls = iter_at flds dest k; k < length flds - 1; l_seen ls = [w, 0]\<rbrakk> \<Longrightarrow>
    \<exists>ls' ds' k'. decode_loop (string_env fn) d sub ls ds (buf_at (items_wire flds rs) rest e :: 's istream) = Some (True, ls', ds', buf_at [] rest e) \<and>
      message_holds fn cell flds dest (pre @ rs) ds' \<and> length (dmem ds') = L \<and>
      l_iter ls' = iter_at flds dest k' \<and> k' < length flds - 1 \<and> l_seen ls' = [marks flds rs w, 0]"
proof (induction rs arbitrary: pre ds ls k w)
  case Nil
  then show ?case by (subst decode_loop.simps) (auto simp: items_wire_def marks_def buf_at_def)
next
  case (Cons r rs)
  have i: "item_index r < length flds - 1" using Cons.prems(3) by (cases r) auto
  have f: "fits (item_wire flds r @ items_wire flds rs)" using Cons.prems(4) by (simp add: items_wire_def)
  obtain ds1 where s: "decode_loop (string_env fn) d sub ls ds (buf_at (item_wire flds r @ items_wire flds rs) rest e :: 's istream) =
      decode_loop (string_env fn) d sub
        (ls\<lparr>l_iter := iter_at flds dest (item_index r), l_seen := [mark flds (item_index r) w, 0]\<rparr>) ds1 (buf_at (items_wire flds rs) rest e)"
    "message_holds fn cell flds dest (pre @ [r]) ds1" "length (dmem ds1) = L"
    by (rule item_step [OF R C P Cons.prems(1,2) _ f Cons.prems(5-7), where d = d and sub = sub and rest = rest and e = e]) (use Cons.prems(3) in auto)
  obtain ls' ds' k' where "decode_loop (string_env fn) d sub
        (ls\<lparr>l_iter := iter_at flds dest (item_index r), l_seen := [mark flds (item_index r) w, 0]\<rparr>) ds1 (buf_at (items_wire flds rs) rest e :: 's istream) =
       Some (True, ls', ds', buf_at [] rest e)" "message_holds fn cell flds dest ((pre @ [r]) @ rs) ds'" "length (dmem ds') = L"
      "l_iter ls' = iter_at flds dest k'" "k' < length flds - 1" "l_seen ls' = [marks flds rs (mark flds (item_index r) w), 0]"
    using Cons.IH [OF s(2,3) _ _ _ i, of "ls\<lparr>l_iter := iter_at flds dest (item_index r), l_seen := [mark flds (item_index r) w, 0]\<rparr>"] f Cons.prems(3)
    by auto
  then show ?case using s(1) by (auto simp: items_wire_def marks_def)
qed

section \<open>The required fields\<close>

lemma bit_marks: "k < 32 \<Longrightarrow> bit (marks flds rs w) k \<longleftrightarrow> bit w k \<or>
   (\<exists>r \<in> set rs. htype (flds ! item_index r) = PB_HTYPE_REQUIRED \<and> required_before (butlast flds) (item_index r) = k)"
  by (induction rs arbitrary: w) (auto simp: marks_def mark_def bit_simps)

text \<open>The numbers of the required fields are all numbers below their count.\<close>

lemma required_before_Suc:
  "j < length fs \<Longrightarrow> required_before fs (Suc j) = required_before fs j + (if htype (fs ! j) = PB_HTYPE_REQUIRED then 1 else 0)"
  by (simp add: required_before_def take_Suc_conv_app_nth)

lemma required_number: "n \<le> length fs \<Longrightarrow> k < required_before fs n \<Longrightarrow>
   \<exists>j < n. htype (fs ! j) = PB_HTYPE_REQUIRED \<and> required_before fs j = k"
proof (induction n)
  case (Suc n)
  then show ?case
    by (cases "k < required_before fs n") (auto simp: required_before_Suc less_Suc_eq split: if_splits)
qed (simp add: required_before_def)

lemma required_number_unique:
  assumes "i < length fs" "j < length fs" "htype (fs ! i) = PB_HTYPE_REQUIRED" "htype (fs ! j) = PB_HTYPE_REQUIRED"
    "required_before fs i = required_before fs j"
  shows "i = j"
proof -
  have less: False if "a < b" "b < length fs" "htype (fs ! a) = PB_HTYPE_REQUIRED" "required_before fs a = required_before fs b" for a b
    using required_before_mono [of "Suc a" b fs] required_before_Suc [of a fs] that by simp
  then show ?thesis using assms by (metis linorder_neqE_nat)
qed

definition complete :: "pb_field list \<Rightarrow> item list \<Rightarrow> bool" where
  "complete flds rs \<longleftrightarrow>
     (\<forall>j < length flds - 1. htype (flds ! j) = PB_HTYPE_REQUIRED \<longrightarrow> j \<in> item_index ` set rs)"

lemma required_mask: "n < 32 \<Longrightarrow> n \<noteq> 0 \<Longrightarrow> (w :: u32) = drop_bit (32 - n) (- 1) \<longleftrightarrow> (\<forall>k < 32. bit w k = (k < n))"
  by (auto simp: bit_eq_iff bit_simps bit_word_of_int_iff dest: bit_imp_le_length)

lemma all_seen_marks:
  assumes R: "readable flds dest" and v: "list_all (item_valid flds) rs"
  shows "all_seen (required_before (butlast flds) (length flds - 1)) [marks flds rs 0, 0] = Some (complete flds rs)"
proof -
  let ?n = "required_before (butlast flds) (length flds - 1)" and ?w = "marks flds rs 0"
  have t: "terminated flds" and n: "?n < 32" using R by (simp_all add: readable_def)
  have nth: "j < length flds - 1 \<Longrightarrow> butlast flds ! j = flds ! j" for j using terminated_nth(1) [OF t, of j] by simp
  have valid: "item_index r < length flds - 1" if "r \<in> set rs" for r
    using v that by (cases r) (auto simp: list_all_iff)
  have small: "required_before (butlast flds) j < ?n" if "j < length flds - 1" "htype (flds ! j) = PB_HTYPE_REQUIRED" for j
    using required_before_Suc [of j "butlast flds"] required_before_mono [of "Suc j" "length flds - 1" "butlast flds"] that nth by simp
  have bits: "bit ?w k \<longleftrightarrow> (\<exists>r \<in> set rs. htype (flds ! item_index r) = PB_HTYPE_REQUIRED \<and> required_before (butlast flds) (item_index r) = k)"
    if "k < 32" for k using bit_marks [OF that, of flds rs 0] by simp
  have "(\<forall>k < 32. bit ?w k = (k < ?n)) \<longleftrightarrow> complete flds rs"
  proof
    assume all: "\<forall>k < 32. bit ?w k = (k < ?n)"
    show "complete flds rs" unfolding complete_def
    proof (intro allI impI)
      fix j assume j: "j < length flds - 1" "htype (flds ! j) = PB_HTYPE_REQUIRED"
      then have "bit ?w (required_before (butlast flds) j)" using all small [OF j] n by simp
      then obtain r where r: "r \<in> set rs" "htype (flds ! item_index r) = PB_HTYPE_REQUIRED"
        "required_before (butlast flds) (item_index r) = required_before (butlast flds) j"
        using bits small [OF j] n by auto
      then have "item_index r = j" using required_number_unique [of "item_index r" "butlast flds" j] valid j nth by simp
      then show "j \<in> item_index ` set rs" using r(1) by blast
    qed
  next
    assume c: "complete flds rs"
    show "\<forall>k < 32. bit ?w k = (k < ?n)"
    proof (intro allI impI iffI)
      fix k :: nat assume "k < 32" "bit ?w k"
      then show "k < ?n" using bits valid small by auto
    next
      fix k :: nat assume k: "k < 32" "k < ?n"
      then obtain j where "j < length flds - 1" "htype (flds ! j) = PB_HTYPE_REQUIRED" "required_before (butlast flds) j = k"
        using required_number [of "length flds - 1" "butlast flds" k] nth by auto
      then show "bit ?w k" using c bits [OF k(1)] by (auto simp: complete_def)
    qed
  qed
  moreover have "?n = 0 \<Longrightarrow> complete flds rs" using small by (auto simp: complete_def)
  ultimately show ?thesis using n required_mask [OF n, of ?w] by (auto simp: all_seen_def)
qed

lemma noinit_items:
  fixes ds :: "strings dst"
  assumes R: "readable flds dest" and C: "cells_fit L (slots (butlast flds) dest)" and P: "pointers_ok fn cell flds"
    and H: "message_holds fn cell flds dest [] ds" "length (dmem ds) = L"
    and v: "list_all (item_valid flds) rs" and f: "fits (items_wire flds rs)"
  shows "\<exists>ds' e'. pb_decode_noinit (string_env fn) (Suc d) flds dest ds (buf_at (items_wire flds rs) rest e :: 's istream) =
      Some (complete flds rs, ds', buf_at [] rest e') \<and> message_holds fn cell flds dest rs ds' \<and> length (dmem ds') = L"
proof -
  have t: "terminated flds" "1 < length flds" "required_before (butlast flds) (length flds - 1) < 32"
    using R by (simp_all add: readable_def)
  let ?ls = "\<lparr>l_iter = iter_at flds dest 0, l_seen = [0, 0], l_ext = 0\<rparr>"
  let ?sub = "\<lparr>sub_decode = decode_with (string_env fn) d (pb_decode_noinit (string_env fn) d), sub_noinit = pb_decode_noinit (string_env fn) d\<rparr> :: ('s, strings) sub_decoders"
  obtain ls' ds' k' where l: "decode_loop (string_env fn) d ?sub ?ls ds (buf_at (items_wire flds rs) rest e :: 's istream) = Some (True, ls', ds', buf_at [] rest e)"
    "message_holds fn cell flds dest ([] @ rs) ds'" "length (dmem ds') = L"
      "l_iter ls' = iter_at flds dest k'" "k' < length flds - 1" "l_seen ls' = [marks flds rs 0, 0]"
    using items_loop [OF R C P H v f, of ?ls 0 0 d ?sub rest e] t(2) by auto
  have c: "required_count (l_iter ls') = Some (required_before (butlast flds) (length flds - 1))"
    using required_count_at [OF t(1) l(5), of dest] l(4) t(3) by (simp add: PB_MAX_REQUIRED_FIELDS_def)
  show ?thesis
    using l iter_begin_at [OF t(1,2), of dest] c all_seen_marks [OF R v]
    by (cases "complete flds rs") (auto simp: noinit_with_def dec_error_def set_ierr_at)
qed

section \<open>Starting a message\<close>

lemma le_word_0: "le_word n 0 = replicate n 0"
proof -
  have "le_bytes n 0 = replicate n 0" by (induction n) auto
  then show ?thesis by (simp add: le_word_def)
qed

text \<open>Before the first item: a callback holds its pointers, and the defaults clear the others.\<close>

definition callback_holds :: "addr \<Rightarrow> (nat \<Rightarrow> addr) \<Rightarrow> memory \<Rightarrow> nat \<Rightarrow> slot \<Rightarrow> bool" where
  "callback_holds fn cell m j s \<longleftrightarrow>
     (string_field (s_field s) \<longrightarrow> cell_bytes m (data_cell s) = Some (le_bytes 4 (nat fn) @ le_bytes 4 (nat (cell j))))"

definition number_default :: "memory \<Rightarrow> slot \<Rightarrow> bool" where
  "number_default m s \<longleftrightarrow>
     (\<not> string_field (s_field s) \<longrightarrow> cell_bytes m (data_cell s) = Some (le_word (unat (data_size (s_field s))) 0) \<and>
        (has_flag s \<longrightarrow> cell_bytes m (s_size s, 1) = Some [0]))"

lemma slot_default:
  assumes f: "number_field (s_field s) \<or> string_field (s_field s)"
    and fit: "list_all (\<lambda>c. 0 < fst c \<and> nat (fst c) + snd c \<le> length m) (slot_cells s)"
    and ap: "has_flag s \<Longrightarrow> apart (data_cell s) (s_size s, 1)"
  obtains m2 where "pb_field_set_to_default types rec (s_field s) (s_data s) (s_size s) m = Some m2"
    "changes_only (if string_field (s_field s) then [] else slot_cells s) m m2" "number_default m2 s"
proof (cases "string_field (s_field s)")
  case True
  then have "pb_field_set_to_default types rec (s_field s) (s_data s) (s_size s) m = Some m"
    by (auto simp: pb_field_set_to_default_def plain_default_def string_field_def atypes ltypes)
  then show thesis using that True by (simp add: changes_only_refl number_default_def)
next
  case False
  then have nf: "number_field (s_field s)" using f by simp
  obtain m1 m2 where m: "(if has_flag s then sto m (s_size s) [0] else Some m) = Some m1"
      "sto m1 (s_data s) (le_word (unat (data_size (s_field s))) 0) = Some m2" "changes_only (slot_cells s) m m2"
      "cell_bytes m2 (data_cell s) = Some (le_word (unat (data_size (s_field s))) 0)"
      "has_flag s \<Longrightarrow> cell_bytes m2 (s_size s, 1) = Some [0]"
    using slot_stores [OF fit ap] by metis
  have "pb_field_set_to_default types rec (s_field s) (s_data s) (s_size s) m = Some m2"
    using nf m(1,2) unfolding le_word_0
    by (auto simp: pb_field_set_to_default_def plain_default_def static_default_def number_field_def has_flag_def htypes ltypes split: if_splits)
  then show thesis using that m(3-5) False by (simp add: number_default_def)
qed

definition default_step ::
  "(addr \<Rightarrow> pb_field c) \<Rightarrow> (pb_field list \<Rightarrow> addr \<Rightarrow> memory \<Rightarrow> memory c) \<Rightarrow> pb_field \<Rightarrow> addr \<Rightarrow> addr \<Rightarrow> memory \<Rightarrow> (bool \<times> memory) c" where
  "default_step types rec f p sz m = do { m1 \<leftarrow> pb_field_set_to_default types rec f p sz m; Some (True, m1) }"

lemma defaults_slots:
  "terminated flds \<Longrightarrow> pb_message_set_to_defaults types (Suc d) flds dest m =
     do { (_, m1) \<leftarrow> loop_slots (default_step types (pb_message_set_to_defaults types d)) (slots (butlast flds) dest) m; Some m1 }"
  by (simp add: for_fields_slots default_step_def [abs_def])

lemma default_loop:
  assumes ap: "slots_apart ss" and f: "\<And>j. j < length ss \<Longrightarrow> number_field (s_field (ss ! j)) \<or> string_field (s_field (ss ! j))"
    and C: "cells_fit L ss"
  shows "k \<le> length ss \<Longrightarrow> length m = L \<Longrightarrow>
    \<exists>m'. loop_slots (default_step types rec) (drop k ss) m = Some (True, m') \<and>
      length m' = L \<and> (\<forall>j < length ss. callback_holds fn cell m j (ss ! j) \<longrightarrow> callback_holds fn cell m' j (ss ! j)) \<and>
      (\<forall>j < length ss. j < k \<longrightarrow> number_default m (ss ! j) \<longrightarrow> number_default m' (ss ! j)) \<and>
      (\<forall>j < length ss. k \<le> j \<longrightarrow> number_default m' (ss ! j))"
proof (induction "length ss - k" arbitrary: k m)
  case 0
  then show ?case by auto
next
  case (Suc n)
  then have k: "k < length ss" by simp
  let ?s = "ss ! k"
  have "?s \<in> set ss" using k by simp
  then have fit: "list_all (\<lambda>c. 0 < fst c \<and> nat (fst c) + snd c \<le> length m) (slot_cells ?s)"
    using C Suc.prems(2) by (auto simp: cells_fit_def list_all_iff)
  obtain m2 where m2: "pb_field_set_to_default types rec (s_field ?s) (s_data ?s) (s_size ?s) m = Some m2"
    "changes_only (if string_field (s_field ?s) then [] else slot_cells ?s) m m2" "number_default m2 ?s"
    using slot_default [OF f [OF k] fit slot_cells_apart [OF ap k]] by metis
  have l2: "length m2 = L" using m2(2) Suc.prems(2) by (simp add: changes_only_def)
  have n: "n = length ss - Suc k" and k1: "Suc k \<le> length ss" using Suc.hyps(2) by simp_all
  obtain m' where m': "loop_slots (default_step types rec) (drop (Suc k) ss) m2 = Some (True, m')"
    "length m' = L" "\<forall>j < length ss. callback_holds fn cell m2 j (ss ! j) \<longrightarrow> callback_holds fn cell m' j (ss ! j)"
    "\<forall>j < length ss. j < Suc k \<longrightarrow> number_default m2 (ss ! j) \<longrightarrow> number_default m' (ss ! j)"
    "\<forall>j < length ss. Suc k \<le> j \<longrightarrow> number_default m' (ss ! j)"
    using Suc.hyps(1) [OF n k1 l2] by blast
  have keep: "cell_bytes m2 c = cell_bytes m c" if "j < length ss" "j \<noteq> k" "c \<in> set (slot_cells (ss ! j))" for j c
    using m2(2) slots_apart_cells [OF ap k that(1) that(2) [symmetric] _ that(3)]
    unfolding changes_only_def list_all_iff by (cases "string_field (s_field ?s)") (auto simp del: split_paired_All)
  have cb: "callback_holds fn cell m2 j (ss ! j)" if "j < length ss" "callback_holds fn cell m j (ss ! j)" for j
  proof (cases "j = k")
    case True
    then show ?thesis using that m2(2) unfolding callback_holds_def changes_only_def by (auto simp del: split_paired_All)
  next
    case False
    then show ?thesis using that keep unfolding callback_holds_def by (auto simp: slot_cells_def)
  qed
  have nd: "number_default m2 (ss ! j)" if "j < length ss" "j < k" "number_default m (ss ! j)" for j
    using that keep [of j] unfolding number_default_def by (auto simp: slot_cells_def)
  have d: "drop k ss = ?s # drop (Suc k) ss" using k by (simp add: Cons_nth_drop_Suc)
  have first: "loop_slots (default_step types rec) (drop k ss) m = Some (True, m')"
    unfolding d using m2(1) m'(1) by (simp add: default_step_def)
  show ?case
  proof (intro exI conjI allI impI)
    show "loop_slots (default_step types rec) (drop k ss) m = Some (True, m')" by (rule first)
    fix j assume j: "j < length ss"
    show "callback_holds fn cell m' j (ss ! j)" if "callback_holds fn cell m j (ss ! j)" using m'(3) cb [OF j that] j by blast
    show "number_default m' (ss ! j)" if "j < k" "number_default m (ss ! j)" using m'(4) nd [OF j that] j that(1) by simp
    show "number_default m' (ss ! j)" if "k \<le> j" using m'(4,5) m2(3) j that by (cases "j = k") auto
  qed (rule m'(2))
qed

lemma message_starts:
  assumes R: "readable flds dest" and C: "cells_fit (length (dmem ds)) (slots (butlast flds) dest)"
    and cb: "\<And>j. j < length flds - 1 \<Longrightarrow> callback_holds fn cell (dmem ds) j (slots (butlast flds) dest ! j)"
    and w: "\<And>j. j \<in> string_indices flds \<Longrightarrow> world ds (cell j) = None"
  obtains m where "pb_message_set_to_defaults types (Suc d) flds dest (dmem ds) = Some m" "length m = length (dmem ds)"
    "message_holds fn cell flds dest [] (ds\<lparr>dmem := m\<rparr>)"
proof -
  let ?ss = "slots (butlast flds) dest"
  have t: "terminated flds" and ap: "slots_apart ?ss" using R by (simp_all add: readable_def)
  have f: "number_field (s_field (?ss ! j)) \<or> string_field (s_field (?ss ! j))" if "j < length ?ss" for j
    using readable_slot [OF R, of j] that by simp
  obtain m where m: "loop_slots (default_step types (pb_message_set_to_defaults types d)) ?ss (dmem ds) = Some (True, m)"
    "length m = length (dmem ds)" "\<And>j. j < length flds - 1 \<Longrightarrow> callback_holds fn cell m j (?ss ! j)"
    "\<And>j. j < length flds - 1 \<Longrightarrow> number_default m (?ss ! j)"
    using default_loop [OF ap f C le0 refl, of types "pb_message_set_to_defaults types d" fn cell] cb by auto
  have "field_holds fn cell [] (ds\<lparr>dmem := m\<rparr>) j (?ss ! j)" if j: "j < length flds - 1" for j
    using m(3,4) [OF j] w [of j] readable_slot [OF R j] j
    by (auto simp: field_holds_def callback_holds_def number_default_def string_indices_def)
  moreover have "pb_message_set_to_defaults types (Suc d) flds dest (dmem ds) = Some m"
    unfolding defaults_slots [OF t] using m(1) by simp
  ultimately show thesis using that [of m] m(2) by (simp add: message_holds_def)
qed

lemma holds_callbacks: "message_holds fn cell flds dest rs ds \<Longrightarrow> j < length flds - 1 \<Longrightarrow>
    callback_holds fn cell (dmem ds) j (slots (butlast flds) dest ! j)"
  by (auto simp: message_holds_def field_holds_def callback_holds_def)

lemma decode_items:
  fixes ds :: "strings dst"
  assumes R: "readable flds dest" and C: "cells_fit (length (dmem ds)) (slots (butlast flds) dest)" and P: "pointers_ok fn cell flds"
    and cb: "\<And>j. j < length flds - 1 \<Longrightarrow> callback_holds fn cell (dmem ds) j (slots (butlast flds) dest ! j)"
    and w: "\<And>j. j \<in> string_indices flds \<Longrightarrow> world ds (cell j) = None"
    and v: "list_all (item_valid flds) rs" and f: "fits (items_wire flds rs)"
  shows "\<exists>ds' e'. pb_decode (string_env fn) (Suc d) flds dest ds (buf_at (items_wire flds rs) rest e :: 's istream) =
      Some (complete flds rs, ds', buf_at [] rest e') \<and> message_holds fn cell flds dest rs ds' \<and> length (dmem ds') = length (dmem ds)"
proof -
  obtain m where m: "pb_message_set_to_defaults (\<lambda>t. map_option et_darg (dec_ext_types (string_env fn :: ('s, strings) dec_env) t)) (Suc d) flds dest (dmem ds) = Some m"
    "length m = length (dmem ds)" "message_holds fn cell flds dest [] (ds\<lparr>dmem := m\<rparr>)"
    using message_starts [OF R C cb w] by blast
  from noinit_items [OF R C P m(3) _ v f, of d rest e] m(1,2)
  show ?thesis by (simp add: pb_decode_def decode_with_def del: pb_message_set_to_defaults.simps pb_decode_noinit.simps)
qed

end
