(* ===== verification/DecoderSpec.thy ===== *)
theory DecoderSpec
  imports DecoderItems
begin

text \<open>
  What the response classes read: the tables of the classes, the constructors, and the property of
  \<open>ParseFromArray\<close>.
\<close>

section \<open>The classes\<close>

text \<open>What holds of the tables of a class, with its struct at the address 1.\<close>

definition class_ok :: "response_class \<Rightarrow> bool" where
  "class_ok cls \<longleftrightarrow>
     (let ss = slots (butlast (rc_fields cls)) 1 in
      message_ok (Suc (size_of (rc_struct cls))) 1 (rc_struct cls, rc_lines cls, rc_fields cls) \<and>
      readable (rc_fields cls) 1 \<and> cells_fit (Suc (size_of (rc_struct cls))) ss \<and>
      distinct (map e_member (rc_lines cls)) \<and>
      list_all2 (\<lambda>l s. string_field (s_field s) = (e_member l \<in> set (rc_strings cls)) \<and>
        (string_field (s_field s) \<or> e_alloc l = STATIC) \<and> has_flag s = (e_rule l = OPTIONAL \<and> e_alloc l = STATIC)) (rc_lines cls) ss \<and>
      distinct (rc_strings cls) \<and> list_all (\<lambda>x. x \<in> set (map e_member (rc_lines cls))) (rc_strings cls))"

definition response_classes :: "response_class list" where
  "response_classes = [AuthResponse_class, TtsResponse_class, SpeechResponse_class]"

lemma response_classes_ok: "list_all class_ok response_classes"
  by code_simp

lemma has_flag_shift [simp]: "has_flag (shift_slot k s) = has_flag s"
  by (simp add: has_flag_def)

lemma slot_cells_shift: "slot_cells (shift_slot k s) = map (\<lambda>(a, n). (a + k, n)) (slot_cells s)"
  by (simp add: slot_cells_def)

lemma apart_shift: "apart (case c of (a, n) \<Rightarrow> (a + k, n)) (case d of (a, n) \<Rightarrow> (a + k, n)) = apart c d"
  by (cases c; cases d) (auto simp: apart_def)

lemma slots_apart_shift: "slots_apart ss \<Longrightarrow> slots_apart (map (shift_slot k) ss)"
  by (auto simp: slots_apart_def list_all_iff slot_cells_shift sorted_wrt_map apart_shift simp del: split_paired_All)

lemma readable_shift: "readable flds dest \<Longrightarrow> 0 \<le> k \<Longrightarrow> readable flds (dest + k)"
  by (auto simp: readable_def slots_shift slots_apart_shift list_all_iff)

lemma cells_fit_shift: "cells_fit L ss \<Longrightarrow> 0 \<le> k \<Longrightarrow> L + nat k \<le> L' \<Longrightarrow> cells_fit L' (map (shift_slot k) ss)"
  by (fastforce simp: cells_fit_def list_all_iff slot_cells_shift nat_add_distrib)

lemma class_at:
  fixes ss :: "slot list"
  assumes cls: "class_ok cls" and dest: "0 < dest" and L: "nat dest + size_of (rc_struct cls) \<le> L"
    and ss: "ss = slots (butlast (rc_fields cls)) dest"
  shows "message_ok L dest (rc_struct cls, rc_lines cls, rc_fields cls)" "readable (rc_fields cls) dest" "cells_fit L ss"
    "distinct (map e_member (rc_lines cls))" "distinct (rc_strings cls)" "set (rc_strings cls) \<subseteq> e_member ` set (rc_lines cls)"
    "\<And>j. j < length (rc_lines cls) \<Longrightarrow> string_field (s_field (ss ! j)) = (e_member (rc_lines cls ! j) \<in> set (rc_strings cls)) \<and>
       (string_field (s_field (ss ! j)) \<or> e_alloc (rc_lines cls ! j) = STATIC) \<and>
       has_flag (ss ! j) = (e_rule (rc_lines cls ! j) = OPTIONAL \<and> e_alloc (rc_lines cls ! j) = STATIC)"
proof -
  have ok: "class_ok cls" using cls .
  define k where "k = dest - 1"
  have k: "0 \<le> k" "dest = 1 + k" "Suc (size_of (rc_struct cls)) + nat k \<le> L" using dest L by (auto simp: k_def)
  show "message_ok L dest (rc_struct cls, rc_lines cls, rc_fields cls)" "readable (rc_fields cls) dest" "cells_fit L ss"
    unfolding ss k(2) using ok message_ok_shift [OF _ k(1,3)] readable_shift [OF _ k(1)] cells_fit_shift [OF _ k(1,3)]
    by (simp_all add: class_ok_def Let_def slots_shift)
  show "distinct (map e_member (rc_lines cls))" "distinct (rc_strings cls)" "set (rc_strings cls) \<subseteq> e_member ` set (rc_lines cls)"
    using ok by (auto simp: class_ok_def Let_def list_all_iff)
  show "\<And>j. j < length (rc_lines cls) \<Longrightarrow> string_field (s_field (ss ! j)) = (e_member (rc_lines cls ! j) \<in> set (rc_strings cls)) \<and>
     (string_field (s_field (ss ! j)) \<or> e_alloc (rc_lines cls ! j) = STATIC) \<and>
     has_flag (ss ! j) = (e_rule (rc_lines cls ! j) = OPTIONAL \<and> e_alloc (rc_lines cls ! j) = STATIC)"
    using ok unfolding ss k(2) slots_shift by (auto simp: class_ok_def Let_def list_all2_conv_all_nth)
qed

text \<open>What the lines of a table say of its slots.\<close>

lemma class_line:
  assumes "message_ok L dest (rc_struct cls, rc_lines cls, rc_fields cls)" "j < length (rc_lines cls)"
    and "l = rc_lines cls ! j" and "s = slots (butlast (rc_fields cls)) dest ! j"
  shows "length (rc_fields cls) = Suc (length (rc_lines cls))"
    "\<exists>a t. member (rc_struct cls) (e_member l) = Some (a, t) \<and> s_data s = dest + int a \<and> unat (data_size (s_field s)) = size_of t"
    "has_flag s \<Longrightarrow> e_rule l = OPTIONAL \<and> e_alloc l = STATIC \<Longrightarrow>
       \<exists>b. member (rc_struct cls) (''has_'' @ e_member l) = Some (b, c_bool) \<and> s_size s = dest + int b"
proof -
  have len: "length (rc_fields cls) = Suc (length (rc_lines cls))" using assms(1) by (simp add: message_ok_def)
  then show "length (rc_fields cls) = Suc (length (rc_lines cls))" .
  have "line_ok (rc_struct cls) dest l s"
    using assms list_all2_nthD [of "line_ok (rc_struct cls) dest" "rc_lines cls" "slots (butlast (rc_fields cls)) dest" j]
    by (simp add: message_ok_def)
  then show "\<exists>a t. member (rc_struct cls) (e_member l) = Some (a, t) \<and> s_data s = dest + int a \<and> unat (data_size (s_field s)) = size_of t"
    "has_flag s \<Longrightarrow> e_rule l = OPTIONAL \<and> e_alloc l = STATIC \<Longrightarrow>
       \<exists>b. member (rc_struct cls) (''has_'' @ e_member l) = Some (b, c_bool) \<and> s_size s = dest + int b"
    by (auto simp: line_ok_def split: option.splits if_splits)
qed

section \<open>Constructing an object\<close>

definition callback_bytes :: "addr \<Rightarrow> addr \<Rightarrow> byte list" where
  "callback_bytes fn c = le_bytes 4 (nat fn) @ le_bytes 4 (nat c)"

definition callbacks_set :: "response_class \<Rightarrow> addr \<Rightarrow> (string \<Rightarrow> addr) \<Rightarrow> addr \<Rightarrow> memory \<Rightarrow> bool" where
  "callbacks_set cls fn cell dest m \<longleftrightarrow>
     (\<forall>x \<in> set (rc_strings cls). \<exists>a. offset_of (rc_struct cls) x = Some a \<and> cell_bytes m (dest + a, 8) = Some (callback_bytes fn (cell x)))"

lemma ld_join:
  assumes "cell_bytes m (a, 4) = Some xs" "cell_bytes m (a + 4, 4) = Some ys"
  shows "cell_bytes m (a, 8) = Some (xs @ ys)"
proof -
  have t: "0 < a" "nat (a + 4) = 4 + nat a" "8 + nat a \<le> length m" "take 4 (drop (nat a) m) = xs" "take 4 (drop (4 + nat a) m) = ys"
    using assms by (auto simp: cell_bytes_def ld_def mem_load_def nat_add_distrib ac_simps split: if_splits)
  have "take (4 + 4) (drop (nat a) m) = xs @ ys" unfolding take_add using t(4,5) by simp
  then show ?thesis using t(1,3) by (simp add: cell_bytes_def ld_def mem_load_def)
qed

lemma init_string_field_ok:
  assumes "0 < cb" "nat cb + 8 \<le> length m"
  obtains m' where "init_string_field fn cb c m = Some m'" "changes_only [(cb, 8)] m m'" "cell_bytes m' (cb, 8) = Some (callback_bytes fn c)"
proof -
  obtain m1 where m1: "sto m cb (le_bytes 4 (nat fn)) = Some m1" "length m1 = length m"
    using sto_Some [OF assms(1), of "le_bytes 4 (nat fn)" m] assms(2) by auto
  obtain m2 where m2: "sto m1 (cb + 4) (le_bytes 4 (nat c)) = Some m2" "length m2 = length m"
    using sto_Some [of "cb + 4" "le_bytes 4 (nat c)" m1] assms m1(2) by (auto simp: nat_add_distrib)
  have "cell_bytes m2 (cb, 4) = Some (le_bytes 4 (nat fn))"
    using sto_ld_apart [OF m2(1), of "(cb, 4)"] sto_ld [OF m1(1)] by (simp add: apart_def)
  moreover have "cell_bytes m2 (cb + 4, 4) = Some (le_bytes 4 (nat c))" using sto_ld [OF m2(1)] by simp
  ultimately have "cell_bytes m2 (cb, 8) = Some (callback_bytes fn c)" unfolding callback_bytes_def by (rule ld_join)
  moreover have "changes_only [(cb, 8)] m m2"
    using sto_ld_apart [OF m1(1)] sto_ld_apart [OF m2(1)] m2(2) by (auto simp: changes_only_def apart_def)
  ultimately show thesis using that m1(1) m2(1) by (simp add: init_string_field_def)
qed

lemma init_strings_ok:
  assumes "\<forall>x \<in> set xs. offset_of st x = Some (off x) \<and> 0 < dest + off x \<and> nat (dest + off x) + 8 \<le> L"
    and "distinct xs" and "\<forall>x \<in> set xs. \<forall>y \<in> set xs. x \<noteq> y \<longrightarrow> apart (dest + off x, 8) (dest + off y, 8)"
  shows "length m = L \<Longrightarrow> \<exists>m'. init_strings st fn cell dest xs m = Some m' \<and> length m' = L \<and>
    changes_only (map (\<lambda>x. (dest + off x, 8)) xs) m m' \<and>
    (\<forall>x \<in> set xs. cell_bytes m' (dest + off x, 8) = Some (callback_bytes fn (cell x)))"
  using assms
proof (induction xs arbitrary: m)
  case Nil
  then show ?case by (simp add: changes_only_refl)
next
  case (Cons x xs)
  obtain m1 where m1: "init_string_field fn (dest + off x) (cell x) m = Some m1" "changes_only [(dest + off x, 8)] m m1"
    "cell_bytes m1 (dest + off x, 8) = Some (callback_bytes fn (cell x))"
    by (rule init_string_field_ok [of "dest + off x" m fn "cell x"]) (use Cons.prems(1,2) in auto)
  have l1: "length m1 = L" using m1(2) Cons.prems(1) by (simp add: changes_only_def)
  obtain m2 where m2: "init_strings st fn cell dest xs m1 = Some m2" "length m2 = L"
    "changes_only (map (\<lambda>x. (dest + off x, 8)) xs) m1 m2"
    "\<forall>x \<in> set xs. cell_bytes m2 (dest + off x, 8) = Some (callback_bytes fn (cell x))"
    using Cons.IH [OF l1] Cons.prems(2-4) by auto
  have ap: "list_all (\<lambda>d. apart d (dest + off x, 8)) (map (\<lambda>x. (dest + off x, 8)) xs)"
    unfolding list_all_iff set_map using Cons.prems(3,4) by auto
  then have "cell_bytes m2 (dest + off x, 8) = Some (callback_bytes fn (cell x))"
    using m2(3) m1(3) unfolding changes_only_def by simp
  moreover have "changes_only (map (\<lambda>x. (dest + off x, 8)) (x # xs)) m m2"
    using m1(2) m2(3) by (auto simp: changes_only_def)
  ultimately show ?case using m1(1) m2 Cons.prems(2) by (simp add: init_strings.simps)
qed

lemma string_offsets:
  assumes "class_ok cls" "0 < dest" "nat dest + size_of (rc_struct cls) \<le> L"
  obtains off where "\<forall>x \<in> set (rc_strings cls). offset_of (rc_struct cls) x = Some (off x) \<and> 0 < dest + off x \<and> nat (dest + off x) + 8 \<le> L"
    "\<forall>x \<in> set (rc_strings cls). \<forall>y \<in> set (rc_strings cls). x \<noteq> y \<longrightarrow> apart (dest + off x, 8) (dest + off y, 8)"
    "\<forall>j < length (rc_lines cls). e_member (rc_lines cls ! j) \<in> set (rc_strings cls) \<longrightarrow>
       data_cell (slots (butlast (rc_fields cls)) dest ! j) = (dest + off (e_member (rc_lines cls ! j)), 8)"
proof -
  let ?ss = "slots (butlast (rc_fields cls)) dest"
  let ?off = "\<lambda>x. the (offset_of (rc_struct cls) x)"
  note at = class_at [OF assms refl]
  have cell: "data_cell (?ss ! j) = (dest + ?off (e_member (rc_lines cls ! j)), 8) \<and>
      (\<exists>a. offset_of (rc_struct cls) (e_member (rc_lines cls ! j)) = Some a) \<and> j < length ?ss"
    if j: "j < length (rc_lines cls)" "e_member (rc_lines cls ! j) \<in> set (rc_strings cls)" for j
  proof -
    have sf: "string_field (s_field (?ss ! j))" using at(7) [OF j(1)] j(2) by simp
    obtain a t where m: "member (rc_struct cls) (e_member (rc_lines cls ! j)) = Some (a, t)" "s_data (?ss ! j) = dest + int a"
      using class_line(2) [OF at(1) j(1) refl refl] by blast
    have "unat (data_size (s_field (?ss ! j))) = 8" using sf by (simp add: string_field_def)
    then show ?thesis using m class_line(1) [OF at(1) j(1) refl refl] j(1) by (simp add: offset_of_def)
  qed
  have index: "\<exists>j < length (rc_lines cls). e_member (rc_lines cls ! j) = x" if "x \<in> set (rc_strings cls)" for x
  proof -
    have "x \<in> e_member ` set (rc_lines cls)" using at(6) that by blast
    then show ?thesis by (auto simp: in_set_conv_nth)
  qed
  show thesis
  proof (rule that [of ?off])
    show "\<forall>x \<in> set (rc_strings cls). offset_of (rc_struct cls) x = Some (?off x) \<and> 0 < dest + ?off x \<and> nat (dest + ?off x) + 8 \<le> L"
    proof
      fix x assume x: "x \<in> set (rc_strings cls)"
      then obtain j where j: "j < length (rc_lines cls)" "e_member (rc_lines cls ! j) = x" using index by blast
      note c = cell [OF j(1), unfolded j(2), OF x]
      have "data_cell (?ss ! j) \<in> set (slot_cells (?ss ! j))" by (simp add: slot_cells_def)
      then have "0 < fst (data_cell (?ss ! j)) \<and> nat (fst (data_cell (?ss ! j))) + snd (data_cell (?ss ! j)) \<le> L"
        using at(3) c unfolding cells_fit_def list_all_iff by (metis nth_mem)
      then show "offset_of (rc_struct cls) x = Some (?off x) \<and> 0 < dest + ?off x \<and> nat (dest + ?off x) + 8 \<le> L"
        using c by auto
    qed
    show "\<forall>x \<in> set (rc_strings cls). \<forall>y \<in> set (rc_strings cls). x \<noteq> y \<longrightarrow> apart (dest + ?off x, 8) (dest + ?off y, 8)"
    proof (intro ballI impI)
      fix x y assume xy: "x \<in> set (rc_strings cls)" "y \<in> set (rc_strings cls)" "x \<noteq> y"
      obtain i j where i: "i < length (rc_lines cls)" "e_member (rc_lines cls ! i) = x" and j: "j < length (rc_lines cls)" "e_member (rc_lines cls ! j) = y"
        using index xy by metis
      have "i \<noteq> j" using i j xy(3) by auto
      moreover have "slots_apart ?ss" using at(2) by (simp add: readable_def)
      ultimately have "apart (data_cell (?ss ! i)) (data_cell (?ss ! j))"
        using cell [OF i(1)] cell [OF j(1)] i(2) j(2) xy by (intro slots_apart_cells [of ?ss i j]) (auto simp: slot_cells_def)
      then show "apart (dest + ?off x, 8) (dest + ?off y, 8)" using cell [OF i(1)] cell [OF j(1)] i(2) j(2) xy by simp
    qed
  qed (use cell in blast)
qed

lemma new_response_ok:
  assumes "class_ok cls" "0 < dest" "nat dest + size_of (rc_struct cls) \<le> length m"
  shows "\<exists>m'. new_response cls fn cell dest m = Some m' \<and> length m' = length m \<and> callbacks_set cls fn cell dest m'"
proof -
  obtain off where off: "\<forall>x \<in> set (rc_strings cls). offset_of (rc_struct cls) x = Some (off x) \<and> 0 < dest + off x \<and> nat (dest + off x) + 8 \<le> length m"
    "\<forall>x \<in> set (rc_strings cls). \<forall>y \<in> set (rc_strings cls). x \<noteq> y \<longrightarrow> apart (dest + off x, 8) (dest + off y, 8)"
    by (rule string_offsets [OF assms]) assumption
  obtain m1 where m1: "sto m dest (replicate (size_of (rc_struct cls)) 0) = Some m1" "length m1 = length m"
    using sto_Some [OF assms(2), of "replicate (size_of (rc_struct cls)) 0" m] assms(3) by auto
  have d: "distinct (rc_strings cls)" using class_at(5) [OF assms refl] .
  obtain m2 where "init_strings (rc_struct cls) fn cell dest (rc_strings cls) m1 = Some m2" "length m2 = length m"
    "\<forall>x \<in> set (rc_strings cls). cell_bytes m2 (dest + off x, 8) = Some (callback_bytes fn (cell x))"
    using init_strings_ok [OF off(1) d off(2) m1(2), of fn cell] by (elim exE conjE) (rule that)
  then show ?thesis using m1(1) off(1) by (auto simp: new_response_def callbacks_set_def)
qed

section \<open>Parsing\<close>

text \<open>The addresses the model is given: \<open>decode_string\<close>, and a cell for every string member.\<close>

definition addresses_ok :: "response_class \<Rightarrow> addr \<Rightarrow> (string \<Rightarrow> addr) \<Rightarrow> bool" where
  "addresses_ok cls fn cell \<longleftrightarrow> 0 < fn \<and> fn < 2 ^ 32 \<and> inj_on cell (set (rc_strings cls)) \<and>
     (\<forall>x \<in> set (rc_strings cls). 0 < cell x \<and> cell x < 2 ^ 32)"

text \<open>
  What the accessors return for the field of a line after the items \<open>rs\<close>: the last number cut to
  its member, with its has flag, and the last string that is not empty.
\<close>

definition field_read :: "response_class \<Rightarrow> (string \<Rightarrow> addr) \<Rightarrow> addr \<Rightarrow> strings dst \<Rightarrow> item list \<Rightarrow> nat \<Rightarrow> bool" where
  "field_read cls cell dest ds rs j \<longleftrightarrow>
     (let l = rc_lines cls ! j; x = e_member l in
      if x \<in> set (rc_strings cls) then world ds (cell x) = last_string j rs
      else get_number cls dest (dmem ds) x = Some (unat (last_number j rs) mod 256 ^ unat (data_size (rc_fields cls ! j))) \<and>
        (e_rule l = OPTIONAL \<longrightarrow> get_number cls dest (dmem ds) (''has_'' @ x) = Some (of_bool (j \<in> item_index ` set rs))))"

lemma le_value_bytes_mod: "le_value (le_bytes n v) = v mod 256 ^ n"
proof (induction n arbitrary: v)
  case (Suc n)
  have "le_value (le_bytes (Suc n) v) = v mod 256 + 256 * (v div 256 mod 256 ^ n)"
    using Suc by (simp add: unat_byte)
  then show ?case by (simp add: mod_mult2_eq)
qed simp

lemma cleared: "x \<in> set (rc_strings cls) \<Longrightarrow> clear_super_data cls cell w (cell x) = None"
proof -
  have "fold (\<lambda>x w. w(cell x := None)) xs w c = (if c \<in> cell ` set xs then None else w c)" for xs and c
    by (induction xs arbitrary: w) auto
  then show "x \<in> set (rc_strings cls) \<Longrightarrow> ?thesis" by (simp add: clear_super_data_def)
qed

lemma parse_items:
  assumes cls: "class_ok cls" "0 < dest" "nat dest + size_of (rc_struct cls) \<le> length (dmem ds)"
    and cb: "callbacks_set cls fn cell dest (dmem ds)" and ad: "addresses_ok cls fn cell"
    and v: "list_all (item_valid (rc_fields cls)) rs" and f: "fits (items_wire (rc_fields cls) rs)"
  shows "\<exists>ds'. ParseFromArray cls fn cell dest ds (items_wire (rc_fields cls) rs) (of_nat (length (items_wire (rc_fields cls) rs))) =
      Some (complete (rc_fields cls) rs, ds') \<and> (\<forall>j < length (rc_lines cls). field_read cls cell dest ds' rs j) \<and>
      length (dmem ds') = length (dmem ds) \<and> callbacks_set cls fn cell dest (dmem ds')"
proof -
  let ?flds = "rc_fields cls" and ?ss = "slots (butlast (rc_fields cls)) dest"
  let ?cell = "\<lambda>j. cell (e_member (rc_lines cls ! j))"
  note at = class_at [OF cls refl]
  obtain off where off: "\<forall>x \<in> set (rc_strings cls). offset_of (rc_struct cls) x = Some (off x) \<and> 0 < dest + off x \<and> nat (dest + off x) + 8 \<le> length (dmem ds)"
    "\<forall>j < length (rc_lines cls). e_member (rc_lines cls ! j) \<in> set (rc_strings cls) \<longrightarrow> data_cell (?ss ! j) = (dest + off (e_member (rc_lines cls ! j)), 8)"
    by (rule string_offsets [OF cls]) assumption
  have len: "length ?flds - 1 = length (rc_lines cls)" using at(1) by (simp add: message_ok_def)
  have sf: "string_field (s_field (?ss ! j)) \<longleftrightarrow> e_member (rc_lines cls ! j) \<in> set (rc_strings cls)" "s_field (?ss ! j) = ?flds ! j"
    if "j < length (rc_lines cls)" for j
    using at(7) [OF that] readable_slot(1) [OF at(2), of j] that len by simp_all
  have si: "string_indices ?flds = {j. j < length (rc_lines cls) \<and> e_member (rc_lines cls ! j) \<in> set (rc_strings cls)}"
    using sf len by (auto simp: string_indices_def)
  have P: "pointers_ok fn ?cell ?flds"
  proof -
    have "inj_on ?cell (string_indices ?flds)"
      using ad at(4) unfolding si addresses_ok_def by (auto intro!: inj_onI dest!: inj_onD simp: distinct_conv_nth)
    then show ?thesis using ad unfolding si pointers_ok_def addresses_ok_def by auto
  qed
  have cells: "callback_holds fn ?cell m j (?ss ! j)" if "callbacks_set cls fn cell dest m" "j < length ?flds - 1" for m j
    using that off sf [of j] len by (fastforce simp: callback_holds_def callbacks_set_def callback_bytes_def)
  let ?ds = "ds\<lparr>world := clear_super_data cls cell (world ds)\<rparr>"
  have w: "world ?ds (?cell j) = None" if "j \<in> string_indices ?flds" for j using that cleared unfolding si by simp
  obtain ds' e' where d: "pb_decode (string_env fn) (Suc 1) ?flds dest ?ds (buf_at (items_wire ?flds rs) [] None :: unit istream) =
      Some (complete ?flds rs, ds', buf_at [] [] e')" "message_holds fn ?cell ?flds dest rs ds'" "length (dmem ds') = length (dmem ?ds)"
    using decode_items [OF at(2) _ P _ w v f, where d = 1 and rest = "[]" and e = None and ?'s = unit] at(3) cells [OF cb] by auto
  have "ParseFromArray cls fn cell dest ds (items_wire ?flds rs) (of_nat (length (items_wire ?flds rs))) = Some (complete ?flds rs, ds')"
    using d(1) by (simp add: ParseFromArray_def pb_istream_from_buffer_at numeral_2_eq_2)
  moreover have "field_read cls cell dest ds' rs j" if j: "j < length (rc_lines cls)" for j
  proof -
    have h: "field_holds fn ?cell rs ds' j (?ss ! j)" using d(2) j len by (simp add: message_holds_def)
    show ?thesis
    proof (cases "e_member (rc_lines cls ! j) \<in> set (rc_strings cls)")
      case True
      then show ?thesis using h sf [OF j] by (simp add: field_holds_def field_read_def Let_def)
    next
      case False
      let ?s = "?ss ! j" and ?l = "rc_lines cls ! j"
      note line = class_line [OF at(1) j refl refl]
      have ns: "\<not> string_field (s_field ?s)" and flag: "has_flag ?s \<longleftrightarrow> e_rule ?l = OPTIONAL" "e_alloc ?l = STATIC"
        using at(7) [OF j] False by auto
      obtain a t where m: "member (rc_struct cls) (e_member ?l) = Some (a, t)" "s_data ?s = dest + int a" "unat (data_size (s_field ?s)) = size_of t"
        using line(2) by blast
      have "cell_bytes (dmem ds') (data_cell ?s) = Some (le_word (unat (data_size (s_field ?s))) (last_number j rs))"
        and hf: "has_flag ?s \<Longrightarrow> cell_bytes (dmem ds') (s_size ?s, 1) = Some [of_bool (j \<in> item_index ` set rs)]"
        using h ns by (simp_all add: field_holds_def)
      then have "get_number cls dest (dmem ds') (e_member ?l) = Some (unat (last_number j rs) mod 256 ^ unat (data_size (?flds ! j)))"
        using m(1,2) sf(2) [OF j] by (simp add: m(3) [symmetric] get_number_def cell_bytes_def le_word_def le_value_bytes_mod)
      moreover have "get_number cls dest (dmem ds') (''has_'' @ e_member ?l) = Some (of_bool (j \<in> item_index ` set rs))" if o: "e_rule ?l = OPTIONAL"
      proof -
        obtain b where "member (rc_struct cls) (''has_'' @ e_member ?l) = Some (b, c_bool)" "s_size ?s = dest + int b"
          using line(3) flag o by blast
        then show ?thesis using hf flag(1) o by (simp add: get_number_def cell_bytes_def)
      qed
      ultimately show ?thesis using False by (simp add: field_read_def Let_def)
    qed
  qed
  moreover have "callbacks_set cls fn cell dest (dmem ds')"
    unfolding callbacks_set_def
  proof
    fix x assume x: "x \<in> set (rc_strings cls)"
    have "x \<in> e_member ` set (rc_lines cls)" using at(6) x by blast
    then obtain j where j: "j < length (rc_lines cls)" "e_member (rc_lines cls ! j) = x" by (auto simp: in_set_conv_nth)
    have "callback_holds fn ?cell (dmem ds') j (?ss ! j)" using holds_callbacks [OF d(2), of j] j(1) len by simp
    then show "\<exists>a. offset_of (rc_struct cls) x = Some a \<and> cell_bytes (dmem ds') (dest + a, 8) = Some (callback_bytes fn (cell x))"
      using off sf(1) [OF j(1)] j x by (auto simp: callback_holds_def callback_bytes_def)
  qed
  ultimately show ?thesis using d(3) by auto
qed

section \<open>Property of the decoder classes\<close>

text \<open>
  The objects of a class: a constructed one, and one that has parsed a message or whose voice was
  released. What its strings hold before that does not matter.
\<close>

inductive response_object :: "response_class \<Rightarrow> addr \<Rightarrow> (string \<Rightarrow> addr) \<Rightarrow> addr \<Rightarrow> strings dst \<Rightarrow> bool"
  for cls fn cell dest where
  constructed: "new_response cls fn cell dest m = Some m' \<Longrightarrow> response_object cls fn cell dest \<lparr>dmem = m', world = w\<rparr>"
| parsed: "response_object cls fn cell dest ds \<Longrightarrow> list_all (item_valid (rc_fields cls)) rs \<Longrightarrow> fits (items_wire (rc_fields cls) rs) \<Longrightarrow>
    ParseFromArray cls fn cell dest ds (items_wire (rc_fields cls) rs) (of_nat (length (items_wire (rc_fields cls) rs))) = Some (ok, ds') \<Longrightarrow>
    response_object cls fn cell dest ds'"
| released: "response_object cls fn cell dest ds \<Longrightarrow> release_voice cell (world ds) = (voice, w) \<Longrightarrow>
    response_object cls fn cell dest (ds\<lparr>world := w\<rparr>)"

lemma new_response_fits: "new_response cls fn cell dest m = Some m' \<Longrightarrow> 0 < dest \<and> nat dest + size_of (rc_struct cls) \<le> length m"
  by (auto simp: new_response_def sto_def mem_store_def split: bind_splits if_splits)

lemma response_object_ok:
  assumes "response_object cls fn cell dest ds" "class_ok cls" "addresses_ok cls fn cell"
  shows "0 < dest \<and> nat dest + size_of (rc_struct cls) \<le> length (dmem ds) \<and> callbacks_set cls fn cell dest (dmem ds)"
  using assms(1)
proof induction
  case (constructed m m' w)
  note fit = new_response_fits [OF constructed]
  then show ?case using new_response_ok [OF assms(2), of dest m fn cell] constructed by auto
next
  case (parsed ds rs ok ds')
  then show ?case using parse_items [OF assms(2) _ _ _ assms(3) parsed.hyps(2,3), of dest ds] by auto
qed simp

text \<open>
  C36. \<open>ParseFromArray\<close> of the response classes reads the messages of the server. For every list of
  fields on the wire, in any order and with repetitions, it returns, true exactly when all
  required fields are there, and the accessors then give for each field the last number, its has
  flag, and the last string that is not empty, whatever messages the object parsed before: a string
  this message does not bring is empty. A field \<open>voice\<close> of no bytes leaves \<open>has_voice\<close> false.
\<close>

theorem parse_reads_message:
  assumes "cls \<in> set response_classes" "response_object cls fn cell dest ds" "addresses_ok cls fn cell"
    and "list_all (item_valid (rc_fields cls)) rs" "fits (items_wire (rc_fields cls) rs)"
  shows "\<exists>ds'. ParseFromArray cls fn cell dest ds (items_wire (rc_fields cls) rs) (of_nat (length (items_wire (rc_fields cls) rs))) =
      Some (complete (rc_fields cls) rs, ds') \<and>
    list_all (field_read cls cell dest ds' rs) [0..<length (rc_lines cls)]"
proof -
  have ok: "class_ok cls" using response_classes_ok assms(1) by (simp add: list_all_iff)
  show ?thesis
    using response_object_ok [OF assms(2) ok assms(3)] parse_items [OF ok _ _ _ assms(3-5), of dest ds]
    by (fastforce simp: list_all_iff)
qed

text \<open>A speech that arrives: id 7, result 0, a voice after an empty one, and the end.\<close>

definition example_cell :: "string \<Rightarrow> addr" where
  "example_cell x = (if x = ''text'' then 400 else 416)"

definition example_items :: "item list" where
  "example_items = [Num 0 7, Str 3 [], Num 1 0, Str 3 [1, 2, 3], Num 4 1]"

definition example_object :: "strings dst" where
  "example_object = \<lparr>dmem = the (new_response TtsResponse_class 4096 example_cell 8 (replicate 40 170)), world = (\<lambda>_. Some [9])\<rparr>"

lemma example_constructed: "response_object TtsResponse_class 4096 example_cell 8 example_object"
proof -
  have "\<exists>m'. new_response TtsResponse_class 4096 example_cell 8 (replicate 40 170) = Some m' \<and> length m' = length (replicate 40 170 :: memory) \<and>
      callbacks_set TtsResponse_class 4096 example_cell 8 m'"
  proof (rule new_response_ok)
    show "nat 8 + size_of (rc_struct TtsResponse_class) \<le> length (replicate 40 170 :: memory)" by code_simp
    show "class_ok TtsResponse_class" using response_classes_ok by (simp add: response_classes_def)
  qed simp
  then show ?thesis unfolding example_object_def by (auto intro!: constructed)
qed

theorem parse_reads_message_witness:
  "\<exists>ds'. ParseFromArray TtsResponse_class 4096 example_cell 8 example_object (items_wire (rc_fields TtsResponse_class) example_items)
      (of_nat (length (items_wire (rc_fields TtsResponse_class) example_items))) =
      Some (complete (rc_fields TtsResponse_class) example_items, ds') \<and>
    list_all (field_read TtsResponse_class example_cell 8 ds' example_items) [0..<length (rc_lines TtsResponse_class)]"
proof (rule parse_reads_message)
  show "list_all (item_valid (rc_fields TtsResponse_class)) example_items" by code_simp
  have "length (items_wire (rc_fields TtsResponse_class) example_items) = 13" by code_simp
  then show "fits (items_wire (rc_fields TtsResponse_class) example_items)" by simp
  show "addresses_ok TtsResponse_class 4096 example_cell"
    by (auto simp: addresses_ok_def TtsResponse_class_def example_cell_def inj_on_def)
qed (simp_all add: response_classes_def example_constructed)

end
