(* ===== verification/Encoder.thy ===== *)
theory Encoder
  imports DecoderSpec PbEncodeSpec
begin

text \<open>
  The encoder classes of the speech client (speech/src/common/nanopb_encoder.cc and .h): a request
  object is a nanopb struct, the string members its callbacks point to, and for a speech request the
  encoder of its options, which works on a part of the same struct.

  The strings are a map from addresses to contents, None where there is no string. \<open>fn\<close> is the
  address of \<open>NanoPBEncoder::encode_string\<close>. A class is its struct, its table and its setters; the
  string members of an object are at the addresses \<open>cell x\<close>, where \<open>x\<close> is the name of the struct
  member the string is for.
\<close>

section \<open>Objects and setters\<close>

record request =
  r_mem :: memory
  r_strings :: "addr \<Rightarrow> byte list option"
  r_options :: "(string \<Rightarrow> addr) option"

text \<open>The argument of a setter; a float is its four bytes.\<close>

datatype arg = Text "byte list" | Int32 u32 | Uint32 u32 | Uint64 u64 | Bool bool | Float u32

primrec arg_cell :: "arg \<Rightarrow> byte list" where
  "arg_cell (Text s) = []"
| "arg_cell (Int32 w) = le_bytes 4 (unat w)"
| "arg_cell (Uint32 w) = le_bytes 4 (unat w)"
| "arg_cell (Uint64 w) = le_bytes 8 (unat w)"
| "arg_cell (Bool b) = [of_bool b]"
| "arg_cell (Float w) = le_bytes 4 (unat w)"

text \<open>
  The bodies of the setters: \<open>_x = str; set_string_field(&nanopbStruct.x, _x)\<close>, \<open>nanopbStruct.x = i\<close>,
  and the latter after \<open>nanopbStruct.has_x = true\<close>.
\<close>

datatype setter = SetString string | SetNumber string | SetOptional string

definition set_string_field :: "addr \<Rightarrow> addr \<Rightarrow> addr \<Rightarrow> memory \<Rightarrow> memory c" where
  "set_string_field fn cbt str m = do {
     m1 \<leftarrow> sto m cbt (le_bytes 4 (nat fn));
     sto m1 (cbt + 4) (le_bytes 4 (nat str)) }"

definition set_member :: "ctype \<Rightarrow> addr \<Rightarrow> string \<Rightarrow> byte list \<Rightarrow> memory \<Rightarrow> memory c" where
  "set_member st dest x bs m = do { a \<leftarrow> offset_of st x; sto m (dest + a) bs }"

fun run_setter :: "ctype \<Rightarrow> addr \<Rightarrow> (string \<Rightarrow> addr) \<Rightarrow> addr \<Rightarrow> setter \<Rightarrow> arg \<Rightarrow> request \<Rightarrow> request c" where
  "run_setter st fn cell dest (SetString x) (Text s) r = do {
     a \<leftarrow> offset_of st x;
     m \<leftarrow> set_string_field fn (dest + a) (cell x) (r_mem r);
     Some (r\<lparr>r_mem := m, r_strings := (r_strings r)(cell x \<mapsto> s)\<rparr>) }"
| "run_setter st fn cell dest (SetString x) _ r = None"
| "run_setter st fn cell dest (SetNumber x) v r = do {
     m \<leftarrow> set_member st dest x (arg_cell v) (r_mem r);
     Some (r\<lparr>r_mem := m\<rparr>) }"
| "run_setter st fn cell dest (SetOptional x) v r = do {
     m1 \<leftarrow> set_member st dest (''has_'' @ x) [1] (r_mem r);
     m2 \<leftarrow> set_member st dest x (arg_cell v) m1;
     Some (r\<lparr>r_mem := m2\<rparr>) }"

section \<open>The classes\<close>

record request_class =
  q_struct :: ctype
  q_lines :: "table_line list"
  q_fields :: "pb_field list"
  q_setters :: "(string \<times> setter) list"

definition AuthRequest_class :: request_class where
  "AuthRequest_class = \<lparr>q_struct = AuthRequest, q_lines = AuthRequest_lines, q_fields = AuthRequest_fields, q_setters =
     [(''set_key'', SetString ''key''), (''set_device_type_id'', SetString ''device_type_id''),
      (''set_device_id'', SetString ''device_id''), (''set_service'', SetString ''service''),
      (''set_version'', SetString ''version''), (''set_timestamp'', SetString ''timestamp''),
      (''set_sign'', SetString ''sign'')]\<rparr>"

definition TtsRequest_class :: request_class where
  "TtsRequest_class = \<lparr>q_struct = TtsRequest, q_lines = TtsRequest_lines, q_fields = TtsRequest_fields, q_setters =
     [(''set_id'', SetNumber ''id''), (''set_text'', SetString ''text''), (''set_declaimer'', SetString ''declaimer''),
      (''set_codec'', SetString ''codec''), (''set_sample_rate'', SetOptional ''sample_rate'')]\<rparr>"

definition SpeechOptionsEnc_class :: request_class where
  "SpeechOptionsEnc_class = \<lparr>q_struct = SpeechOptions, q_lines = SpeechOptions_lines, q_fields = SpeechOptions_fields, q_setters =
     [(''set_lang'', SetNumber ''lang''), (''set_codec'', SetNumber ''codec''), (''set_vad_mode'', SetNumber ''vad_mode''),
      (''set_vend_timeout'', SetOptional ''vend_timeout''), (''set_no_nlp'', SetNumber ''no_nlp''),
      (''set_no_intermediate_asr'', SetNumber ''no_intermediate_asr''), (''set_stack'', SetString ''stack''),
      (''set_voice_trigger'', SetString ''voice_trigger''), (''set_voice_power'', SetOptional ''voice_power''),
      (''set_trigger_start'', SetOptional ''trigger_start''), (''set_trigger_length'', SetOptional ''trigger_length''),
      (''set_skill_options'', SetString ''skill_options''), (''set_voice_extra'', SetString ''voice_extra''),
      (''set_vad_begin'', SetOptional ''vad_begin''), (''set_no_trigger_confirm'', SetOptional ''no_trigger_confirm'')]\<rparr>"

definition SpeechRequest_class :: request_class where
  "SpeechRequest_class = \<lparr>q_struct = SpeechRequest, q_lines = SpeechRequest_lines, q_fields = SpeechRequest_fields, q_setters =
     [(''set_id'', SetNumber ''id''), (''set_type'', SetNumber ''type''), (''set_voice'', SetString ''voice''),
      (''set_asr'', SetString ''asr'')]\<rparr>"

text \<open>The last setter of \<open>PingPayload\<close> writes the member of the one before it.\<close>

definition PingPayload_class :: request_class where
  "PingPayload_class = \<lparr>q_struct = PingPayload, q_lines = PingPayload_lines, q_fields = PingPayload_fields, q_setters =
     [(''set_req_id'', SetNumber ''req_id''), (''set_now_tp'', SetNumber ''now_tp''), (''set_req_tp'', SetNumber ''req_tp''),
      (''set_resp_tp'', SetNumber ''req_tp'')]\<rparr>"

definition class_strings :: "request_class \<Rightarrow> string list" where
  "class_strings cls = List.map_filter (\<lambda>(n, s). case s of SetString x \<Rightarrow> Some x | _ \<Rightarrow> None) (q_setters cls)"

text \<open>The string members of an object as their constructor leaves them.\<close>

definition empty_strings :: "request_class \<Rightarrow> (string \<Rightarrow> addr) \<Rightarrow> (addr \<Rightarrow> byte list option) \<Rightarrow> addr \<Rightarrow> byte list option" where
  "empty_strings cls cell w = fold (\<lambda>x w. w(cell x \<mapsto> [])) (class_strings cls) w"

text \<open>A constructor sets the struct to its initializer, which is all zero.\<close>

definition new_request :: "request_class \<Rightarrow> (string \<Rightarrow> addr) \<Rightarrow> addr \<Rightarrow> memory \<Rightarrow> (addr \<Rightarrow> byte list option) \<Rightarrow> request c" where
  "new_request cls cell dest m w = do {
     m1 \<leftarrow> sto m dest (replicate (size_of (q_struct cls)) 0);
     Some \<lparr>r_mem = m1, r_strings = empty_strings cls cell w, r_options = None\<rparr> }"

definition call_setter :: "request_class \<Rightarrow> addr \<Rightarrow> (string \<Rightarrow> addr) \<Rightarrow> addr \<Rightarrow> string \<Rightarrow> arg \<Rightarrow> request \<Rightarrow> request c" where
  "call_setter cls fn cell dest name v r = do {
     s \<leftarrow> map_of (q_setters cls) name;
     run_setter (q_struct cls) fn cell dest s v r }"

text \<open>
  \<open>mutable_options\<close> allocates an encoder of the options, with its strings at \<open>al\<close>, on the member
  \<open>options\<close>; a call of an options setter goes to the last one.
\<close>

definition mutable_options :: "request_class \<Rightarrow> addr \<Rightarrow> (string \<Rightarrow> addr) \<Rightarrow> request \<Rightarrow> request c" where
  "mutable_options cls dest al r = do {
     m \<leftarrow> set_member (q_struct cls) dest ''has_options'' [1] (r_mem r);
     Some (r\<lparr>r_mem := m, r_strings := empty_strings SpeechOptionsEnc_class al (r_strings r), r_options := Some al\<rparr>) }"

definition call_options :: "request_class \<Rightarrow> addr \<Rightarrow> addr \<Rightarrow> string \<Rightarrow> arg \<Rightarrow> request \<Rightarrow> request c" where
  "call_options cls fn dest name v r = do {
     al \<leftarrow> r_options r;
     a \<leftarrow> offset_of (q_struct cls) ''options'';
     call_setter SpeechOptionsEnc_class fn al (dest + a) name v r }"

datatype call = Set string arg | Options "string \<Rightarrow> addr" | SetOption string arg

primrec run_call :: "request_class \<Rightarrow> addr \<Rightarrow> (string \<Rightarrow> addr) \<Rightarrow> addr \<Rightarrow> call \<Rightarrow> request \<Rightarrow> request c" where
  "run_call cls fn cell dest (Set name v) r = call_setter cls fn cell dest name v r"
| "run_call cls fn cell dest (Options al) r = mutable_options cls dest al r"
| "run_call cls fn cell dest (SetOption name v) r = call_options cls fn dest name v r"

primrec run_calls :: "request_class \<Rightarrow> addr \<Rightarrow> (string \<Rightarrow> addr) \<Rightarrow> addr \<Rightarrow> call list \<Rightarrow> request \<Rightarrow> request c" where
  "run_calls cls fn cell dest [] r = Some r"
| "run_calls cls fn cell dest (x # xs) r = do { r1 \<leftarrow> run_call cls fn cell dest x r; run_calls cls fn cell dest xs r1 }"

section \<open>Serializing\<close>

definition encode_string :: "request \<Rightarrow> pb_field \<Rightarrow> addr \<Rightarrow> obuf ostream \<Rightarrow> (bool \<times> obuf ostream) c" where
  "encode_string r f a st = and_write (pb_encode_tag_for_field f st) (\<lambda>st.
     if a = 0 then Some (False, st)
     else do {
       p \<leftarrow> ld_ptr (r_mem r) a;
       s \<leftarrow> r_strings r p;
       pb_encode_string st (Some s) (of_nat (length s)) })"

definition request_env :: "addr \<Rightarrow> request \<Rightarrow> obuf enc_env" where
  "request_env fn r = \<lparr>mem = r_mem r, enc_callbacks = \<lambda>fp. if fp = fn then Some (encode_string r) else None, ext_types = \<lambda>_. None\<rparr>"

text \<open>The size of \<open>NanoPBEncoder::encodeBuffer\<close>.\<close>

definition encodeBuffer_size :: nat where
  "encodeBuffer_size = 1024 * 1024"

text \<open>
  The string assigned on success, and the buffer that all objects share, as the call leaves it. The
  options of a speech request are the only nested message.
\<close>

definition SerializeToString :: "request_class \<Rightarrow> addr \<Rightarrow> addr \<Rightarrow> byte list \<Rightarrow> request \<Rightarrow> (byte list option \<times> byte list) c" where
  "SerializeToString cls fn dest buf r = do {
     (ok, st) \<leftarrow> pb_encode (request_env fn r) 2 (q_fields cls) dest (pb_ostream_from_buffer buf (of_nat (length buf)));
     Some (if ok then Some (take (unat (bytes_written st)) (fst (ostate st))) else None, fst (ostate st)) }"

end
