(* ===== verification/EncoderObjects.thy ===== *)
theory EncoderObjects
  imports Encoder
begin

text \<open>
  The values the setters of the request objects were called with, their encoding as a function of the
  tables alone, and what the struct and the strings of an object hold of them: each setter changes
  the cells of its member and keeps the others.
\<close>

section \<open>Values and their encoding\<close>

datatype contents = Str "byte list" | Num nat

type_synonym contents_of = "string \<Rightarrow> contents option"

text \<open>The values of an object and of its options, None before \<open>mutable_options\<close>.\<close>

record request_values =
  v_own :: contents_of
  v_options :: "contents_of option"

fun arg_contents :: "arg \<Rightarrow> contents" where
  "arg_contents (Text s) = Str s"
| "arg_contents v = Num (le_value (arg_cell v))"

primrec setter_member :: "setter \<Rightarrow> string" where
  "setter_member (SetString x) = x"
| "setter_member (SetNumber x) = x"
| "setter_member (SetOptional x) = x"

definition put_contents :: "request_class \<Rightarrow> string \<Rightarrow> arg \<Rightarrow> contents_of \<Rightarrow> contents_of" where
  "put_contents cls name v vs =
     (case map_of (q_setters cls) name of None \<Rightarrow> vs | Some s \<Rightarrow> vs(setter_member s \<mapsto> arg_contents v))"

primrec put_call :: "request_class \<Rightarrow> call \<Rightarrow> request_values \<Rightarrow> request_values" where
  "put_call cls (Set name v) vs = vs\<lparr>v_own := put_contents cls name v (v_own vs)\<rparr>"
| "put_call cls (Options al) vs = vs\<lparr>v_options := Some (case v_options vs of None \<Rightarrow> Map.empty | Some os \<Rightarrow> os)\<rparr>"
| "put_call cls (SetOption name v) vs = vs\<lparr>v_options := map_option (put_contents SpeechOptionsEnc_class name v) (v_options vs)\<rparr>"

definition values_after :: "request_class \<Rightarrow> call list \<Rightarrow> request_values" where
  "values_after cls cs = fold (put_call cls) cs \<lparr>v_own = Map.empty, v_options = None\<rparr>"

definition number_of :: "contents_of \<Rightarrow> string \<Rightarrow> nat" where
  "number_of vs x = (case vs x of Some (Num v) \<Rightarrow> v | _ \<Rightarrow> 0)"

text \<open>A number on the wire, by the kind of its field.\<close>

definition number_wire :: "pb_kind \<Rightarrow> nat \<Rightarrow> byte list" where
  "number_wire k v =
     (if k = FLOAT then fixed32_bytes (of_nat v)
      else if k = INT32 then varint_bytes (scast (of_nat v :: u32))
      else if k = BOOL then varint_bytes (scast (of_nat v :: byte))
      else varint_bytes (of_nat v))"

definition line_wire :: "byte list option \<Rightarrow> contents_of \<Rightarrow> table_line \<Rightarrow> byte list" where
  "line_wire part vs l =
     (if e_alloc l = CALLBACK
      then (case vs (e_member l) of
              Some (Str s) \<Rightarrow> tag_bytes (PB_WT_STRING, of_nat (e_tag l)) @ string_bytes s
            | _ \<Rightarrow> [])
      else if e_kind l = MESSAGE
      then (case part of None \<Rightarrow> [] | Some bs \<Rightarrow> tag_bytes (PB_WT_STRING, of_nat (e_tag l)) @ string_bytes bs)
      else if e_rule l = OPTIONAL \<and> vs (e_member l) = None then []
      else tag_bytes (if e_kind l = FLOAT then PB_WT_32BIT else PB_WT_VARINT, of_nat (e_tag l)) @
        number_wire (e_kind l) (number_of vs (e_member l)))"

definition options_wire :: "contents_of \<Rightarrow> byte list" where
  "options_wire os = concat (map (line_wire None os) SpeechOptions_lines)"

definition request_wire :: "request_class \<Rightarrow> request_values \<Rightarrow> byte list" where
  "request_wire cls vs = concat (map (line_wire (map_option options_wire (v_options vs)) (v_own vs)) (q_lines cls))"

section \<open>The classes\<close>

text \<open>What a line says of the descriptor of its field.\<close>

definition kind_size :: "pb_kind \<Rightarrow> nat" where
  "kind_size k = (if k = BOOL then 1 else if k = UINT64 then 8 else 4)"

definition line_field_ok :: "table_line \<Rightarrow> slot \<Rightarrow> bool" where
  "line_field_ok l s \<longleftrightarrow>
     (let f = s_field s in
      ltype f = PB_LTYPE_MAP (e_kind l) \<and> atype f = alloc_bits (e_alloc l) \<and> htype f = rule_bits (e_rule l) (e_alloc l) \<and>
      f_tag f = of_nat (e_tag l) \<and> e_tag l < 256 \<and> f_ptr f = e_ptr l \<and>
      (size_offset f \<noteq> 0) = (e_rule l = OPTIONAL \<and> e_alloc l = STATIC) \<and> s_size s = s_data s + sint (size_offset f) \<and>
      (e_rule l = REQUIRED \<or> e_rule l = OPTIONAL) \<and>
      (if e_alloc l = CALLBACK then (e_kind l = STRING \<or> e_kind l = BYTES) \<and> unat (data_size f) = 8
       else e_alloc l = STATIC \<and>
         (if e_kind l = MESSAGE then e_rule l = OPTIONAL \<and> e_ptr l = Submsg SpeechOptions_fields \<and> e_member l = ''options''
          else e_kind l \<in> {INT32, UENUM, UINT32, UINT64, BOOL, FLOAT} \<and> unat (data_size f) = kind_size (e_kind l))))"

text \<open>A setter writes a member of its kind.\<close>

definition setter_ok :: "table_line list \<Rightarrow> setter \<Rightarrow> bool" where
  "setter_ok ls s \<longleftrightarrow> list_ex (\<lambda>l. e_member l = setter_member s \<and>
     (case s of SetString x \<Rightarrow> e_alloc l = CALLBACK
      | SetNumber x \<Rightarrow> e_alloc l = STATIC \<and> e_kind l \<noteq> MESSAGE \<and> e_rule l = REQUIRED
      | SetOptional x \<Rightarrow> e_alloc l = STATIC \<and> e_kind l \<noteq> MESSAGE \<and> e_rule l = OPTIONAL)) ls"

text \<open>What is checked of a class with its struct at the address 1.\<close>

definition encoder_ok :: "request_class \<Rightarrow> bool" where
  "encoder_ok cls \<longleftrightarrow>
     (let ss = slots (butlast (q_fields cls)) 1 in
      message_ok (Suc (size_of (q_struct cls))) 1 (q_struct cls, q_lines cls, q_fields cls) \<and>
      terminated (q_fields cls) \<and> cells_fit (Suc (size_of (q_struct cls))) ss \<and> slots_apart ss \<and>
      list_all2 line_field_ok (q_lines cls) ss \<and> list_all (setter_ok (q_lines cls)) (map snd (q_setters cls)) \<and>
      distinct (map e_member (q_lines cls)) \<and>
      (case member (q_struct cls) ''options'' of
         None \<Rightarrow> \<not> list_ex (\<lambda>l. e_kind l = MESSAGE) (q_lines cls)
       | Some (a, t) \<Rightarrow> t = SpeechOptions \<and> list_ex (\<lambda>l. e_kind l = MESSAGE) (q_lines cls)))"

definition object_classes :: "request_class list" where
  "object_classes = [AuthRequest_class, TtsRequest_class, SpeechRequest_class, PingPayload_class]"

definition request_classes :: "request_class list" where
  "request_classes = SpeechOptionsEnc_class # object_classes"

lemma request_classes_ok: "list_all encoder_ok request_classes"
  by code_simp

text \<open>The same at any address: the lines, the descriptors and the cells of a struct.\<close>

definition layout :: "nat \<Rightarrow> ctype \<Rightarrow> addr \<Rightarrow> table_line list \<Rightarrow> slot list \<Rightarrow> bool" where
  "layout L st dest ls ss \<longleftrightarrow> list_all2 (line_ok st dest) ls ss \<and> list_all2 line_field_ok ls ss \<and>
     cells_fit L ss \<and> slots_apart ss \<and> distinct (map e_member ls)"

lemma line_field_ok_shift: "line_field_ok l (shift_slot k s) = line_field_ok l s"
proof -
  have "s_size s + k = s_data s + k + x \<longleftrightarrow> s_size s = s_data s + x" for x by linarith
  then show ?thesis
    by (simp only: line_field_ok_def Let_def shift_slot_simps)
qed

lemma class_layout:
  assumes "cls \<in> set request_classes" "0 < dest" "nat dest + size_of (q_struct cls) \<le> L"
  shows "layout L (q_struct cls) dest (q_lines cls) (slots (butlast (q_fields cls)) dest)"
    "terminated (q_fields cls)" "list_all (setter_ok (q_lines cls)) (map snd (q_setters cls))"
proof -
  have ok: "encoder_ok cls" using request_classes_ok assms(1) by (simp add: list_all_iff)
  then show "terminated (q_fields cls)" "list_all (setter_ok (q_lines cls)) (map snd (q_setters cls))"
    by (simp_all add: encoder_ok_def Let_def)
  define k where "k = dest - 1"
  have k: "0 \<le> k" "dest = 1 + k" "Suc (size_of (q_struct cls)) + nat k \<le> L" using assms(2,3) by (auto simp: k_def)
  show "layout L (q_struct cls) dest (q_lines cls) (slots (butlast (q_fields cls)) dest)"
  proof -
    let ?ss = "slots (butlast (q_fields cls)) 1"
    have "list_all2 (line_ok (q_struct cls) (1 + k)) (q_lines cls) (map (shift_slot k) ?ss)"
      using ok line_ok_shift by (auto simp: encoder_ok_def message_ok_def Let_def list_all2_map2 elim!: list_all2_mono)
    moreover have "list_all2 line_field_ok (q_lines cls) (map (shift_slot k) ?ss)"
      using ok by (simp add: encoder_ok_def Let_def list_all2_map2 line_field_ok_shift)
    ultimately show ?thesis
      unfolding k(2) slots_shift layout_def
      using ok cells_fit_shift [OF _ k(1,3)] slots_apart_shift by (simp add: encoder_ok_def Let_def)
  qed
qed

lemma layout_line:
  assumes "layout L st dest ls ss" "j < length ls"
  shows "length ss = length ls" "line_ok st dest (ls ! j) (ss ! j)" "line_field_ok (ls ! j) (ss ! j)"
    "list_all (\<lambda>c. 0 < fst c \<and> nat (fst c) + snd c \<le> L) (slot_cells (ss ! j))"
  using assms by (auto simp: layout_def list_all2_conv_all_nth cells_fit_def list_all_length)

definition flagged :: "table_line \<Rightarrow> bool" where
  "flagged l \<longleftrightarrow> e_rule l = OPTIONAL \<and> e_alloc l = STATIC"

definition own_cells :: "table_line \<Rightarrow> slot \<Rightarrow> (addr \<times> nat) list" where
  "own_cells l s = (if e_kind l = MESSAGE then [] else [data_cell s]) @ (if flagged l then [(s_size s, 1)] else [])"

lemma flagged_slot: "line_field_ok l s \<Longrightarrow> has_flag s = flagged l"
proof -
  assume l: "line_field_ok l s"
  have z: "sint w = 0 \<longleftrightarrow> w = 0" for w :: byte by (metis signed_0 signed_word_eqI)
  show ?thesis using l
    by (cases "e_rule l"; cases "e_alloc l")
      (auto simp: line_field_ok_def Let_def has_flag_def flagged_def z atypes htypes)
qed

lemma own_cells_slot: "line_field_ok l s \<Longrightarrow> set (own_cells l s) \<subseteq> set (slot_cells s)"
  by (auto simp: own_cells_def slot_cells_def flagged_slot)

lemma own_cells_apart:
  assumes "layout L st dest ls ss" "i < length ls" "j < length ls" "i \<noteq> j" "c \<in> set (own_cells (ls ! i) (ss ! i))" "d \<in> set (own_cells (ls ! j) (ss ! j))"
  shows "apart c d"
  using assms(4) layout_line [OF assms(1,2)] layout_line [OF assms(1,3)]
    own_cells_slot [OF layout_line(3) [OF assms(1,2)]] own_cells_slot [OF layout_line(3) [OF assms(1,3)]] assms
  by (intro slots_apart_cells [of ss i j]) (auto simp: layout_def)

section \<open>What an object holds\<close>

definition line_holds :: "addr \<Rightarrow> (string \<Rightarrow> addr) \<Rightarrow> request \<Rightarrow> contents_of \<Rightarrow> bool \<Rightarrow> table_line \<Rightarrow> slot \<Rightarrow> bool" where
  "line_holds fn ptr r vs opt l s \<longleftrightarrow>
     (if e_alloc l = CALLBACK
      then (case vs (e_member l) of
              None \<Rightarrow> cell_bytes (r_mem r) (data_cell s) = Some (replicate 8 0)
            | Some (Str t) \<Rightarrow> cell_bytes (r_mem r) (data_cell s) = Some (callback_bytes fn (ptr (e_member l))) \<and>
                r_strings r (ptr (e_member l)) = Some t \<and> 0 < ptr (e_member l) \<and> ptr (e_member l) < 2 ^ 32
            | Some (Num v) \<Rightarrow> False)
      else if e_kind l = MESSAGE then cell_bytes (r_mem r) (s_size s, 1) = Some [of_bool opt]
      else (case vs (e_member l) of Some (Str t) \<Rightarrow> False | _ \<Rightarrow> True) \<and>
        cell_bytes (r_mem r) (data_cell s) = Some (le_bytes (kind_size (e_kind l)) (number_of vs (e_member l))) \<and>
        number_of vs (e_member l) < 256 ^ kind_size (e_kind l) \<and>
        (flagged l \<longrightarrow> cell_bytes (r_mem r) (s_size s, 1) = Some [of_bool (vs (e_member l) \<noteq> None)]))"

definition object_holds :: "addr \<Rightarrow> (string \<Rightarrow> addr) \<Rightarrow> request \<Rightarrow> contents_of \<Rightarrow> bool \<Rightarrow> table_line list \<Rightarrow> slot list \<Rightarrow> bool" where
  "object_holds fn ptr r vs opt ls ss \<longleftrightarrow> (\<forall>j < length ls. line_holds fn ptr r vs opt (ls ! j) (ss ! j))"

text \<open>A line keeps what it holds when its cells and its string stay.\<close>

lemma line_holds_frame:
  assumes h: "line_holds fn ptr r vs opt l s" and f: "line_field_ok l s"
    and m: "\<And>c. c \<in> set (own_cells l s) \<Longrightarrow> cell_bytes (r_mem r') c = cell_bytes (r_mem r) c"
    and p: "\<And>t. vs (e_member l) = Some (Str t) \<Longrightarrow> ptr' (e_member l) = ptr (e_member l) \<and> r_strings r' (ptr (e_member l)) = r_strings r (ptr (e_member l))"
    and v: "vs' (e_member l) = vs (e_member l)" and o: "e_kind l = MESSAGE \<Longrightarrow> opt' = opt"
  shows "line_holds fn ptr' r' vs' opt' l s"
proof -
  have a: "e_alloc l = CALLBACK \<Longrightarrow> e_kind l \<noteq> MESSAGE" "e_kind l = MESSAGE \<Longrightarrow> flagged l"
    using f by (auto simp: line_field_ok_def Let_def flagged_def split: if_splits)
  have n: "number_of vs' (e_member l) = number_of vs (e_member l)" by (simp add: number_of_def v)
  have d: "e_kind l \<noteq> MESSAGE \<Longrightarrow> cell_bytes (r_mem r') (data_cell s) = cell_bytes (r_mem r) (data_cell s)"
    and z: "flagged l \<Longrightarrow> cell_bytes (r_mem r') (s_size s, 1) = cell_bytes (r_mem r) (s_size s, 1)"
    using m by (simp_all add: own_cells_def)
  show ?thesis using h a d z p o unfolding line_holds_def n v
    by (auto split: option.splits contents.splits)
qed

lemma object_update:
  assumes lay: "layout L st dest ls ss" and H: "object_holds fn ptr r vs opt ls ss" and i: "i < length ls"
    and m: "changes_only (own_cells (ls ! i) (ss ! i)) (r_mem r) (r_mem r')"
    and one: "line_holds fn ptr' r' vs' opt' (ls ! i) (ss ! i)" and o: "opt' = opt \<or> e_kind (ls ! i) = MESSAGE"
    and v: "\<And>y. y \<noteq> e_member (ls ! i) \<Longrightarrow> vs' y = vs y"
    and p: "\<And>y t. y \<noteq> e_member (ls ! i) \<Longrightarrow> vs y = Some (Str t) \<Longrightarrow> ptr' y = ptr y \<and> r_strings r' (ptr y) = r_strings r (ptr y)"
  shows "object_holds fn ptr' r' vs' opt' ls ss"
  unfolding object_holds_def
proof (intro allI impI)
  fix j assume j: "j < length ls"
  show "line_holds fn ptr' r' vs' opt' (ls ! j) (ss ! j)"
  proof (cases "j = i")
    case False
    have "map e_member ls ! j \<noteq> map e_member ls ! i"
      using lay i j False by (simp only: layout_def nth_eq_iff_index_eq length_map) simp
    then have ne: "e_member (ls ! j) \<noteq> e_member (ls ! i)" using i j by simp
    have keep: "cell_bytes (r_mem r') c = cell_bytes (r_mem r) c" if "c \<in> set (own_cells (ls ! j) (ss ! j))" for c
      using m own_cells_apart [OF lay i j False [symmetric] _ that] unfolding changes_only_def list_all_iff by blast
    have h: "line_holds fn ptr r vs opt (ls ! j) (ss ! j)" using H j unfolding object_holds_def by blast
    have "e_kind (ls ! j) = MESSAGE \<Longrightarrow> opt' = opt"
      using o ne layout_line(3) [OF lay j] layout_line(3) [OF lay i] by (auto simp: line_field_ok_def Let_def split: if_splits)
    note opt = this
    from h layout_line(3) [OF lay j] keep p [OF ne] v [OF ne] opt show ?thesis by (rule line_holds_frame)
  qed (use one in simp)
qed

text \<open>An object that nothing writes to keeps what it holds.\<close>

lemma object_holds_frame:
  assumes lay: "layout L st dest ls ss" and H: "object_holds fn ptr r vs opt ls ss"
    and m: "\<And>c j. j < length ls \<Longrightarrow> c \<in> set (own_cells (ls ! j) (ss ! j)) \<Longrightarrow> cell_bytes (r_mem r') c = cell_bytes (r_mem r) c"
    and p: "\<And>y t. vs y = Some (Str t) \<Longrightarrow> r_strings r' (ptr y) = r_strings r (ptr y)"
  shows "object_holds fn ptr r' vs opt ls ss"
  unfolding object_holds_def
proof (intro allI impI)
  fix j assume j: "j < length ls"
  have "line_holds fn ptr r vs opt (ls ! j) (ss ! j)" using H j unfolding object_holds_def by blast
  then show "line_holds fn ptr r' vs opt (ls ! j) (ss ! j)"
    using layout_line(3) [OF lay j] m [OF j] by (rule line_holds_frame) (use p in simp_all)
qed

section \<open>The setters\<close>

primrec kind_arg :: "pb_kind \<Rightarrow> arg \<Rightarrow> bool" where
  "kind_arg k (Text s) = False"
| "kind_arg k (Int32 w) = (k = INT32 \<or> k = UENUM)"
| "kind_arg k (Uint32 w) = (k = UINT32)"
| "kind_arg k (Uint64 w) = (k = UINT64)"
| "kind_arg k (Bool b) = (k = BOOL)"
| "kind_arg k (Float w) = (k = FLOAT)"

text \<open>The argument has the C++ type of the setter.\<close>

definition setter_typed :: "table_line list \<Rightarrow> setter \<Rightarrow> arg \<Rightarrow> bool" where
  "setter_typed ls s v \<longleftrightarrow>
     (case s of
        SetString x \<Rightarrow> (case v of Text t \<Rightarrow> True | _ \<Rightarrow> False)
      | _ \<Rightarrow> list_ex (\<lambda>l. e_member l = setter_member s \<and> kind_arg (e_kind l) v) ls)"

lemma arg_cell_kind: "kind_arg k v \<Longrightarrow> length (arg_cell v) = kind_size k \<and> arg_contents v = Num (le_value (arg_cell v))"
  by (cases v) (auto simp: kind_size_def)

lemma number_of_put [simp]: "number_of (vs(x \<mapsto> Num v)) x = v"
  by (simp add: number_of_def)

lemma set_string_field_init: "set_string_field fn cbt str m = init_string_field fn cbt str m"
  by (simp add: set_string_field_def init_string_field_def)

lemma member_unique:
  "distinct (map e_member ls) \<Longrightarrow> l \<in> set ls \<Longrightarrow> l' \<in> set ls \<Longrightarrow> e_member l = e_member l' \<Longrightarrow> l = l'"
  by (metis distinct_map inj_onD)

lemma set_member_ok:
  assumes l: "line_ok st dest l s" and f: "line_field_ok l s" and k: "e_alloc l = STATIC" "kind_arg (e_kind l) v"
    and fit: "list_all (\<lambda>c. 0 < fst c \<and> nat (fst c) + snd c \<le> length m) (slot_cells s)"
  obtains m' where "set_member st dest (e_member l) (arg_cell v) m = Some m'" "changes_only [data_cell s] m m'"
    "cell_bytes m' (data_cell s) = Some (arg_cell v)"
proof -
  have len: "length (arg_cell v) = unat (data_size (s_field s))"
    using f k arg_cell_kind [OF k(2)] by (cases v) (auto simp: line_field_ok_def Let_def kind_size_def)
  obtain a t where "member st (e_member l) = Some (a, t)" and a: "s_data s = dest + int a"
    using l by (auto simp: line_ok_def split: option.splits)
  then have off: "offset_of st (e_member l) = Some (int a)" by (simp add: offset_of_def)
  have "0 < s_data s" "nat (s_data s) + length (arg_cell v) \<le> length m"
    using fit len by (auto simp: slot_cells_def)
  then obtain m' where m': "sto m (s_data s) (arg_cell v) = Some m'" using sto_Some by blast
  have "changes_only [data_cell s] m m'" using changes_only_sto [OF m', of "[data_cell s]"] len by simp
  then show thesis using that m' off a sto_ld [OF m'] len by (simp add: set_member_def)
qed

lemma set_flag_ok:
  assumes l: "line_ok st dest l s" and f: "line_field_ok l s" and k: "flagged l" and d: "0 < s_size s" "nat (s_size s) < length m"
  obtains m' where "set_member st dest (''has_'' @ e_member l) [1] m = Some m'" "changes_only [(s_size s, 1)] m m'"
    "cell_bytes m' (s_size s, 1) = Some [1]"
proof -
  obtain a t where "member st (''has_'' @ e_member l) = Some (a, t)" and a: "s_size s = dest + int a"
    using l k by (auto simp: line_ok_def flagged_def split: option.splits)
  then have off: "offset_of st (''has_'' @ e_member l) = Some (int a)" by (simp add: offset_of_def)
  obtain m' where m': "sto m (s_size s) [1] = Some m'" using sto_Some [OF d(1), of "[1]" m] d(2) by auto
  have "changes_only [(s_size s, 1)] m m'" using changes_only_sto [OF m', of "[(s_size s, 1)]"] by simp
  then show thesis using that m' off a sto_ld [OF m'] by (simp add: set_member_def)
qed

lemma run_string_setter:
  assumes lay: "layout (length (r_mem r)) st dest ls ss" and H: "object_holds fn ptr r vs opt ls ss"
    and i: "i < length ls" "e_member (ls ! i) = x" "e_alloc (ls ! i) = CALLBACK"
    and cell: "0 < cell x" "cell x < 2 ^ 32" and own: "\<And>y t. y \<noteq> x \<Longrightarrow> vs y = Some (Str t) \<Longrightarrow> ptr y \<noteq> cell x"
  obtains r' where "run_setter st fn cell dest (SetString x) (Text t) r = Some r'"
    "object_holds fn (ptr(x := cell x)) r' (vs(x \<mapsto> Str t)) opt ls ss"
    "changes_only (own_cells (ls ! i) (ss ! i)) (r_mem r) (r_mem r')"
    "r_options r' = r_options r" "r_strings r' = (r_strings r)(cell x \<mapsto> t)"
proof -
  let ?l = "ls ! i" and ?s = "ss ! i"
  note line = layout_line [OF lay i(1)]
  have k: "e_kind ?l \<noteq> MESSAGE" "\<not> flagged ?l" and size: "unat (data_size (s_field ?s)) = 8"
    using line(3) i(3) by (auto simp: line_field_ok_def Let_def flagged_def split: if_splits)
  obtain a u where "member st x = Some (a, u)" and a: "s_data ?s = dest + int a"
    using line(2) i(2) by (auto simp: line_ok_def split: option.splits)
  then have off: "offset_of st x = Some (int a)" by (simp add: offset_of_def)
  obtain m' where m': "init_string_field fn (s_data ?s) (cell x) (r_mem r) = Some m'" "changes_only [(s_data ?s, 8)] (r_mem r) m'"
    "cell_bytes m' (s_data ?s, 8) = Some (callback_bytes fn (cell x))"
    by (rule init_string_field_ok [of "s_data ?s" "r_mem r" fn "cell x"]) (use line(4) size in \<open>auto simp: slot_cells_def\<close>)
  define r' where "r' = r\<lparr>r_mem := m', r_strings := (r_strings r)(cell x \<mapsto> t)\<rparr>"
  have run: "run_setter st fn cell dest (SetString x) (Text t) r = Some r'"
    using m'(1) off a by (simp add: r'_def set_string_field_init)
  have ch: "changes_only (own_cells ?l ?s) (r_mem r) (r_mem r')" using m'(2) size k by (simp add: r'_def own_cells_def)
  have one: "line_holds fn (ptr(x := cell x)) r' (vs(x \<mapsto> Str t)) opt ?l ?s"
    using i(2,3) m'(3) size cell by (simp add: line_holds_def r'_def)
  have "object_holds fn (ptr(x := cell x)) r' (vs(x \<mapsto> Str t)) opt ls ss"
  proof (rule object_update [OF lay H i(1) ch one disjI1 [OF refl]])
    fix y s assume "y \<noteq> e_member ?l" "vs y = Some (Str s)"
    then show "(ptr(x := cell x)) y = ptr y \<and> r_strings r' (ptr y) = r_strings r (ptr y)"
      using own [of y s] i(2) by (simp add: r'_def)
  qed (use i(2) in simp)
  then show thesis using that run ch by (simp add: r'_def)
qed

lemma run_number_setter:
  assumes lay: "layout (length (r_mem r)) st dest ls ss" and H: "object_holds fn ptr r vs opt ls ss"
    and i: "i < length ls" "e_member (ls ! i) = x" "e_alloc (ls ! i) = STATIC" and v: "kind_arg (e_kind (ls ! i)) v"
    and s: "s = (if flagged (ls ! i) then SetOptional x else SetNumber x)"
  obtains r' where "run_setter st fn cell dest s v r = Some r'"
    "object_holds fn ptr r' (vs(x \<mapsto> arg_contents v)) opt ls ss"
    "changes_only (own_cells (ls ! i) (ss ! i)) (r_mem r) (r_mem r')"
    "r_options r' = r_options r" "r_strings r' = r_strings r"
proof -
  let ?l = "ls ! i" and ?s = "ss ! i"
  note line = layout_line [OF lay i(1)]
  have km: "e_kind ?l \<noteq> MESSAGE" using v by (cases v) auto
  have ap: "apart (data_cell ?s) (s_size ?s, 1)" if "flagged ?l"
    using slot_cells_apart [of ss i] lay i(1) line(1) flagged_slot [OF line(3)] that by (simp add: layout_def)
  obtain m1 where m1: "flagged ?l \<Longrightarrow> set_member st dest (''has_'' @ x) [1] (r_mem r) = Some m1" "\<not> flagged ?l \<Longrightarrow> m1 = r_mem r"
    "changes_only (own_cells ?l ?s) (r_mem r) m1" "flagged ?l \<Longrightarrow> cell_bytes m1 (s_size ?s, 1) = Some [1]"
  proof (cases "flagged ?l")
    case True
    have d: "0 < s_size ?s" "nat (s_size ?s) < length (r_mem r)"
      using line(4) flagged_slot [OF line(3)] True by (auto simp: slot_cells_def)
    obtain m' where m': "set_member st dest (''has_'' @ x) [1] (r_mem r) = Some m'" "changes_only [(s_size ?s, 1)] (r_mem r) m'"
      "cell_bytes m' (s_size ?s, 1) = Some [1]"
      using i(2) by (rule_tac set_flag_ok [OF line(2,3) True d]) auto
    have "changes_only (own_cells ?l ?s) (r_mem r) m'"
      using m'(2) True by (auto simp: changes_only_def own_cells_def)
    then show ?thesis using that [of m'] m' True by blast
  qed (use that changes_only_refl in auto)
  then have len: "length m1 = length (r_mem r)" by (simp add: changes_only_def)
  obtain m2 where m2: "set_member st dest x (arg_cell v) m1 = Some m2" "changes_only [data_cell ?s] m1 m2"
    "cell_bytes m2 (data_cell ?s) = Some (arg_cell v)"
    using i(2) line(4) len by (rule_tac set_member_ok [OF line(2,3) i(3) v, of m1]) auto
  define r' where "r' = r\<lparr>r_mem := m2\<rparr>"
  have run: "run_setter st fn cell dest s v r = Some r'"
    using m1(1,2) m2(1) s by (cases "flagged ?l") (simp_all add: r'_def)
  have ch: "changes_only (own_cells ?l ?s) (r_mem r) (r_mem r')"
    using m1(3) m2(2) km by (auto simp: r'_def changes_only_def own_cells_def)
  have flag: "flagged ?l \<Longrightarrow> cell_bytes m2 (s_size ?s, 1) = Some [1]"
    using m1(4) m2(2) ap by (auto simp: changes_only_def)
  have n: "length (arg_cell v) = kind_size (e_kind ?l)" "arg_contents v = Num (le_value (arg_cell v))"
    using arg_cell_kind [OF v] by simp_all
  then have "cell_bytes m2 (data_cell ?s) = Some (le_bytes (kind_size (e_kind ?l)) (le_value (arg_cell v)))"
    using m2(3) le_bytes_value [of "arg_cell v"] by simp
  then have one: "line_holds fn ptr r' (vs(x \<mapsto> arg_contents v)) opt ?l ?s"
    using i(2,3) km flag n le_value_less [of "arg_cell v"] by (simp add: line_holds_def r'_def)
  have "object_holds fn ptr r' (vs(x \<mapsto> arg_contents v)) opt ls ss"
    by (rule object_update [OF lay H i(1) ch one disjI1 [OF refl]]) (use i(2) in \<open>simp_all add: r'_def\<close>)
  then show thesis using that run ch by (simp add: r'_def)
qed

end
