(* ===== verification/EncoderSpec.thy ===== *)
theory EncoderSpec
  imports EncoderObjects
begin

text \<open>
  The request objects under any sequence of calls, the options of a speech request included, and what
  \<open>SerializeToString\<close> returns then: the encoding of the values last set.
\<close>

section \<open>A call of a setter\<close>

definition call_typed :: "request_class \<Rightarrow> string \<Rightarrow> arg \<Rightarrow> bool" where
  "call_typed cls name v \<longleftrightarrow>
     (case map_of (q_setters cls) name of None \<Rightarrow> False | Some s \<Rightarrow> setter_typed (q_lines cls) s v)"

abbreviation class_slots :: "request_class \<Rightarrow> addr \<Rightarrow> slot list" where
  "class_slots cls dest \<equiv> slots (butlast (q_fields cls)) dest"

lemma class_strings_iff: "x \<in> set (class_strings cls) \<longleftrightarrow> (\<exists>n. (n, SetString x) \<in> set (q_setters cls))"
  by (force simp: class_strings_def map_filter_def split: setter.splits)

lemma call_setter_ok:
  assumes cls: "cls \<in> set request_classes" and dest: "0 < dest" "nat dest + size_of (q_struct cls) \<le> length (r_mem r)"
    and H: "object_holds fn ptr r vs opt (q_lines cls) (class_slots cls dest)" and t: "call_typed cls name v"
    and cell: "\<And>x. x \<in> set (class_strings cls) \<Longrightarrow> 0 < cell x \<and> cell x < 2 ^ 32"
    and own: "\<And>x y t. x \<in> set (class_strings cls) \<Longrightarrow> y \<noteq> x \<Longrightarrow> vs y = Some (Str t) \<Longrightarrow> ptr y \<noteq> cell x"
  obtains r' ptr' i where "call_setter cls fn cell dest name v r = Some r'"
    "object_holds fn ptr' r' (put_contents cls name v vs) opt (q_lines cls) (class_slots cls dest)"
    "i < length (q_lines cls)" "changes_only (own_cells (q_lines cls ! i) (class_slots cls dest ! i)) (r_mem r) (r_mem r')"
    "r_options r' = r_options r" "\<And>a. a \<notin> cell ` set (class_strings cls) \<Longrightarrow> r_strings r' a = r_strings r a"
    "\<And>y. ptr' y = ptr y \<or> ptr' y = cell y \<and> y \<in> set (class_strings cls)"
    "\<And>y t. put_contents cls name v vs y = Some (Str t) \<Longrightarrow> vs y = Some (Str t) \<and> ptr' y = ptr y \<or> ptr' y = cell y \<and> y \<in> set (class_strings cls)"
proof -
  note lay = class_layout [OF cls dest]
  obtain s where s: "map_of (q_setters cls) name = Some s" "setter_typed (q_lines cls) s v"
    using t by (auto simp: call_typed_def split: option.splits)
  have mem: "(name, s) \<in> set (q_setters cls)" using s(1) by (rule map_of_SomeD)
  then have ok: "setter_ok (q_lines cls) s" using lay(3) by (force simp: list_all_iff)
  have D: "distinct (map e_member (q_lines cls))" using lay(1) by (simp add: layout_def)
  have put: "put_contents cls name v vs = vs(setter_member s \<mapsto> arg_contents v)" by (simp add: put_contents_def s(1))
  obtain i where i: "i < length (q_lines cls)" "e_member (q_lines cls ! i) = setter_member s"
    "case s of SetString x \<Rightarrow> e_alloc (q_lines cls ! i) = CALLBACK
      | SetNumber x \<Rightarrow> e_alloc (q_lines cls ! i) = STATIC \<and> e_kind (q_lines cls ! i) \<noteq> MESSAGE \<and> e_rule (q_lines cls ! i) = REQUIRED
      | SetOptional x \<Rightarrow> e_alloc (q_lines cls ! i) = STATIC \<and> e_kind (q_lines cls ! i) \<noteq> MESSAGE \<and> e_rule (q_lines cls ! i) = OPTIONAL"
    using ok unfolding setter_ok_def list_ex_length by blast
  show thesis
  proof (cases "\<exists>x. s = SetString x")
    case True
    then obtain x where x: "s = SetString x" by blast
    then obtain u where u: "v = Text u" using s(2) by (auto simp: setter_typed_def split: arg.splits)
    have xs: "x \<in> set (class_strings cls)" using mem x by (auto simp: class_strings_iff)
    obtain r' where r': "run_setter (q_struct cls) fn cell dest (SetString x) (Text u) r = Some r'"
      "object_holds fn (ptr(x := cell x)) r' (vs(x \<mapsto> Str u)) opt (q_lines cls) (class_slots cls dest)"
      "changes_only (own_cells (q_lines cls ! i) (class_slots cls dest ! i)) (r_mem r) (r_mem r')"
      "r_options r' = r_options r" "r_strings r' = (r_strings r)(cell x \<mapsto> u)"
      by (rule run_string_setter [OF lay(1) H i(1), of x cell]) (use i(2,3) x cell [OF xs] own [OF xs] in auto)
    show thesis
    proof (rule that)
      show "call_setter cls fn cell dest name v r = Some r'" using r'(1) s(1) x u by (simp add: call_setter_def)
      show "object_holds fn (ptr(x := cell x)) r' (put_contents cls name v vs) opt (q_lines cls) (class_slots cls dest)"
        using r'(2) put x u by simp
      show "\<And>a. a \<notin> cell ` set (class_strings cls) \<Longrightarrow> r_strings r' a = r_strings r a" using r'(5) xs by auto
    qed (use i(1) r'(3,4) xs put x in auto)
  next
    case False
    have "list_ex (\<lambda>l. e_member l = setter_member s \<and> kind_arg (e_kind l) v) (q_lines cls)"
      using s(2) False by (cases s) (auto simp: setter_typed_def)
    then obtain l where l: "l \<in> set (q_lines cls)" "e_member l = setter_member s" "kind_arg (e_kind l) v"
      by (auto simp: list_ex_iff)
    have kind: "kind_arg (e_kind (q_lines cls ! i)) v"
      using member_unique [OF D l(1) nth_mem [OF i(1)]] l(2,3) i(2) by simp
    have st: "e_alloc (q_lines cls ! i) = STATIC" using i(3) False by (cases s) auto
    have fl: "s = (if flagged (q_lines cls ! i) then SetOptional (setter_member s) else SetNumber (setter_member s))"
      using i(3) False by (cases s) (auto simp: flagged_def)
    obtain r' where r': "run_setter (q_struct cls) fn cell dest s v r = Some r'"
      "object_holds fn ptr r' (vs(setter_member s \<mapsto> arg_contents v)) opt (q_lines cls) (class_slots cls dest)"
      "changes_only (own_cells (q_lines cls ! i) (class_slots cls dest ! i)) (r_mem r) (r_mem r')"
      "r_options r' = r_options r" "r_strings r' = r_strings r"
      by (rule run_number_setter [OF lay(1) H i(1,2) st kind fl]) blast
    have num: "arg_contents v = Num (le_value (arg_cell v))" using arg_cell_kind [OF kind] by simp
    show thesis
    proof (rule that)
      show "call_setter cls fn cell dest name v r = Some r'" using r'(1) s(1) by (simp add: call_setter_def)
      show "object_holds fn ptr r' (put_contents cls name v vs) opt (q_lines cls) (class_slots cls dest)"
        using r'(2) put by simp
      show "\<And>y t. put_contents cls name v vs y = Some (Str t) \<Longrightarrow> vs y = Some (Str t) \<and> ptr y = ptr y \<or> ptr y = cell y \<and> y \<in> set (class_strings cls)"
        using put num by (auto split: if_splits)
    qed (use i(1) r'(3-5) in auto)
  qed
qed

section \<open>The options inside a request\<close>

lemma slot_cells_inside:
  assumes cls: "cls \<in> set request_classes" and j: "j < length (q_lines cls)"
    and c: "c \<in> set (slot_cells (class_slots cls dest ! j))"
  shows "dest \<le> fst c \<and> fst c + int (snd c) \<le> dest + int (size_of (q_struct cls))"
proof -
  define k where "k = dest - 1"
  have k: "dest = 1 + k" by (simp add: k_def)
  have lay: "layout (Suc (size_of (q_struct cls))) (q_struct cls) 1 (q_lines cls) (class_slots cls 1)"
    using class_layout(1) [OF cls, of 1 "Suc (size_of (q_struct cls))"] by simp
  note line = layout_line [OF lay j]
  have "class_slots cls dest ! j = shift_slot k (class_slots cls 1 ! j)" using line(1) j by (simp only: k slots_shift nth_map)
  then obtain c1 where c1: "c1 \<in> set (slot_cells (class_slots cls 1 ! j))" "c = (fst c1 + k, snd c1)"
    using c by (auto simp: slot_cells_shift)
  then have "0 < fst c1 \<and> nat (fst c1) + snd c1 \<le> Suc (size_of (q_struct cls))" using line(4) by (simp add: list_all_iff)
  then show ?thesis using c1(2) k by auto
qed

lemma own_cells_inside:
  assumes "cls \<in> set request_classes" "0 < dest" "j < length (q_lines cls)"
    "c \<in> set (own_cells (q_lines cls ! j) (class_slots cls dest ! j))"
  shows "dest \<le> fst c \<and> fst c + int (snd c) \<le> dest + int (size_of (q_struct cls))"
proof (rule slot_cells_inside [OF assms(1,3)])
  have "layout (nat dest + size_of (q_struct cls)) (q_struct cls) dest (q_lines cls) (class_slots cls dest)"
    using class_layout(1) [OF assms(1,2)] by simp
  from own_cells_slot [OF layout_line(3) [OF this assms(3)]] show "c \<in> set (slot_cells (class_slots cls dest ! j))"
    using assms(4) by blast
qed

lemma apart_inside: "apart c (a, n) \<Longrightarrow> a \<le> fst d \<Longrightarrow> fst d + int (snd d) \<le> a + int n \<Longrightarrow> apart c d"
  by (auto simp: apart_def)

lemma options_line:
  assumes cls: "cls \<in> set request_classes" and dest: "0 < dest" "nat dest + size_of (q_struct cls) \<le> L"
    and o: "offset_of (q_struct cls) ''options'' = Some a"
  obtains k where "k < length (q_lines cls)" "e_kind (q_lines cls ! k) = MESSAGE" "e_member (q_lines cls ! k) = ''options''"
    "data_cell (class_slots cls dest ! k) = (dest + a, size_of SpeechOptions)"
    "0 < dest + a" "nat (dest + a) + size_of SpeechOptions \<le> L" "flagged (q_lines cls ! k)"
proof -
  note lay = class_layout(1) [OF cls dest]
  obtain n u where m: "member (q_struct cls) ''options'' = Some (n, u)" "a = int n" using o by (auto simp: offset_of_def)
  have "encoder_ok cls" using request_classes_ok cls by (simp add: list_all_iff)
  then have u: "u = SpeechOptions" "list_ex (\<lambda>l. e_kind l = MESSAGE) (q_lines cls)" using m by (simp_all add: encoder_ok_def Let_def)
  then obtain k where k: "k < length (q_lines cls)" "e_kind (q_lines cls ! k) = MESSAGE" by (auto simp: list_ex_length)
  note line = layout_line [OF lay k(1)]
  have f: "e_member (q_lines cls ! k) = ''options''" "flagged (q_lines cls ! k)"
    using line(3) k(2) by (auto simp: line_field_ok_def Let_def flagged_def split: if_splits)
  have d: "data_cell (class_slots cls dest ! k) = (dest + a, size_of SpeechOptions)"
    using line(2) f m u(1) by (simp add: line_ok_def)
  then have "0 < dest + a" "nat (dest + a) + size_of SpeechOptions \<le> L" using line(4) by (auto simp: slot_cells_def)
  then show thesis using that k f d by blast
qed

lemma options_apart:
  assumes cls: "cls \<in> set request_classes" and dest: "0 < dest" "nat dest + size_of (q_struct cls) \<le> L"
    and o: "offset_of (q_struct cls) ''options'' = Some a" and i: "i < length (q_lines cls)" and j: "j < length SpeechOptions_lines"
    and c: "c \<in> set (own_cells (q_lines cls ! i) (class_slots cls dest ! i))"
    and d: "d \<in> set (own_cells (SpeechOptions_lines ! j) (class_slots SpeechOptionsEnc_class (dest + a) ! j))"
  shows "apart c d"
proof -
  note lay = class_layout(1) [OF cls dest]
  obtain k where k: "k < length (q_lines cls)" "e_kind (q_lines cls ! k) = MESSAGE"
    "data_cell (class_slots cls dest ! k) = (dest + a, size_of SpeechOptions)" "0 < dest + a" "flagged (q_lines cls ! k)"
    by (rule options_line [OF cls dest o]) blast
  note line = layout_line [OF lay k(1)] and linei = layout_line [OF lay i]
  have sa: "slots_apart (class_slots cls dest)" using lay by (simp add: layout_def)
  have dk: "data_cell (class_slots cls dest ! k) \<in> set (slot_cells (class_slots cls dest ! k))" by (simp add: slot_cells_def)
  have "apart c (data_cell (class_slots cls dest ! k))"
  proof (cases "i = k")
    case True
    then have "c = (s_size (class_slots cls dest ! k), 1)" using c k(2,5) by (simp add: own_cells_def)
    then show ?thesis using slot_cells_apart [OF sa, of k] k(1,5) line(1) flagged_slot [OF line(3)] by (simp add: apart_sym)
  next
    case False
    have "c \<in> set (slot_cells (class_slots cls dest ! i))" using own_cells_slot [OF linei(3)] c by blast
    then show ?thesis using slots_apart_cells [OF sa _ _ False _ dk] i k(1) line(1) by simp
  qed
  moreover have "SpeechOptionsEnc_class \<in> set request_classes" by (simp add: request_classes_def)
  then have "dest + a \<le> fst d \<and> fst d + int (snd d) \<le> dest + a + int (size_of SpeechOptions)"
    using own_cells_inside [of SpeechOptionsEnc_class "dest + a" j d] k(4) j d by (simp add: SpeechOptionsEnc_class_def)
  ultimately show ?thesis using k(3) by (auto intro: apart_inside)
qed

section \<open>Any sequence of calls\<close>

definition cells_ok :: "request_class \<Rightarrow> (string \<Rightarrow> addr) \<Rightarrow> bool" where
  "cells_ok cls cell \<longleftrightarrow> distinct (map cell (class_strings cls)) \<and> list_all (\<lambda>x. 0 < cell x \<and> cell x < 2 ^ 32) (class_strings cls)"

text \<open>
  The calls the compiler accepts, with options setters only after \<open>mutable_options\<close>, and an allocator
  that gives out no address of \<open>U\<close>, those of the strings that exist.
\<close>

fun calls_ok :: "request_class \<Rightarrow> addr list \<Rightarrow> bool \<Rightarrow> call list \<Rightarrow> bool" where
  "calls_ok cls U b [] \<longleftrightarrow> True"
| "calls_ok cls U b (Set name v # cs) \<longleftrightarrow> call_typed cls name v \<and> calls_ok cls U b cs"
| "calls_ok cls U b (Options al # cs) \<longleftrightarrow> cls = SpeechRequest_class \<and> cells_ok SpeechOptionsEnc_class al \<and>
     list_all (\<lambda>x. al x \<notin> set U) (class_strings SpeechOptionsEnc_class) \<and>
     calls_ok cls (map al (class_strings SpeechOptionsEnc_class) @ U) True cs"
| "calls_ok cls U b (SetOption name v # cs) \<longleftrightarrow> b \<and> call_typed SpeechOptionsEnc_class name v \<and> calls_ok cls U b cs"

definition options_of :: "request_values \<Rightarrow> contents_of" where
  "options_of vs = (case v_options vs of None \<Rightarrow> Map.empty | Some os \<Rightarrow> os)"

definition options_hold :: "request_class \<Rightarrow> addr \<Rightarrow> (string \<Rightarrow> addr) \<Rightarrow> addr \<Rightarrow> addr set \<Rightarrow> request \<Rightarrow> request_values \<Rightarrow> addr \<Rightarrow> (string \<Rightarrow> addr) \<Rightarrow> bool" where
  "options_hold cls fn cell dest U r vs a ptr \<longleftrightarrow>
     object_holds fn ptr r (options_of vs) False SpeechOptions_lines (class_slots SpeechOptionsEnc_class (dest + a)) \<and>
     (\<forall>y t. options_of vs y = Some (Str t) \<longrightarrow> ptr y \<in> U \<and> ptr y \<notin> cell ` set (class_strings cls)) \<and>
     (\<forall>al. r_options r = Some al \<longrightarrow> cells_ok SpeechOptionsEnc_class al \<and>
        (\<forall>x \<in> set (class_strings SpeechOptionsEnc_class). al x \<in> U \<and> al x \<notin> cell ` set (class_strings cls) \<and>
          (\<forall>y t. y \<noteq> x \<longrightarrow> options_of vs y = Some (Str t) \<longrightarrow> ptr y \<noteq> al x)))"

definition request_ok :: "request_class \<Rightarrow> addr \<Rightarrow> (string \<Rightarrow> addr) \<Rightarrow> addr \<Rightarrow> addr set \<Rightarrow> request \<Rightarrow> request_values \<Rightarrow> bool" where
  "request_ok cls fn cell dest U r vs \<longleftrightarrow>
     nat dest + size_of (q_struct cls) \<le> length (r_mem r) \<and> cell ` set (class_strings cls) \<subseteq> U \<and>
     object_holds fn cell r (v_own vs) (v_options vs \<noteq> None) (q_lines cls) (class_slots cls dest) \<and>
     (\<forall>y t. v_own vs y = Some (Str t) \<longrightarrow> y \<in> set (class_strings cls)) \<and>
     (r_options r = None \<longleftrightarrow> v_options vs = None) \<and>
     (\<forall>a. offset_of (q_struct cls) ''options'' = Some a \<longrightarrow> (\<exists>ptr. options_hold cls fn cell dest U r vs a ptr))"

lemma cells_ok_D:
  assumes "cells_ok cls cell"
  shows "x \<in> set (class_strings cls) \<Longrightarrow> 0 < cell x \<and> cell x < 2 ^ 32"
    "x \<in> set (class_strings cls) \<Longrightarrow> y \<in> set (class_strings cls) \<Longrightarrow> y \<noteq> x \<Longrightarrow> cell y \<noteq> cell x"
  using assms by (auto simp: cells_ok_def list_all_iff distinct_map dest: inj_onD)

lemma changes_length: "changes_only cs m m' \<Longrightarrow> length m' = length m"
  by (simp add: changes_only_def)

lemma changes_keep: "changes_only cs m m' \<Longrightarrow> (\<And>d. d \<in> set cs \<Longrightarrow> apart d c) \<Longrightarrow> cell_bytes m' c = cell_bytes m c"
  unfolding changes_only_def list_all_iff by blast

lemma options_class [simp]:
  "SpeechOptionsEnc_class \<in> set request_classes" "q_lines SpeechOptionsEnc_class = SpeechOptions_lines"
  "q_struct SpeechOptionsEnc_class = SpeechOptions"
  by (simp_all add: request_classes_def SpeechOptionsEnc_class_def)

lemma set_step:
  assumes cls: "cls \<in> set request_classes" and dest: "0 < dest" and cell: "cells_ok cls cell"
    and R: "request_ok cls fn cell dest U r vs" and t: "call_typed cls name v"
  shows "\<exists>r'. call_setter cls fn cell dest name v r = Some r' \<and> r_options r' = r_options r \<and> length (r_mem r') = length (r_mem r) \<and>
    request_ok cls fn cell dest U r' (put_call cls (Set name v) vs)"
proof -
  have fit: "nat dest + size_of (q_struct cls) \<le> length (r_mem r)"
    and H: "object_holds fn cell r (v_own vs) (v_options vs \<noteq> None) (q_lines cls) (class_slots cls dest)"
    and S: "\<And>y t. v_own vs y = Some (Str t) \<Longrightarrow> y \<in> set (class_strings cls)"
    and O: "\<And>a. offset_of (q_struct cls) ''options'' = Some a \<Longrightarrow> \<exists>ptr. options_hold cls fn cell dest U r vs a ptr"
    using R by (auto simp: request_ok_def)
  obtain r' ptr' i where r': "call_setter cls fn cell dest name v r = Some r'"
    "object_holds fn ptr' r' (put_contents cls name v (v_own vs)) (v_options vs \<noteq> None) (q_lines cls) (class_slots cls dest)"
    "i < length (q_lines cls)" "changes_only (own_cells (q_lines cls ! i) (class_slots cls dest ! i)) (r_mem r) (r_mem r')"
    "r_options r' = r_options r" "\<And>a. a \<notin> cell ` set (class_strings cls) \<Longrightarrow> r_strings r' a = r_strings r a"
    "\<And>y. ptr' y = cell y \<or> ptr' y = cell y \<and> y \<in> set (class_strings cls)"
    "\<And>y t. put_contents cls name v (v_own vs) y = Some (Str t) \<Longrightarrow> v_own vs y = Some (Str t) \<and> ptr' y = cell y \<or> ptr' y = cell y \<and> y \<in> set (class_strings cls)"
    by (rule call_setter_ok [OF cls dest fit H t, of cell]) (use cells_ok_D [OF cell] S in blast)+
  have ptr: "ptr' = cell" using r'(7) by auto
  have len: "length (r_mem r') = length (r_mem r)" using changes_length [OF r'(4)] .
  have "\<exists>ptr. options_hold cls fn cell dest U r' (put_call cls (Set name v) vs) a ptr"
    if o: "offset_of (q_struct cls) ''options'' = Some a" for a
  proof -
    obtain ptr where P: "options_hold cls fn cell dest U r vs a ptr" using O [OF o] by blast
    obtain k where k: "0 < dest + a" "nat (dest + a) + size_of SpeechOptions \<le> length (r_mem r)"
      by (rule options_line [OF cls dest fit o]) blast
    have lay: "layout (length (r_mem r)) SpeechOptions (dest + a) SpeechOptions_lines (class_slots SpeechOptionsEnc_class (dest + a))"
      using class_layout(1) [of SpeechOptionsEnc_class "dest + a" "length (r_mem r)"] k by simp
    have "object_holds fn ptr r' (options_of vs) False SpeechOptions_lines (class_slots SpeechOptionsEnc_class (dest + a))"
    proof (rule object_holds_frame [OF lay])
      show "object_holds fn ptr r (options_of vs) False SpeechOptions_lines (class_slots SpeechOptionsEnc_class (dest + a))"
        using P by (simp add: options_hold_def)
      fix c j assume "j < length SpeechOptions_lines" "c \<in> set (own_cells (SpeechOptions_lines ! j) (class_slots SpeechOptionsEnc_class (dest + a) ! j))"
      then show "cell_bytes (r_mem r') c = cell_bytes (r_mem r) c"
        using changes_keep [OF r'(4)] options_apart [OF cls dest fit o r'(3)] by blast
    next
      fix y t assume "options_of vs y = Some (Str t)"
      then have "ptr y \<notin> cell ` set (class_strings cls)" using P by (auto simp: options_hold_def)
      then show "r_strings r' (ptr y) = r_strings r (ptr y)" by (rule r'(6))
    qed
    then show ?thesis using P by (auto simp: options_hold_def options_of_def r'(5))
  qed
  moreover have "\<And>y t. put_contents cls name v (v_own vs) y = Some (Str t) \<Longrightarrow> y \<in> set (class_strings cls)"
    using r'(8) S by blast
  ultimately have "request_ok cls fn cell dest U r' (put_call cls (Set name v) vs)"
    using R r'(2) len unfolding request_ok_def ptr by (simp add: r'(5))
  then show ?thesis using r'(1,5) len by blast
qed

lemma empty_strings_at:
  "empty_strings cls al w a = (if a \<in> al ` set (class_strings cls) then Some [] else w a)"
proof -
  have "fold (\<lambda>x w. w(al x \<mapsto> [])) xs w a = (if a \<in> al ` set xs then Some [] else w a)" for xs and w :: "addr \<Rightarrow> byte list option"
    by (induction xs arbitrary: w) auto
  then show ?thesis by (simp add: empty_strings_def)
qed

lemma options_step:
  assumes cls: "cls \<in> set request_classes" and dest: "0 < dest" and o: "offset_of (q_struct cls) ''options'' = Some a"
    and R: "request_ok cls fn cell dest U r vs" and al: "cells_ok SpeechOptionsEnc_class al"
    and fresh: "\<And>x. x \<in> set (class_strings SpeechOptionsEnc_class) \<Longrightarrow> al x \<notin> U"
  shows "\<exists>r'. mutable_options cls dest al r = Some r' \<and> r_options r' = Some al \<and> length (r_mem r') = length (r_mem r) \<and>
    request_ok cls fn cell dest (al ` set (class_strings SpeechOptionsEnc_class) \<union> U) r' (put_call cls (Options al) vs)"
proof -
  let ?new = "al ` set (class_strings SpeechOptionsEnc_class)"
  let ?ls = "q_lines cls" and ?ss = "class_slots cls dest"
  have fit: "nat dest + size_of (q_struct cls) \<le> length (r_mem r)" and U: "cell ` set (class_strings cls) \<subseteq> U"
    and H: "object_holds fn cell r (v_own vs) (v_options vs \<noteq> None) ?ls ?ss"
    and S: "\<And>y t. v_own vs y = Some (Str t) \<Longrightarrow> y \<in> set (class_strings cls)"
    using R by (auto simp: request_ok_def)
  obtain ptr where P: "options_hold cls fn cell dest U r vs a ptr" using R o by (auto simp: request_ok_def)
  obtain k where k: "k < length ?ls" "e_kind (?ls ! k) = MESSAGE" "e_member (?ls ! k) = ''options''"
    "0 < dest + a" "nat (dest + a) + size_of SpeechOptions \<le> length (r_mem r)" "flagged (?ls ! k)"
    by (rule options_line [OF cls dest fit o]) blast
  note lay = class_layout(1) [OF cls dest fit]
  note line = layout_line [OF lay k(1)]
  have d: "0 < s_size (?ss ! k)" "nat (s_size (?ss ! k)) < length (r_mem r)"
    using line(4) flagged_slot [OF line(3)] k(6) by (auto simp: slot_cells_def)
  obtain m where m: "set_member (q_struct cls) dest ''has_options'' [1] (r_mem r) = Some m" "changes_only [(s_size (?ss ! k), 1)] (r_mem r) m"
    "cell_bytes m (s_size (?ss ! k), 1) = Some [1]"
    using set_flag_ok [OF line(2,3) k(6) d] k(3) by auto
  define r' where "r' = r\<lparr>r_mem := m, r_strings := empty_strings SpeechOptionsEnc_class al (r_strings r), r_options := Some al\<rparr>"
  have run: "mutable_options cls dest al r = Some r'" using m(1) by (simp add: mutable_options_def r'_def)
  have oc: "own_cells (?ls ! k) (?ss ! k) = [(s_size (?ss ! k), 1)]" using k(2,6) by (simp add: own_cells_def)
  then have ch: "changes_only (own_cells (?ls ! k) (?ss ! k)) (r_mem r) (r_mem r')" using m(2) by (simp add: r'_def)
  have old: "r_strings r' p = r_strings r p" if "p \<in> U" for p
    using fresh that by (auto simp: r'_def empty_strings_at)
  have static: "e_alloc (?ls ! k) = STATIC" using k(6) by (simp add: flagged_def)
  have outer: "object_holds fn cell r' (v_own vs) True ?ls ?ss"
  proof (rule object_update [OF lay H k(1) ch])
    show "line_holds fn cell r' (v_own vs) True (?ls ! k) (?ss ! k)"
      using k(2) m(3) static by (simp add: line_holds_def r'_def)
    fix y t assume "v_own vs y = Some (Str t)"
    then have "cell y \<in> U" using S U by blast
    then show "cell y = cell y \<and> r_strings r' (cell y) = r_strings r (cell y)" using old by blast
  qed (use k(2) in simp_all)
  have lay2: "layout (length (r_mem r)) SpeechOptions (dest + a) SpeechOptions_lines (class_slots SpeechOptionsEnc_class (dest + a))"
    using class_layout(1) [of SpeechOptionsEnc_class "dest + a" "length (r_mem r)"] k(4,5) by simp
  have inner: "object_holds fn ptr r' (options_of vs) False SpeechOptions_lines (class_slots SpeechOptionsEnc_class (dest + a))"
  proof (rule object_holds_frame [OF lay2])
    show "object_holds fn ptr r (options_of vs) False SpeechOptions_lines (class_slots SpeechOptionsEnc_class (dest + a))"
      using P by (simp add: options_hold_def)
    fix c j assume "j < length SpeechOptions_lines" "c \<in> set (own_cells (SpeechOptions_lines ! j) (class_slots SpeechOptionsEnc_class (dest + a) ! j))"
    then show "cell_bytes (r_mem r') c = cell_bytes (r_mem r) c"
      using changes_keep [OF ch] options_apart [OF cls dest fit o k(1)] by blast
  next
    fix y t assume "options_of vs y = Some (Str t)"
    then have "ptr y \<in> U" using P by (auto simp: options_hold_def)
    then show "r_strings r' (ptr y) = r_strings r (ptr y)" by (rule old)
  qed
  have same: "options_of (put_call cls (Options al) vs) = options_of vs" by (simp add: options_of_def split: option.splits)
  have "options_hold cls fn cell dest (?new \<union> U) r' (put_call cls (Options al) vs) a ptr"
    unfolding options_hold_def same using inner P al fresh U by (auto simp: options_hold_def r'_def)
  then have "request_ok cls fn cell dest (?new \<union> U) r' (put_call cls (Options al) vs)"
    using outer fit U S o changes_length [OF ch] unfolding request_ok_def by (auto simp: r'_def)
  then show ?thesis using run changes_length [OF ch] by (auto simp: r'_def)
qed

lemma set_option_step:
  assumes cls: "cls \<in> set request_classes" and dest: "0 < dest" and o: "offset_of (q_struct cls) ''options'' = Some a"
    and R: "request_ok cls fn cell dest U r vs" and b: "r_options r = Some al" and t: "call_typed SpeechOptionsEnc_class name v"
  shows "\<exists>r'. call_options cls fn dest name v r = Some r' \<and> r_options r' = r_options r \<and> length (r_mem r') = length (r_mem r) \<and>
    request_ok cls fn cell dest U r' (put_call cls (SetOption name v) vs)"
proof -
  let ?enc = SpeechOptionsEnc_class and ?vs = "put_call cls (SetOption name v) vs"
  have fit: "nat dest + size_of (q_struct cls) \<le> length (r_mem r)" and U: "cell ` set (class_strings cls) \<subseteq> U"
    and H: "object_holds fn cell r (v_own vs) (v_options vs \<noteq> None) (q_lines cls) (class_slots cls dest)"
    and S: "\<And>y t. v_own vs y = Some (Str t) \<Longrightarrow> y \<in> set (class_strings cls)"
    using R by (auto simp: request_ok_def)
  obtain os where os: "v_options vs = Some os" using R b by (auto simp: request_ok_def)
  obtain ptr where P: "options_hold cls fn cell dest U r vs a ptr" using R o by (auto simp: request_ok_def)
  have al: "cells_ok ?enc al"
    and alU: "\<And>x. x \<in> set (class_strings ?enc) \<Longrightarrow> al x \<in> U \<and> al x \<notin> cell ` set (class_strings cls)"
    and own: "\<And>x y t. x \<in> set (class_strings ?enc) \<Longrightarrow> y \<noteq> x \<Longrightarrow> os y = Some (Str t) \<Longrightarrow> ptr y \<noteq> al x"
    and hold: "object_holds fn ptr r os False SpeechOptions_lines (class_slots ?enc (dest + a))"
    and ptrU: "\<And>y t. os y = Some (Str t) \<Longrightarrow> ptr y \<in> U \<and> ptr y \<notin> cell ` set (class_strings cls)"
    using P b os by (auto simp: options_hold_def options_of_def)
  obtain k where k: "0 < dest + a" "nat (dest + a) + size_of SpeechOptions \<le> length (r_mem r)"
    by (rule options_line [OF cls dest fit o]) blast
  obtain r' ptr' i where r': "call_setter ?enc fn al (dest + a) name v r = Some r'"
    "object_holds fn ptr' r' (put_contents ?enc name v os) False (q_lines ?enc) (class_slots ?enc (dest + a))"
    "i < length (q_lines ?enc)" "changes_only (own_cells (q_lines ?enc ! i) (class_slots ?enc (dest + a) ! i)) (r_mem r) (r_mem r')"
    "r_options r' = r_options r" "\<And>p. p \<notin> al ` set (class_strings ?enc) \<Longrightarrow> r_strings r' p = r_strings r p"
    "\<And>y t. put_contents ?enc name v os y = Some (Str t) \<Longrightarrow> os y = Some (Str t) \<and> ptr' y = ptr y \<or> ptr' y = al y \<and> y \<in> set (class_strings ?enc)"
    by (rule call_setter_ok [of ?enc "dest + a" r fn ptr os False name v al])
      (use k hold t cells_ok_D(1) [OF al] own in \<open>simp_all\<close>)
  have run: "call_options cls fn dest name v r = Some r'" using r'(1) b o by (simp add: call_options_def)
  have outer: "object_holds fn cell r' (v_own vs) (v_options vs \<noteq> None) (q_lines cls) (class_slots cls dest)"
  proof (rule object_holds_frame [OF class_layout(1) [OF cls dest fit] H])
    fix c j assume "j < length (q_lines cls)" "c \<in> set (own_cells (q_lines cls ! j) (class_slots cls dest ! j))"
    then have "apart d c" if "d \<in> set (own_cells (q_lines ?enc ! i) (class_slots ?enc (dest + a) ! i))" for d
      using options_apart [OF cls dest fit o, of j i c d] r'(3) that by (simp add: apart_sym)
    then show "cell_bytes (r_mem r') c = cell_bytes (r_mem r) c" by (rule changes_keep [OF r'(4)])
  next
    fix y t assume "v_own vs y = Some (Str t)"
    then have "cell y \<in> cell ` set (class_strings cls)" using S by blast
    then have "cell y \<notin> al ` set (class_strings ?enc)" using alU by (metis imageE)
    then show "r_strings r' (cell y) = r_strings r (cell y)" by (rule r'(6))
  qed
  have new: "options_of ?vs = put_contents ?enc name v os" using os by (simp add: options_of_def)
  have "options_hold cls fn cell dest U r' ?vs a ptr'"
    unfolding options_hold_def new
  proof (intro conjI allI impI ballI)
    show "object_holds fn ptr' r' (put_contents ?enc name v os) False SpeechOptions_lines (class_slots ?enc (dest + a))"
      using r'(2) by simp
    fix y t assume y: "put_contents ?enc name v os y = Some (Str t)"
    show "ptr' y \<in> U" using r'(7) [OF y] ptrU alU by auto
    show "ptr' y \<notin> cell ` set (class_strings cls)" using r'(7) [OF y] ptrU alU by metis
  next
    fix al' assume "r_options r' = Some al'"
    then have [simp]: "al' = al" using r'(5) b by simp
    show "cells_ok ?enc al'" using al by simp
    fix x assume x: "x \<in> set (class_strings ?enc)"
    show "al' x \<in> U" "al' x \<notin> cell ` set (class_strings cls)" using alU [OF x] by simp_all
    fix y t assume y: "y \<noteq> x" "put_contents ?enc name v os y = Some (Str t)"
    show "ptr' y \<noteq> al' x" using r'(7) [OF y(2)] own [OF x y(1)] cells_ok_D(2) [OF al x _ y(1)] by auto
  qed
  then have "request_ok cls fn cell dest U r' ?vs"
    using outer fit U S o os b changes_length [OF r'(4)] unfolding request_ok_def by (auto simp: r'(5))
  then show ?thesis using run r'(5) changes_length [OF r'(4)] by blast
qed

lemma run_calls_ok:
  assumes cls: "cls \<in> set request_classes" and dest: "0 < dest" and cell: "cells_ok cls cell"
  shows "request_ok cls fn cell dest (set U) r vs \<Longrightarrow> calls_ok cls U (r_options r \<noteq> None) cs \<Longrightarrow>
    (r_options r \<noteq> None \<Longrightarrow> cls = SpeechRequest_class) \<Longrightarrow>
    \<exists>r' U'. run_calls cls fn cell dest cs r = Some r' \<and> request_ok cls fn cell dest U' r' (fold (put_call cls) cs vs)"
proof (induction cs arbitrary: r vs U)
  case (Cons c cs)
  have "offset_of (q_struct SpeechRequest_class) ''options'' \<noteq> None" by code_simp
  then obtain a where o: "offset_of (q_struct SpeechRequest_class) ''options'' = Some a" by auto
  have "\<exists>r1 U1. run_call cls fn cell dest c r = Some r1 \<and> request_ok cls fn cell dest (set U1) r1 (put_call cls c vs) \<and>
      calls_ok cls U1 (r_options r1 \<noteq> None) cs \<and> (r_options r1 \<noteq> None \<longrightarrow> cls = SpeechRequest_class)"
  proof (cases c)
    case (Set name v)
    then obtain r1 where "call_setter cls fn cell dest name v r = Some r1" "r_options r1 = r_options r"
      "request_ok cls fn cell dest (set U) r1 (put_call cls (Set name v) vs)"
      using set_step [OF cls dest cell Cons.prems(1), of name v] Cons.prems(2) by auto
    then show ?thesis using Cons.prems(2,3) Set by (intro exI [of _ r1] exI [of _ U]) simp
  next
    case (Options al)
    let ?U = "map al (class_strings SpeechOptionsEnc_class) @ U"
    have c: "cls = SpeechRequest_class" using Cons.prems(2) Options by simp
    have U: "al ` set (class_strings SpeechOptionsEnc_class) \<union> set U = set ?U" by simp
    obtain r1 where "mutable_options cls dest al r = Some r1" "r_options r1 = Some al"
      "request_ok cls fn cell dest (set ?U) r1 (put_call cls (Options al) vs)"
      using options_step [OF cls dest o [folded c] Cons.prems(1), of al] Cons.prems(2) Options unfolding U by (auto simp: list_all_iff)
    then show ?thesis using Cons.prems(2) Options c by (intro exI [of _ r1] exI [of _ ?U]) simp
  next
    case (SetOption name v)
    then obtain al where al: "r_options r = Some al" using Cons.prems(2) by auto
    then have c: "cls = SpeechRequest_class" using Cons.prems(3) by simp
    obtain r1 where "call_options cls fn dest name v r = Some r1" "r_options r1 = r_options r"
      "request_ok cls fn cell dest (set U) r1 (put_call cls (SetOption name v) vs)"
      using set_option_step [OF cls dest o [folded c] Cons.prems(1) al, of name v] Cons.prems(2) SetOption by auto
    then show ?thesis using Cons.prems(2) SetOption c al by (intro exI [of _ r1] exI [of _ U]) simp
  qed
  then obtain r1 U1 where r1: "run_call cls fn cell dest c r = Some r1" "request_ok cls fn cell dest (set U1) r1 (put_call cls c vs)"
    "calls_ok cls U1 (r_options r1 \<noteq> None) cs" "r_options r1 \<noteq> None \<Longrightarrow> cls = SpeechRequest_class" by blast
  then show ?case using Cons.IH [OF r1(2-4)] by simp
qed auto

text \<open>The object a constructor makes.\<close>

lemma take_drop_replicate_blit:
  "d + n \<le> length m \<Longrightarrow> d \<le> k \<Longrightarrow> k + z \<le> d + n \<Longrightarrow> take z (drop k (blit m d (replicate n 0))) = replicate z 0"
  by (simp add: blit_def)

lemma zero_cell:
  assumes "sto m dest (replicate n 0) = Some m'" "dest \<le> fst c" "fst c + int (snd c) \<le> dest + int n"
  shows "cell_bytes m' c = Some (replicate (snd c) 0)"
proof -
  have t: "0 < dest" "nat dest + n \<le> length m" "m' = blit m (nat dest) (replicate n 0)"
    using assms(1) by (auto simp: sto_def mem_store_def split: if_splits)
  have "take (snd c) (drop (nat (fst c)) m') = replicate (snd c) 0"
    unfolding t(3) using t(1,2) assms(2,3) by (intro take_drop_replicate_blit) auto
  moreover have "0 < fst c" "nat (fst c) + snd c \<le> length m'" using t assms sto_length [OF assms(1)] by auto
  ultimately show ?thesis by (simp add: cell_bytes_def ld_def mem_load_def)
qed

lemma le_bytes_0: "le_bytes n 0 = replicate n 0"
  by (induction n) auto

lemma zero_object:
  assumes cls: "cls \<in> set request_classes" and dest: "0 < dest" "nat dest + size_of (q_struct cls) \<le> length (r_mem r)"
    and z: "\<And>c. dest \<le> fst c \<Longrightarrow> fst c + int (snd c) \<le> dest + int (size_of (q_struct cls)) \<Longrightarrow> cell_bytes (r_mem r) c = Some (replicate (snd c) 0)"
  shows "object_holds fn ptr r Map.empty False (q_lines cls) (class_slots cls dest)"
  unfolding object_holds_def
proof (intro allI impI)
  fix j assume j: "j < length (q_lines cls)"
  let ?l = "q_lines cls ! j" and ?s = "class_slots cls dest ! j"
  note line = layout_line [OF class_layout(1) [OF cls dest] j]
  have c: "cell_bytes (r_mem r) c = Some (replicate (snd c) 0)" if "c \<in> set (own_cells ?l ?s)" for c
    using own_cells_inside [OF cls dest(1) j that] by (intro z) auto
  have d: "e_kind ?l \<noteq> MESSAGE \<Longrightarrow> cell_bytes (r_mem r) (data_cell ?s) = Some (replicate (unat (data_size (s_field ?s))) 0)"
    and f: "flagged ?l \<Longrightarrow> cell_bytes (r_mem r) (s_size ?s, 1) = Some [0]"
    using c [of "data_cell ?s"] c [of "(s_size ?s, 1)"] by (simp_all add: own_cells_def)
  then show "line_holds fn ptr r Map.empty False ?l ?s"
    using line(3) by (auto simp: line_holds_def line_field_ok_def Let_def flagged_def number_of_def le_bytes_0 split: if_splits)
qed

section \<open>The bytes of an object\<close>

definition string_bytes_of :: "addr \<Rightarrow> request \<Rightarrow> addr \<Rightarrow> pb_field \<Rightarrow> addr \<Rightarrow> byte list option" where
  "string_bytes_of fn r fp f a =
     (if fp = fn \<and> a \<noteq> 0 \<and> ltype f < 10 \<and> ltype f \<noteq> PB_LTYPE_EXTENSION
      then do { p \<leftarrow> ld_ptr (r_mem r) a; s \<leftarrow> r_strings r p; Some (tagged f (string_bytes s)) }
      else None)"

lemma strings_write: "callbacks_write (request_env fn r) (string_bytes_of fn r)"
  unfolding callbacks_write_def
proof (intro allI impI)
  fix fp f a bs assume b: "string_bytes_of fn r fp f a = Some bs" and fit: "fits bs"
  then obtain p s where p: "fp = fn" "a \<noteq> 0" "ltype f < 10" "ltype f \<noteq> PB_LTYPE_EXTENSION"
    "ld_ptr (r_mem r) a = Some p" "r_strings r p = Some s" "bs = tagged f (string_bytes s)"
    by (auto simp: string_bytes_of_def split: if_splits bind_splits)
  then have "fits s" using fit by (simp add: tagged_def string_bytes_def)
  have "writes (\<lambda>st. and_write (pb_encode_tag_for_field f st) (\<lambda>st. pb_encode_string st (Some s) (of_nat (length s)))) bs"
    using writes_tagged [OF writes_string [OF \<open>fits s\<close>] p(3,4)] p(7) by simp
  moreover have "encode_string r f a = (\<lambda>st. and_write (pb_encode_tag_for_field f st) (\<lambda>st. pb_encode_string st (Some s) (of_nat (length s))))"
    using p by (intro ext) (simp add: encode_string_def)
  ultimately show "\<exists>g. enc_callbacks (request_env fn r) fp = Some g \<and> writes (g f a) bs"
    using p(1) by (simp add: request_env_def)
qed

lemma number_value:
  assumes k: "k \<in> {INT32, UENUM, UINT32, UINT64, BOOL, FLOAT}" "ltype f = PB_LTYPE_MAP k" "unat (data_size f) = kind_size k"
    and v: "cell_bytes m (a, unat (data_size f)) = Some (le_bytes (kind_size k) v)" "v < 256 ^ kind_size k"
  shows "value_bytes m sub f a = Some (number_wire k v)"
proof -
  let ?bs = "le_bytes (kind_size k) v"
  have val: "le_value ?bs = v" using le_value_bytes [OF v(2)] .
  have ld: "ld m a (uint (data_size f)) = Some ?bs" "ld m a (int (kind_size k)) = Some ?bs"
    using v(1) k(3) [symmetric] by (simp_all add: cell_bytes_def)
  have d: "data_size f = of_nat (kind_size k)" using k(3) [symmetric] by simp
  then have sizes: "data_size f \<in> int_sizes" using k(1) by (auto simp: kind_size_def int_sizes_def)
  have s4: "k \<in> {INT32, UENUM, UINT32, FLOAT} \<Longrightarrow> kind_size k = 4" by (auto simp: kind_size_def)
  consider "k = INT32" | "k = BOOL" | "k = FLOAT" | "k \<in> {UENUM, UINT32, UINT64}" using k(1) by auto
  then show ?thesis
  proof cases
    case 1
    then have "signed_value ?bs = scast (of_nat v :: u32)" using scast_signed(3) [of ?bs] val s4 by simp
    then show ?thesis using 1 k(2) ld(1) sizes by (simp add: value_bytes_def number_wire_def)
  next
    case 2
    have "signed_value ?bs = scast (of_nat (le_value ?bs) :: byte)"
      by (rule scast_signed(1) [symmetric]) (simp add: 2 kind_size_def)
    then have "signed_value ?bs = scast (of_nat v :: byte)" unfolding val .
    then show ?thesis using 2 k(2) ld(1) sizes by (simp add: value_bytes_def number_wire_def)
  next
    case 3
    then have "fixed32_bytes (of_nat v) = ?bs" using fixed32_bytes_value [of ?bs] val s4 by simp
    then show ?thesis using 3 k(2) ld(2) s4 by (simp add: value_bytes_def number_wire_def ltypes)
  next
    case 4
    then show ?thesis using k(2) ld(1) sizes val by (auto simp: value_bytes_def number_wire_def ltypes)
  qed
qed

lemma callback_pointers:
  assumes "cell_bytes m (p, 8) = Some (callback_bytes fn c)" "0 \<le> fn" "fn < 2 ^ 32" "0 \<le> c" "c < 2 ^ 32"
  shows "ld_ptr m p = Some fn" "ld_ptr m (p + 4) = Some c" "0 < p"
  using ld_halves [OF assms(1) [unfolded callback_bytes_def]] assms(1) ld_ptr_bytes assms(2-5)
  by (auto simp: cell_bytes_def ld_def split: if_splits)

lemma tag_of_line: "n < 256 \<Longrightarrow> f_tag f = of_nat n \<Longrightarrow> (ucast (f_tag f) :: u32) = of_nat n"
  by (simp add: word_unat_eq_iff unsigned_ucast_eq unsigned_of_nat take_bit_nat_eq_self)

lemma line_bytes:
  assumes f: "line_field_ok l s" and h: "line_holds fn ptr r vs (part \<noteq> None) l s" and fn: "0 < fn" "fn < 2 ^ 32"
    and sub: "\<And>bs. e_kind l = MESSAGE \<Longrightarrow> part = Some bs \<Longrightarrow> sub SpeechOptions_fields (s_data s) = Some bs"
  shows "field_bytes (request_env fn r) (string_bytes_of fn r) d sub (s_field s) (s_data s) = Some (line_wire part vs l)"
proof -
  let ?f = "s_field s"
  have F: "ltype ?f = PB_LTYPE_MAP (e_kind l)" "atype ?f = alloc_bits (e_alloc l)" "htype ?f = rule_bits (e_rule l) (e_alloc l)"
    "(size_offset ?f \<noteq> 0) = flagged l" "s_size s = s_data s + sint (size_offset ?f)" "e_rule l = REQUIRED \<or> e_rule l = OPTIONAL"
    "f_ptr ?f = e_ptr l"
    using f by (simp_all add: line_field_ok_def Let_def flagged_def)
  have tag: "ucast (f_tag ?f) = (of_nat (e_tag l) :: u32)" using f by (intro tag_of_line) (simp_all add: line_field_ok_def Let_def)
  show ?thesis
  proof (cases "e_alloc l = CALLBACK")
    case True
    have k: "e_kind l = STRING \<or> e_kind l = BYTES" and size: "unat (data_size ?f) = 8"
      using f True by (auto simp: line_field_ok_def Let_def)
    then have lt: "ltype ?f < 10" "ltype ?f \<noteq> PB_LTYPE_EXTENSION" and w: "wire_type_for ?f = PB_WT_STRING"
      using F(1) by (auto simp: ltypes wire_type_for_def)
    have at: "atype ?f = PB_ATYPE_CALLBACK" using F(2) True by simp
    show ?thesis
    proof (cases "vs (e_member l)")
      case None
      have "callback_bytes 0 0 = replicate 8 0" by code_simp
      then have "ld_ptr (r_mem r) (s_data s) = Some 0"
        using h True None size callback_pointers(1) [of "r_mem r" "s_data s" 0 0] by (simp add: line_holds_def)
      then show ?thesis using at lt None True by (simp add: field_bytes_def line_wire_def request_env_def atypes flip: not_less)
    next
      case (Some c)
      then obtain t where t: "c = Str t" "cell_bytes (r_mem r) (s_data s, 8) = Some (callback_bytes fn (ptr (e_member l)))"
        "r_strings r (ptr (e_member l)) = Some t" "0 < ptr (e_member l)" "ptr (e_member l) < 2 ^ 32"
        using h True size by (auto simp: line_holds_def split: contents.splits)
      note p = callback_pointers [OF t(2) less_imp_le [OF fn(1)] fn(2) less_imp_le [OF t(4)] t(5)]
      have "string_bytes_of fn r fn ?f (s_data s + 4) = Some (tagged ?f (string_bytes t))"
        using p t(3) lt by (simp add: string_bytes_of_def)
      then show ?thesis
        using at lt Some True t(1) p(1) fn w tag
        by (simp add: field_bytes_def line_wire_def request_env_def atypes tagged_def flip: not_less)
    qed
  next
    case False
    then have st: "e_alloc l = STATIC" using f by (simp add: line_field_ok_def Let_def)
    have at: "atype ?f = PB_ATYPE_STATIC" using F(2) st by simp
    have ht: "htype ?f = (if flagged l then PB_HTYPE_OPTIONAL else PB_HTYPE_REQUIRED)"
      using F(3,6) st by (auto simp: flagged_def)
    have byte: "ld_byte m a = Some b" if "cell_bytes m (a, 1) = Some [b]" for m a and b :: byte
      using that by (simp add: cell_bytes_def ld_byte_def)
    show ?thesis
    proof (cases "e_kind l = MESSAGE")
      case True
      then have k: "flagged l" "e_ptr l = Submsg SpeechOptions_fields" "ltype ?f = PB_LTYPE_SUBMESSAGE"
        using f F(1) st by (simp_all add: line_field_ok_def Let_def flagged_def)
      have has: "ld_byte (r_mem r) (s_data s + sint (size_offset ?f)) = Some (of_bool (part \<noteq> None))"
        using h True st F(5) byte by (simp add: line_holds_def)
      have "basic_bytes (r_mem r) d sub ?f (s_data s) =
          (if part = None then Some [] else map_option (tagged ?f) (value_bytes (r_mem r) sub ?f (s_data s)))"
        using F(4) k(1) has at ht by (simp add: basic_bytes_def atypes htypes)
      moreover have "value_bytes (r_mem r) sub ?f (s_data s) = Some (string_bytes bs)" if "part = Some bs" for bs
        using k sub [OF True that] F(7) by (simp add: value_bytes_def ltypes)
      moreover have "wire_type_for ?f = PB_WT_STRING" using k(3) by (simp add: wire_type_for_def ltypes)
      ultimately show ?thesis
        using at k(3) True st tag
        by (cases part) (simp_all add: field_bytes_def line_wire_def request_env_def tagged_def ltypes atypes word_le_nat_alt)
    next
      case kind: False
      have k: "e_kind l \<in> {INT32, UENUM, UINT32, UINT64, BOOL, FLOAT}" "unat (data_size ?f) = kind_size (e_kind l)"
        using f kind False by (simp_all add: line_field_ok_def Let_def)
      have lt: "ltype ?f < 10" "ltype ?f \<noteq> PB_LTYPE_EXTENSION"
        and w: "wire_type_for ?f = (if e_kind l = FLOAT then PB_WT_32BIT else PB_WT_VARINT)"
        using F(1) k(1) by (auto simp: ltypes wire_type_for_def word_less_nat_alt)
      have val: "value_bytes (r_mem r) sub ?f (s_data s) = Some (number_wire (e_kind l) (number_of vs (e_member l)))"
        using h kind False by (intro number_value [OF k(1) F(1) k(2)]) (simp_all add: line_holds_def)
      have has: "flagged l \<Longrightarrow> ld_byte (r_mem r) (s_data s + sint (size_offset ?f)) = Some (of_bool (vs (e_member l) \<noteq> None))"
        using h kind st F(5) byte by (simp add: line_holds_def)
      have pos: "s_data s \<noteq> 0" using h kind False by (auto simp: line_holds_def cell_bytes_def ld_def split: if_splits)
      have "basic_bytes (r_mem r) d sub ?f (s_data s) =
          (if flagged l \<and> vs (e_member l) = None then Some [] else Some (tagged ?f (number_wire (e_kind l) (number_of vs (e_member l)))))"
      proof (cases "flagged l")
        case True
        then show ?thesis using F(4) has at ht val by (simp add: basic_bytes_def atypes htypes)
      next
        case nf: False
        then show ?thesis using F(4) at ht val pos by (simp add: basic_bytes_def atypes htypes)
      qed
      then show ?thesis
        using at lt kind False st tag w
        by (simp add: field_bytes_def line_wire_def request_env_def tagged_def atypes flagged_def flip: not_less)
    qed
  qed
qed

lemma object_bytes:
  assumes cls: "cls \<in> set request_classes" and dest: "0 < dest" "nat dest + size_of (q_struct cls) \<le> length (r_mem r)"
    and H: "object_holds fn ptr r vs (part \<noteq> None) (q_lines cls) (class_slots cls dest)" and fn: "0 < fn" "fn < 2 ^ 32"
    and sub: "\<And>bs k. k < length (q_lines cls) \<Longrightarrow> e_kind (q_lines cls ! k) = MESSAGE \<Longrightarrow> part = Some bs \<Longrightarrow>
      message_bytes (request_env fn r) (string_bytes_of fn r) d SpeechOptions_fields (s_data (class_slots cls dest ! k)) = Some bs"
  shows "message_bytes (request_env fn r) (string_bytes_of fn r) (Suc d) (q_fields cls) dest = Some (concat (map (line_wire part vs) (q_lines cls)))"
proof -
  let ?fb = "field_bytes (request_env fn r) (string_bytes_of fn r) d (message_bytes (request_env fn r) (string_bytes_of fn r) d)"
  note lay = class_layout [OF cls dest]
  have one: "?fb (s_field (class_slots cls dest ! j)) (s_data (class_slots cls dest ! j)) = Some (line_wire part vs (q_lines cls ! j))"
    if j: "j < length (q_lines cls)" for j
    by (rule line_bytes [OF layout_line(3) [OF lay(1) j] _ fn]) (use H j sub in \<open>auto simp: object_holds_def\<close>)
  have all: "bytes_of_slots fb ss = Some (concat (map w ls))" if "list_all2 (\<lambda>l s. fb (s_field s) (s_data s) = Some (w l)) ls ss"
    for fb ss and w :: "table_line \<Rightarrow> byte list" and ls
    using that by (induction rule: list_all2_induct) auto
  have "list_all2 (\<lambda>l s. ?fb (s_field s) (s_data s) = Some (line_wire part vs l)) (q_lines cls) (class_slots cls dest)"
    using one lay(1) by (simp add: list_all2_conv_all_nth layout_def)
  from all [OF this] show ?thesis using lay(2) by simp
qed

lemma request_bytes:
  assumes cls: "cls \<in> set request_classes" and dest: "0 < dest" and R: "request_ok cls fn cell dest U r vs" and fn: "0 < fn" "fn < 2 ^ 32"
  shows "message_bytes (request_env fn r) (string_bytes_of fn r) 2 (q_fields cls) dest = Some (request_wire cls vs)"
proof -
  let ?part = "map_option options_wire (v_options vs)"
  have fit: "nat dest + size_of (q_struct cls) \<le> length (r_mem r)"
    and H: "object_holds fn cell r (v_own vs) (?part \<noteq> None) (q_lines cls) (class_slots cls dest)"
    and O: "\<And>a. offset_of (q_struct cls) ''options'' = Some a \<Longrightarrow> \<exists>ptr. options_hold cls fn cell dest U r vs a ptr"
    using R by (auto simp: request_ok_def)
  have "message_bytes (request_env fn r) (string_bytes_of fn r) (Suc 1) (q_fields cls) dest = Some (concat (map (line_wire ?part (v_own vs)) (q_lines cls)))"
  proof (rule object_bytes [OF cls dest fit H fn])
    fix bs k assume k: "k < length (q_lines cls)" "e_kind (q_lines cls ! k) = MESSAGE" "?part = Some bs"
    obtain os where os: "v_options vs = Some os" "bs = options_wire os" using k(3) by auto
    note line = layout_line [OF class_layout(1) [OF cls dest fit] k(1)]
    have mem: "e_member (q_lines cls ! k) = ''options''" using line(3) k(2) by (auto simp: line_field_ok_def Let_def split: if_splits)
    obtain n t where "member (q_struct cls) ''options'' = Some (n, t)" and d: "s_data (class_slots cls dest ! k) = dest + int n"
      using line(2) mem by (auto simp: line_ok_def split: option.splits)
    then have o: "offset_of (q_struct cls) ''options'' = Some (int n)" by (simp add: offset_of_def)
    obtain k' where k': "0 < dest + int n" "nat (dest + int n) + size_of SpeechOptions \<le> length (r_mem r)"
      by (rule options_line [OF cls dest fit o]) blast
    obtain ptr where "options_hold cls fn cell dest U r vs (int n) ptr" using O [OF o] by blast
    then have hold: "object_holds fn ptr r os (None \<noteq> (None :: byte list option)) (q_lines SpeechOptionsEnc_class) (class_slots SpeechOptionsEnc_class (dest + int n))"
      using os(1) by (simp add: options_hold_def options_of_def)
    have "message_bytes (request_env fn r) (string_bytes_of fn r) (Suc 0) (q_fields SpeechOptionsEnc_class) (dest + int n) =
        Some (concat (map (line_wire None os) (q_lines SpeechOptionsEnc_class)))"
      by (rule object_bytes [OF _ k'(1) _ hold fn]) (use k'(2) in simp_all)
    then show "message_bytes (request_env fn r) (string_bytes_of fn r) 1 SpeechOptions_fields (s_data (class_slots cls dest ! k)) = Some bs"
      using d os(2) by (simp add: options_wire_def SpeechOptionsEnc_class_def)
  qed
  then show ?thesis by (simp add: numeral_2_eq_2 request_wire_def)
qed

lemma constructed_ok:
  assumes cls: "cls \<in> set object_classes" and new: "new_request cls cell dest m w = Some r"
  shows "0 < dest \<and> r_options r = None \<and> request_ok cls fn cell dest (cell ` set (class_strings cls)) r \<lparr>v_own = Map.empty, v_options = None\<rparr>"
proof -
  have rc: "cls \<in> set request_classes" using cls by (simp add: request_classes_def)
  let ?n = "size_of (q_struct cls)"
  obtain m1 where m1: "sto m dest (replicate ?n 0) = Some m1" "r = \<lparr>r_mem = m1, r_strings = empty_strings cls cell w, r_options = None\<rparr>"
    using new by (auto simp: new_request_def split: bind_splits)
  have dest: "0 < dest" and fit: "nat dest + ?n \<le> length (r_mem r)"
    using m1 sto_length [OF m1(1)] by (auto simp: sto_def mem_store_def split: if_splits)
  have zero: "cell_bytes (r_mem r) c = Some (replicate (snd c) 0)" if "dest \<le> fst c" "fst c + int (snd c) \<le> dest + int ?n" for c
    using zero_cell [OF m1(1) that] m1(2) by simp
  have H: "object_holds fn cell r Map.empty False (q_lines cls) (class_slots cls dest)"
    by (rule zero_object [OF rc dest fit zero])
  have "\<exists>ptr. options_hold cls fn cell dest (cell ` set (class_strings cls)) r \<lparr>v_own = Map.empty, v_options = None\<rparr> a ptr"
    if o: "offset_of (q_struct cls) ''options'' = Some a" for a
  proof -
    obtain k where k: "k < length (q_lines cls)" "data_cell (class_slots cls dest ! k) = (dest + a, size_of SpeechOptions)"
      "0 < dest + a" "nat (dest + a) + size_of SpeechOptions \<le> length (r_mem r)"
      by (rule options_line [OF rc dest fit o]) blast
    have inside: "dest \<le> dest + a" "dest + a + int (size_of SpeechOptions) \<le> dest + int ?n"
      using slot_cells_inside [OF rc k(1), of "data_cell (class_slots cls dest ! k)" dest] k(2) by (simp_all add: slot_cells_def)
    have "object_holds fn cell r Map.empty False (q_lines SpeechOptionsEnc_class) (class_slots SpeechOptionsEnc_class (dest + a))"
      by (rule zero_object) (use k(3,4) inside zero in auto)
    then show ?thesis using m1(2) by (auto simp: options_hold_def options_of_def)
  qed
  then show ?thesis using dest fit H m1(2) by (auto simp: request_ok_def)
qed

section \<open>Property of the request objects\<close>

text \<open>
  C37. The request objects send what they were told. A constructed object runs any sequence of calls of
  its setters, with the options of a speech request filled through \<open>mutable_options\<close> at any point,
  without undefined behaviour, and \<open>SerializeToString\<close> then returns the fields of the table in order,
  each with the value last set: a required number that was never set is 0, an optional number or a
  string that was never set is left out, even where the table says it is required, and the options
  are a nested message. It fails exactly when this is longer than the buffer of 1 MB.
\<close>

theorem serialize_sends_values:
  assumes "cls \<in> set object_classes" "new_request cls cell dest m w = Some r" "cells_ok cls cell" "0 < fn" "fn < 2 ^ 32"
    and "calls_ok cls (map cell (class_strings cls)) False cs" and "length buf = encodeBuffer_size"
    and wire: "wire = request_wire cls (values_after cls cs)" "fits wire"
  shows "\<exists>r' buf'. run_calls cls fn cell dest cs r = Some r' \<and> length buf' = encodeBuffer_size \<and>
    SerializeToString cls fn dest buf r' = Some (if length wire \<le> encodeBuffer_size then Some wire else None, buf')"
proof -
  have rc: "cls \<in> set request_classes" using assms(1) by (simp add: request_classes_def)
  have new: "0 < dest" "r_options r = None"
    "request_ok cls fn cell dest (set (map cell (class_strings cls))) r \<lparr>v_own = Map.empty, v_options = None\<rparr>"
    using constructed_ok [OF assms(1,2)] by auto
  obtain r' U where r': "run_calls cls fn cell dest cs r = Some r'" "request_ok cls fn cell dest U r' (values_after cls cs)"
    using run_calls_ok [OF rc new(1) assms(3) new(3), of cs] new(2) assms(6) by (auto simp: values_after_def)
  have "fits buf" using assms(7) by (simp add: encodeBuffer_size_def)
  from encode_to_buffer [OF strings_write request_bytes [OF rc new(1) r'(2) assms(4,5)] _ this, folded wire(1), OF wire(2)]
  obtain st where "pb_encode (request_env fn r') 2 (q_fields cls) dest (pb_ostream_from_buffer buf (of_nat (length buf))) =
      Some (length wire \<le> length buf, st)" "length (fst (ostate st)) = length buf"
    "length wire \<le> length buf \<longrightarrow> take (unat (bytes_written st)) (fst (ostate st)) = wire" by blast
  then show ?thesis using r'(1) assms(7) by (auto simp: SerializeToString_def)
qed

text \<open>A speech request with an identifier, a text that is set twice and two of its options.\<close>

definition example_cells :: "string \<Rightarrow> addr" where
  "example_cells x = (if x = ''voice'' then 400 else 412)"

definition example_options :: "string \<Rightarrow> addr" where
  "example_options x = (if x = ''stack'' then 500 else if x = ''voice_trigger'' then 512 else if x = ''skill_options'' then 524 else 536)"

definition example_calls :: "call list" where
  "example_calls = [Set ''set_id'' (Int32 7), Set ''set_asr'' (Text [104]), Options example_options,
     SetOption ''set_stack'' (Text [115, 116]), Set ''set_asr'' (Text [111, 107]), SetOption ''set_vend_timeout'' (Uint32 300)]"

definition example_new :: request where
  "example_new = the (new_request SpeechRequest_class example_cells 8 (replicate 160 170) (\<lambda>_. None))"

definition example_wire :: "byte list" where
  "example_wire = request_wire SpeechRequest_class (values_after SpeechRequest_class example_calls)"

lemma example_constructs: "new_request SpeechRequest_class example_cells 8 (replicate 160 170) (\<lambda>_. None) = Some example_new"
proof -
  have "size_of (q_struct SpeechRequest_class) = 120" by code_simp
  then show ?thesis using sto_Some [of 8 "replicate 120 0" "replicate 160 170 :: memory"]
    unfolding example_new_def new_request_def by auto
qed

lemma example_wire_bytes: "example_wire = [8, 7, 16, 0, 34, 2, 111, 107, 42, 17, 8, 0, 16, 0, 24, 0, 32, 172, 2, 40, 0, 48, 0, 58, 2, 115, 116]"
  by code_simp

theorem serialize_sends_values_witness:
  "\<exists>r' buf'. run_calls SpeechRequest_class 4096 example_cells 8 example_calls example_new = Some r' \<and> length buf' = encodeBuffer_size \<and>
    SerializeToString SpeechRequest_class 4096 8 (replicate encodeBuffer_size 0) r' =
      Some (if length example_wire \<le> encodeBuffer_size then Some example_wire else None, buf')"
proof (rule serialize_sends_values [OF _ example_constructs])
  show "calls_ok SpeechRequest_class (map example_cells (class_strings SpeechRequest_class)) False example_calls" by code_simp
  show "cells_ok SpeechRequest_class example_cells" by code_simp
  show "fits example_wire" by (simp add: example_wire_bytes)
qed (simp_all add: object_classes_def example_wire_def)

end
