(* ===== verification/OpCtl.thy ===== *)
theory OpCtl
  imports Prelude
begin

text \<open>
  The operations of a speech client, \<open>class OperationController\<close> of \<open>op_ctl.h\<close>:
  the list of operations not yet reported and the current one. Operations are shared pointers to
  objects that others update, so they live in a heap and are named by their index. A condition
  variable with at most one waiting thread is whether a thread waits; \<open>notify_one\<close> makes it False.
  Time points are nanoseconds of the steady clock.
\<close>

section \<open>Data\<close>

datatype op_status = START | STREAMING | END | CANCELLED | ERROR

record operation =
  op_id :: int
  op_status :: op_status
  op_error :: nat
  begin_timepoint :: int
  lastest_recv_timepoint :: int
  calc_op_timeout :: bool

type_synonym cond = bool

record op_ctl =
  op_cond :: cond
  heap :: "operation list"
  operations :: "nat list"
  current_op :: "nat option"

definition ctl_init :: op_ctl where
  "ctl_init = \<lparr>op_cond = False, heap = [], operations = [], current_op = None\<rparr>"

definition NOOP_TIMEOUT :: int where "NOOP_TIMEOUT = 10000"
definition NORESP_TIMEOUT :: int where "NORESP_TIMEOUT = 30000"

definition op_at :: "op_ctl \<Rightarrow> nat \<Rightarrow> operation" where
  "op_at c k = heap c ! k"

definition set_op :: "nat \<Rightarrow> (operation \<Rightarrow> operation) \<Rightarrow> op_ctl \<Rightarrow> op_ctl" where
  "set_op k f c = c\<lparr>heap := (heap c)[k := f (op_at c k)]\<rparr>"

section \<open>The operations of the class\<close>

definition new_op :: "int \<Rightarrow> op_status \<Rightarrow> int \<Rightarrow> op_ctl \<Rightarrow> op_ctl" where
  "new_op i s now c =
     (let k = length (heap c);
          op = \<lparr>op_id = i, op_status = s, op_error = 0, begin_timepoint = 0, lastest_recv_timepoint = now, calc_op_timeout = False\<rparr>;
          c1 = c\<lparr>heap := heap c @ [op], operations := operations c @ [k]\<rparr> in
      if s = START then c1\<lparr>current_op := Some k\<rparr> else c1)"

definition set_op_error :: "nat \<Rightarrow> op_ctl \<Rightarrow> op_ctl" where
  "set_op_error err c =
     (case current_op c of
        None \<Rightarrow> c
      | Some k \<Rightarrow> (set_op k (\<lambda>x. x\<lparr>op_status := ERROR, op_error := err\<rparr>) c)\<lparr>current_op := None, op_cond := False\<rparr>)"

definition finish_op :: "op_ctl \<Rightarrow> op_ctl" where
  "finish_op c =
     (case current_op c of
        None \<Rightarrow> c
      | Some k \<Rightarrow>
          (if op_status (op_at c k) \<noteq> CANCELLED \<and> op_status (op_at c k) \<noteq> ERROR
           then set_op k (\<lambda>x. x\<lparr>op_status := END\<rparr>) c else c)\<lparr>current_op := None, op_cond := False\<rparr>)"

text \<open>One wait, without a loop; the caller is the only thread that waits on \<open>op_cond_\<close>.\<close>

definition wait_op_finish :: "int \<Rightarrow> op_ctl \<Rightarrow> op_ctl" where
  "wait_op_finish i c =
     (case current_op c of
        None \<Rightarrow> c
      | Some k \<Rightarrow> if op_id (op_at c k) = i then c\<lparr>op_cond := True\<rparr> else c)"

fun cancel_loop :: "int \<Rightarrow> nat list \<Rightarrow> op_ctl \<Rightarrow> bool \<times> op_ctl" where
  "cancel_loop i [] c = (False, c)"
| "cancel_loop i (k # ks) c =
     (if i \<le> 0 \<or> i = op_id (op_at c k) then
        (let c1 = set_op k (\<lambda>x. x\<lparr>op_status := CANCELLED\<rparr>) c;
             hit = (case current_op c1 of None \<Rightarrow> False | Some j \<Rightarrow> op_id (op_at c1 j) = op_id (op_at c1 k)) in
         if i > 0 then (hit, c1)
         else (case cancel_loop i ks c1 of (n, c2) \<Rightarrow> (hit \<or> n, c2)))
      else cancel_loop i ks c)"

definition cancel_op :: "int \<Rightarrow> cond \<Rightarrow> op_ctl \<Rightarrow> cond \<times> op_ctl" where
  "cancel_op i cnd c =
     (case cancel_loop i (operations c) c of
        (True, c1) \<Rightarrow> (False, c1\<lparr>current_op := None, op_cond := False\<rparr>)
      | (False, c1) \<Rightarrow> (cnd, c1))"

definition remove_front_op :: "op_ctl \<Rightarrow> op_ctl" where
  "remove_front_op c = c\<lparr>operations := tl (operations c)\<rparr>"

definition refresh_op_time :: "bool \<Rightarrow> int \<Rightarrow> op_ctl \<Rightarrow> op_ctl" where
  "refresh_op_time recv now c =
     (case current_op c of
        None \<Rightarrow> c
      | Some k \<Rightarrow> set_op k (\<lambda>x. x\<lparr>calc_op_timeout := True, begin_timepoint := now,
          lastest_recv_timepoint := (if recv then now else lastest_recv_timepoint x)\<rparr>) c)"

text \<open>\<open>duration_cast\<close> to milliseconds, towards zero, in an unsigned 32-bit count.\<close>

definition millis :: "int \<Rightarrow> int" where
  "millis ns = u32_of (if 0 \<le> ns then ns div 1000000 else - ((- ns) div 1000000))"

definition op_timeout :: "int \<Rightarrow> op_ctl \<Rightarrow> int" where
  "op_timeout now c =
     (case current_op c of
        None \<Rightarrow> NOOP_TIMEOUT
      | Some k \<Rightarrow>
          let x = op_at c k in
          if \<not> calc_op_timeout x then NOOP_TIMEOUT
          else (let dur = millis (now - begin_timepoint x) in
            if dur > NOOP_TIMEOUT then 0
            else (let t1 = u32_of (NOOP_TIMEOUT - dur); dur2 = millis (now - lastest_recv_timepoint x) in
              if dur2 > NORESP_TIMEOUT then 0
              else (let t2 = u32_of (NORESP_TIMEOUT - dur2) in if t1 > t2 then t2 else t1))))"

definition front_op :: "op_ctl \<Rightarrow> nat option" where
  "front_op c = (case operations c of [] \<Rightarrow> None | k # _ \<Rightarrow> Some k)"

definition clear_current_op :: "op_ctl \<Rightarrow> op_ctl" where
  "clear_current_op c = c\<lparr>current_op := None\<rparr>"

section \<open>The timeout\<close>

lemma millis_nonneg: "0 \<le> ns \<Longrightarrow> ns < 4294967296 * 1000000 \<Longrightarrow> millis ns = ns div 1000000"
  by (simp add: millis_def u32_of_def)

lemma op_timeout_max:
  assumes "current_op c = Some k" "calc_op_timeout (op_at c k)"
    and "0 \<le> now - begin_timepoint (op_at c k)" "now - begin_timepoint (op_at c k) < 4294967296 * 1000000"
    and "0 \<le> now - lastest_recv_timepoint (op_at c k)" "now - lastest_recv_timepoint (op_at c k) < 4294967296 * 1000000"
  shows "op_timeout now c = max 0 (min (10000 - (now - begin_timepoint (op_at c k)) div 1000000)
    (30000 - (now - lastest_recv_timepoint (op_at c k)) div 1000000))"
  using assms by (simp add: op_timeout_def millis_nonneg NOOP_TIMEOUT_def NORESP_TIMEOUT_def Let_def u32_of_id pos_imp_zdiv_nonneg_iff)

lemma op_timeout_zero_current: "op_timeout now c = 0 \<Longrightarrow> current_op c \<noteq> None"
  by (cases "current_op c") (simp_all add: op_timeout_def NOOP_TIMEOUT_def)

lemma countdown:
  assumes "0 \<le> d" "d \<le> max 0 (min (10000 - a) (30000 - b))"
  shows "max 0 (min (10000 - (a + d)) (30000 - (b + d))) = max 0 (min (10000 - a) (30000 - b)) - (d :: int)"
  using assms by (simp add: max_def min_def split: if_splits)

lemma countdown_zero: "max 0 (min (10000 - a) (30000 - b)) = (0 :: int) \<longleftrightarrow> 10000 \<le> a \<or> 30000 \<le> b"
  by linarith

lemma millis_at_least: "c \<le> (ns :: int) div 1000000 \<longleftrightarrow> c * 1000000 \<le> ns"
  by linarith

text \<open>
  C28. The timeout of the receiver counts down to zero: it is between 0 and 10 seconds, after waiting
  any part of it the rest is what remains, so that the receiver wakes exactly when one of the two
  limits (10 seconds without an operation, 30 seconds without a response) is reached, and it is only
  zero when there is a current operation to fail. The times since both points fit 32 bits of milliseconds.
\<close>

theorem op_timeout_counts_down:
  assumes "current_op c = Some k" "calc_op_timeout (op_at c k)"
    and "0 \<le> now - begin_timepoint (op_at c k)" "now - begin_timepoint (op_at c k) < 4294967296 * 1000000"
    and "0 \<le> now - lastest_recv_timepoint (op_at c k)" "now - lastest_recv_timepoint (op_at c k) < 4294967296 * 1000000"
    and "0 \<le> d" "d \<le> op_timeout now c"
  shows "op_timeout now c \<le> NOOP_TIMEOUT \<and> op_timeout (now + d * 1000000) c = op_timeout now c - d \<and>
    (op_timeout now c = 0 \<longleftrightarrow> 10000 * 1000000 \<le> now - begin_timepoint (op_at c k) \<or>
       30000 * 1000000 \<le> now - lastest_recv_timepoint (op_at c k)) \<and>
    op_timeout now (clear_current_op c) = NOOP_TIMEOUT"
proof -
  let ?a = "now - begin_timepoint (op_at c k)" and ?b = "now - lastest_recv_timepoint (op_at c k)"
  have t: "op_timeout now c = max 0 (min (10000 - ?a div 1000000) (30000 - ?b div 1000000))"
    by (rule op_timeout_max [OF assms(1-6)])
  have shift: "(x + d * 1000000) div 1000000 = x div 1000000 + d" for x :: int by simp
  have e: "now + d * 1000000 - x = now - x + d * 1000000" for x by simp
  have "op_timeout (now + d * 1000000) c = op_timeout now c - d"
  proof (cases "d = 0")
    case False
    then have pos: "?a div 1000000 < 10000" "?b div 1000000 < 30000" "d \<le> 10000"
      using assms(3,7,8) unfolding t by (simp_all add: max_def min_def pos_imp_zdiv_nonneg_iff split: if_splits)
    then have "?a < 10000 * 1000000" "?b < 30000 * 1000000" by linarith+
    then have "op_timeout (now + d * 1000000) c
        = max 0 (min (10000 - (?a div 1000000 + d)) (30000 - (?b div 1000000 + d)))"
      using assms(3,5,7) pos(3) by (subst op_timeout_max [OF assms(1,2)]) (simp_all add: e shift del: div_mult_self1)
    then show ?thesis unfolding t using countdown [OF assms(7) assms(8) [unfolded t]] by simp
  qed simp
  moreover have "op_timeout now c \<le> NOOP_TIMEOUT"
    unfolding t NOOP_TIMEOUT_def using assms(3) by (simp add: pos_imp_zdiv_nonneg_iff)
  moreover have "op_timeout now c = 0 \<longleftrightarrow> 10000 * 1000000 \<le> ?a \<or> 30000 * 1000000 \<le> ?b"
    unfolding t countdown_zero millis_at_least ..
  ultimately show ?thesis by (simp add: op_timeout_def clear_current_op_def)
qed

theorem op_timeout_counts_down_witness:
  "let c = refresh_op_time True 5000000 (new_op 1 START 0 ctl_init) in
   op_timeout (5000000 + 2000 * 1000000) c = 8000 \<and> op_timeout (5000000 + 2000 * 1000000 + 8000 * 1000000) c = 0"
proof -
  define c where "c = refresh_op_time True 5000000 (new_op 1 START 0 ctl_init)"
  define x where "x = \<lparr>op_id = 1, op_status = START, op_error = 0, begin_timepoint = 5000000,
    lastest_recv_timepoint = 5000000, calc_op_timeout = True\<rparr>"
  have c: "current_op c = Some 0" "op_at c 0 = x"
    by (simp_all add: c_def x_def refresh_op_time_def new_op_def ctl_init_def set_op_def op_at_def Let_def)
  have "op_timeout (5000000 + 2000 * 1000000) c = 8000"
    using c by (simp add: op_timeout_def x_def millis_def u32_of_def NOOP_TIMEOUT_def NORESP_TIMEOUT_def)
  then show ?thesis using op_timeout_counts_down [of c 0 "5000000 + 2000 * 1000000" 8000] c
    by (simp add: c_def [symmetric] x_def)
qed

end
