(* ===== verification/Speech.thy ===== *)
theory Speech
  imports OpCtl StreamQueue
begin

text \<open>
  The speech client of speech_impl.cc: the requests of the application (a queue of voice streams and
  a list of texts), the operations, the responses of the server, and the functions of its three
  threads - the application with \<open>poll\<close>, the sender \<open>send_reqs\<close> and the receiver
  \<open>gen_results\<close>. Each function here is one critical section of the code, cut at its waits and at
  the calls of the connection, whose results are arguments. A failing \<open>assert\<close> is undefined.
\<close>

section \<open>Data\<close>

type_synonym str = "byte list"

datatype req_type = TEXT | VOICE_START | VOICE_END | REQ_CANCELLED | VOICE_DATA

record 'o req_info =
  req_id :: int
  req_type :: req_type
  req_data :: "str option"
  req_options :: "'o option"

record result_in =
  in_asr :: str
  in_nlp :: str
  in_action :: str
  in_extra :: str
  asr_finish :: bool

definition no_result :: result_in where
  "no_result = \<lparr>in_asr = [], in_nlp = [], in_action = [], in_extra = [], asr_finish = False\<rparr>"

datatype resp_type = RT_INTERMEDIATE | RT_ASR_FINISH | RT_FINISH | RT_other int

record response =
  resp_id :: int
  resp_type :: resp_type
  resp_result :: nat
  resp_asr :: str
  resp_nlp :: str
  resp_action :: str
  resp_extra :: str

datatype res_type = SPEECH_RES_INTER | SPEECH_RES_START | SPEECH_RES_ASR_FINISH | SPEECH_RES_END
  | SPEECH_RES_CANCELLED | SPEECH_RES_ERROR

record result =
  res_id :: int
  res_type :: res_type
  res_err :: nat
  res_asr :: str
  res_nlp :: str
  res_action :: str
  res_extra :: str

datatype conn_result = SUCCESS | INVALID_PB_OBJ | CONNECTION_NOT_AVAILABLE | NOT_READY | INVALID_PB_DATA
  | CONNECTION_BROKEN | TIMEOUT

definition SPEECH_SERVICE_UNAVAILABLE :: nat where "SPEECH_SERVICE_UNAVAILABLE = 101"
definition SPEECH_TIMEOUT :: nat where "SPEECH_TIMEOUT = 103"
definition SPEECH_UNKNOWN :: nat where "SPEECH_UNKNOWN = 104"

record 'o speech =
  initialized :: bool
  next_id :: int
  text_reqs :: "'o req_info list"
  voice_reqs :: "(str, 'o) sq"
  responses :: "(result_in, int) sq"
  req_cond :: cond
  resp_cond :: cond
  ctl :: op_ctl

text \<open>After \<open>prepare\<close>.\<close>

definition speech_init :: "'o speech" where
  "speech_init = \<lparr>initialized = True, next_id = 0, text_reqs = [], voice_reqs = sq_empty, responses = sq_empty,
     req_cond = False, resp_cond = False, ctl = ctl_init\<rparr>"

section \<open>The application\<close>

definition put_text :: "str option \<Rightarrow> 'o option \<Rightarrow> 'o speech \<Rightarrow> (int \<times> 'o speech) c" where
  "put_text text opts s =
     (case text of
        None \<Rightarrow> Some (-1, s)
      | Some t \<Rightarrow>
          if \<not> initialized s then Some (-1, s)
          else do {
            i \<leftarrow> s32 (next_id s + 1);
            Some (i, s\<lparr>next_id := i,
              text_reqs := text_reqs s @ [\<lparr>req_id = i, req_type = TEXT, req_data = Some t, req_options = opts\<rparr>],
              req_cond := False\<rparr>) })"

definition start_voice :: "'o option \<Rightarrow> 'o speech \<Rightarrow> (int \<times> 'o speech) c" where
  "start_voice opts s =
     (if \<not> initialized s then Some (-1, s)
      else do {
        i \<leftarrow> s32 (next_id s + 1);
        (ok, q) \<leftarrow> sq_start i (voice_reqs s);
        (if \<not> ok then Some (-1, s\<lparr>next_id := i, voice_reqs := q\<rparr>)
         else do {
           q1 \<leftarrow> sq_set_arg i opts q;
           Some (i, s\<lparr>next_id := i, voice_reqs := q1, req_cond := False\<rparr>) }) })"

text \<open>\<open>None\<close> is the null pointer.\<close>

definition put_voice :: "int \<Rightarrow> str option \<Rightarrow> 'o speech \<Rightarrow> 'o speech c" where
  "put_voice i voice s =
     (if \<not> initialized s then Some s
      else if i \<le> 0 \<or> voice = None \<or> voice = Some [] then Some s
      else do {
        (ok, q) \<leftarrow> sq_stream i voice (voice_reqs s);
        Some (if ok then s\<lparr>voice_reqs := q, req_cond := False\<rparr> else s\<lparr>voice_reqs := q\<rparr>) })"

definition end_voice :: "int \<Rightarrow> 'o speech \<Rightarrow> 'o speech c" where
  "end_voice i s =
     (if \<not> initialized s then Some s
      else if i \<le> 0 then Some s
      else do {
        (ok, q) \<leftarrow> sq_end i None (voice_reqs s);
        Some (if ok then s\<lparr>voice_reqs := q, req_cond := False\<rparr> else s\<lparr>voice_reqs := q\<rparr>) })"

fun cancel_text :: "int \<Rightarrow> 'o req_info list \<Rightarrow> 'o req_info list option" where
  "cancel_text i [] = None"
| "cancel_text i (r # rs) =
     (if req_id r = i then Some (r\<lparr>req_type := REQ_CANCELLED\<rparr> # rs) else map_option ((#) r) (cancel_text i rs))"

definition cancel_in_ctl :: "int \<Rightarrow> 'o speech \<Rightarrow> 'o speech" where
  "cancel_in_ctl i s = (case cancel_op i (resp_cond s) (ctl s) of (cnd, c1) \<Rightarrow> s\<lparr>resp_cond := cnd, ctl := c1\<rparr>)"

definition cancel :: "int \<Rightarrow> 'o speech \<Rightarrow> 'o speech c" where
  "cancel i s =
     (if \<not> initialized s then Some s
      else if i > 0 then do {
        (ok, q) \<leftarrow> sq_erase i 0 (voice_reqs s);
        let s1 = s\<lparr>voice_reqs := q\<rparr>;
        (if ok then Some (s1\<lparr>req_cond := False\<rparr>)
         else (case cancel_text i (text_reqs s1) of
             Some ts \<Rightarrow> Some (s1\<lparr>text_reqs := ts\<rparr>)
           | None \<Rightarrow> Some (cancel_in_ctl i s1))) }
      else do {
        ((min_id, _), q) \<leftarrow> sq_clear (voice_reqs s);
        let s1 = s\<lparr>voice_reqs := q\<rparr>;
        let s2 = (if min_id > 0 then s1\<lparr>req_cond := False\<rparr> else s1);
        Some (cancel_in_ctl 0 (s2\<lparr>text_reqs := map (\<lambda>r. r\<lparr>req_type := REQ_CANCELLED\<rparr>) (text_reqs s2)\<rparr>)) })"

definition erase_req :: "int \<Rightarrow> 'o speech \<Rightarrow> 'o speech c" where
  "erase_req i s = do {
     (ok, q) \<leftarrow> sq_erase i SPEECH_TIMEOUT (voice_reqs s);
     Some (if ok then s\<lparr>voice_reqs := q, req_cond := False\<rparr> else s\<lparr>voice_reqs := q\<rparr>) }"

section \<open>Results\<close>

fun poptype_to_restype :: "'t pop_result \<Rightarrow> res_type c" where
  "poptype_to_restype Pop_empty = None"
| "poptype_to_restype (Pop_data i d) = Some SPEECH_RES_INTER"
| "poptype_to_restype (Pop_start i) = Some SPEECH_RES_START"
| "poptype_to_restype (Pop_end i d) = Some SPEECH_RES_END"
| "poptype_to_restype (Pop_removed i) = Some SPEECH_RES_CANCELLED"
| "poptype_to_restype (Pop_error i e) = Some SPEECH_RES_ERROR"

text \<open>\<open>res.type >= SPEECH_RES_END\<close>\<close>

fun final_res :: "res_type \<Rightarrow> bool" where
  "final_res SPEECH_RES_INTER = False"
| "final_res SPEECH_RES_START = False"
| "final_res SPEECH_RES_ASR_FINISH = False"
| "final_res SPEECH_RES_END = True"
| "final_res SPEECH_RES_CANCELLED = True"
| "final_res SPEECH_RES_ERROR = True"

definition plain_result :: "int \<Rightarrow> res_type \<Rightarrow> nat \<Rightarrow> result" where
  "plain_result i t e = \<lparr>res_id = i, res_type = t, res_err = e, res_asr = [], res_nlp = [], res_action = [], res_extra = []\<rparr>"

definition fill_result :: "result_in option \<Rightarrow> result \<Rightarrow> result" where
  "fill_result resin r =
     (case resin of
        None \<Rightarrow> r
      | Some x \<Rightarrow> r\<lparr>res_type := (if asr_finish x then SPEECH_RES_ASR_FINISH else res_type r), res_asr := in_asr x,
          res_nlp := in_nlp x, res_action := in_action x, res_extra := in_extra x\<rparr>)"

datatype poll_ret = Polled result | Poll_wait | Poll_closed

text \<open>The operation that was cancelled or failed: what is left of its responses is dropped.\<close>

definition drop_responses :: "int \<Rightarrow> 'o speech \<Rightarrow> 'o speech c" where
  "drop_responses i s = do { q \<leftarrow> drop_stream i (responses s); Some (s\<lparr>responses := q\<rparr>) }"

text \<open>One round of the loop of \<open>poll\<close>.\<close>

definition poll_round :: "'o speech \<Rightarrow> (poll_ret \<times> 'o speech) c" where
  "poll_round s =
     (if \<not> initialized s then Some (Poll_closed, s)
      else (case front_op (ctl s) of
          None \<Rightarrow> Some (Poll_wait, s\<lparr>resp_cond := True\<rparr>)
        | Some k \<Rightarrow>
            let x = op_at (ctl s) k in
            if op_status x = CANCELLED \<or> op_status x = ERROR then do {
              s1 \<leftarrow> drop_responses (op_id x) s;
              Some (Polled (if op_status x = CANCELLED then plain_result (op_id x) SPEECH_RES_CANCELLED 0
                            else plain_result (op_id x) SPEECH_RES_ERROR (op_error x)),
                s1\<lparr>ctl := remove_front_op (ctl s1)\<rparr>) }
            else do {
              (r, q) \<leftarrow> sq_pop (responses s);
              let s1 = s\<lparr>responses := q\<rparr>;
              (if pop_id r = None then Some (Poll_wait, s1\<lparr>resp_cond := True\<rparr>)
               else if pop_id r \<noteq> Some (op_id x) then None
               else do {
                 t \<leftarrow> poptype_to_restype r;
                 let res = fill_result (pop_res None r) (plain_result (op_id x) t (pop_err 0 r));
                 Some (Polled res, if final_res (res_type res) then s1\<lparr>ctl := remove_front_op (ctl s1)\<rparr> else s1) }) }))"

section \<open>The sender\<close>

fun sqtype_to_reqtype :: "'t pop_result \<Rightarrow> req_type c" where
  "sqtype_to_reqtype Pop_empty = None"
| "sqtype_to_reqtype (Pop_data i d) = Some VOICE_DATA"
| "sqtype_to_reqtype (Pop_start i) = Some VOICE_START"
| "sqtype_to_reqtype (Pop_end i d) = Some VOICE_END"
| "sqtype_to_reqtype (Pop_removed i) = Some REQ_CANCELLED"
| "sqtype_to_reqtype (Pop_error i e) = Some VOICE_END"

definition do_ctl_change_op :: "'o req_info \<Rightarrow> int \<Rightarrow> 'o speech \<Rightarrow> (bool \<times> 'o speech) c" where
  "do_ctl_change_op req now s =
     (if req_type req = TEXT \<or> req_type req = VOICE_START then
        (if current_op (ctl s) \<noteq> None then None
         else Some (True, s\<lparr>ctl := new_op (req_id req) START now (ctl s)\<rparr>))
      else (case current_op (ctl s) of
          Some k \<Rightarrow>
            if req_type req = VOICE_END \<or> req_type req = VOICE_DATA then Some (True, s)
            else if req_type req = REQ_CANCELLED then
              Some (True, s\<lparr>ctl := clear_current_op (set_op k (\<lambda>x. x\<lparr>op_status := CANCELLED\<rparr>) (ctl s)), resp_cond := False\<rparr>)
            else Some (False, s)
        | None \<Rightarrow>
            if req_type req = REQ_CANCELLED then
              Some (False, s\<lparr>ctl := new_op (req_id req) CANCELLED now (ctl s), resp_cond := False\<rparr>)
            else Some (False, s)))"

text \<open>
  One round of \<open>send_reqs\<close> up to the request; \<open>voice\<close> is its local that keeps the last data.
\<close>

datatype 'o sender_next = Send_quit | Send_wait | Send_skip | Send_request "'o req_info"

definition take_request :: "'o req_info \<Rightarrow> int \<Rightarrow> 'o speech \<Rightarrow> ('o sender_next \<times> 'o speech) c" where
  "take_request info now s = do {
     (opr, s1) \<leftarrow> do_ctl_change_op info now s;
     Some (if opr then Send_request info else Send_skip, s1) }"

definition send_round :: "int \<Rightarrow> str option \<times> 'o speech \<Rightarrow> ('o sender_next \<times> str option \<times> 'o speech) c" where
  "send_round now = (\<lambda>(voice, s).
     (if \<not> initialized s then Some (Send_quit, voice, s)
      else do {
        (r, q) \<leftarrow> sq_pop (voice_reqs s);
        let s1 = s\<lparr>voice_reqs := q\<rparr>;
        (case pop_id r of
           Some i \<Rightarrow> do {
             t \<leftarrow> sqtype_to_reqtype r;
             opts \<leftarrow> sq_get_arg i q;
             let voice1 = pop_res voice r;
             (n, s2) \<leftarrow> take_request \<lparr>req_id = i, req_type = t, req_data = voice1, req_options = opts\<rparr> now s1;
             Some (n, voice1, s2) }
         | None \<Rightarrow>
             (case text_reqs s1 of
                info # rest \<Rightarrow> do {
                  (n, s2) \<leftarrow> take_request info now (s1\<lparr>text_reqs := rest\<rparr>);
                  Some (n, voice, s2) }
              | [] \<Rightarrow> Some (Send_wait, voice, s1\<lparr>req_cond := True\<rparr>))) }))"

text \<open>What is sent to the server; the contents of \<open>req_config\<close> beyond the options of the call are left out.\<close>

datatype wire_type = W_TEXT | W_START | W_END | W_VOICE

record 'o wire_req =
  w_id :: int
  w_type :: wire_type
  w_data :: "str option"
  w_config :: "'o option option"

fun wire_of :: "'o req_info \<Rightarrow> 'o wire_req c" where
  "wire_of req =
     (case req_type req of
        TEXT \<Rightarrow> map_option (\<lambda>d. \<lparr>w_id = req_id req, w_type = W_TEXT, w_data = Some d, w_config = Some (req_options req)\<rparr>) (req_data req)
      | VOICE_START \<Rightarrow> Some \<lparr>w_id = req_id req, w_type = W_START, w_data = None, w_config = Some (req_options req)\<rparr>
      | VOICE_END \<Rightarrow> Some \<lparr>w_id = req_id req, w_type = W_END, w_data = None, w_config = None\<rparr>
      | REQ_CANCELLED \<Rightarrow> Some \<lparr>w_id = req_id req, w_type = W_END, w_data = None, w_config = None\<rparr>
      | VOICE_DATA \<Rightarrow> map_option (\<lambda>d. \<lparr>w_id = req_id req, w_type = W_VOICE, w_data = Some d, w_config = None\<rparr>) (req_data req))"

text \<open>\<open>do_request\<close> with the result \<open>r\<close> of the connection.\<close>

definition do_request :: "'o req_info \<Rightarrow> conn_result \<Rightarrow> int \<Rightarrow> 'o speech \<Rightarrow> (int \<times> 'o wire_req \<times> 'o speech) c" where
  "do_request req r now s = do {
     w \<leftarrow> wire_of req;
     (if r \<noteq> SUCCESS then do {
        let err = (if r = CONNECTION_NOT_AVAILABLE then SPEECH_SERVICE_UNAVAILABLE else SPEECH_UNKNOWN);
        s1 \<leftarrow> erase_req (req_id req) (s\<lparr>ctl := set_op_error err (ctl s), resp_cond := False\<rparr>);
        Some (-1, w, s1) }
      else Some (if req_type req = TEXT \<or> req_type req = VOICE_END then 0 else 1, w,
        s\<lparr>ctl := refresh_op_time False now (ctl s)\<rparr>)) }"

section \<open>The receiver\<close>

definition respond :: "int \<Rightarrow> result_in \<Rightarrow> 'o speech \<Rightarrow> 'o speech c" where
  "respond i r s = do { (_, q) \<leftarrow> sq_stream i (Some r) (responses s); Some (s\<lparr>responses := q\<rparr>) }"

text \<open>\<open>resp_cond_\<close> is notified when \<open>new_data\<close> is set, but not for an invalid type.\<close>

definition respond_typed :: "nat \<Rightarrow> response \<Rightarrow> 'o speech \<Rightarrow> 'o speech c" where
  "respond_typed k resp s =
     (case resp_type resp of
        RT_INTERMEDIATE \<Rightarrow> do {
          s1 \<leftarrow> respond (resp_id resp) (no_result\<lparr>in_asr := resp_asr resp\<rparr>) s;
          Some (s1\<lparr>resp_cond := False\<rparr>) }
      | RT_ASR_FINISH \<Rightarrow> do {
          s1 \<leftarrow> respond (resp_id resp) (no_result\<lparr>in_asr := resp_asr resp, asr_finish := True\<rparr>) s;
          Some (s1\<lparr>resp_cond := False\<rparr>) }
      | RT_FINISH \<Rightarrow> do {
          s1 \<leftarrow> (if resp_result resp = 0 then do {
                    (_, q) \<leftarrow> sq_end (resp_id resp) (Some (no_result\<lparr>in_nlp := resp_nlp resp, in_action := resp_action resp\<rparr>)) (responses s);
                    Some (s\<lparr>responses := q, ctl := finish_op (set_op k (\<lambda>x. x\<lparr>op_status := END\<rparr>) (ctl s))\<rparr>) }
                 else do {
                    (_, q) \<leftarrow> sq_erase (resp_id resp) (resp_result resp) (responses s);
                    Some (s\<lparr>responses := q, ctl := finish_op (ctl s)\<rparr>) });
          s2 \<leftarrow> erase_req (resp_id resp) s1;
          Some (s2\<lparr>resp_cond := False\<rparr>) }
      | RT_other t \<Rightarrow> Some s)"

definition gen_result_by_resp :: "response \<Rightarrow> 'o speech \<Rightarrow> 'o speech c" where
  "gen_result_by_resp resp s =
     (case current_op (ctl s) of
        None \<Rightarrow> Some s
      | Some k \<Rightarrow>
          let x = op_at (ctl s) k in
          if op_id x \<noteq> resp_id resp \<or> op_status x = CANCELLED \<or> op_status x = ERROR then Some s
          else do {
            s1 \<leftarrow> (if op_status x = START then do {
                      (_, q) \<leftarrow> sq_start (resp_id resp) (responses s);
                      Some (s\<lparr>responses := q, ctl := set_op k (\<lambda>x. x\<lparr>op_status := STREAMING\<rparr>) (ctl s)\<rparr>) }
                   else Some s);
            s2 \<leftarrow> (if resp_extra resp \<noteq> [] then respond (resp_id resp) (no_result\<lparr>in_extra := resp_extra resp\<rparr>) s1
                   else Some s1);
            respond_typed k resp s2 })"

text \<open>One round of \<open>gen_results\<close>: the timeout given to the connection, and what its result does.\<close>

definition recv_timeout :: "int \<Rightarrow> 'o speech \<Rightarrow> int" where
  "recv_timeout now s = op_timeout now (ctl s)"

datatype recv_next = Recv_loop | Recv_erase int | Recv_quit

definition fail_current :: "nat \<Rightarrow> 'o speech \<Rightarrow> 'o speech" where
  "fail_current err s = s\<lparr>ctl := set_op_error err (ctl s), resp_cond := False\<rparr>"

definition recv_round :: "conn_result \<Rightarrow> response \<Rightarrow> int \<Rightarrow> 'o speech \<Rightarrow> (recv_next \<times> 'o speech) c" where
  "recv_round r resp now s =
     (if r = NOT_READY then Some (Recv_quit, s)
      else if r = SUCCESS then do {
        s1 \<leftarrow> gen_result_by_resp resp (s\<lparr>ctl := refresh_op_time True now (ctl s)\<rparr>);
        Some (Recv_loop, s1) }
      else if r = TIMEOUT then
        (if op_timeout now (ctl s) = 0 then
           (case current_op (ctl s) of
              None \<Rightarrow> None
            | Some k \<Rightarrow> Some (Recv_erase (op_id (op_at (ctl s) k)), fail_current SPEECH_TIMEOUT s))
         else Some (Recv_loop, s))
      else
        (let n = (case current_op (ctl s) of None \<Rightarrow> Recv_loop | Some k \<Rightarrow> Recv_erase (op_id (op_at (ctl s) k)));
             err = (if r = CONNECTION_BROKEN then SPEECH_SERVICE_UNAVAILABLE else SPEECH_UNKNOWN) in
         Some (n, fail_current err s)))"

section \<open>Release\<close>

text \<open>The two critical sections of \<open>release\<close>, before and after the sender has quit.\<close>

definition release_reqs :: "'o speech \<Rightarrow> 'o speech" where
  "release_reqs s =
     (if initialized s
      then s\<lparr>initialized := False, voice_reqs := sq_close (voice_reqs s), text_reqs := [], req_cond := False\<rparr> else s)"

definition release_resps :: "'o speech \<Rightarrow> 'o speech" where
  "release_resps s = s\<lparr>responses := sq_close (responses s), ctl := finish_op (ctl s), resp_cond := False\<rparr>"

section \<open>The threads together\<close>

text \<open>
  The sender is at the head of its loop, about to send, or about to wait for the end of an
  operation; it goes on from its waits when it was notified, or after a spurious wake-up. The sender's wait for a
  request and the wait of \<open>poll\<close> are loops, its wait for the end of an operation is not. The receiver is in its loop or about
  to erase the requests of a failed operation.
\<close>

datatype 'o sender = S_loop | S_request "'o req_info" | S_finish int | S_quit

record 'o client =
  sp :: "'o speech"
  snd_at :: "'o sender"
  snd_voice :: "str option"
  rcv_at :: recv_next

definition client_init :: "'o client" where
  "client_init = \<lparr>sp = speech_init, snd_at = S_loop, snd_voice = None, rcv_at = Recv_loop\<rparr>"

datatype 'o app_call = Call_text "str option" "'o option" int | Call_start "'o option" int | Call_voice int "str option" | Call_end int
  | Call_cancel int | Call_release | Call_released

text \<open>\<open>E_spurious\<close> is a spurious wake-up from the wait for the end of an operation.\<close>

datatype 'o event = E_call "'o app_call" | E_poll poll_ret | E_take | E_sent "'o wire_req" | E_other | E_spurious

fun sender_pc :: "'o sender_next \<Rightarrow> 'o sender" where
  "sender_pc Send_quit = S_quit"
| "sender_pc Send_wait = S_loop"
| "sender_pc Send_skip = S_loop"
| "sender_pc (Send_request info) = S_request info"

inductive client_step :: "'o client \<Rightarrow> 'o event \<Rightarrow> 'o client \<Rightarrow> bool" where
  put_text: "put_text t opts (sp c) = Some (i, s) \<Longrightarrow> client_step c (E_call (Call_text t opts i)) (c\<lparr>sp := s\<rparr>)"
| start_voice: "start_voice opts (sp c) = Some (i, s) \<Longrightarrow> client_step c (E_call (Call_start opts i)) (c\<lparr>sp := s\<rparr>)"
| put_voice: "put_voice i d (sp c) = Some s \<Longrightarrow> client_step c (E_call (Call_voice i d)) (c\<lparr>sp := s\<rparr>)"
| end_voice: "end_voice i (sp c) = Some s \<Longrightarrow> client_step c (E_call (Call_end i)) (c\<lparr>sp := s\<rparr>)"
| cancel: "cancel i (sp c) = Some s \<Longrightarrow> client_step c (E_call (Call_cancel i)) (c\<lparr>sp := s\<rparr>)"
| poll: "\<not> resp_cond (sp c) \<Longrightarrow> poll_round (sp c) = Some (r, s) \<Longrightarrow> client_step c (E_poll r) (c\<lparr>sp := s\<rparr>)"
| take: "snd_at c = S_loop \<Longrightarrow> \<not> req_cond (sp c) \<Longrightarrow> \<not> op_cond (ctl (sp c)) \<Longrightarrow>
    send_round now (snd_voice c, sp c) = Some (n, v, s) \<Longrightarrow>
    client_step c E_take (c\<lparr>sp := s, snd_voice := v, snd_at := sender_pc n\<rparr>)"
| send: "snd_at c = S_request req \<Longrightarrow> do_request req r now (sp c) = Some (rv, w, s) \<Longrightarrow>
    client_step c (E_sent w) (c\<lparr>sp := s, snd_at := (if rv = 0 then S_finish (req_id req) else S_loop)\<rparr>)"
| wait: "snd_at c = S_finish i \<Longrightarrow>
    client_step c E_other (c\<lparr>sp := (sp c)\<lparr>ctl := wait_op_finish i (ctl (sp c))\<rparr>, snd_at := S_loop\<rparr>)"
| recv: "rcv_at c = Recv_loop \<Longrightarrow> recv_round r resp now (sp c) = Some (n, s) \<Longrightarrow>
    client_step c E_other (c\<lparr>sp := s, rcv_at := n\<rparr>)"
| erase: "rcv_at c = Recv_erase i \<Longrightarrow> erase_req i (sp c) = Some s \<Longrightarrow>
    client_step c E_other (c\<lparr>sp := s, rcv_at := Recv_loop\<rparr>)"
| release: "client_step c (E_call Call_release) (c\<lparr>sp := release_reqs (sp c)\<rparr>)"
| released: "\<not> initialized (sp c) \<Longrightarrow> snd_at c = S_quit \<Longrightarrow> client_step c (E_call Call_released) (c\<lparr>sp := release_resps (sp c)\<rparr>)"
| spurious: "snd_at c = S_loop \<Longrightarrow> op_cond (ctl (sp c)) \<Longrightarrow>
    client_step c E_spurious (c\<lparr>sp := (sp c)\<lparr>ctl := (ctl (sp c))\<lparr>op_cond := False\<rparr>\<rparr>\<rparr>)"
| woken_req: "client_step c E_other (c\<lparr>sp := (sp c)\<lparr>req_cond := False\<rparr>\<rparr>)"
| woken_resp: "client_step c E_other (c\<lparr>sp := (sp c)\<lparr>resp_cond := False\<rparr>\<rparr>)"

inductive_cases client_stepE: "client_step c e c'"

text \<open>The runs of the client are \<open>steps client_step\<close>.\<close>

end
