(* ===== verification/OpAnswers.thy ===== *)
theory OpAnswers
  imports OpCtl StreamQueue
begin

text \<open>
  The invariant of the operations of a client, what the functions of \<open>op_ctl.h\<close> keep of it, and how
  the streams of responses belong to the operations: the part of the invariants that the speech client
  and the text-to-speech client share. A client says by \<open>good\<close> which contents its streams may have.
\<close>

section \<open>Operations\<close>

definition ctl_ok :: "op_ctl \<Rightarrow> bool" where
  "ctl_ok c \<longleftrightarrow> sorted_wrt (<) (operations c) \<and> (\<forall>k \<in> set (operations c). k < length (heap c)) \<and>
     (\<forall>k \<in> set (operations c). op_status (op_at c k) \<in> {START, STREAMING} \<longrightarrow> current_op c = Some k) \<and>
     (\<forall>k. current_op c = Some k \<longrightarrow> operations c \<noteq> [] \<and> last (operations c) = k \<and>
        op_status (op_at c k) \<in> {START, STREAMING} \<and> (\<forall>j \<in> set (operations c). op_id (op_at c j) = op_id (op_at c k) \<longrightarrow> j = k))"

definition op_ids :: "op_ctl \<Rightarrow> int set" where
  "op_ids c = op_id ` set (heap c)"

text \<open>A change that cancels or fails operations and keeps the rest; it may clear the current one.\<close>

definition relabel :: "op_ctl \<Rightarrow> op_ctl \<Rightarrow> bool" where
  "relabel c c' \<longleftrightarrow> operations c' = operations c \<and> length (heap c') = length (heap c) \<and>
     (\<forall>k. op_id (op_at c' k) = op_id (op_at c k)) \<and>
     (\<forall>k. op_status (op_at c' k) \<in> {op_status (op_at c k), CANCELLED, ERROR}) \<and> current_op c' \<in> {current_op c, None} \<and>
     (op_cond c' = op_cond c \<or> \<not> op_cond c' \<and> current_op c' = None)"

lemma op_at_set_op: "op_at (set_op k f c) j = (if j = k \<and> k < length (heap c) then f (op_at c k) else op_at c j)"
  by (cases "k < length (heap c)") (simp_all add: op_at_def set_op_def nth_list_update list_update_beyond)

lemma set_op_simps [simp]:
  "operations (set_op k f c) = operations c" "current_op (set_op k f c) = current_op c" "op_cond (set_op k f c) = op_cond c"
  "length (heap (set_op k f c)) = length (heap c)"
  by (simp_all add: set_op_def)

lemma op_at_updates [simp]:
  "op_at (c\<lparr>current_op := o1\<rparr>) k = op_at c k" "op_at (c\<lparr>op_cond := b\<rparr>) k = op_at c k" "op_at (c\<lparr>operations := xs\<rparr>) k = op_at c k"
  by (simp_all add: op_at_def)

lemma op_ids_eq:
  assumes "length (heap c') = length (heap c)" "\<And>k. op_id (op_at c' k) = op_id (op_at c k)"
  shows "op_ids c' = op_ids c"
  using assms unfolding op_ids_def op_at_def by (metis (no_types, lifting) in_set_conv_nth image_cong length_map list.set_map map_equality_iff nth_map)

lemma relabel_refl [simp]: "relabel c c"
  by (simp add: relabel_def)

lemma relabel_op_ids: "relabel c c' \<Longrightarrow> op_ids c' = op_ids c"
  by (rule op_ids_eq) (simp_all add: relabel_def)

lemma ctl_okD:
  assumes "ctl_ok c"
  shows "sorted_wrt (<) (operations c)" "k \<in> set (operations c) \<Longrightarrow> k < length (heap c)"
    "k \<in> set (operations c) \<Longrightarrow> op_status (op_at c k) \<in> {START, STREAMING} \<Longrightarrow> current_op c = Some k"
    "current_op c = Some k \<Longrightarrow> last (operations c) = k" "current_op c = Some k \<Longrightarrow> k \<in> set (operations c)"
    "current_op c = Some k \<Longrightarrow> op_status (op_at c k) \<in> {START, STREAMING}"
    "current_op c = Some k \<Longrightarrow> j \<in> set (operations c) \<Longrightarrow> op_id (op_at c j) = op_id (op_at c k) \<Longrightarrow> j = k"
  using assms unfolding ctl_ok_def by (auto dest: last_in_set)

text \<open>A relabelling keeps the invariant when the current operation is cleared exactly if it was changed.\<close>

lemma relabel_ctl_ok:
  assumes "ctl_ok c" "relabel c c'"
    and "\<And>k. current_op c = Some k \<Longrightarrow> current_op c' = None \<Longrightarrow> op_status (op_at c' k) \<in> {CANCELLED, ERROR}"
    and "\<And>k. current_op c = Some k \<Longrightarrow> current_op c' = Some k \<Longrightarrow> op_status (op_at c' k) = op_status (op_at c k)"
  shows "ctl_ok c'"
proof -
  have r: "operations c' = operations c" "length (heap c') = length (heap c)" "\<And>k. op_id (op_at c' k) = op_id (op_at c k)"
    "\<And>k. op_status (op_at c' k) \<in> {op_status (op_at c k), CANCELLED, ERROR}" "current_op c' = current_op c \<or> current_op c' = None"
    using assms(2) by (auto simp: relabel_def)
  note o = ctl_okD [OF assms(1)]
  have "current_op c' = Some k" if "k \<in> set (operations c)" "op_status (op_at c' k) \<in> {START, STREAMING}" for k
  proof -
    have "op_status (op_at c k) \<in> {START, STREAMING}" using r(4) [of k] that(2) by auto
    then have "current_op c = Some k" using o(3) that(1) by blast
    then show ?thesis using assms(3) [of k] r(5) that(2) by auto
  qed
  moreover have "operations c \<noteq> [] \<and> last (operations c) = k \<and> op_status (op_at c' k) \<in> {START, STREAMING}
      \<and> (\<forall>j \<in> set (operations c). op_id (op_at c j) = op_id (op_at c k) \<longrightarrow> j = k)" if "current_op c' = Some k" for k
  proof -
    have k: "current_op c = Some k" using r(5) that by auto
    then show ?thesis using assms(4) [OF k that] o(4-7) [OF k] by auto
  qed
  ultimately show ?thesis using o(1,2) unfolding ctl_ok_def r(1-3) by blast
qed

lemma set_op_error_ok:
  assumes "ctl_ok c"
  shows "relabel c (set_op_error e c)" "ctl_ok (set_op_error e c)" "current_op (set_op_error e c) = None"
proof -
  show r: "relabel c (set_op_error e c)"
    by (auto simp: relabel_def set_op_error_def op_at_set_op split: option.split)
  show n: "current_op (set_op_error e c) = None" by (simp add: set_op_error_def split: option.split)
  show "ctl_ok (set_op_error e c)"
  proof (rule relabel_ctl_ok [OF assms r])
    fix k assume k: "current_op c = Some k"
    then have "k < length (heap c)" using ctl_okD(2,5) [OF assms] by blast
    then show "op_status (op_at (set_op_error e c) k) \<in> {CANCELLED, ERROR}" using k by (simp add: set_op_error_def op_at_set_op)
  qed (use n in simp)
qed

lemma refresh_ok:
  assumes "ctl_ok c"
  shows "relabel c (refresh_op_time b now c)" "ctl_ok (refresh_op_time b now c)" "current_op (refresh_op_time b now c) = current_op c"
proof -
  show r: "relabel c (refresh_op_time b now c)"
    by (auto simp: relabel_def refresh_op_time_def op_at_set_op split: option.split)
  show n: "current_op (refresh_op_time b now c) = current_op c" by (simp add: refresh_op_time_def split: option.split)
  show "ctl_ok (refresh_op_time b now c)"
    by (rule relabel_ctl_ok [OF assms r]) (simp_all add: n refresh_op_time_def op_at_set_op)
qed

lemma cancel_current_ok:
  assumes "ctl_ok c" "current_op c = Some k"
  shows "relabel c (clear_current_op (set_op k (\<lambda>x. x\<lparr>op_status := CANCELLED\<rparr>) c))"
    "ctl_ok (clear_current_op (set_op k (\<lambda>x. x\<lparr>op_status := CANCELLED\<rparr>) c))"
proof -
  let ?c = "clear_current_op (set_op k (\<lambda>x. x\<lparr>op_status := CANCELLED\<rparr>) c)"
  show r: "relabel c ?c" by (auto simp: relabel_def clear_current_op_def op_at_set_op)
  have "k < length (heap c)" using ctl_okD(2,5) [OF assms(1)] assms(2) by blast
  then show "ctl_ok ?c" using assms(2)
    by (intro relabel_ctl_ok [OF assms(1) r]) (simp_all add: clear_current_op_def op_at_set_op)
qed

text \<open>What the loop of \<open>cancel_op\<close> did to the operations \<open>ks\<close>.\<close>

definition cancelled_in :: "nat list \<Rightarrow> op_ctl \<Rightarrow> bool \<Rightarrow> op_ctl \<Rightarrow> bool" where
  "cancelled_in ks c hit c' \<longleftrightarrow>
     operations c' = operations c \<and> length (heap c') = length (heap c) \<and> current_op c' = current_op c \<and> op_cond c' = op_cond c \<and>
     (\<forall>k. op_id (op_at c' k) = op_id (op_at c k)) \<and>
     (\<forall>k. op_status (op_at c' k) = op_status (op_at c k) \<or> k \<in> set ks \<and> op_status (op_at c' k) = CANCELLED) \<and>
     (\<forall>k. current_op c = Some k \<longrightarrow> op_status (op_at c' k) \<noteq> op_status (op_at c k) \<longrightarrow> hit) \<and>
     (hit \<longrightarrow> (\<exists>k j. current_op c = Some k \<and> j \<in> set ks \<and> op_id (op_at c j) = op_id (op_at c k) \<and>
        op_status (op_at c' j) = CANCELLED))"

lemma cancelled_in_Cons:
  assumes "cancelled_in ks (set_op k (\<lambda>x. x\<lparr>op_status := CANCELLED\<rparr>) c) n c'" "k < length (heap c)"
    and "h \<longleftrightarrow> (\<exists>j. current_op c = Some j \<and> op_id (op_at c j) = op_id (op_at c k))"
  shows "cancelled_in (k # ks) c (h \<or> n) c'"
  unfolding cancelled_in_def
proof (intro conjI)
  let ?c = "set_op k (\<lambda>x. x\<lparr>op_status := CANCELLED\<rparr>) c"
  have i: "op_id (op_at ?c j) = op_id (op_at c j)" for j by (simp add: op_at_set_op)
  note a = assms(1) [unfolded cancelled_in_def i set_op_simps]
  show "operations c' = operations c" "length (heap c') = length (heap c)" "current_op c' = current_op c" "op_cond c' = op_cond c"
    "\<forall>k. op_id (op_at c' k) = op_id (op_at c k)"
    using a by blast+
  have st: "op_status (op_at c' j) = op_status (op_at ?c j) \<or> j \<in> set ks \<and> op_status (op_at c' j) = CANCELLED" for j
    using a by blast
  have ck: "op_status (op_at c' k) = CANCELLED" using st [of k] assms(2) by (auto simp: op_at_set_op)
  show "\<forall>j. op_status (op_at c' j) = op_status (op_at c j) \<or> j \<in> set (k # ks) \<and> op_status (op_at c' j) = CANCELLED"
  proof
    fix j
    show "op_status (op_at c' j) = op_status (op_at c j) \<or> j \<in> set (k # ks) \<and> op_status (op_at c' j) = CANCELLED"
      using st [of j] ck by (cases "j = k") (auto simp: op_at_set_op)
  qed
  show "\<forall>j. current_op c = Some j \<longrightarrow> op_status (op_at c' j) \<noteq> op_status (op_at c j) \<longrightarrow> h \<or> n"
  proof (intro allI impI)
    fix j assume j: "current_op c = Some j" "op_status (op_at c' j) \<noteq> op_status (op_at c j)"
    show "h \<or> n"
    proof (cases "j = k")
      case True
      then show ?thesis using assms(3) j(1) by auto
    next
      case False
      then have "op_status (op_at c' j) \<noteq> op_status (op_at ?c j)" using j(2) by (simp add: op_at_set_op)
      then show ?thesis using a j(1) by blast
    qed
  qed
  show "h \<or> n \<longrightarrow> (\<exists>m j. current_op c = Some m \<and> j \<in> set (k # ks) \<and> op_id (op_at c j) = op_id (op_at c m) \<and>
      op_status (op_at c' j) = CANCELLED)"
  proof
    assume "h \<or> n"
    then show "\<exists>m j. current_op c = Some m \<and> j \<in> set (k # ks) \<and> op_id (op_at c j) = op_id (op_at c m) \<and>
      op_status (op_at c' j) = CANCELLED"
    proof
      assume h
      then obtain j where "current_op c = Some j" "op_id (op_at c k) = op_id (op_at c j)" using assms(3) by auto
      then show ?thesis using ck by (intro exI [of _ j] exI [of _ k]) simp
    next
      assume n
      then obtain m j where "current_op c = Some m" "j \<in> set ks" "op_id (op_at c j) = op_id (op_at c m)"
        "op_status (op_at c' j) = CANCELLED" using a by blast
      then show ?thesis by (intro exI [of _ m] exI [of _ j]) simp
    qed
  qed
qed

lemma cancelled_in_skip: "cancelled_in ks c n c' \<Longrightarrow> cancelled_in (k # ks) c n c'"
  unfolding cancelled_in_def by (auto simp del: not_None_eq)

lemma cancelled_in_Nil: "cancelled_in ks c False c"
  by (simp add: cancelled_in_def)

lemma cancel_loop_ok:
  "cancel_loop i ks c = (hit, c') \<Longrightarrow> set ks \<subseteq> {..<length (heap c)} \<Longrightarrow> cancelled_in ks c hit c'"
proof (induction ks arbitrary: c hit c')
  case Nil
  then show ?case by (simp add: cancelled_in_Nil)
next
  case (Cons k ks)
  let ?c = "set_op k (\<lambda>x. x\<lparr>op_status := CANCELLED\<rparr>) c"
  let ?h = "case current_op ?c of None \<Rightarrow> False | Some j \<Rightarrow> op_id (op_at ?c j) = op_id (op_at ?c k)"
  have k: "k < length (heap c)" using Cons.prems(2) by simp
  have h: "?h \<longleftrightarrow> (\<exists>j. current_op c = Some j \<and> op_id (op_at c j) = op_id (op_at c k))"
    by (auto simp: op_at_set_op split: option.split)
  consider "\<not> (i \<le> 0 \<or> i = op_id (op_at c k))" | "i \<le> 0 \<or> i = op_id (op_at c k)" "0 < i" | "i \<le> 0" by linarith
  then show ?case
  proof cases
    case 1
    then show ?thesis using Cons by (intro cancelled_in_skip) simp
  next
    case 2
    then have "cancel_loop i (k # ks) c = (?h, ?c)" by (simp add: Let_def)
    then have e: "hit = ?h" "c' = ?c" using Cons.prems(1) by (metis prod.inject)+
    show ?thesis using cancelled_in_Cons [OF cancelled_in_Nil k h, of ks] unfolding e by (simp only: simp_thms)
  next
    case 3
    obtain n c2 where n: "cancel_loop i ks ?c = (n, c2)" by fastforce
    then have e: "c' = c2" "hit \<longleftrightarrow> ?h \<or> n" using Cons.prems(1) 3 by (simp_all add: Let_def)
    have "cancelled_in ks ?c n c2" using Cons.IH [OF n] Cons.prems(2) by simp
    from cancelled_in_Cons [OF this k h] show ?thesis unfolding e by blast
  qed
qed

lemma cancel_op_ok:
  assumes "ctl_ok c" "cancel_op i cnd c = (cnd', c')"
  shows "relabel c c'" "ctl_ok c'"
proof -
  obtain hit c1 where l: "cancel_loop i (operations c) c = (hit, c1)" by fastforce
  have "set (operations c) \<subseteq> {..<length (heap c)}" using ctl_okD(2) [OF assms(1)] by auto
  note a = cancel_loop_ok [OF l this, unfolded cancelled_in_def]
  have e: "c' = (if hit then c1\<lparr>current_op := None, op_cond := False\<rparr> else c1)"
    using assms(2) l by (auto simp: cancel_op_def split: bool.splits)
  show r: "relabel c c'" using a unfolding relabel_def e by (cases hit) auto
  show "ctl_ok c'"
  proof (rule relabel_ctl_ok [OF assms(1) r])
    fix k assume k: "current_op c = Some k"
    {
      assume "current_op c' = None"
      then have hit using k a e by (cases hit) auto
      then obtain j where "j \<in> set (operations c)" "op_id (op_at c j) = op_id (op_at c k)" "op_status (op_at c1 j) = CANCELLED"
        using a k by auto
      then show "op_status (op_at c' k) \<in> {CANCELLED, ERROR}" using ctl_okD(7) [OF assms(1) k] e by auto
    next
      assume "current_op c' = Some k"
      then have "\<not> hit" using e by auto
      then show "op_status (op_at c' k) = op_status (op_at c k)" using a k e by auto
    }
  qed
qed

text \<open>A new operation, at the back of the list.\<close>

lemma new_op_ok:
  assumes "ctl_ok c" "current_op c = None" "s = START \<or> s = CANCELLED" "s = START \<longrightarrow> i \<notin> op_ids c"
  shows "ctl_ok (new_op i s now c)" "operations (new_op i s now c) = operations c @ [length (heap c)]"
    "op_ids (new_op i s now c) = insert i (op_ids c)" "op_cond (new_op i s now c) = op_cond c"
    "k < length (heap c) \<Longrightarrow> op_at (new_op i s now c) k = op_at c k"
    "op_id (op_at (new_op i s now c) (length (heap c))) = i" "op_status (op_at (new_op i s now c) (length (heap c))) = s"
    "current_op (new_op i s now c) = (if s = START then Some (length (heap c)) else None)"
proof -
  let ?c = "new_op i s now c" and ?n = "length (heap c)"
  show f: "operations ?c = operations c @ [?n]" "op_ids ?c = insert i (op_ids c)" "op_cond ?c = op_cond c"
    "op_id (op_at ?c ?n) = i" "op_status (op_at ?c ?n) = s" "current_op ?c = (if s = START then Some ?n else None)"
    using assms(2) by (simp_all add: new_op_def Let_def op_ids_def op_at_def)
  show g: "op_at ?c k = op_at c k" if "k < ?n" for k using that by (simp add: new_op_def Let_def op_at_def nth_append)
  have l: "length (heap ?c) = Suc ?n" by (simp add: new_op_def Let_def)
  note o = ctl_okD [OF assms(1)]
  have new: "op_id (op_at c j) \<noteq> i" if "s = START" "j \<in> set (operations c)" for j
    using assms(4) that(1) o(2) [OF that(2)] by (auto simp: op_ids_def op_at_def)
  have st: "op_status (op_at c j) \<notin> {START, STREAMING}" if "j \<in> set (operations c)" for j
    using o(3) [OF that] assms(2) by auto
  have lt: "j < ?n" if "j \<in> set (operations c)" for j using o(2) [OF that] .
  show "ctl_ok ?c"
    unfolding ctl_ok_def
  proof (intro conjI allI impI ballI)
    show "sorted_wrt (<) (operations ?c)" using o(1) lt by (simp add: f sorted_wrt_append)
    show "k < length (heap ?c)" if "k \<in> set (operations ?c)" for k using that lt by (auto simp: f l less_Suc_eq)
    show "current_op ?c = Some k" if "k \<in> set (operations ?c)" "op_status (op_at ?c k) \<in> {START, STREAMING}" for k
      using that st lt g assms(3) f by auto
    fix k assume k: "current_op ?c = Some k"
    then have s: "s = START" "k = ?n" by (simp_all add: f split: if_splits)
    show "operations ?c \<noteq> []" "last (operations ?c) = k" "op_status (op_at ?c k) \<in> {START, STREAMING}"
      using s f by simp_all
    show "j = k" if "j \<in> set (operations ?c)" "op_id (op_at ?c j) = op_id (op_at ?c k)" for j
      using that new [OF s(1)] s lt g f by auto
  qed
qed

text \<open>The current operation starts streaming, or is finished.\<close>

lemma streaming_ok:
  assumes "ctl_ok c" "current_op c = Some k"
  shows "ctl_ok (set_op k (\<lambda>x. x\<lparr>op_status := STREAMING\<rparr>) c)"
proof -
  let ?c = "set_op k (\<lambda>x. x\<lparr>op_status := STREAMING\<rparr>) c"
  note o = ctl_okD [OF assms(1)]
  have l: "k < length (heap c)" using o(2,5) assms(2) by blast
  have i: "op_id (op_at ?c j) = op_id (op_at c j)" for j by (simp add: op_at_set_op)
  show ?thesis
    unfolding ctl_ok_def i set_op_simps
  proof (intro conjI allI impI ballI)
    show "sorted_wrt (<) (operations c)" by (rule o(1))
    show "j < length (heap c)" if "j \<in> set (operations c)" for j using o(2) that by blast
    show "current_op c = Some j" if "j \<in> set (operations c)" "op_status (op_at ?c j) \<in> {START, STREAMING}" for j
      using that o(3) [of j] assms(2) by (cases "j = k") (auto simp: op_at_set_op)
    fix j assume j: "current_op c = Some j"
    show "operations c \<noteq> []" "last (operations c) = j" using o(4,5) [OF j] by auto
    show "op_status (op_at ?c j) \<in> {START, STREAMING}" using j assms(2) l by (simp add: op_at_set_op)
    show "m = j" if "m \<in> set (operations c)" "op_id (op_at c m) = op_id (op_at c j)" for m
      by (rule o(7) [OF j that])
  qed
qed

definition finished :: "nat \<Rightarrow> op_ctl \<Rightarrow> op_ctl \<Rightarrow> bool" where
  "finished k c c' \<longleftrightarrow> operations c' = operations c \<and> length (heap c') = length (heap c) \<and> current_op c' = None \<and> \<not> op_cond c' \<and>
     (\<forall>j. op_id (op_at c' j) = op_id (op_at c j)) \<and>
     (\<forall>j. op_status (op_at c' j) = (if j = k then END else op_status (op_at c j)))"

lemma finished_ok: "ctl_ok c \<Longrightarrow> current_op c = Some k \<Longrightarrow> finished k c c' \<Longrightarrow> ctl_ok c'"
proof -
  assume a: "ctl_ok c" "current_op c = Some k" "finished k c c'"
  note o = ctl_okD [OF a(1)]
  show "ctl_ok c'" using o(1-3) a(2,3) unfolding ctl_ok_def finished_def by auto
qed

lemma finish_op_finished:
  assumes "ctl_ok c" "current_op c = Some k"
  shows "finished k c (finish_op c)" "finished k c (finish_op (set_op k (\<lambda>x. x\<lparr>op_status := END\<rparr>) c))"
proof -
  have "k < length (heap c)" "op_status (op_at c k) \<in> {START, STREAMING}"
    using ctl_okD(2,5,6) [OF assms(1)] assms(2) by blast+
  then show "finished k c (finish_op c)" "finished k c (finish_op (set_op k (\<lambda>x. x\<lparr>op_status := END\<rparr>) c))"
    using assms(2) by (auto simp: finished_def finish_op_def op_at_set_op)
qed

lemma remove_front_ok:
  assumes "ctl_ok c" "operations c = k # ks" "op_status (op_at c k) \<notin> {START, STREAMING}"
  shows "ctl_ok (remove_front_op c)" "operations (remove_front_op c) = ks" "op_at (remove_front_op c) = op_at c"
    "op_ids (remove_front_op c) = op_ids c" "current_op (remove_front_op c) = current_op c" "op_cond (remove_front_op c) = op_cond c"
proof -
  show f: "operations (remove_front_op c) = ks" "op_at (remove_front_op c) = op_at c" "op_ids (remove_front_op c) = op_ids c"
    "current_op (remove_front_op c) = current_op c" "op_cond (remove_front_op c) = op_cond c"
    using assms(2) by (auto simp: remove_front_op_def op_at_def op_ids_def)
  note o = ctl_okD [OF assms(1)]
  have cur: "j \<in> set ks" "last ks = j" if "current_op c = Some j" for j
  proof -
    have "j \<noteq> k" using o(6) [OF that] assms(3) by auto
    then show "j \<in> set ks" using o(5) [OF that] assms(2) by simp
    then show "last ks = j" using o(4) [OF that] assms(2) by auto
  qed
  have l: "heap (remove_front_op c) = heap c" by (simp add: remove_front_op_def)
  show "ctl_ok (remove_front_op c)"
    unfolding ctl_ok_def f l
  proof (intro conjI allI impI ballI)
    show "sorted_wrt (<) ks" using o(1) assms(2) by simp
    show "j < length (heap c)" if "j \<in> set ks" for j using o(2) assms(2) that by simp
    show "current_op c = Some j" if "j \<in> set ks" "op_status (op_at c j) \<in> {START, STREAMING}" for j
      using o(3) [of j] assms(2) that by simp
    fix j assume j: "current_op c = Some j"
    show "ks \<noteq> []" "last ks = j" "op_status (op_at c j) \<in> {START, STREAMING}" using cur [OF j] o(6) [OF j] by auto
    show "m = j" if "m \<in> set ks" "op_id (op_at c m) = op_id (op_at c j)" for m using o(7) [OF j] that assms(2) by simp
  qed
qed

text \<open>What every change keeps that starts no operation.\<close>

definition ctl_same :: "op_ctl \<Rightarrow> op_ctl \<Rightarrow> bool" where
  "ctl_same c c' \<longleftrightarrow> (\<forall>k. op_id (op_at c' k) = op_id (op_at c k)) \<and> op_ids c' = op_ids c \<and> current_op c' \<in> {current_op c, None} \<and>
     (op_cond c' = op_cond c \<or> \<not> op_cond c' \<and> current_op c' = None)"

lemma ctl_same_refl [simp]: "ctl_same c c"
  by (simp add: ctl_same_def)

lemma ctl_same_trans: "ctl_same c1 c2 \<Longrightarrow> ctl_same c2 c3 \<Longrightarrow> ctl_same c1 c3"
  by (auto simp: ctl_same_def)

lemma relabel_same: "relabel c c' \<Longrightarrow> ctl_same c c'"
  using relabel_op_ids [of c c'] unfolding relabel_def ctl_same_def by blast

lemma op_cond_irrelevant [simp]: "ctl_ok (c\<lparr>op_cond := b\<rparr>) = ctl_ok c" "op_ids (c\<lparr>op_cond := b\<rparr>) = op_ids c"
  by (simp_all add: ctl_ok_def op_ids_def)

section \<open>Operations and their responses\<close>

lemma upd_other: "i \<notin> sid ` set S \<Longrightarrow> upd i f S = S"
  by (induction S) auto

text \<open>What \<open>pop\<close> does to the first stream \<open>x\<close> of the streams \<open>x # T\<close>.\<close>

definition popped_from :: "int \<Rightarrow> ('t, 'a) stream \<Rightarrow> ('t, 'a) stream list \<Rightarrow> 't pop_result \<Rightarrow> ('t, 'a) stream list \<Rightarrow> bool" where
  "popped_from i x T r R' \<longleftrightarrow>
     st x = Error \<and> r = Pop_error i (code x) \<and> R' = T \<or>
     st x \<noteq> Error \<and> \<not> polled x \<and> r = Pop_start i \<and> R' = x\<lparr>polled := True\<rparr> # T \<or>
     st x \<noteq> Error \<and> polled x \<and> (\<exists>d ds. sdata x = d # ds \<and> r = Pop_data i d \<and> R' = x\<lparr>sdata := ds\<rparr> # T) \<or>
     st x = Completed \<and> polled x \<and> sdata x = [] \<and> r = Pop_end i (fin x) \<and> R' = T"

lemma upd_id: "upd i (\<lambda>x. x) R = R"
  by (simp add: upd_def)

lemma sp_pop_front:
  assumes "sp_pop (x # T) = (r, R')" "st x \<in> {Uncompleted, Completed, Error}" "sid x = i"
  shows "r = Pop_empty \<and> R' = x # T \<or> popped_from i x T r R'"
proof (cases "st x = Error")
  case True
  then show ?thesis using assms by (auto simp: sp_pop_def popped_from_def)
next
  case False
  then show ?thesis
    using assms by (cases "polled x"; cases "sdata x"; cases "st x = Uncompleted") (auto simp: sp_pop_def popped_from_def)
qed

text \<open>
  The contract of the contents: a stream that was just started is good, and being good is a matter of
  the state and the final datum. What is below needs no more.
\<close>

locale answered =
  fixes good :: "('t, 'a) stream \<Rightarrow> bool"
  assumes good_new: "good (new_stream i)"
    and good_cong: "st x' = st x \<Longrightarrow> fin x' = fin x \<Longrightarrow> good x' = good x"
begin

text \<open>
  The streams of responses belong, in order, to the operations in \<open>P\<close>, those that were answered.
\<close>

definition matches :: "op_status \<Rightarrow> ('t, 'a) stream \<Rightarrow> bool" where
  "matches s x \<longleftrightarrow> s \<noteq> START \<and> (s = STREAMING \<longrightarrow> st x = Uncompleted) \<and> (s = END \<longrightarrow> st x \<in> {Completed, Error}) \<and>
     good x"

lemma matches_relabel: "matches s x \<Longrightarrow> s' \<in> {s, CANCELLED, ERROR} \<Longrightarrow> matches s' x"
  by (auto simp: matches_def)

definition answers :: "op_ctl \<Rightarrow> nat \<Rightarrow> ('t, 'a) stream \<Rightarrow> bool" where
  "answers c k x \<longleftrightarrow> sid x = op_id (op_at c k) \<and> matches (op_status (op_at c k)) x"

definition resp_rel :: "(nat \<Rightarrow> bool) \<Rightarrow> op_ctl \<Rightarrow> ('t, 'a) stream list \<Rightarrow> bool" where
  "resp_rel P c R \<longleftrightarrow> list_all2 (answers c) (filter P (operations c)) R \<and>
     (\<forall>k \<in> set (operations c). op_status (op_at c k) \<in> {STREAMING, END} \<longrightarrow> P k) \<and>
     (\<forall>j \<in> set (operations c). \<forall>k \<in> set (operations c). P j \<and> \<not> P k \<and> op_id (op_at c j) = op_id (op_at c k) \<longrightarrow> j < k) \<and>
     only_first_polled R \<and> (current R \<noteq> None \<longrightarrow> P (hd (operations c)))"

lemma resp_relD:
  assumes "resp_rel P c R"
  shows "list_all2 (answers c) (filter P (operations c)) R"
    "k \<in> set (operations c) \<Longrightarrow> op_status (op_at c k) \<in> {STREAMING, END} \<Longrightarrow> P k"
    "j \<in> set (operations c) \<Longrightarrow> k \<in> set (operations c) \<Longrightarrow> P j \<Longrightarrow> \<not> P k \<Longrightarrow> op_id (op_at c j) = op_id (op_at c k) \<Longrightarrow> j < k"
    "only_first_polled R" "current R \<noteq> None \<Longrightarrow> P (hd (operations c))"
  using assms unfolding resp_rel_def by blast+

lemma resp_not_start:
  assumes "resp_rel P c R" "k \<in> set (operations c)" "op_status (op_at c k) = START"
  shows "\<not> P k"
proof
  assume "P k"
  then have "k \<in> set (filter P (operations c))" using assms(2) by simp
  then obtain x where "answers c k x" using resp_relD(1) [OF assms(1)] by (metis in_set_conv_nth list_all2_conv_all_nth)
  then show False using assms(3) by (simp add: answers_def matches_def)
qed

lemma resp_sids: "resp_rel P c R \<Longrightarrow> sid ` set R = (\<lambda>k. op_id (op_at c k)) ` {k \<in> set (operations c). P k}"
proof -
  assume "resp_rel P c R"
  then have "list_all2 (answers c) (filter P (operations c)) R" by (rule resp_relD(1))
  then have "map sid R = map (\<lambda>k. op_id (op_at c k)) (filter P (operations c))"
    by (induction rule: list_all2_induct) (simp_all add: answers_def)
  then have "set (map sid R) = set (map (\<lambda>k. op_id (op_at c k)) (filter P (operations c)))" by (rule arg_cong)
  then show ?thesis by simp
qed

text \<open>
  A change of one stream, that of the operation \<open>k\<close>, together with a change of statuses. Other
  operations keep their status or are cancelled.
\<close>

lemma resp_change:
  assumes rel: "resp_rel P c R" and ops: "operations c' = operations c"
    and ids: "\<And>j. op_id (op_at c' j) = op_id (op_at c j)"
    and st: "\<And>j. j \<in> set (operations c) \<Longrightarrow> j \<noteq> k \<Longrightarrow> op_status (op_at c' j) \<in> {op_status (op_at c j), CANCELLED, ERROR}"
    and uniq: "\<And>j. j \<in> set (operations c) \<Longrightarrow> op_id (op_at c j) = i \<Longrightarrow> j = k"
    and k: "op_id (op_at c k) = i" "\<And>x. P k \<Longrightarrow> matches (op_status (op_at c k)) x \<Longrightarrow> matches (op_status (op_at c' k)) (f x)"
      "op_status (op_at c' k) \<in> {STREAMING, END} \<Longrightarrow> op_status (op_at c k) \<in> {STREAMING, END}"
    and f: "\<And>x. sid (f x) = sid x" "\<And>x. polled (f x) = polled x"
  shows "resp_rel P c' (upd i f R)"
proof -
  note r = resp_relD [OF rel]
  have "list_all2 (answers c') (filter P (operations c)) (upd i f R)"
    unfolding upd_def list_all2_map2
  proof (rule list.rel_mono_strong [OF r(1)])
    fix j x assume j: "j \<in> set (filter P (operations c))" and a: "answers c j x"
    show "answers c' j (if sid x = i then f x else x)"
    proof (cases "j = k")
      case True
      then show ?thesis using a j k(1,2) by (simp add: answers_def ids f(1))
    next
      case False
      then have "sid x \<noteq> i" using uniq [of j] j a by (auto simp: answers_def)
      then show ?thesis using a st [OF _ False] j by (auto simp: answers_def ids matches_def)
    qed
  qed
  moreover have "P j" if "j \<in> set (operations c)" "op_status (op_at c' j) \<in> {STREAMING, END}" for j
    using that st [OF that(1)] r(2) [OF that(1)] k(3) by (cases "j = k") auto
  moreover have "only_first_polled (upd i f R)" "current (upd i f R) = current R"
    by (rule only_first_upd [OF r(4) f(2,1)])+
  ultimately show ?thesis unfolding resp_rel_def ops ids using r(3,5) by simp
qed

lemma resp_relabel:
  assumes "resp_rel P c R" "relabel c c'"
  shows "resp_rel P c' R"
proof -
  note r = resp_relD [OF assms(1)]
  have l: "operations c' = operations c" "\<And>k. op_id (op_at c' k) = op_id (op_at c k)"
    "\<And>k. op_status (op_at c' k) \<in> {op_status (op_at c k), CANCELLED, ERROR}"
    using assms(2) unfolding relabel_def by blast+
  have "list_all2 (answers c') (filter P (operations c)) R"
    by (rule list.rel_mono_strong [OF r(1)]) (use matches_relabel [OF _ l(3)] in \<open>simp add: answers_def l(2)\<close>)
  moreover have "P j" if "j \<in> set (operations c)" "op_status (op_at c' j) \<in> {STREAMING, END}" for j
    using that l(3) [of j] r(2) [OF that(1)] by auto
  ultimately show ?thesis unfolding resp_rel_def l(1,2) using r(3-5) by simp
qed

lemma resp_new_op:
  assumes "resp_rel P c R" "ctl_ok c" "current_op c = None" "s = START \<or> s = CANCELLED" "s = START \<longrightarrow> i \<notin> op_ids c"
  shows "resp_rel (P(length (heap c) := False)) (new_op i s now c) R"
proof -
  let ?n = "length (heap c)" and ?c = "new_op i s now c"
  note r = resp_relD [OF assms(1)] and n = new_op_ok [OF assms(2-5), where now = now]
  have lt: "j < ?n" if "j \<in> set (operations c)" for j using ctl_okD(2) [OF assms(2) that] .
  have f: "filter (P(?n := False)) (operations ?c) = filter P (operations c)"
  proof -
    have "filter (P(?n := False)) (operations c) = filter P (operations c)"
    proof (rule filter_cong [OF refl])
      fix x assume "x \<in> set (operations c)"
      then have "x \<noteq> ?n" using lt [of x] by simp
      then show "(P(?n := False)) x = P x" by simp
    qed
    then show ?thesis by (simp add: n(2))
  qed
  have at: "op_at ?c j = op_at c j" if "j \<in> set (operations c)" for j using n(5) lt [OF that] .
  have "list_all2 (answers ?c) (filter P (operations c)) R"
    by (rule list.rel_mono_strong [OF r(1)]) (use at in \<open>auto simp: answers_def\<close>)
  moreover have "(P(?n := False)) j" if "j \<in> set (operations ?c)" "op_status (op_at ?c j) \<in> {STREAMING, END}" for j
    using that assms(4) n(2,7) at r(2) [of j] lt by auto
  moreover have "j < k" if "j \<in> set (operations ?c)" "k \<in> set (operations ?c)" "(P(?n := False)) j" "\<not> (P(?n := False)) k"
      "op_id (op_at ?c j) = op_id (op_at ?c k)" for j k
  proof -
    have j: "j \<in> set (operations c)" "P j" using that(1,3) n(2) by (auto split: if_splits)
    show ?thesis
    proof (cases "k = ?n")
      case False
      then have "k \<in> set (operations c)" "\<not> P k" using that(2,4) n(2) by auto
      then show ?thesis using r(3) [of j k] that(5) j at by simp
    qed (use lt j in simp)
  qed
  moreover have "current R \<noteq> None \<longrightarrow> (P(?n := False)) (hd (operations ?c))"
  proof
    assume c: "current R \<noteq> None"
    then have "R \<noteq> []" by (auto simp: current_def)
    then have "operations c \<noteq> []" using r(1) by auto
    then have "hd (operations ?c) = hd (operations c)" "hd (operations c) < ?n" using n(2) lt by simp_all
    then show "(P(?n := False)) (hd (operations ?c))" using r(5) [OF c] by simp
  qed
  ultimately show ?thesis unfolding resp_rel_def f using r(4) by blast
qed

text \<open>The first response starts a stream behind the others.\<close>

lemma resp_start:
  assumes rel: "resp_rel P c R" and ok: "ctl_ok c" and k: "current_op c = Some k" "op_status (op_at c k) = START"
  shows "op_id (op_at c k) \<notin> sid ` set R"
    "resp_rel (P(k := True)) (set_op k (\<lambda>x. x\<lparr>op_status := STREAMING\<rparr>) c) (R @ [new_stream (op_id (op_at c k))])"
proof -
  let ?c = "set_op k (\<lambda>x. x\<lparr>op_status := STREAMING\<rparr>) c" and ?i = "op_id (op_at c k)"
  note r = resp_relD [OF rel] and o = ctl_okD [OF ok]
  have km: "k \<in> set (operations c)" "k < length (heap c)" using o(2,5) k(1) by blast+
  have nP: "\<not> P k" by (rule resp_not_start [OF rel km(1) k(2)])
  show fresh: "?i \<notin> sid ` set R"
  proof
    assume "?i \<in> sid ` set R"
    then obtain j where "j \<in> set (operations c)" "P j" "op_id (op_at c j) = ?i" unfolding resp_sids [OF rel] by auto
    then show False using o(7) [OF k(1)] nP by blast
  qed
  obtain ks where ks: "operations c = ks @ [k]"
    using o(4) [OF k(1)] km(1) by (metis append_butlast_last_id in_set_conv_decomp list.distinct(1) append_is_Nil_conv)
  have nk: "k \<notin> set ks" using o(1) ks by (auto simp: sorted_wrt_append)
  have ids: "op_id (op_at ?c j) = op_id (op_at c j)" for j by (simp add: op_at_set_op)
  have fk: "filter (P(k := True)) ks = filter P ks"
    by (rule filter_cong [OF refl]) (use nk in auto)
  have a: "list_all2 (answers ?c) (filter P ks) R"
  proof -
    have "list_all2 (answers c) (filter P ks) R" using r(1) ks nP by simp
    then show ?thesis
    proof (rule list.rel_mono_strong)
      fix j x assume j: "j \<in> set (filter P ks)" and a: "answers c j x"
      then have "j \<noteq> k" using nk by auto
      then show "answers ?c j x" using a by (simp add: answers_def op_at_set_op)
    qed
  qed
  have "answers ?c k (new_stream ?i)"
    using km(2) by (simp add: answers_def op_at_set_op matches_def good_new) (simp add: new_stream_def)
  then have "list_all2 (answers ?c) (filter (P(k := True)) (operations ?c)) (R @ [new_stream ?i])"
    using a by (simp add: ks fk list_all2_appendI)
  moreover have "(P(k := True)) j" if "j \<in> set (operations c)" "op_status (op_at ?c j) \<in> {STREAMING, END}" for j
    using that r(2) [of j] by (cases "j = k") (simp_all add: op_at_set_op)
  moreover have "j < m" if "j \<in> set (operations c)" "m \<in> set (operations c)" "(P(k := True)) j" "\<not> (P(k := True)) m"
      "op_id (op_at c j) = op_id (op_at c m)" for j m
  proof (cases "j = k")
    case True
    then have "m = k" using o(7) [OF k(1) that(2)] that(5) by simp
    then show ?thesis using that(4) by simp
  next
    case False
    then show ?thesis using r(3) [of j m] that by (simp split: if_splits)
  qed
  moreover have "only_first_polled (R @ [new_stream ?i])"
    using r(4) by (cases R) (auto simp: only_first_polled_def new_stream_def)
  moreover have "current (R @ [new_stream ?i]) \<noteq> None \<longrightarrow> (P(k := True)) (hd (operations c))"
    using r(5) by (cases R) (auto simp: current_def new_stream_def split: if_splits)
  ultimately show "resp_rel (P(k := True)) ?c (R @ [new_stream ?i])"
    unfolding resp_rel_def ids set_op_simps by blast
qed

text \<open>The first operation, and its stream.\<close>

lemma resp_front:
  assumes rel: "resp_rel P c R" and ok: "ctl_ok c" and ops: "operations c = k # ks"
  shows "P k \<Longrightarrow> \<exists>x R'. R = x # R' \<and> answers c k x \<and> list_all2 (answers c) (filter P ks) R'"
    and "\<not> P k \<Longrightarrow> op_id (op_at c k) \<notin> sid ` set R \<and> current R = None \<and> list_all2 (answers c) (filter P ks) R"
proof -
  note r = resp_relD [OF rel]
  show "\<exists>x R'. R = x # R' \<and> answers c k x \<and> list_all2 (answers c) (filter P ks) R'" if "P k"
    using r(1) that ops by (auto simp: list_all2_Cons1)
  assume n: "\<not> P k"
  have "op_id (op_at c k) \<notin> sid ` set R"
  proof
    assume "op_id (op_at c k) \<in> sid ` set R"
    then obtain j where j: "j \<in> set (operations c)" "P j" "op_id (op_at c j) = op_id (op_at c k)"
      unfolding resp_sids [OF rel] by auto
    then have "j < k" using r(3) [of j k] n ops by simp
    moreover have "j \<noteq> k" using j(2) n by auto
    then have "k < j" using ctl_okD(1) [OF ok] j(1) ops by simp
    ultimately show False by simp
  qed
  then show "op_id (op_at c k) \<notin> sid ` set R \<and> current R = None \<and> list_all2 (answers c) (filter P ks) R"
    using r(1,5) n ops by auto
qed

lemma resp_remove_front:
  assumes rel: "resp_rel P c R" and ok: "ctl_ok c" "operations c = k # ks" "op_status (op_at c k) \<notin> {START, STREAMING}"
    and "R' = (if P k then tl R else R)"
  shows "resp_rel P (remove_front_op c) R'" "current R' = None"
proof -
  note r = resp_relD [OF rel] and m = remove_front_ok [OF ok] and f = resp_front [OF rel ok(1,2)]
  have a: "list_all2 (answers c) (filter P ks) R'" "only_first_polled R' \<and> current R' = None"
  proof -
    show "list_all2 (answers c) (filter P ks) R'" using f assms(5) by (cases "P k") auto
    show "only_first_polled R' \<and> current R' = None"
    proof (cases "P k")
      case True
      then obtain x where "R = x # R'" using f(1) assms(5) by auto
      then show ?thesis using r(4) by (cases R') (auto simp: only_first_polled_def current_def)
    qed (use f(2) assms(5) r(4) in auto)
  qed
  show "current R' = None" using a(2) by blast
  have "answers (remove_front_op c) = answers c" unfolding answers_def m(3) ..
  then show "resp_rel P (remove_front_op c) R'"
    using a r(2,3) ok(2) unfolding resp_rel_def m(2,3) by simp
qed

lemma resp_replace_front:
  assumes "resp_rel P c (x # R)" "P (hd (operations c))" "sid x' = sid x" "st x' = st x" "fin x' = fin x"
  shows "resp_rel P c (x' # R)"
proof -
  note r = resp_relD [OF assms(1)]
  have "answers c k x' \<longleftrightarrow> answers c k x" for k by (simp add: answers_def matches_def assms(3-5) good_cong [OF assms(4,5)])
  then have "list_all2 (answers c) (filter P (operations c)) (x' # R)" using r(1) by (auto simp: list_all2_Cons2)
  then show ?thesis using r(2-4) assms(2) unfolding resp_rel_def by (simp add: only_first_polled_def)
qed

lemma resp_op_cond [simp]: "resp_rel P (c\<lparr>op_cond := b\<rparr>) R = resp_rel P c R"
proof -
  have "answers (c\<lparr>op_cond := b\<rparr>) = answers c" unfolding answers_def by simp
  then show ?thesis by (simp add: resp_rel_def)
qed

lemma drop_stream_ok:
  assumes ok: "sq_ok q" "ctl_ok c" and rel: "resp_rel P c (streams q)" and ops: "operations c = k # ks"
  shows "\<exists>q'. drop_stream (op_id (op_at c k)) q = Some q' \<and> sq_ok q' \<and>
    streams q' = (if P k then tl (streams q) else streams q) \<and> current (streams q) \<in> {None, Some (op_id (op_at c k))}"
proof -
  let ?i = "op_id (op_at c k)" and ?R = "streams q"
  obtain q1 where q1: "sq_erase ?i 0 q = Some (fst (sp_erase ?i 0 ?R), q1)" "sq_ok q1" "streams q1 = snd (sp_erase ?i 0 ?R)"
    using sq_laws(4) [OF ok(1), of ?i 0] by (auto simp: sq_rel_def)
  show ?thesis
  proof (cases "P k")
    case True
    then obtain x R' where R: "?R = x # R'" "answers c k x" using resp_front(1) [OF rel ok(2) ops] by blast
    then have x: "sid x = ?i" by (simp add: answers_def)
    have "?i \<notin> sid ` set R'" using sq_ids_distinct [OF ok(1)] R(1) x by (simp add: ids_distinct_def)
    then have "upd ?i (erased 0) R' = R'" by (rule upd_other)
    then have s1: "streams q1 = erased 0 x # R'" using q1(3) R(1) x by (simp add: sp_erase_def)
    obtain q2 where q2: "sq_pop q1 = Some (fst (sp_pop (streams q1)), q2)" "sq_ok q2" "streams q2 = snd (sp_pop (streams q1))"
      using sq_laws(6) [OF q1(2)] by (auto simp: sq_rel_def)
    have "sp_pop (streams q1) = (Pop_removed ?i, R')" using s1 x by (simp add: sp_pop_def erased_def)
    then have "drop_stream ?i q = Some q2" "streams q2 = R'"
      using q1(1) q2 R(1) x by (simp_all add: drop_stream_def sp_erase_def)
    then show ?thesis using q2(2) R(1) True x by (auto simp: current_def)
  next
    case False
    then have n: "?i \<notin> sid ` set ?R" "current ?R = None" using resp_front(2) [OF rel ok(2) ops] by blast+
    then have "upd ?i (erased 0) ?R = ?R" by (intro upd_other)
    then show ?thesis using q1 n False by (intro exI [of _ q1]) (simp add: drop_stream_def sp_erase_def)
  qed
qed

text \<open>The first operation is alive: what the queue of responses gives is for it.\<close>

lemma pop_front:
  assumes ok: "ctl_ok c" and rel: "resp_rel P c R" and ops: "operations c = k # ks"
    and st: "op_status (op_at c k) \<notin> {CANCELLED, ERROR}" and pop: "sp_pop R = (r, R')"
  shows "r = Pop_empty \<and> R' = R \<or>
    P k \<and> (\<exists>x T. R = x # T \<and> answers c k x \<and> current T = None \<and> st x \<in> {Uncompleted, Completed, Error} \<and>
      (st x = Uncompleted \<or> op_status (op_at c k) = END) \<and> popped_from (op_id (op_at c k)) x T r R')"
proof (cases "P k")
  case False
  have "op_status (op_at c k) \<notin> {STREAMING, END}" using False resp_relD(2) [OF rel, of k] ops by auto
  then have "op_status (op_at c k) = START" using st by (cases "op_status (op_at c k)") auto
  then have "current_op c = Some k" using ctl_okD(3) [OF ok, of k] ops by simp
  then have "last (k # ks) = k" using ctl_okD(4) [OF ok] ops by simp
  then have "ks = []" using ctl_okD(1) [OF ok] ops by (cases ks rule: rev_cases) auto
  then have "R = []" using resp_front(2) [OF rel ok ops False] by simp
  then show ?thesis using pop by (simp add: sp_pop_def)
next
  case True
  obtain x T where R: "R = x # T" and a: "answers c k x" using resp_front(1) [OF rel ok ops True] by blast
  have x: "sid x = op_id (op_at c k)" "matches (op_status (op_at c k)) x" using a by (simp_all add: answers_def)
  have "only_first_polled (x # T)" using resp_relD(4) [OF rel] R by simp
  then have cT: "current T = None" by (cases T) (auto simp: only_first_polled_def current_def)
  have stx: "st x \<in> {Uncompleted, Completed, Error}" "st x = Uncompleted \<or> op_status (op_at c k) = END"
    using x(2) st by (cases "op_status (op_at c k)"; auto simp: matches_def)+
  have "r = Pop_empty \<and> R' = R \<or> popped_from (op_id (op_at c k)) x T r R'"
    unfolding R by (rule sp_pop_front [OF pop [unfolded R] stx(1) x(1)])
  then show ?thesis using R a cT stx True by blast
qed

lemma resp_popped_start:
  "resp_rel P c (x # T) \<Longrightarrow> P (hd (operations c)) \<Longrightarrow> resp_rel P c (x\<lparr>polled := True\<rparr> # T)"
  "resp_rel P c (x # T) \<Longrightarrow> P (hd (operations c)) \<Longrightarrow> resp_rel P c (x\<lparr>sdata := ds\<rparr> # T)"
  by (rule resp_replace_front; simp)+

end

end
