(* ===== verification/Tts.thy ===== *)
theory Tts
  imports Speech OpAnswers
begin

text \<open>
  The text-to-speech client of tts_impl.cc: requests, operations and the streams of voice that answer
  them, with the three threads as in the speech client. Each function is one critical section; what
  the connection returns and the clock are arguments. A failing \<open>assert\<close> is undefined.
\<close>

unbundle bit_operations_syntax

section \<open>Options\<close>

datatype codec = PCM | OPU | OPU2 | MP3

record tts_options =
  codec :: codec
  declaimer :: str
  samplerate :: u32

definition tts_options_new :: tts_options where
  "tts_options_new = \<lparr>codec = PCM, declaimer = [122, 104], samplerate = 24000\<rparr>"

text \<open>\<open>TtsOptionsModifier\<close>: the options with the mask of those that were set.\<close>

definition MODIFY_CODEC :: u32 where "MODIFY_CODEC = 1"
definition MODIFY_DECLAIMER :: u32 where "MODIFY_DECLAIMER = 2"
definition MODIFY_SAMPLERATE :: u32 where "MODIFY_SAMPLERATE = 4"

record tts_modifier = tts_options +
  set_mask :: u32

definition modifier_new :: tts_modifier where
  "modifier_new = tts_options.extend tts_options_new \<lparr>set_mask = 0\<rparr>"

definition set_codec :: "codec \<Rightarrow> tts_modifier \<Rightarrow> tts_modifier" where
  "set_codec x m = m\<lparr>codec := x, set_mask := set_mask m OR MODIFY_CODEC\<rparr>"

definition set_declaimer :: "str \<Rightarrow> tts_modifier \<Rightarrow> tts_modifier" where
  "set_declaimer x m = m\<lparr>declaimer := x, set_mask := set_mask m OR MODIFY_DECLAIMER\<rparr>"

definition set_samplerate :: "u32 \<Rightarrow> tts_modifier \<Rightarrow> tts_modifier" where
  "set_samplerate x m = m\<lparr>samplerate := x, set_mask := set_mask m OR MODIFY_SAMPLERATE\<rparr>"

definition modify :: "tts_modifier \<Rightarrow> tts_options \<Rightarrow> tts_options" where
  "modify m o1 =
     (let o2 = (if set_mask m AND MODIFY_CODEC \<noteq> 0 then o1\<lparr>codec := codec m\<rparr> else o1);
          o3 = (if set_mask m AND MODIFY_DECLAIMER \<noteq> 0 then o2\<lparr>declaimer := declaimer m\<rparr> else o2) in
      if set_mask m AND MODIFY_SAMPLERATE \<noteq> 0 then o3\<lparr>samplerate := samplerate m\<rparr> else o3)"

section \<open>Data\<close>

definition TTS_SERVICE_UNAVAILABLE :: nat where "TTS_SERVICE_UNAVAILABLE = 101"
definition TTS_TIMEOUT :: nat where "TTS_TIMEOUT = 103"
definition TTS_UNKNOWN :: nat where "TTS_UNKNOWN = 104"

record tts_req =
  treq_id :: int
  deleted :: bool
  text_of :: str

record tts_response =
  tresp_id :: int
  voice_of :: "str option"
  finish :: bool

datatype tts_res_type = TTS_RES_VOICE | TTS_RES_START | TTS_RES_END | TTS_RES_CANCELLED | TTS_RES_ERROR

record tts_result =
  tres_id :: int
  tres_type :: tts_res_type
  tres_err :: nat
  tres_voice :: "str option"

record tts =
  running :: bool
  tts_next_id :: int
  tts_opts :: tts_options
  requests :: "tts_req list"
  voices :: "(str, int) sq"
  treq_cond :: cond
  tresp_cond :: cond
  tctl :: op_ctl

text \<open>After \<open>prepare\<close>.\<close>

definition tts_init :: tts where
  "tts_init = \<lparr>running = True, tts_next_id = 0, tts_opts = tts_options_new, requests = [], voices = sq_empty, treq_cond = False,
     tresp_cond = False, tctl = ctl_init\<rparr>"

section \<open>The application\<close>

definition speak :: "str \<Rightarrow> tts \<Rightarrow> (int \<times> tts) c" where
  "speak text s =
     (if \<not> running s then Some (-1, s)
      else do {
        i \<leftarrow> s32 (tts_next_id s + 1);
        Some (i, s\<lparr>tts_next_id := i, requests := requests s @ [\<lparr>treq_id = i, deleted = False, text_of = text\<rparr>], treq_cond := False\<rparr>) })"

definition cancel_tts :: "int \<Rightarrow> tts \<Rightarrow> tts" where
  "cancel_tts i s =
     (if \<not> running s then s
      else
        (let hit = (\<lambda>r. i \<le> 0 \<or> treq_id r = i);
             erased = (\<exists>r \<in> set (requests s). hit r);
             s1 = s\<lparr>requests := map (\<lambda>r. if hit r then r\<lparr>deleted := True\<rparr> else r) (requests s)\<rparr>;
             j = (if i \<le> 0 then 0 else i) in
         if i \<le> 0 \<or> \<not> erased
         then (case cancel_op j (tresp_cond s1) (tctl s1) of (b, c) \<Rightarrow> s1\<lparr>tresp_cond := b, tctl := c\<rparr>)
         else s1))"

definition config :: "tts_modifier option \<Rightarrow> tts \<Rightarrow> tts" where
  "config m s = (case m of None \<Rightarrow> s | Some x \<Rightarrow> s\<lparr>tts_opts := modify x (tts_opts s)\<rparr>)"

section \<open>Results\<close>

fun poptype_to_tts :: "'t pop_result \<Rightarrow> tts_res_type c" where
  "poptype_to_tts (Pop_data i d) = Some TTS_RES_VOICE"
| "poptype_to_tts (Pop_start i) = Some TTS_RES_START"
| "poptype_to_tts (Pop_end i d) = Some TTS_RES_END"
| "poptype_to_tts r = None"

definition integer_to_reserr :: "nat \<Rightarrow> nat" where
  "integer_to_reserr e = (if e \<in> {0, 2, 3, 4, 5, 6, 101, 102} then e else TTS_UNKNOWN)"

datatype tts_poll = T_polled tts_result | T_poll_wait | T_poll_closed

text \<open>One round of the loop of \<open>poll\<close>.\<close>

definition tts_poll_round :: "tts \<Rightarrow> (tts_poll \<times> tts) c" where
  "tts_poll_round s =
     (if \<not> running s then Some (T_poll_closed, s)
      else (case front_op (tctl s) of
          None \<Rightarrow> Some (T_poll_wait, s\<lparr>tresp_cond := True\<rparr>)
        | Some k \<Rightarrow>
            let x = op_at (tctl s) k in
            if op_status x = CANCELLED \<or> op_status x = ERROR then do {
              q \<leftarrow> drop_stream (op_id x) (voices s);
              Some (T_polled (if op_status x = CANCELLED
                    then \<lparr>tres_id = op_id x, tres_type = TTS_RES_CANCELLED, tres_err = 0, tres_voice = None\<rparr>
                    else \<lparr>tres_id = op_id x, tres_type = TTS_RES_ERROR, tres_err = op_error x, tres_voice = None\<rparr>),
                s\<lparr>voices := q, tctl := remove_front_op (tctl s)\<rparr>) }
            else do {
              (r, q) \<leftarrow> sq_pop (voices s);
              let s1 = s\<lparr>voices := q\<rparr>;
              (if pop_id r = None then Some (T_poll_wait, s1\<lparr>tresp_cond := True\<rparr>)
               else if pop_id r \<noteq> Some (op_id x) then None
               else do {
                 t \<leftarrow> poptype_to_tts r;
                 Some (T_polled \<lparr>tres_id = op_id x, tres_type = t, tres_err = integer_to_reserr (pop_err 0 r), tres_voice = pop_res None r\<rparr>,
                   if t = TTS_RES_END then s1\<lparr>tctl := remove_front_op (tctl s1)\<rparr> else s1) }) }))"

section \<open>The sender\<close>

datatype tts_next = T_quit | T_wait | T_skip | T_request tts_req

definition do_ctl_new_op :: "tts_req \<Rightarrow> int \<Rightarrow> tts \<Rightarrow> op_status \<times> tts" where
  "do_ctl_new_op r now s =
     (if deleted r then (CANCELLED, s\<lparr>tctl := new_op (treq_id r) CANCELLED now (tctl s), tresp_cond := False\<rparr>)
      else (START, s\<lparr>tctl := new_op (treq_id r) START now (tctl s)\<rparr>))"

text \<open>One round of \<open>send_reqs\<close> up to the request.\<close>

definition tts_send_round :: "int \<Rightarrow> tts \<Rightarrow> tts_next \<times> tts" where
  "tts_send_round now s =
     (if \<not> running s then (T_quit, s)
      else (case requests s of
          [] \<Rightarrow> (T_wait, s\<lparr>treq_cond := True\<rparr>)
        | r # rs \<Rightarrow>
            (case do_ctl_new_op r now (s\<lparr>requests := rs\<rparr>) of
               (st1, s1) \<Rightarrow> (if st1 = START then T_request r else T_skip, s1))))"

record tts_wire =
  tw_id :: int
  tw_text :: str
  tw_options :: tts_options

text \<open>\<open>do_request\<close>: what is sent, and what is done with the result \<open>r\<close> of the connection.\<close>

definition tts_wire_of :: "tts_req \<Rightarrow> tts \<Rightarrow> tts_wire" where
  "tts_wire_of req s = \<lparr>tw_id = treq_id req, tw_text = text_of req, tw_options = tts_opts s\<rparr>"

definition tts_do_request :: "conn_result \<Rightarrow> int \<Rightarrow> tts \<Rightarrow> bool \<times> tts" where
  "tts_do_request r now s =
     (if r \<noteq> SUCCESS
      then (False, s\<lparr>tctl := set_op_error (if r = CONNECTION_NOT_AVAILABLE then TTS_SERVICE_UNAVAILABLE else TTS_UNKNOWN) (tctl s),
              tresp_cond := False\<rparr>)
      else (True, s\<lparr>tctl := refresh_op_time False now (tctl s)\<rparr>))"

section \<open>The receiver\<close>

definition answer_start :: "nat \<Rightarrow> tts_response \<Rightarrow> tts \<Rightarrow> tts c" where
  "answer_start k resp s =
     (if op_status (op_at (tctl s) k) = START then do {
        (_, q) \<leftarrow> sq_start (tresp_id resp) (voices s);
        Some (s\<lparr>voices := q, tctl := set_op k (\<lambda>x. x\<lparr>op_status := STREAMING\<rparr>) (tctl s)\<rparr>) }
      else Some s)"

definition answer_voice :: "tts_response \<Rightarrow> tts \<Rightarrow> tts c" where
  "answer_voice resp s =
     (if voice_of resp \<noteq> None then do {
        (_, q) \<leftarrow> sq_stream (tresp_id resp) (voice_of resp) (voices s);
        Some (s\<lparr>voices := q\<rparr>) }
      else Some s)"

definition answer_finish :: "nat \<Rightarrow> tts_response \<Rightarrow> tts \<Rightarrow> tts c" where
  "answer_finish k resp s =
     (if finish resp then do {
        (_, q) \<leftarrow> sq_end (tresp_id resp) None (voices s);
        let c = (if op_status (op_at (tctl s) k) \<noteq> CANCELLED \<and> op_status (op_at (tctl s) k) \<noteq> ERROR
                 then set_op k (\<lambda>x. x\<lparr>op_status := END\<rparr>) (tctl s) else tctl s);
        Some (s\<lparr>voices := q, tctl := finish_op c\<rparr>) }
      else Some s)"

definition tts_gen_result :: "tts_response \<Rightarrow> tts \<Rightarrow> tts c" where
  "tts_gen_result resp s =
     (case current_op (tctl s) of
        None \<Rightarrow> Some s
      | Some k \<Rightarrow>
          if op_id (op_at (tctl s) k) \<noteq> tresp_id resp then Some s
          else do {
            s1 \<leftarrow> answer_start k resp s;
            s2 \<leftarrow> answer_voice resp s1;
            s3 \<leftarrow> answer_finish k resp s2;
            Some (if op_status (op_at (tctl s) k) = START \<or> voice_of resp \<noteq> None \<or> finish resp
                  then s3\<lparr>tresp_cond := False\<rparr> else s3) })"

definition tts_fail :: "nat \<Rightarrow> tts \<Rightarrow> tts" where
  "tts_fail err s = s\<lparr>tctl := set_op_error err (tctl s), tresp_cond := False\<rparr>"

text \<open>One round of \<open>gen_results\<close> with the result of the connection: whether it goes on.\<close>

definition tts_recv_round :: "conn_result \<Rightarrow> tts_response \<Rightarrow> int \<Rightarrow> tts \<Rightarrow> (bool \<times> tts) c" where
  "tts_recv_round r resp now s =
     (if r = NOT_READY then Some (False, s)
      else if r = SUCCESS then do {
        s1 \<leftarrow> tts_gen_result resp (s\<lparr>tctl := refresh_op_time True now (tctl s)\<rparr>);
        Some (True, s1) }
      else if r = TIMEOUT then
        (if op_timeout now (tctl s) = 0 then
           (if current_op (tctl s) = None then None else Some (True, tts_fail TTS_TIMEOUT s))
         else Some (True, s))
      else Some (True, tts_fail (if r = CONNECTION_BROKEN then TTS_SERVICE_UNAVAILABLE else TTS_UNKNOWN) s))"

section \<open>Release\<close>

definition tts_release_reqs :: "tts \<Rightarrow> tts" where
  "tts_release_reqs s = (if running s then s\<lparr>running := False, requests := [], treq_cond := False\<rparr> else s)"

definition tts_release_resps :: "tts \<Rightarrow> tts" where
  "tts_release_resps s = s\<lparr>voices := sq_close (voices s), tctl := finish_op (tctl s), tresp_cond := False\<rparr>"

section \<open>The threads together\<close>

text \<open>
  The sender: at the head of its loop, about to send, about to wait for the end of the operation, at its end. It goes
  on from its waits when it was notified, or after a spurious wake-up, which is \<open>T_spurious\<close> for the wait for the
  end of an operation; the other waits are loops.
\<close>

datatype tts_sender = TS_loop | TS_request tts_req | TS_finish int | TS_quit

record tts_client =
  tp :: tts
  sender_at :: tts_sender

definition tts_client_init :: tts_client where
  "tts_client_init = \<lparr>tp = tts_init, sender_at = TS_loop\<rparr>"

datatype tts_event = T_call | T_poll tts_poll | T_take | T_sent tts_wire | T_other | T_spurious

fun tts_pc :: "tts_next \<Rightarrow> tts_sender" where
  "tts_pc T_quit = TS_quit"
| "tts_pc T_wait = TS_loop"
| "tts_pc T_skip = TS_loop"
| "tts_pc (T_request r) = TS_request r"

inductive tts_step :: "tts_client \<Rightarrow> tts_event \<Rightarrow> tts_client \<Rightarrow> bool" where
  speak: "speak t (tp c) = Some (i, s) \<Longrightarrow> tts_step c T_call (c\<lparr>tp := s\<rparr>)"
| cancel: "tts_step c T_call (c\<lparr>tp := cancel_tts i (tp c)\<rparr>)"
| config: "tts_step c T_call (c\<lparr>tp := config m (tp c)\<rparr>)"
| poll: "\<not> tresp_cond (tp c) \<Longrightarrow> tts_poll_round (tp c) = Some (r, s) \<Longrightarrow> tts_step c (T_poll r) (c\<lparr>tp := s\<rparr>)"
| take: "sender_at c = TS_loop \<Longrightarrow> \<not> treq_cond (tp c) \<Longrightarrow> \<not> op_cond (tctl (tp c)) \<Longrightarrow>
    tts_send_round now (tp c) = (n, s) \<Longrightarrow> tts_step c T_take (c\<lparr>tp := s, sender_at := tts_pc n\<rparr>)"
| send: "sender_at c = TS_request req \<Longrightarrow> tts_do_request r now (tp c) = (ok, s) \<Longrightarrow>
    tts_step c (T_sent (tts_wire_of req (tp c))) (c\<lparr>tp := s, sender_at := (if ok then TS_finish (treq_id req) else TS_loop)\<rparr>)"
| wait: "sender_at c = TS_finish i \<Longrightarrow>
    tts_step c T_other (c\<lparr>tp := (tp c)\<lparr>tctl := wait_op_finish i (tctl (tp c))\<rparr>, sender_at := TS_loop\<rparr>)"
| recv: "tts_recv_round r resp now (tp c) = Some (b, s) \<Longrightarrow> tts_step c T_other (c\<lparr>tp := s\<rparr>)"
| release: "tts_step c T_call (c\<lparr>tp := tts_release_reqs (tp c)\<rparr>)"
| released: "\<not> running (tp c) \<Longrightarrow> sender_at c = TS_quit \<Longrightarrow> tts_step c T_call (c\<lparr>tp := tts_release_resps (tp c)\<rparr>)"
| spurious: "sender_at c = TS_loop \<Longrightarrow> op_cond (tctl (tp c)) \<Longrightarrow>
    tts_step c T_spurious (c\<lparr>tp := (tp c)\<lparr>tctl := (tctl (tp c))\<lparr>op_cond := False\<rparr>\<rparr>\<rparr>)"
| woken_req: "tts_step c T_other (c\<lparr>tp := (tp c)\<lparr>treq_cond := False\<rparr>\<rparr>)"
| woken_resp: "tts_step c T_other (c\<lparr>tp := (tp c)\<lparr>tresp_cond := False\<rparr>\<rparr>)"

end
