(* ===== verification/Connection.thy ===== *)
theory Connection
  imports Speech
begin

text \<open>
  The connection to the server, \<open>class SpeechConnection\<close> of speech_connection.cc: a thread that
  connects and runs the loop of the web socket library, a thread that keeps the connection alive, and
  the calls \<open>send\<close> and \<open>recv\<close> of the speech client. The variable \<open>stage_\<close> is read and
  written without a common lock, so the threads are cut at every access to it and to \<open>ws_\<close>; what is
  done under \<open>resp_mutex_\<close> is one step. The callbacks of the library come in any order while its
  loop or its connect runs; closing or terminating a socket runs \<open>onDisconnection\<close> on the thread that
  closes, so the keepalive thread and the thread in \<open>release\<close> run it too. Time points are nanoseconds of the steady clock, a web socket is a number.
\<close>

section \<open>Strings\<close>

definition ascii :: "string \<Rightarrow> str" where
  "ascii s = map of_char s"

text \<open>\<open>c_str()\<close>, and what \<open>snprintf\<close> leaves in a buffer of \<open>n\<close> bytes.\<close>

definition c_str :: "str \<Rightarrow> str" where
  "c_str s = takeWhile (\<lambda>b. b \<noteq> 0) s"

definition snprintf :: "nat \<Rightarrow> str \<Rightarrow> str" where
  "snprintf n s = take (n - 1) s"

fun decimal :: "nat \<Rightarrow> str" where
  "decimal n = (if n < 10 then [of_nat (48 + n)] else decimal (n div 10) @ [of_nat (48 + n mod 10)])"

declare decimal.simps [simp del]

definition hex_digit :: "nat \<Rightarrow> byte" where
  "hex_digit d = of_nat (if d < 10 then 48 + d else 55 + d)"

definition hex2 :: "byte \<Rightarrow> str" where
  "hex2 b = [hex_digit (unat b div 16), hex_digit (unat b mod 16)]"

section \<open>Data\<close>

datatype stage = INIT | CONNECTING | UNAUTH | READY | RELEASING | RELEASED

datatype bin_type = DATA | BROKEN

record bin_resp =
  btype :: bin_type
  bytes :: str

record prepare_options =
  host :: str
  port :: nat
  branch :: str
  key :: str
  device_type_id :: str
  secret :: str
  device_id :: str
  reconn_interval :: int
  ping_interval :: int
  no_resp_timeout :: int

definition default_options :: prepare_options where
  "default_options = \<lparr>host = ascii ''localhost'', port = 80, branch = ascii ''/'', key = [], device_type_id = [], secret = [],
     device_id = [], reconn_interval = 20000, ping_interval = 30000, no_resp_timeout = 45000\<rparr>"

record conn =
  stage :: stage
  ws :: "nat option"
  resps :: "bin_resp list"
  reconn_tp :: int
  ping_tp :: int
  recv_tp :: int
  opts :: prepare_options
  service :: str

definition conn_new :: conn where
  "conn_new = \<lparr>stage = INIT, ws = None, resps = [], reconn_tp = 0, ping_tp = 0, recv_tp = 0, opts = default_options, service = []\<rparr>"

definition ms :: "int \<Rightarrow> int" where
  "ms n = n * 1000000"

section \<open>Authentication\<close>

definition server_uri :: "prepare_options \<Rightarrow> str" where
  "server_uri o' = snprintf 64 (ascii ''wss://'' @ c_str (host o') @ ascii '':'' @ decimal (port o') @ c_str (branch o'))"

definition api_version :: str where
  "api_version = ascii ''2''"

definition sign_src :: "str \<Rightarrow> str \<Rightarrow> str \<Rightarrow> str \<Rightarrow> str \<Rightarrow> str \<Rightarrow> str \<Rightarrow> str" where
  "sign_src k dt d svc ver ts sec =
     snprintf 64 (ascii ''key='' @ k) @ snprintf 64 (ascii ''&device_type_id='' @ dt) @ snprintf 64 (ascii ''&device_id='' @ d) @
     snprintf 64 (ascii ''&service='' @ svc) @ snprintf 64 (ascii ''&version='' @ ver) @ snprintf 64 (ascii ''&time='' @ ts) @
     snprintf 64 (ascii ''&secret='' @ sec)"

definition generate_sign :: "(str \<Rightarrow> byte list) \<Rightarrow> str \<Rightarrow> str \<Rightarrow> str \<Rightarrow> str \<Rightarrow> str \<Rightarrow> str \<Rightarrow> str \<Rightarrow> str" where
  "generate_sign md5 k dt d svc ver ts sec = snprintf 64 (concat (map hex2 (md5 (sign_src k dt d svc ver ts sec))))"

record auth_request =
  a_key :: str
  a_device_type_id :: str
  a_device_id :: str
  a_service :: str
  a_version :: str
  a_timestamp :: str
  a_sign :: str

text \<open>
  \<open>auth\<close>: the bytes sent, if any. The digest and the encoding of the request are arguments;
  \<open>timestamp\<close> prints microseconds since the epoch.
\<close>

definition timestamp :: "nat \<Rightarrow> nat \<Rightarrow> str" where
  "timestamp sec usec = snprintf 64 (decimal ((sec * 1000000 + usec) mod 2 ^ 64))"

definition auth :: "(str \<Rightarrow> byte list) \<Rightarrow> (auth_request \<Rightarrow> str option) \<Rightarrow> str \<Rightarrow> conn \<Rightarrow> str option" where
  "auth md5 enc ts c =
     (let p = opts c; svc = c_str (service c) in
      if key p = [] \<or> device_type_id p = [] \<or> device_id p = [] \<or> secret p = [] then None
      else enc \<lparr>a_key = key p, a_device_type_id = device_type_id p, a_device_id = device_id p, a_service = svc,
        a_version = api_version, a_timestamp = ts,
        a_sign = generate_sign md5 (c_str (key p)) (c_str (device_type_id p)) (c_str (device_id p)) svc api_version (c_str ts)
          (c_str (secret p))\<rparr>)"

text \<open>The buffers of 64 bytes: what is signed and the address lose the tails of long values.\<close>

lemma sign_ignores_tail:
  "take 59 k = take 59 k' \<Longrightarrow> generate_sign md5 k dt d svc ver ts sec = generate_sign md5 k' dt d svc ver ts sec"
  by (simp add: generate_sign_def sign_src_def snprintf_def ascii_def)

lemma server_uri_length: "length (server_uri p) \<le> 63"
  by (simp add: server_uri_def snprintf_def)

section \<open>The queue of responses\<close>

definition push_error_resp :: "conn \<Rightarrow> conn" where
  "push_error_resp c = (if stage c = READY then c\<lparr>resps := resps c @ [\<lparr>btype = BROKEN, bytes = []\<rparr>]\<rparr> else c)"

definition push_resp_data :: "str \<Rightarrow> conn \<Rightarrow> conn" where
  "push_resp_data m c = c\<lparr>resps := resps c @ [\<lparr>btype = DATA, bytes = m\<rparr>]\<rparr>"

text \<open>\<open>recv\<close> after its wait.\<close>

definition recv_take :: "(str \<Rightarrow> 'r option) \<Rightarrow> conn \<Rightarrow> (conn_result \<times> 'r option) \<times> conn" where
  "recv_take parse c =
     (case resps c of
        b # bs \<Rightarrow>
          (if btype b = DATA
           then (case parse (bytes b) of None \<Rightarrow> (INVALID_PB_DATA, None) | Some r \<Rightarrow> (SUCCESS, Some r))
           else (CONNECTION_BROKEN, None), c\<lparr>resps := bs\<rparr>)
      | [] \<Rightarrow> ((if stage c = RELEASED then NOT_READY else TIMEOUT, None), c))"

section \<open>The callbacks of the library\<close>

definition on_connection :: "conn \<Rightarrow> conn" where
  "on_connection c = c\<lparr>stage := UNAUTH\<rparr>"

definition on_pong :: "int \<Rightarrow> conn \<Rightarrow> conn" where
  "on_pong now c = c\<lparr>recv_tp := now\<rparr>"

text \<open>\<open>handle_auth_result\<close> with the result of the parsed response: the last step when it is 0.\<close>

definition auth_ready :: "nat \<Rightarrow> conn \<Rightarrow> conn" where
  "auth_ready w c = c\<lparr>stage := READY, ws := Some w\<rparr>"

definition auth_failed :: "int \<Rightarrow> conn \<Rightarrow> conn" where
  "auth_failed now c = c\<lparr>reconn_tp := now + ms (reconn_interval (opts c))\<rparr>"

definition error_reset :: "int \<Rightarrow> conn \<Rightarrow> conn" where
  "error_reset now c = c\<lparr>stage := INIT, reconn_tp := now + ms (reconn_interval (opts c))\<rparr>"

section \<open>Keeping the connection alive\<close>

text \<open>\<open>keepalive_run\<close> when it found the stage READY at \<open>now\<close>: ping, terminate, and the time to wait.\<close>

definition keepalive_ping :: "int \<Rightarrow> int \<Rightarrow> conn \<Rightarrow> bool \<times> conn" where
  "keepalive_ping now now' c =
     (if ms (ping_interval (opts c)) \<le> now - ping_tp c then (ws c \<noteq> None, c\<lparr>ping_tp := now'\<rparr>) else (False, c))"

text \<open>The NULL socket is undefined.\<close>

definition keepalive_terminate :: "int \<Rightarrow> int \<Rightarrow> conn \<Rightarrow> (nat option \<times> conn) c" where
  "keepalive_terminate now now' c =
     (if ms (no_resp_timeout (opts c)) \<le> now - recv_tp c
      then (case ws c of None \<Rightarrow> None | Some w \<Rightarrow> Some (Some w, c\<lparr>recv_tp := now'\<rparr>))
      else Some (None, c))"

definition to_millis :: "int \<Rightarrow> int" where
  "to_millis d = (if 0 \<le> d then d div 1000000 else - ((- d) div 1000000))"

definition keepalive_timeout :: "int \<Rightarrow> conn \<Rightarrow> int" where
  "keepalive_timeout now c =
     (let d1 = ms (ping_interval (opts c)) - (now - ping_tp c); d2 = ms (no_resp_timeout (opts c)) - (now - recv_tp c);
          t = to_millis (if d1 < d2 then d1 else d2) in
      if t < 0 then 0 else t)"

section \<open>The threads together\<close>

text \<open>
  Where a thread is in \<open>onDisconnection\<close> once \<open>ws_\<close> is NULL: before the test of the stage, before the assignment,
  and before the lock of \<open>push_error_resp\<close>.
\<close>

datatype cb = Cb_test | Cb_set | Cb_push

text \<open>
  Where the work thread is: at the test of its loop, at the switch, in the case INIT, in the library, in
  \<open>handle_auth_result\<close> and \<open>onMessage\<close> between their test and the assignment or the queue, in \<open>onDisconnection\<close>
  (the flag says that \<open>onError\<close> called it) and in \<open>onError\<close> (before the test and before the assignments).
\<close>

datatype work_pc = W_none | W_loop | W_switch | W_init | W_hub | W_auth nat | W_data str | W_cb cb bool | W_failed | W_failed_set | W_quit

text \<open>The keepalive thread is also in \<open>terminate\<close>, before and in \<open>onDisconnection\<close>.\<close>

datatype keep_pc = K_none | K_loop | K_body | K_ping int | K_term int | K_ended int | K_cb cb int | K_wait int | K_quit

text \<open>The thread in \<open>release\<close> closes the sockets, and waits for the others.\<close>

datatype app_pc = A_none | A_running | A_closing | A_cb cb | A_joining

text \<open>The sender: before its test, between the test and \<open>ws_send\<close> (it holds \<open>req_mutex_\<close>), and before it returns.\<close>

datatype send_pc = S_idle | S_wait str | S_ready str | S_done

text \<open>The receiver waits with a timeout (0 is none), and whether it was notified since.\<close>

datatype recv_pc = R_idle | R_wait nat bool

record system =
  con :: conn
  work :: work_pc
  keep :: keep_pc
  app :: app_pc
  sndr :: send_pc
  rcvr :: recv_pc

definition system_init :: system where
  "system_init = \<lparr>con = conn_new, work = W_none, keep = K_none, app = A_none, sndr = S_idle, rcvr = R_idle\<rparr>"

text \<open>\<open>E_accept\<close> and \<open>E_broken\<close> are the queueing of a message and of an error.\<close>

datatype 'r event = E_none | E_init | E_release | E_wire nat str | E_ping nat | E_terminate nat | E_accept str | E_broken
  | E_send conn_result | E_recv conn_result "'r option" | E_spurious

fun notify :: "recv_pc \<Rightarrow> recv_pc" where
  "notify R_idle = R_idle"
| "notify (R_wait t b) = R_wait t True"

text \<open>The calls of the application and of the speech client.\<close>

definition initialize :: "prepare_options \<Rightarrow> str \<Rightarrow> system \<Rightarrow> system" where
  "initialize p svc s = s\<lparr>con := (con s)\<lparr>opts := p, service := svc, stage := INIT\<rparr>, work := W_loop, keep := K_loop, app := A_running\<rparr>"

definition release_begin :: "system \<Rightarrow> system" where
  "release_begin s = s\<lparr>con := (con s)\<lparr>stage := RELEASED\<rparr>, app := A_closing\<rparr>"

definition release_joined :: "system \<Rightarrow> system" where
  "release_joined s = s\<lparr>work := W_none, keep := K_none, app := A_none, rcvr := notify (rcvr s)\<rparr>"

text \<open>\<open>send\<close> up to its wait or its test, with the encoded request; its test after the wait; \<open>ws_send\<close>.\<close>

definition send_begin :: "str option \<Rightarrow> system \<Rightarrow> conn_result option \<times> system" where
  "send_begin buf s =
     (case buf of
        None \<Rightarrow> (Some INVALID_PB_OBJ, s)
      | Some b \<Rightarrow> (None, s\<lparr>sndr := (if stage (con s) \<noteq> READY then S_wait b else S_ready b)\<rparr>))"

definition send_test :: "str \<Rightarrow> system \<Rightarrow> conn_result option \<times> system" where
  "send_test b s =
     (if stage (con s) = READY then (None, s\<lparr>sndr := S_ready b\<rparr>) else (Some CONNECTION_NOT_AVAILABLE, s\<lparr>sndr := S_idle\<rparr>))"

text \<open>\<open>recv\<close> up to its wait.\<close>

definition recv_begin :: "(str \<Rightarrow> 'r option) \<Rightarrow> nat \<Rightarrow> system \<Rightarrow> (conn_result \<times> 'r option) option \<times> system" where
  "recv_begin parse t s =
     (if resps (con s) = [] then (None, s\<lparr>rcvr := R_wait t False\<rparr>)
      else (case recv_take parse (con s) of (r, c) \<Rightarrow> (Some r, s\<lparr>con := c\<rparr>)))"

definition recv_woken :: "(str \<Rightarrow> 'r option) \<Rightarrow> system \<Rightarrow> (conn_result \<times> 'r option) \<times> system" where
  "recv_woken parse s = (case recv_take parse (con s) of (r, c) \<Rightarrow> (r, s\<lparr>con := c, rcvr := R_idle\<rparr>))"

text \<open>
  A message of the socket \<open>w\<close>; \<open>ares\<close> is the result of an authentication response, None when it does not parse. When it
  is refused the socket is closed.
\<close>

definition on_message :: "(str \<Rightarrow> nat option) \<Rightarrow> nat \<Rightarrow> str \<Rightarrow> int \<Rightarrow> system \<Rightarrow> system" where
  "on_message ares w m now s =
     (let s1 = s\<lparr>con := (con s)\<lparr>recv_tp := now\<rparr>\<rparr> in
      case stage (con s1) of
        UNAUTH \<Rightarrow>
          (case ares m of
             None \<Rightarrow> s1
           | Some r \<Rightarrow> if r = 0 then s1\<lparr>work := W_auth w\<rparr> else s1\<lparr>con := (auth_failed now (con s1))\<lparr>ws := None\<rparr>, work := W_cb Cb_test False\<rparr>)
      | READY \<Rightarrow> s1\<lparr>work := W_data m\<rparr>
      | _ \<Rightarrow> s1)"

text \<open>A step of \<open>onDisconnection\<close> on any thread.\<close>

fun on_disconnection :: "cb \<Rightarrow> system \<Rightarrow> 'r event \<times> cb option \<times> system" where
  "on_disconnection Cb_test s = (E_none, if stage (con s) \<noteq> RELEASED then Some Cb_set else None, s)"
| "on_disconnection Cb_set s = (E_none, Some Cb_push, s\<lparr>con := (con s)\<lparr>stage := INIT\<rparr>\<rparr>)"
| "on_disconnection Cb_push s =
     (if stage (con s) = READY then E_broken else E_none, None,
      s\<lparr>con := push_error_resp (con s), rcvr := (if stage (con s) = READY then notify (rcvr s) else rcvr s)\<rparr>)"

text \<open>One step of the work thread in \<open>run\<close>, outside the library, and in the callbacks.\<close>

definition run_step :: "int \<Rightarrow> system \<Rightarrow> 'r event \<times> system" where
  "run_step now s =
     (case work s of
        W_loop \<Rightarrow> (E_none, s\<lparr>work := (if stage (con s) = RELEASED then W_quit else W_switch)\<rparr>)
      | W_switch \<Rightarrow> (E_none, s\<lparr>work := (if stage (con s) = INIT then W_init else W_hub)\<rparr>)
      | W_init \<Rightarrow>
          (E_none, if reconn_tp (con s) \<le> now then s\<lparr>con := (con s)\<lparr>stage := CONNECTING\<rparr>, work := W_hub\<rparr> else s\<lparr>work := W_loop\<rparr>)
      | W_hub \<Rightarrow> (E_none, s\<lparr>work := W_loop\<rparr>)
      | W_auth w \<Rightarrow> (E_none, s\<lparr>con := auth_ready w (con s), work := W_hub\<rparr>)
      | W_data m \<Rightarrow> (E_accept m, s\<lparr>con := push_resp_data m (con s), work := W_hub, rcvr := notify (rcvr s)\<rparr>)
      | W_cb x nested \<Rightarrow>
          (case on_disconnection x s of (e, y, s1) \<Rightarrow>
             (e, s1\<lparr>work := (case y of Some x' \<Rightarrow> W_cb x' nested | None \<Rightarrow> if nested then W_failed else W_hub)\<rparr>))
      | W_failed \<Rightarrow> (E_none, if stage (con s) \<noteq> RELEASED then s\<lparr>work := W_failed_set\<rparr> else s\<lparr>work := W_hub\<rparr>)
      | W_failed_set \<Rightarrow> (E_none, s\<lparr>con := error_reset now (con s), work := W_hub\<rparr>)
      | _ \<Rightarrow> (E_none, s))"

text \<open>\<open>onError\<close> up to its test of the stage: a socket is closed first.\<close>

definition on_error :: "system \<Rightarrow> system" where
  "on_error s =
     (if ws (con s) = None then s\<lparr>work := W_failed\<rparr> else s\<lparr>con := (con s)\<lparr>ws := None\<rparr>, work := W_cb Cb_test True\<rparr>)"

fun holds_req :: "send_pc \<Rightarrow> bool" where
  "holds_req (S_ready b) = True"
| "holds_req S_done = False"
| "holds_req S_idle = False"
| "holds_req (S_wait b) = False"

text \<open>
  One step of the keepalive thread, with the clock at the step; the NULL socket is undefined. \<open>closes\<close> says whether
  \<open>terminate\<close> finds the socket open and calls \<open>onDisconnection\<close>.
\<close>

definition keep_step :: "int \<Rightarrow> bool \<Rightarrow> system \<Rightarrow> ('r event \<times> system) c" where
  "keep_step now closes s =
     (case keep s of
        K_loop \<Rightarrow> Some (E_none, s\<lparr>keep := (if stage (con s) = RELEASED then K_quit else K_body)\<rparr>)
      | K_body \<Rightarrow>
          Some (E_none, s\<lparr>keep := (if stage (con s) = READY then K_ping now else K_wait (ping_interval (opts (con s))))\<rparr>)
      | K_ping t \<Rightarrow>
          (case keepalive_ping t now (con s) of (sent, c) \<Rightarrow>
             Some (if sent then E_ping (the (ws (con s))) else E_none, s\<lparr>con := c, keep := K_term t\<rparr>))
      | K_term t \<Rightarrow> do {
          (w, c) \<leftarrow> keepalive_terminate t now (con s);
          Some (case w of
             Some x \<Rightarrow> (E_terminate x, s\<lparr>con := c, keep := K_ended t\<rparr>)
           | None \<Rightarrow> (E_none, s\<lparr>con := c, keep := K_wait (keepalive_timeout t c)\<rparr>)) }
      | K_ended t \<Rightarrow>
          Some (E_none, if closes then s\<lparr>con := (con s)\<lparr>ws := None\<rparr>, keep := K_cb Cb_test t\<rparr>
                        else s\<lparr>keep := K_wait (keepalive_timeout t (con s))\<rparr>)
      | K_cb x t \<Rightarrow>
          (case on_disconnection x s of (e, y, s1) \<Rightarrow>
             Some (e, s1\<lparr>keep := (case y of Some x' \<Rightarrow> K_cb x' t | None \<Rightarrow> K_wait (keepalive_timeout t (con s1)))\<rparr>))
      | K_wait t \<Rightarrow> Some (E_none, s\<lparr>keep := K_loop\<rparr>)
      | _ \<Rightarrow> Some (E_none, s))"

text \<open>
  The thread in \<open>release\<close>: closing the group runs \<open>onDisconnection\<close> for each of its sockets (\<open>another\<close>), then it joins
  the others.
\<close>

definition close_step :: "bool \<Rightarrow> system \<Rightarrow> 'r event \<times> system" where
  "close_step another s =
     (case app s of
        A_closing \<Rightarrow> (E_none, if another then s\<lparr>con := (con s)\<lparr>ws := None\<rparr>, app := A_cb Cb_test\<rparr> else s\<lparr>app := A_joining\<rparr>)
      | A_cb x \<Rightarrow>
          (case on_disconnection x s of (e, y, s1) \<Rightarrow> (e, s1\<lparr>app := (case y of Some x' \<Rightarrow> A_cb x' | None \<Rightarrow> A_closing)\<rparr>))
      | _ \<Rightarrow> (E_none, s))"

section \<open>The transitions\<close>

text \<open>
  \<open>ares\<close> and \<open>parse\<close> parse an authentication response and a response, \<open>enc\<close> encodes an
  authentication request, \<open>md5\<close> is the digest. A test after the wait of \<open>recv\<close> needs a notification,
  a timeout or a spurious wake-up.
\<close>

inductive conn_step :: "(str \<Rightarrow> nat option) \<Rightarrow> (str \<Rightarrow> 'r option) \<Rightarrow> (auth_request \<Rightarrow> str option) \<Rightarrow> (str \<Rightarrow> byte list) \<Rightarrow>
    system \<Rightarrow> 'r event \<Rightarrow> system \<Rightarrow> bool"
  for ares :: "str \<Rightarrow> nat option" and parse :: "str \<Rightarrow> 'r option" and enc :: "auth_request \<Rightarrow> str option" and md5 :: "str \<Rightarrow> byte list"
  where
  init: "app s = A_none \<Longrightarrow> conn_step ares parse enc md5 s E_init (initialize p svc s)"
| release: "app s = A_running \<Longrightarrow> conn_step ares parse enc md5 s E_release (release_begin s)"
| closing: "close_step another s = (e, s1) \<Longrightarrow> conn_step ares parse enc md5 s e s1"
| joined: "app s = A_joining \<Longrightarrow> work s = W_quit \<Longrightarrow> keep s = K_quit \<Longrightarrow> conn_step ares parse enc md5 s E_none (release_joined s)"
| run: "(\<forall>w. work s = W_auth w \<longrightarrow> \<not> holds_req (sndr s)) \<Longrightarrow> run_step now s = (e, s1) \<Longrightarrow> conn_step ares parse enc md5 s e s1"
| connected: "work s = W_hub \<Longrightarrow> s1 = s\<lparr>con := on_connection (con s)\<rparr> \<Longrightarrow>
    e = (case auth md5 enc ts (con s1) of None \<Rightarrow> E_none | Some b \<Rightarrow> E_wire w b) \<Longrightarrow> conn_step ares parse enc md5 s e s1"
| message: "work s = W_hub \<Longrightarrow> conn_step ares parse enc md5 s E_none (on_message ares w m now s)"
| disconnected: "work s = W_hub \<Longrightarrow> conn_step ares parse enc md5 s E_none (s\<lparr>con := (con s)\<lparr>ws := None\<rparr>, work := W_cb Cb_test False\<rparr>)"
| failed: "work s = W_hub \<Longrightarrow> conn_step ares parse enc md5 s E_none (on_error s)"
| pong: "work s = W_hub \<Longrightarrow> conn_step ares parse enc md5 s E_none (s\<lparr>con := on_pong now (con s)\<rparr>)"
| keepalive: "keep_step now closes s = Some (e, s1) \<Longrightarrow> conn_step ares parse enc md5 s e s1"
| send: "sndr s = S_idle \<Longrightarrow> send_begin buf s = (r, s1) \<Longrightarrow>
    conn_step ares parse enc md5 s (case r of None \<Rightarrow> E_none | Some x \<Rightarrow> E_send x) s1"
| send_on: "sndr s = S_wait b \<Longrightarrow> send_test b s = (r, s1) \<Longrightarrow>
    conn_step ares parse enc md5 s (case r of None \<Rightarrow> E_none | Some x \<Rightarrow> E_send x) s1"
| send_ws: "sndr s = S_ready b \<Longrightarrow> ws (con s) = Some w \<Longrightarrow> conn_step ares parse enc md5 s (E_wire w b) (s\<lparr>sndr := S_done\<rparr>)"
| send_no_ws: "sndr s = S_ready b \<Longrightarrow> ws (con s) = None \<Longrightarrow> conn_step ares parse enc md5 s E_none (s\<lparr>sndr := S_done\<rparr>)"
| send_done: "sndr s = S_done \<Longrightarrow> conn_step ares parse enc md5 s (E_send SUCCESS) (s\<lparr>sndr := S_idle\<rparr>)"
| recv: "rcvr s = R_idle \<Longrightarrow> recv_begin parse t s = (r, s1) \<Longrightarrow>
    conn_step ares parse enc md5 s (case r of None \<Rightarrow> E_none | Some (x, y) \<Rightarrow> E_recv x y) s1"
| woken: "rcvr s = R_wait t b \<Longrightarrow> b \<or> 0 < t \<Longrightarrow> recv_woken parse s = ((x, y), s1) \<Longrightarrow>
    conn_step ares parse enc md5 s (E_recv x y) s1"
| spurious: "rcvr s = R_wait t b \<Longrightarrow> conn_step ares parse enc md5 s E_spurious (s\<lparr>rcvr := R_wait t True\<rparr>)"

inductive_cases conn_stepE: "conn_step ares parse enc md5 s e s'"

section \<open>What every run keeps\<close>

text \<open>The observer of the queue: what was queued and not yet returned by \<open>recv\<close>.\<close>

fun answer_of :: "(str \<Rightarrow> 'r option) \<Rightarrow> bin_resp \<Rightarrow> conn_result \<times> 'r option" where
  "answer_of parse b =
     (if btype b = DATA then (case parse (bytes b) of None \<Rightarrow> (INVALID_PB_DATA, None) | Some y \<Rightarrow> (SUCCESS, Some y))
      else (CONNECTION_BROKEN, None))"

fun follow_queue :: "(str \<Rightarrow> 'r option) \<Rightarrow> bin_resp list \<Rightarrow> 'r event \<Rightarrow> bin_resp list option" where
  "follow_queue parse q (E_accept m) = Some (q @ [\<lparr>btype = DATA, bytes = m\<rparr>])"
| "follow_queue parse q E_broken = Some (q @ [\<lparr>btype = BROKEN, bytes = []\<rparr>])"
| "follow_queue parse q (E_recv r x) =
     (if r = TIMEOUT \<or> r = NOT_READY then (if q = [] \<and> x = None then Some q else None)
      else (case q of [] \<Rightarrow> None | b # q1 \<Rightarrow> if (r, x) = answer_of parse b then Some q1 else None))"
| "follow_queue parse q e = Some q"

definition queued :: "bin_resp list \<Rightarrow> system \<Rightarrow> bool" where
  "queued q s \<longleftrightarrow> resps (con s) = q \<and> (app s = A_none \<longrightarrow> work s = W_none \<and> (keep s = K_none)) \<and> (\<forall>t. rcvr s = R_wait t False \<longrightarrow> q = [])"

lemma notify_waits [simp]: "notify r \<noteq> R_wait t False"
  by (cases r) simp_all

lemma on_disconnection_queued:
  assumes "on_disconnection x s = (e, y, s')" "queued q s"
  shows "\<exists>q'. follow_queue parse q e = Some q' \<and> resps (con s') = q' \<and> (\<forall>t. rcvr s' = R_wait t False \<longrightarrow> q' = []) \<and>
    app s' = app s \<and> work s' = work s \<and> keep s' = keep s"
  using assms by (cases x) (auto simp: queued_def push_error_resp_def split: if_splits)

lemma run_step_queued:
  fixes parse :: "str \<Rightarrow> 'r option"
  assumes "run_step now s = (e, s')" "queued q s"
  shows "\<exists>q'. follow_queue parse q e = Some q' \<and> queued q' s'"
proof (cases "work s")
  case (W_cb x nested)
  obtain e1 :: "'r event" and y s1 where d: "on_disconnection x s = (e1, y, s1)" by (metis prod_cases3)
  show ?thesis
    using on_disconnection_queued [OF d assms(2), of parse] assms d W_cb by (auto simp: run_step_def queued_def)
qed (use assms in \<open>auto simp: queued_def auth_ready_def push_resp_data_def error_reset_def run_step_def split: if_splits\<close>)

lemma keep_step_queued:
  fixes parse :: "str \<Rightarrow> 'r option"
  assumes "keep_step now closes s = Some (e, s')" "queued q s"
  shows "\<exists>q'. follow_queue parse q e = Some q' \<and> queued q' s'"
proof (cases "keep s")
  case (K_cb x t)
  obtain e1 :: "'r event" and y s1 where d: "on_disconnection x s = (e1, y, s1)" by (metis prod_cases3)
  show ?thesis
    using on_disconnection_queued [OF d assms(2), of parse] assms d K_cb by (auto simp: keep_step_def queued_def)
qed (use assms in \<open>auto simp: queued_def keep_step_def keepalive_ping_def keepalive_terminate_def
      split: bind_splits if_splits option.splits prod.splits\<close>)

lemma close_step_queued:
  fixes parse :: "str \<Rightarrow> 'r option"
  assumes "close_step another s = (e, s')" "queued q s"
  shows "\<exists>q'. follow_queue parse q e = Some q' \<and> queued q' s'"
proof (cases "app s")
  case (A_cb x)
  obtain e1 :: "'r event" and y s1 where d: "on_disconnection x s = (e1, y, s1)" by (metis prod_cases3)
  show ?thesis
    using on_disconnection_queued [OF d assms(2), of parse] assms d A_cb by (auto simp: close_step_def queued_def split: option.splits)
qed (use assms in \<open>auto simp: queued_def close_step_def split: if_splits\<close>)

lemma on_message_queued: "queued q s \<Longrightarrow> work s = W_hub \<Longrightarrow> queued q (on_message ares w m now s)"
  by (auto simp: queued_def on_message_def Let_def auth_failed_def split: stage.split option.split)

lemma recv_take_queued:
  assumes "queued q s" "recv_take parse (con s) = ((x, y), c)" "s' = s\<lparr>con := c\<rparr> \<and> resps (con s) \<noteq> [] \<or> s' = s\<lparr>con := c, rcvr := R_idle\<rparr>"
  shows "\<exists>q'. follow_queue parse q (E_recv x y) = Some q' \<and> queued q' s'"
  using assms by (cases q) (auto simp: queued_def recv_take_def split: if_splits option.splits)

lemma conn_step_queued:
  assumes "queued q s" "conn_step ares parse enc md5 s e s'"
  shows "\<exists>q'. follow_queue parse q e = Some q' \<and> queued q' s'"
  using assms(2)
proof cases
  case (run now)
  then show ?thesis using run_step_queued [OF _ assms(1)] by simp
next
  case (keepalive now closes)
  then show ?thesis using keep_step_queued [OF _ assms(1)] by blast
next
  case (closing another)
  then show ?thesis using close_step_queued [OF _ assms(1)] by blast
next
  case (message m w now)
  then show ?thesis using on_message_queued [OF assms(1)] by auto
next
  case (recv t r)
  show ?thesis
  proof (cases "resps (con s) = []")
    case True
    then show ?thesis using assms(1) recv by (auto simp: recv_begin_def queued_def)
  next
    case False
    then obtain x y c where t: "recv_take parse (con s) = ((x, y), c)" "s' = s\<lparr>con := c\<rparr>" "e = E_recv x y"
      using recv by (auto simp: recv_begin_def split: prod.splits)
    from recv_take_queued [OF assms(1) t(1) disjI1] t(2) False show ?thesis by (simp add: t(3))
  qed
next
  case (woken t b x y)
  then obtain c where "recv_take parse (con s) = ((x, y), c)" "s' = s\<lparr>con := c, rcvr := R_idle\<rparr>"
    by (auto simp: recv_woken_def split: prod.splits)
  from recv_take_queued [OF assms(1) this(1) disjI2 [OF this(2)]] show ?thesis by (simp add: woken(1))
next
  case (send buf r)
  then show ?thesis using assms(1) by (auto simp: queued_def send_begin_def split: option.splits)
next
  case (send_on b r)
  then show ?thesis using assms(1) by (auto simp: queued_def send_test_def split: if_splits)
next
  case (connected ts w)
  then show ?thesis using assms(1) by (auto simp: queued_def on_connection_def split: option.split)
next
  case init
  then show ?thesis using assms(1) by (auto simp: queued_def initialize_def)
next
  case joined
  then show ?thesis using assms(1) by (auto simp: queued_def release_joined_def)
next
  case release
  then show ?thesis using assms(1) by (auto simp: queued_def release_begin_def)
next
  case failed
  then show ?thesis using assms(1) by (auto simp: queued_def on_error_def)
qed (use assms(1) in \<open>auto simp: queued_def on_pong_def\<close>)

interpretation conn: observed "conn_step ares parse enc md5" "follow_queue parse" queued for ares parse enc md5
  by unfold_locales (rule conn_step_queued)

lemma queued_init: "queued [] system_init"
  by (simp add: queued_def system_init_def conn_new_def)

end
