(* ===== verification/Requests.thy ===== *)
theory Requests
  imports EncoderSpec Tts Connection
begin

text \<open>
  The requests the clients build and send: the calls of the setters in \<open>SpeechImpl::do_request\<close>,
  \<open>TtsImpl::do_request\<close>, \<open>SpeechConnection::auth\<close> and \<open>send_trace_info\<close>, with the options of the speech
  client, and the bytes that leave the client.
\<close>

section \<open>The options of the speech client\<close>

datatype lang = ZH | EN
datatype vad_mode = LOCAL | CLOUD

record speech_options =
  so_lang :: lang
  so_codec :: codec
  so_vad_mode :: vad_mode
  so_vend_timeout :: u32
  so_vad_begin :: u32
  so_no_nlp :: bool
  so_no_intermediate_asr :: bool
  so_no_trigger_confirm :: bool

definition speech_options_new :: speech_options where
  "speech_options_new = \<lparr>so_lang = ZH, so_codec = PCM, so_vad_mode = LOCAL, so_vend_timeout = 0, so_vad_begin = 0,
     so_no_nlp = False, so_no_intermediate_asr = False, so_no_trigger_confirm = False\<rparr>"

text \<open>\<open>SpeechOptionsModifier\<close>: the options with the mask of those that were set.\<close>

definition MODIFY_LANG :: u32 where "MODIFY_LANG = 1"
definition SPEECH_MODIFY_CODEC :: u32 where "SPEECH_MODIFY_CODEC = 2"
definition MODIFY_VADMODE :: u32 where "MODIFY_VADMODE = 4"
definition MODIFY_NO_NLP :: u32 where "MODIFY_NO_NLP = 8"
definition MODIFY_NO_INTERMEDIATE_ASR :: u32 where "MODIFY_NO_INTERMEDIATE_ASR = 0x10"
definition MODIFY_VAD_BEGIN :: u32 where "MODIFY_VAD_BEGIN = 0x20"
definition MODIFY_NO_TRIGGER_CONFIRM :: u32 where "MODIFY_NO_TRIGGER_CONFIRM = 0x40"

record speech_modifier = speech_options +
  so_mask :: u32

definition speech_modifier_new :: speech_modifier where
  "speech_modifier_new = speech_options.extend speech_options_new \<lparr>so_mask = 0\<rparr>"

unbundle bit_operations_syntax

datatype option_call = Set_lang lang | Set_codec codec | Set_vad_mode vad_mode u32 | Set_no_nlp bool
  | Set_no_intermediate_asr bool | Set_vad_begin u32 | Set_no_trigger_confirm bool

primrec set_speech_option :: "option_call \<Rightarrow> speech_modifier \<Rightarrow> speech_modifier" where
  "set_speech_option (Set_lang x) m = m\<lparr>so_lang := x, so_mask := so_mask m OR MODIFY_LANG\<rparr>"
| "set_speech_option (Set_codec x) m = m\<lparr>so_codec := x, so_mask := so_mask m OR SPEECH_MODIFY_CODEC\<rparr>"
| "set_speech_option (Set_vad_mode x t) m = m\<lparr>so_vad_mode := x, so_vend_timeout := t, so_mask := so_mask m OR MODIFY_VADMODE\<rparr>"
| "set_speech_option (Set_no_nlp x) m = m\<lparr>so_no_nlp := x, so_mask := so_mask m OR MODIFY_NO_NLP\<rparr>"
| "set_speech_option (Set_no_intermediate_asr x) m = m\<lparr>so_no_intermediate_asr := x, so_mask := so_mask m OR MODIFY_NO_INTERMEDIATE_ASR\<rparr>"
| "set_speech_option (Set_vad_begin x) m = m\<lparr>so_vad_begin := x, so_mask := so_mask m OR MODIFY_VAD_BEGIN\<rparr>"
| "set_speech_option (Set_no_trigger_confirm x) m = m\<lparr>so_no_trigger_confirm := x, so_mask := so_mask m OR MODIFY_NO_TRIGGER_CONFIRM\<rparr>"

definition modify_speech :: "speech_modifier \<Rightarrow> speech_options \<Rightarrow> speech_options" where
  "modify_speech m p =
     (let p = (if so_mask m AND MODIFY_LANG \<noteq> 0 then p\<lparr>so_lang := so_lang m\<rparr> else p);
          p = (if so_mask m AND SPEECH_MODIFY_CODEC \<noteq> 0 then p\<lparr>so_codec := so_codec m\<rparr> else p);
          p = (if so_mask m AND MODIFY_VADMODE \<noteq> 0
               then p\<lparr>so_vad_mode := so_vad_mode m, so_vend_timeout := so_vend_timeout m\<rparr> else p);
          p = (if so_mask m AND MODIFY_NO_NLP \<noteq> 0 then p\<lparr>so_no_nlp := so_no_nlp m\<rparr> else p);
          p = (if so_mask m AND MODIFY_NO_INTERMEDIATE_ASR \<noteq> 0 then p\<lparr>so_no_intermediate_asr := so_no_intermediate_asr m\<rparr> else p);
          p = (if so_mask m AND MODIFY_VAD_BEGIN \<noteq> 0 then p\<lparr>so_vad_begin := so_vad_begin m\<rparr> else p) in
      if so_mask m AND MODIFY_NO_TRIGGER_CONFIRM \<noteq> 0 then p\<lparr>so_no_trigger_confirm := so_no_trigger_confirm m\<rparr> else p)"

definition speech_config :: "speech_modifier option \<Rightarrow> speech_options \<Rightarrow> speech_options" where
  "speech_config m p = (case m of None \<Rightarrow> p | Some m \<Rightarrow> modify_speech m p)"

section \<open>The requests\<close>

text \<open>\<open>VoiceOptions\<close>; \<open>voice_power\<close> is the bits of a float.\<close>

record voice_options =
  vo_stack :: str
  vo_voice_trigger :: str
  vo_trigger_start :: u32
  vo_trigger_length :: u32
  vo_voice_power :: u32
  vo_skill_options :: str
  vo_voice_extra :: str

definition lang_number :: "lang \<Rightarrow> u32" where
  "lang_number x = (case x of ZH \<Rightarrow> 0 | EN \<Rightarrow> 1)"

definition codec_number :: "codec \<Rightarrow> u32" where
  "codec_number x = (case x of PCM \<Rightarrow> 0 | OPU \<Rightarrow> 1 | OPU2 \<Rightarrow> 2 | MP3 \<Rightarrow> 3)"

definition vad_number :: "vad_mode \<Rightarrow> u32" where
  "vad_number x = (case x of LOCAL \<Rightarrow> 0 | CLOUD \<Rightarrow> 1)"

text \<open>\<open>al\<close> is where the options encoder is allocated.\<close>

definition req_config :: "(string \<Rightarrow> addr) \<Rightarrow> speech_options \<Rightarrow> voice_options option \<Rightarrow> call list" where
  "req_config al so vo =
     [Options al,
      SetOption ''set_lang'' (Int32 (lang_number (so_lang so))),
      SetOption ''set_codec'' (Int32 (codec_number (so_codec so))),
      SetOption ''set_vad_mode'' (Int32 (vad_number (so_vad_mode so))),
      SetOption ''set_vend_timeout'' (Uint32 (so_vend_timeout so)),
      SetOption ''set_no_nlp'' (Bool (so_no_nlp so)),
      SetOption ''set_no_intermediate_asr'' (Bool (so_no_intermediate_asr so)),
      SetOption ''set_vad_begin'' (Uint32 (so_vad_begin so)),
      SetOption ''set_no_trigger_confirm'' (Bool (so_no_trigger_confirm so))] @
     (case vo of
        None \<Rightarrow> []
      | Some v \<Rightarrow>
          [SetOption ''set_stack'' (Text (vo_stack v)),
           SetOption ''set_voice_trigger'' (Text (vo_voice_trigger v)),
           SetOption ''set_voice_power'' (Float (vo_voice_power v)),
           SetOption ''set_trigger_start'' (Uint32 (vo_trigger_start v)),
           SetOption ''set_trigger_length'' (Uint32 (vo_trigger_length v)),
           SetOption ''set_skill_options'' (Text (vo_skill_options v)),
           SetOption ''set_voice_extra'' (Text (vo_voice_extra v))])"

definition request_type_number :: "Speech.wire_type \<Rightarrow> u32" where
  "request_type_number x = (case x of W_START \<Rightarrow> 0 | W_VOICE \<Rightarrow> 1 | W_END \<Rightarrow> 2 | W_TEXT \<Rightarrow> 3)"

text \<open>The calls for a request that \<open>do_request\<close> sends, given by its fields as in Speech.\<close>

definition speech_calls :: "(string \<Rightarrow> addr) \<Rightarrow> speech_options \<Rightarrow> voice_options wire_req \<Rightarrow> call list" where
  "speech_calls al so w =
     [Set ''set_id'' (Int32 (word_of_int (w_id w))), Set ''set_type'' (Int32 (request_type_number (w_type w)))] @
     (case w_data w of
        None \<Rightarrow> []
      | Some d \<Rightarrow> [Set (if w_type w = W_TEXT then ''set_asr'' else ''set_voice'') (Text d)]) @
     (case w_config w of None \<Rightarrow> [] | Some vo \<Rightarrow> req_config al so vo)"

text \<open>The text goes through \<open>c_str\<close>; the name of the codec is not NULL for a codec of the enumeration.\<close>

definition get_codec_str :: "codec \<Rightarrow> str" where
  "get_codec_str x = ascii (case x of PCM \<Rightarrow> ''pcm'' | OPU \<Rightarrow> ''opu'' | OPU2 \<Rightarrow> ''opu2'' | MP3 \<Rightarrow> ''mp3'')"

definition tts_calls :: "tts_wire \<Rightarrow> call list" where
  "tts_calls w =
     [Set ''set_id'' (Int32 (word_of_int (tw_id w))), Set ''set_text'' (Text (c_str (tw_text w))),
      Set ''set_declaimer'' (Text (declaimer (tw_options w))),
      Set ''set_codec'' (Text (get_codec_str (codec (tw_options w)))),
      Set ''set_sample_rate'' (Uint32 (samplerate (tw_options w)))]"

definition auth_calls :: "auth_request \<Rightarrow> call list" where
  "auth_calls a =
     [Set ''set_key'' (Text (a_key a)), Set ''set_device_type_id'' (Text (a_device_type_id a)),
      Set ''set_device_id'' (Text (a_device_id a)), Set ''set_service'' (Text (a_service a)),
      Set ''set_version'' (Text (a_version a)), Set ''set_timestamp'' (Text (a_timestamp a)), Set ''set_sign'' (Text (a_sign a))]"

text \<open>
  \<open>send_trace_info\<close> for the front of the trace list, with the clock in milliseconds since the epoch: the
  payload of the ping, None when nothing is sent.
\<close>

record trace_info =
  ti_id :: u32
  ti_req_tp :: u64
  ti_resp_tp :: u64

definition trace_calls :: "u64 \<Rightarrow> trace_info \<Rightarrow> call list" where
  "trace_calls now i =
     [Set ''set_req_id'' (Int32 (ti_id i)), Set ''set_now_tp'' (Uint64 now), Set ''set_req_tp'' (Uint64 (ti_req_tp i)),
      Set ''set_resp_tp'' (Uint64 (ti_resp_tp i))]"

end
