(* ===== verification/RequestsSpec.thy ===== *)
theory RequestsSpec
  imports Requests
begin

text \<open>
  What the clients put on the wire: the fields of each request in the order of the tables, through
  the objects, the encoder and its buffer; and the payload of the ping, which loses a time.
\<close>

section \<open>The bytes of the requests\<close>

definition num_field :: "nat \<Rightarrow> u64 \<Rightarrow> byte list" where
  "num_field n v = tag_bytes (PB_WT_VARINT, of_nat n) @ varint_bytes v"

definition text_field :: "nat \<Rightarrow> byte list \<Rightarrow> byte list" where
  "text_field n s = tag_bytes (PB_WT_STRING, of_nat n) @ string_bytes s"

definition float_field :: "nat \<Rightarrow> u32 \<Rightarrow> byte list" where
  "float_field n w = tag_bytes (PB_WT_32BIT, of_nat n) @ fixed32_bytes w"

definition options_sent :: "speech_options \<Rightarrow> voice_options option \<Rightarrow> byte list" where
  "options_sent so vo =
     num_field 1 (ucast (lang_number (so_lang so))) @ num_field 2 (ucast (codec_number (so_codec so))) @
     num_field 3 (ucast (vad_number (so_vad_mode so))) @ num_field 4 (ucast (so_vend_timeout so)) @
     num_field 5 (of_bool (so_no_nlp so)) @ num_field 6 (of_bool (so_no_intermediate_asr so)) @
     (case vo of
        None \<Rightarrow> []
      | Some v \<Rightarrow> text_field 7 (vo_stack v) @ text_field 8 (vo_voice_trigger v) @ float_field 9 (vo_voice_power v) @
          num_field 10 (ucast (vo_trigger_start v)) @ num_field 11 (ucast (vo_trigger_length v)) @
          text_field 12 (vo_skill_options v) @ text_field 13 (vo_voice_extra v)) @
     num_field 14 (ucast (so_vad_begin so)) @ num_field 15 (of_bool (so_no_trigger_confirm so))"

text \<open>A negative identifier would go out with its sign extended to 64 bits.\<close>

definition speech_wire :: "speech_options \<Rightarrow> voice_options wire_req \<Rightarrow> byte list" where
  "speech_wire so w =
     num_field 1 (scast (word_of_int (w_id w) :: u32)) @ num_field 2 (ucast (request_type_number (w_type w))) @
     (case w_data w of None \<Rightarrow> [] | Some d \<Rightarrow> text_field (if w_type w = W_TEXT then 4 else 3) d) @
     (case w_config w of None \<Rightarrow> [] | Some vo \<Rightarrow> text_field 5 (options_sent so vo))"

lemma fixed_values [simp]:
  "le_value (le_bytes 4 (unat (w :: u32))) = unat w" "le_value (le_bytes 8 (unat (v :: u64))) = unat v"
  "le_value [of_bool b] = of_bool b"
proof -
  have "unat w < 2 ^ LENGTH(32)" by (rule unsigned_less)
  also have "2 ^ LENGTH(32) = (256 :: nat) ^ 4" by simp
  finally show "le_value (le_bytes 4 (unat w)) = unat w" by (rule le_value_bytes)
  have "unat v < 2 ^ LENGTH(64)" by (rule unsigned_less)
  also have "2 ^ LENGTH(64) = (256 :: nat) ^ 8" by simp
  finally show "le_value (le_bytes 8 (unat v)) = unat v" by (rule le_value_bytes)
  show "le_value [of_bool b] = of_bool b" by (cases b) simp_all
qed

lemma number_wire_simps:
  "number_wire INT32 (unat w) = varint_bytes (scast w)" "number_wire UENUM (unat w) = varint_bytes (ucast w)"
  "number_wire UINT32 (unat w) = varint_bytes (ucast w)" "number_wire UINT64 (unat v) = varint_bytes v"
  "number_wire BOOL (of_bool b) = varint_bytes (of_bool b)" "number_wire FLOAT (unat w) = fixed32_bytes w"
  for w :: u32 and v :: u64
proof -
  have "(of_nat (unat w) :: u32) = w" "(of_nat (unat w) :: u64) = ucast w" "(of_nat (unat v) :: u64) = v"
    by simp_all
  moreover have "(scast (of_nat (of_bool b) :: byte) :: u64) = of_bool b" by (cases b) simp_all
  ultimately show "number_wire INT32 (unat w) = varint_bytes (scast w)" "number_wire UENUM (unat w) = varint_bytes (ucast w)"
    "number_wire UINT32 (unat w) = varint_bytes (ucast w)" "number_wire UINT64 (unat v) = varint_bytes v"
    "number_wire BOOL (of_bool b) = varint_bytes (of_bool b)" "number_wire FLOAT (unat w) = fixed32_bytes w"
    unfolding number_wire_def by (simp_all only: pb_kind.distinct if_False if_True simp_thms)
qed

lemma put_simps:
  "put_contents SpeechOptionsEnc_class ''set_lang'' v vs = vs(''lang'' \<mapsto> arg_contents v)"
  "put_contents SpeechOptionsEnc_class ''set_codec'' v vs = vs(''codec'' \<mapsto> arg_contents v)"
  "put_contents SpeechOptionsEnc_class ''set_vad_mode'' v vs = vs(''vad_mode'' \<mapsto> arg_contents v)"
  "put_contents SpeechOptionsEnc_class ''set_vend_timeout'' v vs = vs(''vend_timeout'' \<mapsto> arg_contents v)"
  "put_contents SpeechOptionsEnc_class ''set_no_nlp'' v vs = vs(''no_nlp'' \<mapsto> arg_contents v)"
  "put_contents SpeechOptionsEnc_class ''set_no_intermediate_asr'' v vs = vs(''no_intermediate_asr'' \<mapsto> arg_contents v)"
  "put_contents SpeechOptionsEnc_class ''set_stack'' v vs = vs(''stack'' \<mapsto> arg_contents v)"
  "put_contents SpeechOptionsEnc_class ''set_voice_trigger'' v vs = vs(''voice_trigger'' \<mapsto> arg_contents v)"
  "put_contents SpeechOptionsEnc_class ''set_voice_power'' v vs = vs(''voice_power'' \<mapsto> arg_contents v)"
  "put_contents SpeechOptionsEnc_class ''set_trigger_start'' v vs = vs(''trigger_start'' \<mapsto> arg_contents v)"
  "put_contents SpeechOptionsEnc_class ''set_trigger_length'' v vs = vs(''trigger_length'' \<mapsto> arg_contents v)"
  "put_contents SpeechOptionsEnc_class ''set_skill_options'' v vs = vs(''skill_options'' \<mapsto> arg_contents v)"
  "put_contents SpeechOptionsEnc_class ''set_voice_extra'' v vs = vs(''voice_extra'' \<mapsto> arg_contents v)"
  "put_contents SpeechOptionsEnc_class ''set_vad_begin'' v vs = vs(''vad_begin'' \<mapsto> arg_contents v)"
  "put_contents SpeechOptionsEnc_class ''set_no_trigger_confirm'' v vs = vs(''no_trigger_confirm'' \<mapsto> arg_contents v)"
  "put_contents SpeechRequest_class ''set_id'' v vs = vs(''id'' \<mapsto> arg_contents v)"
  "put_contents SpeechRequest_class ''set_type'' v vs = vs(''type'' \<mapsto> arg_contents v)"
  "put_contents SpeechRequest_class ''set_voice'' v vs = vs(''voice'' \<mapsto> arg_contents v)"
  "put_contents SpeechRequest_class ''set_asr'' v vs = vs(''asr'' \<mapsto> arg_contents v)"
  by (simp_all add: put_contents_def SpeechOptionsEnc_class_def SpeechRequest_class_def)

definition config_values :: "speech_options \<Rightarrow> voice_options option \<Rightarrow> contents_of" where
  "config_values so vo =
     (let os = [''lang'' \<mapsto> Num (unat (lang_number (so_lang so))), ''codec'' \<mapsto> Num (unat (codec_number (so_codec so))),
        ''vad_mode'' \<mapsto> Num (unat (vad_number (so_vad_mode so))), ''vend_timeout'' \<mapsto> Num (unat (so_vend_timeout so)),
        ''no_nlp'' \<mapsto> Num (of_bool (so_no_nlp so)), ''no_intermediate_asr'' \<mapsto> Num (of_bool (so_no_intermediate_asr so)),
        ''vad_begin'' \<mapsto> Num (unat (so_vad_begin so)), ''no_trigger_confirm'' \<mapsto> Num (of_bool (so_no_trigger_confirm so))] in
      case vo of
        None \<Rightarrow> os
      | Some v \<Rightarrow> os(''stack'' \<mapsto> Str (vo_stack v), ''voice_trigger'' \<mapsto> Str (vo_voice_trigger v),
          ''voice_power'' \<mapsto> Num (unat (vo_voice_power v)), ''trigger_start'' \<mapsto> Num (unat (vo_trigger_start v)),
          ''trigger_length'' \<mapsto> Num (unat (vo_trigger_length v)), ''skill_options'' \<mapsto> Str (vo_skill_options v),
          ''voice_extra'' \<mapsto> Str (vo_voice_extra v)))"

lemma config_calls:
  "fold (put_call cls) (req_config al so vo) \<lparr>v_own = own, v_options = None\<rparr> = \<lparr>v_own = own, v_options = Some (config_values so vo)\<rparr>"
  by (cases vo) (simp_all add: req_config_def config_values_def put_simps)

lemma options_values: "options_wire (config_values so vo) = options_sent so vo"
  by (cases vo) (simp_all add: options_wire_def config_values_def options_sent_def SpeechOptions_lines_def line_wire_def
    number_of_def number_wire_simps num_field_def text_field_def float_field_def)

lemma speech_values: "request_wire SpeechRequest_class (values_after SpeechRequest_class (speech_calls al so w)) = speech_wire so w"
proof -
  define own where "own = (case w_data w of None \<Rightarrow> Map.empty | Some d \<Rightarrow> [if w_type w = W_TEXT then ''asr'' else ''voice'' \<mapsto> Str d])
      (''id'' \<mapsto> Num (unat (word_of_int (w_id w) :: u32)), ''type'' \<mapsto> Num (unat (request_type_number (w_type w))))"
  have "values_after SpeechRequest_class (speech_calls al so w) = \<lparr>v_own = own, v_options = map_option (config_values so) (w_config w)\<rparr>"
    by (cases "w_data w"; cases "w_config w")
      (simp_all add: values_after_def speech_calls_def put_simps config_calls own_def fun_upd_twist)
  then show ?thesis
    by (cases "w_data w"; cases "w_config w")
      (simp_all add: request_wire_def SpeechRequest_class_def SpeechRequest_lines_def line_wire_def own_def options_values
        number_of_def number_wire_simps num_field_def text_field_def speech_wire_def)
qed

lemma tts_values:
  "request_wire TtsRequest_class (values_after TtsRequest_class (tts_calls w)) =
     num_field 1 (scast (word_of_int (tw_id w) :: u32)) @ text_field 2 (c_str (tw_text w)) @ text_field 3 (declaimer (tw_options w)) @
     text_field 4 (get_codec_str (codec (tw_options w))) @ num_field 5 (ucast (samplerate (tw_options w)))"
  by (simp add: values_after_def tts_calls_def put_contents_def TtsRequest_class_def request_wire_def TtsRequest_lines_def line_wire_def
    number_of_def number_wire_simps num_field_def text_field_def)

lemma auth_values:
  "request_wire AuthRequest_class (values_after AuthRequest_class (auth_calls a)) =
     text_field 1 (a_key a) @ text_field 2 (a_device_type_id a) @ text_field 3 (a_device_id a) @ text_field 4 (a_service a) @
     text_field 5 (a_version a) @ text_field 6 (a_timestamp a) @ text_field 7 (a_sign a)"
  by (simp add: values_after_def auth_calls_def put_contents_def AuthRequest_class_def request_wire_def AuthRequest_lines_def line_wire_def
    text_field_def)

lemma trace_values:
  "request_wire PingPayload_class (values_after PingPayload_class (trace_calls now i)) =
     num_field 1 (scast (ti_id i)) @ num_field 2 now @ num_field 3 (ti_resp_tp i) @ num_field 4 0"
  by (simp add: values_after_def trace_calls_def put_contents_def PingPayload_class_def request_wire_def PingPayload_lines_def line_wire_def
    number_of_def number_wire_simps num_field_def text_field_def) (simp add: number_wire_def)

section \<open>Sending\<close>

text \<open>What a client passes to the connection: the object of a class built by some calls, serialized.\<close>

definition serialized :: "request_class \<Rightarrow> addr \<Rightarrow> (string \<Rightarrow> addr) \<Rightarrow> addr \<Rightarrow> memory \<Rightarrow> (addr \<Rightarrow> byte list option) \<Rightarrow> byte list \<Rightarrow> call list \<Rightarrow> byte list option c" where
  "serialized cls fn cell dest m w buf cs = do {
     r \<leftarrow> new_request cls cell dest m w;
     r1 \<leftarrow> run_calls cls fn cell dest cs r;
     (s, _) \<leftarrow> SerializeToString cls fn dest buf r1;
     Some s }"

lemma serialized_wire:
  assumes "cls \<in> set object_classes" "0 < dest" "nat dest + size_of (q_struct cls) \<le> length m" "cells_ok cls cell" "0 < fn" "fn < 2 ^ 32"
    and "calls_ok cls (map cell (class_strings cls)) False cs" "length buf = encodeBuffer_size"
    and "wire = request_wire cls (values_after cls cs)" "fits wire"
  shows "serialized cls fn cell dest m w buf cs = Some (if length wire \<le> encodeBuffer_size then Some wire else None)"
proof -
  obtain m1 where "sto m dest (replicate (size_of (q_struct cls)) 0) = Some m1"
    using sto_Some [OF assms(2), of "replicate (size_of (q_struct cls)) 0" m] assms(3) by auto
  then obtain r where r: "new_request cls cell dest m w = Some r" by (simp add: new_request_def)
  show ?thesis using serialize_sends_values [OF assms(1) r assms(4-10)] r by (auto simp: serialized_def)
qed

lemma speech_calls_typed:
  assumes "cells_ok SpeechOptionsEnc_class al" "\<And>x. x \<in> set (class_strings SpeechOptionsEnc_class) \<Longrightarrow> al x \<notin> set U"
  shows "calls_ok SpeechRequest_class U False (speech_calls al so w)"
  using assms
  by (cases "w_data w"; cases "w_config w"; cases "the (w_config w)")
    (auto simp: speech_calls_def req_config_def list_all_iff call_typed_def SpeechRequest_class_def SpeechOptionsEnc_class_def
      setter_typed_def SpeechRequest_lines_def SpeechOptions_lines_def)

lemma num_field_short: "length (num_field n v) \<le> 16"
proof -
  have "unat (of_nat n :: u32) < 2 ^ LENGTH(32)" by (rule unsigned_less)
  moreover have "unat PB_WT_VARINT = 0" by (simp add: wire_types)
  ultimately have "unat (of_nat n :: u32) * 8 + unat PB_WT_VARINT < 128 ^ Suc 5" by simp
  from varint_length [OF this] show ?thesis
    using varint_length_u64 [of v] by (simp add: num_field_def tag_bytes_def varint_bytes_def)
qed

lemma trace_typed: "calls_ok PingPayload_class U False (trace_calls now i)" "cells_ok PingPayload_class cell"
  by (simp_all add: trace_calls_def call_typed_def PingPayload_class_def setter_typed_def PingPayload_lines_def cells_ok_def
    class_strings_def map_filter_simps)

text \<open>The request of the text-to-speech client, and the bytes of \<open>auth\<close> with the encoder for its argument.\<close>

lemma tts_request_sent:
  assumes "0 < dest" "nat dest + size_of TtsRequest \<le> length m" "0 < fn" "fn < 2 ^ 32" "cells_ok TtsRequest_class cell"
    and "length buf = encodeBuffer_size" "fits wire"
    and "wire = num_field 1 (scast (word_of_int (tw_id w) :: u32)) @ text_field 2 (c_str (tw_text w)) @ text_field 3 (declaimer (tw_options w)) @
      text_field 4 (get_codec_str (codec (tw_options w))) @ num_field 5 (ucast (samplerate (tw_options w)))"
  shows "serialized TtsRequest_class fn cell dest m strs buf (tts_calls w) = Some (if length wire \<le> encodeBuffer_size then Some wire else None)"
proof (rule serialized_wire)
  show "calls_ok TtsRequest_class (map cell (class_strings TtsRequest_class)) False (tts_calls w)"
    by (simp add: tts_calls_def call_typed_def TtsRequest_class_def setter_typed_def TtsRequest_lines_def)
qed (use assms in \<open>simp_all add: object_classes_def TtsRequest_class_def [THEN arg_cong, of q_struct, simplified] tts_values\<close>)

lemma auth_request_sent:
  assumes "0 < dest" "nat dest + size_of AuthRequest \<le> length m" "0 < fn" "fn < 2 ^ 32" "cells_ok AuthRequest_class cell"
    and "length buf = encodeBuffer_size" "fits wire" "length wire \<le> encodeBuffer_size"
    and "key (opts c) \<noteq> []" "device_type_id (opts c) \<noteq> []" "device_id (opts c) \<noteq> []" "secret (opts c) \<noteq> []"
    and "wire = text_field 1 (key (opts c)) @ text_field 2 (device_type_id (opts c)) @ text_field 3 (device_id (opts c)) @
      text_field 4 (c_str (service c)) @ text_field 5 api_version @ text_field 6 ts @
      text_field 7 (generate_sign md5 (c_str (key (opts c))) (c_str (device_type_id (opts c))) (c_str (device_id (opts c)))
        (c_str (service c)) api_version (c_str ts) (c_str (secret (opts c))))"
  shows "auth md5 (\<lambda>a. the (serialized AuthRequest_class fn cell dest m strs buf (auth_calls a))) ts c = Some wire"
proof -
  have "serialized AuthRequest_class fn cell dest m strs buf (auth_calls a) =
      Some (if length (request_wire AuthRequest_class (values_after AuthRequest_class (auth_calls a))) \<le> encodeBuffer_size
        then Some (request_wire AuthRequest_class (values_after AuthRequest_class (auth_calls a))) else None)"
    if "fits (request_wire AuthRequest_class (values_after AuthRequest_class (auth_calls a)))" for a
  proof (rule serialized_wire)
    show "calls_ok AuthRequest_class (map cell (class_strings AuthRequest_class)) False (auth_calls a)"
      by (simp add: auth_calls_def call_typed_def AuthRequest_class_def setter_typed_def AuthRequest_lines_def)
  qed (use assms that in \<open>simp_all add: object_classes_def AuthRequest_class_def [THEN arg_cong, of q_struct, simplified]\<close>)
  then show ?thesis using assms(7-13) by (simp add: auth_def Let_def auth_values)
qed

section \<open>Properties of the requests\<close>

text \<open>
  C38. What the speech client sends for a request: its identifier and type, the voice or the text, and
  for a text or the start of a voice the options of the client and, when the application gave some,
  of the request, every option present with its value; a request whose encoding exceeds the
  buffer of 1 MB is not sent.
\<close>

theorem speech_request_sent:
  assumes "0 < dest" "nat dest + size_of SpeechRequest \<le> length m" "0 < fn" "fn < 2 ^ 32"
    and "cells_ok SpeechRequest_class cell" "cells_ok SpeechOptionsEnc_class al"
    and "\<And>x. x \<in> set (class_strings SpeechOptionsEnc_class) \<Longrightarrow> al x \<notin> set (map cell (class_strings SpeechRequest_class))"
    and "length buf = encodeBuffer_size" "fits (speech_wire so w)"
  shows "serialized SpeechRequest_class fn cell dest m strs buf (speech_calls al so w) =
    Some (if length (speech_wire so w) \<le> encodeBuffer_size then Some (speech_wire so w) else None)"
proof (rule serialized_wire)
  show "calls_ok SpeechRequest_class (map cell (class_strings SpeechRequest_class)) False (speech_calls al so w)"
    using assms(6,7) by (rule speech_calls_typed)
qed (use assms in \<open>simp_all add: object_classes_def SpeechRequest_class_def [THEN arg_cong, of q_struct, simplified] speech_values\<close>)

definition start_request :: "voice_options wire_req" where
  "start_request = \<lparr>w_id = 3, w_type = W_START, w_data = None, w_config = Some None\<rparr>"

lemma start_wire: "speech_wire speech_options_new start_request =
    [8, 3, 16, 0, 42, 16, 8, 0, 16, 0, 24, 0, 32, 0, 40, 0, 48, 0, 112, 0, 120, 0]"
  by code_simp

theorem speech_request_sent_witness:
  "serialized SpeechRequest_class 4096 example_cells 8 (replicate 200 170) (\<lambda>_. None) (replicate encodeBuffer_size 0)
      (speech_calls example_options speech_options_new start_request) =
    Some (if length (speech_wire speech_options_new start_request) \<le> encodeBuffer_size
      then Some (speech_wire speech_options_new start_request) else None)"
proof (rule speech_request_sent)
  show "nat 8 + size_of SpeechRequest \<le> length (replicate 200 170 :: memory)" by code_simp
  show "cells_ok SpeechRequest_class example_cells" "cells_ok SpeechOptionsEnc_class example_options" by code_simp+
  have "list_all (\<lambda>x. example_options x \<notin> set (map example_cells (class_strings SpeechRequest_class))) (class_strings SpeechOptionsEnc_class)"
    by code_simp
  then show "\<And>x. x \<in> set (class_strings SpeechOptionsEnc_class) \<Longrightarrow> example_options x \<notin> set (map example_cells (class_strings SpeechRequest_class))"
    unfolding list_all_iff by blast
  show "fits (speech_wire speech_options_new start_request)" by (simp add: start_wire)
qed simp_all

text \<open>
  C39. The trace of a request loses the time of the response: \<open>send_trace_info\<close> calls the setters of the
  request and of the response time, and the latter overwrites the former. The payload of the ping has
  the response time as the request time and 0 as the response time, whatever they are.
\<close>

theorem trace_loses_response_time:
  assumes "0 < dest" "nat dest + size_of PingPayload \<le> length m" "0 < fn" "fn < 2 ^ 32" "length buf = encodeBuffer_size"
  shows "serialized PingPayload_class fn cell dest m strs buf (trace_calls now i) =
    Some (Some (num_field 1 (scast (ti_id i)) @ num_field 2 now @ num_field 3 (ti_resp_tp i) @ num_field 4 0))"
proof -
  let ?wire = "num_field 1 (scast (ti_id i)) @ num_field 2 now @ num_field 3 (ti_resp_tp i) @ num_field 4 0"
  have n: "length ?wire \<le> 64"
    using num_field_short [of 1 "scast (ti_id i)"] num_field_short [of 2 now] num_field_short [of 3 "ti_resp_tp i"]
      num_field_short [of 4 0] by simp
  have "serialized PingPayload_class fn cell dest m strs buf (trace_calls now i) =
      Some (if length ?wire \<le> encodeBuffer_size then Some ?wire else None)"
    by (rule serialized_wire) (use assms n trace_typed trace_values in \<open>simp_all add: object_classes_def PingPayload_class_def [THEN arg_cong, of q_struct, simplified]\<close>)
  then show ?thesis using n by (simp add: encodeBuffer_size_def)
qed

theorem trace_loses_response_time_witness:
  "serialized PingPayload_class 4096 example_cells 8 (replicate 64 170) (\<lambda>_. None) (replicate encodeBuffer_size 0)
      (trace_calls 1000 \<lparr>ti_id = 5, ti_req_tp = 700, ti_resp_tp = 900\<rparr>) =
    Some (Some (num_field 1 (scast (ti_id \<lparr>ti_id = 5, ti_req_tp = 700, ti_resp_tp = 900\<rparr>)) @ num_field 2 1000 @
      num_field 3 (ti_resp_tp \<lparr>ti_id = 5, ti_req_tp = 700, ti_resp_tp = 900\<rparr>) @ num_field 4 0))"
proof (rule trace_loses_response_time)
  show "nat 8 + size_of PingPayload \<le> length (replicate 64 170 :: memory)" by code_simp
qed simp_all

end
