(* ===== verification/OpenslIO.thy ===== *)
theory OpenslIO
  imports Prelude "HOL-Library.Multiset"
begin

text \<open>
  The OpenSL ES recorder of main/opensl_io.c: opening and closing with the resources they hold,
  the thread lock, and \<open>android_AudioIn\<close>, which reads one buffer while the device fills the other.
  The results of OpenSL ES, of the allocator and of pthread are parameters (a record of results);
  a function that fails leaves the object it was to create NULL. The time stamp, a double, is left out.
\<close>

section \<open>Resources\<close>

datatype res = Stream | Lock | Mutex | Cond | Samples nat | Engine | Recorder

type_synonym live = "res list"

text \<open>Freeing what is not alive is undefined.\<close>

definition release :: "res \<Rightarrow> live \<Rightarrow> live c" where
  "release r l = (if r \<in> set l then Some (remove1 r l) else None)"

record sl_env =
  stream_alloc :: bool
  lock_malloc :: bool
  mutex_init :: bool
  cond_init :: bool
  samples_alloc :: "nat \<Rightarrow> bool"
  create_engine :: bool
  realize_engine :: bool
  engine_interface :: bool
  sampling_rate :: "int \<Rightarrow> int"
  create_recorder :: "int \<Rightarrow> int \<Rightarrow> bool"
  realize_recorder :: bool
  record_interface :: bool
  queue_interface :: bool
  register_callback :: bool
  set_record_state :: bool

type_synonym short = "16 word"

text \<open>The objects are only there or NULL; the lock is its flag \<open>s\<close>.\<close>

record opensl =
  engineObject :: bool
  engineEngine :: bool
  recorderObject :: bool
  recorderRecord :: bool
  recorderBufferQueue :: bool
  currentInputIndex :: int
  currentInputBuffer :: nat
  inputBuffer :: "short list option list"
  inBufSamples :: int
  inlock :: "bool option"
  inchannels :: int
  sr :: int

section \<open>Thread locks\<close>

definition createThreadLock :: "sl_env \<Rightarrow> live \<Rightarrow> (bool option \<times> live) c" where
  "createThreadLock env l =
     (if \<not> lock_malloc env then Some (None, l)
      else (let l1 = Lock # l in
        if \<not> mutex_init env then do { l2 \<leftarrow> release Lock l1; Some (None, l2) }
        else (let l2 = Mutex # l1 in
          if \<not> cond_init env then do { l3 \<leftarrow> release Mutex l2; l4 \<leftarrow> release Lock l3; Some (None, l4) }
          else Some (Some True, Cond # l2))))"

text \<open>A lock that is NULL is dereferenced.\<close>

definition notifyThreadLock :: "bool option \<Rightarrow> bool option c" where
  "notifyThreadLock lk = (case lk of None \<Rightarrow> None | Some s \<Rightarrow> Some (Some True))"

definition destroyThreadLock :: "bool option \<Rightarrow> live \<Rightarrow> live c" where
  "destroyThreadLock lk l =
     (case lk of
        None \<Rightarrow> Some l
      | Some s \<Rightarrow> do {
          _ \<leftarrow> notifyThreadLock lk;
          l1 \<leftarrow> release Cond l;
          l2 \<leftarrow> release Mutex l1;
          release Lock l2 })"

text \<open>\<open>waitThreadLock\<close> goes on when the flag is set and clears it.\<close>

definition waitThreadLock :: "bool \<Rightarrow> bool option" where
  "waitThreadLock s = (if s then Some False else None)"

section \<open>The engine and the recorder\<close>

definition openSLDestroyEngine :: "opensl \<Rightarrow> live \<Rightarrow> (opensl \<times> live) c" where
  "openSLDestroyEngine p l = do {
     l1 \<leftarrow> (if recorderObject p then release Recorder l else Some l);
     let p1 = (if recorderObject p
               then p\<lparr>recorderObject := False, recorderRecord := False, recorderBufferQueue := False\<rparr> else p);
     l2 \<leftarrow> (if engineObject p1 then release Engine l1 else Some l1);
     Some (if engineObject p1 then p1\<lparr>engineObject := False, engineEngine := False\<rparr> else p1, l2) }"

definition openSLCreateEngine :: "sl_env \<Rightarrow> opensl \<Rightarrow> live \<Rightarrow> bool \<times> opensl \<times> live" where
  "openSLCreateEngine env p l =
     (if \<not> create_engine env then (False, p, l)
      else (let p1 = p\<lparr>engineObject := True\<rparr>; l1 = Engine # l in
        if \<not> realize_engine env then (False, p1, l1)
        else if \<not> engine_interface env then (False, p1, l1)
        else (True, p1\<lparr>engineEngine := True\<rparr>, l1)))"

definition supported_rates :: "int list" where
  "supported_rates = [8000, 11025, 16000, 22050, 24000, 32000, 44100, 48000, 64000, 88200, 96000, 192000]"

text \<open>
  The \<open>default\<close> case leaves the switch before its \<open>return -1\<close>: any other rate is
  passed to the recorder as it is.
\<close>

definition recorder_rate :: "sl_env \<Rightarrow> int \<Rightarrow> int" where
  "recorder_rate env rate = (if u32_of rate \<in> set supported_rates then sampling_rate env (u32_of rate) else u32_of rate)"

definition openSLRecOpen :: "sl_env \<Rightarrow> opensl \<Rightarrow> live \<Rightarrow> bool \<times> opensl \<times> live" where
  "openSLRecOpen env p l =
     (if u32_of (inchannels p) = 0 then (True, p, l)
      else if \<not> create_recorder env (u32_of (inchannels p)) (recorder_rate env (sr p)) then (False, p, l)
      else (let p1 = p\<lparr>recorderObject := True\<rparr>; l1 = Recorder # l in
        if \<not> realize_recorder env then (False, p1, l1)
        else if \<not> record_interface env then (False, p1, l1)
        else (let p2 = p1\<lparr>recorderRecord := True\<rparr> in
          if \<not> queue_interface env then (False, p2, l1)
          else (let p3 = p2\<lparr>recorderBufferQueue := True\<rparr> in
            if \<not> register_callback env then (False, p3, l1)
            else (set_record_state env, p3, l1)))))"

section \<open>Opening and closing\<close>

definition free_samples :: "nat \<Rightarrow> opensl \<Rightarrow> live \<Rightarrow> (opensl \<times> live) c" where
  "free_samples i p l =
     (if inputBuffer p ! i \<noteq> None
      then do { l1 \<leftarrow> release (Samples i) l; Some (p\<lparr>inputBuffer := (inputBuffer p)[i := None]\<rparr>, l1) }
      else Some (p, l))"

definition android_CloseAudioDevice :: "opensl option \<Rightarrow> live \<Rightarrow> live c" where
  "android_CloseAudioDevice po l =
     (case po of
        None \<Rightarrow> Some l
      | Some p \<Rightarrow> do {
          (p1, l1) \<leftarrow> openSLDestroyEngine p l;
          (p2, l2) \<leftarrow> (if inlock p1 \<noteq> None
                       then do {
                         lk \<leftarrow> notifyThreadLock (inlock p1);
                         l2 \<leftarrow> destroyThreadLock lk l1;
                         Some (p1\<lparr>inlock := None\<rparr>, l2) }
                       else Some (p1, l1));
          (p3, l3) \<leftarrow> free_samples 0 p2 l2;
          (p4, l4) \<leftarrow> free_samples 1 p3 l3;
          release Stream l4 })"

text \<open>
  \<open>calloc(inBufSamples, sizeof(short))\<close>: a negative count is a huge \<open>size_t\<close>, which fails. The
  second buffer is only tried when there is a first.
\<close>

definition alloc_samples :: "sl_env \<Rightarrow> nat \<Rightarrow> opensl \<Rightarrow> live \<Rightarrow> bool \<times> opensl \<times> live" where
  "alloc_samples env i p l =
     (if 0 < inBufSamples p \<and> samples_alloc env i
      then (True, p\<lparr>inputBuffer := (inputBuffer p)[i := Some (replicate (nat (inBufSamples p)) 0)]\<rparr>, Samples i # l)
      else (False, p, l))"

definition alloc_both :: "sl_env \<Rightarrow> opensl \<Rightarrow> live \<Rightarrow> bool \<times> opensl \<times> live" where
  "alloc_both env p l =
     (if inBufSamples p = 0 then (True, p, l)
      else (case alloc_samples env 0 p l of
              (False, p1, l1) \<Rightarrow> (False, p1, l1)
            | (True, p1, l1) \<Rightarrow> alloc_samples env 1 p1 l1))"

definition open_failed :: "opensl \<Rightarrow> live \<Rightarrow> (opensl option \<times> live) c" where
  "open_failed p l = do { l1 \<leftarrow> android_CloseAudioDevice (Some p) l; Some (None, l1) }"

text \<open>\<open>calloc\<close> is not checked for the stream itself.\<close>

definition android_OpenAudioDevice :: "sl_env \<Rightarrow> int \<Rightarrow> int \<Rightarrow> int \<Rightarrow> live \<Rightarrow> (opensl option \<times> live) c" where
  "android_OpenAudioDevice env rate channels bufferframes l =
     (if \<not> stream_alloc env then None
      else do {
        (lk, l1) \<leftarrow> createThreadLock env (Stream # l);
        n \<leftarrow> s32 (bufferframes * channels);
        let p = \<lparr>engineObject = False, engineEngine = False, recorderObject = False, recorderRecord = False,
          recorderBufferQueue = False, currentInputIndex = 0, currentInputBuffer = 0, inputBuffer = [None, None],
          inBufSamples = n, inlock = lk, inchannels = channels, sr = rate\<rparr>;
        (case alloc_both env p l1 of
           (False, p1, l2) \<Rightarrow> open_failed p1 l2
         | (True, p1, l2) \<Rightarrow>
             (case openSLCreateEngine env (p1\<lparr>currentInputIndex := inBufSamples p1, currentInputBuffer := 0\<rparr>) l2 of
                (False, p2, l3) \<Rightarrow> open_failed p2 l3
              | (True, p2, l3) \<Rightarrow>
                  (case openSLRecOpen env p2 l3 of
                     (False, p3, l4) \<Rightarrow> open_failed p3 l4
                   | (True, p3, l4) \<Rightarrow> do {
                       lk1 \<leftarrow> notifyThreadLock (inlock p3);
                       Some (Some (p3\<lparr>inlock := lk1\<rparr>), l4) }))) })"

section \<open>What a stream holds\<close>

definition holds :: "opensl \<Rightarrow> res multiset" where
  "holds p = {#Stream#}
     + (if inlock p \<noteq> None then {#Lock, Mutex, Cond#} else {#})
     + (if inputBuffer p ! 0 \<noteq> None then {#Samples 0#} else {#})
     + (if inputBuffer p ! 1 \<noteq> None then {#Samples 1#} else {#})
     + (if engineObject p then {#Engine#} else {#})
     + (if recorderObject p then {#Recorder#} else {#})"

lemma release_mset: "mset l = add_mset r m \<Longrightarrow> \<exists>l'. release r l = Some l' \<and> mset l' = m"
proof -
  assume m: "mset l = add_mset r m"
  then have "r \<in> set l" by (metis set_mset_mset union_single_eq_member)
  then show ?thesis using m by (simp add: release_def)
qed

lemma destroy_engine:
  assumes "mset l = holds p + m"
  shows "\<exists>p' l'. openSLDestroyEngine p l = Some (p', l') \<and> mset l' = holds p' + m \<and>
    p' = p\<lparr>engineObject := False, engineEngine := engineEngine p', recorderObject := False,
      recorderRecord := recorderRecord p', recorderBufferQueue := recorderBufferQueue p'\<rparr>"
proof -
  obtain l1 where l1: "(if recorderObject p then release Recorder l else Some l) = Some l1"
    "mset l1 = holds (p\<lparr>recorderObject := False\<rparr>) + m"
    using assms release_mset [of l Recorder "holds (p\<lparr>recorderObject := False\<rparr>) + m"]
    by (cases "recorderObject p") (auto simp: holds_def ac_simps)
  obtain l2 where l2: "(if engineObject p then release Engine l1 else Some l1) = Some l2"
    "mset l2 = holds (p\<lparr>recorderObject := False, engineObject := False\<rparr>) + m"
    using l1(2) release_mset [of l1 Engine "holds (p\<lparr>recorderObject := False, engineObject := False\<rparr>) + m"]
    by (cases "engineObject p") (auto simp: holds_def ac_simps)
  have "\<exists>p'. openSLDestroyEngine p l = Some (p', l2) \<and>
     p' = p\<lparr>engineObject := False, engineEngine := engineEngine p', recorderObject := False,
      recorderRecord := recorderRecord p', recorderBufferQueue := recorderBufferQueue p'\<rparr>"
    using l1(1) l2(1) unfolding openSLDestroyEngine_def Let_def
    by (cases p) (auto split: if_splits)
  then obtain p' where p': "openSLDestroyEngine p l = Some (p', l2)" 
     "p' = p\<lparr>engineObject := False, engineEngine := engineEngine p', recorderObject := False,
      recorderRecord := recorderRecord p', recorderBufferQueue := recorderBufferQueue p'\<rparr>" by blast
  moreover have "holds p' = holds (p\<lparr>recorderObject := False, engineObject := False\<rparr>)"
    by (subst p'(2)) (simp add: holds_def)
  ultimately show ?thesis using l2(2) by auto
qed

lemma free_samples_ok:
  assumes "mset l = holds p + m" "length (inputBuffer p) = 2" "i < 2"
  shows "\<exists>l'. free_samples i p l = Some (p\<lparr>inputBuffer := (inputBuffer p)[i := None]\<rparr>, l') \<and>
    mset l' = holds (p\<lparr>inputBuffer := (inputBuffer p)[i := None]\<rparr>) + m"
proof -
  obtain a b where ab: "inputBuffer p = [a, b]"
    using assms(2) by (cases "inputBuffer p"; cases "tl (inputBuffer p)") auto
  let ?q = "p\<lparr>inputBuffer := (inputBuffer p)[i := None]\<rparr>"
  show ?thesis
  proof (cases "inputBuffer p ! i")
    case None
    then have "(inputBuffer p)[i := None] = inputBuffer p" by (metis list_update_id)
    then show ?thesis using assms(1) None by (simp add: free_samples_def)
  next
    case (Some xs)
    have "holds p = add_mset (Samples i) (holds ?q)"
      using Some assms(3) ab by (cases i) (auto simp: holds_def ac_simps)
    then obtain l' where "release (Samples i) l = Some l'" "mset l' = holds ?q + m"
      using release_mset [of l "Samples i" "holds ?q + m"] assms(1) by auto
    then show ?thesis using Some by (simp add: free_samples_def)
  qed
qed

lemma close_releases:
  assumes "mset l = holds p + m" "length (inputBuffer p) = 2"
  shows "\<exists>l'. android_CloseAudioDevice (Some p) l = Some l' \<and> mset l' = m"
proof -
  obtain p1 l1 where p1: "openSLDestroyEngine p l = Some (p1, l1)" "mset l1 = holds p1 + m"
    and eq: "p1 = p\<lparr>engineObject := False, engineEngine := engineEngine p1, recorderObject := False,
      recorderRecord := recorderRecord p1, recorderBufferQueue := recorderBufferQueue p1\<rparr>"
    using destroy_engine [OF assms(1)] by blast
  have e: "\<not> engineObject p1" "\<not> recorderObject p1" "length (inputBuffer p1) = 2"
    using assms(2) by (subst eq, simp)+
  let ?p2 = "p1\<lparr>inlock := None\<rparr>"
  obtain l2 where l2: "(if inlock p1 \<noteq> None
      then do { lk \<leftarrow> notifyThreadLock (inlock p1); l2 \<leftarrow> destroyThreadLock lk l1; Some (p1\<lparr>inlock := None\<rparr>, l2) }
      else Some (p1, l1)) = Some (?p2, l2)" "mset l2 = holds ?p2 + m"
  proof (cases "inlock p1")
    case None
    then show ?thesis using p1(2) that by (cases p1) auto
  next
    case (Some s)
    have "mset l1 = add_mset Cond (add_mset Mutex (add_mset Lock (holds ?p2 + m)))"
      using p1(2) Some by (simp add: holds_def ac_simps)
    then obtain a where a: "release Cond l1 = Some a" "mset a = add_mset Mutex (add_mset Lock (holds ?p2 + m))"
      using release_mset by blast
    obtain b where b: "release Mutex a = Some b" "mset b = add_mset Lock (holds ?p2 + m)"
      using release_mset [OF a(2)] by blast
    obtain c where c: "release Lock b = Some c" "mset c = holds ?p2 + m"
      using release_mset [OF b(2)] by blast
    show ?thesis using Some a(1) b(1) c that by (simp add: notifyThreadLock_def destroyThreadLock_def)
  qed
  have "length (inputBuffer ?p2) = 2" using e(3) by simp
  from free_samples_ok [OF l2(2) this, of 0]
  obtain l3 where l3: "free_samples 0 ?p2 l2 = Some (?p2\<lparr>inputBuffer := (inputBuffer p1)[0 := None]\<rparr>, l3)"
    "mset l3 = holds (?p2\<lparr>inputBuffer := (inputBuffer p1)[0 := None]\<rparr>) + m" by auto
  let ?p3 = "?p2\<lparr>inputBuffer := (inputBuffer p1)[0 := None]\<rparr>"
  have "length (inputBuffer ?p3) = 2" using e(3) by simp
  from free_samples_ok [OF l3(2) this, of 1]
  obtain p4 l4 where l4: "free_samples 1 ?p3 l3 = Some (p4, l4)" "mset l4 = holds p4 + m"
    "p4 = ?p3\<lparr>inputBuffer := [None, None]\<rparr>"
  proof -
    have "(inputBuffer p1)[0 := None, 1 := None] = [None, None]"
      using e(3) by (cases "inputBuffer p1" rule: list.exhaust; cases "tl (inputBuffer p1)") auto
    then show ?thesis using that \<open>length (inputBuffer ?p3) = 2\<close> free_samples_ok [OF l3(2) _, of 1] by auto
  qed
  have "holds p4 = {#Stream#}" using e unfolding l4(3) by (simp add: holds_def)
  then obtain l5 where "release Stream l4 = Some l5" "mset l5 = m" using release_mset [of l4 Stream m] l4(2) by auto
  then show ?thesis using p1(1) l2(1) l3(1) l4(1) by (simp add: android_CloseAudioDevice_def)
qed

text \<open>A step of opening that keeps the account of the resources.\<close>

definition accounted :: "res multiset \<Rightarrow> opensl \<Rightarrow> live \<Rightarrow> bool" where
  "accounted m p l \<longleftrightarrow> mset l = holds p + m \<and> length (inputBuffer p) = 2"

lemma alloc_samples_accounted:
  assumes "accounted m p l" "inputBuffer p ! i = None" "i < 2"
  obtains "alloc_samples env i p l = (False, p, l)"
  | p1 l1 where "alloc_samples env i p l = (True, p1, l1)" "accounted m p1 l1"
      "p1 = p\<lparr>inputBuffer := (inputBuffer p)[i := Some (replicate (nat (inBufSamples p)) 0)]\<rparr>"
proof (cases "0 < inBufSamples p \<and> samples_alloc env i")
  case False
  then show ?thesis using that(1) by (auto simp: alloc_samples_def)
next
  case True
  let ?p1 = "p\<lparr>inputBuffer := (inputBuffer p)[i := Some (replicate (nat (inBufSamples p)) 0)]\<rparr>"
  have l: "length (inputBuffer p) = 2" using assms(1) by (simp add: accounted_def)
  have "holds ?p1 = add_mset (Samples i) (holds p)"
    using assms(2,3) l by (cases i) (auto simp: holds_def ac_simps)
  then show ?thesis using that(2) [of ?p1 "Samples i # l"] True assms(1)
    by (simp add: alloc_samples_def accounted_def)
qed

lemma alloc_both_accounted:
  assumes "accounted m p l" "inputBuffer p = [None, None]"
  shows "case alloc_both env p l of (ok, p1, l1) \<Rightarrow> accounted m p1 l1 \<and>
    p1 = p\<lparr>inputBuffer := inputBuffer p1\<rparr> \<and> (ok \<longrightarrow> inputBuffer p1 = (if inBufSamples p = 0 then [None, None]
       else replicate 2 (Some (replicate (nat (inBufSamples p)) 0))))"
proof (cases "inBufSamples p = 0")
  case True
  then show ?thesis using assms by (simp add: alloc_both_def)
next
  case n: False
  show ?thesis
  proof (cases rule: alloc_samples_accounted [OF assms(1), of 0 env])
    case (3)
    then show ?thesis using n assms by (simp add: alloc_both_def)
  next
    case (4 p1 l1)
    have i: "inputBuffer p1 ! 1 = None" unfolding 4(3) by (simp add: assms(2))
    show ?thesis
    proof (cases rule: alloc_samples_accounted [OF 4(2) i, of env])
      case 2
      then show ?thesis using n 4 by (simp add: alloc_both_def)
    next
      case (3 p2 l2)
      have "alloc_both env p l = (True, p2, l2)" using n 4(1) 3(1) by (simp add: alloc_both_def)
      moreover have "p2 = p\<lparr>inputBuffer := replicate 2 (Some (replicate (nat (inBufSamples p)) 0))\<rparr>"
        unfolding 3(3) 4(3) by (simp add: assms(2) numeral_2_eq_2)
      ultimately show ?thesis using n 3(2) by simp
    qed simp
  qed (simp_all add: assms(2))
qed

lemma create_engine_accounted:
  assumes "accounted m p l" "\<not> engineObject p"
  shows "case openSLCreateEngine env p l of (ok, p1, l1) \<Rightarrow> accounted m p1 l1 \<and>
    p1 = p\<lparr>engineObject := engineObject p1, engineEngine := engineEngine p1\<rparr> \<and> (ok \<longrightarrow> engineObject p1 \<and> engineEngine p1)"
  using assms by (auto simp: openSLCreateEngine_def Let_def accounted_def holds_def ac_simps)

lemma rec_open_accounted:
  assumes "accounted m p l" "\<not> recorderObject p"
  shows "case openSLRecOpen env p l of (ok, p1, l1) \<Rightarrow> accounted m p1 l1 \<and>
    p1 = p\<lparr>recorderObject := recorderObject p1, recorderRecord := recorderRecord p1, recorderBufferQueue := recorderBufferQueue p1\<rparr> \<and>
    (ok \<longrightarrow> u32_of (inchannels p) \<noteq> 0 \<longrightarrow> recorderBufferQueue p1)"
  using assms by (auto simp: openSLRecOpen_def Let_def accounted_def holds_def ac_simps)

text \<open>The stream as it is opened: both buffers silent, the index behind the first one, the lock free to pass.\<close>

definition ready :: "int \<Rightarrow> opensl \<Rightarrow> bool" where
  "ready n p \<longleftrightarrow> inBufSamples p = n \<and> currentInputIndex p = n \<and> currentInputBuffer p = 0 \<and> inlock p = Some True \<and>
     inputBuffer p = (if n = 0 then [None, None] else replicate 2 (Some (replicate (nat n) 0)))"

lemma open_failed_ok: "accounted m p l \<Longrightarrow> \<exists>l'. open_failed p l = Some (None, l') \<and> mset l' = m"
  using close_releases [of l p m] by (auto simp: accounted_def open_failed_def)

lemma lock_created:
  "lock_malloc env \<Longrightarrow> mutex_init env \<Longrightarrow> cond_init env \<Longrightarrow> createThreadLock env l = Some (Some True, Cond # Mutex # Lock # l)"
  by (simp add: createThreadLock_def)

lemma lock_not_created:
  "\<not> (lock_malloc env \<and> mutex_init env \<and> cond_init env) \<Longrightarrow> createThreadLock env l = Some (None, l)"
  by (auto simp: createThreadLock_def release_def Let_def)

definition opened :: "int \<Rightarrow> live \<Rightarrow> opensl option \<times> live \<Rightarrow> bool" where
  "opened n l r \<longleftrightarrow>
     (case r of
        (None, l') \<Rightarrow> mset l' = mset l
      | (Some p, l') \<Rightarrow> mset l' = holds p + mset l \<and> ready n p \<and> engineEngine p \<and> (u32_of (inchannels p) \<noteq> 0 \<longrightarrow> recorderBufferQueue p))"

text \<open>Whether the lock can be created, and whether everything else opens.\<close>

definition lock_ok :: "sl_env \<Rightarrow> bool" where
  "lock_ok env \<longleftrightarrow> lock_malloc env \<and> mutex_init env \<and> cond_init env"

definition parts_ok :: "sl_env \<Rightarrow> int \<Rightarrow> int \<Rightarrow> int \<Rightarrow> bool" where
  "parts_ok env rate channels n \<longleftrightarrow>
     (n = 0 \<or> 0 < n \<and> samples_alloc env 0 \<and> samples_alloc env 1) \<and>
     create_engine env \<and> realize_engine env \<and> engine_interface env \<and>
     (u32_of channels = 0 \<or> create_recorder env (u32_of channels) (recorder_rate env rate) \<and> realize_recorder env \<and>
        record_interface env \<and> queue_interface env \<and> register_callback env \<and> set_record_state env)"

lemma alloc_both_result:
  "fst (alloc_both env p l) \<longleftrightarrow> inBufSamples p = 0 \<or> 0 < inBufSamples p \<and> samples_alloc env 0 \<and> samples_alloc env 1"
  by (auto simp: alloc_both_def alloc_samples_def)

lemma create_engine_result: "fst (openSLCreateEngine env p l) \<longleftrightarrow> create_engine env \<and> realize_engine env \<and> engine_interface env"
  by (simp add: openSLCreateEngine_def Let_def)

lemma rec_open_result:
  "fst (openSLRecOpen env p l) \<longleftrightarrow> u32_of (inchannels p) = 0 \<or>
     create_recorder env (u32_of (inchannels p)) (recorder_rate env (sr p)) \<and> realize_recorder env \<and>
     record_interface env \<and> queue_interface env \<and> register_callback env \<and> set_record_state env"
  by (simp add: openSLRecOpen_def Let_def)

lemma lock_result:
  "createThreadLock env l = Some (if lock_ok env then Some True else None, if lock_ok env then Cond # Mutex # Lock # l else l)"
  using lock_created [of env l] lock_not_created [of env l] by (simp add: lock_ok_def)

lemma open_undefined:
  "\<not> stream_alloc env \<or> bufferframes * channels < int_min \<or> int_max < bufferframes * channels \<Longrightarrow>
     android_OpenAudioDevice env rate channels bufferframes l = None"
  by (auto simp: android_OpenAudioDevice_def lock_result s32_def)

lemma open_ok:
  assumes "stream_alloc env" "int_min \<le> bufferframes * channels" "bufferframes * channels \<le> int_max"
  shows "if parts_ok env rate channels (bufferframes * channels) \<and> \<not> lock_ok env
    then android_OpenAudioDevice env rate channels bufferframes l = None
    else \<exists>r. android_OpenAudioDevice env rate channels bufferframes l = Some r \<and> opened (bufferframes * channels) l r \<and>
      (fst r \<noteq> None \<longleftrightarrow> parts_ok env rate channels (bufferframes * channels))"
    (is "if ?P \<and> \<not> ?L then _ else _")
proof -
  let ?n = "bufferframes * channels"
  define p where "p = \<lparr>engineObject = False, engineEngine = False, recorderObject = False, recorderRecord = False,
    recorderBufferQueue = False, currentInputIndex = 0, currentInputBuffer = 0, inputBuffer = [None, None],
    inBufSamples = ?n, inlock = (if ?L then Some True else None), inchannels = channels, sr = rate\<rparr>"
  define l0 where "l0 = (if ?L then Cond # Mutex # Lock # Stream # l else Stream # l)"
  let ?m = "mset l"
  have a0: "accounted ?m p l0" by (cases ?L) (simp_all add: accounted_def p_def l0_def holds_def ac_simps)
  have run: "android_OpenAudioDevice env rate channels bufferframes l =
     (case alloc_both env p l0 of
           (False, p1, l2) \<Rightarrow> open_failed p1 l2
         | (True, p1, l2) \<Rightarrow>
             (case openSLCreateEngine env (p1\<lparr>currentInputIndex := inBufSamples p1, currentInputBuffer := 0\<rparr>) l2 of
                (False, p2, l3) \<Rightarrow> open_failed p2 l3
              | (True, p2, l3) \<Rightarrow>
                  (case openSLRecOpen env p2 l3 of
                     (False, p3, l4) \<Rightarrow> open_failed p3 l4
                   | (True, p3, l4) \<Rightarrow> do {
                       lk1 \<leftarrow> notifyThreadLock (inlock p3);
                       Some (Some (p3\<lparr>inlock := lk1\<rparr>), l4) })))"
    using assms by (cases ?L) (simp_all add: android_OpenAudioDevice_def lock_result s32_in_range p_def l0_def)
  have failed: "\<exists>r. open_failed q k = Some r \<and> opened ?n l r \<and> fst r = None" if "accounted ?m q k" for q k
    using open_failed_ok [OF that] by (auto simp: opened_def)
  obtain ok1 p1 l2 where s1: "alloc_both env p l0 = (ok1, p1, l2)" by (cases "alloc_both env p l0")
  have r1: "ok1 \<longleftrightarrow> ?n = 0 \<or> 0 < ?n \<and> samples_alloc env 0 \<and> samples_alloc env 1"
    using alloc_both_result [of env p l0] unfolding s1 by (simp add: p_def)
  have a1: "accounted ?m p1 l2" "p1 = p\<lparr>inputBuffer := inputBuffer p1\<rparr>"
    "ok1 \<longrightarrow> inputBuffer p1 = (if ?n = 0 then [None, None] else replicate 2 (Some (replicate (nat ?n) 0)))"
    using alloc_both_accounted [OF a0, of env] s1 by (simp_all add: p_def)
  show ?thesis
  proof (cases ok1)
    case False
    then have "\<not> ?P" using r1 unfolding parts_ok_def by blast
    then show ?thesis using False failed [OF a1(1)] s1 run by auto
  next
    case ok1: True
    let ?q = "p1\<lparr>currentInputIndex := inBufSamples p1, currentInputBuffer := 0\<rparr>"
    obtain ok2 p2 l3 where s2: "openSLCreateEngine env ?q l2 = (ok2, p2, l3)" by (cases "openSLCreateEngine env ?q l2")
    have r2: "ok2 \<longleftrightarrow> create_engine env \<and> realize_engine env \<and> engine_interface env"
      using create_engine_result [of env ?q l2] unfolding s2 by simp
    have "accounted ?m ?q l2" using a1(1) by (simp add: accounted_def holds_def)
    moreover have "\<not> engineObject ?q" by (subst a1(2)) (simp add: p_def)
    ultimately have a2: "accounted ?m p2 l3" "p2 = ?q\<lparr>engineObject := engineObject p2, engineEngine := engineEngine p2\<rparr>"
      "ok2 \<longrightarrow> engineEngine p2"
      using create_engine_accounted [of ?m ?q l2 env] s2 by simp_all
    show ?thesis
    proof (cases ok2)
      case False
      then have "\<not> ?P" using r2 unfolding parts_ok_def by blast
      then show ?thesis using False failed [OF a2(1)] s1 s2 ok1 run by auto
    next
      case ok2: True
      obtain ok3 p3 l4 where s3: "openSLRecOpen env p2 l3 = (ok3, p3, l4)" by (cases "openSLRecOpen env p2 l3")
      have e2: "inlock p2 = inlock p1" "inBufSamples p2 = inBufSamples p1" "currentInputIndex p2 = inBufSamples p1"
        "currentInputBuffer p2 = 0" "inputBuffer p2 = inputBuffer p1" "inchannels p2 = inchannels p1" "sr p2 = sr p1"
        by (subst a2(2), simp)+
      have e1: "inlock p1 = (if ?L then Some True else None)" "inBufSamples p1 = ?n" "inchannels p1 = channels" "sr p1 = rate"
        by (subst a1(2), simp add: p_def)+
      have r3: "ok3 \<and> ok2 \<and> ok1 \<longleftrightarrow> ?P"
        using rec_open_result [of env p2 l3] r1 r2 unfolding s3 parts_ok_def e2 e1 by auto
      have "\<not> recorderObject p2" by (subst a2(2), subst a1(2)) (simp add: p_def)
      then have a3: "accounted ?m p3 l4"
        "p3 = p2\<lparr>recorderObject := recorderObject p3, recorderRecord := recorderRecord p3, recorderBufferQueue := recorderBufferQueue p3\<rparr>"
        "ok3 \<longrightarrow> u32_of (inchannels p2) \<noteq> 0 \<longrightarrow> recorderBufferQueue p3"
        using rec_open_accounted [OF a2(1), of env] s3 by simp_all
      show ?thesis
      proof (cases ok3)
        case False
        then show ?thesis using failed [OF a3(1)] s1 s2 s3 ok1 ok2 r3 run by auto
      next
        case ok3: True
        have P: "?P" using r3 ok1 ok2 ok3 by blast
        have e3: "inlock p3 = inlock p2" "inBufSamples p3 = inBufSamples p2" "currentInputIndex p3 = currentInputIndex p2"
          "currentInputBuffer p3 = currentInputBuffer p2" "inchannels p3 = inchannels p2" "engineEngine p3 = engineEngine p2"
          "inputBuffer p3 = inputBuffer p2" by (subst a3(2), simp)+
        have same: "inlock p3 = (if ?L then Some True else None)" "inBufSamples p3 = ?n" "currentInputIndex p3 = ?n"
          "currentInputBuffer p3 = 0" "inchannels p3 = inchannels p2" "engineEngine p3 = engineEngine p2" "inputBuffer p3 = inputBuffer p1"
          using e3 e2 e1 by simp_all
        have fin: "android_OpenAudioDevice env rate channels bufferframes l =
            do { lk1 \<leftarrow> notifyThreadLock (inlock p3); Some (Some (p3\<lparr>inlock := lk1\<rparr>), l4) }"
          using s1 s2 s3 ok1 ok2 ok3 run by simp
        show ?thesis
        proof (cases ?L)
          case False
          then show ?thesis using P same(1) fin by (simp add: notifyThreadLock_def)
        next
          case True
          then have "p3\<lparr>inlock := Some True\<rparr> = p3" using same(1) by (cases p3) simp
          then have "android_OpenAudioDevice env rate channels bufferframes l = Some (Some p3, l4)"
            using fin same(1) True by (simp add: notifyThreadLock_def)
          then show ?thesis using a1(3) a2(3) a3(1,3) ok1 ok2 ok3 same True P by (simp add: opened_def ready_def accounted_def)
        qed
      qed
    qed
  qed
qed

section \<open>Reading\<close>

text \<open>
  \<open>android_AudioIn\<close> runs in its thread while the recorder fills the buffers it was given. \<open>Reading\<close>
  holds the locals of a call: \<open>size\<close>, \<open>i\<close>, \<open>index\<close>, which buffer \<open>inBuffer\<close> is, and what was
  written to \<open>buffer\<close>. \<open>rqueue\<close> are the buffers in the recorder's queue.
\<close>

datatype reader = Idle | Reading int int int nat "short list"

record rec_state =
  stream :: opensl
  rqueue :: "nat list"
  rd :: reader

datatype rec_label = L_call int | L_sample | L_swap | L_return "short list" | L_filled "short list"

definition the_buffer :: "opensl \<Rightarrow> nat \<Rightarrow> short list c" where
  "the_buffer p b = (if b < length (inputBuffer p) then inputBuffer p ! b else None)"

text \<open>\<open>inBuffer[index++]\<close>\<close>

definition sample_at :: "opensl \<Rightarrow> nat \<Rightarrow> int \<Rightarrow> short c" where
  "sample_at p b idx = do { xs \<leftarrow> the_buffer p b; if 0 \<le> idx \<and> nat idx < length xs then Some (xs ! nat idx) else None }"

definition bqRecorderCallback :: "opensl \<Rightarrow> opensl c" where
  "bqRecorderCallback p = do { lk \<leftarrow> notifyThreadLock (inlock p); Some (p\<lparr>inlock := lk\<rparr>) }"

text \<open>The body behind \<open>index >= bufsamps\<close>, once the lock lets it pass.\<close>

definition swap_buffers :: "nat \<Rightarrow> rec_state \<Rightarrow> rec_state" where
  "swap_buffers b s =
     (let p = (stream s)\<lparr>inlock := Option.bind (inlock (stream s)) waitThreadLock, currentInputBuffer := (if currentInputBuffer (stream s) \<noteq> 0 then 0 else 1)\<rparr>
      in s\<lparr>stream := p, rqueue := rqueue s @ [b]\<rparr>)"

inductive rec_step :: "rec_state \<Rightarrow> rec_label \<Rightarrow> rec_state \<Rightarrow> bool" where
  call: "rd s = Idle \<Longrightarrow> inBufSamples (stream s) \<noteq> 0 \<Longrightarrow>
    rec_step s (L_call sz) (s\<lparr>rd := Reading sz 0 (currentInputIndex (stream s)) (currentInputBuffer (stream s)) []\<rparr>)"
| sample: "rd s = Reading sz i idx b out \<Longrightarrow> i < sz \<Longrightarrow> idx < inBufSamples (stream s) \<Longrightarrow>
    sample_at (stream s) b idx = Some x \<Longrightarrow>
    rec_step s L_sample (s\<lparr>rd := Reading sz (i + 1) (idx + 1) b (out @ [x])\<rparr>)"
| swap: "rd s = Reading sz i idx b out \<Longrightarrow> i < sz \<Longrightarrow> inBufSamples (stream s) \<le> idx \<Longrightarrow>
    inlock (stream s) = Some flag \<Longrightarrow> waitThreadLock flag \<noteq> None \<Longrightarrow>
    rec_step s L_swap ((swap_buffers b s)\<lparr>rd := Reading sz i 0 (currentInputBuffer (stream (swap_buffers b s))) out\<rparr>)"
| ret: "rd s = Reading sz i idx b out \<Longrightarrow> sz \<le> i \<Longrightarrow>
    rec_step s (L_return out) (s\<lparr>stream := (stream s)\<lparr>currentInputIndex := idx\<rparr>, rd := Idle\<rparr>)"
| filled: "rqueue s = b # rest \<Longrightarrow> the_buffer (stream s) b = Some old \<Longrightarrow> length xs = length old \<Longrightarrow>
    bqRecorderCallback ((stream s)\<lparr>inputBuffer := (inputBuffer (stream s))[b := Some xs]\<rparr>) = Some p \<Longrightarrow>
    rec_step s (L_filled xs) (s\<lparr>stream := p, rqueue := rest\<rparr>)"

inductive_cases rec_stepE: "rec_step s l s'"

inductive rec_run :: "rec_state \<Rightarrow> rec_label list \<Rightarrow> rec_state \<Rightarrow> bool" where
  start: "rec_run s [] s"
| more: "rec_run s ls s1 \<Longrightarrow> rec_step s1 l s2 \<Longrightarrow> rec_run s (ls @ [l]) s2"

fun returned :: "rec_label list \<Rightarrow> short list" where
  "returned [] = []"
| "returned (L_return out # ls) = out @ returned ls"
| "returned (_ # ls) = returned ls"

fun recorded :: "rec_label list \<Rightarrow> short list" where
  "recorded [] = []"
| "recorded (L_filled xs # ls) = xs @ recorded ls"
| "recorded (_ # ls) = recorded ls"

lemma returned_append [simp]: "returned (a @ b) = returned a @ returned b"
  by (induction a rule: returned.induct) auto

lemma recorded_append [simp]: "recorded (a @ b) = recorded a @ recorded b"
  by (induction a rule: recorded.induct) auto

text \<open>What was read so far, the place in the current buffer, and the current buffer.\<close>

fun rd_out :: "reader \<Rightarrow> short list" where
  "rd_out Idle = []"
| "rd_out (Reading sz i idx b out) = out"

fun rd_index :: "rec_state \<Rightarrow> int" where
  "rd_index s = (case rd s of Idle \<Rightarrow> currentInputIndex (stream s) | Reading sz i idx b out \<Rightarrow> idx)"

fun rd_local :: "rec_state \<Rightarrow> bool" where
  "rd_local s = (case rd s of Idle \<Rightarrow> True | Reading sz i idx b out \<Rightarrow> b = currentInputBuffer (stream s))"

text \<open>
  \<open>all\<close> are two silent buffers and then what was recorded; the reader is in block \<open>m\<close> of it, and
  the other buffer is in the recorder's queue or holds the next block.
\<close>

definition block :: "nat \<Rightarrow> nat \<Rightarrow> 'a list \<Rightarrow> 'a list" where
  "block n m xs = take n (drop (m * n) xs)"

definition rec_inv :: "nat \<Rightarrow> rec_label list \<Rightarrow> rec_state \<Rightarrow> bool" where
  "rec_inv n ls s \<longleftrightarrow>
     (let p = stream s; all = replicate n 0 @ replicate n 0 @ recorded ls; b = currentInputBuffer p in
      0 < n \<and> inBufSamples p = int n \<and> b < 2 \<and> rd_local s \<and>
      (\<exists>m k xs ys. rd_index s = int k \<and> k \<le> n \<and>
        replicate n 0 @ returned ls @ rd_out (rd s) = take (m * n + k) all \<and>
        length (inputBuffer p) = 2 \<and> inputBuffer p ! b = Some xs \<and> inputBuffer p ! (1 - b) = Some ys \<and>
        length xs = n \<and> length ys = n \<and> xs = block n m all \<and>
        (inlock p = Some True \<and> rqueue s = [] \<and> length all = (m + 2) * n \<and> ys = block n (m + 1) all \<or>
         inlock p = Some False \<and> rqueue s = [1 - b] \<and> length all = (m + 1) * n)))"

lemma block_append: "(m + 1) * n \<le> length xs \<Longrightarrow> block n m (xs @ ys) = block n m xs"
  by (simp add: block_def)

lemma block_last: "length xs = m * n \<Longrightarrow> length ys = n \<Longrightarrow> block n m (xs @ ys) = ys"
  by (simp add: block_def)

lemma take_block:
  assumes "k < n" "block n m xs = ys" "length ys = n"
  shows "take (m * n + k) xs @ [ys ! k] = take (m * n + Suc k) xs"
proof -
  have "length (drop (m * n) xs) \<ge> n" using assms(2,3) by (auto simp: block_def)
  then have l: "m * n + k < length xs" using assms(1) by simp
  have "ys ! k = xs ! (m * n + k)" using assms l by (auto simp: block_def)
  then show ?thesis using l by (simp add: take_Suc_conv_app_nth)
qed

lemma two_cases: "b < 2 \<Longrightarrow> b = 0 \<or> b = (1 :: nat)" by linarith

lemma rec_invE:
  assumes "rec_inv n ls s"
  obtains m k xs ys where "0 < n" "inBufSamples (stream s) = int n" "currentInputBuffer (stream s) < 2" "rd_local s"
    "rd_index s = int k" "k \<le> n"
    "replicate n 0 @ returned ls @ rd_out (rd s) = take (m * n + k) (replicate n 0 @ replicate n 0 @ recorded ls)"
    "length (inputBuffer (stream s)) = 2" "inputBuffer (stream s) ! currentInputBuffer (stream s) = Some xs"
    "inputBuffer (stream s) ! (1 - currentInputBuffer (stream s)) = Some ys" "length xs = n" "length ys = n"
    "xs = block n m (replicate n 0 @ replicate n 0 @ recorded ls)"
    "inlock (stream s) = Some True \<and> rqueue s = [] \<and> length (replicate n 0 @ replicate n 0 @ recorded ls) = (m + 2) * n \<and>
       ys = block n (m + 1) (replicate n 0 @ replicate n 0 @ recorded ls) \<or>
     inlock (stream s) = Some False \<and> rqueue s = [1 - currentInputBuffer (stream s)] \<and>
       length (replicate n 0 @ replicate n 0 @ recorded ls) = (m + 1) * n"
  using assms unfolding rec_inv_def Let_def by blast

lemma rec_invI:
  assumes "0 < n" "inBufSamples (stream s) = int n" "currentInputBuffer (stream s) < 2" "rd_local s"
    "rd_index s = int k" "k \<le> n"
    "replicate n 0 @ returned ls @ rd_out (rd s) = take (m * n + k) (replicate n 0 @ replicate n 0 @ recorded ls)"
    "length (inputBuffer (stream s)) = 2" "inputBuffer (stream s) ! currentInputBuffer (stream s) = Some xs"
    "inputBuffer (stream s) ! (1 - currentInputBuffer (stream s)) = Some ys" "length xs = n" "length ys = n"
    "xs = block n m (replicate n 0 @ replicate n 0 @ recorded ls)"
    "inlock (stream s) = Some True \<and> rqueue s = [] \<and> length (replicate n 0 @ replicate n 0 @ recorded ls) = (m + 2) * n \<and>
       ys = block n (m + 1) (replicate n 0 @ replicate n 0 @ recorded ls) \<or>
     inlock (stream s) = Some False \<and> rqueue s = [1 - currentInputBuffer (stream s)] \<and>
       length (replicate n 0 @ replicate n 0 @ recorded ls) = (m + 1) * n"
  shows "rec_inv n ls s"
  unfolding rec_inv_def Let_def using assms by blast

lemma rec_inv_step:
  assumes inv: "rec_inv n ls s" and st: "rec_step s l s'"
  shows "rec_inv n (ls @ [l]) s'"
proof -
  let ?all = "replicate n (0 :: short) @ replicate n 0 @ recorded ls"
  obtain m k xs ys where i: "0 < n" "inBufSamples (stream s) = int n" "currentInputBuffer (stream s) < 2" "rd_local s"
    "rd_index s = int k" "k \<le> n" "replicate n 0 @ returned ls @ rd_out (rd s) = take (m * n + k) ?all"
    "length (inputBuffer (stream s)) = 2" "inputBuffer (stream s) ! currentInputBuffer (stream s) = Some xs"
    "inputBuffer (stream s) ! (1 - currentInputBuffer (stream s)) = Some ys" "length xs = n" "length ys = n"
    "xs = block n m ?all"
    and q: "inlock (stream s) = Some True \<and> rqueue s = [] \<and> length ?all = (m + 2) * n \<and> ys = block n (m + 1) ?all \<or>
     inlock (stream s) = Some False \<and> rqueue s = [1 - currentInputBuffer (stream s)] \<and> length ?all = (m + 1) * n"
    by (rule rec_invE [OF inv]) blast
  let ?b = "currentInputBuffer (stream s)"
  show ?thesis
    using st
  proof cases
    case (call sz)
    then show ?thesis using i q by (intro rec_invI [of n s' k "ls @ [l]" m xs ys]) simp_all
  next
    case (sample sz j idx b out x)
    then have k: "idx = int k" "k < n" "b = ?b" using i(2,4,5) by simp_all
    then have "x = xs ! k" using sample(6) i(3,8,9,11) by (simp add: sample_at_def the_buffer_def split: if_splits)
    then have "replicate n 0 @ returned ls @ out @ [x] = take (m * n + Suc k) ?all"
      using take_block [OF k(2) i(13) [symmetric] i(11)] i(7) sample(3) by (simp flip: append_assoc)
    then show ?thesis using i q sample k by (intro rec_invI [of n s' "Suc k" "ls @ [l]" m xs ys]) simp_all
  next
    case (swap sz j idx b out flag)
    then have flag: "flag" by (auto simp: waitThreadLock_def split: if_splits)
    then have k: "k = n" "b = ?b" using i(2,4,5,6) swap by simp_all
    have q1: "rqueue s = []" "length ?all = (m + 2) * n" "ys = block n (m + 1) ?all" using q swap(6) flag by auto
    have "replicate n 0 @ returned ls @ out = take (Suc m * n + 0) ?all" using i(7) k(1) swap(3) by (simp add: add.commute)
    moreover have "(if ?b \<noteq> 0 then 0 else 1) = 1 - ?b" using two_cases [OF i(3)] by auto
    moreover have "1 - (1 - ?b) = ?b" using two_cases [OF i(3)] by auto
    ultimately show ?thesis using i q1 swap k flag
      by (intro rec_invI [of n s' 0 "ls @ [l]" "Suc m" ys xs]) (simp_all add: swap_buffers_def Let_def waitThreadLock_def)
  next
    case (ret sz j idx b out)
    then show ?thesis using i q by (intro rec_invI [of n s' k "ls @ [l]" m xs ys]) simp_all
  next
    case (filled b rest old zs p)
    then have q2: "inlock (stream s) = Some False" "b = 1 - ?b" "rest = []" "length ?all = (m + 1) * n" using q by auto
    have b: "b \<noteq> ?b" "b < 2" using q2(2) two_cases [OF i(3)] by auto
    have p: "p = (stream s)\<lparr>inputBuffer := (inputBuffer (stream s))[b := Some zs], inlock := Some True\<rparr>"
      using filled(6) q2(1) by (simp add: bqRecorderCallback_def notifyThreadLock_def)
    have old: "length zs = n" using filled(4,5) i(8,10,12) b q2(2) by (simp add: the_buffer_def split: if_splits)
    have t: "take (m * n + k) (?all @ zs) = take (m * n + k) ?all" using q2(4) i(6) by simp
    have r: "replicate n (0 :: short) @ replicate n 0 @ recorded (ls @ [l]) = ?all @ zs" using filled(1) by simp
    have "block n (m + 1) (?all @ zs) = zs" using q2(4) old by (intro block_last)
    moreover have "block n m (?all @ zs) = xs" using i(13) q2(4) by (subst block_append) simp_all
    moreover have "length (?all @ zs) = (m + 2) * n" using q2(4) old by simp
    moreover have "rd_index s' = rd_index s" "rd_local s' = rd_local s" using filled(2) p by (auto split: reader.splits)
    ultimately show ?thesis using i filled(1-5) p b q2 old t unfolding r [symmetric]
      by (intro rec_invI [of n s' k "ls @ [l]" m xs zs]) (simp_all del: rd_index.simps rd_local.simps)
  qed
qed

definition rec_start :: "opensl \<Rightarrow> rec_state" where
  "rec_start p = \<lparr>stream = p, rqueue = [], rd = Idle\<rparr>"

lemma rec_inv_start: "ready (int n) p \<Longrightarrow> 0 < n \<Longrightarrow> rec_inv n [] (rec_start p)"
  by (rule rec_invI [where k = n and m = 0 and xs = "replicate n 0" and ys = "replicate n 0"])
    (simp_all add: rec_start_def ready_def block_def)

lemma rec_run_inv: "rec_run s ls s' \<Longrightarrow> rec_inv n [] s \<Longrightarrow> rec_inv n ls s'"
  by (induction rule: rec_run.induct) (auto intro: rec_inv_step)

text \<open>A call that is not done can go on, or it waits for a buffer the recorder has.\<close>

definition rec_live :: "rec_state \<Rightarrow> bool" where
  "rec_live s \<longleftrightarrow>
     (case rd s of
        Idle \<Rightarrow> True
      | Reading sz i idx b out \<Rightarrow>
          sz \<le> i \<or> (if idx < inBufSamples (stream s) then sample_at (stream s) b idx \<noteq> None
                    else inlock (stream s) = Some True \<or> inlock (stream s) = Some False \<and> rqueue s \<noteq> []))"

lemma rec_inv_live:
  assumes "rec_inv n ls s"
  shows "rec_live s"
proof -
  let ?all = "replicate n (0 :: short) @ replicate n 0 @ recorded ls"
  obtain m k xs ys where i: "0 < n" "inBufSamples (stream s) = int n" "currentInputBuffer (stream s) < 2" "rd_local s"
    "rd_index s = int k" "k \<le> n" "replicate n 0 @ returned ls @ rd_out (rd s) = take (m * n + k) ?all"
    "length (inputBuffer (stream s)) = 2" "inputBuffer (stream s) ! currentInputBuffer (stream s) = Some xs"
    "inputBuffer (stream s) ! (1 - currentInputBuffer (stream s)) = Some ys" "length xs = n" "length ys = n"
    "xs = block n m ?all"
    and q: "inlock (stream s) = Some True \<and> rqueue s = [] \<and> length ?all = (m + 2) * n \<and> ys = block n (m + 1) ?all \<or>
     inlock (stream s) = Some False \<and> rqueue s = [1 - currentInputBuffer (stream s)] \<and> length ?all = (m + 1) * n"
    by (rule rec_invE [OF assms]) blast
  show ?thesis
  proof (cases "rd s")
    case (Reading sz j idx b out)
    then have "idx = int k" "b = currentInputBuffer (stream s)" using i(4,5) by simp_all
    then show ?thesis using Reading i q by (auto simp: rec_live_def sample_at_def the_buffer_def)
  qed (simp add: rec_live_def)
qed

lemma rec_inv_delivered:
  assumes "rec_inv n ls s"
  shows "returned ls @ rd_out (rd s) = take (length (returned ls @ rd_out (rd s))) (replicate n 0 @ recorded ls)"
    and "currentInputBuffer (stream s) \<notin> set (rqueue s)"
proof -
  obtain k m where d: "replicate n 0 @ returned ls @ rd_out (rd s) = take (m * n + k) (replicate n 0 @ replicate n 0 @ recorded ls)"
    and q: "rqueue s = [] \<or> rqueue s = [1 - currentInputBuffer (stream s)]" "currentInputBuffer (stream s) < 2"
    by (rule rec_invE [OF assms]) blast
  let ?D = "returned ls @ rd_out (rd s)" and ?X = "replicate n 0 @ recorded ls"
  have "?D = drop n (replicate n 0 @ ?D)" by simp
  also have "drop n (replicate n 0 @ ?X) = ?X" by simp
  then have "drop n (replicate n 0 @ ?D) = take (m * n + k - n) ?X" unfolding d by (simp only: drop_take)
  finally show "?D = take (length ?D) ?X" by (metis append_take_drop_id take_append append_eq_conv_conj)
  show "currentInputBuffer (stream s) \<notin> set (rqueue s)" using q two_cases [of "currentInputBuffer (stream s)"] by auto
qed

section \<open>Properties of the recorder\<close>

text \<open>
  C23. Opening and closing on every outcome of the environment. Opening is undefined exactly when the stream itself
  cannot be allocated, the size of the buffers overflows, or everything but the lock is created (the NULL
  lock is dereferenced). Otherwise it returns: a stream when everything was created, ready to read, and else
  NULL, having freed everything; and \<open>android_CloseAudioDevice\<close> frees exactly what is held, once each.
\<close>

theorem opensl_resources:
  "case android_OpenAudioDevice env rate channels bufferframes l of
     None \<Rightarrow> \<not> (stream_alloc env \<and> bufferframes * channels \<in> {int_min..int_max} \<and>
       \<not> (parts_ok env rate channels (bufferframes * channels) \<and> \<not> lock_ok env))
   | Some (po, l1) \<Rightarrow>
       stream_alloc env \<and> bufferframes * channels \<in> {int_min..int_max} \<and>
       (\<exists>l2. android_CloseAudioDevice po l1 = Some l2 \<and> mset l2 = mset l) \<and>
       (case po of
          None \<Rightarrow> \<not> parts_ok env rate channels (bufferframes * channels) \<and> mset l1 = mset l
        | Some p \<Rightarrow> parts_ok env rate channels (bufferframes * channels) \<and> lock_ok env \<and>
            ready (bufferframes * channels) p \<and> (u32_of (inchannels p) = 0 \<or> recorderBufferQueue p))"
proof (cases "stream_alloc env \<and> bufferframes * channels \<in> {int_min..int_max}")
  case False
  then have "android_OpenAudioDevice env rate channels bufferframes l = None" by (intro open_undefined) auto
  then show ?thesis using False by auto
next
  case True
  then have a: "stream_alloc env" "int_min \<le> bufferframes * channels" "bufferframes * channels \<le> int_max" by auto
  show ?thesis
  proof (cases "parts_ok env rate channels (bufferframes * channels) \<and> \<not> lock_ok env")
    case True
    then show ?thesis using open_ok [OF a, of rate l] by simp
  next
    case False
    then obtain po l1 where r: "android_OpenAudioDevice env rate channels bufferframes l = Some (po, l1)"
      "opened (bufferframes * channels) l (po, l1)" "po \<noteq> None \<longleftrightarrow> parts_ok env rate channels (bufferframes * channels)"
      using open_ok [OF a, of rate l] by auto
    have c: "\<exists>l2. android_CloseAudioDevice po l1 = Some l2 \<and> mset l2 = mset l"
      using r(2) close_releases [of l1 "the po" "mset l"]
      by (cases po) (auto simp: opened_def android_CloseAudioDevice_def ready_def split: if_splits)
    show ?thesis using r c a False by (auto simp: opened_def split: option.splits)
  qed
qed

definition all_fine :: sl_env where
  "all_fine = \<lparr>stream_alloc = True, lock_malloc = True, mutex_init = True, cond_init = True, samples_alloc = \<lambda>i. True,
     create_engine = True, realize_engine = True, engine_interface = True, sampling_rate = \<lambda>r. 1000 * r,
     create_recorder = \<lambda>c r. True, realize_recorder = True, record_interface = True, queue_interface = True,
     register_callback = True, set_record_state = True\<rparr>"

theorem opensl_resources_witness:
  "\<exists>p l1. android_OpenAudioDevice all_fine 16000 2 4 [] = Some (Some p, l1) \<and> ready 8 p \<and>
    android_OpenAudioDevice (all_fine\<lparr>lock_malloc := False\<rparr>) 16000 2 4 [] = None"
proof -
  have e: "parts_ok all_fine 16000 2 8" "lock_ok all_fine" "parts_ok (all_fine\<lparr>lock_malloc := False\<rparr>) 16000 2 8"
    "\<not> lock_ok (all_fine\<lparr>lock_malloc := False\<rparr>)" "stream_alloc all_fine" "(8 :: int) \<in> {int_min..int_max}"
    by (simp_all add: parts_ok_def lock_ok_def all_fine_def int_min_def int_max_def)
  show ?thesis
    using opensl_resources [where env = all_fine and rate = 16000 and channels = 2 and bufferframes = 4 and l = "[]"]
      opensl_resources [where env = "all_fine\<lparr>lock_malloc := False\<rparr>" and rate = 16000 and channels = 2 and bufferframes = 4 and l = "[]"] e
    by (auto split: option.splits)
qed

text \<open>
  A sampling rate that is not in the list is not rejected: with an OpenSL ES that takes exactly
  the rate 12345, opening at this rate succeeds, and at the listed rate 16000 it is the converted
  rate that is asked for.
\<close>

theorem unsupported_rate_accepted:
  "\<exists>env p l. create_recorder env = (\<lambda>c r. r = 12345) \<and>
    android_OpenAudioDevice env 12345 1 4 [] = Some (Some p, l) \<and> sr p = 12345 \<and>
    (\<exists>l'. android_OpenAudioDevice env 16000 1 4 [] = Some (None, l'))"
  by (rule exI [of _ "all_fine\<lparr>create_recorder := \<lambda>c r. r = 12345, set_record_state := True\<rparr>"])
    (simp add: all_fine_def android_OpenAudioDevice_def lock_created s32_in_range int_min_def int_max_def alloc_both_def
      alloc_samples_def openSLCreateEngine_def openSLRecOpen_def recorder_rate_def u32_of_def supported_rates_def Let_def
      notifyThreadLock_def open_failed_def android_CloseAudioDevice_def openSLDestroyEngine_def destroyThreadLock_def
      release_def free_samples_def)

text \<open>
  C24. Double buffering: in every interleaving of \<open>android_AudioIn\<close> calls and the recorder, what the
  calls return is one silent buffer followed by the recorded samples in order, none lost or
  repeated; the recorder never holds the buffer that is read; and a call that waits does so while
  the recorder has the other buffer, so the next completed buffer wakes it.
\<close>

theorem audio_in_order:
  assumes "ready (int n) p" "0 < n" "rec_run (rec_start p) ls s"
  shows "returned ls @ rd_out (rd s) = take (length (returned ls @ rd_out (rd s))) (replicate n 0 @ recorded ls) \<and>
    currentInputBuffer (stream s) \<notin> set (rqueue s) \<and> rec_live s"
proof -
  have i: "rec_inv n ls s" using rec_run_inv [OF assms(3) rec_inv_start [OF assms(1,2)]] .
  show ?thesis by (intro conjI rec_inv_delivered [OF i] rec_inv_live [OF i])
qed

definition demo_stream :: opensl where
  "demo_stream = \<lparr>engineObject = True, engineEngine = True, recorderObject = True, recorderRecord = True,
     recorderBufferQueue = True, currentInputIndex = 1, currentInputBuffer = 0, inputBuffer = [Some [0], Some [0]],
     inBufSamples = 1, inlock = Some True, inchannels = 1, sr = 16000\<rparr>"

text \<open>A call for two samples that has read the first and then the one that was recorded.\<close>

definition demo_labels :: "rec_label list" where
  "demo_labels = [L_call 2, L_swap, L_sample, L_filled [7], L_swap, L_sample, L_return [0, 7]]"

lemma rec_run_Cons:
  assumes "rec_step s l s1" "rec_run s1 ls s2"
  shows "rec_run s (l # ls) s2"
  using assms(2,1)
proof (induction rule: rec_run.induct)
  case (start s1)
  then show ?case using rec_run.more [OF rec_run.start, of s l s1] by simp
next
  case (more s1 ls s2 l' s3)
  then show ?case using rec_run.more [of s "l # ls" s2 l' s3] by simp
qed

lemma demo_run: "\<exists>s. rec_run (rec_start demo_stream) demo_labels s"
  unfolding demo_labels_def
  apply (rule exI)
  apply (rule rec_run_Cons, rule rec_step.call)
    apply (simp add: rec_start_def)
   apply (simp add: rec_start_def demo_stream_def)
  apply (rule rec_run_Cons, rule rec_step.swap)
       apply (simp add: rec_start_def demo_stream_def waitThreadLock_def)+
  apply (rule rec_run_Cons, rule rec_step.sample)
      apply (simp add: swap_buffers_def Let_def sample_at_def the_buffer_def)+
  apply (rule rec_run_Cons, rule rec_step.filled)
      apply (simp add: swap_buffers_def Let_def the_buffer_def bqRecorderCallback_def notifyThreadLock_def waitThreadLock_def)+
  apply (rule rec_run_Cons, rule rec_step.swap)
       apply (simp add: waitThreadLock_def)+
  apply (rule rec_run_Cons, rule rec_step.sample)
      apply (simp add: swap_buffers_def Let_def sample_at_def the_buffer_def)+
  apply (rule rec_run_Cons)
   apply (rule rec_step.ret [where sz = 2 and i = 2])
    apply simp+
  apply (rule rec_run.start)
  done

theorem audio_in_order_witness:
  "\<exists>s. returned demo_labels @ rd_out (rd s) = take (length (returned demo_labels @ rd_out (rd s))) (replicate 1 0 @ recorded demo_labels) \<and>
    currentInputBuffer (stream s) \<notin> set (rqueue s) \<and> rec_live s"
proof -
  obtain s where s: "rec_run (rec_start demo_stream) demo_labels s" using demo_run by blast
  have "ready (int 1) demo_stream" by (simp add: ready_def demo_stream_def numeral_2_eq_2)
  from audio_in_order [OF this _ s] show ?thesis by auto
qed

end
