(* ===== verification/ConnectionRuns.thy ===== *)
theory ConnectionRuns
  imports Connection
begin

text \<open>
  The properties of the connection over all interleavings of its threads and callbacks, and runs that
  can be computed, which show what the unsynchronised stage and the unsynchronised socket lead to.
\<close>

section \<open>Runs that can be computed\<close>

text \<open>A script of a run: which thread or callback goes next.\<close>

datatype conn_script = C_init prepare_options | C_release | C_joined | C_run int | C_connected nat | C_message nat str
  | C_lost | C_failed | C_keep int bool | C_close bool | C_send str | C_test | C_ws | C_done | C_recv nat | C_wake

text \<open>An authentication response is a zero byte; a response is its bytes.\<close>

definition demo_ares :: "str \<Rightarrow> nat option" where
  "demo_ares m = (if m = [0] then Some 0 else None)"

definition demo_enc :: "auth_request \<Rightarrow> str option" where
  "demo_enc a = Some (a_key a)"

definition demo_md5 :: "str \<Rightarrow> byte list" where
  "demo_md5 m = replicate 16 0"

definition demo_auth :: "conn \<Rightarrow> str option" where
  "demo_auth c =
     (let p = opts c in
      if key p = [] \<or> device_type_id p = [] \<or> device_id p = [] \<or> secret p = [] then None else Some (key p))"

lemma demo_auth: "auth demo_md5 demo_enc ts = demo_auth"
  by (rule ext) (simp add: auth_def demo_auth_def demo_enc_def Let_def)

fun cexec1 :: "(str \<Rightarrow> 'r option) \<Rightarrow> conn_script \<Rightarrow> system \<Rightarrow> ('r event \<times> system) option" where
  "cexec1 parse (C_init p) s = (if app s = A_none then Some (E_init, initialize p [] s) else None)"
| "cexec1 parse C_release s = (if app s = A_running then Some (E_release, release_begin s) else None)"
| "cexec1 parse (C_close b) s = Some (close_step b s)"
| "cexec1 parse C_joined s =
     (if app s = A_joining \<and> work s = W_quit \<and> keep s = K_quit then Some (E_none, release_joined s) else None)"
| "cexec1 parse (C_run now) s = (if holds_req (sndr s) then None else Some (run_step now s))"
| "cexec1 parse (C_connected w) s =
     (if work s = W_hub then
        (let s1 = s\<lparr>con := on_connection (con s)\<rparr> in
         Some (case demo_auth (con s1) of None \<Rightarrow> E_none | Some b \<Rightarrow> E_wire w b, s1))
      else None)"
| "cexec1 parse (C_message w m) s =
     (if work s = W_hub then Some (E_none, on_message demo_ares w m 0 s) else None)"
| "cexec1 parse C_lost s =
     (if work s = W_hub then Some (E_none, s\<lparr>con := (con s)\<lparr>ws := None\<rparr>, work := W_cb Cb_test False\<rparr>) else None)"
| "cexec1 parse C_failed s = (if work s = W_hub then Some (E_none, on_error s) else None)"
| "cexec1 parse (C_keep now b) s = keep_step now b s"
| "cexec1 parse (C_send b) s =
     (if sndr s = S_idle then (case send_begin (Some b) s of (r, s1) \<Rightarrow> Some (case r of None \<Rightarrow> E_none | Some x \<Rightarrow> E_send x, s1)) else None)"
| "cexec1 parse C_test s =
     (case sndr s of
        S_wait b \<Rightarrow> (case send_test b s of (r, s1) \<Rightarrow> Some (case r of None \<Rightarrow> E_none | Some x \<Rightarrow> E_send x, s1))
      | _ \<Rightarrow> None)"
| "cexec1 parse C_ws s =
     (case sndr s of
        S_ready b \<Rightarrow> Some (case ws (con s) of None \<Rightarrow> E_none | Some w \<Rightarrow> E_wire w b, s\<lparr>sndr := S_done\<rparr>)
      | _ \<Rightarrow> None)"
| "cexec1 parse C_done s = (if sndr s = S_done then Some (E_send SUCCESS, s\<lparr>sndr := S_idle\<rparr>) else None)"
| "cexec1 parse (C_recv t) s =
     (if rcvr s = R_idle then
        (case recv_begin parse t s of (r, s1) \<Rightarrow> Some (case r of None \<Rightarrow> E_none | Some (x, y) \<Rightarrow> E_recv x y, s1))
      else None)"
| "cexec1 parse C_wake s =
     (case rcvr s of
        R_wait t b \<Rightarrow> if b \<or> 0 < t then (case recv_woken parse s of ((x, y), s1) \<Rightarrow> Some (E_recv x y, s1)) else None
      | R_idle \<Rightarrow> None)"

lemma cexec1_step:
  assumes "cexec1 parse x s = Some (e, s')"
  shows "conn_step demo_ares parse demo_enc demo_md5 s e s'"
proof (cases x)
  case C_ws
  then show ?thesis using assms by (auto split: send_pc.splits option.splits intro: conn_step.send_ws conn_step.send_no_ws)
next
  case (C_connected w)
  then show ?thesis using assms by (auto simp: Let_def demo_auth split: if_splits intro: conn_step.connected)
next
  case C_test
  then show ?thesis using assms by (auto split: send_pc.splits prod.splits intro: conn_step.send_on)
next
  case (C_recv t)
  then show ?thesis using assms by (auto split: if_splits prod.splits intro: conn_step.recv)
next
  case C_wake
  then show ?thesis using assms by (auto split: recv_pc.splits if_splits prod.splits intro: conn_step.woken)
next
  case (C_send b)
  then show ?thesis using assms by (auto split: if_splits prod.splits intro: conn_step.send)
next
  case (C_run now)
  then show ?thesis using assms by (auto split: if_splits intro: conn_step.run)
next
  case (C_keep now b)
  then show ?thesis using assms conn_step.keepalive [of now b s e s'] by simp
next
  case (C_close b)
  then show ?thesis using assms conn_step.closing [of b s e s'] by simp
next
  case (C_message w m)
  then show ?thesis using assms by (auto split: if_splits intro: conn_step.message)
qed (use assms in \<open>auto split: if_splits intro: conn_step.intros\<close>)

fun cexec :: "(str \<Rightarrow> 'r option) \<Rightarrow> conn_script list \<Rightarrow> system \<Rightarrow> ('r event list \<times> system) option" where
  "cexec parse [] s = Some ([], s)"
| "cexec parse (x # xs) s =
     (case cexec1 parse x s of None \<Rightarrow> None
      | Some (e, s1) \<Rightarrow> (case cexec parse xs s1 of None \<Rightarrow> None | Some (es, s2) \<Rightarrow> Some (e # es, s2)))"

abbreviation demo_runs :: "(str \<Rightarrow> 'r option) \<Rightarrow> system \<Rightarrow> 'r event list \<Rightarrow> system \<Rightarrow> bool" where
  "demo_runs parse \<equiv> steps (conn_step demo_ares parse demo_enc demo_md5)"

lemma cexec_steps: "cexec parse xs s = Some (es, s') \<Longrightarrow> demo_runs parse s es s'"
proof (induction xs arbitrary: s es)
  case (Cons x xs)
  then show ?case by (auto split: option.splits prod.splits intro: steps_Cons cexec1_step)
qed (simp add: steps_none)

lemma demo_step: "conn_step demo_ares parse demo_enc demo_md5 s e s' \<Longrightarrow> demo_runs parse s [e] s'"
  using steps.steps_more [of "conn_step demo_ares parse demo_enc demo_md5" s "[]" s e s'] by (simp add: steps_none)

text \<open>Connect and authenticate socket 1, with the keepalive thread at its loop.\<close>

definition demo_options :: prepare_options where
  "demo_options = default_options\<lparr>key := [7], device_type_id := [8], device_id := [9], secret := [10]\<rparr>"

definition get_ready :: "conn_script list" where
  "get_ready = [C_init demo_options, C_run 0, C_run 0, C_run 0, C_connected 1, C_message 1 [0], C_run 0]"

lemma get_ready_runs:
  "map_option (\<lambda>(es, s). (es, stage (con s), ws (con s), work s)) (cexec Some get_ready system_init) =
     Some ([E_init, E_none, E_none, E_none, E_wire 1 [7], E_none, E_none], READY, Some 1, W_hub)"
  by code_simp

section \<open>What holds in every run\<close>

lemma messages_queue:
  assumes "steps (conn_step ares parse enc md5) system_init es s"
  shows "observe (follow_queue parse) [] es = Some (resps (con s)) \<and> (\<forall>t. rcvr s = R_wait t False \<longrightarrow> resps (con s) = [])"
proof -
  obtain q where q: "observe (follow_queue parse) [] es = Some q" "queued q s"
    using conn.observe_steps [OF assms queued_init] by blast
  then show ?thesis by (auto simp: queued_def)
qed

text \<open>
  C29. In every interleaving of the threads and callbacks, \<open>recv\<close> returns what was queued - the messages that came in the
  stage READY, and the errors - in their order, each once: a message parsed or reported as not parsable, an error as a broken
  connection; it reports a timeout or the release only when nothing is queued, and a receiver that still waits without a
  notification has nothing to take.
\<close>

theorem messages_in_order:
  assumes "steps (conn_step ares parse enc md5) system_init es s"
  shows "observe (follow_queue parse) [] es = Some (resps (con s)) \<and> (\<forall>t. rcvr s = R_wait t False \<longrightarrow> resps (con s) = [])"
  using assms by (rule messages_queue)

lemma script_runs: "map_option fst (cexec parse xs s) = Some es \<Longrightarrow> \<exists>s'. demo_runs parse s es s'"
  using cexec_steps by fastforce

lemma exec_state:
  assumes "(case cexec parse xs s of None \<Rightarrow> False | Some (es, s') \<Rightarrow> P es s')"
  shows "\<exists>es s'. demo_runs parse s es s' \<and> P es s'"
  using assms cexec_steps by (fastforce split: option.splits prod.splits)

definition get_ready_events :: "str event list" where
  "get_ready_events = [E_init, E_none, E_none, E_none, E_wire 1 [7], E_none, E_none]"

lemma receive_exec:
  "map_option fst (cexec Some (get_ready @ [C_message 1 [5], C_run 0, C_message 1 [6], C_run 0, C_recv 0, C_recv 0, C_recv 10, C_wake]) system_init) =
     Some (get_ready_events @ [E_none, E_accept [5], E_none, E_accept [6], E_recv SUCCESS (Some [5]), E_recv SUCCESS (Some [6]), E_none, E_recv TIMEOUT None])"
  by code_simp

theorem messages_in_order_witness:
  "\<exists>s. demo_runs Some system_init
      (get_ready_events @ [E_none, E_accept [5], E_none, E_accept [6], E_recv SUCCESS (Some [5]), E_recv SUCCESS (Some [6]), E_none, E_recv TIMEOUT None]) s \<and>
    resps (con s) = []"
proof -
  obtain s where s: "demo_runs Some system_init
      (get_ready_events @ [E_none, E_accept [5], E_none, E_accept [6], E_recv SUCCESS (Some [5]), E_recv SUCCESS (Some [6]), E_none, E_recv TIMEOUT None]) s"
    using script_runs [OF receive_exec] by blast
  moreover have "resps (con s) = []" using messages_in_order [OF s] by (simp add: get_ready_events_def)
  ultimately show ?thesis by blast
qed

text \<open>
  Errors are queued in the stage READY only, which the work thread has left in its own \<open>onDisconnection\<close>: an error comes
  from the keepalive thread or from \<open>release\<close>, after the work thread has connected anew.
\<close>

definition push_late :: "system \<Rightarrow> bool" where
  "push_late s \<longleftrightarrow> ((\<exists>b. work s = W_cb Cb_push b) \<longrightarrow> stage (con s) \<noteq> READY) \<and> (app s = A_none \<longrightarrow> work s = W_none)"

text \<open>What holds before \<open>release\<close> and before the keepalive thread terminates a socket.\<close>

definition undisturbed :: "system \<Rightarrow> bool" where
  "undisturbed s \<longleftrightarrow> push_late s \<and> (app s = A_none \<or> app s = A_running) \<and> (\<forall>t. keep s \<noteq> K_ended t) \<and> (\<forall>x t. keep s \<noteq> K_cb x t)"

lemma on_disconnection_cases:
  "on_disconnection x s = (e, y, s') \<Longrightarrow>
     app s' = app s \<and> work s' = work s \<and> keep s' = keep s \<and> (stage (con s') = stage (con s) \<or> stage (con s') = INIT) \<and>
     (e = E_none \<or> e = E_broken \<and> x = Cb_push \<and> stage (con s) = READY) \<and> (y = Some Cb_push \<longrightarrow> stage (con s') = INIT)"
  by (cases x) (auto simp: push_error_resp_def split: if_splits)

lemma run_step_undisturbed:
  fixes e :: "'r event"
  assumes "run_step now s = (e, s')" "undisturbed s"
  shows "undisturbed s' \<and> e \<noteq> E_broken"
proof (cases "work s")
  case (W_cb x nested)
  obtain e1 :: "'r event" and y s1 where d: "on_disconnection x s = (e1, y, s1)" by (metis prod_cases3)
  show ?thesis
    using on_disconnection_cases [OF d] assms d W_cb by (auto simp: run_step_def undisturbed_def push_late_def split: option.splits if_splits)
qed (use assms in \<open>auto simp: undisturbed_def push_late_def auth_ready_def push_resp_data_def error_reset_def run_step_def split: if_splits\<close>)

lemma keep_step_undisturbed:
  fixes e :: "'r event"
  assumes "keep_step now closes s = Some (e, s')" "undisturbed s" "\<forall>w. e \<noteq> E_terminate w"
  shows "undisturbed s' \<and> e \<noteq> E_broken"
  using assms
  by (cases "keep s") (auto simp: undisturbed_def push_late_def keep_step_def keepalive_ping_def keepalive_terminate_def
      split: bind_splits if_splits option.splits prod.splits)

lemma recv_take_same: "recv_take parse c = (r, c') \<Longrightarrow> stage c' = stage c"
  by (auto simp: recv_take_def split: list.splits)

lemma undisturbed_step:
  assumes "undisturbed s" "conn_step ares parse enc md5 s e s'" "e \<noteq> E_release" "\<forall>w. e \<noteq> E_terminate w"
  shows "undisturbed s' \<and> e \<noteq> E_broken"
  using assms(2)
proof cases
  case (run now)
  then show ?thesis using run_step_undisturbed [OF _ assms(1)] by simp
next
  case (keepalive now closes)
  then show ?thesis using keep_step_undisturbed [OF _ assms(1)] assms(4) by blast
next
  case (closing another)
  then show ?thesis using assms(1) by (auto simp: undisturbed_def close_step_def split: app_pc.splits)
next
  case (message m w now)
  then show ?thesis using assms(1)
    by (auto simp: undisturbed_def push_late_def on_message_def Let_def auth_failed_def split: stage.split option.split)
next
  case (recv t r)
  then show ?thesis using assms(1)
    by (auto simp: undisturbed_def push_late_def recv_begin_def split: if_splits prod.splits dest: recv_take_same)
next
  case (woken t b x y)
  then show ?thesis using assms(1)
    by (auto simp: undisturbed_def push_late_def recv_woken_def split: prod.splits dest: recv_take_same)
next
  case (send buf r)
  then show ?thesis using assms(1) by (auto simp: undisturbed_def push_late_def send_begin_def split: option.splits)
next
  case (send_on b r)
  then show ?thesis using assms(1) by (auto simp: undisturbed_def push_late_def send_test_def split: if_splits)
next
  case (connected ts w)
  then show ?thesis using assms(1) by (auto simp: undisturbed_def push_late_def on_connection_def split: option.split)
next
  case failed
  then show ?thesis using assms(1) by (auto simp: undisturbed_def push_late_def on_error_def)
qed (use assms(1,3) in \<open>auto simp: undisturbed_def push_late_def initialize_def release_joined_def on_pong_def\<close>)

lemma undisturbed_steps:
  "steps (conn_step ares parse enc md5) s es s' \<Longrightarrow> undisturbed s \<Longrightarrow> E_release \<notin> set es \<Longrightarrow> \<forall>w. E_terminate w \<notin> set es \<Longrightarrow>
     undisturbed s' \<and> E_broken \<notin> set es"
proof (induction rule: steps.induct)
  case (steps_more s es s1 e s2)
  then show ?case using undisturbed_step [of s1 ares parse enc md5 e s2] by auto
qed simp

text \<open>A broken connection is returned only when an error was queued.\<close>

lemma follow_broken:
  "observe (follow_queue parse) q es = Some q' \<Longrightarrow> E_recv CONNECTION_BROKEN x \<in> set es \<Longrightarrow> E_broken \<in> set es \<or> (\<exists>b \<in> set q. btype b \<noteq> DATA)"
proof (induction es arbitrary: q)
  case (Cons e es)
  then obtain q1 where q1: "follow_queue parse q e = Some q1" "observe (follow_queue parse) q1 es = Some q'"
    by (auto split: option.splits)
  have "E_broken \<in> set es \<or> (\<exists>b \<in> set q1. btype b \<noteq> DATA)" if "E_recv CONNECTION_BROKEN x \<in> set es"
    using Cons.IH [OF q1(2) that] .
  moreover have "(\<exists>b \<in> set q. btype b \<noteq> DATA) \<or> e = E_broken" if "\<exists>b \<in> set q1. btype b \<noteq> DATA"
    using q1(1) that by (cases e) (auto split: if_splits list.splits)
  moreover have "\<exists>b \<in> set q. btype b \<noteq> DATA" if "e = E_recv CONNECTION_BROKEN x"
    using q1(1) that by (auto split: if_splits list.splits option.splits)
  ultimately show ?case using Cons.prems(2) by auto
qed simp

text \<open>
  C30. As long as no socket is closed from another thread - by \<open>release\<close>, or by the keepalive thread when the server has been
  silent - no lost, refused or failed connection is ever reported to the speech client: \<open>onDisconnection\<close> leaves the stage
  READY before \<open>push_error_resp\<close> tests for it, so no error is queued and \<open>recv\<close> never returns CONNECTION_BROKEN.
\<close>

theorem disconnect_never_reported:
  assumes "steps (conn_step ares parse enc md5) system_init es s" "E_release \<notin> set es" "\<forall>w. E_terminate w \<notin> set es"
  shows "E_broken \<notin> set es \<and> (\<forall>x. E_recv CONNECTION_BROKEN x \<notin> set es)"
proof -
  have "undisturbed system_init" by (simp add: undisturbed_def push_late_def system_init_def)
  then have "E_broken \<notin> set es" using undisturbed_steps [OF assms(1)] assms(2,3) by blast
  then show ?thesis using follow_broken [of parse "[]" es] messages_queue [OF assms(1)] by fastforce
qed

lemma disconnect_exec:
  "map_option fst (cexec Some (get_ready @ [C_recv 10, C_lost, C_run 0, C_run 0, C_run 0, C_wake]) system_init) =
     Some (get_ready_events @ [E_none, E_none, E_none, E_none, E_none, E_recv TIMEOUT None])"
  by code_simp

theorem disconnect_never_reported_witness:
  "\<exists>s. demo_runs Some system_init (get_ready_events @ [E_none, E_none, E_none, E_none, E_none, E_recv TIMEOUT None]) s \<and>
    E_recv CONNECTION_BROKEN None \<notin> set (get_ready_events @ [E_none, E_none, E_none, E_none, E_none, E_recv TIMEOUT None])"
proof -
  obtain s where s: "demo_runs Some system_init (get_ready_events @ [E_none, E_none, E_none, E_none, E_none, E_recv TIMEOUT None]) s"
    using script_runs [OF disconnect_exec] by blast
  then show ?thesis using disconnect_never_reported [OF s] by (auto simp: get_ready_events_def)
qed

text \<open>
  When the keepalive thread terminates a socket and the work thread has connected anew before the error is queued, the error
  is reported for the new connection.
\<close>

theorem broken_reported_for_new_connection:
  "\<exists>es s. demo_runs Some system_init (es @ [E_recv CONNECTION_BROKEN None]) s \<and> stage (con s) = READY \<and> ws (con s) = Some 2"
proof -
  have "(case cexec Some (get_ready @ [C_keep 0 False, C_keep 50000000000 False, C_keep 50000000000 False, C_keep 50000000000 False,
      C_keep 50000000000 True, C_keep 50000000000 False, C_keep 50000000000 False, C_run 0, C_run 0, C_run 0, C_run 0,
      C_connected 2, C_message 2 [0], C_run 0, C_keep 50000000000 False, C_recv 0]) system_init of
    None \<Rightarrow> False | Some (es, s) \<Rightarrow> es = butlast es @ [E_recv CONNECTION_BROKEN None] \<and> stage (con s) = READY \<and> ws (con s) = Some 2)"
    by code_simp
  from exec_state [OF this] show ?thesis by metis
qed

section \<open>Release\<close>

definition joins_forever :: "system \<Rightarrow> bool" where
  "joins_forever s \<longleftrightarrow> app s \<noteq> A_none \<and> app s \<noteq> A_running \<and> stage (con s) \<noteq> RELEASED \<and> work s \<noteq> W_none \<and> work s \<noteq> W_quit"

lemma joins_forever_run:
  fixes e :: "'r event"
  assumes "run_step now s = (e, s')" "joins_forever s"
  shows "joins_forever s'"
proof (cases "work s")
  case (W_cb x nested)
  obtain e1 :: "'r event" and y s1 where d: "on_disconnection x s = (e1, y, s1)" by (metis prod_cases3)
  show ?thesis
    using on_disconnection_cases [OF d] assms d W_cb by (auto simp: run_step_def joins_forever_def split: option.splits if_splits)
qed (use assms in \<open>auto simp: joins_forever_def run_step_def auth_ready_def push_resp_data_def error_reset_def split: if_splits\<close>)

lemma joins_forever_keep:
  fixes e :: "'r event"
  assumes "keep_step now closes s = Some (e, s')" "joins_forever s"
  shows "joins_forever s'"
proof (cases "keep s")
  case (K_cb x t)
  obtain e1 :: "'r event" and y s1 where d: "on_disconnection x s = (e1, y, s1)" by (metis prod_cases3)
  show ?thesis
    using on_disconnection_cases [OF d] assms d K_cb by (auto simp: keep_step_def joins_forever_def)
qed (use assms in \<open>auto simp: joins_forever_def keep_step_def keepalive_ping_def keepalive_terminate_def
      split: bind_splits if_splits option.splits prod.splits\<close>)

lemma joins_forever_close:
  fixes e :: "'r event"
  assumes "close_step another s = (e, s')" "joins_forever s"
  shows "joins_forever s'"
proof (cases "app s")
  case (A_cb x)
  obtain e1 :: "'r event" and y s1 where d: "on_disconnection x s = (e1, y, s1)" by (metis prod_cases3)
  show ?thesis
    using on_disconnection_cases [OF d] assms d A_cb by (auto simp: close_step_def joins_forever_def split: option.splits)
qed (use assms in \<open>auto simp: joins_forever_def close_step_def split: if_splits\<close>)

lemma joins_forever_step:
  assumes "joins_forever s" "conn_step ares parse enc md5 s e s'"
  shows "joins_forever s'"
  using assms(2)
proof cases
  case (run now)
  then show ?thesis using joins_forever_run [OF _ assms(1)] by simp
next
  case (keepalive now closes)
  then show ?thesis using joins_forever_keep [OF _ assms(1)] by blast
next
  case (closing another)
  then show ?thesis using joins_forever_close [OF _ assms(1)] by blast
next
  case (message m w now)
  then show ?thesis using assms(1)
    by (auto simp: joins_forever_def on_message_def Let_def auth_failed_def split: stage.split option.split)
next
  case (recv t r)
  then show ?thesis using assms(1)
    by (auto simp: joins_forever_def recv_begin_def split: if_splits prod.splits dest: recv_take_same)
next
  case (woken t b x y)
  then show ?thesis using assms(1)
    by (auto simp: joins_forever_def recv_woken_def split: prod.splits dest: recv_take_same)
next
  case (send buf r)
  then show ?thesis using assms(1) by (auto simp: joins_forever_def send_begin_def split: option.splits)
next
  case (send_on b r)
  then show ?thesis using assms(1) by (auto simp: joins_forever_def send_test_def split: if_splits)
next
  case failed
  then show ?thesis using assms(1) by (auto simp: joins_forever_def on_error_def)
qed (use assms(1) in \<open>auto simp: joins_forever_def on_connection_def on_pong_def\<close>)

lemma joins_forever_steps:
  "steps (conn_step ares parse enc md5) s es s' \<Longrightarrow> joins_forever s \<Longrightarrow> joins_forever s'"
  by (induction rule: steps.induct) (blast intro: joins_forever_step)+

text \<open>Where the work thread is between its test of the stage and a write that it may do.\<close>

definition about_to_write :: "int \<Rightarrow> system \<Rightarrow> bool" where
  "about_to_write now s \<longleftrightarrow>
     (case work s of
        W_init \<Rightarrow> reconn_tp (con s) \<le> now
      | W_auth w \<Rightarrow> \<not> holds_req (sndr s)
      | W_cb x b \<Rightarrow> x = Cb_set
      | W_failed_set \<Rightarrow> True
      | _ \<Rightarrow> False)"

text \<open>
  C31. When \<open>release\<close> is called while the work thread is between its test of the stage and its write - it is about to connect,
  to record the authentication, or to reset the stage after a lost or failed connection - the write overwrites RELEASED
  and \<open>release\<close> never returns, whatever happens afterwards.
\<close>

theorem release_never_returns:
  assumes "app s = A_running" "about_to_write now s"
  shows "\<exists>s1 s2. conn_step ares parse enc md5 s E_release s1 \<and> run_step now s1 = (E_none :: 'r event, s2) \<and>
    conn_step ares (parse :: str \<Rightarrow> 'r option) enc md5 s1 E_none s2 \<and>
    (\<forall>es s'. steps (conn_step ares parse enc md5) s2 es s' \<longrightarrow> stage (con s') \<noteq> RELEASED \<and> app s' \<noteq> A_none)"
proof -
  let ?s1 = "release_begin s"
  obtain s2 where r: "run_step now ?s1 = (E_none :: 'r event, s2)" "joins_forever s2"
    using assms(2) by (auto simp: about_to_write_def run_step_def release_begin_def joins_forever_def auth_ready_def error_reset_def
        split: work_pc.splits)
  have "\<forall>w. work ?s1 = W_auth w \<longrightarrow> \<not> holds_req (sndr ?s1)"
    using assms(2) by (auto simp: about_to_write_def release_begin_def)
  then have "conn_step ares parse enc md5 ?s1 E_none s2" by (rule conn_step.run [OF _ r(1)])
  moreover have "stage (con s') \<noteq> RELEASED \<and> app s' \<noteq> A_none" if "steps (conn_step ares parse enc md5) s2 es s'" for es s'
    using joins_forever_steps [OF that r(2)] by (simp add: joins_forever_def)
  ultimately show ?thesis using conn_step.release [OF assms(1)] r(1) by blast
qed

lemma release_exec:
  "(case cexec Some [C_init demo_options, C_run 0, C_run 0] system_init of None \<Rightarrow> False
    | Some (es, s) \<Rightarrow> app s = A_running \<and> about_to_write 0 s)"
  by code_simp

theorem release_never_returns_witness:
  "\<exists>es s s2. demo_runs Some system_init es s \<and> app s = A_running \<and> demo_runs Some s [E_release, E_none] s2 \<and>
     (\<forall>es' s'. demo_runs Some s2 es' s' \<longrightarrow> app s' \<noteq> A_none)"
proof -
  obtain es s where s: "demo_runs Some system_init es s" "app s = A_running" "about_to_write 0 s"
    using exec_state [OF release_exec] by auto
  obtain s1 s2 where r: "conn_step demo_ares Some demo_enc demo_md5 s E_release s1" "conn_step demo_ares Some demo_enc demo_md5 s1 E_none s2"
    "\<forall>es' s'. demo_runs Some s2 es' s' \<longrightarrow> app s' \<noteq> A_none"
    using release_never_returns [OF s(2,3), of demo_ares Some demo_enc demo_md5] by blast
  have "demo_runs Some s [E_release, E_none] s2"
    using demo_step [OF r(1)] steps_Cons [of "conn_step demo_ares Some demo_enc demo_md5" s1 "[E_none]" s2, OF demo_step [OF r(2)] r(1)] by simp
  then show ?thesis using s r(3) by blast
qed

text \<open>A receiver without a timeout after the end of a session.\<close>

definition waits_forever :: "system \<Rightarrow> bool" where
  "waits_forever s \<longleftrightarrow> app s = A_none \<and> work s = W_none \<and> keep s = K_none \<and> rcvr s = R_wait 0 False"

lemma waits_forever_step:
  assumes "waits_forever s" "conn_step ares parse enc md5 s e s'" "e \<noteq> E_init" "e \<noteq> E_spurious"
  shows "waits_forever s' \<and> (\<forall>r x. e \<noteq> E_recv r x)"
  using assms(2)
proof cases
  case (run now)
  then show ?thesis using assms(1) by (auto simp: waits_forever_def run_step_def)
next
  case (keepalive now closes)
  then show ?thesis using assms(1) by (auto simp: waits_forever_def keep_step_def)
next
  case (closing another)
  then show ?thesis using assms(1) by (auto simp: waits_forever_def close_step_def)
next
  case (send buf r)
  then show ?thesis using assms(1) by (auto simp: waits_forever_def send_begin_def split: option.splits)
next
  case (send_on b r)
  then show ?thesis using assms(1) by (auto simp: waits_forever_def send_test_def split: if_splits)
qed (use assms(1,3,4) in \<open>auto simp: waits_forever_def\<close>)

lemma waits_forever_steps:
  "steps (conn_step ares parse enc md5) s es s' \<Longrightarrow> waits_forever s \<Longrightarrow> E_init \<notin> set es \<Longrightarrow> E_spurious \<notin> set es \<Longrightarrow>
     waits_forever s' \<and> (\<forall>r x. E_recv r x \<notin> set es)"
proof (induction rule: steps.induct)
  case (steps_more s es s1 e s2)
  then show ?case using waits_forever_step [of s1 ares parse enc md5 e s2] by auto
qed simp

text \<open>
  C32. When \<open>release\<close> has returned and nothing is queued, a call of \<open>recv\<close> without a timeout waits, although the stage is RELEASED,
  and no step but a spurious wake-up ends the wait before the connection is initialised again: the notification of
  \<open>release\<close> came before the wait and the stage is only tested after it. The speech client asks for no timeout when
  its operation has timed out.
\<close>

theorem recv_waits_forever:
  assumes "steps (conn_step ares parse enc md5) system_init es s" "app s = A_none" "stage (con s) = RELEASED"
    and "rcvr s = R_idle" "resps (con s) = []"
  shows "\<exists>s1. recv_begin parse 0 s = (None, s1) \<and> conn_step ares parse enc md5 s E_none s1 \<and>
    (\<forall>es' s'. steps (conn_step ares parse enc md5) s1 es' s' \<and> E_init \<notin> set es' \<and> E_spurious \<notin> set es' \<longrightarrow>
       rcvr s' = R_wait 0 False \<and> (\<forall>r x. E_recv r x \<notin> set es'))"
proof -
  let ?s1 = "s\<lparr>rcvr := R_wait 0 False\<rparr>"
  have b: "recv_begin parse 0 s = (None, ?s1)" using assms(5) by (simp add: recv_begin_def)
  have st: "conn_step ares parse enc md5 s E_none ?s1" using conn_step.recv [OF assms(4) b, of ares enc md5] by simp
  obtain q where "queued q s" using conn.reachable_inv [OF assms(1) queued_init] by blast
  then have w: "waits_forever ?s1" using assms(2) by (simp add: waits_forever_def queued_def)
  note waits_forever_steps [OF _ w]
  then have "\<forall>es' s'. steps (conn_step ares parse enc md5) ?s1 es' s' \<and> E_init \<notin> set es' \<and> E_spurious \<notin> set es' \<longrightarrow>
      rcvr s' = R_wait 0 False \<and> (\<forall>r x. E_recv r x \<notin> set es')"
    unfolding waits_forever_def by blast
  then show ?thesis using b st by blast
qed

lemma wait_exec:
  "(case cexec Some [C_init demo_options, C_release, C_close False, C_run 0, C_keep 0 False, C_joined] system_init of None \<Rightarrow> False
    | Some (es, s) \<Rightarrow> app s = A_none \<and> stage (con s) = RELEASED \<and> rcvr s = R_idle \<and> resps (con s) = [])"
  by code_simp

theorem recv_waits_forever_witness:
  "\<exists>es s s1. demo_runs Some system_init es s \<and> app s = A_none \<and> demo_runs Some s [E_none] s1 \<and>
     (\<forall>es' s'. demo_runs Some s1 es' s' \<and> E_init \<notin> set es' \<and> E_spurious \<notin> set es' \<longrightarrow> rcvr s' = R_wait 0 False)"
proof -
  obtain es s where s: "demo_runs Some system_init es s" "app s = A_none" "stage (con s) = RELEASED" "rcvr s = R_idle" "resps (con s) = []"
    using exec_state [OF wait_exec] by auto
  obtain s1 where r: "conn_step demo_ares Some demo_enc demo_md5 s E_none s1"
    "\<forall>es' s'. demo_runs Some s1 es' s' \<and> E_init \<notin> set es' \<and> E_spurious \<notin> set es' \<longrightarrow> rcvr s' = R_wait 0 False"
    using recv_waits_forever [OF s] by blast
  have "demo_runs Some s [E_none] s1"
    by (rule demo_step [OF r(1)])
  then show ?thesis using s r(2) by blast
qed

section \<open>The socket\<close>

text \<open>
  The keepalive thread dereferences a NULL socket exactly when the server has been silent for the
  time allowed and the socket was lost after the thread had read the stage, and this happens.
\<close>

theorem keepalive_uses_null:
  "(\<forall>now closes s. (keep_step now closes s = (None :: (str event \<times> system) option)) =
      (\<exists>t. keep s = K_term t \<and> no_resp_timeout (opts (con s)) * 1000000 \<le> t - recv_tp (con s) \<and> ws (con s) = None)) \<and>
   (\<exists>es s. demo_runs Some system_init es s \<and> app s = A_running \<and> keep_step 0 False s = (None :: (str event \<times> system) option))"
proof -
  have "(case cexec Some (get_ready @ [C_keep 0 False, C_keep 50000000000 False, C_keep 50000000000 False, C_lost]) system_init of None \<Rightarrow> False
    | Some (es, s) \<Rightarrow> app s = A_running \<and> Option.is_none (keep_step 0 False s :: (str event \<times> system) option))"
    by code_simp
  from exec_state [OF this] show ?thesis
    by (auto simp: Option.is_none_def keep_step_def keepalive_terminate_def ms_def split: keep_pc.split option.split prod.split)
qed

text \<open>
  \<open>send\<close> reports success for a request that was never sent when the socket is lost between its
  test of the stage and the use of the socket.
\<close>

theorem send_succeeds_unsent:
  "\<exists>s. demo_runs Some system_init (get_ready_events @ [E_none, E_none, E_none, E_send SUCCESS]) s \<and> sndr s = S_idle \<and> ws (con s) = None"
proof -
  have "(case cexec Some (get_ready @ [C_send [42], C_lost, C_ws, C_done]) system_init of None \<Rightarrow> False
    | Some (es, s) \<Rightarrow> es = get_ready_events @ [E_none, E_none, E_none, E_send SUCCESS] \<and> sndr s = S_idle \<and> ws (con s) = None)"
    by code_simp
  from exec_state [OF this] show ?thesis by blast
qed

end
