(* ===== verification/SpeechInv.thy ===== *)
theory SpeechInv
  imports Speech OpAnswers
begin

text \<open>
  What holds of the speech client in every reachable state: the operations and the streams of
  responses belong together, identifiers are fresh, and the sender is only past a request of the
  current operation. From it: \<open>poll\<close> never fails its assertion and reports the operations one
  after the other, and when exactly the sender aborts.
\<close>

section \<open>The contents of the responses\<close>

definition no_asr_end :: "(result_in, int) stream \<Rightarrow> bool" where
  "no_asr_end x \<longleftrightarrow> (\<forall>r. fin x = Some r \<longrightarrow> \<not> asr_finish r)"

interpretation answered no_asr_end
  by unfold_locales (simp_all add: no_asr_end_def new_stream_def)

section \<open>The protocol of the results\<close>

text \<open>The state of a reader of results is the operation whose results it is reading.\<close>

fun follow_result :: "int option \<Rightarrow> result \<Rightarrow> int option option" where
  "follow_result cur r =
     (case res_type r of
        SPEECH_RES_START \<Rightarrow> if cur = None then Some (Some (res_id r)) else None
      | SPEECH_RES_INTER \<Rightarrow> if cur = Some (res_id r) then Some cur else None
      | SPEECH_RES_ASR_FINISH \<Rightarrow> if cur = Some (res_id r) then Some cur else None
      | SPEECH_RES_END \<Rightarrow> if cur = Some (res_id r) then Some None else None
      | _ \<Rightarrow> if cur = None \<or> cur = Some (res_id r) then Some None else None)"

fun follow_poll :: "int option \<Rightarrow> poll_ret \<Rightarrow> int option option" where
  "follow_poll cur (Polled r) = follow_result cur r"
| "follow_poll cur _ = Some cur"

text \<open>What a round of \<open>poll\<close> may do to the client.\<close>

definition polled_to :: "'o speech \<Rightarrow> poll_ret \<Rightarrow> 'o speech \<Rightarrow> bool" where
  "polled_to s r s' \<longleftrightarrow>
     (\<exists>q c b. s' = s\<lparr>responses := q, ctl := c, resp_cond := b\<rparr> \<and> sq_ok q \<and> ctl_ok c \<and> op_ids c = op_ids (ctl s) \<and>
        op_at c = op_at (ctl s) \<and> current_op c = current_op (ctl s) \<and> op_cond c = op_cond (ctl s) \<and>
        (\<exists>P. resp_rel P c (streams q)) \<and> follow_poll (current (streams (responses s))) r = Some (current (streams q)))"

lemma polled_toI:
  assumes "s' = s\<lparr>responses := q, ctl := c, resp_cond := b\<rparr>" "sq_ok q" "ctl_ok c" "op_ids c = op_ids (ctl s)"
    "op_at c = op_at (ctl s)" "current_op c = current_op (ctl s)" "op_cond c = op_cond (ctl s)" "resp_rel P c (streams q)"
    "follow_poll (current (streams (responses s))) r = Some (current (streams q))"
  shows "polled_to s r s'"
  unfolding polled_to_def using assms by blast

lemma poll_dropped:
  assumes ok: "initialized s" "sq_ok (responses s)" "ctl_ok (ctl s)" and rel: "resp_rel P (ctl s) (streams (responses s))"
    and ops: "operations (ctl s) = k # ks" and st: "op_status (op_at (ctl s) k) \<in> {CANCELLED, ERROR}"
  shows "\<exists>r s'. poll_round s = Some (r, s') \<and> polled_to s r s'"
proof -
  let ?i = "op_id (op_at (ctl s) k)" and ?R = "streams (responses s)" and ?c = "remove_front_op (ctl s)"
  obtain q where q: "drop_responses ?i s = Some (s\<lparr>responses := q\<rparr>)" "sq_ok q"
      "streams q = (if P k then tl ?R else ?R)" "current ?R \<in> {None, Some ?i}"
    using drop_stream_ok [OF ok(2,3) rel ops] by (auto simp: drop_responses_def)
  let ?r = "if op_status (op_at (ctl s) k) = CANCELLED then plain_result ?i SPEECH_RES_CANCELLED 0
            else plain_result ?i SPEECH_RES_ERROR (op_error (op_at (ctl s) k))"
  have ns: "op_status (op_at (ctl s) k) \<notin> {START, STREAMING}" using st by auto
  note m = remove_front_ok [OF ok(3) ops ns]
  have run: "poll_round s = Some (Polled ?r, s\<lparr>responses := q, ctl := ?c, resp_cond := resp_cond s\<rparr>)"
    using ok(1) ops st q(1) by (auto simp: poll_round_def front_op_def Let_def)
  have f: "follow_poll (current ?R) (Polled ?r) = Some None"
    using q(4) by (auto simp: plain_result_def)
  have rr: "resp_rel P ?c (streams q)" "current (streams q) = None"
    using resp_remove_front [OF rel ok(3) ops ns q(3)] by blast+
  have "polled_to s (Polled ?r) (s\<lparr>responses := q, ctl := ?c, resp_cond := resp_cond s\<rparr>)"
    by (rule polled_toI [OF refl q(2) m(1) m(4) m(3) m(5,6) rr(1)]) (simp only: f rr(2))
  then show ?thesis using run by blast
qed

text \<open>The first operation is alive: what the queue of responses gives, for it and in the protocol.\<close>

lemma pop_for_front:
  assumes ok: "sq_ok (responses s)" "ctl_ok (ctl s)" and rel: "resp_rel P (ctl s) (streams (responses s))"
    and ops: "operations (ctl s) = k # ks" and st: "op_status (op_at (ctl s) k) \<notin> {CANCELLED, ERROR}"
    and pop: "sp_pop (streams (responses s)) = (r, R')"
  shows "r = Pop_empty \<and> R' = streams (responses s) \<or>
    (\<exists>t. pop_id r = Some (op_id (op_at (ctl s) k)) \<and> poptype_to_restype r = Some t \<and>
      (let res = fill_result (pop_res None r) (plain_result (op_id (op_at (ctl s) k)) t (pop_err 0 r)) in
        follow_result (current (streams (responses s))) res = Some (current R') \<and>
        (if final_res (res_type res) then P k \<and> R' = tl (streams (responses s)) \<and> op_status (op_at (ctl s) k) = END
         else resp_rel P (ctl s) R')))"
proof (cases "r = Pop_empty \<and> R' = streams (responses s)")
  case False
  let ?i = "op_id (op_at (ctl s) k)"
  obtain x T where R: "streams (responses s) = x # T" and x: "sid x = ?i" "matches (op_status (op_at (ctl s) k)) x"
      and cT: "current T = None" and P: "P k" and stx: "st x = Uncompleted \<or> op_status (op_at (ctl s) k) = END"
      and p: "popped_from ?i x T r R'"
    using pop_front [OF ok(2) rel ops st pop] False by (auto simp: answers_def)
  note rep = resp_popped_start [OF rel [unfolded R]]
  have fin: "\<not> asr_finish y" if "fin x = Some y" for y using x(2) that by (simp add: matches_def no_asr_end_def)
  show ?thesis
    using p x(1) R P cT stx rep ops fin
    by (cases "fin x"; cases r; auto simp: popped_from_def fill_result_def plain_result_def Let_def current_def split: option.split)
qed simp

lemma poll_waits:
  assumes ok: "sq_ok q" "ctl_ok (ctl s)" and rel: "resp_rel P (ctl s) (streams q)" "streams q = streams (responses s)"
  shows "polled_to s Poll_wait (s\<lparr>responses := q, resp_cond := True\<rparr>)"
  by (rule polled_toI [where q = q and c = "ctl s" and b = True]) (use ok rel in simp_all)

lemma poll_alive:
  assumes ok: "initialized s" "sq_ok (responses s)" "ctl_ok (ctl s)" and rel: "resp_rel P (ctl s) (streams (responses s))"
    and ops: "operations (ctl s) = k # ks" and st: "op_status (op_at (ctl s) k) \<notin> {CANCELLED, ERROR}"
  shows "\<exists>r s'. poll_round s = Some (r, s') \<and> polled_to s r s'"
proof -
  let ?R = "streams (responses s)" and ?i = "op_id (op_at (ctl s) k)"
  obtain r R' where p: "sp_pop ?R = (r, R')" by fastforce
  obtain q where q: "sq_pop (responses s) = Some (r, q)" "sq_ok q" "streams q = R'"
    using sq_laws(6) [OF ok(2)] p by (auto simp: sq_rel_def)
  have run: "poll_round s =
    (if pop_id r = None then Some (Poll_wait, s\<lparr>responses := q, resp_cond := True\<rparr>)
     else if pop_id r \<noteq> Some ?i then None
     else do {
       t \<leftarrow> poptype_to_restype r;
       let res = fill_result (pop_res None r) (plain_result ?i t (pop_err 0 r));
       Some (Polled res, if final_res (res_type res) then s\<lparr>responses := q, ctl := remove_front_op (ctl s)\<rparr> else s\<lparr>responses := q\<rparr>) })"
    using ok(1) ops st q(1) by (simp add: poll_round_def front_op_def Let_def cong: if_cong)
  consider (empty) "r = Pop_empty" "R' = ?R"
    | (some) t res where "pop_id r = Some ?i" "poptype_to_restype r = Some t"
        "res = fill_result (pop_res None r) (plain_result ?i t (pop_err 0 r))"
        "follow_result (current ?R) res = Some (current R')"
        "if final_res (res_type res) then P k \<and> R' = tl ?R \<and> op_status (op_at (ctl s) k) = END else resp_rel P (ctl s) R'"
    using pop_for_front [OF ok(2,3) rel ops st p] unfolding Let_def by blast
  then show ?thesis
  proof cases
    case empty
    then show ?thesis using run poll_waits [OF q(2) ok(3), of P] rel q(3) by auto
  next
    case some
    let ?s = "if final_res (res_type res) then s\<lparr>responses := q, ctl := remove_front_op (ctl s)\<rparr> else s\<lparr>responses := q\<rparr>"
    have "poll_round s = Some (Polled res, ?s)" using run some(1-3) by simp
    moreover have "polled_to s (Polled res) ?s"
    proof (cases "final_res (res_type res)")
      case True
      then have f: "P k" "R' = tl ?R" "op_status (op_at (ctl s) k) \<notin> {START, STREAMING}" using some(5) by auto
      note m = remove_front_ok [OF ok(3) ops f(3)]
      have "resp_rel P (remove_front_op (ctl s)) R'"
        by (rule resp_remove_front(1) [OF rel ok(3) ops f(3)]) (simp add: f)
      then show ?thesis using True some(4) q m
        by (intro polled_toI [where q = q and c = "remove_front_op (ctl s)" and b = "resp_cond s"]) simp_all
    next
      case False
      then show ?thesis using some(4,5) q ok(3)
        by (intro polled_toI [where q = q and c = "ctl s" and b = "resp_cond s"]) simp_all
    qed
    ultimately show ?thesis by blast
  qed
qed

lemma poll_round_ok:
  assumes "initialized s" "sq_ok (responses s)" "ctl_ok (ctl s)" "resp_rel P (ctl s) (streams (responses s))"
  shows "\<exists>r s'. poll_round s = Some (r, s') \<and> polled_to s r s'"
proof (cases "operations (ctl s)")
  case Nil
  then have "poll_round s = Some (Poll_wait, s\<lparr>resp_cond := True\<rparr>)" using assms(1) by (simp add: poll_round_def front_op_def)
  moreover have "s\<lparr>resp_cond := True\<rparr> = s\<lparr>responses := responses s, resp_cond := True\<rparr>" by simp
  then have "polled_to s Poll_wait (s\<lparr>resp_cond := True\<rparr>)" using poll_waits [OF assms(2,3,4) refl] by simp
  ultimately show ?thesis by blast
next
  case (Cons k ks)
  show ?thesis using poll_dropped [OF assms Cons] poll_alive [OF assms Cons] by blast
qed

section \<open>Steps that start nothing\<close>

text \<open>
  \<open>core\<close> is the invariant of the queues and operations; \<open>keeps\<close> holds of the changes that
  start no request and no operation and report no result.
\<close>

definition core :: "'o speech \<Rightarrow> bool" where
  "core s \<longleftrightarrow> sq_ok (voice_reqs s) \<and> sq_ok (responses s) \<and> ctl_ok (ctl s) \<and> (\<exists>P. resp_rel P (ctl s) (streams (responses s)))"

definition stream_same :: "(str, 'o) stream \<Rightarrow> (str, 'o) stream \<Rightarrow> bool" where
  "stream_same x y \<longleftrightarrow> sid y = sid x \<and> polled y = polled x \<and> (None \<notin> set (sdata x) \<longrightarrow> None \<notin> set (sdata y))"

definition text_same :: "'o req_info \<Rightarrow> 'o req_info \<Rightarrow> bool" where
  "text_same t u \<longleftrightarrow> req_id u = req_id t \<and> req_data u = req_data t \<and> req_type u \<in> {req_type t, REQ_CANCELLED}"

definition keeps :: "'o speech \<Rightarrow> 'o speech \<Rightarrow> bool" where
  "keeps s s' \<longleftrightarrow> core s' \<and> initialized s' = initialized s \<and> next_id s' = next_id s \<and> list_all2 text_same (text_reqs s) (text_reqs s') \<and>
     list_all2 stream_same (streams (voice_reqs s)) (streams (voice_reqs s')) \<and>
     current (streams (responses s')) = current (streams (responses s)) \<and> ctl_same (ctl s) (ctl s')"

lemma same_refl [simp]: "stream_same x x" "text_same t t"
  by (simp_all add: stream_same_def text_same_def)

lemma all_same_refl [simp]: "list_all2 stream_same V V" "list_all2 text_same T T"
  by (simp_all add: list_all2_same)

lemma keeps_refl: "core s \<Longrightarrow> keeps s s"
  by (simp add: keeps_def)

lemma keeps_core: "keeps s s' \<Longrightarrow> core s'"
  by (simp add: keeps_def)

lemma keeps_conds [simp]:
  "keeps s (s'\<lparr>req_cond := b\<rparr>) = keeps s s'" "keeps s (s'\<lparr>resp_cond := b\<rparr>) = keeps s s'"
  "core (s\<lparr>req_cond := b\<rparr>) = core s" "core (s\<lparr>resp_cond := b\<rparr>) = core s"
  by (simp_all add: keeps_def core_def)

lemma keeps_trans:
  assumes "keeps s1 s2" "keeps s2 s3"
  shows "keeps s1 s3"
proof -
  have t: "text_same a c" if "text_same a b" "text_same b c" for a b c :: "'a req_info"
    using that by (auto simp: text_same_def)
  have v: "stream_same a c" if "stream_same a b" "stream_same b c" for a b c :: "(str, 'a) stream"
    using that by (simp add: stream_same_def)
  have c: "ctl_same (ctl s1) (ctl s3)" using assms by (auto simp: keeps_def ctl_same_def)
  have "list_all2 text_same (text_reqs s1) (text_reqs s3)"
    by (rule list_all2_trans [OF t]) (use assms in \<open>auto simp: keeps_def\<close>)
  moreover have "list_all2 stream_same (streams (voice_reqs s1)) (streams (voice_reqs s3))"
    by (rule list_all2_trans [OF v]) (use assms in \<open>auto simp: keeps_def\<close>)
  ultimately show ?thesis using assms c by (simp add: keeps_def)
qed

lemma keeps_voice: "core s \<Longrightarrow> sq_ok q \<Longrightarrow> list_all2 stream_same (streams (voice_reqs s)) (streams q) \<Longrightarrow> keeps s (s\<lparr>voice_reqs := q\<rparr>)"
  by (simp add: keeps_def core_def)

lemma keeps_text: "core s \<Longrightarrow> list_all2 text_same (text_reqs s) ts \<Longrightarrow> keeps s (s\<lparr>text_reqs := ts\<rparr>)"
  by (simp add: keeps_def core_def)

lemma keeps_relabel: "core s \<Longrightarrow> relabel (ctl s) c \<Longrightarrow> ctl_ok c \<Longrightarrow> keeps s (s\<lparr>ctl := c\<rparr>)"
proof -
  assume a: "core s" "relabel (ctl s) c" "ctl_ok c"
  then obtain P where "resp_rel P (ctl s) (streams (responses s))" by (auto simp: core_def)
  then have "core (s\<lparr>ctl := c\<rparr>)" using a resp_relabel [OF _ a(2)] by (auto simp: core_def)
  moreover have "ctl_same (ctl s) c" using a(2) relabel_op_ids [OF a(2)] unfolding relabel_def ctl_same_def by blast
  ultimately show ?thesis by (simp add: keeps_def)
qed

lemma upd_same: "(\<And>x. stream_same x (f x)) \<Longrightarrow> list_all2 stream_same V (upd i f V)"
  by (simp add: upd_def list_all2_map2 list_all2_same)

lemma keeps_stream:
  assumes "core s" "d \<noteq> None"
  shows "\<exists>ok q. sq_stream i d (voice_reqs s) = Some (ok, q) \<and> keeps s (s\<lparr>voice_reqs := q\<rparr>)"
proof -
  let ?V = "streams (voice_reqs s)"
  obtain q where q: "sq_stream i d (voice_reqs s) = Some (fst (sp_stream i d ?V), q)" "sq_ok q"
      "streams q = snd (sp_stream i d ?V)"
    using sq_laws(2) [of "voice_reqs s" i d] assms(1) by (auto simp: sq_rel_def core_def)
  have "list_all2 stream_same ?V (snd (sp_stream i d ?V))"
    using assms(2) by (auto simp: sp_stream_def stream_same_def intro!: upd_same)
  then show ?thesis using q keeps_voice [OF assms(1) q(2)] by auto
qed

lemma keeps_end:
  assumes "core s"
  shows "\<exists>ok q. sq_end i None (voice_reqs s) = Some (ok, q) \<and> keeps s (s\<lparr>voice_reqs := q\<rparr>)"
proof -
  let ?V = "streams (voice_reqs s)"
  obtain q where q: "sq_end i None (voice_reqs s) = Some (fst (sp_end i None ?V), q)" "sq_ok q"
      "streams q = snd (sp_end i None ?V)"
    using sq_laws(3) [of "voice_reqs s" i None] assms(1) by (auto simp: sq_rel_def core_def)
  have "list_all2 stream_same ?V (snd (sp_end i None ?V))" by (auto simp: sp_end_def stream_same_def intro!: upd_same)
  then show ?thesis using q keeps_voice [OF assms(1) q(2)] by auto
qed

lemma keeps_erase:
  assumes "core s"
  shows "\<exists>ok q. sq_erase i e (voice_reqs s) = Some (ok, q) \<and> keeps s (s\<lparr>voice_reqs := q\<rparr>)"
proof -
  let ?V = "streams (voice_reqs s)"
  obtain q where q: "sq_erase i e (voice_reqs s) = Some (fst (sp_erase i e ?V), q)" "sq_ok q"
      "streams q = snd (sp_erase i e ?V)"
    using sq_laws(4) [of "voice_reqs s" i e] assms(1) by (auto simp: sq_rel_def core_def)
  have "list_all2 stream_same ?V (snd (sp_erase i e ?V))"
    by (auto simp: sp_erase_def erased_def stream_same_def intro!: upd_same)
  then show ?thesis using q keeps_voice [OF assms(1) q(2)] by auto
qed

lemma keeps_clear:
  assumes "core s"
  shows "\<exists>a b q. sq_clear (voice_reqs s) = Some ((a, b), q) \<and> keeps s (s\<lparr>voice_reqs := q\<rparr>)"
proof -
  let ?V = "streams (voice_reqs s)"
  obtain q where q: "sq_clear (voice_reqs s) = Some (fst (sp_clear ?V), q)" "sq_ok q" "streams q = snd (sp_clear ?V)"
    using sq_laws(5) [of "voice_reqs s"] assms(1) by (auto simp: sq_rel_def core_def)
  have "list_all2 stream_same ?V (snd (sp_clear ?V))"
    by (simp add: sp_clear_def list_all2_map2 list_all2_same stream_same_def)
  then show ?thesis using q keeps_voice [OF assms(1) q(2)] by (cases "fst (sp_clear ?V)") auto
qed

lemma erase_req_ok:
  assumes "core s"
  shows "\<exists>s'. erase_req i s = Some s' \<and> keeps s s'"
proof -
  obtain ok q where "sq_erase i SPEECH_TIMEOUT (voice_reqs s) = Some (ok, q)" "keeps s (s\<lparr>voice_reqs := q\<rparr>)"
    using keeps_erase [OF assms] by blast
  then show ?thesis by (cases ok) (simp_all add: erase_req_def)
qed

section \<open>The receiver\<close>

lemma keepsI_resp:
  assumes "core s" "sq_ok q" "ctl_ok c" "resp_rel P c (streams q)" "current (streams q) = current (streams (responses s))"
    "ctl_same (ctl s) c"
  shows "keeps s (s\<lparr>responses := q, ctl := c\<rparr>)"
  using assms by (auto simp: keeps_def core_def)

text \<open>An operation of the responses queue that changes the stream of the current operation \<open>k\<close>, with a change of its status.\<close>

lemma keeps_change:
  assumes s: "core s" "current_op (ctl s) = Some k"
    and q: "sq_ok q" "streams q = upd (op_id (op_at (ctl s) k)) f (streams (responses s)) \<or> streams q = streams (responses s) \<and> c = ctl s"
    and c: "ctl_ok c" "operations c = operations (ctl s)" "ctl_same (ctl s) c"
      "\<And>j. j \<noteq> k \<Longrightarrow> op_status (op_at c j) = op_status (op_at (ctl s) j)"
      "op_status (op_at c k) \<in> {STREAMING, END} \<Longrightarrow> op_status (op_at (ctl s) k) \<in> {STREAMING, END}"
    and f: "\<And>x. matches (op_status (op_at (ctl s) k)) x \<Longrightarrow> matches (op_status (op_at c k)) (f x)"
      "\<And>x. sid (f x) = sid x" "\<And>x. polled (f x) = polled x"
  shows "keeps s (s\<lparr>responses := q, ctl := c\<rparr>)"
proof -
  obtain P where P: "resp_rel P (ctl s) (streams (responses s))" using s(1) by (auto simp: core_def)
  have ok: "ctl_ok (ctl s)" using s(1) by (simp add: core_def)
  have ids: "op_id (op_at c j) = op_id (op_at (ctl s) j)" for j using c(3) by (simp add: ctl_same_def)
  from q(2) show ?thesis
  proof
    assume u: "streams q = upd (op_id (op_at (ctl s) k)) f (streams (responses s))"
    have "resp_rel P c (streams q)" unfolding u
      by (rule resp_change [OF P c(2) ids _ _ refl _ _ f(2,3)]) (use c(4,5) ctl_okD(7) [OF ok s(2)] f(1) in auto)
    moreover have "current (streams q) = current (streams (responses s))"
      unfolding u by (rule only_first_upd(2) [OF resp_relD(4) [OF P] f(3,2)])
    ultimately show ?thesis using keepsI_resp [OF s(1) q(1) c(1) _ _ c(3)] by blast
  next
    assume "streams q = streams (responses s) \<and> c = ctl s"
    then show ?thesis using keepsI_resp [OF s(1) q(1) c(1) _ _ c(3)] P by simp
  qed
qed

lemma respond_ok:
  assumes "core s" "current_op (ctl s) = Some k" "op_id (op_at (ctl s) k) = i"
  shows "\<exists>s'. respond i r s = Some s' \<and> keeps s s' \<and> ctl s' = ctl s"
proof -
  let ?R = "streams (responses s)"
  obtain q where q: "sq_stream i (Some r) (responses s) = Some (fst (sp_stream i (Some r) ?R), q)" "sq_ok q"
      "streams q = snd (sp_stream i (Some r) ?R)"
    using sq_laws(2) [of "responses s" i "Some r"] assms(1) by (auto simp: sq_rel_def core_def)
  have "keeps s (s\<lparr>responses := q, ctl := ctl s\<rparr>)"
    by (rule keeps_change [OF assms(1,2) q(2), where f = "\<lambda>x. x\<lparr>sdata := sdata x @ [Some r]\<rparr>"])
      (use assms(1,3) q(3) in \<open>auto simp: core_def matches_def no_asr_end_def sp_stream_def\<close>)
  then show ?thesis using q(1) by (simp add: respond_def)
qed

lemma start_ok:
  assumes "core s" "current_op (ctl s) = Some k" "op_status (op_at (ctl s) k) = START"
  shows "\<exists>b q. sq_start (op_id (op_at (ctl s) k)) (responses s) = Some (b, q) \<and>
    keeps s (s\<lparr>responses := q, ctl := set_op k (\<lambda>x. x\<lparr>op_status := STREAMING\<rparr>) (ctl s)\<rparr>)"
proof -
  let ?R = "streams (responses s)" and ?i = "op_id (op_at (ctl s) k)" and ?c = "set_op k (\<lambda>x. x\<lparr>op_status := STREAMING\<rparr>) (ctl s)"
  obtain P where P: "resp_rel P (ctl s) ?R" using assms(1) by (auto simp: core_def)
  have ok: "ctl_ok (ctl s)" using assms(1) by (simp add: core_def)
  obtain q where q: "sq_start ?i (responses s) = Some (fst (sp_start ?i ?R), q)" "sq_ok q" "streams q = snd (sp_start ?i ?R)"
    using sq_laws(1) [of "responses s" ?i] assms(1) by (auto simp: sq_rel_def core_def)
  note r = resp_start [OF P ok assms(2,3)]
  have e: "streams q = ?R @ [new_stream ?i]" using q(3) r(1) by (simp add: sp_start_def)
  have "current (streams q) = current ?R" unfolding e by (cases ?R) (simp_all add: current_def new_stream_def)
  moreover have "ctl_same (ctl s) ?c"
    by (simp add: ctl_same_def op_at_set_op op_ids_eq [of ?c "ctl s"])
  ultimately have "keeps s (s\<lparr>responses := q, ctl := ?c\<rparr>)"
    using keepsI_resp [OF assms(1) q(2) streaming_ok [OF ok assms(2)] r(2) [folded e]] by blast
  then show ?thesis using q(1) by blast
qed

lemma keeps_finish:
  assumes s: "core s" "current_op (ctl s) = Some k" "op_status (op_at (ctl s) k) = STREAMING"
    and q: "sq_ok q" "streams q = upd (op_id (op_at (ctl s) k)) f (streams (responses s))"
    and c: "finished k (ctl s) c" and f: "\<And>x. matches STREAMING x \<Longrightarrow> matches END (f x)" "\<And>x. sid (f x) = sid x" "\<And>x. polled (f x) = polled x"
  shows "keeps s (s\<lparr>responses := q, ctl := c\<rparr>)"
proof -
  have ok: "ctl_ok (ctl s)" using s(1) by (simp add: core_def)
  have st: "op_status (op_at c k) = END" "op_status (op_at c j) = op_status (op_at (ctl s) j)" if "j \<noteq> k" for j
    using c that by (auto simp: finished_def)
  have stk: "op_status (op_at c k) = END" using c by (simp add: finished_def)
  have same: "ctl_same (ctl s) c" using c op_ids_eq [of c "ctl s"] by (simp add: ctl_same_def finished_def)
  show ?thesis
    by (rule keeps_change [OF s(1,2) q(1) disjI1 [OF q(2)] finished_ok [OF ok s(2) c] _ same _ _ _ f(2,3)])
      (use s(3) c f(1) st(2) stk in \<open>auto simp: finished_def\<close>)
qed

lemma respond_typed_ok:
  assumes "core s" "current_op (ctl s) = Some k" "op_id (op_at (ctl s) k) = resp_id resp" "op_status (op_at (ctl s) k) = STREAMING"
  shows "\<exists>s'. respond_typed k resp s = Some s' \<and> keeps s s'"
proof -
  let ?R = "streams (responses s)"
  have ok: "ctl_ok (ctl s)" using assms(1) by (simp add: core_def)
  note fin = finish_op_finished [OF ok assms(2)] and rs = respond_ok [OF assms(1-3)]
  have erase: "\<exists>s2. erase_req (resp_id resp) s1 = Some s2 \<and> keeps s s2" if "keeps s s1" for s1
    using erase_req_ok [OF keeps_core [OF that]] keeps_trans [OF that] by blast
  consider "resp_type resp = RT_INTERMEDIATE" | "resp_type resp = RT_ASR_FINISH" | (good) "resp_type resp = RT_FINISH" "resp_result resp = 0"
    | (bad) "resp_type resp = RT_FINISH" "resp_result resp \<noteq> 0" | t where "resp_type resp = RT_other t"
    by (cases "resp_type resp") auto
  then show ?thesis
  proof cases
    case 1
    then show ?thesis using rs [of "no_result\<lparr>in_asr := resp_asr resp\<rparr>"] by (auto simp: respond_typed_def)
  next
    case 2
    then show ?thesis using rs [of "no_result\<lparr>in_asr := resp_asr resp, asr_finish := True\<rparr>"] by (auto simp: respond_typed_def)
  next
    case good
    let ?r = "no_result\<lparr>in_nlp := resp_nlp resp, in_action := resp_action resp\<rparr>"
      and ?c = "finish_op (set_op k (\<lambda>x. x\<lparr>op_status := END\<rparr>) (ctl s))"
    obtain q where q: "sq_end (resp_id resp) (Some ?r) (responses s) = Some (fst (sp_end (resp_id resp) (Some ?r) ?R), q)" "sq_ok q"
        "streams q = snd (sp_end (resp_id resp) (Some ?r) ?R)"
      using sq_laws(3) [of "responses s" "resp_id resp" "Some ?r"] assms(1) by (auto simp: sq_rel_def core_def)
    have "keeps s (s\<lparr>responses := q, ctl := ?c\<rparr>)"
      by (rule keeps_finish [OF assms(1,2,4) q(2) _ fin(2), where f = "\<lambda>x. x\<lparr>st := Completed, fin := Some ?r\<rparr>"])
        (use q(3) assms(3) in \<open>auto simp: sp_end_def matches_def no_asr_end_def no_result_def\<close>)
    from erase [OF this] obtain s2 where "erase_req (resp_id resp) (s\<lparr>responses := q, ctl := ?c\<rparr>) = Some s2" "keeps s s2" by blast
    then show ?thesis using q(1) good by (simp add: respond_typed_def)
  next
    case bad
    obtain q where q: "sq_erase (resp_id resp) (resp_result resp) (responses s)
          = Some (fst (sp_erase (resp_id resp) (resp_result resp) ?R), q)" "sq_ok q"
        "streams q = snd (sp_erase (resp_id resp) (resp_result resp) ?R)"
      using sq_laws(4) [of "responses s" "resp_id resp" "resp_result resp"] assms(1) by (auto simp: sq_rel_def core_def)
    have "keeps s (s\<lparr>responses := q, ctl := finish_op (ctl s)\<rparr>)"
      by (rule keeps_finish [OF assms(1,2,4) q(2) _ fin(1), where f = "erased (resp_result resp)"])
        (use q(3) assms(3) bad(2) in \<open>auto simp: sp_erase_def matches_def no_asr_end_def erased_def\<close>)
    from erase [OF this] obtain s2 where "erase_req (resp_id resp) (s\<lparr>responses := q, ctl := finish_op (ctl s)\<rparr>) = Some s2" "keeps s s2"
      by blast
    then show ?thesis using q(1) bad by (simp add: respond_typed_def)
  next
    case 5
    then show ?thesis using keeps_refl [OF assms(1)] by (simp add: respond_typed_def)
  qed
qed

lemma gen_result_ok:
  assumes "core s"
  shows "\<exists>s'. gen_result_by_resp resp s = Some s' \<and> keeps s s'"
proof (cases "current_op (ctl s)")
  case None
  then show ?thesis using keeps_refl [OF assms] by (simp add: gen_result_by_resp_def)
next
  case (Some k)
  let ?x = "op_at (ctl s) k"
  have ok: "ctl_ok (ctl s)" using assms by (simp add: core_def)
  have k: "k < length (heap (ctl s))" "op_status ?x \<in> {START, STREAMING}" using ctl_okD(2,5,6) [OF ok] Some by blast+
  show ?thesis
  proof (cases "op_id ?x = resp_id resp")
    case False
    then show ?thesis using Some keeps_refl [OF assms] by (simp add: gen_result_by_resp_def Let_def)
  next
    case True
    obtain s1 where s1: "(if op_status ?x = START then do {
                      (_, q) \<leftarrow> sq_start (resp_id resp) (responses s);
                      Some (s\<lparr>responses := q, ctl := set_op k (\<lambda>x. x\<lparr>op_status := STREAMING\<rparr>) (ctl s)\<rparr>) }
                   else Some s) = Some s1" "keeps s s1" "current_op (ctl s1) = Some k" "op_status (op_at (ctl s1) k) = STREAMING"
    proof (cases "op_status ?x = START")
      case st: True
      obtain b q where "sq_start (resp_id resp) (responses s) = Some (b, q)"
        "keeps s (s\<lparr>responses := q, ctl := set_op k (\<lambda>x. x\<lparr>op_status := STREAMING\<rparr>) (ctl s)\<rparr>)"
        using start_ok [OF assms Some st] True by auto
      then show ?thesis using that [of "s\<lparr>responses := q, ctl := set_op k (\<lambda>x. x\<lparr>op_status := STREAMING\<rparr>) (ctl s)\<rparr>"] st Some k(1)
        by (simp add: op_at_set_op)
    next
      case False
      then show ?thesis using that [of s] k(2) Some keeps_refl [OF assms] by simp
    qed
    have id1: "op_id (op_at (ctl s1) k) = resp_id resp" using s1(2) True by (simp add: keeps_def ctl_same_def)
    obtain s2 where s2: "(if resp_extra resp \<noteq> [] then respond (resp_id resp) (no_result\<lparr>in_extra := resp_extra resp\<rparr>) s1 else Some s1) = Some s2"
      "keeps s1 s2" "ctl s2 = ctl s1"
      using respond_ok [OF keeps_core [OF s1(2)] s1(3) id1, of "no_result\<lparr>in_extra := resp_extra resp\<rparr>"]
        keeps_refl [OF keeps_core [OF s1(2)]] by (cases "resp_extra resp = []") auto
    obtain s3 where s3: "respond_typed k resp s2 = Some s3" "keeps s2 s3"
      using respond_typed_ok [of s2 k resp] keeps_core [OF s2(2)] s1(3,4) id1 s2(3) by auto
    have "gen_result_by_resp resp s = Some s3"
      using Some True k(2) s1(1) s2(1) s3(1) unfolding gen_result_by_resp_def Let_def by auto
    then show ?thesis using keeps_trans [OF keeps_trans [OF s1(2) s2(2)] s3(2)] by blast
  qed
qed

lemma fail_current_ok: "core s \<Longrightarrow> keeps s (fail_current e s) \<and> current_op (ctl (fail_current e s)) = None"
  using set_op_error_ok [of "ctl s" e] keeps_relabel [of s "set_op_error e (ctl s)"] by (simp add: fail_current_def core_def)

lemma recv_round_ok:
  assumes "core s"
  shows "\<exists>n s'. recv_round r resp now s = Some (n, s') \<and> keeps s s'"
proof -
  let ?s = "s\<lparr>ctl := refresh_op_time True now (ctl s)\<rparr>"
  have ok: "ctl_ok (ctl s)" using assms by (simp add: core_def)
  have r: "keeps s ?s" by (rule keeps_relabel [OF assms refresh_ok(1,2) [OF ok]])
  obtain s1 where s1: "gen_result_by_resp resp ?s = Some s1" "keeps s s1"
    using gen_result_ok [OF keeps_core [OF r]] keeps_trans [OF r] by blast
  have f: "keeps s (fail_current e s)" for e using fail_current_ok [OF assms] by blast
  consider "r = NOT_READY" | "r = SUCCESS" | "r = TIMEOUT" | "r \<notin> {NOT_READY, SUCCESS, TIMEOUT}" by auto
  then show ?thesis
  proof cases
    case 3
    then show ?thesis using f op_timeout_zero_current [of now "ctl s"] keeps_refl [OF assms]
      by (cases "op_timeout now (ctl s) = 0") (auto simp: recv_round_def)
  qed (use s1 f keeps_refl [OF assms] in \<open>simp_all add: recv_round_def Let_def\<close>)
qed

section \<open>The calls of the application\<close>

lemma put_voice_ok:
  assumes "core s"
  shows "\<exists>s'. put_voice i d s = Some s' \<and> keeps s s'"
proof (cases "initialized s \<and> 0 < i \<and> d \<noteq> None \<and> d \<noteq> Some []")
  case True
  then obtain b q where "sq_stream i d (voice_reqs s) = Some (b, q)" "keeps s (s\<lparr>voice_reqs := q\<rparr>)"
    using keeps_stream [OF assms] by blast
  then show ?thesis using True by (cases b) (auto simp: put_voice_def)
next
  case False
  then have "put_voice i d s = Some s" by (auto simp: put_voice_def)
  then show ?thesis using keeps_refl [OF assms] by blast
qed

lemma end_voice_ok:
  assumes "core s"
  shows "\<exists>s'. end_voice i s = Some s' \<and> keeps s s'"
proof (cases "initialized s \<and> 0 < i")
  case True
  obtain b q where "sq_end i None (voice_reqs s) = Some (b, q)" "keeps s (s\<lparr>voice_reqs := q\<rparr>)"
    using keeps_end [OF assms] by blast
  then show ?thesis using True by (cases b) (auto simp: end_voice_def)
next
  case False
  then have "end_voice i s = Some s" by (auto simp: end_voice_def)
  then show ?thesis using keeps_refl [OF assms] by blast
qed

lemma cancel_text_same: "cancel_text i ts = Some us \<Longrightarrow> list_all2 text_same ts us"
proof (induction ts arbitrary: us)
  case (Cons t ts)
  have "text_same t (t\<lparr>req_type := REQ_CANCELLED\<rparr>)" by (simp add: text_same_def)
  then show ?case using Cons by (auto split: if_splits)
qed simp

lemma cancel_in_ctl_ok:
  assumes "core s"
  shows "keeps s (cancel_in_ctl i s)"
proof -
  obtain b c where c: "cancel_op i (resp_cond s) (ctl s) = (b, c)" by fastforce
  have "ctl_ok (ctl s)" using assms by (simp add: core_def)
  note r = cancel_op_ok [OF this c]
  have "keeps s (s\<lparr>ctl := c\<rparr>)" by (rule keeps_relabel [OF assms r])
  then show ?thesis using c by (simp add: cancel_in_ctl_def keeps_def core_def)
qed

lemma cancel_ok:
  assumes "core s"
  shows "\<exists>s'. cancel i s = Some s' \<and> keeps s s'"
proof (cases "initialized s")
  case False
  then show ?thesis using keeps_refl [OF assms] by (simp add: cancel_def)
next
  case init: True
  show ?thesis
  proof (cases "0 < i")
    case True
    obtain b q where q: "sq_erase i 0 (voice_reqs s) = Some (b, q)" "keeps s (s\<lparr>voice_reqs := q\<rparr>)"
      using keeps_erase [OF assms] by blast
    let ?s = "s\<lparr>voice_reqs := q\<rparr>"
    have t: "keeps s (?s\<lparr>text_reqs := ts\<rparr>)" if "cancel_text i (text_reqs s) = Some ts" for ts
      by (rule keeps_trans [OF q(2) keeps_text]) (use keeps_core [OF q(2)] cancel_text_same [OF that] in simp_all)
    have "keeps s (cancel_in_ctl i ?s)" by (rule keeps_trans [OF q(2) cancel_in_ctl_ok [OF keeps_core [OF q(2)]]])
    then show ?thesis using init True q t by (cases b) (auto simp: cancel_def Let_def split: option.split)
  next
    case False
    obtain a b q where q: "sq_clear (voice_reqs s) = Some ((a, b), q)" "keeps s (s\<lparr>voice_reqs := q\<rparr>)"
      using keeps_clear [OF assms] by blast
    let ?s = "if 0 < a then s\<lparr>voice_reqs := q, req_cond := False\<rparr> else s\<lparr>voice_reqs := q\<rparr>"
    let ?t = "?s\<lparr>text_reqs := map (\<lambda>r. r\<lparr>req_type := REQ_CANCELLED\<rparr>) (text_reqs ?s)\<rparr>"
    have s: "keeps s ?s" using q(2) by simp
    have "list_all2 text_same (text_reqs ?s) (map (\<lambda>r. r\<lparr>req_type := REQ_CANCELLED\<rparr>) (text_reqs ?s))"
      by (simp add: list_all2_map2 list_all2_same text_same_def)
    then have t: "keeps s ?t" using keeps_trans [OF s keeps_text [OF keeps_core [OF s]]] by blast
    have "keeps s (cancel_in_ctl 0 ?t)" by (rule keeps_trans [OF t cancel_in_ctl_ok [OF keeps_core [OF t]]])
    moreover have "cancel i s = Some (cancel_in_ctl 0 ?t)" using init False q(1) by (simp add: cancel_def Let_def)
    ultimately show ?thesis by blast
  qed
qed

lemma do_request_ok:
  assumes "core s" "wire_of req \<noteq> None"
  shows "\<exists>rv w s'. do_request req r now s = Some (rv, w, s') \<and> keeps s s' \<and>
    (if r = SUCCESS then current_op (ctl s') = current_op (ctl s) \<and> op_cond (ctl s') = op_cond (ctl s) \<and>
        (rv = 0 \<longleftrightarrow> req_type req \<in> {TEXT, VOICE_END})
     else current_op (ctl s') = None \<and> rv \<noteq> 0)"
proof -
  obtain w where w: "wire_of req = Some w" using assms(2) by blast
  have ok: "ctl_ok (ctl s)" using assms(1) by (simp add: core_def)
  show ?thesis
  proof (cases "r = SUCCESS")
    case True
    have "keeps s (s\<lparr>ctl := refresh_op_time False now (ctl s)\<rparr>)" by (rule keeps_relabel [OF assms(1) refresh_ok(1,2) [OF ok]])
    moreover have "op_cond (refresh_op_time False now (ctl s)) = op_cond (ctl s)"
      by (simp add: refresh_op_time_def split: option.split)
    ultimately show ?thesis using True w refresh_ok(3) [OF ok] by (simp add: do_request_def)
  next
    case False
    let ?e = "if r = CONNECTION_NOT_AVAILABLE then SPEECH_SERVICE_UNAVAILABLE else SPEECH_UNKNOWN"
    have f: "keeps s (fail_current ?e s)" "current_op (ctl (fail_current ?e s)) = None" using fail_current_ok [OF assms(1)] by blast+
    obtain s1 where s1: "erase_req (req_id req) (fail_current ?e s) = Some s1" "keeps (fail_current ?e s) s1"
      using erase_req_ok [OF keeps_core [OF f(1)]] by blast
    have "current_op (ctl s1) = None" using s1(2) f(2) by (auto simp: keeps_def ctl_same_def)
    moreover have "do_request req r now s = Some (-1, w, s1)"
      using False w s1(1) by (simp add: do_request_def fail_current_def Let_def)
    ultimately show ?thesis using False keeps_trans [OF f(1) s1(2)] by auto
  qed
qed

section \<open>Fresh identifiers\<close>

text \<open>
  A voice stream has an operation exactly if its start was taken by the sender; the texts that
  wait have none.
\<close>

definition voice_ok :: "int \<Rightarrow> 'o req_info list \<Rightarrow> (str, 'o) stream list \<Rightarrow> int set \<Rightarrow> bool" where
  "voice_ok n T V ids \<longleftrightarrow> only_first_polled V \<and> distinct (map sid V) \<and>
     (\<forall>x \<in> set V. sid x \<le> n \<and> (polled x \<longleftrightarrow> sid x \<in> ids) \<and> None \<notin> set (sdata x)) \<and>
     (\<forall>t \<in> set T. req_id t \<le> n \<and> req_id t \<notin> ids \<and> req_id t \<notin> sid ` set V \<and> req_type t \<in> {TEXT, REQ_CANCELLED} \<and> req_data t \<noteq> None) \<and>
     distinct (map req_id T) \<and> (\<forall>i \<in> ids. i \<le> n)"

definition requests_ok :: "'o speech \<Rightarrow> bool" where
  "requests_ok s \<longleftrightarrow> voice_ok (next_id s) (text_reqs s) (streams (voice_reqs s)) (op_ids (ctl s))"

text \<open>\<open>current\<close> is the stream whose start was taken.\<close>

definition sender_ok :: "'o sender \<Rightarrow> 'o speech \<Rightarrow> bool" where
  "sender_ok pc s \<longleftrightarrow>
     (let c = ctl s; V = streams (voice_reqs s) in
      case pc of
        S_loop \<Rightarrow> \<not> op_cond c \<longrightarrow> (\<forall>k. current_op c = Some k \<longrightarrow> current V = Some (op_id (op_at c k)))
      | S_request req \<Rightarrow> \<not> op_cond c \<and> wire_of req \<noteq> None \<and>
          (\<forall>k. current_op c = Some k \<longrightarrow> req_type req \<noteq> REQ_CANCELLED \<and>
             (if req_type req \<in> {TEXT, VOICE_END} then req_id req = op_id (op_at c k)
              else current V = Some (op_id (op_at c k))))
      | S_finish i \<Rightarrow> \<not> op_cond c \<and> (\<forall>k. current_op c = Some k \<longrightarrow> op_id (op_at c k) = i)
      | S_quit \<Rightarrow> True)"

lemma streams_same:
  fixes V V' :: "(str, 'o) stream list"
  assumes "list_all2 stream_same V V'"
  shows "map sid V' = map sid V" "only_first_polled V' = only_first_polled V" "current V' = current V"
    "\<forall>x \<in> set V. None \<notin> set (sdata x) \<Longrightarrow> \<forall>x \<in> set V'. None \<notin> set (sdata x)"
    "\<forall>x \<in> set V. polled x \<longleftrightarrow> sid x \<in> ids \<Longrightarrow> \<forall>x \<in> set V'. polled x \<longleftrightarrow> sid x \<in> ids"
proof -
  have p: "map sid V' = map sid V \<and> map polled V' = map polled V" using assms
    by (induction rule: list_all2_induct) (simp_all add: stream_same_def)
  then show "map sid V' = map sid V" by simp
  have "map polled (tl V') = map polled (tl V)" using p by (metis map_tl)
  then have "polled ` set (tl V') = polled ` set (tl V)" by (metis list.set_map)
  moreover have "only_first_polled W \<longleftrightarrow> True \<notin> polled ` set (tl W)" for W :: "(str, 'o) stream list"
    by (auto simp: only_first_polled_def)
  ultimately show "only_first_polled V' = only_first_polled V" by (simp only:)
  show "current V' = current V" using p by (cases V; cases V') (auto simp: current_def)
  show "\<forall>x \<in> set V'. None \<notin> set (sdata x)" if "\<forall>x \<in> set V. None \<notin> set (sdata x)"
    using assms that by (induction rule: list_all2_induct) (auto simp: stream_same_def)
  show "\<forall>x \<in> set V'. polled x \<longleftrightarrow> sid x \<in> ids" if "\<forall>x \<in> set V. polled x \<longleftrightarrow> sid x \<in> ids"
    using assms that by (induction rule: list_all2_induct) (auto simp: stream_same_def)
qed

lemma texts_same:
  assumes "list_all2 text_same T T'" 
  shows "map req_id T' = map req_id T"
    "\<forall>t \<in> set T. req_type t \<in> {TEXT, REQ_CANCELLED} \<and> req_data t \<noteq> None \<Longrightarrow>
     \<forall>t \<in> set T'. req_type t \<in> {TEXT, REQ_CANCELLED} \<and> req_data t \<noteq> None"
  using assms by (induction rule: list_all2_induct) (auto simp: text_same_def)

lemma voice_okD:
  assumes "voice_ok n T V ids"
  shows "only_first_polled V" "distinct (map sid V)" "\<forall>i \<in> set (map sid V). i \<le> n" "\<forall>x \<in> set V. polled x \<longleftrightarrow> sid x \<in> ids"
    "\<forall>x \<in> set V. None \<notin> set (sdata x)" "\<forall>i \<in> set (map req_id T). i \<le> n \<and> i \<notin> ids \<and> i \<notin> set (map sid V)"
    "\<forall>t \<in> set T. req_type t \<in> {TEXT, REQ_CANCELLED} \<and> req_data t \<noteq> None" "distinct (map req_id T)" "\<forall>i \<in> ids. i \<le> n"
  using assms unfolding voice_ok_def by auto

lemma voice_okI:
  assumes "only_first_polled V" "distinct (map sid V)" "\<forall>i \<in> set (map sid V). i \<le> n" "\<forall>x \<in> set V. polled x \<longleftrightarrow> sid x \<in> ids"
    "\<forall>x \<in> set V. None \<notin> set (sdata x)" "\<forall>i \<in> set (map req_id T). i \<le> n \<and> i \<notin> ids \<and> i \<notin> set (map sid V)"
    "\<forall>t \<in> set T. req_type t \<in> {TEXT, REQ_CANCELLED} \<and> req_data t \<noteq> None" "distinct (map req_id T)" "\<forall>i \<in> ids. i \<le> n"
  shows "voice_ok n T V ids"
  using assms unfolding voice_ok_def by auto

lemma keeps_requests:
  assumes "keeps s s'" "requests_ok s"
  shows "requests_ok s'"
proof -
  have v: "list_all2 stream_same (streams (voice_reqs s)) (streams (voice_reqs s'))" and t: "list_all2 text_same (text_reqs s) (text_reqs s')"
    and e: "next_id s' = next_id s" "op_ids (ctl s') = op_ids (ctl s)"
    using assms(1) by (simp_all add: keeps_def ctl_same_def)
  note r = voice_okD [OF assms(2) [unfolded requests_ok_def]]
  show ?thesis
    unfolding requests_ok_def e
  proof (rule voice_okI)
    show "only_first_polled (streams (voice_reqs s'))" using r(1) by (simp only: streams_same(2) [OF v])
    show "\<forall>x \<in> set (streams (voice_reqs s')). polled x \<longleftrightarrow> sid x \<in> op_ids (ctl s)" by (rule streams_same(5) [OF v r(4)])
    show "\<forall>x \<in> set (streams (voice_reqs s')). None \<notin> set (sdata x)" by (rule streams_same(4) [OF v r(5)])
    show "\<forall>t \<in> set (text_reqs s'). req_type t \<in> {TEXT, REQ_CANCELLED} \<and> req_data t \<noteq> None" by (rule texts_same(2) [OF t r(7)])
    show "distinct (map sid (streams (voice_reqs s')))" "\<forall>i \<in> set (map sid (streams (voice_reqs s'))). i \<le> next_id s"
      "distinct (map req_id (text_reqs s'))" "\<forall>i \<in> op_ids (ctl s). i \<le> next_id s"
      "\<forall>i \<in> set (map req_id (text_reqs s')). i \<le> next_id s \<and> i \<notin> op_ids (ctl s) \<and> i \<notin> set (map sid (streams (voice_reqs s')))"
      unfolding streams_same(1) [OF v] texts_same(1) [OF t] by (fact r)+
  qed
qed

lemma keeps_sender:
  assumes "keeps s s'" "sender_ok pc s"
  shows "sender_ok pc s'"
proof -
  have v: "current (streams (voice_reqs s')) = current (streams (voice_reqs s))"
    using assms(1) streams_same(3) by (auto simp: keeps_def)
  have c: "\<And>k. op_id (op_at (ctl s') k) = op_id (op_at (ctl s) k)" "current_op (ctl s') \<in> {current_op (ctl s), None}"
    "op_cond (ctl s') = op_cond (ctl s) \<or> \<not> op_cond (ctl s') \<and> current_op (ctl s') = None"
    using assms(1) by (auto simp: keeps_def ctl_same_def)
  show ?thesis
    using assms(2) c(2,3) unfolding sender_ok_def Let_def v c(1) by (cases pc) auto
qed

section \<open>The sender\<close>

lemma voice_ok_start:
  assumes "voice_ok n T (x # W) ids" "\<not> polled x"
  shows "voice_ok n T (x\<lparr>polled := True\<rparr> # W) (insert (sid x) ids)"
  using assms unfolding voice_ok_def by (auto simp: only_first_polled_def) (metis image_eqI)

lemma voice_ok_data: "voice_ok n T (x # W) ids \<Longrightarrow> sdata x = d # ds \<Longrightarrow> voice_ok n T (x\<lparr>sdata := ds\<rparr> # W) ids"
  unfolding voice_ok_def by (auto simp: only_first_polled_def)

lemma voice_ok_next:
  assumes "voice_ok n T (x # W) ids" "ids' = ids \<or> ids' = insert (sid x) ids"
  shows "voice_ok n T W ids'"
proof -
  have "only_first_polled W" using assms(1) by (cases W) (auto simp: voice_ok_def only_first_polled_def)
  then show ?thesis using assms unfolding voice_ok_def by auto (metis image_eqI)
qed

lemma voice_ok_text:
  assumes "voice_ok n (t # T) V ids" "ids' = ids \<or> ids' = insert (req_id t) ids"
  shows "voice_ok n T V ids'"
  using assms unfolding voice_ok_def by auto (metis image_eqI)+

lemma core_new_op:
  assumes "core s" "current_op (ctl s) = None" "u = START \<or> u = CANCELLED" "u = START \<longrightarrow> i \<notin> op_ids (ctl s)"
  shows "core (s\<lparr>ctl := new_op i u now (ctl s)\<rparr>)"
proof -
  obtain P where P: "resp_rel P (ctl s) (streams (responses s))" using assms(1) by (auto simp: core_def)
  have "ctl_ok (ctl s)" using assms(1) by (simp add: core_def)
  then show ?thesis using assms(1) resp_new_op [OF P _ assms(2-4)] new_op_ok(1) [OF _ assms(2-4)] by (auto simp: core_def)
qed

text \<open>A request just taken from the queue \<open>V\<close> of voice streams or from the texts.\<close>

lemma take_request_ok:
  assumes s: "core s" "\<not> op_cond (ctl s)" "wire_of req \<noteq> None"
    and start: "req_type req \<in> {TEXT, VOICE_START} \<Longrightarrow> current_op (ctl s) = None \<and> req_id req \<notin> op_ids (ctl s)"
    and fin: "\<And>k. req_type req = VOICE_END \<Longrightarrow> current_op (ctl s) = Some k \<Longrightarrow> req_id req = op_id (op_at (ctl s) k)"
    and data: "\<And>k. req_type req = VOICE_DATA \<Longrightarrow> current_op (ctl s) = Some k \<Longrightarrow>
        current (streams (voice_reqs s)) = Some (op_id (op_at (ctl s) k))"
    and head: "req_type req = VOICE_START \<Longrightarrow> current (streams (voice_reqs s)) = Some (req_id req)"
  shows "\<exists>n c b. take_request req now s = Some (n, s\<lparr>ctl := c, resp_cond := b\<rparr>) \<and> core (s\<lparr>ctl := c\<rparr>) \<and>
     sender_ok (sender_pc n) (s\<lparr>ctl := c\<rparr>) \<and>
     op_ids c = (if req_type req \<in> {TEXT, VOICE_START} \<or> req_type req = REQ_CANCELLED \<and> current_op (ctl s) = None
       then insert (req_id req) (op_ids (ctl s)) else op_ids (ctl s))"
proof -
  have ok: "ctl_ok (ctl s)" using s(1) by (simp add: core_def)
  have cr: "s\<lparr>ctl := c\<rparr> = s\<lparr>ctl := c, resp_cond := resp_cond s\<rparr>" for c by simp
  consider (start) "req_type req \<in> {TEXT, VOICE_START}" | (run) k where "req_type req \<in> {VOICE_END, VOICE_DATA}" "current_op (ctl s) = Some k"
    | (skip) "req_type req \<in> {VOICE_END, VOICE_DATA}" "current_op (ctl s) = None"
    | (cancel) k where "req_type req = REQ_CANCELLED" "current_op (ctl s) = Some k"
    | (new) "req_type req = REQ_CANCELLED" "current_op (ctl s) = None"
    by (cases "req_type req"; cases "current_op (ctl s)") auto
  then show ?thesis
  proof cases
    case start
    let ?c = "new_op (req_id req) START now (ctl s)"
    have n: "current_op (ctl s) = None" "req_id req \<notin> op_ids (ctl s)" using assms(4) start by blast+
    note no = new_op_ok [OF ok n(1), where s = START and i = "req_id req" and now = now]
    have "sender_ok (S_request req) (s\<lparr>ctl := ?c\<rparr>)"
      using start head n s(2,3) no(4,6,8) by (auto simp: sender_ok_def)
    moreover have "take_request req now s = Some (Send_request req, s\<lparr>ctl := ?c, resp_cond := resp_cond s\<rparr>)"
      using start n(1) by (auto simp: take_request_def do_ctl_change_op_def)
    moreover have "core (s\<lparr>ctl := ?c\<rparr>)" using core_new_op [OF s(1) n(1)] n(2) by simp
    ultimately show ?thesis using no(3) start n by (metis sender_pc.simps(4))
  next
    case run
    have "sender_ok (S_request req) s"
      using run fin data s(2,3) by (auto simp: sender_ok_def)
    moreover have "take_request req now s = Some (Send_request req, s\<lparr>ctl := ctl s, resp_cond := resp_cond s\<rparr>)"
      using run by (auto simp: take_request_def do_ctl_change_op_def)
    ultimately show ?thesis using s(1) run by (intro exI [of _ "Send_request req"] exI [of _ "ctl s"] exI [of _ "resp_cond s"]) auto
  next
    case skip
    have "sender_ok S_loop s" using skip by (simp add: sender_ok_def)
    moreover have "take_request req now s = Some (Send_skip, s\<lparr>ctl := ctl s, resp_cond := resp_cond s\<rparr>)"
      using skip by (auto simp: take_request_def do_ctl_change_op_def)
    ultimately show ?thesis using s(1) skip by (intro exI [of _ Send_skip] exI [of _ "ctl s"] exI [of _ "resp_cond s"]) auto
  next
    case cancel
    let ?c = "clear_current_op (set_op k (\<lambda>x. x\<lparr>op_status := CANCELLED\<rparr>) (ctl s))"
    note c = cancel_current_ok [OF ok cancel(2)]
    have "keeps s (s\<lparr>ctl := ?c\<rparr>)" by (rule keeps_relabel [OF s(1) c])
    then have "core (s\<lparr>ctl := ?c\<rparr>)" by (rule keeps_core)
    moreover have "sender_ok (S_request req) (s\<lparr>ctl := ?c\<rparr>)" using s(2,3) by (simp add: sender_ok_def clear_current_op_def)
    moreover have "take_request req now s = Some (Send_request req, s\<lparr>ctl := ?c, resp_cond := False\<rparr>)"
      using cancel by (simp add: take_request_def do_ctl_change_op_def)
    ultimately show ?thesis using relabel_op_ids [OF c(1)] cancel
      by (intro exI [of _ "Send_request req"] exI [of _ ?c] exI [of _ False]) simp
  next
    case new
    let ?c = "new_op (req_id req) CANCELLED now (ctl s)"
    note no = new_op_ok [OF ok new(2), where s = CANCELLED and i = "req_id req" and now = now]
    have "sender_ok S_loop (s\<lparr>ctl := ?c\<rparr>)" using no(8) by (simp add: sender_ok_def)
    moreover have "take_request req now s = Some (Send_skip, s\<lparr>ctl := ?c, resp_cond := False\<rparr>)"
      using new by (simp add: take_request_def do_ctl_change_op_def)
    moreover have "core (s\<lparr>ctl := ?c\<rparr>)" using core_new_op [OF s(1) new(2)] by simp
    ultimately show ?thesis using no(3) new
      by (intro exI [of _ Send_skip] exI [of _ ?c] exI [of _ False]) simp
  qed
qed

lemma voice_pop_cases:
  assumes v: "voice_ok n T V ids" and p: "sp_pop V = (r, V')" "r \<noteq> Pop_empty"
  obtains (start) i where "pop_id r = Some i" "sqtype_to_reqtype r = Some VOICE_START" "current V = None" "i \<notin> ids"
      "current V' = Some i" "voice_ok n T V' (insert i ids)"
  | (data) i where "pop_id r = Some i" "sqtype_to_reqtype r = Some VOICE_DATA" "current V = Some i" "current V' = Some i"
      "voice_ok n T V' ids" "\<And>v. pop_res v r \<noteq> None"
  | (fin) i where "pop_id r = Some i" "sqtype_to_reqtype r = Some VOICE_END" "current V \<in> {None, Some i}" "voice_ok n T V' ids"
  | (cancelled) i where "pop_id r = Some i" "sqtype_to_reqtype r = Some REQ_CANCELLED" "voice_ok n T V' ids" "voice_ok n T V' (insert i ids)"
proof (cases V)
  case Nil
  then show ?thesis using p by (simp add: sp_pop_def)
next
  case (Cons x W)
  note vx = v [unfolded Cons]
  have xid: "polled x \<longleftrightarrow> sid x \<in> ids" "None \<notin> set (sdata x)" using vx by (auto simp: voice_ok_def)
  have cur: "current V \<in> {None, Some (sid x)}" "current V = (if polled x then Some (sid x) else None)"
    using Cons by (simp_all add: current_def)
  consider (a) "st x = Uncompleted \<or> st x = Completed" "\<not> polled x" | (b) d ds where "st x = Uncompleted \<or> st x = Completed" "polled x" "sdata x = d # ds"
    | (c) "st x = Uncompleted" "polled x" "sdata x = []" | (d) "st x = Completed" "polled x" "sdata x = []" | (e) "st x = Deleted"
    | (f) "st x \<notin> {Uncompleted, Completed, Deleted}" by (cases "sdata x") auto
  then show ?thesis
  proof cases
    case a
    then have e: "r = Pop_start (sid x)" "V' = x\<lparr>polled := True\<rparr> # W" using p Cons by (auto simp: sp_pop_def)
    show ?thesis
      by (rule start [of "sid x"]) (use e a xid cur voice_ok_start [OF vx] in \<open>simp_all add: current_def\<close>)
  next
    case b
    then have e: "r = Pop_data (sid x) d" "V' = x\<lparr>sdata := ds\<rparr> # W" using p Cons by (auto simp: sp_pop_def)
    have "d \<noteq> None" using xid(2) b(3) by (cases d) auto
    then show ?thesis
      by (intro data [of "sid x"]) (use e b xid cur voice_ok_data [OF vx b(3)] in \<open>auto simp: current_def\<close>)
  next
    case c
    then show ?thesis using p Cons by (simp add: sp_pop_def)
  next
    case d
    then have e: "r = Pop_end (sid x) (StreamQueue.fin x)" "V' = W" using p Cons by (auto simp: sp_pop_def)
    show ?thesis by (rule fin [of "sid x"]) (use e cur voice_ok_next [OF vx] in simp_all)
  next
    case e
    then have r: "r = Pop_removed (sid x)" "V' = W" using p Cons by (auto simp: sp_pop_def)
    show ?thesis by (rule cancelled [of "sid x"]) (use r voice_ok_next [OF vx] in simp_all)
  next
    case f
    then have r: "r = Pop_error (sid x) (code x)" "V' = W" using p Cons by (auto simp: sp_pop_def)
    show ?thesis by (rule fin [of "sid x"]) (use r cur voice_ok_next [OF vx] in simp_all)
  qed
qed

text \<open>The sender aborts when a text is next although an operation is current.\<close>

definition text_during_operation :: "'o speech \<Rightarrow> bool" where
  "text_during_operation s \<longleftrightarrow> current_op (ctl s) \<noteq> None \<and> fst (sp_pop (streams (voice_reqs s))) = Pop_empty \<and>
     (case text_reqs s of [] \<Rightarrow> False | t # ts \<Rightarrow> req_type t = TEXT)"

definition sent_on :: "'o speech \<Rightarrow> 'o sender_next \<Rightarrow> 'o speech \<Rightarrow> bool" where
  "sent_on s n s' \<longleftrightarrow> core s' \<and> requests_ok s' \<and> sender_ok (sender_pc n) s' \<and> initialized s' = initialized s \<and> responses s' = responses s"

lemma sender_ok_conds [simp]:
  "sender_ok pc (s\<lparr>req_cond := b\<rparr>) = sender_ok pc s" "sender_ok pc (s\<lparr>resp_cond := b\<rparr>) = sender_ok pc s"
  "requests_ok (s\<lparr>req_cond := b\<rparr>) = requests_ok s" "requests_ok (s\<lparr>resp_cond := b\<rparr>) = requests_ok s"
  by (simp_all add: sender_ok_def requests_ok_def)

lemma take_voice:
  assumes s: "core s" "\<not> op_cond (ctl s)" "sender_ok S_loop s" "requests_ok s" "initialized s"
    and p: "sq_pop (voice_reqs s) = Some (r, q)" "sq_ok q" "sp_pop (streams (voice_reqs s)) = (r, streams q)" "r \<noteq> Pop_empty"
  shows "\<exists>n v' s'. send_round now (v, s) = Some (n, v', s') \<and> sent_on s n s'"
proof -
  let ?V = "streams (voice_reqs s)" and ?s = "s\<lparr>voice_reqs := q\<rparr>"
  have cur: "current ?V = Some (op_id (op_at (ctl s) k))" if "current_op (ctl s) = Some k" for k
    using s(2,3) that by (simp add: sender_ok_def)
  have c1: "core ?s" using s(1) p(2) by (simp add: core_def)
  have vo: "voice_ok (next_id s) (text_reqs s) ?V (op_ids (ctl s))" using s(4) by (simp add: requests_ok_def)
  have goal: "\<exists>n v' s'. send_round now (v, s) = Some (n, v', s') \<and> sent_on s n s'"
    if i: "pop_id r = Some i" "sqtype_to_reqtype r = Some t"
      and st: "t = VOICE_START \<Longrightarrow> current_op (ctl s) = None \<and> i \<notin> op_ids (ctl s) \<and> current (streams q) = Some i"
      and en: "\<And>k. t = VOICE_END \<Longrightarrow> current_op (ctl s) = Some k \<Longrightarrow> i = op_id (op_at (ctl s) k)"
      and da: "t = VOICE_DATA \<Longrightarrow> pop_res v r \<noteq> None" "\<And>k. t = VOICE_DATA \<Longrightarrow> current_op (ctl s) = Some k \<Longrightarrow>
          current (streams q) = Some (op_id (op_at (ctl s) k))"
      and nt: "t \<noteq> TEXT"
      and vo: "voice_ok (next_id s) (text_reqs s) (streams q)
        (if t = VOICE_START \<or> t = REQ_CANCELLED \<and> current_op (ctl s) = None then insert i (op_ids (ctl s)) else op_ids (ctl s))"
    for i t
  proof -
    obtain opts where o: "sq_get_arg i q = Some opts" using get_arg_ok [OF p(2)] by blast
    let ?req = "\<lparr>req_id = i, req_type = t, req_data = pop_res v r, req_options = opts\<rparr>"
    have w: "wire_of ?req \<noteq> None" using da(1) nt by (cases t) auto
    obtain n c b where t: "take_request ?req now ?s = Some (n, ?s\<lparr>ctl := c, resp_cond := b\<rparr>)" "core (?s\<lparr>ctl := c\<rparr>)"
        "sender_ok (sender_pc n) (?s\<lparr>ctl := c\<rparr>)"
        "op_ids c = (if req_type ?req \<in> {TEXT, VOICE_START} \<or> req_type ?req = REQ_CANCELLED \<and> current_op (ctl ?s) = None
           then insert (req_id ?req) (op_ids (ctl ?s)) else op_ids (ctl ?s))"
      using take_request_ok [OF c1 _ w, of now] s(2) st en da(2) nt by auto
    have "requests_ok (?s\<lparr>ctl := c\<rparr>)" using vo t(4) nt by (cases t; cases "current_op (ctl s)") (simp_all add: requests_ok_def)
    then have "sent_on s n (?s\<lparr>ctl := c, resp_cond := b\<rparr>)" using t(2,3) by (simp add: sent_on_def)
    moreover have "send_round now (v, s) = Some (n, pop_res v r, ?s\<lparr>ctl := c, resp_cond := b\<rparr>)"
      using s(5) p(1) i o t(1) by (simp add: send_round_def Let_def)
    ultimately show ?thesis by blast
  qed
  show ?thesis
    using vo p(3,4)
  proof (cases rule: voice_pop_cases)
    case (start i)
    then have "current_op (ctl s) = None" using cur by (cases "current_op (ctl s)") auto
    then show ?thesis using start by (intro goal [of i VOICE_START]) simp_all
  next
    case (data i)
    then show ?thesis using cur by (intro goal [of i VOICE_DATA]) auto
  next
    case (fin i)
    then show ?thesis using cur by (intro goal [of i VOICE_END]) auto
  next
    case (cancelled i)
    then show ?thesis by (intro goal [of i REQ_CANCELLED]) auto
  qed
qed

lemma take_text:
  assumes s: "core s" "\<not> op_cond (ctl s)" "requests_ok s" "initialized s"
    and p: "sq_pop (voice_reqs s) = Some (Pop_empty, q)" "sq_ok q" "streams q = streams (voice_reqs s)"
    and t: "text_reqs s = info # rest"
  shows "if current_op (ctl s) \<noteq> None \<and> req_type info = TEXT then send_round now (v, s) = None
    else \<exists>n v' s'. send_round now (v, s) = Some (n, v', s') \<and> sent_on s n s'"
proof -
  let ?s = "s\<lparr>voice_reqs := q, text_reqs := rest\<rparr>"
  have vo: "voice_ok (next_id s) (info # rest) (streams (voice_reqs s)) (op_ids (ctl s))" using s(3) t by (simp add: requests_ok_def)
  then have i: "req_type info \<in> {TEXT, REQ_CANCELLED}" "req_data info \<noteq> None" "req_id info \<notin> op_ids (ctl s)"
    by (simp_all add: voice_ok_def)
  have run: "send_round now (v, s) = do { (n, s2) \<leftarrow> take_request info now ?s; Some (n, v, s2) }"
    using s(4) p(1) t by (simp add: send_round_def Let_def)
  show ?thesis
  proof (cases "current_op (ctl s) \<noteq> None \<and> req_type info = TEXT")
    case True
    then show ?thesis using run by (auto simp: take_request_def do_ctl_change_op_def)
  next
    case False
    have c1: "core ?s" using s(1) p(2) by (simp add: core_def)
    have w: "wire_of info \<noteq> None" using i(1,2) by auto
    obtain n c b where r: "take_request info now ?s = Some (n, ?s\<lparr>ctl := c, resp_cond := b\<rparr>)" "core (?s\<lparr>ctl := c\<rparr>)"
        "sender_ok (sender_pc n) (?s\<lparr>ctl := c\<rparr>)" "op_ids c = op_ids (ctl s) \<or> op_ids c = insert (req_id info) (op_ids (ctl s))"
      using take_request_ok [OF c1 _ w, of now] s(2) i(1,3) False by auto
    have "requests_ok (?s\<lparr>ctl := c\<rparr>)" using voice_ok_text [OF vo r(4)] p(3) by (simp add: requests_ok_def)
    then have "sent_on s n (?s\<lparr>ctl := c, resp_cond := b\<rparr>)" using r(2,3) by (simp add: sent_on_def)
    then show ?thesis using run r(1) False by auto
  qed
qed

lemma send_round_ok:
  assumes s: "core s" "\<not> op_cond (ctl s)" "sender_ok S_loop s" "requests_ok s" "initialized s"
  shows "if text_during_operation s then send_round now (v, s) = None
    else \<exists>n v' s'. send_round now (v, s) = Some (n, v', s') \<and> sent_on s n s'"
proof -
  let ?V = "streams (voice_reqs s)"
  obtain q where q: "sq_pop (voice_reqs s) = Some (fst (sp_pop ?V), q)" "sq_ok q" "streams q = snd (sp_pop ?V)"
    using sq_laws(6) [of "voice_reqs s"] s(1) by (auto simp: sq_rel_def core_def)
  show ?thesis
  proof (cases "fst (sp_pop ?V) = Pop_empty")
    case False
    then show ?thesis using take_voice [OF s q(1,2), where v = v and now = now] q(3) by (simp add: text_during_operation_def)
  next
    case empty: True
    then have e: "streams q = ?V" using q(3) by (auto simp: sp_pop_def split: list.splits if_splits)
    show ?thesis
    proof (cases "text_reqs s")
      case Nil
      let ?s = "s\<lparr>voice_reqs := q, req_cond := True\<rparr>"
      have "send_round now (v, s) = Some (Send_wait, v, ?s)" using s(5) q(1) empty Nil by (simp add: send_round_def Let_def)
      moreover have "sent_on s Send_wait ?s" using s e q(2)
        by (simp add: sent_on_def core_def requests_ok_def sender_ok_def)
      ultimately show ?thesis using Nil by (simp add: text_during_operation_def)
    next
      case (Cons info rest)
      show ?thesis using take_text [OF s(1,2,4,5) _ q(2) e Cons, where v = v and now = now] q(1) empty Cons
        by (simp add: text_during_operation_def)
    qed
  qed
qed

section \<open>The invariant of the client\<close>

lemma fresh_text:
  assumes "voice_ok n T V ids" "req_id t = n + 1" "req_type t = TEXT" "req_data t \<noteq> None"
  shows "voice_ok (n + 1) (T @ [t]) V ids"
  using assms unfolding voice_ok_def by (auto simp: ball_Un) (force | fastforce)+

lemma fresh_voice:
  assumes "voice_ok n T V ids" "sid x = n + 1" "\<not> polled x" "sdata x = []"
  shows "voice_ok (n + 1) T (V @ [x]) ids" "n + 1 \<notin> sid ` set V" "current (V @ [x]) = current V"
proof -
  note v = voice_okD [OF assms(1)]
  show f: "n + 1 \<notin> sid ` set V" using v(3) by auto
  have i: "n + 1 \<notin> ids" using v(9) by force
  have "only_first_polled (V @ [x])" using v(1) assms(3) by (cases V) (auto simp: only_first_polled_def)
  moreover have "\<forall>j \<in> set (map req_id T). j \<le> n + 1 \<and> j \<notin> ids \<and> j \<notin> set (map sid (V @ [x]))"
    using v(6) assms(2) by force
  ultimately show "voice_ok (n + 1) T (V @ [x]) ids"
    using v(2-5,7-9) f i assms by (intro voice_okI) force+
  show "current (V @ [x]) = current V" using assms(3) by (cases V) (auto simp: current_def)
qed

definition good :: "'o sender \<Rightarrow> 'o speech \<Rightarrow> bool" where
  "good pc s \<longleftrightarrow> core s \<and> requests_ok s \<and> sender_ok pc s"

lemma keeps_good: "keeps s s' \<Longrightarrow> good pc s \<Longrightarrow> good pc s'"
  unfolding good_def using keeps_core keeps_requests keeps_sender by blast

abbreviation answering :: "'o speech \<Rightarrow> int option" where
  "answering s \<equiv> current (streams (responses s))"

lemma keeps_answering: "keeps s s' \<Longrightarrow> answering s' = answering s"
  by (simp add: keeps_def)

lemma put_text_good:
  assumes "good pc s" "put_text t opts s = Some (i, s')"
  shows "good pc s' \<and> answering s' = answering s \<and> initialized s' = initialized s"
proof (cases "initialized s \<and> t \<noteq> None")
  case True
  let ?t = "\<lparr>req_id = next_id s + 1, req_type = TEXT, req_data = t, req_options = opts\<rparr>"
  have e: "s' = s\<lparr>next_id := next_id s + 1, text_reqs := text_reqs s @ [?t], req_cond := False\<rparr>"
    using assms(2) True by (auto simp: put_text_def s32_eq_Some bind_eq_Some_conv)
  have "voice_ok (next_id s + 1) (text_reqs s @ [?t]) (streams (voice_reqs s)) (op_ids (ctl s))"
    using assms(1) True by (intro fresh_text) (auto simp: good_def requests_ok_def)
  then show ?thesis using assms(1) unfolding e by (simp add: good_def core_def requests_ok_def sender_ok_def)
next
  case False
  then have "s' = s" using assms(2) by (auto simp: put_text_def split: option.splits)
  then show ?thesis using assms(1) by simp
qed

lemma start_voice_good:
  assumes "good pc s" "start_voice opts s = Some (i, s')"
  shows "good pc s' \<and> answering s' = answering s \<and> initialized s' = initialized s"
proof (cases "initialized s")
  case True
  let ?V = "streams (voice_reqs s)" and ?n = "next_id s + 1"
  let ?x = "(new_stream ?n :: (str, 'a) stream)\<lparr>sarg := opts\<rparr>"
  have vo: "voice_ok (next_id s) (text_reqs s) ?V (op_ids (ctl s))" and ok: "sq_ok (voice_reqs s)"
    using assms(1) by (simp_all add: good_def requests_ok_def core_def)
  have fr: "voice_ok ?n (text_reqs s) (?V @ [?x]) (op_ids (ctl s))" "?n \<notin> sid ` set ?V" "current (?V @ [?x]) = current ?V"
    using fresh_voice [OF vo, of ?x] by (simp_all add: new_stream_def)
  obtain q where q: "sq_start ?n (voice_reqs s) = Some (True, q)" "sq_ok q" "streams q = ?V @ [new_stream ?n]"
    using sq_laws(1) [OF ok, of ?n] fr(2) by (auto simp: sq_rel_def sp_start_def)
  obtain q1 where q1: "sq_set_arg ?n opts q = Some q1" "sq_ok q1" "streams q1 = sp_set_arg ?n opts (streams q)"
    using set_arg_ok [OF q(2), of ?n opts] by blast
  have "streams q1 = ?V @ [?x]" using q1(3) q(3) upd_other [OF fr(2)] by (simp add: sp_set_arg_def new_stream_def)
  moreover have "s' = s\<lparr>next_id := ?n, voice_reqs := q1, req_cond := False\<rparr>"
    using assms(2) True q(1) q1(1) by (auto simp: start_voice_def bind_eq_Some_conv s32_eq_Some)
  ultimately show ?thesis using assms(1) fr q1(2) by (cases pc) (auto simp: good_def core_def requests_ok_def sender_ok_def Let_def)
next
  case False
  then show ?thesis using assms by (simp add: start_voice_def)
qed

lemma sender_ok_cong:
  assumes "sender_ok pc s" "current_op (ctl s') = current_op (ctl s)" "op_cond (ctl s') = op_cond (ctl s)"
    "op_at (ctl s') = op_at (ctl s)" "voice_reqs s' = voice_reqs s"
  shows "sender_ok pc s'"
  using assms(1) unfolding sender_ok_def Let_def assms(2-5) .

lemma poll_good:
  assumes "good pc s" "initialized s" "poll_round s = Some (r, s')"
  shows "good pc s' \<and> follow_poll (answering s) r = Some (answering s') \<and> initialized s'"
proof -
  obtain P where P: "resp_rel P (ctl s) (streams (responses s))" using assms(1) by (auto simp: good_def core_def)
  have "polled_to s r s'"
    using poll_round_ok [OF assms(2) _ _ P] assms(1,3) by (auto simp: good_def core_def)
  then obtain q c b where p: "s' = s\<lparr>responses := q, ctl := c, resp_cond := b\<rparr>" "sq_ok q" "ctl_ok c" "op_ids c = op_ids (ctl s)"
      "op_at c = op_at (ctl s)" "current_op c = current_op (ctl s)" "op_cond c = op_cond (ctl s)" "\<exists>P. resp_rel P c (streams q)"
      "follow_poll (answering s) r = Some (current (streams q))"
    unfolding polled_to_def by blast
  have "sender_ok pc s'" by (rule sender_ok_cong [of pc s]) (use assms(1) p in \<open>simp_all add: good_def\<close>)
  then show ?thesis using assms(1,2) p(2-4,8,9) unfolding p(1) by (simp add: good_def core_def requests_ok_def)
qed

lemma request_good:
  assumes "good (S_request req) s" "do_request req r now s = Some (rv, w, s')"
  shows "good (if rv = 0 then S_finish (req_id req) else S_loop) s' \<and> answering s' = answering s \<and> initialized s' = initialized s"
proof -
  have s: "core s" "requests_ok s" "\<not> op_cond (ctl s)" "wire_of req \<noteq> None" and
    cur: "\<And>k. current_op (ctl s) = Some k \<Longrightarrow> req_type req \<noteq> REQ_CANCELLED \<and>
      (if req_type req \<in> {TEXT, VOICE_END} then req_id req = op_id (op_at (ctl s) k)
       else current (streams (voice_reqs s)) = Some (op_id (op_at (ctl s) k)))"
    using assms(1) by (auto simp: good_def sender_ok_def Let_def)
  have k: "keeps s s'" "if r = SUCCESS then current_op (ctl s') = current_op (ctl s) \<and> op_cond (ctl s') = op_cond (ctl s) \<and>
        (rv = 0 \<longleftrightarrow> req_type req \<in> {TEXT, VOICE_END})
     else current_op (ctl s') = None \<and> rv \<noteq> 0"
    using do_request_ok [OF s(1,4), of r now] assms(2) by auto
  have same: "op_id (op_at (ctl s') k) = op_id (op_at (ctl s) k)" "current (streams (voice_reqs s')) = current (streams (voice_reqs s))"
      "initialized s' = initialized s" for k
    using k(1) streams_same(3) by (auto simp: keeps_def ctl_same_def)
  have "sender_ok (if rv = 0 then S_finish (req_id req) else S_loop) s'"
    using k(2) cur s(3) by (auto simp: sender_ok_def Let_def same split: if_splits)
  then show ?thesis using keeps_core [OF k(1)] keeps_requests [OF k(1) s(2)] keeps_answering [OF k(1)] same(3)
    by (simp add: good_def)
qed

lemma wait_good:
  assumes "good (S_finish i) s"
  shows "good S_loop (s\<lparr>ctl := wait_op_finish i (ctl s)\<rparr>)"
proof (cases "current_op (ctl s)")
  case None
  then show ?thesis using assms by (simp add: good_def wait_op_finish_def sender_ok_def core_def requests_ok_def)
next
  case (Some k)
  then have "wait_op_finish i (ctl s) = (ctl s)\<lparr>op_cond := True\<rparr>"
    using assms by (simp add: good_def wait_op_finish_def sender_ok_def Let_def)
  then show ?thesis using assms by (simp add: good_def sender_ok_def core_def requests_ok_def)
qed

text \<open>The observer of the results of \<open>poll\<close>.\<close>

fun follow_event :: "int option \<Rightarrow> 'o event \<Rightarrow> int option option" where
  "follow_event cur (E_poll r) = follow_poll cur r"
| "follow_event cur e = Some cur"

definition client_inv :: "int option \<Rightarrow> 'o client \<Rightarrow> bool" where
  "client_inv cur c \<longleftrightarrow> (initialized (sp c) \<longrightarrow> good (snd_at c) (sp c) \<and> cur = answering (sp c))"

lemma client_inv_next:
  assumes "client_inv cur c" "follow_event cur e = Some cur"
    and "initialized s \<Longrightarrow> good (snd_at c) (sp c) \<Longrightarrow> good pc s \<and> answering s = answering (sp c)"
    and "initialized s \<Longrightarrow> initialized (sp c)"
  shows "\<exists>cur'. follow_event cur e = Some cur' \<and> client_inv cur' (c\<lparr>sp := s, snd_at := pc, snd_voice := v, rcv_at := r\<rparr>)"
  using assms by (auto simp: client_inv_def)

lemma client_inv_call:
  assumes "client_inv cur c" "follow_event cur e = Some cur"
    and "good (snd_at c) (sp c) \<Longrightarrow> initialized s \<Longrightarrow> good (snd_at c) s \<and> answering s = answering (sp c)"
    and "initialized s \<Longrightarrow> initialized (sp c)"
  shows "\<exists>cur'. follow_event cur e = Some cur' \<and> client_inv cur' (c\<lparr>sp := s\<rparr>)"
  using assms by (auto simp: client_inv_def)

lemma keeps_initialized: "keeps s s' \<Longrightarrow> initialized s' = initialized s"
  by (simp add: keeps_def)

lemma initialized_kept:
  "put_text t opts s = Some (i, s') \<Longrightarrow> initialized s' = initialized s"
  "start_voice opts s = Some (i, s') \<Longrightarrow> initialized s' = initialized s"
  "put_voice i d s = Some s' \<Longrightarrow> initialized s' = initialized s"
  "end_voice i s = Some s' \<Longrightarrow> initialized s' = initialized s"
  "erase_req i s = Some s' \<Longrightarrow> initialized s' = initialized s"
  by (auto simp: put_text_def start_voice_def put_voice_def end_voice_def erase_req_def bind_eq_Some_conv split: option.splits if_splits)
lemma initialized_kept2:
  "cancel i s = Some s' \<Longrightarrow> initialized s' = initialized s"
  "do_request req r now s = Some (rv, w, s') \<Longrightarrow> initialized s' = initialized s"
  "poll_round s = Some (pr, s') \<Longrightarrow> initialized s' = initialized s"
  by (auto simp: cancel_def cancel_in_ctl_def do_request_def poll_round_def drop_responses_def Let_def bind_eq_Some_conv initialized_kept
    split: option.splits if_splits prod.splits)

lemma initialized_respond: "respond i r s = Some s' \<Longrightarrow> initialized s' = initialized s"
  by (auto simp: respond_def bind_eq_Some_conv)

lemma initialized_typed: "respond_typed k resp s = Some s' \<Longrightarrow> initialized s' = initialized s"
  by (auto simp: respond_typed_def bind_eq_Some_conv initialized_kept initialized_respond split: resp_type.splits if_splits)

lemma initialized_gen: "gen_result_by_resp resp s = Some s' \<Longrightarrow> initialized s' = initialized s"
  by (auto simp: gen_result_by_resp_def Let_def bind_eq_Some_conv initialized_typed initialized_respond split: option.splits if_splits)

lemma initialized_recv: "recv_round r resp now s = Some (n, s') \<Longrightarrow> initialized s' = initialized s"
  by (auto simp: recv_round_def Let_def fail_current_def bind_eq_Some_conv initialized_gen split: option.splits if_splits)

lemma initialized_take: "take_request req now s = Some (n, s') \<Longrightarrow> initialized s' = initialized s"
  by (auto simp: take_request_def do_ctl_change_op_def bind_eq_Some_conv split: option.splits if_splits)

lemma initialized_send: "send_round now (v, s) = Some (n, v', s') \<Longrightarrow> initialized s' = initialized s"
  by (auto simp: send_round_def Let_def bind_eq_Some_conv initialized_take split: option.splits if_splits list.splits)

lemmas initialized_simps = initialized_kept initialized_kept2 initialized_recv initialized_send

lemma keeps_call:
  assumes "good pc s" "core s \<Longrightarrow> \<exists>t. f s = Some t \<and> keeps s t" "f s = Some s'"
  shows "good pc s' \<and> answering s' = answering s"
proof -
  have "keeps s s'" using assms by (auto simp: good_def)
  then show ?thesis using keeps_good [of s s'] keeps_answering [of s s'] assms(1) by blast
qed

lemma take_good:
  assumes "good S_loop s" "\<not> op_cond (ctl s)" "initialized s" "send_round now (v, s) = Some (n, v', s')"
  shows "good (sender_pc n) s' \<and> answering s' = answering s"
proof -
  have "sent_on s n s'"
    using send_round_ok [of s, where v = v and now = now] assms by (auto simp: good_def split: if_splits)
  then show ?thesis by (simp add: sent_on_def good_def)
qed

lemma client_step_inv:
  assumes inv: "client_inv cur c" and st: "client_step c e c' \<and> e \<noteq> E_spurious"
  shows "\<exists>cur'. follow_event cur e = Some cur' \<and> client_inv cur' c'"
  using conjunct1 [OF st]
proof cases
  case (put_text t opts i s)
  show ?thesis unfolding put_text(1,2)
    by (rule client_inv_call [OF inv]) (use put_text_good [OF _ put_text(3)] initialized_simps(1) [OF put_text(3)] in auto)
next
  case (start_voice opts i s)
  show ?thesis unfolding start_voice(1,2)
    by (rule client_inv_call [OF inv]) (use start_voice_good [OF _ start_voice(3)] initialized_simps(2) [OF start_voice(3)] in auto)
next
  case (put_voice i d s)
  show ?thesis unfolding put_voice(1,2)
    by (rule client_inv_call [OF inv])
      (use keeps_call [where f = "Speech.put_voice i d", OF _ put_voice_ok put_voice(3)] initialized_simps(3) [OF put_voice(3)] in auto)
next
  case (end_voice i s)
  show ?thesis unfolding end_voice(1,2)
    by (rule client_inv_call [OF inv])
      (use keeps_call [where f = "Speech.end_voice i", OF _ end_voice_ok end_voice(3)] initialized_simps(4) [OF end_voice(3)] in auto)
next
  case (cancel i s)
  show ?thesis unfolding cancel(1,2)
    by (rule client_inv_call [OF inv])
      (use keeps_call [where f = "Speech.cancel i", OF _ cancel_ok cancel(3)] initialized_simps(6) [OF cancel(3)] in auto)
next
  case (poll r s)
  show ?thesis
  proof (cases "initialized (sp c)")
    case True
    then have "follow_poll (answering (sp c)) r = Some (answering s)" "good (snd_at c) s" "cur = answering (sp c)"
      using poll_good [of "snd_at c" "sp c" r s] inv poll by (simp_all add: client_inv_def)
    then show ?thesis using poll by (auto simp: client_inv_def)
  next
    case False
    then show ?thesis using poll initialized_simps(8) [OF poll(4)] by (auto simp: client_inv_def poll_round_def)
  qed
next
  case (take now n v s)
  have "good (sender_pc n) s \<and> answering s = answering (sp c)" if "initialized s" "good (snd_at c) (sp c)"
    using take_good [OF _ take(5) _ take(6)] that take(3) initialized_simps(10) [OF take(6)] by simp
  then show ?thesis using inv take initialized_simps(10) [OF take(6)] by (auto simp: client_inv_def)
next
  case (send req r now rv w s)
  then show ?thesis
    using request_good [of req "sp c" r now rv w s] inv initialized_simps(7) [OF send(4)] by (auto simp: client_inv_def)
next
  case (wait i)
  then show ?thesis using wait_good [of i "sp c"] inv by (auto simp: client_inv_def)
next
  case (recv r resp now n s)
  then have "good (snd_at c) s \<and> answering s = answering (sp c)" if "good (snd_at c) (sp c)"
    using that recv_round_ok [of "sp c" r resp now] keeps_good keeps_answering by (fastforce simp: good_def)
  then show ?thesis using recv inv initialized_simps(9) [OF recv(4)] by (auto simp: client_inv_def)
next
  case (erase i s)
  have "good (snd_at c) s \<and> answering s = answering (sp c)" if "good (snd_at c) (sp c)"
    using keeps_call [OF that, of "erase_req i" s] erase_req_ok erase by blast
  then show ?thesis using erase inv initialized_simps(5) [OF erase(4)] by (auto simp: client_inv_def)
next
  case release
  then show ?thesis using inv by (auto simp: client_inv_def release_reqs_def)
next
  case released
  then show ?thesis by (simp add: client_inv_def release_resps_def)
next
  case spurious
  then show ?thesis using st by simp
next
  case woken_req
  then show ?thesis using inv by (auto simp: client_inv_def good_def core_def)
next
  case woken_resp
  then show ?thesis using inv by (auto simp: client_inv_def good_def core_def)
qed

text \<open>Every step but a spurious wake-up keeps the invariant.\<close>

interpretation client: observed "\<lambda>c e c'. client_step c e c' \<and> e \<noteq> E_spurious" follow_event client_inv
  by unfold_locales (rule client_step_inv)

lemma client_inv_init: "client_inv None client_init"
proof -
  have "resp_rel (\<lambda>_. False) ctl_init []"
    by (simp add: resp_rel_def ctl_init_def only_first_polled_def current_def)
  then show ?thesis
    by (auto simp: client_inv_def good_def client_init_def speech_init_def core_def requests_ok_def sender_ok_def sq_empty_ok
        ctl_ok_def ctl_init_def voice_ok_def op_ids_def only_first_polled_def current_def)
qed

end
