(* ===== verification/SpeechRuns.thy ===== *)
theory SpeechRuns
  imports SpeechInv
begin

text \<open>
  The properties of the speech client, over all interleavings of its application, sender and
  receiver, and the runs that show what goes wrong when texts and voice are used together.
\<close>

section \<open>Runs that can be computed\<close>

text \<open>A script of a run: which thread goes next, with what the application passes and the connection returns.\<close>

datatype script = Do_start | Do_text str | Do_voice int str | Do_end int | Do_cancel int | Do_poll | Do_take | Do_send
  | Do_wait | Do_recv response

fun exec1 :: "script \<Rightarrow> unit client \<Rightarrow> (unit event \<times> unit client) option" where
  "exec1 Do_start c = map_option (\<lambda>(i, s). (E_call (Call_start None i), c\<lparr>sp := s\<rparr>)) (start_voice None (sp c))"
| "exec1 (Do_text t) c = map_option (\<lambda>(i, s). (E_call (Call_text (Some t) None i), c\<lparr>sp := s\<rparr>)) (put_text (Some t) None (sp c))"
| "exec1 (Do_voice i d) c = map_option (\<lambda>s. (E_call (Call_voice i (Some d)), c\<lparr>sp := s\<rparr>)) (put_voice i (Some d) (sp c))"
| "exec1 (Do_end i) c = map_option (\<lambda>s. (E_call (Call_end i), c\<lparr>sp := s\<rparr>)) (end_voice i (sp c))"
| "exec1 (Do_cancel i) c = map_option (\<lambda>s. (E_call (Call_cancel i), c\<lparr>sp := s\<rparr>)) (cancel i (sp c))"
| "exec1 Do_poll c =
     (if resp_cond (sp c) then None else map_option (\<lambda>(r, s). (E_poll r, c\<lparr>sp := s\<rparr>)) (poll_round (sp c)))"
| "exec1 Do_take c =
     (case snd_at c of
        S_loop \<Rightarrow>
          if req_cond (sp c) \<or> op_cond (ctl (sp c)) then None
          else map_option (\<lambda>(n, v, s). (E_take, c\<lparr>sp := s, snd_voice := v, snd_at := sender_pc n\<rparr>)) (send_round 0 (snd_voice c, sp c))
      | _ \<Rightarrow> None)"
| "exec1 Do_send c =
     (case snd_at c of
        S_request req \<Rightarrow>
          map_option (\<lambda>(rv, w, s). (E_sent w, c\<lparr>sp := s, snd_at := (if rv = 0 then S_finish (req_id req) else S_loop)\<rparr>))
            (do_request req SUCCESS 0 (sp c))
      | _ \<Rightarrow> None)"
| "exec1 Do_wait c =
     (case snd_at c of
        S_finish i \<Rightarrow> Some (E_other, c\<lparr>sp := (sp c)\<lparr>ctl := wait_op_finish i (ctl (sp c))\<rparr>, snd_at := S_loop\<rparr>)
      | _ \<Rightarrow> None)"
| "exec1 (Do_recv resp) c =
     (case rcv_at c of
        Recv_loop \<Rightarrow> map_option (\<lambda>(n, s). (E_other, c\<lparr>sp := s, rcv_at := n\<rparr>)) (recv_round SUCCESS resp 0 (sp c))
      | _ \<Rightarrow> None)"

lemma exec1_step:
  assumes "exec1 x c = Some (e, c')"
  shows "client_step c e c'"
proof (cases "x = Do_send")
  case True
  then obtain req rv w s where r: "snd_at c = S_request req" "do_request req SUCCESS 0 (sp c) = Some (rv, w, s)"
      "e = E_sent w" "c' = c\<lparr>sp := s, snd_at := (if rv = 0 then S_finish (req_id req) else S_loop)\<rparr>"
    using assms by (auto split: sender.splits)
  show ?thesis unfolding r(3,4) by (rule client_step.send [OF r(1,2)])
next
  case False
  then show ?thesis using assms
    by (cases x) (auto intro: client_step.intros split: sender.splits recv_next.splits if_splits)
qed

fun exec :: "script list \<Rightarrow> unit client \<Rightarrow> (unit event list \<times> unit client) option" where
  "exec [] c = Some ([], c)"
| "exec (x # xs) c =
     (case exec1 x c of None \<Rightarrow> None
      | Some (e, c1) \<Rightarrow> (case exec xs c1 of None \<Rightarrow> None | Some (es, c2) \<Rightarrow> Some (e # es, c2)))"

lemma exec_steps: "exec xs c = Some (es, c') \<Longrightarrow> steps client_step c es c'"
proof (induction xs arbitrary: c es)
  case (Cons x xs)
  then show ?case by (auto split: option.splits prod.splits intro: steps_Cons exec1_step)
qed (simp add: steps_none)

lemma script_run: "map_option fst (exec xs c) = Some es \<Longrightarrow> \<exists>c'. exec xs c = Some (es, c') \<and> steps client_step c es c'"
  using exec_steps by fastforce

section \<open>What holds in every run\<close>

text \<open>
  C25. In every interleaving of the application, the sender and the receiver, \<open>poll\<close> is defined (its
  assertion that the response belongs to the first operation holds) and reports the operations one
  after the other: the start, intermediate results and then one end, error or cancellation, with
  nothing of another operation in between. As long as the client is not released the receiver is
  defined for every result of the connection, also at a timeout, and so is sending a request taken.
  In the run the sender's wait for the end of an operation does not wake up spuriously; \<open>E_spurious\<close>
  is the step that does.
\<close>

theorem poll_reports_in_order:
  assumes "steps client_step client_init es c" "E_spurious \<notin> set es"
  shows "(\<exists>cur. observe follow_event None es = Some cur) \<and> poll_round (sp c) \<noteq> None \<and>
    (initialized (sp c) \<longrightarrow> (\<forall>r resp now. recv_round r resp now (sp c) \<noteq> None) \<and>
       (\<forall>req r now. snd_at c = S_request req \<longrightarrow> do_request req r now (sp c) \<noteq> None))"
proof -
  obtain cur where cur: "observe follow_event None es = Some cur" "client_inv cur c"
    using client.observe_steps [OF steps_without [OF assms] client_inv_init] by blast
  have "poll_round (sp c) \<noteq> None"
  proof (cases "initialized (sp c)")
    case True
    then obtain P where "core (sp c)" "resp_rel P (ctl (sp c)) (streams (responses (sp c)))"
      using cur(2) by (auto simp: client_inv_def good_def core_def)
    then show ?thesis using poll_round_ok [OF True, of P] by (auto simp: core_def)
  qed (simp add: poll_round_def)
  moreover have "recv_round r resp now (sp c) \<noteq> None" if "initialized (sp c)" for r resp now
    using recv_round_ok [of "sp c" r resp now] cur(2) that by (auto simp: client_inv_def good_def)
  moreover have "do_request req r now (sp c) \<noteq> None" if "initialized (sp c)" "snd_at c = S_request req" for req r now
    using do_request_ok [of "sp c" req r now] cur(2) that by (auto simp: client_inv_def good_def sender_ok_def Let_def)
  ultimately show ?thesis using cur(1) by blast
qed

text \<open>A voice request with an intermediate answer and its end.\<close>

definition demo_answer :: "resp_type \<Rightarrow> response" where
  "demo_answer t = \<lparr>resp_id = 1, resp_type = t, resp_result = 0, resp_asr = [104], resp_nlp = [105], resp_action = [], resp_extra = []\<rparr>"

definition demo_script :: "script list" where
  "demo_script = [Do_start, Do_take, Do_send, Do_voice 1 [1, 2], Do_take, Do_send, Do_recv (demo_answer RT_INTERMEDIATE), Do_poll, Do_end 1,
     Do_take, Do_send, Do_wait, Do_poll, Do_recv (demo_answer RT_FINISH), Do_poll]"

definition demo_events :: "unit event list" where
  "demo_events = [E_call (Call_start None 1), E_take, E_sent \<lparr>w_id = 1, w_type = W_START, w_data = None, w_config = Some None\<rparr>,
     E_call (Call_voice 1 (Some [1, 2])), E_take, E_sent \<lparr>w_id = 1, w_type = W_VOICE, w_data = Some [1, 2], w_config = None\<rparr>, E_other, E_poll (Polled (plain_result 1 SPEECH_RES_START 0)),
     E_call (Call_end 1), E_take, E_sent \<lparr>w_id = 1, w_type = W_END, w_data = None, w_config = None\<rparr>, E_other,
     E_poll (Polled ((plain_result 1 SPEECH_RES_INTER 0)\<lparr>res_asr := [104]\<rparr>)), E_other,
     E_poll (Polled ((plain_result 1 SPEECH_RES_END 0)\<lparr>res_nlp := [105]\<rparr>))]"

lemma demo_exec: "map_option fst (exec demo_script client_init) = Some demo_events"
  by code_simp

theorem poll_reports_in_order_witness:
  "\<exists>c. steps client_step client_init demo_events c \<and> (\<exists>cur. observe follow_event None demo_events = Some cur) \<and> poll_round (sp c) \<noteq> None"
proof -
  obtain c where c: "steps client_step client_init demo_events c" using script_run [OF demo_exec] by blast
  have "E_spurious \<notin> set demo_events" by (simp add: demo_events_def)
  then show ?thesis using poll_reports_in_order [OF c] c by blast
qed

section \<open>Which requests there can be\<close>

fun starts_voice :: "'o event \<Rightarrow> bool" where
  "starts_voice (E_call (Call_start opts i)) = True"
| "starts_voice _ = False"

fun adds_text :: "'o event \<Rightarrow> bool" where
  "adds_text (E_call (Call_text t opts i)) = True"
| "adds_text _ = False"

abbreviation req_ids :: "'o speech \<Rightarrow> int set" where
  "req_ids s \<equiv> req_id ` set (text_reqs s)"

definition after_event :: "'o event \<Rightarrow> 'o speech \<Rightarrow> 'o speech \<Rightarrow> bool" where
  "after_event e s s' \<longleftrightarrow> initialized s \<and> next_id s \<le> next_id s' \<and>
     (\<not> starts_voice e \<longrightarrow> length (streams (voice_reqs s')) \<le> length (streams (voice_reqs s))) \<and>
     req_ids s' \<subseteq> req_ids s \<union> {i. adds_text e \<and> next_id s < i}"

lemma after_keeps:
  assumes "keeps s s'" "initialized s"
  shows "after_event e s s'"
proof -
  have k: "next_id s' = next_id s" "list_all2 text_same (text_reqs s) (text_reqs s')"
    "list_all2 stream_same (streams (voice_reqs s)) (streams (voice_reqs s'))"
    using assms(1) by (simp_all add: keeps_def)
  have "req_ids s' = req_ids s" using texts_same(1) [OF k(2)] by (metis list.set_map)
  then show ?thesis using assms(2) k(1) list_all2_lengthD [OF k(3)] by (simp add: after_event_def)
qed

lemma after_put_text: "put_text t opts s = Some (i, s') \<Longrightarrow> initialized s \<Longrightarrow> after_event (E_call (Call_text t opts i)) s s'"
  by (auto simp: put_text_def s32_eq_Some bind_eq_Some_conv after_event_def split: option.splits)

lemma after_start_voice: "start_voice opts s = Some (i, s') \<Longrightarrow> initialized s \<Longrightarrow> after_event (E_call (Call_start opts i)) s s'"
  by (auto simp: start_voice_def s32_eq_Some bind_eq_Some_conv after_event_def split: if_splits)

lemma take_request_keeps:
  "take_request req now s = Some (n, s') \<Longrightarrow> next_id s' = next_id s \<and> voice_reqs s' = voice_reqs s \<and> text_reqs s' = text_reqs s"
  by (auto simp: take_request_def do_ctl_change_op_def bind_eq_Some_conv split: option.splits if_splits)

lemma pop_length: "length (snd (sp_pop V)) \<le> length V"
  by (auto simp: sp_pop_def split: list.splits)

lemma after_take:
  assumes "core s" "initialized s" "send_round now (v, s) = Some (n, v', s')"
  shows "after_event E_take s s'"
proof -
  obtain q where q: "sq_pop (voice_reqs s) = Some (fst (sp_pop (streams (voice_reqs s))), q)"
      "streams q = snd (sp_pop (streams (voice_reqs s)))"
    using sq_laws(6) [of "voice_reqs s"] assms(1) by (auto simp: sq_rel_def core_def)
  have "next_id s' = next_id s \<and> voice_reqs s' = q \<and> set (text_reqs s') \<subseteq> set (text_reqs s)"
    using assms(2,3) q(1)
    by (auto simp: send_round_def Let_def bind_eq_Some_conv split: option.splits list.splits dest!: take_request_keeps)
  then show ?thesis using assms(2) q(2) pop_length by (auto simp: after_event_def)
qed

lemma after_step:
  assumes inv: "client_inv cur c" and st: "client_step c e c' \<and> e \<noteq> E_spurious" and i: "initialized (sp c')"
  shows "after_event e (sp c) (sp c')"
proof -
  have g: "core (sp c)" "good (snd_at c) (sp c)" if "initialized (sp c)" using inv that by (simp_all add: client_inv_def good_def)
  have same: "after_event e (sp c) s" if "initialized s" "keeps (sp c) s" for s
    using that after_keeps keeps_initialized by blast
  show ?thesis
    using conjunct1 [OF st]
  proof cases
    case (put_text t opts j s)
    then show ?thesis using i initialized_simps(1) [OF put_text(3)] after_put_text [OF put_text(3)] by simp
  next
    case (start_voice opts j s)
    then show ?thesis using i initialized_simps(2) [OF start_voice(3)] after_start_voice [OF start_voice(3)] by simp
  next
    case (put_voice j d s)
    then have s: "initialized (sp c)" using i initialized_simps(3) [OF put_voice(3)] by simp
    have "keeps (sp c) s" using put_voice_ok [OF g(1), of j d] s put_voice(3) by auto
    then show ?thesis using same [of s] i put_voice(2) by simp
  next
    case (end_voice j s)
    then have s: "initialized (sp c)" using i initialized_simps(4) [OF end_voice(3)] by simp
    have "keeps (sp c) s" using end_voice_ok [OF g(1), of j] s end_voice(3) by auto
    then show ?thesis using same [of s] i end_voice(2) by simp
  next
    case (cancel j s)
    then have s: "initialized (sp c)" using i initialized_simps(6) [OF cancel(3)] by simp
    have "keeps (sp c) s" using cancel_ok [OF g(1), of j] s cancel(3) by auto
    then show ?thesis using same [of s] i cancel(2) by simp
  next
    case (poll r s)
    then have s: "initialized (sp c)" using i initialized_simps(8) [OF poll(4)] by simp
    then obtain P where P: "resp_rel P (ctl (sp c)) (streams (responses (sp c)))" using g(1) by (auto simp: core_def)
    have "polled_to (sp c) r s" using poll_round_ok [OF s _ _ P] g(1) [OF s] poll(4) by (auto simp: core_def)
    then show ?thesis using s poll(2) by (auto simp: polled_to_def after_event_def)
  next
    case (take now n v s)
    then show ?thesis using i initialized_simps(10) [OF take(6)] after_take [OF g(1) _ take(6)] by simp
  next
    case (send req r now rv w s)
    then have s: "initialized (sp c)" using i initialized_simps(7) [OF send(4)] by simp
    have "wire_of req \<noteq> None" using send(4) by (auto simp: do_request_def bind_eq_Some_conv)
    then have "keeps (sp c) s" using do_request_ok [OF g(1) [OF s], of req r now] send(4) by auto
    then show ?thesis using same [of s] i send(2) by simp
  next
    case (wait j)
    then show ?thesis using i by (simp add: after_event_def)
  next
    case (recv r resp now n s)
    then have s: "initialized (sp c)" using i initialized_simps(9) [OF recv(4)] by simp
    then have "keeps (sp c) s" using recv_round_ok [OF g(1) [OF s], of r resp now] recv(4) by auto
    then show ?thesis using same [of s] i recv(2) by simp
  next
    case (erase j s)
    then have s: "initialized (sp c)" using i initialized_simps(5) [OF erase(4)] by simp
    have "keeps (sp c) s" using erase_req_ok [OF g(1), of j] s erase(4) by auto
    then show ?thesis using same [of s] i erase(2) by simp
  next
    case release
    then show ?thesis using i by (auto simp: release_reqs_def split: if_splits)
  next
    case released
    then show ?thesis using i by (simp add: release_resps_def)
  next
    case spurious
    then show ?thesis using st by simp
  next
    case woken_req
    then show ?thesis using i by (simp add: after_event_def)
  next
    case woken_resp
    then show ?thesis using i by (simp add: after_event_def)
  qed
qed

lemma no_voice_requests:
  assumes "steps client_step client_init es c" "E_spurious \<notin> set es" "\<forall>e \<in> set es. \<not> starts_voice e" "initialized (sp c)"
  shows "streams (voice_reqs (sp c)) = []"
proof -
  have "initialized (sp c) \<longrightarrow> streams (voice_reqs (sp c)) = []"
    using steps_without [OF assms(1,2)] client_inv_init
  proof (rule client.invariant_with)
    show "initialized (sp client_init) \<longrightarrow> streams (voice_reqs (sp client_init)) = []"
      by (simp add: client_init_def speech_init_def sq_empty_ok)
  qed (use assms(3) after_step in \<open>fastforce simp: after_event_def\<close>)
  then show ?thesis using assms(4) by blast
qed

lemma no_text_requests:
  assumes "steps client_step client_init es c" "E_spurious \<notin> set es" "\<forall>e \<in> set es. \<not> adds_text e" "initialized (sp c)"
  shows "text_reqs (sp c) = []"
proof -
  have "initialized (sp c) \<longrightarrow> req_ids (sp c) = {}"
    using steps_without [OF assms(1,2)] client_inv_init
  proof (rule client.invariant_with)
    show "initialized (sp client_init) \<longrightarrow> req_ids (sp client_init) = {}"
      by (simp add: client_init_def speech_init_def)
  qed (use assms(3) after_step in \<open>fastforce simp: after_event_def\<close>)
  then show ?thesis using assms(4) by simp
qed


section \<open>When the sender aborts\<close>

lemma run_good:
  assumes "steps client_step client_init es c" "E_spurious \<notin> set es" "initialized (sp c)"
  shows "good (snd_at c) (sp c)"
  using client.reachable_inv [OF steps_without [OF assms(1,2)] client_inv_init] assms(3) by (auto simp: client_inv_def)

text \<open>
  C26. The sender aborts (its assertion that no operation is current fails) in exactly one situation:
  a text is the next request while the operation of a voice stream that waits for more data is current.
  So a client whose application starts no voice, or puts no text, never aborts, as long as the sender's
  wait for the end of an operation does not wake up spuriously.
\<close>

theorem sender_aborts_exactly:
  assumes "steps client_step client_init es c" "E_spurious \<notin> set es" "initialized (sp c)" "snd_at c = S_loop" "\<not> op_cond (ctl (sp c))"
  shows "(send_round now (snd_voice c, sp c) = None \<longleftrightarrow>
      current_op (ctl (sp c)) \<noteq> None \<and> fst (sp_pop (streams (voice_reqs (sp c)))) = Pop_empty \<and>
      (\<exists>t ts. text_reqs (sp c) = t # ts \<and> req_type t = TEXT)) \<and>
    ((\<forall>e \<in> set es. \<not> starts_voice e) \<or> (\<forall>e \<in> set es. \<not> adds_text e) \<longrightarrow> send_round now (snd_voice c, sp c) \<noteq> None)"
proof -
  have g: "good S_loop (sp c)" using run_good [OF assms(1-3)] assms(4) by simp
  then have "if text_during_operation (sp c) then send_round now (snd_voice c, sp c) = None
      else \<exists>n v' s'. send_round now (snd_voice c, sp c) = Some (n, v', s') \<and> sent_on (sp c) n s'"
    using assms(3,5) by (intro send_round_ok) (simp_all add: good_def)
  then have a: "send_round now (snd_voice c, sp c) = None \<longleftrightarrow> text_during_operation (sp c)" by (auto split: if_splits)
  have "current_op (ctl (sp c)) = None" if "\<forall>e \<in> set es. \<not> starts_voice e"
    using no_voice_requests [OF assms(1,2) that assms(3)] g assms(5)
    by (cases "current_op (ctl (sp c))") (auto simp: good_def sender_ok_def current_def)
  moreover have "text_reqs (sp c) = []" if "\<forall>e \<in> set es. \<not> adds_text e"
    by (rule no_text_requests [OF assms(1,2) that assms(3)])
  ultimately have "\<not> text_during_operation (sp c)" if "(\<forall>e \<in> set es. \<not> starts_voice e) \<or> (\<forall>e \<in> set es. \<not> adds_text e)"
    using that by (auto simp: text_during_operation_def)
  then show ?thesis using a by (auto simp: text_during_operation_def split: list.splits)
qed

text \<open>A text put while a voice stream is open: the run reaches a state where the sender aborts.\<close>

definition abort_script :: "script list" where
  "abort_script = [Do_start, Do_take, Do_send, Do_text [104, 105]]"

lemma abort_exec:
  "(case exec abort_script client_init of None \<Rightarrow> False
    | Some (es, c) \<Rightarrow> E_spurious \<notin> set es \<and> initialized (sp c) \<and> snd_at c = S_loop \<and> \<not> req_cond (sp c) \<and> \<not> op_cond (ctl (sp c)) \<and>
        Option.is_none (send_round 0 (snd_voice c, sp c)))"
  by code_simp

theorem sender_aborts_exactly_witness:
  "\<exists>es c. steps client_step client_init es c \<and> snd_at c = S_loop \<and> \<not> req_cond (sp (c :: unit client)) \<and>
    send_round 0 (snd_voice c, sp c) = None \<and> (\<exists>t ts. text_reqs (sp c) = t # ts \<and> req_type t = TEXT)"
proof -
  obtain es c where e: "exec abort_script client_init = Some (es, c)" and n: "E_spurious \<notin> set es"
      and c: "initialized (sp c)" "snd_at c = S_loop" "\<not> req_cond (sp c)" "\<not> op_cond (ctl (sp c))" "send_round 0 (snd_voice c, sp c) = None"
    using abort_exec by (auto simp: Option.is_none_def split: option.splits)
  note s = exec_steps [OF e]
  have "\<exists>t ts. text_reqs (sp c) = t # ts \<and> req_type t = TEXT"
    using sender_aborts_exactly [OF s n c(1,2,4), of 0] c(5) by blast
  then show ?thesis using s c by blast
qed

text \<open>
  The wait for the end of an operation is not a loop: a spurious wake-up lets the sender go on while
  the operation is current, and if the next request is a new voice stream or a text its assertion
  fails, also for a client of texts only.
\<close>

theorem spurious_wakeup_aborts:
  assumes "steps client_step client_init es c" "E_spurious \<notin> set es" "initialized (sp c)" "snd_at c = S_loop"
    and "op_cond (ctl (sp c))" "current_op (ctl (sp c)) = Some k"
    and "(\<exists>i. fst (sp_pop (streams (voice_reqs (sp c)))) = Pop_start i) \<or>
      fst (sp_pop (streams (voice_reqs (sp c)))) = Pop_empty \<and> text_reqs (sp c) = t # ts \<and> req_type t = TEXT"
  shows "\<exists>c'. client_step c E_spurious c' \<and> snd_at c' = S_loop \<and> \<not> op_cond (ctl (sp c')) \<and> send_round now (snd_voice c', sp c') = None"
proof -
  let ?c = "c\<lparr>sp := (sp c)\<lparr>ctl := (ctl (sp c))\<lparr>op_cond := False\<rparr>\<rparr>\<rparr>"
  have "good (snd_at c) (sp c)" by (rule run_good [OF assms(1-3)])
  then obtain q where q: "sq_pop (voice_reqs (sp c)) = Some (fst (sp_pop (streams (voice_reqs (sp c)))), q)" "sq_ok q"
    using sq_laws(6) [of "voice_reqs (sp c)"] by (auto simp: sq_rel_def good_def core_def)
  have "send_round now (snd_voice c, sp ?c) = None"
    using assms(7)
  proof
    assume "\<exists>i. fst (sp_pop (streams (voice_reqs (sp c)))) = Pop_start i"
    then show ?thesis using q assms(3,6) get_arg_ok [OF q(2)]
      by (auto simp: send_round_def take_request_def do_ctl_change_op_def Let_def bind_eq_None_conv)
  next
    assume "fst (sp_pop (streams (voice_reqs (sp c)))) = Pop_empty \<and> text_reqs (sp c) = t # ts \<and> req_type t = TEXT"
    then show ?thesis using q assms(3,6) by (simp add: send_round_def take_request_def do_ctl_change_op_def Let_def)
  qed
  then show ?thesis using client_step.spurious [OF assms(4,5)] assms(4) by (intro exI [of _ ?c]) simp
qed

text \<open>Two texts: the sender waits for the end of the first.\<close>

lemma texts_exec:
  "(case exec [Do_text [104], Do_take, Do_send, Do_wait, Do_text [105]] client_init of None \<Rightarrow> False
    | Some (es, c) \<Rightarrow> E_spurious \<notin> set es \<and> initialized (sp c) \<and> snd_at c = S_loop \<and> op_cond (ctl (sp c)) \<and>
        current_op (ctl (sp c)) = Some 0 \<and> fst (sp_pop (streams (voice_reqs (sp c)))) = Pop_empty \<and>
        text_reqs (sp c) = [\<lparr>req_id = 2, req_type = TEXT, req_data = Some [105], req_options = None\<rparr>])"
  by code_simp

theorem spurious_wakeup_aborts_witness:
  "\<exists>es c c'. steps client_step (client_init :: unit client) es c \<and> client_step c E_spurious c' \<and> send_round 0 (snd_voice c', sp c') = None"
proof -
  obtain es c where e: "exec [Do_text [104], Do_take, Do_send, Do_wait, Do_text [105]] client_init = Some (es, c)"
      and c: "E_spurious \<notin> set es" "initialized (sp c)" "snd_at c = S_loop" "op_cond (ctl (sp c))" "current_op (ctl (sp c)) = Some 0"
        "fst (sp_pop (streams (voice_reqs (sp c)))) = Pop_empty"
        "text_reqs (sp c) = [\<lparr>req_id = 2, req_type = TEXT, req_data = Some [105], req_options = None\<rparr>]"
    using texts_exec by (auto split: option.splits)
  show ?thesis using spurious_wakeup_aborts [OF exec_steps [OF e] c(1-5), where now = 0] c(6,7) exec_steps [OF e] by auto
qed

section \<open>Requests that answer for others\<close>

text \<open>
  Cancelling everything while a voice stream is open is reported twice: the operation is
  cancelled, and the removed stream then makes a second, cancelled operation with the same id.
\<close>

theorem cancel_all_reported_twice:
  "\<exists>c. steps client_step (client_init :: unit client) [E_call (Call_start None 1), E_take,
     E_sent \<lparr>w_id = 1, w_type = W_START, w_data = None, w_config = Some None\<rparr>, E_call (Call_cancel 0), E_take,
     E_poll (Polled (plain_result 1 SPEECH_RES_CANCELLED 0)), E_poll (Polled (plain_result 1 SPEECH_RES_CANCELLED 0))] c"
proof -
  have "map_option fst (exec [Do_start, Do_take, Do_send, Do_cancel 0, Do_take, Do_poll, Do_poll] client_init)
    = Some [E_call (Call_start None 1), E_take, E_sent \<lparr>w_id = 1, w_type = W_START, w_data = None, w_config = Some None\<rparr>,
        E_call (Call_cancel 0), E_take, E_poll (Polled (plain_result 1 SPEECH_RES_CANCELLED 0)),
        E_poll (Polled (plain_result 1 SPEECH_RES_CANCELLED 0))]"
    by code_simp
  from script_run [OF this] show ?thesis by blast
qed





end
