(* ===== verification/TtsRuns.thy ===== *)
theory TtsRuns
  imports Tts
begin

text \<open>
  What holds of the text-to-speech client over all interleavings: \<open>poll\<close> keeps its protocol and its
  assertions, and the sender starts one operation after the other.
\<close>

section \<open>Options\<close>

text \<open>Setting an option and applying the modifier.\<close>

lemma mask_bits:
  "(x OR MODIFY_CODEC) AND MODIFY_CODEC \<noteq> 0" "(x OR MODIFY_DECLAIMER) AND MODIFY_DECLAIMER \<noteq> 0"
  "(x OR MODIFY_SAMPLERATE) AND MODIFY_SAMPLERATE \<noteq> 0"
  "(x OR MODIFY_CODEC) AND MODIFY_DECLAIMER = x AND MODIFY_DECLAIMER" "(x OR MODIFY_CODEC) AND MODIFY_SAMPLERATE = x AND MODIFY_SAMPLERATE"
  "(x OR MODIFY_DECLAIMER) AND MODIFY_CODEC = x AND MODIFY_CODEC" "(x OR MODIFY_DECLAIMER) AND MODIFY_SAMPLERATE = x AND MODIFY_SAMPLERATE"
  "(x OR MODIFY_SAMPLERATE) AND MODIFY_CODEC = x AND MODIFY_CODEC" "(x OR MODIFY_SAMPLERATE) AND MODIFY_DECLAIMER = x AND MODIFY_DECLAIMER"
  by (simp_all add: bit.conj_disj_distrib2 MODIFY_CODEC_def MODIFY_DECLAIMER_def MODIFY_SAMPLERATE_def or_eq_0_iff)

lemma modify_flags [simp]: "MODIFY_CODEC \<noteq> 0" "MODIFY_DECLAIMER \<noteq> 0" "MODIFY_SAMPLERATE \<noteq> 0"
  by (simp_all add: MODIFY_CODEC_def MODIFY_DECLAIMER_def MODIFY_SAMPLERATE_def)

lemma modify_set:
  "modify (set_codec x m) p = (modify m p)\<lparr>codec := x\<rparr>"
  "modify (set_declaimer y m) p = (modify m p)\<lparr>declaimer := y\<rparr>"
  "modify (set_samplerate z m) p = (modify m p)\<lparr>samplerate := z\<rparr>"
  "modify modifier_new p = p"
  by (simp_all add: modify_def set_codec_def set_declaimer_def set_samplerate_def mask_bits Let_def modifier_new_def tts_options.defs)

section \<open>The invariant\<close>

text \<open>The streams of voice never fail: the server has no error to report but the end.\<close>

definition no_error :: "(str, int) stream \<Rightarrow> bool" where
  "no_error x \<longleftrightarrow> st x \<noteq> Error \<and> fin x = None"

interpretation answered no_error
  by unfold_locales (simp_all add: no_error_def new_stream_def)

definition tcore :: "tts \<Rightarrow> bool" where
  "tcore s \<longleftrightarrow> sq_ok (voices s) \<and> ctl_ok (tctl s) \<and> (\<exists>P. resp_rel P (tctl s) (streams (voices s)))"

abbreviation speaking :: "tts \<Rightarrow> int option" where
  "speaking s \<equiv> current (streams (voices s))"

definition same_reqs :: "tts \<Rightarrow> tts \<Rightarrow> bool" where
  "same_reqs s s' \<longleftrightarrow> tts_next_id s' = tts_next_id s \<and> map treq_id (requests s') = map treq_id (requests s) \<and> running s' = running s"

definition tkeeps :: "tts \<Rightarrow> tts \<Rightarrow> bool" where
  "tkeeps s s' \<longleftrightarrow> tcore s' \<and> same_reqs s s' \<and> speaking s' = speaking s \<and> ctl_same (tctl s) (tctl s') \<and>
     operations (tctl s') = operations (tctl s)"

lemma tkeeps_refl: "tcore s \<Longrightarrow> tkeeps s s"
  by (simp add: tkeeps_def same_reqs_def)

lemma tkeeps_core: "tkeeps s s' \<Longrightarrow> tcore s'"
  by (simp add: tkeeps_def)

lemma tkeeps_trans: "tkeeps s1 s2 \<Longrightarrow> tkeeps s2 s3 \<Longrightarrow> tkeeps s1 s3"
  using ctl_same_trans by (auto simp: tkeeps_def same_reqs_def)

lemma tkeeps_conds [simp]:
  "tkeeps s (s'\<lparr>treq_cond := b\<rparr>) = tkeeps s s'" "tkeeps s (s'\<lparr>tresp_cond := b\<rparr>) = tkeeps s s'"
  "tkeeps s (s'\<lparr>tts_opts := p\<rparr>) = tkeeps s s'" "tcore (s\<lparr>tresp_cond := b\<rparr>) = tcore s" "tcore (s\<lparr>requests := rs\<rparr>) = tcore s"
  by (simp_all add: tkeeps_def tcore_def same_reqs_def)

lemma tkeeps_relabel:
  assumes "tcore s" "relabel (tctl s) c" "ctl_ok c"
  shows "tkeeps s (s\<lparr>tctl := c\<rparr>)"
proof -
  have "operations c = operations (tctl s)" using assms(2) by (simp add: relabel_def)
  then show ?thesis
    using assms resp_relabel [OF _ assms(2)] relabel_same [OF assms(2)] by (auto simp: tkeeps_def tcore_def same_reqs_def)
qed

text \<open>A change of the stream of the current operation \<open>k\<close>, with a change of its status.\<close>

lemma tkeeps_change:
  assumes s: "tcore s" "current_op (tctl s) = Some k"
    and q: "sq_ok q" "streams q = upd (op_id (op_at (tctl s) k)) f (streams (voices s))"
    and c: "ctl_ok c" "operations c = operations (tctl s)" "ctl_same (tctl s) c"
      "\<And>j. j \<noteq> k \<Longrightarrow> op_status (op_at c j) = op_status (op_at (tctl s) j)"
      "op_status (op_at c k) \<in> {STREAMING, END} \<Longrightarrow> op_status (op_at (tctl s) k) \<in> {STREAMING, END}"
    and f: "\<And>x. matches (op_status (op_at (tctl s) k)) x \<Longrightarrow> matches (op_status (op_at c k)) (f x)"
      "\<And>x. sid (f x) = sid x" "\<And>x. polled (f x) = polled x"
  shows "tkeeps s (s\<lparr>voices := q, tctl := c\<rparr>)"
proof -
  obtain P where P: "resp_rel P (tctl s) (streams (voices s))" using s(1) by (auto simp: tcore_def)
  have ok: "ctl_ok (tctl s)" using s(1) by (simp add: tcore_def)
  have ids: "op_id (op_at c j) = op_id (op_at (tctl s) j)" for j using c(3) by (simp add: ctl_same_def)
  have "resp_rel P c (streams q)" unfolding q(2)
    by (rule resp_change [OF P c(2) ids _ _ refl _ _ f(2,3)]) (use c(4,5) ctl_okD(7) [OF ok s(2)] f(1) in auto)
  moreover have "current (streams q) = speaking s"
    unfolding q(2) by (rule only_first_upd(2) [OF resp_relD(4) [OF P] f(3,2)])
  ultimately show ?thesis using q(1) c(1-3) by (auto simp: tkeeps_def tcore_def same_reqs_def)
qed

lemma tts_start_ok:
  assumes "tcore s" "current_op (tctl s) = Some k" "op_status (op_at (tctl s) k) = START"
  shows "\<exists>b q. sq_start (op_id (op_at (tctl s) k)) (voices s) = Some (b, q) \<and>
    tkeeps s (s\<lparr>voices := q, tctl := set_op k (\<lambda>x. x\<lparr>op_status := STREAMING\<rparr>) (tctl s)\<rparr>)"
proof -
  let ?R = "streams (voices s)" and ?i = "op_id (op_at (tctl s) k)" and ?c = "set_op k (\<lambda>x. x\<lparr>op_status := STREAMING\<rparr>) (tctl s)"
  obtain P where P: "resp_rel P (tctl s) ?R" using assms(1) by (auto simp: tcore_def)
  have ok: "ctl_ok (tctl s)" using assms(1) by (simp add: tcore_def)
  obtain q where q: "sq_start ?i (voices s) = Some (fst (sp_start ?i ?R), q)" "sq_ok q" "streams q = snd (sp_start ?i ?R)"
    using sq_laws(1) [of "voices s" ?i] assms(1) by (auto simp: sq_rel_def tcore_def)
  note r = resp_start [OF P ok assms(2,3)]
  have e: "streams q = ?R @ [new_stream ?i]" using q(3) r(1) by (simp add: sp_start_def)
  have "current (streams q) = current ?R" unfolding e by (cases ?R) (simp_all add: current_def new_stream_def)
  moreover have "ctl_same (tctl s) ?c"
    by (simp add: ctl_same_def op_at_set_op op_ids_eq [of ?c "tctl s"])
  ultimately have "tkeeps s (s\<lparr>voices := q, tctl := ?c\<rparr>)"
    using q(2) streaming_ok [OF ok assms(2)] r(2) [folded e] by (auto simp: tkeeps_def tcore_def same_reqs_def)
  then show ?thesis using q(1) by blast
qed

lemma tts_stream_ok:
  assumes "tcore s" "current_op (tctl s) = Some k" "op_id (op_at (tctl s) k) = i" "d \<noteq> None"
  shows "\<exists>b q. sq_stream i d (voices s) = Some (b, q) \<and> tkeeps s (s\<lparr>voices := q\<rparr>)"
proof -
  let ?R = "streams (voices s)"
  obtain q where q: "sq_stream i d (voices s) = Some (fst (sp_stream i d ?R), q)" "sq_ok q" "streams q = snd (sp_stream i d ?R)"
    using sq_laws(2) [of "voices s" i d] assms(1) by (auto simp: sq_rel_def tcore_def)
  show ?thesis
  proof (cases "streams q = ?R")
    case True
    then have "tkeeps s (s\<lparr>voices := q\<rparr>)" using assms(1) q(2) by (auto simp: tkeeps_def tcore_def same_reqs_def)
    then show ?thesis using q(1) by blast
  next
    case False
    then have u: "streams q = upd i (\<lambda>x. x\<lparr>sdata := sdata x @ [d]\<rparr>) ?R"
      using q(3) by (auto simp: sp_stream_def split: if_splits)
    have "tkeeps s (s\<lparr>voices := q, tctl := tctl s\<rparr>)"
      by (rule tkeeps_change [OF assms(1,2) q(2), where f = "\<lambda>x. x\<lparr>sdata := sdata x @ [d]\<rparr>"])
        (use u assms(1,3) in \<open>auto simp: tcore_def matches_def no_error_def\<close>)
    then show ?thesis using q(1) by simp
  qed
qed

lemma tts_end_ok:
  assumes "tcore s" "current_op (tctl s) = Some k" "op_id (op_at (tctl s) k) = i" "op_status (op_at (tctl s) k) = STREAMING"
  shows "\<exists>b q. sq_end i None (voices s) = Some (b, q) \<and>
    tkeeps s (s\<lparr>voices := q, tctl := finish_op (set_op k (\<lambda>x. x\<lparr>op_status := END\<rparr>) (tctl s))\<rparr>)"
proof -
  let ?R = "streams (voices s)" and ?c = "finish_op (set_op k (\<lambda>x. x\<lparr>op_status := END\<rparr>) (tctl s))"
  have ok: "ctl_ok (tctl s)" using assms(1) by (simp add: tcore_def)
  note fin = finish_op_finished(2) [OF ok assms(2)]
  obtain q where q: "sq_end i None (voices s) = Some (fst (sp_end i None ?R), q)" "sq_ok q" "streams q = snd (sp_end i None ?R)"
    using sq_laws(3) [of "voices s" i None] assms(1) by (auto simp: sq_rel_def tcore_def)
  have same: "ctl_same (tctl s) ?c" using fin op_ids_eq [of ?c "tctl s"] by (simp add: ctl_same_def finished_def)
  have st: "op_status (op_at ?c k) = END" "\<And>j. j \<noteq> k \<Longrightarrow> op_status (op_at ?c j) = op_status (op_at (tctl s) j)"
    using fin by (simp_all add: finished_def)
  have "tkeeps s (s\<lparr>voices := q, tctl := ?c\<rparr>)"
    by (rule tkeeps_change [OF assms(1,2) q(2) _ finished_ok [OF ok assms(2) fin] _ same, where f = "\<lambda>x. x\<lparr>st := Completed\<rparr>"])
      (use q(3) assms(3,4) st fin in \<open>auto simp: sp_end_def matches_def no_error_def finished_def\<close>)
  then show ?thesis using q(1) by blast
qed

lemma tts_gen_ok:
  assumes "tcore s"
  shows "\<exists>s'. tts_gen_result resp s = Some s' \<and> tkeeps s s'"
proof (cases "current_op (tctl s)")
  case None
  then show ?thesis using tkeeps_refl [OF assms] by (simp add: tts_gen_result_def)
next
  case (Some k)
  let ?x = "op_at (tctl s) k"
  have ok: "ctl_ok (tctl s)" using assms by (simp add: tcore_def)
  have k: "k < length (heap (tctl s))" "op_status ?x \<in> {START, STREAMING}" using ctl_okD(2,5,6) [OF ok] Some by blast+
  show ?thesis
  proof (cases "op_id ?x = tresp_id resp")
    case False
    then show ?thesis using Some tkeeps_refl [OF assms] by (simp add: tts_gen_result_def)
  next
    case True
    obtain s1 where s1: "answer_start k resp s = Some s1" "tkeeps s s1" "current_op (tctl s1) = Some k" "op_status (op_at (tctl s1) k) = STREAMING"
    proof (cases "op_status ?x = START")
      case st: True
      obtain b q where "sq_start (tresp_id resp) (voices s) = Some (b, q)"
        "tkeeps s (s\<lparr>voices := q, tctl := set_op k (\<lambda>x. x\<lparr>op_status := STREAMING\<rparr>) (tctl s)\<rparr>)"
        using tts_start_ok [OF assms Some st] True by auto
      then show ?thesis using that [of "s\<lparr>voices := q, tctl := set_op k (\<lambda>x. x\<lparr>op_status := STREAMING\<rparr>) (tctl s)\<rparr>"] st Some k(1)
        by (simp add: op_at_set_op answer_start_def)
    next
      case False
      then show ?thesis using that [of s] k(2) Some tkeeps_refl [OF assms] by (simp add: answer_start_def)
    qed
    have id1: "op_id (op_at (tctl s1) k) = tresp_id resp" using s1(2) True by (simp add: tkeeps_def ctl_same_def)
    obtain s2 where s2: "answer_voice resp s1 = Some s2" "tkeeps s1 s2" "tctl s2 = tctl s1"
    proof (cases "voice_of resp = None")
      case False
      obtain b q where "sq_stream (tresp_id resp) (voice_of resp) (voices s1) = Some (b, q)" "tkeeps s1 (s1\<lparr>voices := q\<rparr>)"
        using tts_stream_ok [OF tkeeps_core [OF s1(2)] s1(3) id1 False] by blast
      then show ?thesis using that [of "s1\<lparr>voices := q\<rparr>"] False by (simp add: answer_voice_def)
    qed (use that [of s1] tkeeps_refl [OF tkeeps_core [OF s1(2)]] in \<open>simp add: answer_voice_def\<close>)
    obtain s3 where s3: "answer_finish k resp s2 = Some s3" "tkeeps s2 s3"
    proof (cases "finish resp")
      case True
      obtain b q where "sq_end (tresp_id resp) None (voices s2) = Some (b, q)"
        "tkeeps s2 (s2\<lparr>voices := q, tctl := finish_op (set_op k (\<lambda>x. x\<lparr>op_status := END\<rparr>) (tctl s2))\<rparr>)"
        using tts_end_ok [OF tkeeps_core [OF s2(2)], of k "tresp_id resp"] s1(3,4) id1 s2(3) by auto
      then show ?thesis
        using that [of "s2\<lparr>voices := q, tctl := finish_op (set_op k (\<lambda>x. x\<lparr>op_status := END\<rparr>) (tctl s2))\<rparr>"] True s1(4) s2(3)
        by (simp add: answer_finish_def)
    qed (use that [of s2] tkeeps_refl [OF tkeeps_core [OF s2(2)]] in \<open>simp add: answer_finish_def\<close>)
    have "\<exists>b. tts_gen_result resp s = Some (if b then s3\<lparr>tresp_cond := False\<rparr> else s3)"
      using Some True s1(1) s2(1) s3(1) by (auto simp: tts_gen_result_def)
    moreover have "tkeeps s s3" using tkeeps_trans [OF tkeeps_trans [OF s1(2) s2(2)] s3(2)] .
    ultimately show ?thesis by (auto split: if_splits)
  qed
qed

lemma tts_fail_ok: "tcore s \<Longrightarrow> tkeeps s (tts_fail e s)"
  using set_op_error_ok [of "tctl s" e] tkeeps_relabel [of s "set_op_error e (tctl s)"] by (simp add: tts_fail_def tcore_def)

lemma tts_recv_ok:
  assumes "tcore s"
  shows "\<exists>b s'. tts_recv_round r resp now s = Some (b, s') \<and> tkeeps s s'"
proof -
  let ?s = "s\<lparr>tctl := refresh_op_time True now (tctl s)\<rparr>"
  have ok: "ctl_ok (tctl s)" using assms by (simp add: tcore_def)
  have r: "tkeeps s ?s" by (rule tkeeps_relabel [OF assms refresh_ok(1,2) [OF ok]])
  obtain s1 where s1: "tts_gen_result resp ?s = Some s1" "tkeeps s s1"
    using tts_gen_ok [OF tkeeps_core [OF r]] tkeeps_trans [OF r] by blast
  have f: "tkeeps s (tts_fail e s)" for e using tts_fail_ok [OF assms] .
  consider "r = NOT_READY" | "r = SUCCESS" | "r = TIMEOUT" | "r \<notin> {NOT_READY, SUCCESS, TIMEOUT}" by auto
  then show ?thesis
  proof cases
    case 3
    then show ?thesis using f op_timeout_zero_current [of now "tctl s"] tkeeps_refl [OF assms]
      by (cases "op_timeout now (tctl s) = 0") (auto simp: tts_recv_round_def)
  qed (use s1 f tkeeps_refl [OF assms] in \<open>auto simp: tts_recv_round_def\<close>)
qed

lemma tts_cancel_ok:
  assumes "tcore s"
  shows "tkeeps s (cancel_tts i s)"
proof (cases "running s")
  case True
  define s1 where "s1 = s\<lparr>requests := map (\<lambda>r. if i \<le> 0 \<or> treq_id r = i then r\<lparr>deleted := True\<rparr> else r) (requests s)\<rparr>"
  have "map treq_id (requests s1) = map treq_id (requests s)" by (simp add: s1_def)
  then have k: "tkeeps s s1" using assms by (simp add: tkeeps_def tcore_def same_reqs_def s1_def)
  obtain b c where c: "cancel_op (if i \<le> 0 then 0 else i) (tresp_cond s1) (tctl s1) = (b, c)" by fastforce
  have "relabel (tctl s1) c" "ctl_ok c" using cancel_op_ok [OF _ c] tkeeps_core [OF k] by (simp_all add: tcore_def)
  then have "tkeeps s1 (s1\<lparr>tctl := c\<rparr>)" using tkeeps_relabel [OF tkeeps_core [OF k]] by blast
  then have "tkeeps s (s1\<lparr>tctl := c\<rparr>)" by (rule tkeeps_trans [OF k])
  moreover have "cancel_tts i s = s1 \<or> cancel_tts i s = s1\<lparr>tresp_cond := b, tctl := c\<rparr>"
    using True c by (auto simp: cancel_tts_def s1_def Let_def split: prod.split)
  moreover have "s1\<lparr>tresp_cond := b, tctl := c\<rparr> = s1\<lparr>tctl := c\<rparr>\<lparr>tresp_cond := b\<rparr>" by simp
  ultimately show ?thesis using k by (metis tkeeps_conds(2))
qed (simp add: cancel_tts_def tkeeps_refl [OF assms])

lemma tts_do_request_ok:
  assumes "tcore s" "tts_do_request r now s = (ok, s')"
  shows "tkeeps s s'" "\<not> ok \<Longrightarrow> current_op (tctl s') = None"
proof -
  have c: "ctl_ok (tctl s)" using assms by (simp add: tcore_def)
  show "tkeeps s s'"
    using tkeeps_relabel [OF assms(1) set_op_error_ok(1,2) [OF c]] tkeeps_relabel [OF assms(1) refresh_ok(1,2) [OF c]] assms(2)
    by (auto simp: tts_do_request_def split: if_splits)
  show "current_op (tctl s') = None" if "\<not> ok"
    using assms(2) that set_op_error_ok(3) [OF c] by (auto simp: tts_do_request_def split: if_splits)
qed

section \<open>The sender\<close>

definition fresh_reqs :: "tts \<Rightarrow> bool" where
  "fresh_reqs s \<longleftrightarrow> distinct (map treq_id (requests s)) \<and> set (map treq_id (requests s)) \<inter> op_ids (tctl s) = {} \<and>
     (\<forall>i \<in> set (map treq_id (requests s)) \<union> op_ids (tctl s). i \<le> tts_next_id s)"

definition only_current :: "int \<Rightarrow> tts \<Rightarrow> bool" where
  "only_current i s \<longleftrightarrow> (\<forall>k. current_op (tctl s) = Some k \<longrightarrow> op_id (op_at (tctl s) k) = i)"

fun at_sender :: "tts_sender \<Rightarrow> tts \<Rightarrow> bool" where
  "at_sender TS_loop s \<longleftrightarrow> op_cond (tctl s) \<or> current_op (tctl s) = None"
| "at_sender (TS_request r) s \<longleftrightarrow> \<not> op_cond (tctl s) \<and> only_current (treq_id r) s"
| "at_sender (TS_finish i) s \<longleftrightarrow> \<not> op_cond (tctl s) \<and> only_current i s"
| "at_sender TS_quit s \<longleftrightarrow> True"

definition tgood :: "tts_sender \<Rightarrow> tts \<Rightarrow> bool" where
  "tgood pc s \<longleftrightarrow> tcore s \<and> fresh_reqs s \<and> at_sender pc s"

lemma tkeeps_good: "tkeeps s s' \<Longrightarrow> tgood pc s \<Longrightarrow> tgood pc s'"
  by (cases pc) (auto simp: tgood_def tkeeps_def same_reqs_def ctl_same_def fresh_reqs_def only_current_def simp flip: set_map)

lemma tgood_kept: "tkeeps s s' \<Longrightarrow> tgood pc s \<Longrightarrow> tgood pc s' \<and> speaking s' = speaking s \<and> running s' = running s"
  using tkeeps_good by (auto simp: tkeeps_def same_reqs_def)

lemma speak_good:
  assumes "tgood pc s" "speak t s = Some (i, s')"
  shows "tgood pc s' \<and> speaking s' = speaking s \<and> running s' = running s"
proof (cases "running s")
  case True
  let ?r = "\<lparr>treq_id = tts_next_id s + 1, deleted = False, text_of = t\<rparr>"
  have e: "s' = s\<lparr>tts_next_id := tts_next_id s + 1, requests := requests s @ [?r], treq_cond := False\<rparr>"
    using assms(2) True by (auto simp: speak_def s32_eq_Some bind_eq_Some_conv)
  have "fresh_reqs s'" using assms(1) unfolding e by (force simp: tgood_def fresh_reqs_def)
  then show ?thesis using assms(1) unfolding e by (cases pc) (simp_all add: tgood_def tcore_def only_current_def)
next
  case False
  then show ?thesis using assms by (simp add: speak_def)
qed

lemma new_request_good:
  assumes "tgood TS_loop s" "current_op (tctl s) = None" "\<not> op_cond (tctl s)" "requests s = r # rs" "st1 = START \<or> st1 = CANCELLED"
  shows "tgood (if st1 = START then TS_request r else TS_loop) (s\<lparr>requests := rs, tctl := new_op (treq_id r) st1 now (tctl s)\<rparr>)"
proof -
  have ok: "ctl_ok (tctl s)" and fr: "treq_id r \<notin> op_ids (tctl s)" using assms(1,4) by (auto simp: tgood_def tcore_def fresh_reqs_def)
  note n = new_op_ok [OF ok assms(2,5), of "treq_id r", where now = now]
  obtain P where P: "resp_rel P (tctl s) (streams (voices s))" using assms(1) by (auto simp: tgood_def tcore_def)
  have "resp_rel (P(length (heap (tctl s)) := False)) (new_op (treq_id r) st1 now (tctl s)) (streams (voices s))"
    by (rule resp_new_op [OF P ok assms(2,5)]) (use fr in simp)
  then have "tcore (s\<lparr>requests := rs, tctl := new_op (treq_id r) st1 now (tctl s)\<rparr>)"
    using n(1) fr assms(1) unfolding tgood_def tcore_def by auto
  moreover have "fresh_reqs (s\<lparr>requests := rs, tctl := new_op (treq_id r) st1 now (tctl s)\<rparr>)"
    using assms(1,4) n(3) fr by (auto simp: tgood_def fresh_reqs_def)
  ultimately show ?thesis using n(4,6,8) fr assms(3) by (auto simp: tgood_def only_current_def)
qed

lemma take_good_tts:
  assumes "tgood TS_loop s" "\<not> op_cond (tctl s)" "running s" "tts_send_round now s = (n, s')"
  shows "tgood (tts_pc n) s' \<and> speaking s' = speaking s \<and> running s'"
proof (cases "requests s")
  case Nil
  then show ?thesis using assms by (auto simp: tts_send_round_def tgood_def tcore_def fresh_reqs_def)
next
  case (Cons r rs)
  have "current_op (tctl s) = None" using assms(1,2) by (simp add: tgood_def)
  note g = new_request_good [OF assms(1) this assms(2) Cons]
  have "tgood pc (s\<lparr>tresp_cond := b\<rparr>) = tgood pc s" for pc b s
    by (cases pc) (simp_all add: tgood_def fresh_reqs_def only_current_def)
  then show ?thesis using g [of START now] g [of CANCELLED now] assms(3,4) Cons
    by (auto simp: tts_send_round_def do_ctl_new_op_def split: if_splits)
qed

lemma wait_good_tts:
  assumes "tgood (TS_finish i) s"
  shows "tgood TS_loop (s\<lparr>tctl := wait_op_finish i (tctl s)\<rparr>)"
  using assms by (auto simp: tgood_def tcore_def fresh_reqs_def only_current_def wait_op_finish_def split: option.split)

lemma send_good:
  assumes "tgood (TS_request req) s" "tts_do_request r now s = (ok, s')"
  shows "tgood (if ok then TS_finish (treq_id req) else TS_loop) s' \<and> speaking s' = speaking s \<and> running s' = running s"
proof -
  have c: "tcore s" using assms(1) by (simp add: tgood_def)
  note d = tts_do_request_ok [OF c assms(2)]
  show ?thesis using tgood_kept [OF d(1) assms(1)] d(2) by (cases ok) (simp_all add: tgood_def)
qed

section \<open>The results\<close>

text \<open>
  The reader of results: the request whose results it is reading, and the last request that has ended.
  Requests end in the order of their ids, and none is left out.
\<close>

fun follow_tts :: "int option \<times> int \<Rightarrow> tts_result \<Rightarrow> (int option \<times> int) option" where
  "follow_tts (cur, n) r =
     (case tres_type r of
        TTS_RES_START \<Rightarrow> if cur = None \<and> tres_id r = n + 1 then Some (Some (tres_id r), n) else None
      | TTS_RES_VOICE \<Rightarrow> if cur = Some (tres_id r) then Some (cur, n) else None
      | TTS_RES_END \<Rightarrow> if cur = Some (tres_id r) \<and> tres_id r = n + 1 then Some (None, n + 1) else None
      | _ \<Rightarrow> if (cur = None \<or> cur = Some (tres_id r)) \<and> tres_id r = n + 1 then Some (None, n + 1) else None)"

fun follow_tts_event :: "int option \<times> int \<Rightarrow> tts_event \<Rightarrow> (int option \<times> int) option" where
  "follow_tts_event v (T_poll (T_polled r)) = follow_tts v r"
| "follow_tts_event v e = Some v"

definition pending :: "tts \<Rightarrow> int list" where
  "pending s = map (\<lambda>k. op_id (op_at (tctl s) k)) (operations (tctl s)) @ map treq_id (requests s)"

definition in_turn :: "int \<Rightarrow> tts \<Rightarrow> bool" where
  "in_turn n s \<longleftrightarrow> pending s = [n + 1..tts_next_id s] \<and> n \<le> tts_next_id s"

lemma tkeeps_pending: "tkeeps s s' \<Longrightarrow> pending s' = pending s \<and> tts_next_id s' = tts_next_id s"
  by (simp add: tkeeps_def same_reqs_def pending_def ctl_same_def)

lemma in_turn_front:
  assumes "in_turn n s" "operations (tctl s) = k # ks"
  shows "op_id (op_at (tctl s) k) = n + 1" "map (\<lambda>k. op_id (op_at (tctl s) k)) ks @ map treq_id (requests s) = [n + 1 + 1..tts_next_id s]"
    "n + 1 \<le> tts_next_id s"
proof -
  have p: "op_id (op_at (tctl s) k) # (map (\<lambda>k. op_id (op_at (tctl s) k)) ks @ map treq_id (requests s)) = [n + 1..tts_next_id s]"
    using assms by (simp add: in_turn_def pending_def)
  then have l: "n + 1 \<le> tts_next_id s" by (metis list.distinct(1) upto_Nil linorder_not_le)
  then show "op_id (op_at (tctl s) k) = n + 1" "map (\<lambda>k. op_id (op_at (tctl s) k)) ks @ map treq_id (requests s) = [n + 1 + 1..tts_next_id s]"
    "n + 1 \<le> tts_next_id s"
    using p upto_rec1 [OF l] by simp_all
qed

text \<open>A round of \<open>poll\<close>, when the first operation was cancelled or failed, and when it is alive.\<close>

definition tts_polled_to :: "int \<Rightarrow> tts \<Rightarrow> tts_poll \<Rightarrow> tts \<Rightarrow> bool" where
  "tts_polled_to n s r s' \<longleftrightarrow>
     (\<exists>q c b m. s' = s\<lparr>voices := q, tctl := c, tresp_cond := b\<rparr> \<and> tcore s' \<and> op_ids c = op_ids (tctl s) \<and>
        op_at c = op_at (tctl s) \<and> current_op c = current_op (tctl s) \<and> op_cond c = op_cond (tctl s) \<and>
        in_turn m s' \<and> follow_tts_event (speaking s, n) (T_poll r) = Some (speaking s', m))"

lemma tts_polled_toI:
  assumes "s' = s\<lparr>voices := q, tctl := c, tresp_cond := b\<rparr>" "sq_ok q" "ctl_ok c" "resp_rel P c (streams q)" "op_ids c = op_ids (tctl s)"
    "op_at c = op_at (tctl s)" "current_op c = current_op (tctl s)" "op_cond c = op_cond (tctl s)" "in_turn m s'"
    "follow_tts_event (speaking s, n) (T_poll r) = Some (current (streams q), m)"
  shows "tts_polled_to n s r s'"
  unfolding tts_polled_to_def using assms by (fastforce simp: tcore_def)

lemma in_turn_removed:
  assumes "in_turn n s" "ctl_ok (tctl s)" "operations (tctl s) = k # ks" "op_status (op_at (tctl s) k) \<notin> {START, STREAMING}"
  shows "in_turn (n + 1) (s\<lparr>voices := q, tctl := remove_front_op (tctl s), tresp_cond := b\<rparr>)"
  using in_turn_front [OF assms(1,3)] remove_front_ok(2,3) [OF assms(2-4)] by (simp add: in_turn_def pending_def)

lemma tts_poll_dropped:
  assumes s: "running s" "tcore s" "in_turn n s" and ops: "operations (tctl s) = k # ks"
    and st: "op_status (op_at (tctl s) k) \<in> {CANCELLED, ERROR}"
  shows "\<exists>r s'. tts_poll_round s = Some (r, s') \<and> tts_polled_to n s r s'"
proof -
  let ?i = "op_id (op_at (tctl s) k)" and ?R = "streams (voices s)" and ?c = "remove_front_op (tctl s)"
  obtain P where ok: "sq_ok (voices s)" "ctl_ok (tctl s)" and rel: "resp_rel P (tctl s) ?R" using s(2) by (auto simp: tcore_def)
  obtain q where q: "drop_stream ?i (voices s) = Some q" "sq_ok q" "streams q = (if P k then tl ?R else ?R)" "current ?R \<in> {None, Some ?i}"
    using drop_stream_ok [OF ok rel ops] by blast
  let ?r = "if op_status (op_at (tctl s) k) = CANCELLED
    then \<lparr>tres_id = ?i, tres_type = TTS_RES_CANCELLED, tres_err = 0, tres_voice = None\<rparr>
    else \<lparr>tres_id = ?i, tres_type = TTS_RES_ERROR, tres_err = op_error (op_at (tctl s) k), tres_voice = None\<rparr>"
  let ?s = "s\<lparr>voices := q, tctl := ?c, tresp_cond := tresp_cond s\<rparr>"
  have ns: "op_status (op_at (tctl s) k) \<notin> {START, STREAMING}" using st by auto
  note m = remove_front_ok [OF ok(2) ops ns]
  have run: "tts_poll_round s = Some (T_polled ?r, ?s)"
    using s(1) ops st q(1) by (auto simp: tts_poll_round_def front_op_def Let_def)
  have rr: "resp_rel P ?c (streams q)" "current (streams q) = None"
    using resp_remove_front [OF rel ok(2) ops ns q(3)] by blast+
  have f: "follow_tts_event (speaking s, n) (T_poll (T_polled ?r)) = Some (current (streams q), n + 1)"
    using q(4) rr(2) in_turn_front(1) [OF s(3) ops] by auto
  have "tts_polled_to n s (T_polled ?r) ?s"
    by (rule tts_polled_toI [OF refl q(2) m(1) rr(1) m(4) m(3) m(5,6) in_turn_removed [OF s(3) ok(2) ops ns] f])
  then show ?thesis using run by blast
qed

lemma tts_poll_alive:
  assumes s: "running s" "tcore s" "in_turn n s" and ops: "operations (tctl s) = k # ks"
    and st: "op_status (op_at (tctl s) k) \<notin> {CANCELLED, ERROR}"
  shows "\<exists>r s'. tts_poll_round s = Some (r, s') \<and> tts_polled_to n s r s'"
proof -
  let ?i = "op_id (op_at (tctl s) k)" and ?R = "streams (voices s)"
  obtain P where ok: "sq_ok (voices s)" "ctl_ok (tctl s)" and rel: "resp_rel P (tctl s) ?R" using s(2) by (auto simp: tcore_def)
  obtain r R' where p: "sp_pop ?R = (r, R')" by fastforce
  obtain q where q: "sq_pop (voices s) = Some (r, q)" "sq_ok q" "streams q = R'"
    using sq_laws(6) [OF ok(1)] p by (auto simp: sq_rel_def)
  have run: "tts_poll_round s =
    (if pop_id r = None then Some (T_poll_wait, s\<lparr>voices := q, tresp_cond := True\<rparr>)
     else if pop_id r \<noteq> Some ?i then None
     else do {
       t \<leftarrow> poptype_to_tts r;
       Some (T_polled \<lparr>tres_id = ?i, tres_type = t, tres_err = integer_to_reserr (pop_err 0 r), tres_voice = pop_res None r\<rparr>,
         if t = TTS_RES_END then s\<lparr>voices := q, tctl := remove_front_op (tctl s)\<rparr> else s\<lparr>voices := q\<rparr>) })"
    using s(1) ops st q(1) by (simp add: tts_poll_round_def front_op_def Let_def cong: if_cong)
  have turn: "in_turn n (s\<lparr>voices := q, tctl := tctl s, tresp_cond := b\<rparr>)" for b using s(3) by (simp add: in_turn_def pending_def)
  show ?thesis
  proof (cases "r = Pop_empty \<and> R' = ?R")
    case True
    have "tts_polled_to n s T_poll_wait (s\<lparr>voices := q, tctl := tctl s, tresp_cond := True\<rparr>)"
      by (rule tts_polled_toI [OF refl q(2) ok(2) _ refl refl refl refl turn]) (use rel True q(3) in auto)
    then show ?thesis using run True by auto
  next
    case False
    then obtain x T where x: "P k" "?R = x # T" "sid x = ?i" "no_error x" "current T = None"
        "st x = Uncompleted \<or> op_status (op_at (tctl s) k) = END" "popped_from ?i x T r R'"
      using pop_front [OF ok(2) rel ops st p] by (auto simp: answers_def matches_def)
    note rep = resp_popped_start [OF rel [unfolded x(2)], unfolded ops list.sel, OF x(1)]
    have i: "?i = n + 1" by (rule in_turn_front(1) [OF s(3) ops])
    have alive: ?thesis if t: "poptype_to_tts r = Some t" "t \<noteq> TTS_RES_END" "pop_id r = Some ?i" "resp_rel P (tctl s) R'"
        "follow_tts (speaking s, n) \<lparr>tres_id = ?i, tres_type = t, tres_err = integer_to_reserr (pop_err 0 r), tres_voice = pop_res None r\<rparr> =
          Some (current R', n)" for t
    proof -
      have "tts_polled_to n s (T_polled \<lparr>tres_id = ?i, tres_type = t, tres_err = integer_to_reserr (pop_err 0 r), tres_voice = pop_res None r\<rparr>)
          (s\<lparr>voices := q, tctl := tctl s, tresp_cond := tresp_cond s\<rparr>)"
        by (rule tts_polled_toI [OF refl q(2) ok(2) _ refl refl refl refl turn]) (use t(4,5) q(3) in simp_all)
      then show ?thesis using run t(1-3) by simp
    qed
    from x(7) consider (start) "\<not> polled x" "r = Pop_start ?i" "R' = x\<lparr>polled := True\<rparr> # T"
      | (data) d ds where "polled x" "sdata x = d # ds" "r = Pop_data ?i d" "R' = x\<lparr>sdata := ds\<rparr> # T"
      | (fin) "st x = Completed" "polled x" "r = Pop_end ?i None" "R' = T"
      using x(4) by (auto simp: popped_from_def no_error_def)
    then show ?thesis
    proof cases
      case start
      then show ?thesis using alive [of TTS_RES_START] rep(1) x(2,3) i by (simp add: current_def)
    next
      case data
      then show ?thesis using alive [of TTS_RES_VOICE] rep(2) x(2,3) by (simp add: current_def)
    next
      case fin
      have ns: "op_status (op_at (tctl s) k) \<notin> {START, STREAMING}" using x(6) fin(1) by auto
      note m = remove_front_ok [OF ok(2) ops ns]
      have rr: "resp_rel P (remove_front_op (tctl s)) (streams q)"
        by (rule resp_remove_front(1) [OF rel ok(2) ops ns]) (use x(1,2) fin(4) q(3) in simp)
      let ?r = "\<lparr>tres_id = ?i, tres_type = TTS_RES_END, tres_err = integer_to_reserr 0, tres_voice = None\<rparr>"
      have "tts_polled_to n s (T_polled ?r) (s\<lparr>voices := q, tctl := remove_front_op (tctl s), tresp_cond := tresp_cond s\<rparr>)"
        by (rule tts_polled_toI [OF refl q(2) m(1) rr m(4) m(3) m(5,6) in_turn_removed [OF s(3) ok(2) ops ns]])
          (use x(2,3,5) fin q(3) i in \<open>simp add: current_def\<close>)
      then show ?thesis using run fin by simp
    qed
  qed
qed

lemma tts_poll_ok:
  assumes "running s" "tcore s" "in_turn n s"
  shows "\<exists>r s'. tts_poll_round s = Some (r, s') \<and> tts_polled_to n s r s'"
proof (cases "operations (tctl s)")
  case Nil
  have "tts_polled_to n s T_poll_wait (s\<lparr>voices := voices s, tctl := tctl s, tresp_cond := True\<rparr>)"
    using assms unfolding tts_polled_to_def tcore_def in_turn_def pending_def
    by (intro exI [of _ "voices s"] exI [of _ "tctl s"] exI [of _ True] exI [of _ n]) simp
  then show ?thesis using Nil assms(1) by (simp add: tts_poll_round_def front_op_def)
next
  case (Cons k ks)
  show ?thesis using tts_poll_dropped [OF assms Cons] tts_poll_alive [OF assms Cons] by blast
qed

section \<open>Every step\<close>

definition tts_inv :: "int option \<times> int \<Rightarrow> tts_client \<Rightarrow> bool" where
  "tts_inv v c \<longleftrightarrow> (running (tp c) \<longrightarrow> tgood (sender_at c) (tp c) \<and> fst v = speaking (tp c) \<and> in_turn (snd v) (tp c))"

lemma tts_inv_kept:
  assumes "tts_inv v c" "tgood (sender_at c) (tp c) \<Longrightarrow> tkeeps (tp c) s" "running s \<Longrightarrow> running (tp c)"
  shows "tts_inv v (c\<lparr>tp := s\<rparr>)"
  using assms tgood_kept [of "tp c" s] tkeeps_pending [of "tp c" s] by (auto simp: tts_inv_def in_turn_def)

lemma running_simps:
  "speak t s = Some (i, s') \<Longrightarrow> running s' = running s" "running (cancel_tts i s) = running s" "running (config m s) = running s"
  "tts_do_request r now s = (ok, s') \<Longrightarrow> running s' = running s" "tts_send_round now s = (n, s') \<Longrightarrow> running s' = running s"
  "tts_poll_round s = Some (pr, s') \<Longrightarrow> running s' = running s"
  by (auto simp: speak_def cancel_tts_def config_def tts_do_request_def tts_send_round_def do_ctl_new_op_def tts_poll_round_def Let_def
    bind_eq_Some_conv split: option.splits if_splits prod.splits list.splits)

lemma running_answer:
  "answer_start k resp s = Some s' \<Longrightarrow> running s' = running s" "answer_voice resp s = Some s' \<Longrightarrow> running s' = running s"
  "answer_finish k resp s = Some s' \<Longrightarrow> running s' = running s"
  by (auto simp: answer_start_def answer_voice_def answer_finish_def Let_def bind_eq_Some_conv split: if_splits)

lemma running_gen: "tts_gen_result resp s = Some s' \<Longrightarrow> running s' = running s"
  by (auto simp: tts_gen_result_def bind_eq_Some_conv running_answer split: option.splits if_splits)

lemma running_recv: "tts_recv_round r resp now s = Some (b, s') \<Longrightarrow> running s' = running s"
  by (auto simp: tts_recv_round_def tts_fail_def bind_eq_Some_conv running_gen split: if_splits)

lemma speak_turn: "in_turn n s \<Longrightarrow> speak t s = Some (i, s') \<Longrightarrow> in_turn n s'"
  by (auto simp: in_turn_def pending_def speak_def bind_eq_Some_conv s32_eq_Some upto_rec2 split: if_splits)

lemma take_turn:
  assumes "in_turn n s" "ctl_ok (tctl s)" "current_op (tctl s) = None" "fresh_reqs s" "tts_send_round now s = (m, s')"
  shows "in_turn n s'"
proof (cases "running s \<and> requests s \<noteq> []")
  case True
  then obtain r rs where r: "requests s = r # rs" by (cases "requests s") auto
  have fr: "treq_id r \<notin> op_ids (tctl s)" using assms(4) r by (simp add: fresh_reqs_def)
  obtain st1 where e: "st1 = START \<or> st1 = CANCELLED" "tctl s' = new_op (treq_id r) st1 now (tctl s)" "requests s' = rs"
      "tts_next_id s' = tts_next_id s"
    using that [of CANCELLED] that [of START] assms(5) True r
    by (cases "deleted r") (auto simp: tts_send_round_def do_ctl_new_op_def)
  have i: "st1 = START \<longrightarrow> treq_id r \<notin> op_ids (tctl s)" using fr by simp
  note n = new_op_ok [OF assms(2,3) e(1) i, where now = now]
  have m: "map (\<lambda>k. op_id (op_at (new_op (treq_id r) st1 now (tctl s)) k)) (operations (tctl s)) =
      map (\<lambda>k. op_id (op_at (tctl s) k)) (operations (tctl s))"
    using n(5) ctl_okD(2) [OF assms(2)] by (intro map_cong) auto
  show ?thesis using assms(1) r unfolding in_turn_def pending_def e n(2) map_append m by (simp add: n(6))
next
  case False
  then show ?thesis using assms(1,5) by (auto simp: tts_send_round_def in_turn_def pending_def split: list.splits if_splits)
qed

lemma tts_inv_conds: "tts_inv v c \<Longrightarrow> tts_inv v (c\<lparr>tp := (tp c)\<lparr>treq_cond := b\<rparr>\<rparr>) \<and> tts_inv v (c\<lparr>tp := (tp c)\<lparr>tresp_cond := b\<rparr>\<rparr>)"
  by (intro conjI; rule tts_inv_kept) (simp_all add: tgood_def tkeeps_refl)

lemma tts_step_inv:
  assumes inv: "tts_inv v c" and st: "tts_step c e c' \<and> e \<noteq> T_spurious"
  shows "\<exists>v'. follow_tts_event v e = Some v' \<and> tts_inv v' c'"
  using conjunct1 [OF st]
proof cases
  case (speak t i s)
  then show ?thesis using inv speak_good [OF _ speak(3)] speak_turn [OF _ speak(3)] running_simps(1) [OF speak(3)]
    by (auto simp: tts_inv_def)
next
  case (cancel i)
  then show ?thesis using tts_inv_kept [OF inv, of "cancel_tts i (tp c)"] tts_cancel_ok [of "tp c" i] running_simps(2) [of i "tp c"]
    by (auto simp: tgood_def)
next
  case (config m)
  have "tkeeps (tp c) (config m (tp c))" if "tcore (tp c)"
    using tkeeps_refl [OF that] by (simp add: config_def split: option.split)
  then show ?thesis using tts_inv_kept [OF inv, of "config m (tp c)"] running_simps(3) [of m "tp c"] config(1,2)
    by (auto simp: tgood_def)
next
  case (poll r s)
  show ?thesis
  proof (cases "running (tp c)")
    case True
    then have g: "tgood (sender_at c) (tp c)" "fst v = speaking (tp c)" "in_turn (snd v) (tp c)" using inv by (simp_all add: tts_inv_def)
    then have "tts_polled_to (snd v) (tp c) r s" using tts_poll_ok [OF True, of "snd v"] poll(4) by (auto simp: tgood_def)
    then obtain q d b m where p: "s = (tp c)\<lparr>voices := q, tctl := d, tresp_cond := b\<rparr>" "tcore s" "op_ids d = op_ids (tctl (tp c))"
        "op_at d = op_at (tctl (tp c))" "current_op d = current_op (tctl (tp c))" "op_cond d = op_cond (tctl (tp c))"
        "in_turn m s" "follow_tts_event (speaking (tp c), snd v) (T_poll r) = Some (speaking s, m)"
      unfolding tts_polled_to_def by blast
    have "at_sender (sender_at c) s"
      using g(1) p(1,4-6) by (cases "sender_at c") (simp_all add: tgood_def only_current_def)
    then have "tgood (sender_at c) s" using g(1) p(1-3) by (simp add: tgood_def fresh_reqs_def)
    moreover have "v = (speaking (tp c), snd v)" using g(2) by (simp add: prod_eq_iff)
    ultimately show ?thesis using p(7,8) poll(1,2) by (auto simp: tts_inv_def)
  next
    case False
    then show ?thesis using poll running_simps(6) [OF poll(4)] by (auto simp: tts_inv_def tts_poll_round_def)
  qed
next
  case (take now n s)
  have r: "running s = running (tp c)" by (rule running_simps(5) [OF take(6)])
  have "tgood (tts_pc n) s \<and> speaking s = speaking (tp c) \<and> in_turn (snd v) s" if "running s"
  proof -
    have g: "tgood TS_loop (tp c)" "in_turn (snd v) (tp c)" "running (tp c)" using inv that r take(3) by (simp_all add: tts_inv_def)
    then have "current_op (tctl (tp c)) = None" using take(5) by (simp add: tgood_def)
    then show ?thesis using take_good_tts [OF g(1) take(5) g(3) take(6)] take_turn [OF g(2) _ _ _ take(6)] g(1)
      by (simp add: tgood_def tcore_def)
  qed
  then show ?thesis using inv take r by (auto simp: tts_inv_def)
next
  case (send req r now ok s)
  have "tkeeps (tp c) s" if "tcore (tp c)" by (rule tts_do_request_ok(1) [OF that send(4)])
  then show ?thesis
    using inv send send_good [OF _ send(4), of req] tkeeps_pending [of "tp c" s] running_simps(4) [OF send(4)]
    by (auto simp: tts_inv_def in_turn_def tgood_def)
next
  case (wait i)
  have "operations (wait_op_finish i d) = operations d" "op_at (wait_op_finish i d) = op_at d" for d
    by (simp_all add: wait_op_finish_def fun_eq_iff split: option.split)
  then show ?thesis using wait_good_tts [of i "tp c"] inv wait by (auto simp: tts_inv_def in_turn_def pending_def)
next
  case (recv r resp now b s)
  have "tkeeps (tp c) s" if "tcore (tp c)" using tts_recv_ok [OF that, of r resp now] recv(3) by auto
  then show ?thesis using tts_inv_kept [OF inv, of s] running_recv [OF recv(3)] recv by (auto simp: tgood_def)
next
  case release
  then show ?thesis using inv by (auto simp: tts_inv_def tts_release_reqs_def)
next
  case released
  then show ?thesis by (simp add: tts_inv_def tts_release_resps_def)
next
  case spurious
  then show ?thesis using st by simp
next
  case woken_req
  then show ?thesis using inv tts_inv_conds [of v c] by auto
next
  case woken_resp
  then show ?thesis using inv tts_inv_conds [of v c] by auto
qed

text \<open>Every step but a spurious wake-up keeps the invariant.\<close>

interpretation tts: observed "\<lambda>c e c'. tts_step c e c' \<and> e \<noteq> T_spurious" follow_tts_event tts_inv
  by unfold_locales (rule tts_step_inv)

lemma tts_inv_init: "tts_inv (None, 0) tts_client_init"
proof -
  have "resp_rel (\<lambda>_. False) ctl_init []"
    by (simp add: resp_rel_def ctl_init_def only_first_polled_def current_def)
  then show ?thesis
    by (auto simp: tts_inv_def tgood_def tts_client_init_def tts_init_def tcore_def fresh_reqs_def sq_empty_ok ctl_ok_def ctl_init_def
        op_ids_def current_def in_turn_def pending_def)
qed

section \<open>What holds in every run\<close>

text \<open>
  C33. In every interleaving of the application, the sender and the receiver of the text-to-speech client,
  \<open>poll\<close> is defined (both assertions hold) and reports the requests in the order they were made, none
  left out and none twice: for each a start, voice and one end, or one cancellation or error. The
  receiver is defined for every result of the connection, and the sender makes a new operation only
  when no other is current. In the run the sender's wait for the end of an operation does not wake up
  spuriously; \<open>T_spurious\<close> is the step that does.
\<close>

theorem tts_requests_end_in_order:
  assumes "steps tts_step tts_client_init es c" "T_spurious \<notin> set es"
  shows "(\<exists>v. observe follow_tts_event (None, 0) es = Some v) \<and> tts_poll_round (tp c) \<noteq> None \<and>
    (running (tp c) \<longrightarrow> (\<forall>r resp now. tts_recv_round r resp now (tp c) \<noteq> None) \<and>
      (sender_at c = TS_loop \<and> \<not> op_cond (tctl (tp c)) \<longrightarrow> current_op (tctl (tp c)) = None))"
proof -
  obtain v where v: "observe follow_tts_event (None, 0) es = Some v" "tts_inv v c"
    using tts.observe_steps [OF steps_without [OF assms] tts_inv_init] by blast
  have "tts_poll_round (tp c) \<noteq> None"
  proof (cases "running (tp c)")
    case True
    then show ?thesis using tts_poll_ok [of "tp c" "snd v"] v(2) by (auto simp: tts_inv_def tgood_def)
  qed (simp add: tts_poll_round_def)
  moreover have "tts_recv_round r resp now (tp c) \<noteq> None" if "running (tp c)" for r resp now
    using tts_recv_ok [of "tp c" r resp now] v(2) that by (auto simp: tts_inv_def tgood_def)
  ultimately show ?thesis using v by (auto simp: tts_inv_def tgood_def)
qed

text \<open>A script of a run.\<close>

datatype tts_script = S_speak str | S_cancel int | S_poll | S_take | S_send conn_result | S_wait | S_recv conn_result tts_response

fun texec1 :: "tts_script \<Rightarrow> tts_client \<Rightarrow> (tts_event \<times> tts_client) option" where
  "texec1 (S_speak t) c = map_option (\<lambda>(i, s). (T_call, c\<lparr>tp := s\<rparr>)) (speak t (tp c))"
| "texec1 (S_cancel i) c = Some (T_call, c\<lparr>tp := cancel_tts i (tp c)\<rparr>)"
| "texec1 S_poll c =
     (if tresp_cond (tp c) then None else map_option (\<lambda>(r, s). (T_poll r, c\<lparr>tp := s\<rparr>)) (tts_poll_round (tp c)))"
| "texec1 S_take c =
     (if sender_at c = TS_loop \<and> \<not> treq_cond (tp c) \<and> \<not> op_cond (tctl (tp c))
      then (case tts_send_round 0 (tp c) of (n, s) \<Rightarrow> Some (T_take, c\<lparr>tp := s, sender_at := tts_pc n\<rparr>)) else None)"
| "texec1 (S_send r) c =
     (case sender_at c of
        TS_request req \<Rightarrow> (case tts_do_request r 0 (tp c) of (ok, s) \<Rightarrow>
          Some (T_sent (tts_wire_of req (tp c)), c\<lparr>tp := s, sender_at := (if ok then TS_finish (treq_id req) else TS_loop)\<rparr>))
      | _ \<Rightarrow> None)"
| "texec1 S_wait c =
     (case sender_at c of
        TS_finish i \<Rightarrow> Some (T_other, c\<lparr>tp := (tp c)\<lparr>tctl := wait_op_finish i (tctl (tp c))\<rparr>, sender_at := TS_loop\<rparr>)
      | _ \<Rightarrow> None)"
| "texec1 (S_recv r resp) c = map_option (\<lambda>(b, s). (T_other, c\<lparr>tp := s\<rparr>)) (tts_recv_round r resp 0 (tp c))"

lemma texec1_step: "texec1 x c = Some (e, c') \<Longrightarrow> tts_step c e c'"
  using tts_step.send [of c _ _ 0 True] tts_step.send [of c _ _ 0 False]
  by (cases x) (auto intro: tts_step.intros split: if_splits prod.splits tts_sender.splits)

fun texec :: "tts_script list \<Rightarrow> tts_client \<Rightarrow> (tts_event list \<times> tts_client) option" where
  "texec [] c = Some ([], c)"
| "texec (x # xs) c =
     (case texec1 x c of None \<Rightarrow> None
      | Some (e, c1) \<Rightarrow> (case texec xs c1 of None \<Rightarrow> None | Some (es, c2) \<Rightarrow> Some (e # es, c2)))"

lemma texec_steps: "texec xs c = Some (es, c') \<Longrightarrow> steps tts_step c es c'"
proof (induction xs arbitrary: c es)
  case (Cons x xs)
  then show ?case by (auto split: option.splits prod.splits intro: steps_Cons texec1_step)
qed (simp add: steps_none)

text \<open>Two texts; the second is cancelled before it is sent, the first gets voice and ends.\<close>

definition tts_demo :: "tts_script list" where
  "tts_demo = [S_speak [104], S_speak [105], S_take, S_cancel 2, S_send SUCCESS, S_wait,
     S_recv SUCCESS \<lparr>tresp_id = 1, voice_of = Some [7], finish = True\<rparr>, S_poll, S_poll, S_poll, S_take, S_poll]"

definition tts_demo_results :: "tts_event list" where
  "tts_demo_results = [T_poll (T_polled \<lparr>tres_id = 1, tres_type = TTS_RES_START, tres_err = 0, tres_voice = None\<rparr>),
     T_poll (T_polled \<lparr>tres_id = 1, tres_type = TTS_RES_VOICE, tres_err = 0, tres_voice = Some [7]\<rparr>),
     T_poll (T_polled \<lparr>tres_id = 1, tres_type = TTS_RES_END, tres_err = 0, tres_voice = None\<rparr>), T_take,
     T_poll (T_polled \<lparr>tres_id = 2, tres_type = TTS_RES_CANCELLED, tres_err = 0, tres_voice = None\<rparr>)]"

lemma tts_demo_run:
  "(case texec tts_demo tts_client_init of None \<Rightarrow> False
    | Some (es, c) \<Rightarrow> T_spurious \<notin> set es \<and> drop 7 es = tts_demo_results \<and> running (tp c) \<and> operations (tctl (tp c)) = [])"
  by code_simp

theorem tts_requests_end_in_order_witness:
  "\<exists>es c. steps tts_step tts_client_init es c \<and> drop 7 es = tts_demo_results \<and>
    (\<exists>v. observe follow_tts_event (None, 0) es = Some v) \<and> tts_poll_round (tp c) \<noteq> None"
proof -
  obtain es c where e: "texec tts_demo tts_client_init = Some (es, c)" "drop 7 es = tts_demo_results" "T_spurious \<notin> set es"
    using tts_demo_run by (auto split: option.splits)
  show ?thesis using tts_requests_end_in_order [OF texec_steps [OF e(1)] e(3)] texec_steps [OF e(1)] e(2) by blast
qed

section \<open>A spurious wake-up\<close>





end
