(* ===== verification/Service.thy ===== *)
theory Service
  imports Requests
begin

text \<open>
  The voice service (NDK main/VoiceService.cpp, voice_config.h, siren_control.cpp): it opens the siren
  library on the microphone, queues its events, turns voice events into calls of the speech client,
  and forwards the results of the client to the application.

  The threads are the event thread \<open>onEvent\<close>, one thread \<open>onResponse\<close> per connect, the network
  callback and the application. The fields they share without a lock, \<open>session_id\<close> above all, are
  read and written in steps of their own. The siren library, json-c and the speech client are
  outside: the calls to them are the outputs, and what they return is an argument.
\<close>

unbundle bit_operations_syntax

section \<open>Data\<close>

datatype siren_state = SIREN_STATE_UNKNOWN | SIREN_STATE_INITED | SIREN_STATE_STARTED | SIREN_STATE_STOPED
datatype speech_state = SPEECH_STATE_UNKNOWN | SPEECH_STATE_PREPARED | SPEECH_STATE_RELEASED

datatype siren_event = SIREN_EVENT_VAD_START | SIREN_EVENT_VAD_DATA | SIREN_EVENT_VAD_END | SIREN_EVENT_VAD_CANCEL
  | SIREN_EVENT_WAKE_PRE | SIREN_EVENT_WAKE_CMD | SIREN_EVENT_SLEEP | SIREN_EVENT_VOICE_PRINT | SIREN_EVENT_other nat

text \<open>
  The buffer of an event: NULL, the caller's, which is gone when the callback has returned, or the
  copy behind the event. Doubles and floats are their bits.
\<close>

datatype buff = No_buff | Foreign str | Copied str

record voice_event =
  ev :: siren_event
  ev_length :: int
  ev_flag :: u32
  ev_sl :: u64
  ev_energy :: u64
  ev_threshold :: u64
  ev_vt_start :: int
  ev_vt_end :: int
  ev_vt_energy :: u32
  ev_buff :: buff

definition HAS_VOICE :: "voice_event \<Rightarrow> bool" where
  "HAS_VOICE e \<longleftrightarrow> ev_flag e AND 1 \<noteq> 0"

definition HAS_VT :: "voice_event \<Rightarrow> bool" where
  "HAS_VT e \<longleftrightarrow> ev_flag e AND 4 \<noteq> 0"

datatype app_event = VOICE_COMING | VOICE_LOCAL_WAKE | VOICE_START_EVENT | VOICE_DATA_EVENT | VOICE_ACCEPT | VOICE_REJECT
  | VOICE_CANCEL | VOICE_LOCAL_SLEEP

record voice_config =
  cfg_device_id :: str
  cfg_device_type_id :: str
  cfg_key :: str
  cfg_secret :: str
  cfg_vad_mode :: str

record service =
  siren_state :: siren_state
  speech_state :: speech_state
  session_id :: int
  vt_start :: int
  vt_end :: int
  vt_energy :: u32
  vt_word :: str
  appid :: str
  asr_finished :: bool
  has_vt :: bool
  openSiren :: bool
  local_sleep :: bool
  events :: "voice_event list"
  config :: voice_config

text \<open>The calls the service makes.\<close>

datatype out = Siren_start | Siren_stop | Siren_sleep | Speech_prepare prepare_options bool | Speech_config speech_modifier | Speech_release
  | Start_voice voice_options int | Put_voice int "str option" | End_voice int | Cancel_voice int
  | App_event int app_event u64 u64 | App_inter int res_type str | App_command int str str str | App_error int nat

section \<open>The configuration\<close>

text \<open>The members of the profile that json-c finds, by name, as C strings; a number is read as a C int. JSON null is left out.\<close>

record profile =
  p_string :: "string \<Rightarrow> str option"
  p_int :: "string \<Rightarrow> int option"

definition lang_str2i :: "str \<Rightarrow> lang" where
  "lang_str2i s = (if s = ascii ''en'' then EN else ZH)"

definition codec_str2i :: "str \<Rightarrow> codec" where
  "codec_str2i s = (if s = ascii ''opu'' then OPU else PCM)"

definition vadmode_str2i :: "str \<Rightarrow> vad_mode" where
  "vadmode_str2i s = (if s = ascii ''cloud'' then CLOUD else LOCAL)"

definition cloud_vad_enable :: "voice_config \<Rightarrow> bool" where
  "cloud_vad_enable c \<longleftrightarrow> cfg_vad_mode c = ascii ''cloud''"

definition save_config :: "str \<Rightarrow> str \<Rightarrow> str \<Rightarrow> str \<Rightarrow> voice_config \<Rightarrow> voice_config" where
  "save_config d dt k sec c =
     c\<lparr>cfg_device_id := (if cfg_device_id c = [] then d else cfg_device_id c),
       cfg_device_type_id := (if cfg_device_type_id c = [] then dt else cfg_device_type_id c),
       cfg_key := (if cfg_key c = [] then k else cfg_key c),
       cfg_secret := (if cfg_secret c = [] then sec else cfg_secret c)\<rparr>"

definition from_profile :: "profile \<Rightarrow> string \<Rightarrow> str \<Rightarrow> str \<Rightarrow> str" where
  "from_profile p x own old = (if own = [] then (case p_string p x of Some s \<Rightarrow> s | None \<Rightarrow> old) else own)"

definition prepare_options_of :: "profile \<Rightarrow> voice_config \<Rightarrow> prepare_options" where
  "prepare_options_of p c =
     (let d = default_options in
      d\<lparr>host := (case p_string p ''host'' of Some s \<Rightarrow> s | None \<Rightarrow> host d),
        port := (case p_int p ''port'' of Some n \<Rightarrow> nat (u32_of n) | None \<Rightarrow> port d),
        branch := (case p_string p ''branch'' of Some s \<Rightarrow> s | None \<Rightarrow> branch d),
        key := from_profile p ''key'' (cfg_key c) (key d),
        device_type_id := from_profile p ''device_type_id'' (cfg_device_type_id c) (device_type_id d),
        device_id := from_profile p ''device_id'' (cfg_device_id c) (device_id d),
        secret := from_profile p ''secret'' (cfg_secret c) (secret d)\<rparr>)"

text \<open>The options for the speech client; the mode of the voice detection goes with its timeout only.\<close>

definition speech_options_of :: "profile \<Rightarrow> speech_modifier" where
  "speech_options_of p =
     (let m = speech_modifier_new;
          m = (case p_string p ''lang'' of Some s \<Rightarrow> set_speech_option (Set_lang (lang_str2i s)) m | None \<Rightarrow> m);
          m = (case p_string p ''codec'' of Some s \<Rightarrow> set_speech_option (Set_codec (codec_str2i s)) m | None \<Rightarrow> m) in
      case (p_string p ''vad_mode'', p_int p ''vend_timeout'') of
        (Some s, Some n) \<Rightarrow> set_speech_option (Set_vad_mode (vadmode_str2i (c_str s)) (word_of_int n)) m
      | _ \<Rightarrow> m)"

text \<open>
  \<open>VoiceConfig::prepare\<close> with the profile, None when there is no file, and what the speech client's
  \<open>prepare\<close> returns for the options: the calls it makes, its result, and the new configuration.
\<close>

definition config_prepare :: "profile option \<Rightarrow> (prepare_options \<Rightarrow> bool) \<Rightarrow> voice_config \<Rightarrow> out list \<times> bool \<times> voice_config" where
  "config_prepare profile prepare c =
     (case profile of
        None \<Rightarrow> ([], False, c)
      | Some p \<Rightarrow>
          (let o1 = prepare_options_of p c; c1 = (case p_string p ''vad_mode'' of Some s \<Rightarrow> c\<lparr>cfg_vad_mode := s\<rparr> | None \<Rightarrow> c) in
           if prepare o1 then ([Speech_prepare o1 True, Speech_config (speech_options_of p)], True, c1)
           else ([Speech_prepare o1 False], False, c1)))"

section \<open>The application and the network\<close>

definition service_new :: service where
  "service_new = \<lparr>siren_state = SIREN_STATE_UNKNOWN, speech_state = SPEECH_STATE_UNKNOWN, session_id = -1, vt_start = 0, vt_end = 0,
     vt_energy = 0, vt_word = [], appid = [], asr_finished = False, has_vt = False, openSiren = True, local_sleep = False, events = [],
     config = \<lparr>cfg_device_id = [], cfg_device_type_id = [], cfg_key = [], cfg_secret = [], cfg_vad_mode = []\<rparr>\<rparr>"

text \<open>\<open>clear(id)\<close> under the session lock\<close>

definition clear_session :: "int \<Rightarrow> service \<Rightarrow> service" where
  "clear_session i s = (if i = -1 \<or> i = session_id s then s\<lparr>session_id := -1\<rparr> else s)"

definition siren_find_card :: int where
  "siren_find_card = -1"

text \<open>\<open>while (index++ < 3)\<close> with \<open>k\<close> tries left; \<open>usb\<close> is the build for USB_AUDIO_DEVICE.\<close>

fun wait_for_alsa_usb_card :: "nat \<Rightarrow> bool" where
  "wait_for_alsa_usb_card 0 = False"
| "wait_for_alsa_usb_card (Suc k) = (if 0 \<le> siren_find_card then True else wait_for_alsa_usb_card k)"

definition card_ready :: "bool \<Rightarrow> bool" where
  "card_ready usb \<longleftrightarrow> \<not> usb \<or> wait_for_alsa_usb_card 3"

text \<open>\<open>ok\<close> is what \<open>setup\<close> returns: whether the microphone opens.\<close>

definition init :: "bool \<Rightarrow> service \<Rightarrow> bool \<times> service" where
  "init ok s =
     (if siren_state s = SIREN_STATE_UNKNOWN then (if ok then (True, s\<lparr>siren_state := SIREN_STATE_INITED\<rparr>) else (False, s))
      else (True, s))"

definition siren_can_start :: "service \<Rightarrow> bool" where
  "siren_can_start s \<longleftrightarrow> siren_state s = SIREN_STATE_INITED \<or> siren_state s = SIREN_STATE_STOPED"

definition start_siren :: "bool \<Rightarrow> bool \<Rightarrow> service \<Rightarrow> out list \<times> service" where
  "start_siren usb isopen s =
     (let (outs, s1) =
        (if isopen \<and> siren_can_start s
         then (if card_ready usb then ([Siren_start], s\<lparr>openSiren := True, siren_state := SIREN_STATE_STARTED\<rparr>)
               else ([], s\<lparr>openSiren := True\<rparr>))
         else if \<not> isopen \<and> siren_state s = SIREN_STATE_STARTED then ([Siren_stop], s\<lparr>siren_state := SIREN_STATE_STOPED\<rparr>)
         else ([], s)) in
      (outs, if \<not> isopen \<and> siren_state s1 \<noteq> SIREN_STATE_UNKNOWN then s1\<lparr>openSiren := False\<rparr> else s1))"

text \<open>
  \<open>network_state_change\<close>: the first half, which says whether the speech client was prepared, and the second
  half after a successful prepare, under the siren lock.
\<close>

definition network_connect :: "profile option \<Rightarrow> (prepare_options \<Rightarrow> bool) \<Rightarrow> service \<Rightarrow> out list \<times> bool \<times> service" where
  "network_connect profile prepare s =
     (if speech_state s = SPEECH_STATE_PREPARED then ([], False, s)
      else (let (outs, ok, c) = config_prepare profile prepare (config s); s1 = s\<lparr>config := c\<rparr> in
        (outs, ok, if ok then (clear_session (-1) s1)\<lparr>speech_state := SPEECH_STATE_PREPARED\<rparr> else s1)))"

definition network_siren :: "bool \<Rightarrow> service \<Rightarrow> out list \<times> service" where
  "network_siren usb s =
     (if openSiren s \<and> siren_can_start s \<and> card_ready usb then ([Siren_start], s\<lparr>siren_state := SIREN_STATE_STARTED\<rparr>) else ([], s))"

definition network_disconnect :: "service \<Rightarrow> out list \<times> service" where
  "network_disconnect s =
     (if speech_state s = SPEECH_STATE_PREPARED
      then (if siren_state s = SIREN_STATE_STARTED
            then ([Siren_stop, Speech_release], s\<lparr>siren_state := SIREN_STATE_STOPED, speech_state := SPEECH_STATE_RELEASED\<rparr>)
            else ([Speech_release], s\<lparr>speech_state := SPEECH_STATE_RELEASED\<rparr>))
      else ([], s))"

definition update_stack :: "str \<Rightarrow> service \<Rightarrow> service" where
  "update_stack a s = s\<lparr>appid := a\<rparr>"

definition update_config :: "str \<Rightarrow> str \<Rightarrow> str \<Rightarrow> str \<Rightarrow> service \<Rightarrow> service" where
  "update_config d dt k sec s = s\<lparr>config := save_config d dt k sec (config s)\<rparr>"

text \<open>The words of the siren; \<open>r\<close> is what the library returns.\<close>

definition add_vt_word :: "int \<Rightarrow> service \<Rightarrow> int" where
  "add_vt_word r s = (if siren_state s = SIREN_STATE_STARTED then r else -1)"

definition remove_vt_word :: "int \<Rightarrow> str \<Rightarrow> service \<Rightarrow> int" where
  "remove_vt_word r w s = (if siren_state s = SIREN_STATE_STARTED \<and> w \<noteq> [] then r else -1)"

definition get_vt_word :: "int \<Rightarrow> service \<Rightarrow> int" where
  "get_vt_word r s = (if siren_state s = SIREN_STATE_STARTED then r else -1)"

text \<open>\<open>query_vt_word\<close>: the words of the library are appended one by one, but written from index 0.\<close>

fun copy_words :: "'w \<Rightarrow> nat \<Rightarrow> 'w list \<Rightarrow> 'w list \<Rightarrow> 'w list" where
  "copy_words d i [] vs = vs"
| "copy_words d i (x # xs) vs = copy_words d (Suc i) xs ((vs @ [d])[i := x])"

definition query_vt_word :: "'w \<Rightarrow> int \<Rightarrow> 'w list \<Rightarrow> 'w list \<Rightarrow> 'w list" where
  "query_vt_word d count found vs = (if 0 < count then copy_words d 0 (take (nat count) found) vs else vs)"

section \<open>The events of the siren\<close>

text \<open>
  \<open>voice_event_callback\<close>: the event is copied with \<open>len\<close> bytes of room behind it; the buffer is copied there
  when the flags say that there is one, else the pointer of the caller is kept. None is a read through a
  NULL pointer or past the caller's bytes.
\<close>

definition copy_event :: "voice_event \<Rightarrow> voice_event c" where
  "copy_event e =
     (if (HAS_VOICE e \<or> HAS_VT e) \<and> 0 < ev_length e
      then (case ev_buff e of
              Foreign bs \<Rightarrow> if nat (ev_length e) \<le> length bs then Some (e\<lparr>ev_buff := Copied (take (nat (ev_length e)) bs)\<rparr>) else None
            | _ \<Rightarrow> None)
      else Some e)"

definition voice_event_callback :: "voice_event \<Rightarrow> service \<Rightarrow> service c" where
  "voice_event_callback e s = do { e' \<leftarrow> copy_event e; Some (s\<lparr>events := events s @ [e']\<rparr>) }"

text \<open>\<open>vt_word = (char*) buff\<close> reads up to a NUL.\<close>

definition voice_print :: "voice_event \<Rightarrow> service \<Rightarrow> service c" where
  "voice_print e s =
     (if HAS_VT e
      then (case ev_buff e of
              Copied bs \<Rightarrow>
                if 0 \<in> set bs
                then Some (s\<lparr>vt_start := ev_vt_start e, vt_end := ev_vt_end e, vt_energy := ev_vt_energy e, vt_word := c_str bs, has_vt := True\<rparr>)
                else None
            | _ \<Rightarrow> None)
      else Some s)"

text \<open>
  The options of \<open>vad_start\<close>, for the skill options of the application and the JSON text of the threshold.
\<close>

definition vad_options :: "str \<Rightarrow> str \<Rightarrow> service \<Rightarrow> (voice_options \<times> service) c" where
  "vad_options skills threshold s =
     (if has_vt s
      then do {
        n \<leftarrow> s32 (vt_end s - vt_start s);
        Some (\<lparr>vo_stack = appid s, vo_voice_trigger = vt_word s, vo_trigger_start = word_of_int (vt_start s),
                vo_trigger_length = word_of_int n, vo_voice_power = vt_energy s, vo_skill_options = skills, vo_voice_extra = threshold\<rparr>,
              s\<lparr>has_vt := False\<rparr>) }
      else Some (\<lparr>vo_stack = appid s, vo_voice_trigger = [], vo_trigger_start = 0, vo_trigger_length = 0, vo_voice_power = 0,
                   vo_skill_options = skills, vo_voice_extra = threshold\<rparr>, s))"

text \<open>What \<open>put_voice\<close> is given: an empty buffer whose pointer dangles is not read.\<close>

definition voice_data :: "voice_event \<Rightarrow> str option c" where
  "voice_data e =
     (case ev_buff e of
        No_buff \<Rightarrow> Some None
      | Copied bs \<Rightarrow> Some (Some bs)
      | Foreign bs \<Rightarrow> if ev_length e = 0 then Some (Some []) else None)"

section \<open>The event thread\<close>

text \<open>
  One step of \<open>onEvent\<close> ends at each read or write of the session, and at each call. \<open>Ev_begin\<close> to
  \<open>Ev_started\<close> are \<open>vad_start\<close>, the store of its result, and the report to the application.
\<close>

datatype ev_pc = Ev_off | Ev_wait | Ev_handle voice_event | Ev_begin voice_event | Ev_call voice_options | Ev_store int | Ev_started
  | Ev_put voice_event | Ev_data voice_event | Ev_do_end | Ev_clear | Ev_do_cancel | Ev_cancelled | Ev_sleep

fun handle_event :: "voice_event \<Rightarrow> service \<Rightarrow> (out list \<times> ev_pc \<times> service) c" where
  "handle_event e s =
     (case ev e of
        SIREN_EVENT_WAKE_PRE \<Rightarrow> Some ([App_event (-1) VOICE_COMING (ev_sl e) 0], Ev_wait, s)
      | SIREN_EVENT_WAKE_CMD \<Rightarrow> Some ([App_event (-1) VOICE_LOCAL_WAKE (ev_sl e) 0], Ev_wait, s)
      | SIREN_EVENT_VAD_START \<Rightarrow> Some ([], if session_id s < 0 then Ev_begin e else Ev_wait, s)
      | SIREN_EVENT_VAD_DATA \<Rightarrow> Some ([], if 0 < session_id s \<and> HAS_VOICE e then Ev_put e else Ev_wait, s)
      | SIREN_EVENT_VAD_END \<Rightarrow>
          Some ([], if cloud_vad_enable (config s) then Ev_wait else if 0 < session_id s then Ev_do_end else Ev_clear, s)
      | SIREN_EVENT_VAD_CANCEL \<Rightarrow>
          Some ([], if 0 < session_id s \<and> (\<not> asr_finished s \<or> local_sleep s) then Ev_do_cancel else Ev_cancelled, s)
      | SIREN_EVENT_VOICE_PRINT \<Rightarrow> do { s' \<leftarrow> voice_print e s; Some ([], Ev_wait, s') }
      | SIREN_EVENT_SLEEP \<Rightarrow> Some ([], Ev_sleep, s\<lparr>local_sleep := True\<rparr>)
      | SIREN_EVENT_other n \<Rightarrow> Some ([], Ev_wait, s))"

text \<open>\<open>r\<close> is what \<open>start_voice\<close> returns; a thread that waits takes the first event.\<close>

fun event_step :: "str \<Rightarrow> (u64 \<Rightarrow> str) \<Rightarrow> int \<Rightarrow> ev_pc \<Rightarrow> service \<Rightarrow> (out list \<times> ev_pc \<times> service) c" where
  "event_step skills threshold r Ev_off s = Some ([], Ev_off, s)"
| "event_step skills threshold r Ev_wait s =
     (case events s of [] \<Rightarrow> Some ([], Ev_wait, s) | e # es \<Rightarrow> Some ([], Ev_handle e, s\<lparr>events := es\<rparr>))"
| "event_step skills threshold r (Ev_handle e) s = handle_event e s"
| "event_step skills threshold r (Ev_begin e) s =
     (if speech_state s = SPEECH_STATE_PREPARED
      then do { (vo, s') \<leftarrow> vad_options skills (threshold (ev_threshold e)) s; Some ([], Ev_call vo, s') }
      else Some ([], Ev_store (-1), s))"
| "event_step skills threshold r (Ev_call vo) s = Some ([Start_voice vo r], Ev_store r, s)"
| "event_step skills threshold r (Ev_store i) s = Some ([], Ev_started, s\<lparr>session_id := i\<rparr>)"
| "event_step skills threshold r Ev_started s = Some ([App_event (session_id s) VOICE_START_EVENT 0 0], Ev_wait, s)"
| "event_step skills threshold r (Ev_put e) s = do { d \<leftarrow> voice_data e; Some ([Put_voice (session_id s) d], Ev_data e, s) }"
| "event_step skills threshold r (Ev_data e) s = Some ([App_event (session_id s) VOICE_DATA_EVENT 0 (ev_energy e)], Ev_wait, s)"
| "event_step skills threshold r Ev_do_end s = Some ([End_voice (session_id s)], Ev_clear, s)"
| "event_step skills threshold r Ev_clear s = Some ([], Ev_wait, clear_session (-1) s)"
| "event_step skills threshold r Ev_do_cancel s = Some ([Cancel_voice (session_id s)], Ev_cancelled, s)"
| "event_step skills threshold r Ev_cancelled s =
     Some ([], if cloud_vad_enable (config s) then Ev_clear else Ev_wait, s\<lparr>asr_finished := False\<rparr>)"
| "event_step skills threshold r Ev_sleep s = Some ([App_event (session_id s) VOICE_LOCAL_SLEEP 0 0], Ev_wait, s)"

section \<open>The response threads\<close>

definition transform_string_to_event :: "str \<Rightarrow> app_event" where
  "transform_string_to_event a = (if a = ascii ''accept'' \<or> a = ascii ''none'' then VOICE_ACCEPT else VOICE_REJECT)"

definition arbitration :: "str \<Rightarrow> bool" where
  "arbitration a \<longleftrightarrow> a = ascii ''fake'' \<or> a = ascii ''reject''"

text \<open>The locals of \<open>onResponse\<close>.\<close>

record result_reader =
  activation :: str
  last_asr :: str

definition reader_new :: result_reader where
  "reader_new = \<lparr>activation = [], last_asr = []\<rparr>"

text \<open>
  The first half of a result: \<open>act\<close> is json-c's look-up of "activation" in the extra of the result, None
  where there is none.
\<close>

definition on_extra :: "(str \<Rightarrow> str option) \<Rightarrow> result \<Rightarrow> result_reader \<Rightarrow> service \<Rightarrow> out list \<times> result_reader \<times> service" where
  "on_extra act r l s =
     (if res_type r = SPEECH_RES_START then ([], l\<lparr>activation := []\<rparr>, s\<lparr>asr_finished := False, local_sleep := False\<rparr>)
      else if (res_type r = SPEECH_RES_INTER \<or> res_type r = SPEECH_RES_END) \<and> res_extra r \<noteq> []
      then (case act (res_extra r) of
              None \<Rightarrow> ([], l, s)
            | Some a \<Rightarrow> (App_event (res_id r) (transform_string_to_event a) 0 0 # (if arbitration a then [Siren_sleep] else []),
                l\<lparr>activation := a\<rparr>, s))
      else ([], l, s))"

text \<open>The second half.\<close>

definition on_asr_finish :: "result \<Rightarrow> result_reader \<Rightarrow> service \<Rightarrow> out list \<times> result_reader \<times> service" where
  "on_asr_finish r l s =
     (let l' = l\<lparr>last_asr := res_asr r\<rparr> in
      if session_id s = res_id r \<or> cloud_vad_enable (config s)
      then ([Siren_sleep, App_inter (res_id r) (res_type r) (res_asr r)], l', s\<lparr>asr_finished := True\<rparr>)
      else ([App_inter (res_id r) (res_type r) (res_asr r)], l', s))"

definition on_result :: "result \<Rightarrow> result_reader \<Rightarrow> service \<Rightarrow> out list \<times> result_reader \<times> service" where
  "on_result r l s =
     (if arbitration (activation l) then ([], l, s)
      else (case res_type r of
        SPEECH_RES_INTER \<Rightarrow> ([App_inter (res_id r) (res_type r) (res_asr r)], l, s)
      | SPEECH_RES_ASR_FINISH \<Rightarrow> on_asr_finish r l s
      | SPEECH_RES_END \<Rightarrow> ([App_command (res_id r) (last_asr l) (res_nlp r) (res_action r)], l, s)
      | SPEECH_RES_CANCELLED \<Rightarrow>
          (if local_sleep s then [] else [App_event (res_id r) VOICE_CANCEL 0 0], l, s\<lparr>local_sleep := False\<rparr>)
      | SPEECH_RES_ERROR \<Rightarrow>
          (if res_err r \<noteq> 0
           then ((if session_id s = res_id r \<and> cloud_vad_enable (config s) then [Siren_sleep] else []) @ [App_error (res_id r) (res_err r)],
                 l\<lparr>activation := []\<rparr>, s\<lparr>asr_finished := False, local_sleep := False\<rparr>)
           else ([], l, s))
      | SPEECH_RES_START \<Rightarrow> ([], l, s)))"

definition on_final :: "result \<Rightarrow> service \<Rightarrow> service" where
  "on_final r s = (if final_res (res_type r) then clear_session (res_id r) s else s)"

text \<open>The body of the loop as one run, and the loop over the results that \<open>poll\<close> gives.\<close>

definition on_response :: "(str \<Rightarrow> str option) \<Rightarrow> result \<Rightarrow> result_reader \<Rightarrow> service \<Rightarrow> out list \<times> result_reader \<times> service" where
  "on_response act r l s =
     (let (o1, l1, s1) = on_extra act r l s; (o2, l2, s2) = on_result r l1 s1 in (o1 @ o2, l2, on_final r s2))"

fun on_responses :: "(str \<Rightarrow> str option) \<Rightarrow> result list \<Rightarrow> result_reader \<Rightarrow> service \<Rightarrow> out list \<times> result_reader \<times> service" where
  "on_responses act [] l s = ([], l, s)"
| "on_responses act (r # rs) l s =
     (let (o1, l1, s1) = on_response act r l s; (o2, l2, s2) = on_responses act rs l1 s1 in (o1 @ o2, l2, s2))"

section \<open>The threads together\<close>

datatype reader_pc = R_poll | R_extra result | R_result result | R_final result

record service_run =
  svc :: service
  ev_at :: ev_pc
  readers :: "(reader_pc \<times> result_reader) list"
  connecting :: bool

definition service_start :: service_run where
  "service_start = \<lparr>svc = service_new, ev_at = Ev_off, readers = [], connecting = False\<rparr>"

text \<open>
  \<open>connecting\<close> is a connect that was prepared and has not looked at the siren yet: it holds the lock of
  \<open>network_state_change\<close>. \<open>usb\<close> is the build, \<open>act\<close> the look-up in an extra. A thread of an older connect reads on until
  its \<open>poll\<close> returns false.
\<close>

inductive service_step :: "bool \<Rightarrow> (str \<Rightarrow> str option) \<Rightarrow> service_run \<Rightarrow> out list \<Rightarrow> service_run \<Rightarrow> bool" for usb act where
  sv_init: "init ok (svc w) = (b, s) \<Longrightarrow> service_step usb act w [] (w\<lparr>svc := s,
      ev_at := (if siren_state (svc w) = SIREN_STATE_UNKNOWN \<and> b then Ev_wait else ev_at w)\<rparr>)"
| sv_start_siren: "start_siren usb isopen (svc w) = (outs, s) \<Longrightarrow> service_step usb act w outs (w\<lparr>svc := s\<rparr>)"
| sv_connect: "\<not> connecting w \<Longrightarrow> network_connect profile prepare (svc w) = (outs, b, s) \<Longrightarrow>
    service_step usb act w outs (w\<lparr>svc := s, connecting := b, readers := (if b then readers w @ [(R_poll, reader_new)] else readers w)\<rparr>)"
| sv_connected: "connecting w \<Longrightarrow> network_siren usb (svc w) = (outs, s) \<Longrightarrow> service_step usb act w outs (w\<lparr>svc := s, connecting := False\<rparr>)"
| sv_disconnect: "\<not> connecting w \<Longrightarrow> network_disconnect (svc w) = (outs, s) \<Longrightarrow> service_step usb act w outs (w\<lparr>svc := s\<rparr>)"
| sv_stack: "service_step usb act w [] (w\<lparr>svc := update_stack a (svc w)\<rparr>)"
| sv_config: "service_step usb act w [] (w\<lparr>svc := update_config d dt k sec (svc w)\<rparr>)"
| sv_siren_event: "voice_event_callback e (svc w) = Some s \<Longrightarrow> service_step usb act w [] (w\<lparr>svc := s\<rparr>)"
| sv_event: "event_step skills threshold r (ev_at w) (svc w) = Some (outs, pc, s) \<Longrightarrow> r = -1 \<or> 0 < r \<Longrightarrow>
    service_step usb act w outs (w\<lparr>svc := s, ev_at := pc\<rparr>)"
| sv_poll: "i < length (readers w) \<Longrightarrow> readers w ! i = (R_poll, l) \<Longrightarrow>
    service_step usb act w [] (w\<lparr>readers := (readers w)[i := (R_extra r, l)]\<rparr>)"
| sv_closed: "i < length (readers w) \<Longrightarrow> readers w ! i = (R_poll, l) \<Longrightarrow>
    service_step usb act w [] (w\<lparr>readers := take i (readers w) @ drop (Suc i) (readers w)\<rparr>)"
| sv_extra: "i < length (readers w) \<Longrightarrow> readers w ! i = (R_extra r, l) \<Longrightarrow> on_extra act r l (svc w) = (outs, l', s) \<Longrightarrow>
    service_step usb act w outs (w\<lparr>svc := s, readers := (readers w)[i := (R_result r, l')]\<rparr>)"
| sv_result: "i < length (readers w) \<Longrightarrow> readers w ! i = (R_result r, l) \<Longrightarrow> on_result r l (svc w) = (outs, l', s) \<Longrightarrow>
    service_step usb act w outs (w\<lparr>svc := s, readers := (readers w)[i := (R_final r, l')]\<rparr>)"
| sv_final: "i < length (readers w) \<Longrightarrow> readers w ! i = (R_final r, l) \<Longrightarrow>
    service_step usb act w [] (w\<lparr>svc := on_final r (svc w), readers := (readers w)[i := (R_poll, l)]\<rparr>)"

inductive_cases service_stepE: "service_step usb act w outs w'"

end
