(* ===== verification/ServiceRuns.thy ===== *)
theory ServiceRuns
  imports Service SpeechInv
begin

text \<open>
  What the voice service does in its runs: the calls to the siren and to the speech client alternate, the voice
  goes to the session that was opened last, and how results reach the application.
\<close>

section \<open>Observers of the calls\<close>

lemma observe_observe: "observe (observe f) v ls = observe f v (concat ls)"
  by (induction ls arbitrary: v) (auto simp: observe_append split: option.split)

text \<open>Whether the siren runs and whether the speech client is prepared, as the calls say.\<close>

fun alternates :: "bool \<times> bool \<Rightarrow> out \<Rightarrow> (bool \<times> bool) option" where
  "alternates (on, prepared) Siren_start = (if on then None else Some (True, prepared))"
| "alternates (on, prepared) Siren_stop = (if on then Some (False, prepared) else None)"
| "alternates (on, prepared) (Speech_prepare p b) = (if prepared then None else Some (on, b))"
| "alternates (on, prepared) Speech_release = (if prepared then Some (on, False) else None)"
| "alternates v _ = Some v"

text \<open>The session that \<open>start_voice\<close> opened last and that was not ended, -1 for none.\<close>

fun to_session :: "int \<Rightarrow> out \<Rightarrow> int option" where
  "to_session v (Start_voice vo r) = Some r"
| "to_session v (Put_voice i d) = (if i = -1 \<or> i = v then Some v else None)"
| "to_session v (Cancel_voice i) = (if i = -1 \<or> i = v then Some v else None)"
| "to_session v (End_voice i) = (if i = -1 then Some v else if i = v then Some (-1) else None)"
| "to_session v _ = Some v"

section \<open>The siren and the client\<close>

definition states_ok :: "bool \<times> bool \<Rightarrow> service \<Rightarrow> bool" where
  "states_ok v s \<longleftrightarrow> v = (siren_state s = SIREN_STATE_STARTED, speech_state s = SPEECH_STATE_PREPARED)"

text \<open>Steps that leave the two states alone and make none of the four calls.\<close>

definition quiet :: "out list \<Rightarrow> bool" where
  "quiet = list_all (\<lambda>x. case x of Siren_start \<Rightarrow> False | Siren_stop \<Rightarrow> False | Speech_prepare p b \<Rightarrow> False | Speech_release \<Rightarrow> False | _ \<Rightarrow> True)"

lemma quiet_alternates: "quiet xs \<Longrightarrow> observe alternates v xs = Some v"
  unfolding quiet_def by (induction xs) (cases v, auto split: out.splits)

definition same_states :: "service \<Rightarrow> service \<Rightarrow> bool" where
  "same_states s s' \<longleftrightarrow> siren_state s' = siren_state s \<and> speech_state s' = speech_state s"

lemma same_states_ok: "same_states s s' \<Longrightarrow> states_ok v s \<Longrightarrow> states_ok v s'"
  by (simp add: same_states_def states_ok_def)

lemma clear_session_fields [simp]:
  "siren_state (clear_session i s) = siren_state s" "speech_state (clear_session i s) = speech_state s"
  "config (clear_session i s) = config s" "openSiren (clear_session i s) = openSiren s"
  by (simp_all add: clear_session_def)

lemma vad_options_same: "vad_options sk th s = Some (vo, s') \<Longrightarrow> same_states s s' \<and> session_id s' = session_id s"
  by (auto simp: vad_options_def same_states_def split: if_splits Option.bind_splits)

lemma voice_print_same: "voice_print e s = Some s' \<Longrightarrow> same_states s s' \<and> session_id s' = session_id s"
  by (auto simp: voice_print_def same_states_def split: if_splits buff.splits)

lemma handle_event_quiet: "handle_event e s = Some (outs, pc, s') \<Longrightarrow> quiet outs \<and> same_states s s'"
  by (auto simp: quiet_def same_states_def split: siren_event.splits Option.bind_splits dest: voice_print_same)

lemma event_step_quiet: "event_step skills th r pc s = Some (outs, pc', s') \<Longrightarrow> quiet outs \<and> same_states s s'"
proof (induction skills th r pc s rule: event_step.induct)
  case (3 skills th r e s)
  then show ?case using handle_event_quiet by simp
next
  case (4 skills th r e s)
  then show ?case by (auto simp: quiet_def same_states_def split: if_splits Option.bind_splits dest: vad_options_same)
qed (auto simp: quiet_def same_states_def split: list.splits Option.bind_splits)

lemma on_extra_quiet: "on_extra act r l s = (outs, l', s') \<Longrightarrow> quiet outs \<and> same_states s s' \<and> session_id s' = session_id s"
  by (auto simp: on_extra_def quiet_def same_states_def split: if_splits option.splits)

lemma on_result_quiet: "on_result r l s = (outs, l', s') \<Longrightarrow> quiet outs \<and> same_states s s' \<and> session_id s' = session_id s"
  by (auto simp: on_result_def on_asr_finish_def Let_def quiet_def same_states_def split: if_splits res_type.splits)

lemma on_final_same: "same_states s (on_final r s)"
  by (simp add: on_final_def same_states_def)

text \<open>The operations that call the siren or the client.\<close>

lemma init_states_ok: "init b s = (r, s') \<Longrightarrow> states_ok v s \<Longrightarrow> states_ok v s'"
  by (auto simp: init_def states_ok_def split: if_splits)

lemma start_siren_ok:
  "start_siren usb isopen s = (outs, s') \<Longrightarrow> states_ok v s \<Longrightarrow> \<exists>v'. observe alternates v outs = Some v' \<and> states_ok v' s'"
  by (auto simp: start_siren_def siren_can_start_def states_ok_def Let_def split: if_splits)

lemma network_connect_ok:
  "network_connect profile prepare s = (outs, b, s') \<Longrightarrow> states_ok v s \<Longrightarrow> \<exists>v'. observe alternates v outs = Some v' \<and> states_ok v' s'"
  by (auto simp: network_connect_def config_prepare_def states_ok_def Let_def split: if_splits option.splits)

lemma network_siren_ok:
  "network_siren usb s = (outs, s') \<Longrightarrow> states_ok v s \<Longrightarrow> \<exists>v'. observe alternates v outs = Some v' \<and> states_ok v' s'"
  by (auto simp: network_siren_def siren_can_start_def states_ok_def split: if_splits)

lemma network_disconnect_ok:
  "network_disconnect s = (outs, s') \<Longrightarrow> states_ok v s \<Longrightarrow> \<exists>v'. observe alternates v outs = Some v' \<and> states_ok v' s'"
  by (auto simp: network_disconnect_def states_ok_def split: if_splits)

lemma quiet_step: "quiet outs \<Longrightarrow> same_states s s' \<Longrightarrow> states_ok v s \<Longrightarrow> \<exists>v'. observe alternates v outs = Some v' \<and> states_ok v' s'"
  using quiet_alternates same_states_ok by blast

lemma quiet_Nil [simp]: "quiet []"
  by (simp add: quiet_def)

lemma same_states_simps [simp]:
  "same_states s (update_stack a s)" "same_states s (update_config d dt k sec s)"
  by (simp_all add: same_states_def update_stack_def update_config_def)

lemma callback_same: "voice_event_callback e s = Some s' \<Longrightarrow> same_states s s' \<and> session_id s' = session_id s"
  by (auto simp: voice_event_callback_def same_states_def split: Option.bind_splits)

lemma service_states_step:
  assumes "service_step usb act w outs w'" "states_ok v (svc w)"
  shows "\<exists>v'. observe alternates v outs = Some v' \<and> states_ok v' (svc w')"
  using assms
proof (cases rule: service_step.cases)
  case (sv_init ok b s)
  then show ?thesis using init_states_ok [OF _ assms(2)] by auto
next
  case (sv_start_siren isopen s)
  then show ?thesis using start_siren_ok [OF _ assms(2)] by simp
next
  case (sv_connect profile prepare b s)
  then show ?thesis using network_connect_ok [OF _ assms(2)] by simp
next
  case (sv_connected s)
  then show ?thesis using network_siren_ok [OF _ assms(2)] by simp
next
  case (sv_disconnect s)
  then show ?thesis using network_disconnect_ok [OF _ assms(2)] by simp
next
  case (sv_event skills th r pc s)
  then show ?thesis using quiet_step [OF _ _ assms(2)] event_step_quiet by auto
next
  case (sv_extra i r l l' s)
  then show ?thesis using quiet_step [OF _ _ assms(2)] on_extra_quiet by auto
next
  case (sv_result i r l l' s)
  then show ?thesis using quiet_step [OF _ _ assms(2)] on_result_quiet by auto
next
  case (sv_siren_event e s)
  then have "same_states (svc w) s" using callback_same by blast
  then show ?thesis using sv_siren_event quiet_step [OF quiet_Nil _ assms(2)] by auto
next
  case (sv_final i r l)
  then show ?thesis using same_states_ok [OF on_final_same assms(2)] by simp
qed (auto intro: same_states_ok [OF _ assms(2)])

interpretation alternating: observed "service_step usb act" "observe alternates" "\<lambda>v w. states_ok v (svc w)"
  by unfold_locales (rule service_states_step)

section \<open>The session\<close>

text \<open>
  The session is the one that was opened last, unless it has been cleared; between the test and the store of
  \<open>SIREN_EVENT_VAD_START\<close> there is none.
\<close>

definition starting :: "ev_pc \<Rightarrow> bool" where
  "starting pc \<longleftrightarrow> (case pc of Ev_begin e \<Rightarrow> True | Ev_call vo \<Rightarrow> True | Ev_store i \<Rightarrow> True | _ \<Rightarrow> False)"

definition session_ok :: "int \<Rightarrow> service_run \<Rightarrow> bool" where
  "session_ok v w \<longleftrightarrow> (siren_state (svc w) = SIREN_STATE_UNKNOWN \<longrightarrow> ev_at w = Ev_off) \<and>
     (session_id (svc w) = -1 \<or> 0 < session_id (svc w) \<and> (session_id (svc w) = v \<or> ev_at w = Ev_clear)) \<and>
     (starting (ev_at w) \<longrightarrow> session_id (svc w) = -1) \<and>
     (\<forall>i. ev_at w = Ev_store i \<longrightarrow> i = -1 \<or> 0 < i \<and> i = v)"

text \<open>Steps of the other threads: they make no call of a session, and clear the session at most.\<close>

definition calls_session :: "out \<Rightarrow> bool" where
  "calls_session x \<longleftrightarrow> (case x of Start_voice vo r \<Rightarrow> True | Put_voice i d \<Rightarrow> True | End_voice i \<Rightarrow> True | Cancel_voice i \<Rightarrow> True | _ \<Rightarrow> False)"

lemma no_calls: "list_all (\<lambda>x. \<not> calls_session x) xs \<Longrightarrow> observe to_session v xs = Some v"
  by (induction xs) (auto simp: calls_session_def split: out.splits)

lemma session_ok_others:
  "session_ok v w \<Longrightarrow> session_id (svc w') = session_id (svc w) \<or> session_id (svc w') = -1 \<Longrightarrow> ev_at w' = ev_at w \<Longrightarrow>
    (siren_state (svc w') = SIREN_STATE_UNKNOWN \<longrightarrow> siren_state (svc w) = SIREN_STATE_UNKNOWN) \<Longrightarrow> session_ok v w'"
  unfolding session_ok_def by metis

lemma session_ok_event:
  assumes "event_step skills th r (ev_at w) (svc w) = Some (outs, pc, s)" "r = -1 \<or> 0 < r" "session_ok v w"
  shows "\<exists>v'. observe to_session v outs = Some v' \<and> session_ok v' (w\<lparr>svc := s, ev_at := pc\<rparr>)"
proof (cases "ev_at w")
  case (Ev_handle e)
  then show ?thesis using assms
    by (auto simp: session_ok_def starting_def same_states_def split: siren_event.splits Option.bind_splits if_splits dest!: voice_print_same)
next
  case (Ev_begin e)
  then show ?thesis using assms
    by (auto simp: session_ok_def starting_def same_states_def split: Option.bind_splits if_splits dest!: vad_options_same)
qed (use assms in \<open>auto simp: session_ok_def starting_def clear_session_def split: list.splits Option.bind_splits if_splits\<close>)

lemma others_no_calls:
  "start_siren usb isopen s = (outs, s') \<Longrightarrow> list_all (\<lambda>x. \<not> calls_session x) outs \<and> session_id s' = session_id s"
  "network_connect profile prepare s = (outs, b, s') \<Longrightarrow>
     list_all (\<lambda>x. \<not> calls_session x) outs \<and> (session_id s' = session_id s \<or> session_id s' = -1)"
  "network_siren usb s = (outs, s') \<Longrightarrow> list_all (\<lambda>x. \<not> calls_session x) outs \<and> session_id s' = session_id s"
  "network_disconnect s = (outs, s') \<Longrightarrow> list_all (\<lambda>x. \<not> calls_session x) outs \<and> session_id s' = session_id s"
  "on_extra act r l s = (outs, l', s') \<Longrightarrow> list_all (\<lambda>x. \<not> calls_session x) outs \<and> session_id s' = session_id s"
  "on_result r l s = (outs, l', s') \<Longrightarrow> list_all (\<lambda>x. \<not> calls_session x) outs \<and> session_id s' = session_id s"
  "init ok s = (b', s') \<Longrightarrow> session_id s' = session_id s"
  by (auto simp: start_siren_def network_connect_def config_prepare_def network_siren_def network_disconnect_def on_extra_def on_result_def
      on_asr_finish_def init_def calls_session_def clear_session_def Let_def
      split: if_splits prod.splits option.splits res_type.splits)

lemma others_known:
  "start_siren usb isopen s = (outs, s') \<Longrightarrow> siren_state s' = SIREN_STATE_UNKNOWN \<longrightarrow> siren_state s = SIREN_STATE_UNKNOWN"
  "network_connect profile prepare s = (outs, b, s') \<Longrightarrow> siren_state s' = SIREN_STATE_UNKNOWN \<longrightarrow> siren_state s = SIREN_STATE_UNKNOWN"
  "network_siren usb s = (outs, s') \<Longrightarrow> siren_state s' = SIREN_STATE_UNKNOWN \<longrightarrow> siren_state s = SIREN_STATE_UNKNOWN"
  "network_disconnect s = (outs, s') \<Longrightarrow> siren_state s' = SIREN_STATE_UNKNOWN \<longrightarrow> siren_state s = SIREN_STATE_UNKNOWN"
  by (auto simp: start_siren_def network_connect_def config_prepare_def network_siren_def network_disconnect_def Let_def
      split: if_splits option.splits prod.splits)

text \<open>The event thread begins with no session being started.\<close>

lemma session_init:
  assumes "session_ok v w" "init ok (svc w) = (b, s)"
  shows "session_ok v (w\<lparr>svc := s, ev_at := (if siren_state (svc w) = SIREN_STATE_UNKNOWN \<and> b then Ev_wait else ev_at w)\<rparr>)"
  using assms by (auto simp: session_ok_def starting_def init_def split: if_splits)

lemma on_final_session: "session_id (on_final r s) = session_id s \<or> session_id (on_final r s) = -1"
  by (simp add: on_final_def clear_session_def)

lemma session_step:
  assumes "session_ok v w" "service_step usb act w outs w'"
  shows "\<exists>v'. observe to_session v outs = Some v' \<and> session_ok v' w'"
proof -
  have quiet: "\<exists>v'. observe to_session v outs = Some v' \<and> session_ok v' u"
    if "list_all (\<lambda>x. \<not> calls_session x) outs" "session_id (svc u) = session_id (svc w) \<or> session_id (svc u) = -1" "ev_at u = ev_at w"
      "siren_state (svc u) = SIREN_STATE_UNKNOWN \<longrightarrow> siren_state (svc w) = SIREN_STATE_UNKNOWN" for u
    using that no_calls session_ok_others [OF assms(1) that(2-4)] by blast
  from assms(2) show ?thesis
  proof (cases rule: service_step.cases)
    case (sv_init ok b s)
    then show ?thesis using session_init [OF assms(1), of ok b s] by auto
  next
    case (sv_event skills th r pc s)
    then show ?thesis using session_ok_event [OF _ _ assms(1)] by simp
  next
    case (sv_final i r l)
    show ?thesis unfolding sv_final(2)
      by (rule quiet) (use sv_final(1) on_final_session on_final_same [of "svc w" r] in \<open>simp_all add: same_states_def\<close>)
  next
    case (sv_siren_event e s)
    show ?thesis unfolding sv_siren_event(2)
      by (rule quiet) (use sv_siren_event callback_same in \<open>auto simp: same_states_def\<close>)
  next
    case (sv_start_siren isopen s)
    show ?thesis unfolding sv_start_siren(1)
      by (rule quiet) (use others_no_calls(1) [OF sv_start_siren(2)] others_known(1) [OF sv_start_siren(2)] in simp_all)
  next
    case (sv_connect profile prepare b s)
    show ?thesis unfolding sv_connect(1)
      by (rule quiet) (use others_no_calls(2) [OF sv_connect(3)] others_known(2) [OF sv_connect(3)] in simp_all)
  next
    case (sv_connected s)
    show ?thesis unfolding sv_connected(1)
      by (rule quiet) (use others_no_calls(3) [OF sv_connected(3)] others_known(3) [OF sv_connected(3)] in simp_all)
  next
    case (sv_disconnect s)
    show ?thesis unfolding sv_disconnect(1)
      by (rule quiet) (use others_no_calls(4) [OF sv_disconnect(3)] others_known(4) [OF sv_disconnect(3)] in simp_all)
  next
    case (sv_extra i r l l' s)
    show ?thesis unfolding sv_extra(1)
      by (rule quiet) (use others_no_calls(5) [OF sv_extra(4)] on_extra_quiet [OF sv_extra(4)] in \<open>simp_all add: same_states_def\<close>)
  next
    case (sv_result i r l l' s)
    show ?thesis unfolding sv_result(1)
      by (rule quiet) (use others_no_calls(6) [OF sv_result(4)] on_result_quiet [OF sv_result(4)] in \<open>simp_all add: same_states_def\<close>)
  next
    case (sv_stack a)
    show ?thesis unfolding sv_stack(2) by (rule quiet) (simp_all add: sv_stack(1) update_stack_def)
  next
    case (sv_config d dt k sec)
    show ?thesis unfolding sv_config(2) by (rule quiet) (simp_all add: sv_config(1) update_config_def)
  next
    case (sv_poll i l r)
    show ?thesis unfolding sv_poll(2) by (rule quiet) (simp_all add: sv_poll(1))
  next
    case (sv_closed i l)
    show ?thesis unfolding sv_closed(2) by (rule quiet) (simp_all add: sv_closed(1))
  qed
qed

interpretation sessions: observed "service_step usb act" "observe to_session" session_ok
  by unfold_locales (rule session_step)

section \<open>The calls of the service\<close>

text \<open>
  C40. In every interleaving of the network, the application, the siren, the event thread and any number of
  response threads, the service makes its calls in order. The siren is started only when it is stopped and
  stopped only when it runs, the speech client is prepared only when it is not prepared and released only when it
  is, and the states of the service say which. Each \<open>put_voice\<close>, \<open>end_voice\<close> and \<open>cancel\<close> goes to the
  session that the last \<open>start_voice\<close> returned, never to one after its \<open>end_voice\<close>, or to -1, because the field is read
  again for the call and a response thread may have cleared it.
\<close>

theorem service_calls_in_order:
  assumes "steps (service_step usb act) service_start ls w"
  shows "observe alternates (False, False) (concat ls) =
      Some (siren_state (svc w) = SIREN_STATE_STARTED, speech_state (svc w) = SPEECH_STATE_PREPARED) \<and>
    observe to_session (-1) (concat ls) \<noteq> None"
proof -
  have "states_ok (False, False) (svc service_start)" "session_ok (-1) service_start"
    by (simp_all add: states_ok_def session_ok_def service_start_def service_new_def starting_def)
  then show ?thesis
    using alternating.observe_steps [OF assms] sessions.observe_steps [OF assms] by (auto simp: observe_observe states_ok_def)
qed

text \<open>A connected service whose siren hears the start of a voice and its first data.\<close>

datatype service_script = Do_init | Do_connect | Do_siren | Do_callback voice_event | Do_event

fun service_exec1 :: "service_script \<Rightarrow> service_run \<Rightarrow> (out list \<times> service_run) option" where
  "service_exec1 Do_init w =
     (case init True (svc w) of (b, s) \<Rightarrow>
        Some ([], w\<lparr>svc := s, ev_at := (if siren_state (svc w) = SIREN_STATE_UNKNOWN \<and> b then Ev_wait else ev_at w)\<rparr>))"
| "service_exec1 Do_connect w =
     (if connecting w then None
      else (case network_connect (Some \<lparr>p_string = \<lambda>_. None, p_int = \<lambda>_. None\<rparr>) (\<lambda>_. True) (svc w) of (outs, b, s) \<Rightarrow>
        Some (outs, w\<lparr>svc := s, connecting := b, readers := (if b then readers w @ [(R_poll, reader_new)] else readers w)\<rparr>)))"
| "service_exec1 Do_siren w =
     (if connecting w then (case network_siren False (svc w) of (outs, s) \<Rightarrow> Some (outs, w\<lparr>svc := s, connecting := False\<rparr>)) else None)"
| "service_exec1 (Do_callback e) w = map_option (\<lambda>s. ([], w\<lparr>svc := s\<rparr>)) (voice_event_callback e (svc w))"
| "service_exec1 Do_event w = map_option (\<lambda>(outs, pc, s). (outs, w\<lparr>svc := s, ev_at := pc\<rparr>)) (event_step [] (\<lambda>_. []) 1 (ev_at w) (svc w))"

lemma service_exec1_step:
  assumes "service_exec1 x w = Some (outs, w')"
  shows "service_step False act w outs w'"
proof (cases "x = Do_init \<or> x = Do_connect")
  case True
  obtain b s where i: "init True (svc w) = (b, s)" by fastforce
  obtain os b' s' where c: "network_connect (Some \<lparr>p_string = \<lambda>_. None, p_int = \<lambda>_. None\<rparr>) (\<lambda>_. True) (svc w) = (os, b', s')"
    using prod_cases3 by blast
  show ?thesis
    using True
  proof
    assume "x = Do_init"
    then show ?thesis using service_step.sv_init [OF i, of False act] assms i by simp
  next
    assume "x = Do_connect"
    then show ?thesis using service_step.sv_connect [OF _ c, of False act] assms c by (simp split: if_splits)
  qed
next
  case False
  then show ?thesis using assms by (cases x) (auto intro: service_step.intros split: if_splits prod.splits)
qed

fun service_exec :: "service_script list \<Rightarrow> service_run \<Rightarrow> (out list list \<times> service_run) option" where
  "service_exec [] w = Some ([], w)"
| "service_exec (x # xs) w =
     (case service_exec1 x w of None \<Rightarrow> None
      | Some (outs, w1) \<Rightarrow> (case service_exec xs w1 of None \<Rightarrow> None | Some (ls, w2) \<Rightarrow> Some (outs # ls, w2)))"

lemma service_exec_steps: "service_exec xs w = Some (ls, w') \<Longrightarrow> steps (service_step False act) w ls w'"
proof (induction xs arbitrary: w ls)
  case (Cons x xs)
  then show ?case by (auto split: option.splits prod.splits intro: steps_Cons service_exec1_step)
qed (simp add: steps_none)

definition heard :: "siren_event \<Rightarrow> voice_event" where
  "heard e = \<lparr>ev = e, ev_length = 2, ev_flag = 1, ev_sl = 0, ev_energy = 0, ev_threshold = 0, ev_vt_start = 0, ev_vt_end = 0,
     ev_vt_energy = 0, ev_buff = Foreign [5, 6]\<rparr>"

lemma service_demo:
  "\<exists>ls w p m vo. service_exec [Do_init, Do_connect, Do_siren, Do_callback (heard SIREN_EVENT_VAD_START),
       Do_callback (heard SIREN_EVENT_VAD_DATA), Do_event, Do_event, Do_event, Do_event, Do_event, Do_event, Do_event, Do_event, Do_event] service_start = Some (ls, w) \<and>
     concat ls = [Speech_prepare p True, Speech_config m, Siren_start, Start_voice vo 1, App_event 1 VOICE_START_EVENT 0 0, Put_voice 1 (Some [5, 6])] \<and>
     siren_state (svc w) = SIREN_STATE_STARTED \<and> speech_state (svc w) = SPEECH_STATE_PREPARED"
  by (simp add: service_start_def service_new_def init_def network_connect_def config_prepare_def clear_session_def network_siren_def
      siren_can_start_def card_ready_def voice_event_callback_def copy_event_def heard_def HAS_VOICE_def vad_options_def voice_data_def Let_def)

theorem service_calls_in_order_witness:
  "\<exists>ls w p m vo. steps (service_step False (\<lambda>_. None)) service_start ls w \<and>
     concat ls = [Speech_prepare p True, Speech_config m, Siren_start, Start_voice vo 1, App_event 1 VOICE_START_EVENT 0 0, Put_voice 1 (Some [5, 6])] \<and>
     observe alternates (False, False) (concat ls) = Some (True, True) \<and> observe to_session (-1) (concat ls) \<noteq> None"
proof -
  obtain xs ls w p m vo where e: "service_exec xs service_start = Some (ls, w)"
      and c: "concat ls = [Speech_prepare p True, Speech_config m, Siren_start, Start_voice vo 1, App_event 1 VOICE_START_EVENT 0 0, Put_voice 1 (Some [5, 6])]"
        "siren_state (svc w) = SIREN_STATE_STARTED" "speech_state (svc w) = SPEECH_STATE_PREPARED"
    using service_demo by blast
  note s = service_exec_steps [OF e]
  show ?thesis
    using service_calls_in_order [OF s] c s by (intro exI [of _ ls] exI [of _ w] exI [of _ p] exI [of _ m] exI [of _ vo]) simp
qed

section \<open>Results after a rejection\<close>

text \<open>
  Once an activation was rejected, the response thread drops every result without an extra up to the next start, also
  the error of a later request; it only clears the session of those that end.
\<close>

theorem rejected_hides_results:
  assumes "arbitration (activation l)" "\<forall>r \<in> set rs. res_type r \<noteq> SPEECH_RES_START \<and> res_extra r = []"
  shows "on_responses act rs l s = ([], l, fold on_final rs s)"
  using assms(2)
proof (induction rs arbitrary: s)
  case (Cons r rs)
  then show ?case using assms(1) by (simp add: on_response_def on_extra_def on_result_def)
qed simp

end
