(* ===== verification/Spec2Isabelle.thy ===== *)
theory Spec2Isabelle
  imports MicControl Rlog PendingQueue PbEncodeSpec DecoderSpec RequestsSpec OpenslIO ConnectionRuns SpeechRuns TtsRuns ServiceRuns
begin

text \<open>
  Verification of the native part of the Rokid openvoice client: the code between the microphone
  and the speech server. Paths are under rokid-openvoice-process-android-ndk/jni/ (NDK) or
  rokid-openvoice-process-android-pro/ (PRO).

  \<^bold>\<open>The program.\<close> The client records audio, waits for its activation word, streams the voice to
  a server and reports recognition results. Audio comes from a microphone HAL (NDK main/mic_array.c,
  PRO hardware/modules/mic_array/mic_array.c) or from OpenSL ES (NDK main/opensl_io.c). The speech
  client (NDK speech/src/speech/speech_impl.cc) queues the requests of the application in a stream
  queue (common/pending_queue.h), tracks one operation per request (common/op_ctl.h), and sends and
  receives protocol buffers with nanopb (speech/nanopb) over one connection to the server
  (common/speech_connection.cc). The text-to-speech client (tts/tts_impl.cc) is built from the same
  parts. The voice service (NDK main/VoiceService.cpp) turns the events of the siren library into
  requests of the speech client and forwards its results. All parts log through rlog (common/rlog.c).

  \<^bold>\<open>Conventions.\<close> Undefined behaviour (access outside an object, signed overflow, NULL, a failing
  assert) is \<open>None\<close>; a theorem that a function is \<open>Some\<close> says that it runs to its end without
  any. Machine integers are words, or integers with the conversion written out (\<open>s32\<close>,
  \<open>u32_of\<close>, \<open>s32_of\<close> of Prelude). External code - ALSA, OpenSL ES, pthread, the allocator, the
  web socket library, callbacks of nanopb, the clock - is an argument of the functions that use it.
  Threads are interleaved critical sections: a function of a model is what the code does between two
  locks, and a thread that waits is cut there.

  \<^bold>\<open>The theories.\<close>

  \<^item> Prelude: checked arithmetic, memory blocks, the locales \<open>simulation\<close> (operations that refine
    a specification, run by run) and \<open>observed\<close> (an observer of the labels of a transition system).

  \<^item> MicArray: the two HALs' \<open>read_stream\<close>, with its frame cache, and the opening and starting of
    the PCM device. The locale of a device that delivers a stream gives: a read returns exactly the
    next bytes and any sequence of reads is a prefix of the stream as long as no read moves the rest of
    the cached frame onto itself; such a read copies overlapping regions with memcpy and is undefined.
    What memcpy does with them is a parameter of \<open>read_stream\<close>, \<open>no_overlap\<close> that it is undefined.
    No access leaves the buffers whatever the device answers. MicControl: the device functions around it, the card lookup and the
    mixer, and what the two variants do differently.

  \<^item> DList, Rlog: the intrusive list of rlog.c over a pointer heap, then the registry of endpoints
    and tags, the listing functions and the printing of messages; a refinement to lists and the
    undefined behaviour after removals.

  \<^item> StreamQueue, PendingQueue: \<open>class StreamQueue\<close> with iterators as keys of list nodes, its
    refinement to a list of streams, first-in-first-out delivery and the protocol of the results;
    the blocking queues as monitors: which wake-ups are never lost, and that close is when the
    consumer tests the queue before it waits. Spurious wake-ups of the stream queue are steps.

  \<^item> PbWire, PbCodec: streams, varints, fixed integers, tags and strings of pb_encode.c and
    pb_decode.c, and what they read back. PbFields: field descriptors, the memory of a message and
    the iterator of pb_common.c. PbEncode, PbEncodeSpec: every function of the message encoder and
    its refinement to a list of bytes. PbDecode, PbDecodeSpec: every function of the message decoder
    that the build compiles, its totality and memory safety. Messages: the C layout of the generated
    message structs (speech/nanopb-gen), the macros of pb.h and the tables of the fields, with the
    theorem that the tables are typed by the structs.

  \<^item> Decoder, DecoderItems, DecoderSpec: the response classes (common/nanopb_decoder.cc) with their
    callbacks; the decoder field by field on a message of numbers and strings, and the theorem that
    \<open>ParseFromArray\<close> reads what the fields on the wire say, whatever the object held before.

  \<^item> Encoder, EncoderObjects, EncoderSpec: the request classes (common/nanopb_encoder.cc): setters that
    write the struct and the strings, \<open>mutable_options\<close>, \<open>SerializeToString\<close>; what an object holds after
    any sequence of calls, and the theorem that it sends the values last set. Requests, RequestsSpec:
    the options of the speech client, the requests the clients build from them
    (speech_impl.cc, tts_impl.cc, speech_connection.cc), and their bytes.

  \<^item> OpenslIO: opening and closing with the resources held, also when an allocation or a lock fails, the thread lock, and the double
    buffering between \<open>android_AudioIn\<close> and the recorder.

  \<^item> OpCtl: the operations. OpAnswers: the invariant of a list of operations with a queue of
    answers, as the locale \<open>answered\<close>, which the two clients interpret.

  \<^item> Speech: the speech client with its three threads, on top of StreamQueue. SpeechInv: the
    invariant (operations and response streams belong together, identifiers are fresh, the sender is
    only past a request of the current operation) for every step but a spurious wake-up of the one
    wait that is not a loop. SpeechRuns: the order of the results, when the sender aborts, also
    after a spurious wake-up, and requests that answer for others.

  \<^item> Tts: the text-to-speech client with its options and three threads; TtsRuns: its invariant,
    the order of the results, and the failing assertion of \<open>poll\<close> after a spurious wake-up.

  \<^item> Connection: the stages of the connection, its work, keepalive, sender and receiver threads and
    the callbacks of the web socket as one transition system. \<open>onDisconnection\<close> runs on the thread that
    closes the socket: the work thread, the keepalive thread (terminate) or the thread of \<open>release\<close>.
    ConnectionRuns: messages arrive in order and once, when a lost connection is reported, the
    release that never returns, and the receiver that waits for a released connection.

  \<^item> Service: the voice service (VoiceService.cpp, voice_config.h, siren_control.cpp) with the states
    of siren and client, the queue of events, the event thread and the response threads, cut at their
    accesses to the session. ServiceRuns: its calls to the siren and to the client are in order in every
    interleaving, and what it drops after a rejection.

  \<^bold>\<open>Bounds.\<close> Nested messages recurse in the encoder and decoder up to a depth that is an argument
  (\<open>d\<close>): descriptors come with a depth bound, and the theorems hold whenever the argument is at
  least it. Loops of the decoder recurse on the number of bytes left or on the fields left, with
  termination proofs. \<open>size_t\<close> has 32 bits, as on the ABI of the build.

  \<^bold>\<open>Not modelled.\<close> Pure input and output, and glue: the JNI classes, the binder services and their
  proxies, Java code, tests and demos. Code that others wrote and this repository carries: boringssl,
  uWS, libopus, the headers of prebuilt libraries. Code whose core is floating point or closed
  binaries: libbsiren (two processes around the closed prebuilt libraries NNVad, r2ssp and zvtapi) and
  vsys-activation (activation by neural networks). Of the
  connection, TLS and the web socket library; of the two clients, the trace statistics (but for what a
  trace sends) and a second \<open>prepare\<close>. Lock order and data races are findings of the
  manifest, not of the interleaving models.
\<close>

end
